(* ===== verification/Prelude.thy ===== *)
theory Prelude
  imports Main "HOL-Library.Word" "HOL-Library.Monad_Syntax"
begin

text \<open>
  Shared vocabulary of the development: the fixed-width integer types of the C++ code,
  checked reads of a byte buffer, the collections of facts that the component theories
  hand to the simplifier, and the generic lemmas on bits, lists and maps that more than one
  component needs.
\<close>

unbundle bit_operations_syntax

type_synonym u8 = "8 word"
type_synonym u16 = "16 word"
type_synonym u32 = "32 word"
type_synonym u64 = "64 word"
type_synonym bytes = "u8 list"

named_theorems layout \<open>values of the wire-layout constants\<close>
named_theorems slot_arith \<open>arithmetic of table slots\<close>

text \<open>
  A read of \<open>n\<close> bytes at offset \<open>k\<close> of a buffer. \<open>None\<close> is a read outside
  the buffer, which is undefined behaviour in the C++ code; a definition that returns
  \<open>None\<close> has performed one.
\<close>

definition read_at :: "bytes \<Rightarrow> nat \<Rightarrow> nat \<Rightarrow> bytes option" where
  "read_at d k n = (if k + n \<le> length d then Some (take n (drop k d)) else None)"

lemma read_at_Some [simp]: "k + n \<le> length d \<Longrightarrow> read_at d k n = Some (take n (drop k d))"
  by (simp add: read_at_def)

lemma read_at_length: "read_at d k n = Some bs \<Longrightarrow> length bs = n"
  by (auto simp: read_at_def split: if_splits)

subsection \<open>Lists\<close>

lemma take_drop_append:
  "k = length xs \<Longrightarrow> n = length ys \<Longrightarrow> take n (drop k (xs @ ys @ zs)) = ys"
  by simp

lemma length2E:
  assumes "length xs = 2"
  obtains a b where "xs = [a, b]"
  using assms by (cases xs; cases "tl xs") auto

lemma length_filter_update:
  assumes "j < length xs"
  shows "length (filter P (xs[j := y])) + (if P (xs ! j) then 1 else 0) =
    length (filter P xs) + (if P y then 1 else 0)"
proof -
  have "xs = take j xs @ xs ! j # drop (Suc j) xs"
    using assms by (rule id_take_nth_drop)
  from arg_cong [OF this, of "filter P"]
  have "filter P xs = filter P (take j xs) @ filter P (xs ! j # drop (Suc j) xs)"
    by (simp only: filter_append)
  moreover have "filter P (xs[j := y]) = filter P (take j xs) @ filter P (y # drop (Suc j) xs)"
    by (simp only: upd_conv_take_nth_drop [OF assms] filter_append)
  ultimately show ?thesis by simp
qed

lemma length_filter_less_iff: "length (filter P xs) < length xs \<longleftrightarrow> (\<exists>j<length xs. \<not> P (xs ! j))"
proof
  assume "length (filter P xs) < length xs"
  then have "filter P xs \<noteq> xs" by auto
  then obtain x where "x \<in> set xs" "\<not> P x" by (auto simp: filter_id_conv)
  then show "\<exists>j<length xs. \<not> P (xs ! j)" by (auto simp: in_set_conv_nth)
next
  assume "\<exists>j<length xs. \<not> P (xs ! j)"
  then obtain j where "j < length xs" "\<not> P (xs ! j)" by blast
  then show "length (filter P xs) < length xs"
    by (rule length_filter_less [OF nth_mem])
qed

subsection \<open>Word bounds\<close>

lemma unat_u8_less [simp]: "unat (b :: u8) < 256"
proof -
  have "unat b < 2 ^ LENGTH(8)" by (rule unsigned_less)
  then show ?thesis by simp
qed

lemma unat_u16_less [simp]: "unat (b :: u16) < 65536"
proof -
  have "unat b < 2 ^ LENGTH(16)" by (rule unsigned_less)
  then show ?thesis by simp
qed

lemma unat_u32_less [simp]: "unat (b :: u32) < 4294967296"
proof -
  have "unat b < 2 ^ LENGTH(32)" by (rule unsigned_less)
  then show ?thesis by simp
qed

lemma unat_ucast_up:
  "LENGTH('a) \<le> LENGTH('b) \<Longrightarrow> unat (ucast (x :: 'a :: len word) :: 'b :: len word) = unat x"
proof -
  assume "LENGTH('a) \<le> LENGTH('b)"
  then have "(2::nat) ^ LENGTH('a) \<le> 2 ^ LENGTH('b)" by (rule power_increasing) simp
  moreover have "unat x < 2 ^ LENGTH('a)" by (rule unsigned_less)
  ultimately have "unat x < 2 ^ LENGTH('b)" by linarith
  then show ?thesis by (simp add: unsigned_ucast_eq take_bit_nat_eq_self_iff)
qed

lemma unat_plus_no_wrap:
  "unat a + unat b < 2 ^ LENGTH('a) \<Longrightarrow> unat (a + b) = unat a + unat (b :: 'a :: len word)"
  by (simp add: unat_word_ariths)

lemma unat_minus_le: "b \<le> a \<Longrightarrow> unat (a - b) = unat a - unat (b :: 'a :: len word)"
  by (simp add: unat_sub word_le_nat_alt)

subsection \<open>The first index of a bounded search\<close>

text \<open>
  The specification that the probe loops and level scans share: the least index below a
  bound that satisfies a predicate.
\<close>

fun first_index :: "(nat \<Rightarrow> bool) \<Rightarrow> nat \<Rightarrow> nat option" where
  "first_index P 0 = None"
| "first_index P (Suc m) =
     (if P 0 then Some 0 else map_option Suc (first_index (\<lambda>d. P (Suc d)) m))"

lemma first_index_Some_iff:
  "first_index P m = Some d \<longleftrightarrow> d < m \<and> P d \<and> (\<forall>e<d. \<not> P e)"
proof (induction P m arbitrary: d rule: first_index.induct)
  case (2 P m)
  show ?case
  proof (cases d)
    case 0
    then show ?thesis by auto
  next
    case (Suc d')
    then show ?thesis using 2 by (auto simp: All_less_Suc2)
  qed
qed simp

lemma first_index_None_iff: "first_index P m = None \<longleftrightarrow> (\<forall>d<m. \<not> P d)"
proof (induction P m rule: first_index.induct)
  case (2 P m)
  then show ?case by (auto simp: All_less_Suc2)
qed simp

lemma first_index_exists: "d < m \<Longrightarrow> P d \<Longrightarrow> \<exists>e\<le>d. first_index P m = Some e"
proof -
  assume d: "d < m" "P d"
  then have "first_index P m \<noteq> None" by (auto simp: first_index_None_iff)
  then obtain e where e: "first_index P m = Some e" by auto
  with d have "e \<le> d" by (metis first_index_Some_iff not_less)
  with e show ?thesis by blast
qed

lemma first_index_cong: "(\<And>d. d < m \<Longrightarrow> P d = Q d) \<Longrightarrow> first_index P m = first_index Q m"
proof (induction P m arbitrary: Q rule: first_index.induct)
  case (2 P m)
  have "P 0 = Q 0" by (rule 2(2)) simp
  moreover have "P (Suc d) = Q (Suc d)" if "d < m" for d by (rule 2(2)) (simp add: that)
  ultimately show ?case using 2(1) [of "\<lambda>d. Q (Suc d)"] by auto
qed simp

subsection \<open>Masks of powers of two\<close>

lemma and_mask_mod: "m = 2 ^ k - 1 \<Longrightarrow> (x :: nat) AND m = x mod 2 ^ k"
  by (simp add: take_bit_eq_mod [symmetric] take_bit_eq_mask mask_eq_exp_minus_1)

lemma map_eqI:
  assumes "\<And>x v. m x = Some v \<longleftrightarrow> m' x = Some v"
  shows "m = m'"
proof
  fix x
  show "m x = m' x"
  proof (cases "m x")
    case None
    then have "\<not> m' x = Some v" for v using assms [of x v] by simp
    then have "m' x = None" by (meson not_None_eq)
    then show ?thesis using None by simp
  next
    case (Some v)
    then show ?thesis using assms [of x v] by simp
  qed
qed

lemma takeWhile_shorter: "x \<in> set xs \<Longrightarrow> \<not> P x \<Longrightarrow> length (takeWhile P xs) < length xs"
  by (induction xs) auto

lemma dvd_next_le:
  fixes w n i :: nat
  assumes "w dvd n" "w dvd i" "i < n"
  shows "i + w \<le> n"
proof -
  obtain a b where ab: "n = w * a" "i = w * b" using assms(1,2) by (auto elim!: dvdE)
  then have "b < a" using assms(3) by simp
  then have "w * Suc b \<le> w * a" by (intro mult_le_mono2) simp
  then show ?thesis using ab by simp
qed

subsection \<open>Headroom of a 32-bit counter\<close>

lemma le_headroom_iff: "(a :: u32) \<le> -1 - b \<longleftrightarrow> unat a + unat b < 2 ^ 32"
proof -
  have "unat (-1 - b) = 2 ^ 32 - 1 - unat b"
    by (subst unat_minus_le) (simp_all add: unsigned_minus_1_eq_mask mask_eq_exp_minus_1)
  moreover have "(2 :: nat) ^ 32 = 4294967296" "unat b < 4294967296" by simp_all
  ultimately show ?thesis unfolding word_le_nat_alt by linarith
qed

lemma unat_max_iff: "(a :: u32) = -1 \<longleftrightarrow> Suc (unat a) = 2 ^ 32"
proof -
  have "unat (-1 :: u32) = 2 ^ 32 - 1" by (simp add: unsigned_minus_1_eq_mask mask_eq_exp_minus_1)
  then show ?thesis by (simp add: word_unat_eq_iff)
qed

lemma unat_inj_iff: "unat a = unat b \<longleftrightarrow> a = (b :: 'a :: len word)"
  by (simp add: word_unat_eq_iff)

lemma Suc_unat_less_iff: "Suc (unat (a :: u32)) < 2 ^ 32 \<longleftrightarrow> a \<noteq> -1"
proof -
  have "(2 :: nat) ^ 32 = 4294967296" "unat a < 4294967296" by simp_all
  then show ?thesis unfolding unat_max_iff by linarith
qed

end
