(* ===== verification/Endian.thy ===== *)
theory Endian
  imports Prelude
begin

text \<open>
  The byte-order helpers of \<^verbatim>\<open>sw/util/endian.hpp\<close>: unaligned little-endian host loads
  (\<open>memcpy\<close> on x86), the compiler's byte-swap builtins, the big-endian loads the decoder
  uses and the big-endian stores the generator uses. A pointer argument is the list of the
  bytes it points at. The facts proved are the value of each load, the bytes of each store and
  the round trip between them.
\<close>

subsection \<open>Words as byte lists\<close>

fun word_of_le :: "bytes \<Rightarrow> 'a :: len word" where
  "word_of_le [] = 0"
| "word_of_le (b # bs) = ucast b OR push_bit 8 (word_of_le bs)"

definition le_of_word :: "nat \<Rightarrow> 'a :: len word \<Rightarrow> bytes" where
  "le_of_word n v = map (\<lambda>i. ucast (drop_bit (8 * i) v)) [0..<n]"

lemma length_le_of_word [simp]: "length (le_of_word n v) = n"
  by (simp add: le_of_word_def)

lemma nth_le_of_word [simp]: "i < n \<Longrightarrow> le_of_word n v ! i = ucast (drop_bit (8 * i) v)"
  by (simp add: le_of_word_def)

lemma bit_word_of_le:
  "bit (word_of_le bs :: 'a :: len word) k \<longleftrightarrow>
     k < LENGTH('a) \<and> k div 8 < length bs \<and> bit (bs ! (k div 8)) (k mod 8)"
proof (induction bs arbitrary: k)
  case Nil
  then show ?case by simp
next
  case (Cons b bs)
  show ?case
  proof (cases "k < 8")
    case True
    then show ?thesis by (auto simp: bit_or_iff bit_ucast_iff bit_push_bit_iff)
  next
    case False
    then have k: "k = 8 + (k - 8)" by simp
    have "(8 + (k - 8)) div 8 = Suc ((k - 8) div 8)" "(8 + (k - 8)) mod 8 = (k - 8) mod 8"
      by simp_all
    with False Cons.IH [of "k - 8"] show ?thesis
      by (subst k, subst k) (auto simp: bit_or_iff bit_ucast_iff bit_push_bit_iff dest: bit_imp_le_length)
  qed
qed

lemma word_of_le_of_word:
  assumes "LENGTH('a) = 8 * n"
  shows "word_of_le (le_of_word n v) = (v :: 'a :: len word)"
proof (rule bit_word_eqI)
  fix k
  assume "k < LENGTH('a)"
  with assms have "k div 8 < n" by linarith
  moreover have "8 * (k div 8) + k mod 8 = k" by simp
  ultimately show "bit (word_of_le (le_of_word n v) :: 'a word) k = bit v k"
    using \<open>k < LENGTH('a)\<close> by (simp add: bit_word_of_le bit_ucast_iff bit_drop_bit_eq)
qed

lemma le_of_word_of_le:
  assumes "LENGTH('a) = 8 * length bs"
  shows "le_of_word (length bs) (word_of_le bs :: 'a :: len word) = bs"
proof (rule nth_equalityI)
  fix i
  assume i: "i < length (le_of_word (length bs) (word_of_le bs :: 'a word))"
  show "le_of_word (length bs) (word_of_le bs :: 'a word) ! i = bs ! i"
  proof (rule bit_word_eqI)
    fix k
    assume "k < LENGTH(8)"
    then have "k < 8" "(8 * i + k) div 8 = i" "(8 * i + k) mod 8 = k" by simp_all
    moreover have "8 * i + k < LENGTH('a)" using i \<open>k < 8\<close> assms by simp
    ultimately show "bit (le_of_word (length bs) (word_of_le bs :: 'a word) ! i) k = bit (bs ! i) k"
      using i by (simp add: bit_ucast_iff bit_drop_bit_eq bit_word_of_le)
  qed
qed simp

subsection \<open>Host loads and the byte-swap builtins\<close>

definition load_u16 :: "bytes \<Rightarrow> u16" where
  "load_u16 p = word_of_le (take 2 p)"

definition load_u32 :: "bytes \<Rightarrow> u32" where
  "load_u32 p = word_of_le (take 4 p)"

definition load_u64 :: "bytes \<Rightarrow> u64" where
  "load_u64 p = word_of_le (take 8 p)"

definition bswap16 :: "u16 \<Rightarrow> u16" where
  "bswap16 v = word_of_le (rev (le_of_word 2 v))"

definition bswap32 :: "u32 \<Rightarrow> u32" where
  "bswap32 v = word_of_le (rev (le_of_word 4 v))"

definition bswap64 :: "u64 \<Rightarrow> u64" where
  "bswap64 v = word_of_le (rev (le_of_word 8 v))"

definition be16 :: "bytes \<Rightarrow> u16" where
  "be16 p = bswap16 (load_u16 p)"

definition be32 :: "bytes \<Rightarrow> u32" where
  "be32 p = bswap32 (load_u32 p)"

definition be64 :: "bytes \<Rightarrow> u64" where
  "be64 p = bswap64 (load_u64 p)"

text \<open>The 48-bit load is a shift-and-or loop over six bytes.\<close>

definition be48 :: "bytes \<Rightarrow> u64" where
  "be48 p = foldl (\<lambda>v b. push_bit 8 v OR ucast b) 0 (take 6 p)"

subsection \<open>Big-endian stores\<close>

definition store_be16 :: "u16 \<Rightarrow> bytes" where
  "store_be16 v = le_of_word 2 (bswap16 v)"

definition store_be32 :: "u32 \<Rightarrow> bytes" where
  "store_be32 v = le_of_word 4 (bswap32 v)"

definition store_be64 :: "u64 \<Rightarrow> bytes" where
  "store_be64 v = le_of_word 8 (bswap64 v)"

text \<open>
  The 48-bit store writes \<open>v & 0xFF\<close> at index 5, shifts, and goes down to index 0; the
  recursion builds the same bytes from the last one backwards.
\<close>

fun store_be48_loop :: "nat \<Rightarrow> u64 \<Rightarrow> bytes \<Rightarrow> bytes" where
  "store_be48_loop 0 v acc = acc"
| "store_be48_loop (Suc i) v acc =
     store_be48_loop i (drop_bit 8 v) (ucast (v AND 0xFF) # acc)"

definition store_be48 :: "u64 \<Rightarrow> bytes" where
  "store_be48 v = store_be48_loop 6 v []"

subsection \<open>What the loads and stores compute\<close>

lemma be16_conv: "length (take 2 p) = 2 \<Longrightarrow> be16 p = word_of_le (rev (take 2 p))"
  using le_of_word_of_le [where 'a = 16, of "take 2 p"]
  by (simp add: be16_def bswap16_def load_u16_def)

lemma be32_conv: "length (take 4 p) = 4 \<Longrightarrow> be32 p = word_of_le (rev (take 4 p))"
  using le_of_word_of_le [where 'a = 32, of "take 4 p"]
  by (simp add: be32_def bswap32_def load_u32_def)

lemma be64_conv: "length (take 8 p) = 8 \<Longrightarrow> be64 p = word_of_le (rev (take 8 p))"
  using le_of_word_of_le [where 'a = 64, of "take 8 p"]
  by (simp add: be64_def bswap64_def load_u64_def)

lemma store_be16_conv: "store_be16 v = rev (le_of_word 2 v)"
  using le_of_word_of_le [where 'a = 16, of "rev (le_of_word 2 v)"]
  by (simp add: store_be16_def bswap16_def)

lemma store_be32_conv: "store_be32 v = rev (le_of_word 4 v)"
  using le_of_word_of_le [where 'a = 32, of "rev (le_of_word 4 v)"]
  by (simp add: store_be32_def bswap32_def)

lemma store_be64_conv: "store_be64 v = rev (le_of_word 8 v)"
  using le_of_word_of_le [where 'a = 64, of "rev (le_of_word 8 v)"]
  by (simp add: store_be64_def bswap64_def)

lemma length_store [simp]:
  "length (store_be16 a) = 2" "length (store_be32 b) = 4" "length (store_be64 c) = 8"
  by (simp_all add: store_be16_def store_be32_def store_be64_def)

text \<open>The unsigned value of a little-endian byte list that fits its word.\<close>

fun le_value :: "bytes \<Rightarrow> nat" where
  "le_value [] = 0"
| "le_value (b # bs) = unat b + 256 * le_value bs"

lemma le_value_bound: "le_value bs < 256 ^ length bs"
proof (induction bs)
  case (Cons b bs)
  have "unat b < 256" by simp
  with Cons have "unat b + 256 * le_value bs < 256 * 256 ^ length bs" by arith
  then show ?case by simp
qed simp

lemma unat_word_of_le:
  "8 * length bs \<le> LENGTH('a) \<Longrightarrow> unat (word_of_le bs :: 'a :: len word) = le_value bs"
proof (induction bs)
  case (Cons b bs)
  let ?w = "word_of_le bs :: 'a word"
  have IH: "unat ?w = le_value bs" using Cons by simp
  have disj: "ucast b AND push_bit 8 ?w = 0"
    by (rule bit_word_eqI) (auto simp: bit_and_iff bit_ucast_iff bit_push_bit_iff dest: bit_imp_le_length)
  have b: "unat (ucast b :: 'a word) = unat b"
    using Cons.prems by (simp add: unat_ucast_up)
  have lt: "256 * le_value bs < 2 ^ LENGTH('a)"
  proof -
    have "256 * le_value bs < 256 ^ length (b # bs)" using le_value_bound [of bs] by simp
    also have "\<dots> = 2 ^ (8 * length (b # bs))" by (simp only: power_mult) simp
    also have "\<dots> \<le> 2 ^ LENGTH('a)" using Cons.prems by (intro power_increasing) simp_all
    finally show ?thesis .
  qed
  have p: "unat (push_bit 8 ?w) = 256 * le_value bs"
    unfolding unsigned_push_bit_eq using lt IH
    by (simp add: take_bit_nat_eq_self_iff push_bit_eq_mult mult.commute)
  have "ucast b OR push_bit 8 ?w = ucast b + push_bit 8 ?w"
    using disj by (simp add: disjunctive_add_eq_or)
  moreover have "unat b + 256 * le_value bs < 2 ^ LENGTH('a)"
  proof -
    have "unat b + 256 * le_value bs < 256 ^ length (b # bs)"
      using le_value_bound [of "b # bs"] by simp
    also have "\<dots> = 2 ^ (8 * length (b # bs))" by (simp only: power_mult) simp
    also have "\<dots> \<le> 2 ^ LENGTH('a)" using Cons.prems by (intro power_increasing) simp_all
    finally show ?thesis .
  qed
  ultimately show ?case using b p by (simp add: unat_plus_no_wrap)
qed simp

lemma unat_be16: "length p = 2 \<Longrightarrow> unat (be16 p) = le_value (rev p)"
  by (simp add: be16_conv unat_word_of_le)

lemma be48_foldl:
  "foldl (\<lambda>v b. push_bit 8 v OR ucast b) (word_of_le acc) p =
     (word_of_le (rev p @ acc) :: 'a :: len word)"
proof (induction p arbitrary: acc)
  case (Cons b p)
  have "push_bit 8 (word_of_le acc) OR ucast b = (word_of_le (b # acc) :: 'a word)"
    by (simp add: or.commute)
  with Cons.IH [of "b # acc"] show ?case by simp
qed simp

lemma be48_conv: "be48 p = word_of_le (rev (take 6 p))"
  using be48_foldl [of "[]" "take 6 p"] by (simp add: be48_def)

lemma store_be48_loop_conv:
  "store_be48_loop n v acc = rev (le_of_word n v) @ acc"
proof (induction n arbitrary: v acc)
  case (Suc n)
  have ff: "(0xFF :: u64) = mask 8"
    by (simp add: mask_eq_exp_minus_1)
  have low: "ucast (v AND 0xFF) = (ucast v :: u8)"
    unfolding ff by (rule bit_word_eqI) (simp add: bit_simps)
  have "le_of_word (Suc n) v = ucast v # le_of_word n (drop_bit 8 v)"
    by (auto simp: le_of_word_def upt_conv_Cons map_Suc_upt [symmetric] drop_bit_drop_bit
        algebra_simps simp del: upt_Suc)
  with Suc.IH [of "drop_bit 8 v"] low show ?case by simp
qed (simp add: le_of_word_def)

lemma store_be48_conv: "store_be48 v = rev (le_of_word 6 v)"
  by (simp add: store_be48_def store_be48_loop_conv)

lemma length_store_be48 [simp]: "length (store_be48 v) = 6"
  by (simp add: store_be48_conv)

text \<open>Loads undo stores.\<close>

lemma be16_store [simp]: "be16 (store_be16 v @ bs) = v"
  by (simp add: be16_conv store_be16_conv word_of_le_of_word)

lemma be32_store [simp]: "be32 (store_be32 v @ bs) = v"
  by (simp add: be32_conv store_be32_conv word_of_le_of_word)

lemma be64_store [simp]: "be64 (store_be64 v @ bs) = v"
  by (simp add: be64_conv store_be64_conv word_of_le_of_word)

lemma be48_store: "be48 (store_be48 v @ bs) = take_bit 48 v"
proof (rule bit_word_eqI)
  fix k
  assume "k < LENGTH(64)"
  have "8 * (k div 8) + k mod 8 = k" by simp
  moreover have "k div 8 < 6 \<longleftrightarrow> k < 48" by linarith
  ultimately show "bit (be48 (store_be48 v @ bs)) k = bit (take_bit 48 v) k"
    using \<open>k < LENGTH(64)\<close>
    by (auto simp: be48_conv store_be48_conv bit_word_of_le bit_ucast_iff bit_drop_bit_eq bit_take_bit_iff)
qed

text \<open>
  The generator writes a 48-bit timestamp into the low six bytes of the eight-byte field
  and leaves the high two bytes zero; the decoder reads the field with the 64-bit load.
\<close>

lemma be64_padded_be48: "be64 (0 # 0 # store_be48 v @ bs) = take_bit 48 v"
proof (rule bit_word_eqI)
  fix k
  assume "k < LENGTH(64)"
  have "8 * (k div 8) + k mod 8 = k" by simp
  moreover have "k div 8 < 6 \<longleftrightarrow> k < 48" by linarith
  moreover have "k div 8 < 8" using \<open>k < LENGTH(64)\<close> by simp
  ultimately show "bit (be64 (0 # 0 # store_be48 v @ bs)) k = bit (take_bit 48 v) k"
    using \<open>k < LENGTH(64)\<close>
    by (auto simp: be64_conv store_be48_conv bit_word_of_le bit_ucast_iff bit_drop_bit_eq
        bit_take_bit_iff nth_append nth_Cons split: nat.splits if_splits)
qed

subsection \<open>Properties of the byte-order helpers\<close>

text \<open>
  The big-endian loads read network byte order. For any bytes the value of a
  load is the usual positional sum with the first byte most significant, although the code
  computes it as a little-endian host load followed by a byte swap.
\<close>

theorem big_endian_load_value:
  "unat (be16 (a # b # r)) = unat a * 256 + unat b \<and>
   unat (be32 (a # b # c # d # r)) =
     ((unat a * 256 + unat b) * 256 + unat c) * 256 + unat d \<and>
   unat (be64 (a # b # c # d # e # f # g # h # r)) =
     ((((((unat a * 256 + unat b) * 256 + unat c) * 256 + unat d) * 256 + unat e) * 256
        + unat f) * 256 + unat g) * 256 + unat h \<and>
   unat (be48 (a # b # c # d # e # f # r)) =
     ((((unat a * 256 + unat b) * 256 + unat c) * 256 + unat d) * 256 + unat e) * 256 + unat f"
  by (simp add: be16_conv be32_conv be64_conv be48_conv unat_word_of_le algebra_simps
      del: word_of_le.simps)

text \<open>
  The stores and the loads are inverse to each other, at every width; the
  48-bit pair keeps the low 48 bits, and an eight-byte field whose high two bytes are zero
  reads back as the 48-bit value the generator stored.
\<close>

theorem big_endian_roundtrip:
  "be16 (store_be16 v2 @ r) = v2 \<and>
   be32 (store_be32 v4 @ r) = v4 \<and>
   be64 (store_be64 v8 @ r) = v8 \<and>
   be48 (store_be48 v8 @ r) = take_bit 48 v8 \<and>
   be64 (0 # 0 # store_be48 v8 @ r) = take_bit 48 v8"
  by (simp add: be48_store be64_padded_be48)

end
