(* ===== verification/Messages.thy ===== *)
theory Messages
  imports Endian
begin

text \<open>
  The ITCH message vocabulary of \<^verbatim>\<open>sw/parser/itch_messages.hpp\<close>: the message type
  codes, the body lengths and field offsets of the wire layout, and the flat decoded message
  that the decoder hands to the books. A C++ \<open>char\<close> is a byte here; the code only ever
  compares such values with character constants. The theory also proves that the layout
  constants are consistent: the fields of every message type are disjoint and fill its body.
\<close>

subsection \<open>Message types\<close>

datatype msg_type =
    AddOrder | AddOrderMPID | OrderExecuted | OrderExecutedPrice | OrderCancel
  | OrderDelete | OrderReplace | Trade | SystemEvent | Unknown

instantiation msg_type :: enum
begin

definition enum_msg_type :: "msg_type list" where
  "enum_msg_type =
     [AddOrder, AddOrderMPID, OrderExecuted, OrderExecutedPrice, OrderCancel,
      OrderDelete, OrderReplace, Trade, SystemEvent, Unknown]"

definition enum_all_msg_type :: "(msg_type \<Rightarrow> bool) \<Rightarrow> bool" where
  "enum_all_msg_type P \<longleftrightarrow> list_all P Enum.enum"

definition enum_ex_msg_type :: "(msg_type \<Rightarrow> bool) \<Rightarrow> bool" where
  "enum_ex_msg_type P \<longleftrightarrow> list_ex P Enum.enum"

instance
proof
  have *: "x \<in> set (Enum.enum :: msg_type list)" for x :: msg_type
    by (cases x) (simp_all add: enum_msg_type_def)
  then show "(UNIV :: msg_type set) = set Enum.enum" by blast
  show "distinct (Enum.enum :: msg_type list)" by (simp add: enum_msg_type_def)
  show "Enum.enum_all P \<longleftrightarrow> Ball UNIV P" for P :: "msg_type \<Rightarrow> bool"
    using * by (auto simp: enum_all_msg_type_def list_all_iff)
  show "Enum.enum_ex P \<longleftrightarrow> Bex UNIV P" for P :: "msg_type \<Rightarrow> bool"
    using * by (auto simp: enum_ex_msg_type_def list_ex_iff)
qed

end

fun msg_type_code :: "msg_type \<Rightarrow> u8" where
  "msg_type_code AddOrder = 0x41"
| "msg_type_code AddOrderMPID = 0x46"
| "msg_type_code OrderExecuted = 0x45"
| "msg_type_code OrderExecutedPrice = 0x43"
| "msg_type_code OrderCancel = 0x58"
| "msg_type_code OrderDelete = 0x44"
| "msg_type_code OrderReplace = 0x55"
| "msg_type_code Trade = 0x50"
| "msg_type_code SystemEvent = 0x53"
| "msg_type_code Unknown = 0x3F"

text \<open>
  The cast of a byte to the enumeration. A byte that is no listed code gives an enumeration
  value for which every \<open>switch\<close> of the code takes its \<open>default\<close> branch, exactly as
  it does for \<open>Unknown\<close>.
\<close>

definition msg_type_of_code :: "u8 \<Rightarrow> msg_type" where
  "msg_type_of_code c =
     (if c = 0x41 then AddOrder else if c = 0x46 then AddOrderMPID
      else if c = 0x45 then OrderExecuted else if c = 0x43 then OrderExecutedPrice
      else if c = 0x58 then OrderCancel else if c = 0x44 then OrderDelete
      else if c = 0x55 then OrderReplace else if c = 0x50 then Trade
      else if c = 0x53 then SystemEvent else Unknown)"

fun msg_type_name :: "msg_type \<Rightarrow> string" where
  "msg_type_name AddOrder = ''Add''"
| "msg_type_name AddOrderMPID = ''AddMPID''"
| "msg_type_name OrderExecuted = ''Execute''"
| "msg_type_name OrderExecutedPrice = ''ExecutePrice''"
| "msg_type_name OrderCancel = ''Cancel''"
| "msg_type_name OrderDelete = ''Delete''"
| "msg_type_name OrderReplace = ''Replace''"
| "msg_type_name Trade = ''Trade''"
| "msg_type_name SystemEvent = ''System''"
| "msg_type_name Unknown = ''Unknown''"

definition IDX_COUNT :: nat where
  "IDX_COUNT = 9"

fun msg_type_idx :: "msg_type \<Rightarrow> nat" where
  "msg_type_idx AddOrder = 0"
| "msg_type_idx AddOrderMPID = 1"
| "msg_type_idx OrderExecuted = 2"
| "msg_type_idx OrderExecutedPrice = 3"
| "msg_type_idx OrderCancel = 4"
| "msg_type_idx OrderDelete = 5"
| "msg_type_idx OrderReplace = 6"
| "msg_type_idx Trade = 7"
| "msg_type_idx SystemEvent = 8"
| "msg_type_idx Unknown = IDX_COUNT - 1"

subsection \<open>Wire layout\<close>

text \<open>Offsets of the common header.\<close>

definition HDR_TYPE :: nat where
  [layout]: "HDR_TYPE = 0"

definition HDR_STOCK_LOC :: nat where
  [layout]: "HDR_STOCK_LOC = 1"

definition HDR_TRACK_NUM :: nat where
  [layout]: "HDR_TRACK_NUM = 3"

definition HDR_TIMESTAMP :: nat where
  [layout]: "HDR_TIMESTAMP = 5"

definition HDR_END :: nat where
  [layout]: "HDR_END = 13"

text \<open>Body lengths.\<close>

definition LEN_ADD :: nat where
  [layout]: "LEN_ADD = 38"

definition LEN_ADD_MPID :: nat where
  [layout]: "LEN_ADD_MPID = 42"

definition LEN_EXEC :: nat where
  [layout]: "LEN_EXEC = 33"

definition LEN_EXEC_PRICE :: nat where
  [layout]: "LEN_EXEC_PRICE = 38"

definition LEN_CANCEL :: nat where
  [layout]: "LEN_CANCEL = 25"

definition LEN_DELETE :: nat where
  [layout]: "LEN_DELETE = 21"

definition LEN_REPLACE :: nat where
  [layout]: "LEN_REPLACE = 37"

definition LEN_TRADE :: nat where
  [layout]: "LEN_TRADE = 46"

definition LEN_SYSTEM :: nat where
  [layout]: "LEN_SYSTEM = 14"

definition LEN_MAX :: nat where
  [layout]: "LEN_MAX = 48"

text \<open>Field offsets within a body.\<close>

definition OFF_ADD_REF :: nat where
  [layout]: "OFF_ADD_REF = 13"

definition OFF_ADD_SIDE :: nat where
  [layout]: "OFF_ADD_SIDE = 21"

definition OFF_ADD_SHARES :: nat where
  [layout]: "OFF_ADD_SHARES = 22"

definition OFF_ADD_STOCK :: nat where
  [layout]: "OFF_ADD_STOCK = 26"

definition OFF_ADD_PRICE :: nat where
  [layout]: "OFF_ADD_PRICE = 34"

definition OFF_ADD_MPID :: nat where
  [layout]: "OFF_ADD_MPID = 38"

definition OFF_EXEC_REF :: nat where
  [layout]: "OFF_EXEC_REF = 13"

definition OFF_EXEC_SHARES :: nat where
  [layout]: "OFF_EXEC_SHARES = 21"

definition OFF_EXEC_MATCH :: nat where
  [layout]: "OFF_EXEC_MATCH = 25"

definition OFF_EXECP_REF :: nat where
  [layout]: "OFF_EXECP_REF = 13"

definition OFF_EXECP_SHARES :: nat where
  [layout]: "OFF_EXECP_SHARES = 21"

definition OFF_EXECP_MATCH :: nat where
  [layout]: "OFF_EXECP_MATCH = 25"

definition OFF_EXECP_PRINTABLE :: nat where
  [layout]: "OFF_EXECP_PRINTABLE = 33"

definition OFF_EXECP_PRICE :: nat where
  [layout]: "OFF_EXECP_PRICE = 34"

definition OFF_CANCEL_REF :: nat where
  [layout]: "OFF_CANCEL_REF = 13"

definition OFF_CANCEL_SHARES :: nat where
  [layout]: "OFF_CANCEL_SHARES = 21"

definition OFF_DELETE_REF :: nat where
  [layout]: "OFF_DELETE_REF = 13"

definition OFF_REPL_ORIG_REF :: nat where
  [layout]: "OFF_REPL_ORIG_REF = 13"

definition OFF_REPL_NEW_REF :: nat where
  [layout]: "OFF_REPL_NEW_REF = 21"

definition OFF_REPL_SHARES :: nat where
  [layout]: "OFF_REPL_SHARES = 29"

definition OFF_REPL_PRICE :: nat where
  [layout]: "OFF_REPL_PRICE = 33"

definition OFF_TRADE_REF :: nat where
  [layout]: "OFF_TRADE_REF = 13"

definition OFF_TRADE_SIDE :: nat where
  [layout]: "OFF_TRADE_SIDE = 21"

definition OFF_TRADE_SHARES :: nat where
  [layout]: "OFF_TRADE_SHARES = 22"

definition OFF_TRADE_STOCK :: nat where
  [layout]: "OFF_TRADE_STOCK = 26"

definition OFF_TRADE_PRICE :: nat where
  [layout]: "OFF_TRADE_PRICE = 34"

definition OFF_TRADE_MATCH :: nat where
  [layout]: "OFF_TRADE_MATCH = 38"

definition OFF_SYS_EVENT :: nat where
  [layout]: "OFF_SYS_EVENT = 13"

text \<open>Side and system event codes.\<close>

definition SIDE_BUY :: u8 where
  [layout]: "SIDE_BUY = 0x42"

definition SIDE_SELL :: u8 where
  [layout]: "SIDE_SELL = 0x53"

definition EVT_START_MESSAGES :: u8 where
  [layout]: "EVT_START_MESSAGES = 0x4F"

definition EVT_START_HOURS :: u8 where
  [layout]: "EVT_START_HOURS = 0x51"

definition EVT_END_HOURS :: u8 where
  [layout]: "EVT_END_HOURS = 0x4D"

definition EVT_END_MESSAGES :: u8 where
  [layout]: "EVT_END_MESSAGES = 0x43"

fun msg_body_len :: "msg_type \<Rightarrow> nat" where
  "msg_body_len AddOrder = LEN_ADD"
| "msg_body_len AddOrderMPID = LEN_ADD_MPID"
| "msg_body_len OrderExecuted = LEN_EXEC"
| "msg_body_len OrderExecutedPrice = LEN_EXEC_PRICE"
| "msg_body_len OrderCancel = LEN_CANCEL"
| "msg_body_len OrderDelete = LEN_DELETE"
| "msg_body_len OrderReplace = LEN_REPLACE"
| "msg_body_len Trade = LEN_TRADE"
| "msg_body_len SystemEvent = LEN_SYSTEM"
| "msg_body_len Unknown = 0"

subsection \<open>The decoded message\<close>

record decoded_message =
  dm_type :: msg_type
  dm_side :: u8
  dm_event_code :: u8
  dm_printable :: u8
  dm_stock_locate :: u16
  dm_stock_idx :: u16
  dm_shares :: u32
  dm_price :: u32
  dm_timestamp :: u64
  dm_order_ref :: u64
  dm_new_order_ref :: u64
  dm_match_number :: u64
  dm_mpid :: bytes
  dm_stock :: bytes

definition empty_message :: decoded_message where
  "empty_message =
     \<lparr>dm_type = Unknown, dm_side = 0, dm_event_code = 0, dm_printable = 0,
      dm_stock_locate = 0, dm_stock_idx = 0, dm_shares = 0, dm_price = 0,
      dm_timestamp = 0, dm_order_ref = 0, dm_new_order_ref = 0, dm_match_number = 0,
      dm_mpid = replicate 4 0, dm_stock = replicate 8 0\<rparr>"

subsection \<open>Consistency of the layout\<close>

lemma msg_type_of_code_inv [simp]: "msg_type_of_code (msg_type_code t) = t"
  by (cases t) (simp_all add: msg_type_of_code_def)

lemma msg_type_code_inj: "msg_type_code s = msg_type_code t \<Longrightarrow> s = t"
  by (metis msg_type_of_code_inv)

lemma msg_type_code_of_code:
  "msg_type_of_code c \<noteq> Unknown \<Longrightarrow> msg_type_code (msg_type_of_code c) = c"
  by (auto simp: msg_type_of_code_def split: if_splits)

text \<open>The fields of a body as the comments of the source list them: offset and width.\<close>

definition header_fields :: "(nat \<times> nat) list" where
  "header_fields = [(HDR_TYPE, 1), (HDR_STOCK_LOC, 2), (HDR_TRACK_NUM, 2), (HDR_TIMESTAMP, 8)]"

fun body_fields :: "msg_type \<Rightarrow> (nat \<times> nat) list" where
  "body_fields AddOrder = [(OFF_ADD_REF, 8), (OFF_ADD_SIDE, 1), (OFF_ADD_SHARES, 4), (OFF_ADD_STOCK, 8), (OFF_ADD_PRICE, 4)]"
| "body_fields AddOrderMPID = [(OFF_ADD_REF, 8), (OFF_ADD_SIDE, 1), (OFF_ADD_SHARES, 4), (OFF_ADD_STOCK, 8), (OFF_ADD_PRICE, 4), (OFF_ADD_MPID, 4)]"
| "body_fields OrderExecuted = [(OFF_EXEC_REF, 8), (OFF_EXEC_SHARES, 4), (OFF_EXEC_MATCH, 8)]"
| "body_fields OrderExecutedPrice = [(OFF_EXECP_REF, 8), (OFF_EXECP_SHARES, 4), (OFF_EXECP_MATCH, 8), (OFF_EXECP_PRINTABLE, 1), (OFF_EXECP_PRICE, 4)]"
| "body_fields OrderCancel = [(OFF_CANCEL_REF, 8), (OFF_CANCEL_SHARES, 4)]"
| "body_fields OrderDelete = [(OFF_DELETE_REF, 8)]"
| "body_fields OrderReplace = [(OFF_REPL_ORIG_REF, 8), (OFF_REPL_NEW_REF, 8), (OFF_REPL_SHARES, 4), (OFF_REPL_PRICE, 4)]"
| "body_fields Trade = [(OFF_TRADE_REF, 8), (OFF_TRADE_SIDE, 1), (OFF_TRADE_SHARES, 4), (OFF_TRADE_STOCK, 8), (OFF_TRADE_PRICE, 4), (OFF_TRADE_MATCH, 8)]"
| "body_fields SystemEvent = [(OFF_SYS_EVENT, 1)]"
| "body_fields Unknown = []"

text \<open>A field list is contiguous from \<open>k\<close> to \<open>e\<close> when each field starts where the last one ended.\<close>

fun contiguous :: "nat \<Rightarrow> (nat \<times> nat) list \<Rightarrow> nat \<Rightarrow> bool" where
  "contiguous k [] e \<longleftrightarrow> k = e"
| "contiguous k ((f, w) # fs) e \<longleftrightarrow> f = k \<and> contiguous (k + w) fs e"

lemma contiguous_fields:
  "t \<noteq> Unknown \<Longrightarrow> contiguous 0 (header_fields @ body_fields t) (msg_body_len t)"
  by (cases t) (simp_all add: header_fields_def layout)

lemma msg_body_len_bounds: "t \<noteq> Unknown \<Longrightarrow> LEN_SYSTEM \<le> msg_body_len t \<and> msg_body_len t \<le> LEN_MAX"
  by (cases t) (simp_all add: layout)

lemma msg_body_len_eq_0 [simp]: "msg_body_len t = 0 \<longleftrightarrow> t = Unknown"
  by (cases t) (simp_all add: layout)

end
