(* ===== verification/ItchParser.thy ===== *)
theory ItchParser
  imports Messages
begin

text \<open>
  The ITCH decoder of \<^verbatim>\<open>sw/parser/itch_parser.hpp\<close> and \<^verbatim>\<open>itch_parser.cpp\<close>: one
  message body to a \<open>decoded_message\<close>, the walk over a length-prefixed stream, the UDP
  header strip and the vectorised byte count. Every read of the buffer is checked: the result
  \<open>None\<close> stands for a read out of bounds, and the lemmas show that it never happens. The
  handler that the C++ walk calls for each message is modelled by the list of the messages it
  is called with, in order.
\<close>

subsection \<open>Checked field reads\<close>

definition byte_at :: "bytes \<Rightarrow> nat \<Rightarrow> u8 option" where
  "byte_at d k = (if k < length d then Some (d ! k) else None)"

definition be16_at :: "bytes \<Rightarrow> nat \<Rightarrow> u16 option" where
  "be16_at d k = map_option be16 (read_at d k 2)"

definition be32_at :: "bytes \<Rightarrow> nat \<Rightarrow> u32 option" where
  "be32_at d k = map_option be32 (read_at d k 4)"

definition be64_at :: "bytes \<Rightarrow> nat \<Rightarrow> u64 option" where
  "be64_at d k = map_option be64 (read_at d k 8)"

definition copy8 :: "bytes \<Rightarrow> nat \<Rightarrow> bytes option" where
  "copy8 d k = read_at d k 8"

lemma field_reads [simp]:
  "k < length d \<Longrightarrow> byte_at d k = Some (d ! k)"
  "k + 2 \<le> length d \<Longrightarrow> be16_at d k = Some (be16 (take 2 (drop k d)))"
  "k + 4 \<le> length d \<Longrightarrow> be32_at d k = Some (be32 (take 4 (drop k d)))"
  "k + 8 \<le> length d \<Longrightarrow> be64_at d k = Some (be64 (take 8 (drop k d)))"
  "k + 8 \<le> length d \<Longrightarrow> copy8 d k = Some (take 8 (drop k d))"
  by (simp_all add: byte_at_def be16_at_def be32_at_def be64_at_def copy8_def)

subsection \<open>Decoding one body\<close>

definition decode_fields :: "bytes \<Rightarrow> decoded_message \<Rightarrow> decoded_message option" where
  "decode_fields b m =
     (case dm_type m of
        AddOrder \<Rightarrow> do {
          r \<leftarrow> be64_at b OFF_ADD_REF;
          s \<leftarrow> byte_at b OFF_ADD_SIDE;
          q \<leftarrow> be32_at b OFF_ADD_SHARES;
          st \<leftarrow> copy8 b OFF_ADD_STOCK;
          p \<leftarrow> be32_at b OFF_ADD_PRICE;
          Some (m\<lparr>dm_order_ref := r, dm_side := s, dm_shares := q, dm_stock := st, dm_price := p\<rparr>)
        }
      | AddOrderMPID \<Rightarrow> do {
          r \<leftarrow> be64_at b OFF_ADD_REF;
          s \<leftarrow> byte_at b OFF_ADD_SIDE;
          q \<leftarrow> be32_at b OFF_ADD_SHARES;
          st \<leftarrow> copy8 b OFF_ADD_STOCK;
          p \<leftarrow> be32_at b OFF_ADD_PRICE;
          mp \<leftarrow> read_at b OFF_ADD_MPID 4;
          Some (m\<lparr>dm_order_ref := r, dm_side := s, dm_shares := q, dm_stock := st, dm_price := p,
                  dm_mpid := mp\<rparr>)
        }
      | OrderExecuted \<Rightarrow> do {
          r \<leftarrow> be64_at b OFF_EXEC_REF;
          q \<leftarrow> be32_at b OFF_EXEC_SHARES;
          k \<leftarrow> be64_at b OFF_EXEC_MATCH;
          Some (m\<lparr>dm_order_ref := r, dm_shares := q, dm_match_number := k\<rparr>)
        }
      | OrderExecutedPrice \<Rightarrow> do {
          r \<leftarrow> be64_at b OFF_EXECP_REF;
          q \<leftarrow> be32_at b OFF_EXECP_SHARES;
          k \<leftarrow> be64_at b OFF_EXECP_MATCH;
          y \<leftarrow> byte_at b OFF_EXECP_PRINTABLE;
          p \<leftarrow> be32_at b OFF_EXECP_PRICE;
          Some (m\<lparr>dm_order_ref := r, dm_shares := q, dm_match_number := k,
                  dm_printable := (if y = 0x59 then 1 else 0), dm_price := p\<rparr>)
        }
      | OrderCancel \<Rightarrow> do {
          r \<leftarrow> be64_at b OFF_CANCEL_REF;
          q \<leftarrow> be32_at b OFF_CANCEL_SHARES;
          Some (m\<lparr>dm_order_ref := r, dm_shares := q\<rparr>)
        }
      | OrderDelete \<Rightarrow> do {
          r \<leftarrow> be64_at b OFF_DELETE_REF;
          Some (m\<lparr>dm_order_ref := r\<rparr>)
        }
      | OrderReplace \<Rightarrow> do {
          r \<leftarrow> be64_at b OFF_REPL_ORIG_REF;
          n \<leftarrow> be64_at b OFF_REPL_NEW_REF;
          q \<leftarrow> be32_at b OFF_REPL_SHARES;
          p \<leftarrow> be32_at b OFF_REPL_PRICE;
          Some (m\<lparr>dm_order_ref := r, dm_new_order_ref := n, dm_shares := q, dm_price := p\<rparr>)
        }
      | Trade \<Rightarrow> do {
          r \<leftarrow> be64_at b OFF_TRADE_REF;
          s \<leftarrow> byte_at b OFF_TRADE_SIDE;
          q \<leftarrow> be32_at b OFF_TRADE_SHARES;
          st \<leftarrow> copy8 b OFF_TRADE_STOCK;
          p \<leftarrow> be32_at b OFF_TRADE_PRICE;
          k \<leftarrow> be64_at b OFF_TRADE_MATCH;
          Some (m\<lparr>dm_order_ref := r, dm_side := s, dm_shares := q, dm_stock := st, dm_price := p,
                  dm_match_number := k\<rparr>)
        }
      | SystemEvent \<Rightarrow> do {
          c \<leftarrow> byte_at b OFF_SYS_EVENT;
          Some (m\<lparr>dm_event_code := c\<rparr>)
        }
      | Unknown \<Rightarrow> Some (m\<lparr>dm_type := Unknown\<rparr>))"

text \<open>A null pointer and an empty body take the same early return; both are the empty list.\<close>

definition decode_body :: "bytes \<Rightarrow> decoded_message option" where
  "decode_body b =
     (if b = [] then Some empty_message
      else do {
        tb \<leftarrow> byte_at b HDR_TYPE;
        let t = msg_type_of_code tb;
        let expected = msg_body_len t;
        if expected = 0 \<or> length b \<noteq> expected then Some (empty_message\<lparr>dm_type := Unknown\<rparr>)
        else do {
          loc \<leftarrow> be16_at b HDR_STOCK_LOC;
          ts \<leftarrow> be64_at b HDR_TIMESTAMP;
          decode_fields b (empty_message\<lparr>dm_type := t, dm_stock_locate := loc,
            dm_stock_idx := loc, dm_timestamp := ts\<rparr>)
        }
      })"

subsection \<open>Walking a stream\<close>

record parse_stats =
  ps_messages :: nat
  ps_bytes :: nat
  ps_unknown :: nat

definition no_parse_stats :: parse_stats where
  "no_parse_stats = \<lparr>ps_messages = 0, ps_bytes = 0, ps_unknown = 0\<rparr>"

function parse_stream_loop ::
  "bytes \<Rightarrow> nat \<Rightarrow> parse_stats \<Rightarrow> decoded_message list \<Rightarrow> (parse_stats \<times> decoded_message list) option"
where
  "parse_stream_loop d off st ms =
     (if off + 2 \<le> length d then do {
        bl \<leftarrow> be16_at d off;
        let n = unat bl;
        if n = 0 \<or> off + 2 + n > length d then Some (st, ms)
        else do {
          body \<leftarrow> read_at d (off + 2) n;
          m \<leftarrow> decode_body body;
          let st1 = (if dm_type m = Unknown then st\<lparr>ps_unknown := ps_unknown st + 1\<rparr> else st);
          parse_stream_loop d (off + 2 + n)
            (st1\<lparr>ps_messages := ps_messages st1 + 1, ps_bytes := ps_bytes st1 + (2 + n)\<rparr>)
            (ms @ [m])
        }
      } else Some (st, ms))"
  by pat_completeness auto
termination
  by (relation "measure (\<lambda>(d, off, st, ms). length d - off)") auto

declare parse_stream_loop.simps [simp del]

definition parse_stream :: "bytes \<Rightarrow> (parse_stats \<times> decoded_message list) option" where
  "parse_stream d = parse_stream_loop d 0 no_parse_stats []"

subsection \<open>Header strip and byte count\<close>

definition UDP_PAYLOAD_OFFSET :: nat where
  [layout]: "UDP_PAYLOAD_OFFSET = 42"

definition strip_udp :: "bytes \<Rightarrow> bytes option" where
  "strip_udp frame =
     (if length frame \<le> UDP_PAYLOAD_OFFSET then None else Some (drop UDP_PAYLOAD_OFFSET frame))"

text \<open>A vector comparison yields one lane bit per byte; the population count adds them up.\<close>

definition cmpeq_lanes :: "bytes \<Rightarrow> u8 \<Rightarrow> bool list" where
  "cmpeq_lanes blk tb = map (\<lambda>x. x = tb) blk"

definition popcount :: "bool list \<Rightarrow> nat" where
  "popcount lanes = length (filter id lanes)"

fun count_scalar :: "bytes \<Rightarrow> u8 \<Rightarrow> nat \<Rightarrow> nat" where
  "count_scalar [] tb count = count"
| "count_scalar (x # xs) tb count = count_scalar xs tb (if x = tb then count + 1 else count)"

text \<open>The vector loop of width \<open>w\<close> (64 for AVX-512, 32 for AVX2), then the scalar tail.\<close>

function count_vector :: "nat \<Rightarrow> bytes \<Rightarrow> nat \<Rightarrow> u8 \<Rightarrow> nat \<Rightarrow> nat" where
  "count_vector w d i tb count =
     (if 0 < w \<and> i + w \<le> length d
      then count_vector w d (i + w) tb (count + popcount (cmpeq_lanes (take w (drop i d)) tb))
      else count_scalar (drop i d) tb count)"
  by pat_completeness auto
termination
  by (relation "measure (\<lambda>(w, d, i, tb, count). length d - i)") auto

declare count_vector.simps [simp del]

definition simd_count_type_avx512 :: "bytes \<Rightarrow> u8 \<Rightarrow> nat" where
  "simd_count_type_avx512 d tb = count_vector 64 d 0 tb 0"

definition simd_count_type_avx2 :: "bytes \<Rightarrow> u8 \<Rightarrow> nat" where
  "simd_count_type_avx2 d tb = count_vector 32 d 0 tb 0"

definition simd_count_type_scalar :: "bytes \<Rightarrow> u8 \<Rightarrow> nat" where
  "simd_count_type_scalar d tb = count_scalar d tb 0"

subsection \<open>No read out of bounds\<close>

lemma decode_fields_total:
  "length b = msg_body_len (dm_type m) \<Longrightarrow> \<exists>m'. decode_fields b m = Some m' \<and> dm_type m' = dm_type m"
  by (cases "dm_type m") (simp_all add: decode_fields_def layout)

lemma decode_body_type:
  "\<exists>m. decode_body b = Some m \<and>
     dm_type m = (if b \<noteq> [] \<and> length b = msg_body_len (msg_type_of_code (b ! 0))
                  then msg_type_of_code (b ! 0) else Unknown)"
proof (cases "b \<noteq> [] \<and> length b = msg_body_len (msg_type_of_code (b ! 0))")
  case True
  let ?t = "msg_type_of_code (b ! 0)"
  from True have known: "?t \<noteq> Unknown" by auto
  then have "14 \<le> length b"
    using True msg_body_len_bounds [of ?t] by (simp add: layout)
  then have tb: "byte_at b HDR_TYPE = Some (b ! 0)"
    by (auto simp: byte_at_def layout)
  from \<open>14 \<le> length b\<close> obtain loc ts where
    "be16_at b HDR_STOCK_LOC = Some loc" "be64_at b HDR_TIMESTAMP = Some ts"
    by (simp add: layout)
  moreover obtain m' where
    "decode_fields b (empty_message\<lparr>dm_type := ?t, dm_stock_locate := loc, dm_stock_idx := loc,
       dm_timestamp := ts\<rparr>) = Some m'" "dm_type m' = ?t"
    using decode_fields_total [of b "empty_message\<lparr>dm_type := ?t, dm_stock_locate := loc,
       dm_stock_idx := loc, dm_timestamp := ts\<rparr>"] True by auto
  ultimately show ?thesis
    using True known tb by (simp add: decode_body_def Let_def)
next
  case False
  then show ?thesis
    by (auto simp: decode_body_def Let_def layout empty_message_def)
qed

text \<open>The decoder as a total function.\<close>

definition decoded :: "bytes \<Rightarrow> decoded_message" where
  "decoded b = the (decode_body b)"

lemma decode_body_Some [simp]: "decode_body b = Some (decoded b)"
  using decode_body_type [of b] by (auto simp: decoded_def)

lemma dm_type_decoded:
  "dm_type (decoded b) = (if b \<noteq> [] \<and> length b = msg_body_len (msg_type_of_code (b ! 0))
     then msg_type_of_code (b ! 0) else Unknown)"
  using decode_body_type [of b] by simp

lemma empty_message_Unknown: "empty_message\<lparr>dm_type := Unknown\<rparr> = empty_message"
  by (simp add: empty_message_def)

lemma decode_body_malformed:
  assumes "byte_at b HDR_TYPE = Some (b ! 0)" "b \<noteq> []"
    "msg_body_len (msg_type_of_code (b ! 0)) = 0 \<or> length b \<noteq> msg_body_len (msg_type_of_code (b ! 0))"
  shows "decode_body b = Some empty_message"
  unfolding decode_body_def Let_def assms(1) if_not_P [OF assms(2)] Option.bind_lunit
    if_P [OF assms(3)] empty_message_Unknown by (rule refl)

lemma decoded_malformed:
  assumes "\<not> (b \<noteq> [] \<and> msg_type_of_code (b ! 0) \<noteq> Unknown \<and> length b = msg_body_len (msg_type_of_code (b ! 0)))"
  shows "decoded b = empty_message"
proof (cases "b = []")
  case True
  then show ?thesis by (simp add: decoded_def decode_body_def del: decode_body_Some)
next
  case False
  then have "byte_at b HDR_TYPE = Some (b ! 0)" by (simp add: byte_at_def layout)
  moreover have "msg_body_len (msg_type_of_code (b ! 0)) = 0 \<or> length b \<noteq> msg_body_len (msg_type_of_code (b ! 0))"
    using assms False by simp
  ultimately have "decode_body b = Some empty_message"
    using False decode_body_malformed by blast
  then show ?thesis by (simp only: decoded_def option.sel)
qed

subsection \<open>The frames of a stream\<close>

text \<open>
  The specification of the walk: the bodies of the complete frames at the front of the
  stream, up to the first zero length or truncated frame, and the number of bytes they take.
\<close>

fun frames :: "bytes \<Rightarrow> bytes list" where
  "frames (a # b # r) =
     (let n = unat (be16 [a, b])
      in if n = 0 \<or> length r < n then [] else take n r # frames (drop n r))"
| "frames _ = []"

definition frame :: "bytes \<Rightarrow> bytes" where
  "frame body = store_be16 (of_nat (length body)) @ body"

definition framed :: "bytes list \<Rightarrow> bytes" where
  "framed bodies = concat (map frame bodies)"

definition frameable :: "bytes \<Rightarrow> bool" where
  "frameable body \<longleftrightarrow> body \<noteq> [] \<and> length body < 65536"

lemma length_frame [simp]: "length (frame b) = 2 + length b"
  by (simp add: frame_def)

lemma framed_Nil [simp]: "framed [] = []"
  and framed_Cons [simp]: "framed (b # bs) = frame b @ framed bs"
  by (simp_all add: framed_def)

lemma framed_length: "length bodies \<le> length (framed bodies)"
  by (induction bodies) (simp_all add: framed_def)

lemma frames_short: "length d < 2 \<Longrightarrow> frames d = []"
  by (cases d rule: frames.cases) auto

lemma unat_of_nat_u16: "n < 65536 \<Longrightarrow> unat (of_nat n :: u16) = n"
  by (simp add: unsigned_of_nat take_bit_nat_eq_self_iff)

lemma frames_frame:
  assumes "frameable b"
  shows "frames (frame b @ d) = b # frames d"
proof -
  obtain x y where xy: "store_be16 (of_nat (length b)) = [x, y]"
    by (rule length2E [OF length_store(1)])
  have "be16 [x, y] = of_nat (length b)"
    using be16_store [of "of_nat (length b)" "[]"] xy by simp
  then have "unat (be16 [x, y]) = length b"
    using assms by (simp add: frameable_def unat_of_nat_u16)
  then show ?thesis
    using assms xy by (simp add: frame_def frameable_def)
qed

lemma frames_framed: "list_all frameable bs \<Longrightarrow> frames (framed bs @ d) = bs @ frames d"
  by (induction bs) (simp_all add: frames_frame)

lemma frames_frameable: "list_all frameable (frames d)"
proof (induction d rule: frames.induct)
  case (1 a b r)
  have "unat (be16 [a, b]) < 65536" by simp
  with 1 show ?case by (auto simp: Let_def frameable_def)
qed simp_all

text \<open>The frames of a stream, put back into frames, are a prefix of the stream.\<close>

lemma store_be16_be16: "store_be16 (be16 [a, b]) = [a, b]"
  using le_of_word_of_le [where 'a = 16, of "[b, a]"]
  by (simp add: store_be16_conv be16_conv numeral_2_eq_2 del: word_of_le.simps)

lemma framed_frames_prefix: "\<exists>rest. d = framed (frames d) @ rest"
proof (induction d rule: frames.induct)
  case (1 a b r)
  let ?n = "unat (be16 [a, b])"
  show ?case
  proof (cases "?n = 0 \<or> length r < ?n")
    case False
    with 1 obtain rest where rest: "drop ?n r = framed (frames (drop ?n r)) @ rest" by auto
    have "frame (take ?n r) = a # b # take ?n r"
      using False by (simp add: frame_def min_absorb2 store_be16_be16)
    then have "a # b # r = frame (take ?n r) @ drop ?n r" by simp
    also have "\<dots> = framed (frames (a # b # r)) @ rest"
      using False by (subst rest) (simp add: Let_def)
    finally show ?thesis by blast
  qed (auto simp: Let_def)
qed (auto simp: framed_def)

subsection \<open>The walk computes the frames\<close>

lemma frames_drop:
  assumes "off + 2 \<le> length d" and n: "n = unat (be16 (take 2 (drop off d)))"
  shows "frames (drop off d) =
    (if n = 0 \<or> off + 2 + n > length d then []
     else take n (drop (off + 2) d) # frames (drop (off + 2 + n) d))"
proof -
  have "length (take 2 (drop off d)) = 2" using assms by simp
  then obtain a b where ab: "take 2 (drop off d) = [a, b]" by (rule length2E)
  have "drop off d = take 2 (drop off d) @ drop 2 (drop off d)"
    by (rule append_take_drop_id [symmetric])
  also have "\<dots> = a # b # drop (off + 2) d"
    by (simp only: ab drop_drop add.commute [of 2 off] append_Cons append_Nil)
  finally have d: "drop off d = a # b # drop (off + 2) d" .
  have f: "frames (a # b # r) = (if n = 0 \<or> length r < n then [] else take n r # frames (drop n r))" for r
    using n ab by (simp add: Let_def)
  have l: "length (drop (off + 2) d) < n \<longleftrightarrow> off + 2 + n > length d"
    using assms(1) by auto
  have e: "drop n (drop (off + 2) d) = drop (off + 2 + n) d"
    by (simp only: drop_drop add.commute)
  show ?thesis
    unfolding d f unfolding l e by (rule refl)
qed

lemma parse_stream_loop_frames:
  "parse_stream_loop d off st ms =
     Some (\<lparr>ps_messages = ps_messages st + length (frames (drop off d)),
            ps_bytes = ps_bytes st + length (framed (frames (drop off d))),
            ps_unknown = ps_unknown st +
              length (filter (\<lambda>b. dm_type (decoded b) = Unknown) (frames (drop off d)))\<rparr>,
           ms @ map decoded (frames (drop off d)))"
proof (induction d off st ms rule: parse_stream_loop.induct)
  case (1 d off st ms)
  show ?case
  proof (cases "off + 2 \<le> length d")
    case False
    then show ?thesis by (subst parse_stream_loop.simps) (simp add: frames_short)
  next
    case True
    define n where "n = unat (be16 (take 2 (drop off d)))"
    have bl: "be16_at d off = Some (be16 (take 2 (drop off d)))" using True by simp
    show ?thesis
    proof (cases "n = 0 \<or> off + 2 + n > length d")
      case True
      then show ?thesis
        using \<open>off + 2 \<le> length d\<close> frames_drop [OF \<open>off + 2 \<le> length d\<close> n_def] bl
        by (subst parse_stream_loop.simps) (simp add: Let_def n_def [symmetric])
    next
      case False
      let ?body = "take n (drop (off + 2) d)"
      have "off + 2 + n \<le> length d" using False by simp
      then have body: "read_at d (off + 2) n = Some ?body" "length ?body = n"
        by (simp_all add: min_absorb2)
      show ?thesis
        using True False frames_drop [OF True n_def] bl body
          1 [OF True bl n_def _ body(1) decode_body_Some refl]
        by (subst parse_stream_loop.simps) (simp add: Let_def n_def [symmetric] add.assoc)
    qed
  qed
qed

lemma count_scalar_filter: "count_scalar d tb c = c + length (filter (\<lambda>x. x = tb) d)"
  by (induction d arbitrary: c) simp_all

lemma popcount_lanes: "popcount (cmpeq_lanes blk tb) = length (filter (\<lambda>x. x = tb) blk)"
  by (induction blk) (simp_all add: popcount_def cmpeq_lanes_def)

lemma count_vector_filter: "count_vector w d i tb c = c + length (filter (\<lambda>x. x = tb) (drop i d))"
proof (induction w d i tb c rule: count_vector.induct)
  case (1 w d i tb c)
  have "drop i d = take w (drop i d) @ drop (i + w) d"
    by (metis append_take_drop_id drop_drop add.commute)
  then have "length (filter (\<lambda>x. x = tb) (drop i d)) =
      length (filter (\<lambda>x. x = tb) (take w (drop i d))) + length (filter (\<lambda>x. x = tb) (drop (i + w) d))"
    by (metis filter_append length_append)
  with 1 show ?case
    by (subst count_vector.simps) (simp add: popcount_lanes count_scalar_filter)
qed

subsection \<open>Properties of the parser\<close>

text \<open>
  Decoding never reads outside the body. For every byte string the decoder
  returns a message; its type is known exactly when the body is non-empty, its first byte is
  a supported code and its length is the exact body length of that code, and every body of
  another shape is reported as \<open>Unknown\<close> with all fields zero.
\<close>

theorem decode_body_safe:
  "\<exists>m. decode_body b = Some m \<and>
     (let t = msg_type_of_code (b ! 0)
      in if b \<noteq> [] \<and> t \<noteq> Unknown \<and> length b = msg_body_len t
         then dm_type m = t else m = empty_message)"
  by (cases "b \<noteq> [] \<and> msg_type_of_code (b ! 0) \<noteq> Unknown \<and> length b = msg_body_len (msg_type_of_code (b ! 0))")
     (auto simp add: dm_type_decoded decoded_malformed Let_def)

text \<open>
  Property C11: the stream walk is total and computes the frames of the stream. For every
  byte string it makes no read out of bounds, calls the handler with the decoded bodies of
  exactly the complete frames in order, and its counters are the number of frames, the bytes
  they take and the number of unknown bodies.
\<close>

theorem parse_stream_frames:
  "parse_stream d =
     Some (\<lparr>ps_messages = length (frames d), ps_bytes = length (framed (frames d)),
            ps_unknown = length (filter (\<lambda>b. dm_type (decoded b) = Unknown) (frames d))\<rparr>,
           map decoded (frames d))"
  by (simp add: parse_stream_def parse_stream_loop_frames no_parse_stats_def)

text \<open>
  The three compile-time variants of the byte count agree. The 64-lane and the
  32-lane loop with their scalar tails return the scalar count for every buffer and byte.
\<close>

theorem simd_count_type_equiv:
  "simd_count_type_avx512 d tb = simd_count_type_scalar d tb \<and>
   simd_count_type_avx2 d tb = simd_count_type_scalar d tb"
  by (simp add: simd_count_type_avx512_def simd_count_type_avx2_def simd_count_type_scalar_def
      count_vector_filter count_scalar_filter)

end
