(* ===== verification/RefTable.thy ===== *)
theory RefTable
  imports Prelude
begin

text \<open>
  The order-reference table of \<^verbatim>\<open>sw/book/order_ref_table.hpp\<close>: an open-addressed hash
  table with linear probing and backward-shift deletion. Slot numbers, the capacity and the
  loop counters are natural numbers (the C++ \<open>uint32_t\<close> values stay far below their
  bound because the capacity is at most \<open>2 ^ 31\<close>); references and hashes are 64-bit words.
  This theory holds the state, the operations, the invariant and the abstraction to a map;
  \<open>RefTableErase\<close> and \<open>RefTableSimd\<close> hold the deletion proof and the vector probes.
\<close>

definition hash_order_ref :: "u64 \<Rightarrow> u64" where
  "hash_order_ref ref0 =
     (let ref1 = NOT ref0 + push_bit 21 ref0;
          ref2 = ref1 XOR drop_bit 24 ref1;
          ref3 = (ref2 + push_bit 3 ref2) + push_bit 8 ref2;
          ref4 = ref3 XOR drop_bit 14 ref3;
          ref5 = (ref4 + push_bit 2 ref4) + push_bit 4 ref4;
          ref6 = ref5 XOR drop_bit 28 ref5;
          ref7 = ref6 + push_bit 31 ref6
      in ref7)"

record order_value =
  ov_price :: u32
  ov_shares :: u32
  ov_locate :: u16
  ov_side :: u8
  ov_pad :: u8

definition no_value :: order_value where
  "no_value = \<lparr>ov_price = 0, ov_shares = 0, ov_locate = 0, ov_side = 0, ov_pad = 0\<rparr>"

record table_stats =
  ts_probe1 :: nat
  ts_probe2 :: nat
  ts_probe_gt2 :: nat
  ts_collisions :: nat
  ts_total_inserts :: nat

definition no_table_stats :: table_stats where
  "no_table_stats =
     \<lparr>ts_probe1 = 0, ts_probe2 = 0, ts_probe_gt2 = 0, ts_collisions = 0, ts_total_inserts = 0\<rparr>"

record ref_table =
  rt_keys :: "u64 list"
  rt_vals :: "order_value list"
  rt_cap :: nat
  rt_mask :: nat
  rt_size :: nat
  rt_stats :: table_stats

subsection \<open>Construction\<close>

text \<open>
  The capacity is rounded up to a power of two by doubling a 32-bit counter. The doubling
  wraps to zero when the request is above \<open>2 ^ 31\<close>; the result \<open>None\<close> is a loop that
  does not end.
\<close>

partial_function (option) round_up_pow2 :: "u32 \<Rightarrow> u32 \<Rightarrow> u32 option" where
  "round_up_pow2 capacity n =
     (if n < capacity then round_up_pow2 capacity (push_bit 1 n) else Some n)"

definition table_init :: "u32 \<Rightarrow> ref_table option" where
  "table_init capacity = do {
     n \<leftarrow> round_up_pow2 capacity 1;
     Some \<lparr>rt_keys = replicate (unat n) 0, rt_vals = replicate (unat n) no_value,
           rt_cap = unat n, rt_mask = unat (n - 1), rt_size = 0, rt_stats = no_table_stats\<rparr>
   }"

subsection \<open>Slots\<close>

definition home_slot :: "nat \<Rightarrow> u64 \<Rightarrow> nat" where
  "home_slot msk ref = unat (ucast (hash_order_ref ref) :: u32) AND msk"

definition next_slot :: "nat \<Rightarrow> nat \<Rightarrow> nat" where
  "next_slot msk i = (i + 1) AND msk"

subsection \<open>Insertion\<close>

definition record_probes :: "nat \<Rightarrow> table_stats \<Rightarrow> table_stats" where
  "record_probes probes s =
     (let s1 = s\<lparr>ts_total_inserts := ts_total_inserts s + 1\<rparr>;
          s2 = (if probes = 1 then s1\<lparr>ts_probe1 := ts_probe1 s1 + 1\<rparr>
                else if probes = 2 then s1\<lparr>ts_probe2 := ts_probe2 s1 + 1\<rparr>
                else s1\<lparr>ts_probe_gt2 := ts_probe_gt2 s1 + 1\<rparr>)
      in if probes > 1 then s2\<lparr>ts_collisions := ts_collisions s2 + 1\<rparr> else s2)"

datatype insert_slot = At_key nat | At_empty nat nat | Probe_full

function insert_probe :: "u64 list \<Rightarrow> nat \<Rightarrow> nat \<Rightarrow> u64 \<Rightarrow> nat \<Rightarrow> nat \<Rightarrow> insert_slot" where
  "insert_probe keys msk cap ref i probes =
     (if keys ! i \<noteq> 0
      then if keys ! i = ref then At_key i
           else let i' = next_slot msk i; probes' = probes + 1
                in if probes' > cap then Probe_full
                   else insert_probe keys msk cap ref i' probes'
      else At_empty i probes)"
  by pat_completeness auto
termination
  by (relation "measure (\<lambda>(keys, msk, cap, ref, i, probes). cap - probes)") auto

declare insert_probe.simps [simp del]

definition table_insert :: "u64 \<Rightarrow> order_value \<Rightarrow> ref_table \<Rightarrow> ref_table \<times> bool" where
  "table_insert ref v t =
     (if ref = 0 then (t, False)
      else case insert_probe (rt_keys t) (rt_mask t) (rt_cap t) ref (home_slot (rt_mask t) ref) 1 of
        At_key i \<Rightarrow> (t\<lparr>rt_vals := (rt_vals t)[i := v]\<rparr>, True)
      | Probe_full \<Rightarrow> (t, False)
      | At_empty i probes \<Rightarrow>
          (t\<lparr>rt_stats := record_probes probes (rt_stats t),
             rt_keys := (rt_keys t)[i := ref], rt_vals := (rt_vals t)[i := v],
             rt_size := rt_size t + 1\<rparr>, True))"

subsection \<open>Lookup\<close>

text \<open>The scalar probe makes at most \<open>cap + 1\<close> steps; the last argument counts them down.\<close>

fun probe_scalar_loop :: "u64 list \<Rightarrow> nat \<Rightarrow> u64 \<Rightarrow> nat \<Rightarrow> nat \<Rightarrow> int" where
  "probe_scalar_loop keys msk ref i 0 = -1"
| "probe_scalar_loop keys msk ref i (Suc n) =
     (let k = keys ! i
      in if k = ref then int i
         else if k = 0 then -1
         else probe_scalar_loop keys msk ref (next_slot msk i) n)"

definition probe_scalar :: "ref_table \<Rightarrow> u64 \<Rightarrow> nat \<Rightarrow> int" where
  "probe_scalar t ref start = probe_scalar_loop (rt_keys t) (rt_mask t) ref start (rt_cap t + 1)"

definition find_index :: "ref_table \<Rightarrow> u64 \<Rightarrow> int" where
  "find_index t ref = (if ref = 0 then -1 else probe_scalar t ref (home_slot (rt_mask t) ref))"

definition table_find :: "ref_table \<Rightarrow> u64 \<Rightarrow> order_value option" where
  "table_find t ref =
     (let idx = find_index t ref in if idx < 0 then None else Some (rt_vals t ! nat idx))"

text \<open>A write through the pointer that \<open>find\<close> returned.\<close>

definition table_modify :: "u64 \<Rightarrow> (order_value \<Rightarrow> order_value) \<Rightarrow> ref_table \<Rightarrow> ref_table" where
  "table_modify ref f t =
     (let idx = find_index t ref
      in if idx < 0 then t
         else t\<lparr>rt_vals := (rt_vals t)[nat idx := f (rt_vals t ! nat idx)]\<rparr>)"

subsection \<open>Deletion by backward shift\<close>

definition in_gap :: "nat \<Rightarrow> nat \<Rightarrow> nat \<Rightarrow> bool" where
  "in_gap i j k = (if i \<le> j then i < k \<and> k \<le> j else i < k \<or> k \<le> j)"

text \<open>
  The \<open>for (;;)\<close> loop that moves later chain entries into the hole \<open>i\<close>; \<open>j\<close> is the
  slot examined last. \<open>None\<close> is a loop that does not end.
\<close>

partial_function (option) erase_loop ::
  "nat \<Rightarrow> u64 list \<Rightarrow> order_value list \<Rightarrow> nat \<Rightarrow> nat \<Rightarrow> (u64 list \<times> order_value list \<times> nat) option"
where
  "erase_loop msk keys vals i j0 =
     (let j = next_slot msk j0
      in if keys ! j = 0 then Some (keys, vals, i)
         else let k = home_slot msk (keys ! j)
              in if in_gap i j k then erase_loop msk keys vals i j
                 else erase_loop msk (keys[i := keys ! j]) (vals[i := vals ! j]) j j)"

definition table_erase :: "u64 \<Rightarrow> ref_table \<Rightarrow> (ref_table \<times> bool) option" where
  "table_erase ref t =
     (let found = find_index t ref
      in if found < 0 then Some (t, False)
         else do {
           (keys, vals, i) \<leftarrow> erase_loop (rt_mask t) (rt_keys t) (rt_vals t) (nat found) (nat found);
           Some (t\<lparr>rt_keys := keys[i := 0], rt_vals := vals[i := no_value],
                   rt_size := rt_size t - 1\<rparr>, True)
         })"

subsection \<open>Cyclic distances\<close>

definition cyc_dist :: "nat \<Rightarrow> nat \<Rightarrow> nat \<Rightarrow> nat" where
  "cyc_dist n a b = (if a \<le> b then b - a else n - a + b)"

lemma cyc_dist_less: "a < n \<Longrightarrow> b < n \<Longrightarrow> cyc_dist n a b < n"
  by (auto simp: cyc_dist_def)

lemma cyc_dist_self [simp]: "cyc_dist n a a = 0"
  by (simp add: cyc_dist_def)

lemma add_cyc_dist: "a < n \<Longrightarrow> b < n \<Longrightarrow> (a + cyc_dist n a b) mod n = b"
  by (auto simp: cyc_dist_def)

lemma add_mod_cases: "a < n \<Longrightarrow> d < n \<Longrightarrow> (a + d) mod n = (if a + d < n then a + d else a + d - n)"
  for a d n :: nat
  by (simp add: mod_if)

lemma cyc_dist_add: "a < n \<Longrightarrow> d < n \<Longrightarrow> cyc_dist n a ((a + d) mod n) = d"
  by (auto simp: cyc_dist_def add_mod_cases split: if_splits)

lemma add_mod_inj: "a < n \<Longrightarrow> d < n \<Longrightarrow> e < n \<Longrightarrow> (a + d) mod n = (a + e) mod n \<Longrightarrow> d = e"
  for a d e n :: nat
  by (metis cyc_dist_add)

lemma cyc_dist_eq_0: "a < n \<Longrightarrow> b < n \<Longrightarrow> cyc_dist n a b = 0 \<longleftrightarrow> a = b"
  by (auto simp: cyc_dist_def)

lemma cyc_dist_trans:
  "a < n \<Longrightarrow> b < n \<Longrightarrow> c < n \<Longrightarrow> cyc_dist n a b \<le> cyc_dist n a c \<Longrightarrow>
   cyc_dist n b c = cyc_dist n a c - cyc_dist n a b"
  by (auto simp: cyc_dist_def split: if_splits)

lemma home_slot_less: "msk = n - 1 \<Longrightarrow> n = 2 ^ k \<Longrightarrow> home_slot msk r < n"
  by (simp add: home_slot_def and_mask_mod)

lemma next_slot_mod: "msk = n - 1 \<Longrightarrow> n = 2 ^ k \<Longrightarrow> next_slot msk i = Suc i mod n"
  by (simp add: next_slot_def and_mask_mod)

lemma in_gap_dist:
  "i < n \<Longrightarrow> j < n \<Longrightarrow> k < n \<Longrightarrow> i \<noteq> j \<Longrightarrow>
   in_gap i j k \<longleftrightarrow> k \<noteq> i \<and> cyc_dist n i k \<le> cyc_dist n i j"
  by (auto simp: in_gap_def cyc_dist_def)

subsection \<open>The table invariant and its abstraction\<close>

definition keys_unique :: "nat \<Rightarrow> u64 list \<Rightarrow> bool" where
  "keys_unique n keys \<longleftrightarrow> (\<forall>i<n. \<forall>j<n. keys ! i \<noteq> 0 \<longrightarrow> keys ! i = keys ! j \<longrightarrow> i = j)"

text \<open>No empty slot lies between the home slot of a key and the slot that holds it.\<close>

definition chains_ok :: "nat \<Rightarrow> u64 list \<Rightarrow> bool" where
  "chains_ok n keys \<longleftrightarrow>
     (\<forall>j<n. keys ! j \<noteq> 0 \<longrightarrow>
        (let h = home_slot (n - 1) (keys ! j)
         in \<forall>d<cyc_dist n h j. keys ! ((h + d) mod n) \<noteq> 0))"

definition table_inv :: "ref_table \<Rightarrow> bool" where
  "table_inv t \<longleftrightarrow>
     (\<exists>k\<in>{..31}. rt_cap t = 2 ^ k) \<and> rt_mask t = rt_cap t - 1 \<and>
     length (rt_keys t) = rt_cap t \<and> length (rt_vals t) = rt_cap t \<and>
     keys_unique (rt_cap t) (rt_keys t) \<and> chains_ok (rt_cap t) (rt_keys t) \<and>
     rt_size t = length (filter (\<lambda>k. k \<noteq> 0) (rt_keys t))"

definition slot_of :: "ref_table \<Rightarrow> u64 \<Rightarrow> nat option" where
  "slot_of t ref = (if ref = 0 then None else first_index (\<lambda>j. rt_keys t ! j = ref) (rt_cap t))"

definition table_map :: "ref_table \<Rightarrow> u64 \<Rightarrow> order_value option" where
  "table_map t ref = map_option (\<lambda>j. rt_vals t ! j) (slot_of t ref)"

lemma table_invD:
  assumes "table_inv t"
  obtains k where "rt_cap t = 2 ^ k" "rt_mask t = rt_cap t - 1" "0 < rt_cap t"
    "length (rt_keys t) = rt_cap t" "length (rt_vals t) = rt_cap t"
    "keys_unique (rt_cap t) (rt_keys t)" "chains_ok (rt_cap t) (rt_keys t)"
    "rt_size t = length (filter (\<lambda>k. k \<noteq> 0) (rt_keys t))"
  using assms by (auto simp: table_inv_def)

lemma table_inv_home: "table_inv t \<Longrightarrow> home_slot (rt_mask t) r < rt_cap t"
  by (elim table_invD) (simp add: home_slot_less)

lemma table_inv_next: "table_inv t \<Longrightarrow> next_slot (rt_mask t) i = Suc i mod rt_cap t"
  by (elim table_invD) (simp add: next_slot_mod)

lemma keys_uniqueD:
  "keys_unique n ks \<Longrightarrow> i < n \<Longrightarrow> j < n \<Longrightarrow> ks ! i \<noteq> 0 \<Longrightarrow> ks ! i = ks ! j \<Longrightarrow> i = j"
  by (simp add: keys_unique_def)

lemma slot_of_Some_iff:
  assumes "table_inv t"
  shows "slot_of t r = Some j \<longleftrightarrow> r \<noteq> 0 \<and> j < rt_cap t \<and> rt_keys t ! j = r"
proof -
  have u: "keys_unique (rt_cap t) (rt_keys t)" using assms by (rule table_invD)
  have "rt_keys t ! e \<noteq> r" if "r \<noteq> 0" "j < rt_cap t" "rt_keys t ! j = r" "e < j" for e
    using keys_uniqueD [OF u, of j e] that by auto
  then show ?thesis by (auto simp: slot_of_def first_index_Some_iff)
qed

lemma slot_of_None_iff: "slot_of t r = None \<longleftrightarrow> r = 0 \<or> (\<forall>j<rt_cap t. rt_keys t ! j \<noteq> r)"
  by (auto simp: slot_of_def first_index_None_iff)

lemma table_map_Some_iff:
  "table_inv t \<Longrightarrow> table_map t r = Some v \<longleftrightarrow>
     r \<noteq> 0 \<and> (\<exists>j<rt_cap t. rt_keys t ! j = r \<and> rt_vals t ! j = v)"
  by (auto simp: table_map_def slot_of_Some_iff)

lemma table_map_0 [simp]: "table_map t 0 = None"
  by (simp add: table_map_def slot_of_def)

lemma chain_slot:
  assumes "table_inv t" "j < rt_cap t" "rt_keys t ! j \<noteq> 0"
    and "h = home_slot (rt_mask t) (rt_keys t ! j)" "d < cyc_dist (rt_cap t) h j"
  shows "rt_keys t ! ((h + d) mod rt_cap t) \<noteq> 0"
  using assms by (elim table_invD) (auto simp: chains_ok_def Let_def)

subsection \<open>Lookup finds the key\<close>

definition stops_at :: "u64 list \<Rightarrow> nat \<Rightarrow> u64 \<Rightarrow> nat \<Rightarrow> nat \<Rightarrow> bool" where
  "stops_at keys n r i d \<longleftrightarrow> keys ! ((i + d) mod n) = r \<or> keys ! ((i + d) mod n) = 0"

lemma stops_at_shift: "stops_at keys n r (Suc i mod n) = (\<lambda>d. stops_at keys n r i (Suc d))"
  by (simp add: stops_at_def mod_simps fun_eq_iff)

lemma probe_scalar_loop_first:
  assumes "n = 2 ^ k" "msk = n - 1" "i < n"
  shows "probe_scalar_loop keys msk r i m =
    (case first_index (stops_at keys n r i) m of
       None \<Rightarrow> -1
     | Some d \<Rightarrow> if keys ! ((i + d) mod n) = r then int ((i + d) mod n) else -1)"
  using assms(3)
proof (induction m arbitrary: i)
  case (Suc m)
  have "Suc i mod n < n" using assms by simp
  note IH = Suc.IH [OF this, unfolded stops_at_shift]
  show ?case
  proof (cases "stops_at keys n r i 0")
    case True
    then show ?thesis using Suc.prems by (auto simp: Let_def stops_at_def)
  next
    case False
    then show ?thesis
      using IH Suc.prems assms(1,2)
      by (auto simp: Let_def next_slot_mod mod_simps stops_at_def [of _ _ _ _ 0] split: option.splits)
  qed
qed simp

lemma first_stop:
  assumes inv: "table_inv t" and r: "r \<noteq> 0" and h: "h = home_slot (rt_mask t) r"
    and m: "rt_cap t \<le> m"
  shows "case slot_of t r of
      Some j \<Rightarrow> first_index (stops_at (rt_keys t) (rt_cap t) r h) m = Some (cyc_dist (rt_cap t) h j)
    | None \<Rightarrow> (\<forall>d. first_index (stops_at (rt_keys t) (rt_cap t) r h) m = Some d \<longrightarrow>
                    rt_keys t ! ((h + d) mod rt_cap t) = 0)"
proof (cases "slot_of t r")
  case None
  have "0 < rt_cap t" using inv by (rule table_invD)
  then have "rt_keys t ! ((h + d) mod rt_cap t) \<noteq> r" for d
    using None r by (auto simp: slot_of_None_iff)
  with None show ?thesis by (auto simp: first_index_Some_iff stops_at_def)
next
  case (Some j)
  let ?n = "rt_cap t" let ?D = "cyc_dist ?n h j"
  have j: "j < ?n" "rt_keys t ! j = r" using Some inv by (auto simp: slot_of_Some_iff)
  have hn: "h < ?n" using inv h by (simp add: table_inv_home)
  have D: "?D < ?n" "(h + ?D) mod ?n = j" using hn j by (simp_all add: cyc_dist_less add_cyc_dist)
  have "\<not> stops_at (rt_keys t) ?n r h d" if d: "d < ?D" for d
  proof -
    have "rt_keys t ! ((h + d) mod ?n) \<noteq> 0"
      using chain_slot [OF inv j(1), of h d] d h j r by simp
    moreover have "rt_keys t ! ((h + d) mod ?n) \<noteq> r"
    proof
      assume "rt_keys t ! ((h + d) mod ?n) = r"
      moreover have "keys_unique ?n (rt_keys t)" using inv by (rule table_invD)
      ultimately have "(h + d) mod ?n = j"
        using keys_uniqueD [of ?n "rt_keys t" j "(h + d) mod ?n"] j r hn by auto
      then show False using D d hn by (metis add_mod_inj less_irrefl less_trans)
    qed
    ultimately show ?thesis by (simp add: stops_at_def)
  qed
  moreover have "stops_at (rt_keys t) ?n r h ?D" using D j by (simp add: stops_at_def)
  ultimately have "first_index (stops_at (rt_keys t) ?n r h) m = Some ?D"
    using D m by (auto simp: first_index_Some_iff)
  with Some show ?thesis by simp
qed

lemma find_index_slot:
  assumes "table_inv t"
  shows "find_index t r = (case slot_of t r of None \<Rightarrow> -1 | Some j \<Rightarrow> int j)"
proof (cases "r = 0")
  case True
  then show ?thesis by (simp add: find_index_def slot_of_def)
next
  case False
  let ?h = "home_slot (rt_mask t) r"
  obtain k where k: "rt_cap t = 2 ^ k" "rt_mask t = rt_cap t - 1" using assms by (rule table_invD)
  have h: "?h < rt_cap t" using assms by (rule table_inv_home)
  define m where "m = rt_cap t + 1"
  have f: "find_index t r = (case first_index (stops_at (rt_keys t) (rt_cap t) r ?h) m of
       None \<Rightarrow> -1
     | Some d \<Rightarrow> if rt_keys t ! ((?h + d) mod rt_cap t) = r then int ((?h + d) mod rt_cap t) else -1)"
    using False by (simp only: find_index_def probe_scalar_def m_def if_False
        probe_scalar_loop_first [OF k h])
  have stop: "rt_cap t \<le> m" by (simp add: m_def)
  show ?thesis
  proof (cases "slot_of t r")
    case None
    then show ?thesis
      using first_stop [OF assms False refl stop] False by (auto simp: f split: option.splits)
  next
    case (Some j)
    then have "j < rt_cap t" "rt_keys t ! j = r" using assms by (auto simp: slot_of_Some_iff)
    then show ?thesis
      using first_stop [OF assms False refl stop] Some h by (simp add: f add_cyc_dist)
  qed
qed

lemma table_find_map: "table_inv t \<Longrightarrow> table_find t r = table_map t r"
  by (auto simp: table_find_def find_index_slot table_map_def split: option.splits)

lemma table_modify_map:
  "table_inv t \<Longrightarrow> table_modify r f t =
     (case slot_of t r of None \<Rightarrow> t | Some j \<Rightarrow> t\<lparr>rt_vals := (rt_vals t)[j := f (rt_vals t ! j)]\<rparr>)"
  by (auto simp: table_modify_def find_index_slot Let_def split: option.splits)

subsection \<open>Insertion\<close>

lemma insert_probe_first:
  assumes "n = 2 ^ k" "msk = n - 1" "r \<noteq> 0" "i < n" "probes \<le> n"
  shows "insert_probe keys msk n r i probes =
    (case first_index (stops_at keys n r i) (Suc n - probes) of
       None \<Rightarrow> Probe_full
     | Some d \<Rightarrow> if keys ! ((i + d) mod n) = r then At_key ((i + d) mod n)
                  else At_empty ((i + d) mod n) (probes + d))"
  using assms(4,5)
proof (induction "n - probes" arbitrary: i probes)
  case 0
  then have p: "probes = n" by simp
  show ?case
    unfolding p using 0(2) assms(3)
    by (subst insert_probe.simps) (simp add: Let_def stops_at_def)
next
  case (Suc m)
  then have bound: "probes < n" by simp
  then have len: "Suc n - probes = Suc (Suc n - (probes + 1))" by simp
  have "Suc i mod n < n" "m = n - (probes + 1)" "probes + 1 \<le> n" using assms Suc bound by simp_all
  note IH = Suc.hyps(1) [OF this(2) this(1) this(3), unfolded stops_at_shift]
  show ?case
  proof (cases "stops_at keys n r i 0")
    case True
    then show ?thesis
      using Suc.prems assms(3) by (subst insert_probe.simps) (auto simp: len stops_at_def)
  next
    case False
    then have e: "first_index (stops_at keys n r i) (Suc n - probes) =
        map_option Suc (first_index (\<lambda>d. stops_at keys n r i (Suc d)) (Suc n - (probes + 1)))"
      by (simp only: len first_index.simps if_False)
    from False have "keys ! i \<noteq> r" "keys ! i \<noteq> 0" using Suc.prems by (auto simp: stops_at_def)
    then have "insert_probe keys msk n r i probes = insert_probe keys msk n r (Suc i mod n) (probes + 1)"
      using bound assms(1,2) by (subst insert_probe.simps) (simp add: Let_def next_slot_mod)
    then show ?thesis
      unfolding e IH by (auto simp: mod_simps split: option.splits)
  qed
qed

lemma table_full_iff:
  assumes "table_inv t"
  shows "rt_size t < rt_cap t \<longleftrightarrow> (\<exists>j<rt_cap t. rt_keys t ! j = 0)"
proof -
  have "rt_size t = length (filter (\<lambda>k. k \<noteq> 0) (rt_keys t))" "length (rt_keys t) = rt_cap t"
    using assms by (auto elim: table_invD)
  then show ?thesis using length_filter_less_iff [of "\<lambda>k. k \<noteq> 0" "rt_keys t"] by auto
qed

lemma table_size_le: "table_inv t \<Longrightarrow> rt_size t \<le> rt_cap t"
  by (elim table_invD) (metis length_filter_le)

lemma table_insert_present:
  assumes "table_inv t" "slot_of t r = Some j"
  shows "table_insert r v t = (t\<lparr>rt_vals := (rt_vals t)[j := v]\<rparr>, True)"
proof -
  have j: "r \<noteq> 0" "j < rt_cap t" "rt_keys t ! j = r" using assms by (simp_all add: slot_of_Some_iff)
  obtain k where k: "rt_cap t = 2 ^ k" "rt_mask t = rt_cap t - 1" "0 < rt_cap t"
    using assms by (elim table_invD)
  have h: "home_slot (rt_mask t) r < rt_cap t" using assms(1) by (rule table_inv_home)
  show ?thesis
    using first_stop [OF assms(1) j(1) refl, of "rt_cap t"] j h k(3) assms(2)
    by (simp add: table_insert_def insert_probe_first [OF k(1,2) j(1) h] add_cyc_dist)
qed

lemma table_insert_absent:
  assumes inv: "table_inv t" and r: "r \<noteq> 0" and abs: "slot_of t r = None" and room: "rt_size t < rt_cap t"
  obtains j p where "j < rt_cap t" "rt_keys t ! j = 0"
    "\<forall>d < cyc_dist (rt_cap t) (home_slot (rt_mask t) r) j.
       rt_keys t ! ((home_slot (rt_mask t) r + d) mod rt_cap t) \<noteq> 0"
    "table_insert r v t = (t\<lparr>rt_stats := record_probes p (rt_stats t),
       rt_keys := (rt_keys t)[j := r], rt_vals := (rt_vals t)[j := v],
       rt_size := rt_size t + 1\<rparr>, True)"
proof -
  let ?n = "rt_cap t" let ?h = "home_slot (rt_mask t) r"
  obtain k where k: "?n = 2 ^ k" "rt_mask t = ?n - 1" "0 < ?n" using inv by (rule table_invD)
  have h: "?h < ?n" using inv by (rule table_inv_home)
  obtain e where e: "e < ?n" "rt_keys t ! e = 0" using table_full_iff [OF inv] room by auto
  let ?D = "cyc_dist ?n ?h e"
  have "stops_at (rt_keys t) ?n r ?h ?D" using h e by (simp add: stops_at_def add_cyc_dist)
  then obtain d where d: "d \<le> ?D" "first_index (stops_at (rt_keys t) ?n r ?h) ?n = Some d"
    using first_index_exists [of ?D ?n "stops_at (rt_keys t) ?n r ?h"] h e by (auto simp: cyc_dist_less)
  let ?j = "(?h + d) mod ?n"
  have dn: "d < ?n" and before: "\<And>d'. d' < d \<Longrightarrow> \<not> stops_at (rt_keys t) ?n r ?h d'"
    using d(2) by (auto simp: first_index_Some_iff)
  have zero: "rt_keys t ! ?j = 0" using first_stop [OF inv r refl order_refl] abs d(2) by simp
  show ?thesis
  proof (rule that)
    show "?j < ?n" using k(3) by simp
    show "rt_keys t ! ?j = 0" by (rule zero)
    show "\<forall>d' < cyc_dist ?n ?h ?j. rt_keys t ! ((?h + d') mod ?n) \<noteq> 0"
      using before by (auto simp: cyc_dist_add [OF h dn] stops_at_def)
    show "table_insert r v t = (t\<lparr>rt_stats := record_probes (1 + d) (rt_stats t),
       rt_keys := (rt_keys t)[?j := r], rt_vals := (rt_vals t)[?j := v],
       rt_size := rt_size t + 1\<rparr>, True)"
      using r zero k(3) d(2)
      by (simp add: table_insert_def insert_probe_first [OF k(1,2) r h])
  qed
qed

lemma table_insert_full:
  assumes inv: "table_inv t" and abs: "slot_of t r = None" and full: "\<not> rt_size t < rt_cap t"
  shows "table_insert r v t = (t, False)"
proof (cases "r = 0")
  case False
  obtain k where k: "rt_cap t = 2 ^ k" "rt_mask t = rt_cap t - 1" "0 < rt_cap t"
    using inv by (rule table_invD)
  have h: "home_slot (rt_mask t) r < rt_cap t" using inv by (rule table_inv_home)
  have "\<not> stops_at (rt_keys t) (rt_cap t) r (home_slot (rt_mask t) r) d" for d
    using k(3) full abs False table_full_iff [OF inv] by (auto simp: stops_at_def slot_of_None_iff)
  then have "first_index (stops_at (rt_keys t) (rt_cap t) r (home_slot (rt_mask t) r)) (rt_cap t) = None"
    by (simp add: first_index_None_iff)
  then show ?thesis
    using False k(3) by (simp add: table_insert_def insert_probe_first [OF k(1,2) False h])
qed (simp add: table_insert_def)

lemma table_inv_vals:
  "table_inv t \<Longrightarrow> length vs = rt_cap t \<Longrightarrow> table_inv (t\<lparr>rt_vals := vs\<rparr>)"
  by (simp add: table_inv_def)

lemma slot_of_vals [simp]: "slot_of (t\<lparr>rt_vals := vs\<rparr>) r = slot_of t r"
  by (simp add: slot_of_def)

lemma table_map_update_val:
  assumes "table_inv t" "slot_of t r = Some j"
  shows "table_map (t\<lparr>rt_vals := (rt_vals t)[j := v]\<rparr>) = (table_map t)(r \<mapsto> v)"
proof
  fix r'
  have j: "j < rt_cap t" "rt_keys t ! j = r" "length (rt_vals t) = rt_cap t"
    using assms by (auto simp: slot_of_Some_iff elim: table_invD)
  show "table_map (t\<lparr>rt_vals := (rt_vals t)[j := v]\<rparr>) r' = ((table_map t)(r \<mapsto> v)) r'"
  proof (cases "slot_of t r'")
    case None
    then show ?thesis using assms(2) by (auto simp: table_map_def)
  next
    case (Some j')
    then have "j' = j \<longleftrightarrow> r' = r"
      using assms j by (metis option.inject slot_of_Some_iff)
    then show ?thesis using Some assms(2) j by (auto simp: table_map_def)
  qed
qed

lemma insert_empty_slot:
  assumes inv: "table_inv t" and j: "j < rt_cap t" "rt_keys t ! j = 0"
    and r: "r \<noteq> 0" "slot_of t r = None"
    and path: "\<forall>d < cyc_dist (rt_cap t) (home_slot (rt_mask t) r) j.
       rt_keys t ! ((home_slot (rt_mask t) r + d) mod rt_cap t) \<noteq> 0"
    and t': "t' = t\<lparr>rt_stats := st, rt_keys := (rt_keys t)[j := r], rt_vals := (rt_vals t)[j := v],
       rt_size := rt_size t + 1\<rparr>"
  shows "table_inv t'" and "table_map t' = (table_map t)(r \<mapsto> v)"
proof -
  let ?n = "rt_cap t" let ?ks = "(rt_keys t)[j := r]"
  obtain k where k: "?n = 2 ^ k" "rt_mask t = ?n - 1" "0 < ?n" "length (rt_keys t) = ?n"
    "length (rt_vals t) = ?n" "keys_unique ?n (rt_keys t)" "chains_ok ?n (rt_keys t)"
    "rt_size t = length (filter (\<lambda>k. k \<noteq> 0) (rt_keys t))"
    using inv by (rule table_invD)
  have absent: "rt_keys t ! i \<noteq> r" if "i < ?n" for i using r that by (simp add: slot_of_None_iff)
  have nz: "?ks ! i \<noteq> 0" if "rt_keys t ! i \<noteq> 0" "i < ?n" for i
    using that j r k(4) by (simp add: nth_list_update)
  have "keys_unique ?n ?ks"
    using k(4,6) absent j by (auto simp: keys_unique_def nth_list_update)
  moreover have "chains_ok ?n ?ks"
    unfolding chains_ok_def Let_def
  proof (intro allI impI)
    fix i d
    assume i: "i < ?n" "?ks ! i \<noteq> 0" and d: "d < cyc_dist ?n (home_slot (?n - 1) (?ks ! i)) i"
    let ?s = "(home_slot (?n - 1) (?ks ! i) + d) mod ?n"
    have "rt_keys t ! ?s \<noteq> 0"
    proof (cases "i = j")
      case True
      then show ?thesis using d path k(2,4) i by simp
    next
      case False
      then show ?thesis using i d k(7) by (auto simp: chains_ok_def Let_def)
    qed
    then show "?ks ! ?s \<noteq> 0" using nz [of ?s] k(3) by simp
  qed
  moreover have "rt_size t + 1 = length (filter (\<lambda>k. k \<noteq> 0) ?ks)"
    using length_filter_update [of j "rt_keys t" "\<lambda>k. k \<noteq> 0" r] j r k(4,8) by simp
  ultimately show inv': "table_inv t'" using inv by (simp add: table_inv_def t')
  show "table_map t' = (table_map t)(r \<mapsto> v)"
  proof
    fix r'
    have "slot_of t' r' = (if r' = r then Some j else slot_of t r')"
    proof (cases "r' = r")
      case True
      then show ?thesis using j r k(4) inv' by (simp add: slot_of_Some_iff) (simp add: t')
    next
      case False
      have "slot_of t' r' = Some i \<longleftrightarrow> slot_of t r' = Some i" for i
        unfolding slot_of_Some_iff [OF inv'] slot_of_Some_iff [OF inv]
        using False j k(4) by (auto simp: t' nth_list_update)
      with False show ?thesis by (metis option.exhaust)
    qed
    moreover have "i \<noteq> j" if "slot_of t r' = Some i" for i
      using that inv j by (auto simp: slot_of_Some_iff)
    ultimately show "table_map t' r' = ((table_map t)(r \<mapsto> v)) r'"
      using j k(5) by (cases "slot_of t r'") (auto simp: table_map_def t')
  qed
qed

lemma table_map_None_iff: "table_map t r = None \<longleftrightarrow> slot_of t r = None"
  by (simp add: table_map_def)

lemma table_insert_cases:
  assumes "table_inv t"
  shows "if r \<noteq> 0 \<and> (table_map t r \<noteq> None \<or> rt_size t < rt_cap t)
    then \<exists>t'. table_insert r v t = (t', True) \<and> table_inv t' \<and> table_map t' = (table_map t)(r \<mapsto> v) \<and>
      rt_cap t' = rt_cap t \<and> rt_mask t' = rt_mask t \<and>
      rt_size t' = (if table_map t r = None then rt_size t + 1 else rt_size t)
    else table_insert r v t = (t, False)"
proof (cases "slot_of t r")
  case None
  show ?thesis
  proof (cases "r \<noteq> 0 \<and> rt_size t < rt_cap t")
    case True
    then have r: "r \<noteq> 0" and room: "rt_size t < rt_cap t" by simp_all
    obtain j p where "j < rt_cap t" "rt_keys t ! j = 0"
      "\<forall>d < cyc_dist (rt_cap t) (home_slot (rt_mask t) r) j.
         rt_keys t ! ((home_slot (rt_mask t) r + d) mod rt_cap t) \<noteq> 0"
      and eq: "table_insert r v t = (t\<lparr>rt_stats := record_probes p (rt_stats t),
         rt_keys := (rt_keys t)[j := r], rt_vals := (rt_vals t)[j := v],
         rt_size := rt_size t + 1\<rparr>, True)"
      using assms r None room by (rule table_insert_absent)
    from insert_empty_slot [OF assms this(1,2) r None this(3) refl] True show ?thesis
      by (simp add: eq table_map_None_iff None)
  next
    case False
    then have "table_insert r v t = (t, False)"
      using table_insert_full [OF assms None] by (auto simp: table_insert_def)
    then show ?thesis using False None by (auto simp: table_map_None_iff)
  qed
next
  case (Some j)
  then have "r \<noteq> 0" using assms by (simp add: slot_of_Some_iff)
  moreover have "length (rt_vals t) = rt_cap t" using assms by (rule table_invD)
  ultimately show ?thesis
    using Some assms table_inv_vals
    by (simp add: table_insert_present table_map_update_val table_map_None_iff)
qed

subsection \<open>Construction\<close>

lemma unat_pow2_u32:
  assumes "i < 32"
  shows "unat (2 ^ i :: u32) = 2 ^ i"
proof -
  have "(2::nat) ^ i < 2 ^ 32" using assms by (intro power_strict_increasing) simp_all
  then have "unat (of_nat (2 ^ i) :: u32) = 2 ^ i"
    by (simp only: unsigned_of_nat) (simp add: take_bit_nat_eq_self_iff assms)
  then show ?thesis by simp
qed

lemma round_up_from:
  assumes "i \<le> 31" "unat capacity \<le> 2 ^ 31" "\<forall>m<i. 2 ^ m < unat capacity"
  shows "\<exists>k\<le>31. round_up_pow2 capacity (2 ^ i) = Some (2 ^ k) \<and>
    unat capacity \<le> 2 ^ k \<and> (\<forall>m<k. 2 ^ m < unat capacity)"
  using assms
proof (induction "31 - i" arbitrary: i)
  case 0
  then have "i = 31" by simp
  with 0 show ?case
    by (subst round_up_pow2.simps) (auto simp: word_less_nat_alt unat_pow2_u32 intro!: exI [of _ 31])
next
  case (Suc d)
  show ?case
  proof (cases "2 ^ i < unat capacity")
    case False
    with Suc show ?thesis
      by (subst round_up_pow2.simps) (auto simp: word_less_nat_alt unat_pow2_u32 intro!: exI [of _ i])
  next
    case True
    have "round_up_pow2 capacity (2 ^ i) = round_up_pow2 capacity (2 ^ Suc i)"
      using True Suc
      by (subst round_up_pow2.simps) (simp add: word_less_nat_alt unat_pow2_u32 mult.commute)
    moreover have "\<forall>m<Suc i. 2 ^ m < unat capacity"
      using True Suc.prems(3) by (auto simp: less_Suc_eq)
    ultimately show ?thesis
      using Suc.hyps(1) [of "Suc i"] Suc.hyps(2) Suc.prems(1,2) by simp
  qed
qed

text \<open>Past \<open>2 ^ 31\<close> the doubled counter never reaches the request, so the loop does not end.\<close>

lemma round_up_result:
  assumes "round_up_pow2 capacity n = Some r"
  shows "capacity \<le> r \<and> ((\<exists>j. n = push_bit j 1) \<longrightarrow> (\<exists>j. r = push_bit j 1))"
proof (rule round_up_pow2.raw_induct
    [where P = "\<lambda>c n r. c \<le> r \<and> ((\<exists>j. n = push_bit j 1) \<longrightarrow> (\<exists>j. r = push_bit j 1))", OF _ assms])
  fix f :: "u32 \<Rightarrow> u32 \<Rightarrow> u32 option" and c n r :: u32
  assume IH: "\<And>c n r. f c n = Some r \<Longrightarrow> c \<le> r \<and> ((\<exists>j. n = push_bit j 1) \<longrightarrow> (\<exists>j. r = push_bit j 1))"
    and eq: "(if n < c then f c (push_bit 1 n) else Some n) = Some r"
  have step: "\<exists>j'. push_bit 1 n = push_bit j' 1" if "n = push_bit j 1" for j
    using that by (auto simp only: push_bit_push_bit)
  show "c \<le> r \<and> ((\<exists>j. n = push_bit j 1) \<longrightarrow> (\<exists>j. r = push_bit j 1))"
  proof (cases "n < c")
    case True
    then show ?thesis using eq IH [of c "push_bit 1 n" r] step by auto
  next
    case False
    then show ?thesis using eq by auto
  qed
qed

lemma round_up_diverges:
  assumes "2 ^ 31 < unat capacity"
  shows "round_up_pow2 capacity 1 = None"
proof (cases "round_up_pow2 capacity 1")
  case (Some r)
  have "\<exists>j. (1 :: u32) = push_bit j 1" by (rule exI [of _ 0]) simp
  with round_up_result [OF Some] obtain j where r: "capacity \<le> r" "r = push_bit j 1" by blast
  have "unat r \<le> 2 ^ 31"
  proof (cases "j < 32")
    case True
    then have "(2::nat) ^ j \<le> 2 ^ 31" by (intro power_increasing) simp_all
    then show ?thesis using True r by (simp add: unat_pow2_u32)
  next
    case False
    then have "r = 0" using r by (auto intro!: bit_word_eqI simp: bit_push_bit_iff)
    then show ?thesis by simp
  qed
  then show ?thesis using r(1) assms by (simp add: word_le_nat_alt)
qed

lemma table_init_spec:
  assumes "unat capacity \<le> 2 ^ 31"
  obtains t where "table_init capacity = Some t" "table_inv t" "table_map t = Map.empty"
    "rt_size t = 0" "unat capacity \<le> rt_cap t" "\<forall>m. 2 ^ m < rt_cap t \<longrightarrow> 2 ^ m < unat capacity"
proof -
  obtain k where k: "k \<le> 31" "round_up_pow2 capacity 1 = Some (2 ^ k)"
    "unat capacity \<le> 2 ^ k" "\<forall>m<k. 2 ^ m < unat capacity"
    using round_up_from [of 0 capacity] assms by auto
  let ?t = "\<lparr>rt_keys = replicate (2 ^ k) 0, rt_vals = replicate (2 ^ k) no_value,
    rt_cap = 2 ^ k, rt_mask = 2 ^ k - 1, rt_size = 0, rt_stats = no_table_stats\<rparr>"
  have n: "unat (2 ^ k :: u32) = 2 ^ k" using k(1) by (simp add: unat_pow2_u32)
  have one: "(1 :: u32) \<le> 2 ^ k" using n by (simp add: word_le_nat_alt)
  have "unat (2 ^ k - 1 :: u32) = 2 ^ k - 1" by (simp add: unat_minus_le [OF one] n)
  then have init: "table_init capacity = Some ?t"
    using k(2) n by (simp add: table_init_def)
  have inv: "table_inv ?t"
    using k(1) by (auto simp: table_inv_def keys_unique_def chains_ok_def)
  have "table_map ?t r = None" for r
    by (auto simp: table_map_None_iff slot_of_None_iff)
  then have "table_map ?t = Map.empty" by auto
  then show ?thesis using that [OF init inv] k by auto
qed

end
