(* ===== verification/RefTableErase.thy ===== *)
theory RefTableErase
  imports RefTable
begin

text \<open>
  Deletion from the order-reference table. The backward-shift loop keeps a hole \<open>i\<close> whose
  key is already accounted for, and walks \<open>j\<close> forward; the loop invariant says that no chain
  of a slot between the hole and \<open>j\<close> passes through the hole. The loop ends at the first
  empty slot, so it ends exactly when the table has one.
\<close>

definition hole_inv :: "nat \<Rightarrow> u64 list \<Rightarrow> nat \<Rightarrow> nat \<Rightarrow> bool" where
  "hole_inv n keys i j \<longleftrightarrow>
     i < n \<and> j < n \<and> length keys = n \<and> keys ! i \<noteq> 0 \<and>
     (\<forall>a<n. \<forall>b<n. a \<noteq> i \<longrightarrow> b \<noteq> i \<longrightarrow> keys ! a \<noteq> 0 \<longrightarrow> keys ! a = keys ! b \<longrightarrow> a = b) \<and>
     (\<forall>a<n. a \<noteq> i \<longrightarrow> keys ! a \<noteq> 0 \<longrightarrow>
        (\<forall>d<cyc_dist n (home_slot (n - 1) (keys ! a)) a.
           keys ! ((home_slot (n - 1) (keys ! a) + d) mod n) \<noteq> 0)) \<and>
     (\<forall>d\<le>cyc_dist n i j. keys ! ((i + d) mod n) \<noteq> 0) \<and>
     (\<forall>s<n. s \<noteq> i \<longrightarrow> keys ! s \<noteq> 0 \<longrightarrow> cyc_dist n i s \<le> cyc_dist n i j \<longrightarrow>
        cyc_dist n (home_slot (n - 1) (keys ! s)) s \<le> cyc_dist n (home_slot (n - 1) (keys ! s)) i)"

definition live_entries :: "nat \<Rightarrow> u64 list \<Rightarrow> order_value list \<Rightarrow> nat \<Rightarrow> (u64 \<times> order_value) set" where
  "live_entries n keys vals i = {(keys ! a, vals ! a) | a. a < n \<and> a \<noteq> i \<and> keys ! a \<noteq> 0}"

lemma cyc_dist_next:
  "i < n \<Longrightarrow> j < n \<Longrightarrow> Suc j mod n \<noteq> i \<Longrightarrow> cyc_dist n i (Suc j mod n) = Suc (cyc_dist n i j)"
  by (auto simp: cyc_dist_def mod_Suc split: if_splits)

lemma cyc_dist_from_next:
  "j < n \<Longrightarrow> e < n \<Longrightarrow> j \<noteq> e \<Longrightarrow> cyc_dist n j e = Suc (cyc_dist n (Suc j mod n) e)"
  by (auto simp: cyc_dist_def mod_Suc split: if_splits)

lemma cyc_dist_inj: "a < n \<Longrightarrow> s < n \<Longrightarrow> t < n \<Longrightarrow> cyc_dist n a s = cyc_dist n a t \<Longrightarrow> s = t"
  by (auto simp: cyc_dist_def split: if_splits)

text \<open>A slot on the path from \<open>h\<close> to \<open>s\<close> splits the path.\<close>

lemma slot_after:
  assumes "h < n" "i < n" "s < n" "cyc_dist n h i \<le> cyc_dist n h s"
  shows "cyc_dist n h i + cyc_dist n i s = cyc_dist n h s"
  using cyc_dist_trans [OF assms] assms(4) by simp

lemma add_via:
  assumes "h < n" "i < n"
  shows "(i + d) mod n = (h + (cyc_dist n h i + d)) mod n"
proof -
  have "(h + (cyc_dist n h i + d)) mod n = ((h + cyc_dist n h i) mod n + d) mod n"
    by (simp add: add.assoc mod_simps)
  also have "\<dots> = (i + d) mod n" using assms by (simp add: add_cyc_dist)
  finally show ?thesis by simp
qed

lemma hole_inv_start:
  assumes inv: "table_inv t" and s: "slot_of t r = Some i"
  shows "hole_inv (rt_cap t) (rt_keys t) i i"
proof -
  let ?n = "rt_cap t"
  have i: "i < ?n" "rt_keys t ! i \<noteq> 0" using assms by (auto simp: slot_of_Some_iff)
  have k: "length (rt_keys t) = ?n" "keys_unique ?n (rt_keys t)" "chains_ok ?n (rt_keys t)"
    using inv by (auto elim: table_invD)
  have "s = i" if "s < ?n" "cyc_dist ?n i s \<le> cyc_dist ?n i i" for s
    using that i by (simp add: cyc_dist_eq_0)
  then show ?thesis
    using i k unfolding hole_inv_def keys_unique_def chains_ok_def Let_def
    by (auto simp del: cyc_dist_self) (auto simp: cyc_dist_def)
qed

lemma hole_inv_skip:
  assumes inv: "hole_inv n keys i j0" and n: "n = 2 ^ k" and j: "j = Suc j0 mod n"
    and nz: "keys ! j \<noteq> 0" and gap: "in_gap i j (home_slot (n - 1) (keys ! j))"
  shows "hole_inv n keys i j"
proof -
  have i: "i < n" "j0 < n" and jn: "j < n" using inv n j by (auto simp: hole_inv_def)
  let ?h = "home_slot (n - 1) (keys ! j)"
  have h: "?h < n" using n by (simp add: home_slot_less)
  have ne: "j \<noteq> i"
    using gap h i by (auto simp: in_gap_def)
  have D: "cyc_dist n i j = Suc (cyc_dist n i j0)"
    using cyc_dist_next [OF i] ne by (simp add: j)
  have steps: "\<forall>d\<le>cyc_dist n i j. keys ! ((i + d) mod n) \<noteq> 0"
  proof (intro allI impI)
    fix d assume "d \<le> cyc_dist n i j"
    then consider "d \<le> cyc_dist n i j0" | "d = cyc_dist n i j" using D by linarith
    then show "keys ! ((i + d) mod n) \<noteq> 0"
      using inv nz i jn by cases (auto simp: hole_inv_def add_cyc_dist)
  qed
  have path: "cyc_dist n ?h j \<le> cyc_dist n ?h i"
    using gap h i jn ne by (auto simp: in_gap_def cyc_dist_def split: if_splits)
  have last: "cyc_dist n (home_slot (n - 1) (keys ! s)) s \<le> cyc_dist n (home_slot (n - 1) (keys ! s)) i"
    if s: "s < n" "s \<noteq> i" "keys ! s \<noteq> 0" "cyc_dist n i s \<le> cyc_dist n i j" for s
  proof (cases "cyc_dist n i s \<le> cyc_dist n i j0")
    case True
    then show ?thesis using inv s unfolding hole_inv_def by blast
  next
    case False
    then have "cyc_dist n i s = cyc_dist n i j" using s(4) D by simp
    then have "s = j" by (rule cyc_dist_inj [OF i(1) s(1) jn])
    then show ?thesis using path by simp
  qed
  show ?thesis
    using inv jn steps last unfolding hole_inv_def by blast
qed

lemma hole_inv_at:
  assumes "hole_inv n keys i j"
  shows "i < n" "j < n" "length keys = n" "keys ! i \<noteq> 0" "keys ! j \<noteq> 0"
proof -
  show i: "i < n" "j < n" "length keys = n" "keys ! i \<noteq> 0"
    using assms by (simp_all add: hole_inv_def)
  have "keys ! ((i + cyc_dist n i j) mod n) \<noteq> 0"
    using assms unfolding hole_inv_def by blast
  then show "keys ! j \<noteq> 0" by (simp only: add_cyc_dist [OF i(1,2)]) simp
qed

lemma hole_inv_chain:
  "hole_inv n keys i j \<Longrightarrow> a < n \<Longrightarrow> a \<noteq> i \<Longrightarrow> keys ! a \<noteq> 0 \<Longrightarrow>
   d < cyc_dist n (home_slot (n - 1) (keys ! a)) a \<Longrightarrow>
   keys ! ((home_slot (n - 1) (keys ! a) + d) mod n) \<noteq> 0"
  unfolding hole_inv_def by blast

lemma hole_inv_unique:
  assumes "hole_inv n keys i j" "a < n" "b < n" "a \<noteq> i" "b \<noteq> i" "keys ! a \<noteq> 0" "keys ! a = keys ! b"
  shows "a = b"
proof -
  have "\<forall>a<n. \<forall>b<n. a \<noteq> i \<longrightarrow> b \<noteq> i \<longrightarrow> keys ! a \<noteq> 0 \<longrightarrow> keys ! a = keys ! b \<longrightarrow> a = b"
    using assms(1) unfolding hole_inv_def by (elim conjE)
  then show ?thesis by (elim allE [of _ a] allE [of _ b] impE) (use assms in simp_all)
qed

lemma hole_inv_passed:
  "hole_inv n keys i j \<Longrightarrow> s < n \<Longrightarrow> s \<noteq> i \<Longrightarrow> keys ! s \<noteq> 0 \<Longrightarrow>
   cyc_dist n i s \<le> cyc_dist n i j \<Longrightarrow>
   cyc_dist n (home_slot (n - 1) (keys ! s)) s \<le> cyc_dist n (home_slot (n - 1) (keys ! s)) i"
  unfolding hole_inv_def by blast

lemma hole_inv_walked:
  "hole_inv n keys i j \<Longrightarrow> d \<le> cyc_dist n i j \<Longrightarrow> keys ! ((i + d) mod n) \<noteq> 0"
  unfolding hole_inv_def by blast

text \<open>The walk reaches the hole again only when it has seen no empty slot at all.\<close>

lemma hole_inv_not_round:
  assumes inv: "hole_inv n keys i j0" and e: "e < n" "keys ! e = 0"
  shows "Suc j0 mod n \<noteq> i"
proof
  assume j: "Suc j0 mod n = i"
  have i: "i < n" "j0 < n" using hole_inv_at [OF inv] by simp_all
  have "cyc_dist n (Suc j0 mod n) j0 = n - 1"
    using i by (auto simp: cyc_dist_def mod_Suc)
  then have "cyc_dist n i j0 = n - 1" by (simp only: j)
  then have "cyc_dist n i e \<le> cyc_dist n i j0"
    using cyc_dist_less [OF i(1) e(1)] by linarith
  from hole_inv_walked [OF inv this] have "keys ! e \<noteq> 0"
    by (simp only: add_cyc_dist [OF i(1) e(1)]) simp
  then show False using e by simp
qed

lemma hole_invI:
  assumes "i < n" "j < n" "length keys = n" "keys ! i \<noteq> 0"
    and unique: "\<And>a b. a < n \<Longrightarrow> b < n \<Longrightarrow> a \<noteq> i \<Longrightarrow> b \<noteq> i \<Longrightarrow> keys ! a \<noteq> 0 \<Longrightarrow> keys ! a = keys ! b \<Longrightarrow> a = b"
    and chain: "\<And>a d. a < n \<Longrightarrow> a \<noteq> i \<Longrightarrow> keys ! a \<noteq> 0 \<Longrightarrow>
      d < cyc_dist n (home_slot (n - 1) (keys ! a)) a \<Longrightarrow>
      keys ! ((home_slot (n - 1) (keys ! a) + d) mod n) \<noteq> 0"
    and walked: "\<And>d. d \<le> cyc_dist n i j \<Longrightarrow> keys ! ((i + d) mod n) \<noteq> 0"
    and passed: "\<And>s. s < n \<Longrightarrow> cyc_dist n i s \<le> cyc_dist n i j \<Longrightarrow>
      cyc_dist n (home_slot (n - 1) (keys ! s)) s \<le> cyc_dist n (home_slot (n - 1) (keys ! s)) i"
  shows "hole_inv n keys i j"
  unfolding hole_inv_def
  by (intro conjI allI impI) (fact assms(1-4) | erule (5) unique | erule (3) chain | erule walked | erule (1) passed)+

lemma hole_inv_move:
  assumes inv: "hole_inv n keys i j0" and n: "n = 2 ^ k" and j: "j < n" "j \<noteq> i"
    and nz: "keys ! j \<noteq> 0" and gap: "\<not> in_gap i j (home_slot (n - 1) (keys ! j))"
  shows "hole_inv n (keys[i := keys ! j]) j j"
proof -
  have i: "i < n" "length keys = n" using hole_inv_at [OF inv] by simp_all
  let ?ks = "keys[i := keys ! j]" let ?h = "home_slot (n - 1) (keys ! j)"
  have h: "?h < n" using n by (simp add: home_slot_less)
  have keep: "?ks ! a \<noteq> 0" if "keys ! a \<noteq> 0" for a
    using that i nz by (cases "a = i") simp_all
  have shorter: "cyc_dist n ?h i < cyc_dist n ?h j"
    using gap h i j by (auto simp: in_gap_def cyc_dist_def split: if_splits)
  have unique: "a = b" if "a < n" "b < n" "a \<noteq> j" "b \<noteq> j" "?ks ! a \<noteq> 0" "?ks ! a = ?ks ! b" for a b
  proof -
    consider "a = i" "b = i" | "a = i" "b \<noteq> i" | "a \<noteq> i" "b = i" | "a \<noteq> i" "b \<noteq> i" by blast
    then show ?thesis
    proof cases
      case 2
      then have "keys ! j = keys ! b" using that(6) i by simp
      from hole_inv_unique [OF inv j(1) that(2) j(2) 2(2) nz this] that(4) show ?thesis by simp
    next
      case 3
      then have "keys ! j = keys ! a" using that(6) i by simp
      from hole_inv_unique [OF inv j(1) that(1) j(2) 3(1) nz this] that(3) show ?thesis by simp
    next
      case 4
      then have "keys ! a \<noteq> 0" "keys ! a = keys ! b" using that(5,6) by simp_all
      from hole_inv_unique [OF inv that(1,2) 4 this] show ?thesis .
    qed simp
  qed
  have chain: "?ks ! ((home_slot (n - 1) (?ks ! a) + d) mod n) \<noteq> 0"
    if a: "a < n" "a \<noteq> j" "?ks ! a \<noteq> 0" "d < cyc_dist n (home_slot (n - 1) (?ks ! a)) a" for a d
  proof (cases "a = i")
    case True
    then have "d < cyc_dist n ?h j" using a(4) i shorter by simp
    from hole_inv_chain [OF inv j nz this] show ?thesis using True i keep by simp
  next
    case False
    then show ?thesis using a hole_inv_chain [OF inv a(1) False] keep by simp
  qed
  have here: "s = j" if "s < n" "cyc_dist n j s \<le> cyc_dist n j j" for s
    using that j by (simp add: cyc_dist_eq_0)
  show ?thesis
  proof (rule hole_invI)
    show "j < n" "length ?ks = n" using i j by simp_all
    show "?ks ! j \<noteq> 0" using nz by (rule keep)
    show "?ks ! ((j + d) mod n) \<noteq> 0" if "d \<le> cyc_dist n j j" for d
      using that j keep [OF nz] by simp
    show "cyc_dist n (home_slot (n - 1) (?ks ! s)) s \<le> cyc_dist n (home_slot (n - 1) (?ks ! s)) j"
      if "s < n" "cyc_dist n j s \<le> cyc_dist n j j" for s
      by (simp only: here [OF that])
  qed (fact j(1) | erule (5) unique | erule (3) chain)+
qed

lemma live_entries_move:
  assumes "i < n" "j < n" "i \<noteq> j" "length keys = n" "length vals = n" "keys ! j \<noteq> 0"
  shows "live_entries n (keys[i := keys ! j]) (vals[i := vals ! j]) j = live_entries n keys vals i"
proof (intro set_eqI iffI)
  fix p assume "p \<in> live_entries n (keys[i := keys ! j]) (vals[i := vals ! j]) j"
  then obtain a where a: "a < n" "a \<noteq> j" "keys[i := keys ! j] ! a \<noteq> 0"
    "p = (keys[i := keys ! j] ! a, vals[i := vals ! j] ! a)" by (auto simp: live_entries_def)
  show "p \<in> live_entries n keys vals i"
  proof (cases "a = i")
    case True
    then show ?thesis using a assms by (auto simp: live_entries_def intro!: exI [of _ j])
  next
    case False
    then show ?thesis using a assms by (auto simp: live_entries_def intro!: exI [of _ a])
  qed
next
  fix p assume "p \<in> live_entries n keys vals i"
  then obtain a where a: "a < n" "a \<noteq> i" "keys ! a \<noteq> 0" "p = (keys ! a, vals ! a)"
    by (auto simp: live_entries_def)
  show "p \<in> live_entries n (keys[i := keys ! j]) (vals[i := vals ! j]) j"
  proof (cases "a = j")
    case True
    then show ?thesis using a assms by (auto simp: live_entries_def intro!: exI [of _ i])
  next
    case False
    then show ?thesis using a assms by (auto simp: live_entries_def intro!: exI [of _ a])
  qed
qed

text \<open>The loop ends at the first empty slot it walks onto.\<close>

lemma erase_loop_ends:
  assumes n: "n = 2 ^ k" "msk = n - 1" and e: "e < n" "keys ! e = 0"
    and inv: "hole_inv n keys i j0" and vals: "length vals = n"
  shows "\<exists>keys' vals' i' j'. erase_loop msk keys vals i j0 = Some (keys', vals', i') \<and>
    hole_inv n keys' i' j' \<and> keys' ! (Suc j' mod n) = 0 \<and> length vals' = n \<and>
    live_entries n keys' vals' i' = live_entries n keys vals i \<and>
    length (filter (\<lambda>k. k \<noteq> 0) keys') = length (filter (\<lambda>k. k \<noteq> 0) keys)"
  using e inv vals
proof (induction "cyc_dist n j0 e" arbitrary: keys vals i j0 rule: less_induct)
  case less
  let ?j = "Suc j0 mod n"
  have at: "i < n" "j0 < n" "length keys = n" "keys ! i \<noteq> 0" "keys ! j0 \<noteq> 0"
    using hole_inv_at [OF less.prems(3)] by simp_all
  have next_j: "next_slot msk j0 = ?j" using n by (simp add: next_slot_mod)
  have jn: "?j < n" using at by simp
  have ji: "?j \<noteq> i" using hole_inv_not_round [OF less.prems(3) e(1) less.prems(2)] .
  have "j0 \<noteq> e" using at(5) less.prems(2) by auto
  then have closer: "cyc_dist n ?j e < cyc_dist n j0 e"
    using cyc_dist_from_next [OF at(2) e(1)] by simp
  note step = erase_loop.simps [of msk keys vals i j0, unfolded Let_def next_j]
  consider "keys ! ?j = 0"
    | "keys ! ?j \<noteq> 0" "in_gap i ?j (home_slot msk (keys ! ?j))"
    | "keys ! ?j \<noteq> 0" "\<not> in_gap i ?j (home_slot msk (keys ! ?j))" by blast
  then show ?case
  proof cases
    case 1
    then show ?thesis using less.prems step by auto
  next
    case 2
    have "hole_inv n keys i ?j"
      using hole_inv_skip [OF less.prems(3) n(1) refl] 2 n(2) by simp
    from less.hyps [OF closer e(1) less.prems(2) this less.prems(4)] show ?thesis using 2 step by simp
  next
    case 3
    have "hole_inv n (keys[i := keys ! ?j]) ?j ?j"
      using hole_inv_move [OF less.prems(3) n(1) jn ji] 3 n(2) by simp
    moreover have "keys[i := keys ! ?j] ! e = 0" using at less.prems(2) by (metis nth_list_update_neq)
    moreover have "length (vals[i := vals ! ?j]) = n" using less.prems(4) by simp
    ultimately have "\<exists>keys' vals' i' j'.
      erase_loop msk (keys[i := keys ! ?j]) (vals[i := vals ! ?j]) ?j ?j = Some (keys', vals', i') \<and>
      hole_inv n keys' i' j' \<and> keys' ! (Suc j' mod n) = 0 \<and> length vals' = n \<and>
      live_entries n keys' vals' i' = live_entries n (keys[i := keys ! ?j]) (vals[i := vals ! ?j]) ?j \<and>
      length (filter (\<lambda>k. k \<noteq> 0) keys') = length (filter (\<lambda>k. k \<noteq> 0) (keys[i := keys ! ?j]))"
      using less.hyps [OF closer e(1)] by blast
    moreover have "length (filter (\<lambda>k. k \<noteq> 0) (keys[i := keys ! ?j])) = length (filter (\<lambda>k. k \<noteq> 0) keys)"
      using length_filter_update [of i keys "\<lambda>k. k \<noteq> 0" "keys ! ?j"] at 3 by simp
    moreover have "live_entries n (keys[i := keys ! ?j]) (vals[i := vals ! ?j]) ?j = live_entries n keys vals i"
      by (rule live_entries_move) (use at jn ji 3 less.prems(4) in simp_all)
    ultimately show ?thesis using 3 step by simp
  qed
qed

text \<open>Clearing the last hole leaves every remaining chain unbroken.\<close>

lemma clear_hole_chains:
  assumes inv: "hole_inv n keys i j" and n: "n = 2 ^ k" and e: "keys ! (Suc j mod n) = 0"
  shows "chains_ok n (keys[i := 0])"
  unfolding chains_ok_def Let_def
proof (intro allI impI)
  fix a d
  assume a: "a < n" "keys[i := 0] ! a \<noteq> 0" and d: "d < cyc_dist n (home_slot (n - 1) (keys[i := 0] ! a)) a"
  have at: "i < n" "j < n" "length keys = n" "keys ! i \<noteq> 0" using hole_inv_at [OF inv] by simp_all
  have ai: "a \<noteq> i" "keys ! a \<noteq> 0" using a at by (auto simp: nth_list_update split: if_splits)
  let ?h = "home_slot (n - 1) (keys ! a)" let ?e = "Suc j mod n"
  have h: "?h < n" using n by (simp add: home_slot_less)
  have en: "?e < n" using at by simp
  have d': "d < cyc_dist n ?h a" using d ai by simp
  have dn: "d < n" using d' cyc_dist_less [OF h a(1)] by simp
  have "keys ! ((?h + d) mod n) \<noteq> 0" by (rule hole_inv_chain [OF inv a(1) ai d'])
  moreover have "(?h + d) mod n \<noteq> i"
  proof
    assume "(?h + d) mod n = i"
    then have hi: "cyc_dist n ?h i = d" using cyc_dist_add [OF h dn] by simp
    have "cyc_dist n i j < cyc_dist n i a"
      using hole_inv_passed [OF inv a(1) ai] hi d' by linarith
    moreover have "?e \<noteq> i" using e at by auto
    ultimately have ia: "cyc_dist n i ?e \<le> cyc_dist n i a"
      using cyc_dist_next [OF at(1,2)] by simp
    have split: "cyc_dist n ?h i + cyc_dist n i a = cyc_dist n ?h a"
      using slot_after [OF h at(1) a(1)] hi d' by simp
    have "?e \<noteq> a" using e ai by auto
    then have "cyc_dist n i ?e \<noteq> cyc_dist n i a" using cyc_dist_inj [OF at(1) en a(1)] by blast
    then have "cyc_dist n ?h i + cyc_dist n i ?e < cyc_dist n ?h a" using ia split by simp
    from hole_inv_chain [OF inv a(1) ai this] have "keys ! ((i + cyc_dist n i ?e) mod n) \<noteq> 0"
      unfolding add_via [OF h at(1)] .
    then show False using e unfolding add_cyc_dist [OF at(1) en] by simp
  qed
  ultimately show "keys[i := 0] ! ((home_slot (n - 1) (keys[i := 0] ! a) + d) mod n) \<noteq> 0"
    using ai by simp
qed

lemma erase_loop_result:
  assumes "erase_loop msk keys vals i j = Some (keys', vals', i')"
  shows "length keys = n \<longrightarrow> n = 2 ^ k \<longrightarrow> msk = n - 1 \<longrightarrow> (\<exists>a<n. keys ! a = 0)"
proof (rule erase_loop.raw_induct [where
    P = "\<lambda>msk keys vals i j res. length keys = n \<longrightarrow> n = 2 ^ k \<longrightarrow> msk = n - 1 \<longrightarrow> (\<exists>a<n. keys ! a = 0)",
    OF _ assms])
  fix f :: "nat \<Rightarrow> u64 list \<Rightarrow> order_value list \<Rightarrow> nat \<Rightarrow> nat \<Rightarrow> (u64 list \<times> order_value list \<times> nat) option"
    and msk and keys :: "u64 list" and vals i j0 res
  assume IH: "\<And>msk keys vals i j res. f msk keys vals i j = Some res \<Longrightarrow>
      length keys = n \<longrightarrow> n = 2 ^ k \<longrightarrow> msk = n - 1 \<longrightarrow> (\<exists>a<n. keys ! a = 0)"
    and eq: "(let j = next_slot msk j0
      in if keys ! j = 0 then Some (keys, vals, i)
         else let k = home_slot msk (keys ! j)
              in if in_gap i j k then f msk keys vals i j
                 else f msk (keys[i := keys ! j]) (vals[i := vals ! j]) j j) = Some res"
  show "length keys = n \<longrightarrow> n = 2 ^ k \<longrightarrow> msk = n - 1 \<longrightarrow> (\<exists>a<n. keys ! a = 0)"
  proof (intro impI)
    assume n: "length keys = n" "n = 2 ^ k" "msk = n - 1"
    let ?j = "next_slot msk j0"
    have jn: "?j < n" using n by (simp add: next_slot_mod)
    consider "keys ! ?j = 0" | "keys ! ?j \<noteq> 0" "in_gap i ?j (home_slot msk (keys ! ?j))"
      | "keys ! ?j \<noteq> 0" "\<not> in_gap i ?j (home_slot msk (keys ! ?j))" by blast
    then show "\<exists>a<n. keys ! a = 0"
    proof cases
      case 1
      then show ?thesis using jn by blast
    next
      case 2
      then show ?thesis using eq IH n by (simp add: Let_def)
    next
      case 3
      then have "f msk (keys[i := keys ! ?j]) (vals[i := vals ! ?j]) ?j ?j = Some res"
        using eq by (simp add: Let_def)
      from IH [OF this] n obtain a where "a < n" "keys[i := keys ! ?j] ! a = 0" by auto
      then show ?thesis using 3 n(1) by (cases "a = i") auto
    qed
  qed
qed

lemma live_entries_start:
  assumes inv: "table_inv t" and s: "slot_of t r = Some i"
  shows "(r', v) \<in> live_entries (rt_cap t) (rt_keys t) (rt_vals t) i \<longleftrightarrow> r' \<noteq> r \<and> table_map t r' = Some v"
proof -
  have i: "r \<noteq> 0" "i < rt_cap t" "rt_keys t ! i = r" using assms by (simp_all add: slot_of_Some_iff)
  have u: "keys_unique (rt_cap t) (rt_keys t)" using inv by (rule table_invD)
  have other: "a \<noteq> i \<longleftrightarrow> rt_keys t ! a \<noteq> r" if "a < rt_cap t" "rt_keys t ! a \<noteq> 0" for a
    using keys_uniqueD [OF u that(1) i(2) that(2)] i(3) by auto
  show ?thesis
    unfolding live_entries_def table_map_Some_iff [OF inv] using other by auto
qed

lemma table_erase_present:
  assumes inv: "table_inv t" and s: "slot_of t r = Some i" and room: "rt_size t < rt_cap t"
  shows "\<exists>t'. table_erase r t = Some (t', True) \<and> table_inv t' \<and> table_map t' = (table_map t)(r := None) \<and>
    rt_cap t' = rt_cap t \<and> rt_mask t' = rt_mask t \<and> rt_size t' = rt_size t - 1"
proof -
  let ?n = "rt_cap t"
  obtain k where k: "?n = 2 ^ k" "rt_mask t = ?n - 1" "0 < ?n" "length (rt_keys t) = ?n"
    "length (rt_vals t) = ?n" "rt_size t = length (filter (\<lambda>k. k \<noteq> 0) (rt_keys t))"
    using inv by (rule table_invD)
  obtain e where e: "e < ?n" "rt_keys t ! e = 0" using table_full_iff [OF inv] room by auto
  obtain keys vals h j where loop: "erase_loop (rt_mask t) (rt_keys t) (rt_vals t) i i = Some (keys, vals, h)"
    and hole: "hole_inv ?n keys h j" and last: "keys ! (Suc j mod ?n) = 0" and lv: "length vals = ?n"
    and live: "live_entries ?n keys vals h = live_entries ?n (rt_keys t) (rt_vals t) i"
    and count: "length (filter (\<lambda>k. k \<noteq> 0) keys) = length (filter (\<lambda>k. k \<noteq> 0) (rt_keys t))"
    using erase_loop_ends [OF k(1,2) e hole_inv_start [OF inv s] k(5)] by blast
  let ?t = "t\<lparr>rt_keys := keys[h := 0], rt_vals := vals[h := no_value], rt_size := rt_size t - 1\<rparr>"
  have at: "h < ?n" "length keys = ?n" "keys ! h \<noteq> 0" using hole_inv_at [OF hole] by simp_all
  have erase: "table_erase r t = Some (?t, True)"
    using find_index_slot [OF inv, of r] s loop by (simp add: table_erase_def)
  have "keys_unique ?n (keys[h := 0])"
    unfolding keys_unique_def
  proof (intro allI impI)
    fix a b assume ab: "a < ?n" "b < ?n" "keys[h := 0] ! a \<noteq> 0" "keys[h := 0] ! a = keys[h := 0] ! b"
    then have "a \<noteq> h" "b \<noteq> h" using at by auto
    then show "a = b" using hole_inv_unique [OF hole ab(1,2)] ab(3,4) by simp
  qed
  moreover have "chains_ok ?n (keys[h := 0])" by (rule clear_hole_chains [OF hole k(1) last])
  moreover have "rt_size t - 1 = length (filter (\<lambda>k. k \<noteq> 0) (keys[h := 0]))"
    using length_filter_update [of h keys "\<lambda>k. k \<noteq> 0" 0] at k(6) count by simp
  ultimately have inv': "table_inv ?t" using inv at lv by (simp add: table_inv_def)
  have "table_map ?t r' = Some v \<longleftrightarrow> ((table_map t)(r := None)) r' = Some v" for r' v
  proof -
    have "table_map ?t r' = Some v \<longleftrightarrow> (r', v) \<in> live_entries ?n keys vals h"
      unfolding table_map_Some_iff [OF inv'] live_entries_def
      using at lv by (auto simp: nth_list_update) 
    then show ?thesis using live_entries_start [OF inv s] live by simp
  qed
  then have "table_map ?t = (table_map t)(r := None)" by (rule map_eqI)
  then show ?thesis using erase inv' by simp
qed

text \<open>What deletion does in each of the three cases.\<close>

lemma table_erase_cases:
  assumes "table_inv t"
  shows "if table_map t r = None then table_erase r t = Some (t, False)
    else if rt_size t < rt_cap t
    then \<exists>t'. table_erase r t = Some (t', True) \<and> table_inv t' \<and> table_map t' = (table_map t)(r := None) \<and>
      rt_cap t' = rt_cap t \<and> rt_mask t' = rt_mask t \<and> rt_size t' = rt_size t - 1
    else table_erase r t = None"
proof (cases "slot_of t r")
  case None
  then show ?thesis
    using find_index_slot [OF assms, of r] by (simp add: table_erase_def table_map_None_iff)
next
  case (Some i)
  show ?thesis
  proof (cases "rt_size t < rt_cap t")
    case True
    with table_erase_present [OF assms Some] Some show ?thesis by (simp add: table_map_None_iff)
  next
    case False
    obtain k where k: "rt_cap t = 2 ^ k" "rt_mask t = rt_cap t - 1" "length (rt_keys t) = rt_cap t"
      using assms by (rule table_invD)
    have "erase_loop (rt_mask t) (rt_keys t) (rt_vals t) i i = None"
    proof (rule ccontr)
      assume "erase_loop (rt_mask t) (rt_keys t) (rt_vals t) i i \<noteq> None"
      then obtain ks vs h where "erase_loop (rt_mask t) (rt_keys t) (rt_vals t) i i = Some (ks, vs, h)"
        by auto
      from erase_loop_result [OF this, of "rt_cap t" k] k False table_full_iff [OF assms]
      show False by simp
    qed
    then have "table_erase r t = None"
      using find_index_slot [OF assms, of r] Some by (simp add: table_erase_def)
    then show ?thesis using False Some by (simp add: table_map_None_iff)
  qed
qed

end
