(* ===== verification/RefTableSimd.thy ===== *)
theory RefTableSimd
  imports RefTable
begin

text \<open>
  The vector probes of the order-reference table. A block of keys is compared at once; the two
  comparison masks are lists of lane results and \<open>ctz\<close> is the index of the first set lane.
  The loops read \<open>keys_\<close> through a checked read: \<open>None\<close> is a read past the end of
  the vector, which C++ leaves undefined.
\<close>

datatype simd_isa = Avx2 | Avx512

fun key_lanes :: "simd_isa \<Rightarrow> nat" where
  "key_lanes Avx2 = 4"
| "key_lanes Avx512 = 8"

lemma key_lanes_pos [simp]: "0 < key_lanes isa"
  by (cases isa) simp_all

lemma key_lanes_progress: "s \<le> n \<Longrightarrow> Suc n - (s + key_lanes isa) < Suc n - s"
  by (cases isa) auto

definition cmpeq_keys :: "u64 list \<Rightarrow> u64 \<Rightarrow> bool list" where
  "cmpeq_keys blk target = map (\<lambda>k. k = target) blk"

definition mask_set :: "bool list \<Rightarrow> bool" where
  "mask_set lanes = (True \<in> set lanes)"

definition ctz :: "bool list \<Rightarrow> nat" where
  "ctz lanes = length (takeWhile Not lanes)"

function probe_vec_loop ::
  "simd_isa \<Rightarrow> u64 list \<Rightarrow> nat \<Rightarrow> nat \<Rightarrow> u64 \<Rightarrow> nat \<Rightarrow> nat \<Rightarrow> int option"
where
  "probe_vec_loop isa keys cap msk ref i scanned =
     (if scanned \<le> cap then
        (if i + key_lanes isa \<le> cap then
           (let k = take (key_lanes isa) (drop i keys);
                hit = cmpeq_keys k ref;
                zero_m = cmpeq_keys k 0
            in if mask_set hit then Some (int (i + ctz hit))
               else if mask_set zero_m then Some (-1)
               else probe_vec_loop isa keys cap msk ref (i + key_lanes isa) (scanned + key_lanes isa))
         else if i < length keys then
           (let kk = keys ! i
            in if kk = ref then Some (int i)
               else if kk = 0 then Some (-1)
               else probe_vec_loop isa keys cap msk ref (next_slot msk i) (scanned + 1))
         else None)
      else Some (-1))"
  by pat_completeness auto
termination
  by (relation "measure (\<lambda>(isa, keys, cap, msk, ref, i, scanned). Suc cap - scanned)")
     (auto intro: key_lanes_progress)

declare probe_vec_loop.simps [simp del]

definition probe_vec :: "simd_isa \<Rightarrow> ref_table \<Rightarrow> u64 \<Rightarrow> nat \<Rightarrow> int option" where
  "probe_vec isa t ref start = probe_vec_loop isa (rt_keys t) (rt_cap t) (rt_mask t) ref start 0"

definition find_index_vec :: "simd_isa \<Rightarrow> ref_table \<Rightarrow> u64 \<Rightarrow> int option" where
  "find_index_vec isa t ref =
     (if ref = 0 then Some (-1) else probe_vec isa t ref (home_slot (rt_mask t) ref))"

lemma mask_set_iff:
  "i + w \<le> length keys \<Longrightarrow>
   mask_set (cmpeq_keys (take w (drop i keys)) x) \<longleftrightarrow> (\<exists>l<w. keys ! (i + l) = x)"
  by (auto simp: mask_set_def cmpeq_keys_def in_set_conv_nth)

lemma ctz_lane:
  assumes "i + w \<le> length keys" "mask_set (cmpeq_keys (take w (drop i keys)) x)"
  shows "ctz (cmpeq_keys (take w (drop i keys)) x) < w"
    and "keys ! (i + ctz (cmpeq_keys (take w (drop i keys)) x)) = x"
proof -
  let ?m = "cmpeq_keys (take w (drop i keys)) x"
  have len: "length ?m = w" using assms(1) by (simp add: cmpeq_keys_def)
  have ex: "\<exists>b\<in>set ?m. b" using assms(2) by (auto simp: mask_set_def)
  then have lt': "ctz ?m < length ?m"
    unfolding ctz_def by (auto intro: takeWhile_shorter)
  then show lt: "ctz ?m < w" by (simp only: len)
  have "\<not> Not (?m ! ctz ?m)" using lt' unfolding ctz_def by (rule nth_length_takeWhile)
  then show "keys ! (i + ctz ?m) = x" using lt assms(1) by (simp add: cmpeq_keys_def)
qed

text \<open>The slots scanned so far hold neither the key nor a gap.\<close>

definition scanned_clear :: "ref_table \<Rightarrow> u64 \<Rightarrow> nat \<Rightarrow> bool" where
  "scanned_clear t r s \<longleftrightarrow>
     (\<forall>d < s. \<not> stops_at (rt_keys t) (rt_cap t) r (home_slot (rt_mask t) r) d)"

lemma scanned_clear_add:
  assumes "scanned_clear t r s" and i: "i = (home_slot (rt_mask t) r + s) mod rt_cap t"
    and w: "i + w \<le> rt_cap t"
    and clear: "\<And>l. l < w \<Longrightarrow> rt_keys t ! (i + l) \<noteq> r \<and> rt_keys t ! (i + l) \<noteq> 0"
  shows "scanned_clear t r (s + w)"
  unfolding scanned_clear_def
proof (intro allI impI)
  let ?n = "rt_cap t" let ?h = "home_slot (rt_mask t) r"
  fix d assume d: "d < s + w"
  show "\<not> stops_at (rt_keys t) ?n r ?h d"
  proof (cases "d < s")
    case True
    then show ?thesis using assms(1) by (simp add: scanned_clear_def)
  next
    case False
    then obtain l where l: "d = s + l" "l < w" using d by (metis le_Suc_ex not_less nat_add_left_cancel_less)
    have "(?h + d) mod ?n = (i + l) mod ?n" by (simp add: i l(1) mod_simps add.assoc)
    also have "\<dots> = i + l" using w l(2) by simp
    finally show ?thesis using clear [OF l(2)] by (simp add: stops_at_def)
  qed
qed

lemma scanned_all_absent:
  assumes inv: "table_inv t" and r: "r \<noteq> 0" and clear: "scanned_clear t r s" and s: "rt_cap t \<le> s"
  shows "find_index t r = -1"
proof -
  have "slot_of t r = None"
  proof (cases "slot_of t r")
    case (Some j)
    let ?h = "home_slot (rt_mask t) r"
    have h: "?h < rt_cap t" using inv by (rule table_inv_home)
    have j: "j < rt_cap t" "rt_keys t ! j = r" using Some inv by (auto simp: slot_of_Some_iff)
    have "stops_at (rt_keys t) (rt_cap t) r ?h (cyc_dist (rt_cap t) ?h j)"
      using h j by (simp add: stops_at_def add_cyc_dist)
    moreover have "cyc_dist (rt_cap t) ?h j < s" using cyc_dist_less [OF h j(1)] s by simp
    ultimately show ?thesis using clear by (simp add: scanned_clear_def)
  qed
  then show ?thesis by (simp add: find_index_slot [OF inv])
qed

text \<open>An empty slot at distance \<open>d\<close>, with nothing found before it, ends the search.\<close>

lemma gap_absent:
  assumes inv: "table_inv t" and r: "r \<noteq> 0" and clear: "scanned_clear t r s"
    and gap: "rt_keys t ! ((home_slot (rt_mask t) r + d) mod rt_cap t) = 0"
    and miss: "\<And>e. s \<le> e \<Longrightarrow> e \<le> d \<Longrightarrow> rt_keys t ! ((home_slot (rt_mask t) r + e) mod rt_cap t) \<noteq> r"
  shows "find_index t r = -1"
proof -
  have "slot_of t r = None"
  proof (cases "slot_of t r")
    case (Some j)
    let ?h = "home_slot (rt_mask t) r" let ?D = "cyc_dist (rt_cap t) ?h j"
    have h: "?h < rt_cap t" using inv by (rule table_inv_home)
    have j: "j < rt_cap t" "rt_keys t ! j = r" using Some inv by (auto simp: slot_of_Some_iff)
    have at: "rt_keys t ! ((?h + ?D) mod rt_cap t) = r" by (simp only: add_cyc_dist [OF h j(1)] j(2))
    then have "stops_at (rt_keys t) (rt_cap t) r ?h ?D" by (simp add: stops_at_def)
    then have "s \<le> ?D" using clear by (auto simp: scanned_clear_def not_less [symmetric])
    then have "d < ?D" using miss [of ?D] at by (meson not_less)
    then show ?thesis using chain_slot [OF inv j(1), of ?h d] j(2) r gap by simp
  qed simp
  then show ?thesis by (simp add: find_index_slot [OF inv])
qed

lemma hit_found: "table_inv t \<Longrightarrow> r \<noteq> 0 \<Longrightarrow> j < rt_cap t \<Longrightarrow> rt_keys t ! j = r \<Longrightarrow> find_index t r = int j"
  by (simp add: find_index_slot slot_of_Some_iff [THEN iffD2])

text \<open>Whenever the vector loop stays inside the vector it returns the scalar answer.\<close>

lemma probe_vec_loop_sound:
  assumes inv: "table_inv t" and r: "r \<noteq> 0"
    and "scanned_clear t r s" "i < rt_cap t \<longrightarrow> i = (home_slot (rt_mask t) r + s) mod rt_cap t"
    and "i \<le> rt_cap t"
    and "probe_vec_loop isa (rt_keys t) (rt_cap t) (rt_mask t) r i s = Some x"
  shows "x = find_index t r"
  using assms(3-)
proof (induction "Suc (rt_cap t) - s" arbitrary: s i rule: less_induct)
  case less
  let ?n = "rt_cap t" let ?w = "key_lanes isa" let ?ks = "rt_keys t" let ?h = "home_slot (rt_mask t) r"
  have len: "length ?ks = ?n" using inv by (rule table_invD)
  note loop = probe_vec_loop.simps [of isa ?ks ?n "rt_mask t" r i s]
  consider (stop) "\<not> s \<le> ?n" | (vec) "s \<le> ?n" "i + ?w \<le> ?n" | (tail) "s \<le> ?n" "\<not> i + ?w \<le> ?n" "i < ?n"
    | (oob) "s \<le> ?n" "\<not> i + ?w \<le> ?n" "\<not> i < ?n" by blast
  then show ?case
  proof cases
    case stop
    then have "x = -1" using less.prems(4) loop by simp
    then show ?thesis using scanned_all_absent [OF inv r less.prems(1)] stop by simp
  next
    case vec
    let ?k = "take ?w (drop i ?ks)"
    have bl: "i + ?w \<le> length ?ks" using vec len by simp
    have "i < ?n" using vec(2) key_lanes_pos [of isa] by linarith
    then have i: "i = (?h + s) mod ?n" using less.prems(2) by simp
    show ?thesis
    proof (cases "mask_set (cmpeq_keys ?k r)")
      case True
      note hit = ctz_lane [OF bl True]
      have "x = int (i + ctz (cmpeq_keys ?k r))" using less.prems(4) loop vec True by (simp add: Let_def)
      then show ?thesis using hit_found [OF inv r _ hit(2)] hit(1) vec(2) by simp
    next
      case miss: False
      then have nohit: "?ks ! (i + l) \<noteq> r" if "l < ?w" for l using that bl by (auto simp: mask_set_iff)
      show ?thesis
      proof (cases "mask_set (cmpeq_keys ?k 0)")
        case True
        note zero = ctz_lane [OF bl True]
        let ?l = "ctz (cmpeq_keys ?k 0)"
        have x: "x = -1" using less.prems(4) loop vec miss True by (simp add: Let_def)
        have at: "(?h + (s + l)) mod ?n = i + l" if "l < ?w" for l
        proof -
          have "(?h + (s + l)) mod ?n = (i + l) mod ?n" by (simp add: i mod_simps add.assoc)
          then show ?thesis using that vec(2) by simp
        qed
        have "find_index t r = -1"
        proof (rule gap_absent [OF inv r less.prems(1)])
          show "?ks ! ((?h + (s + ?l)) mod ?n) = 0" using zero by (simp only: at)
          fix e assume "s \<le> e" "e \<le> s + ?l"
          then obtain l where "e = s + l" "l < ?w" using zero(1) by (metis le_Suc_ex le_less_trans nat_add_left_cancel_le)
          then show "?ks ! ((?h + e) mod ?n) \<noteq> r" using nohit by (simp only: at) simp
        qed
        then show ?thesis using x by simp
      next
        case False
        then have nogap: "?ks ! (i + l) \<noteq> 0" if "l < ?w" for l using that bl by (auto simp: mask_set_iff)
        have clear: "scanned_clear t r (s + ?w)"
          by (rule scanned_clear_add [OF less.prems(1) i vec(2)]) (simp add: nohit nogap)
        have rec: "probe_vec_loop isa ?ks ?n (rt_mask t) r (i + ?w) (s + ?w) = Some x"
          using less.prems(4) loop vec miss False by (simp add: Let_def)
        have nxt: "i + ?w < ?n \<longrightarrow> i + ?w = (?h + (s + ?w)) mod ?n"
        proof
          assume "i + ?w < ?n"
          then have "i + ?w = (i + ?w) mod ?n" by simp
          also have "\<dots> = (?h + (s + ?w)) mod ?n" by (simp add: i mod_simps add.assoc)
          finally show "i + ?w = (?h + (s + ?w)) mod ?n" .
        qed
        show ?thesis
          by (rule less.hyps [OF _ clear nxt vec(2) rec]) (rule key_lanes_progress [OF vec(1)])
      qed
    qed
  next
    case tail
    then have i: "i = (?h + s) mod ?n" using less.prems(2) by simp
    show ?thesis
    proof (cases "?ks ! i = r")
      case True
      then show ?thesis using less.prems(4) loop tail len hit_found [OF inv r tail(3)] by simp
    next
      case miss: False
      show ?thesis
      proof (cases "?ks ! i = 0")
        case True
        have "find_index t r = -1"
        proof (rule gap_absent [OF inv r less.prems(1), of s])
          show "?ks ! ((?h + s) mod ?n) = 0" using True i by simp
          show "?ks ! ((?h + e) mod ?n) \<noteq> r" if "s \<le> e" "e \<le> s" for e
            using that miss i by simp
        qed
        then show ?thesis using less.prems(4) loop tail len miss True by simp
      next
        case False
        have clear: "scanned_clear t r (s + 1)"
          by (rule scanned_clear_add [OF less.prems(1) i]) (use tail miss False in auto)
        have rec: "probe_vec_loop isa ?ks ?n (rt_mask t) r (next_slot (rt_mask t) i) (s + 1) = Some x"
          using less.prems(4) loop tail len miss False by simp
        have nxt: "next_slot (rt_mask t) i = (?h + (s + 1)) mod ?n"
          by (simp add: table_inv_next [OF inv] i mod_simps)
        have "next_slot (rt_mask t) i < ?n" using tail(3) by (simp add: nxt)
        then show ?thesis
          using less.hyps [OF _ clear _ _ rec] nxt tail(1) by simp
      qed
    qed
  next
    case oob
    then show ?thesis using less.prems(4) loop len by simp
  qed
qed

subsection \<open>When the loop stays inside the vector\<close>

text \<open>A slot that stops the probe: the key or an empty slot.\<close>

definition stop_slot :: "ref_table \<Rightarrow> u64 \<Rightarrow> nat \<Rightarrow> bool" where
  "stop_slot t r q \<longleftrightarrow> rt_keys t ! q = r \<or> rt_keys t ! q = 0"

text \<open>
  The probe overruns when its home slot is the start of an aligned block and no slot from there
  to the end of the vector stops it: the last block ends exactly at \<open>cap_\<close> and the index
  is not masked.
\<close>

definition overruns :: "simd_isa \<Rightarrow> ref_table \<Rightarrow> u64 \<Rightarrow> bool" where
  "overruns isa t r \<longleftrightarrow>
     key_lanes isa \<le> rt_cap t \<and> home_slot (rt_mask t) r mod key_lanes isa = 0 \<and>
     (\<forall>q<rt_cap t. home_slot (rt_mask t) r \<le> q \<longrightarrow> \<not> stop_slot t r q)"

lemma key_lanes_dvd:
  assumes "n = 2 ^ k" "key_lanes isa \<le> n"
  shows "key_lanes isa dvd n"
proof -
  obtain j where j: "key_lanes isa = 2 ^ j" by (cases isa) (auto intro: that [of 2] that [of 3])
  then have "j \<le> k" using assms by (metis power_increasing_iff one_less_numeral_iff semiring_norm(76))
  then show ?thesis using assms(1) j by (simp add: le_imp_power_dvd)
qed

lemma probe_vec_block:
  assumes "length keys = cap" "s \<le> cap" "i + key_lanes isa \<le> cap"
  shows "probe_vec_loop isa keys cap msk r i s = None \<longleftrightarrow>
    (\<forall>l<key_lanes isa. keys ! (i + l) \<noteq> r \<and> keys ! (i + l) \<noteq> 0) \<and>
    probe_vec_loop isa keys cap msk r (i + key_lanes isa) (s + key_lanes isa) = None"
  using assms mask_set_iff [of i "key_lanes isa" keys r] mask_set_iff [of i "key_lanes isa" keys 0]
  by (subst probe_vec_loop.simps) (auto simp: Let_def)

lemma probe_vec_tail:
  assumes "length keys = cap" "s \<le> cap" "\<not> i + key_lanes isa \<le> cap" "i < cap"
  shows "probe_vec_loop isa keys cap msk r i s = None \<longleftrightarrow>
    keys ! i \<noteq> r \<and> keys ! i \<noteq> 0 \<and> probe_vec_loop isa keys cap msk r (next_slot msk i) (s + 1) = None"
  using assms by (subst probe_vec_loop.simps) (auto simp: Let_def)

lemma probe_vec_stop: "\<not> s \<le> cap \<Longrightarrow> probe_vec_loop isa keys cap msk r i s = Some (-1)"
  by (simp add: probe_vec_loop.simps)

text \<open>Once the walk has wrapped to slot 0 it stays aligned and stops by its count.\<close>

lemma probe_wrapped:
  assumes n: "n = 2 ^ k" "msk = n - 1" and len: "length keys = n" and w: "key_lanes isa \<le> n"
  shows "h < n \<Longrightarrow> s = i + (n - h) \<Longrightarrow> i \<le> n \<Longrightarrow> key_lanes isa dvd i \<Longrightarrow>
    probe_vec_loop isa keys n msk r i s \<noteq> None"
proof (induction "Suc n - s" arbitrary: s i rule: less_induct)
  case less
  show ?case
  proof (cases "s \<le> n")
    case True
    then have i: "i < n" using less.prems by linarith
    have dv: "key_lanes isa dvd n" using n(1) w by (rule key_lanes_dvd)
    then have iw: "i + key_lanes isa \<le> n"
      using less.prems(4) i by (rule dvd_next_le)
    have "probe_vec_loop isa keys n msk r (i + key_lanes isa) (s + key_lanes isa) \<noteq> None"
      by (rule less.hyps) (use less.prems True iw in \<open>auto intro: key_lanes_progress\<close>)
    then show ?thesis using probe_vec_block [OF len True iw] by simp
  qed (simp add: probe_vec_stop)
qed

lemma probe_tail_ends:
  assumes n: "n = 2 ^ k" "msk = n - 1" and len: "length keys = n" and w: "key_lanes isa \<le> n"
  shows "h < n \<Longrightarrow> i = h + s \<Longrightarrow> i < n \<Longrightarrow> n < i + key_lanes isa \<Longrightarrow>
    probe_vec_loop isa keys n msk r i s \<noteq> None"
proof (induction "n - i" arbitrary: s i rule: less_induct)
  case less
  have s: "s \<le> n" using less.prems by simp
  have nxt: "next_slot msk i = Suc i mod n" using n by (simp add: next_slot_mod)
  have "probe_vec_loop isa keys n msk r (next_slot msk i) (s + 1) \<noteq> None"
  proof (cases "Suc i < n")
    case True
    then have "next_slot msk i = Suc i" using nxt by simp
    moreover have "probe_vec_loop isa keys n msk r (Suc i) (s + 1) \<noteq> None"
      by (rule less.hyps) (use less.prems True in simp_all)
    ultimately show ?thesis by metis
  next
    case False
    then have last: "Suc i = n" using less.prems(3) by simp
    then have "Suc i mod n = 0" "s + 1 = 0 + (n - h)" using less.prems(2) by simp_all
    then show ?thesis
      using probe_wrapped [OF n len w less.prems(1), of "s + 1" 0] by (simp add: nxt)
  qed
  then show ?case using probe_vec_tail [OF len s _ less.prems(3)] less.prems(4) by simp
qed

text \<open>From a home slot inside the vector the loop overruns in exactly one situation.\<close>

lemma probe_vec_first_pass:
  assumes n: "n = 2 ^ k" "msk = n - 1" and len: "length keys = n" and w: "key_lanes isa \<le> n"
    and h: "h < n"
  shows "i = h + s \<Longrightarrow> i \<le> n \<Longrightarrow> i mod key_lanes isa = h mod key_lanes isa \<Longrightarrow>
    probe_vec_loop isa keys n msk r i s = None \<longleftrightarrow>
    h mod key_lanes isa = 0 \<and> (\<forall>q<n. i \<le> q \<longrightarrow> keys ! q \<noteq> r \<and> keys ! q \<noteq> 0)"
proof (induction "n - i" arbitrary: s i rule: less_induct)
  case less
  let ?w = "key_lanes isa"
  have dv: "?w dvd n" using n(1) w by (rule key_lanes_dvd)
  have s: "s \<le> n" using less.prems by simp
  consider (vec) "i + ?w \<le> n" | (tail) "\<not> i + ?w \<le> n" "i < n" | (full) "i = n" using less.prems(2) by linarith
  then show ?case
  proof cases
    case vec
    have rec: "probe_vec_loop isa keys n msk r (i + ?w) (s + ?w) = None \<longleftrightarrow>
      h mod ?w = 0 \<and> (\<forall>q<n. i + ?w \<le> q \<longrightarrow> keys ! q \<noteq> r \<and> keys ! q \<noteq> 0)"
    proof (rule less.hyps)
      show "n - (i + ?w) < n - i" using vec key_lanes_pos [of isa] by linarith
    qed (use less.prems vec in simp_all)
    have split: "(\<forall>q<n. i \<le> q \<longrightarrow> P q) \<longleftrightarrow> (\<forall>l<?w. P (i + l)) \<and> (\<forall>q<n. i + ?w \<le> q \<longrightarrow> P q)" for P
    proof (intro iffI conjI allI impI)
      fix q assume a: "(\<forall>l<?w. P (i + l)) \<and> (\<forall>q<n. i + ?w \<le> q \<longrightarrow> P q)" and q: "q < n" "i \<le> q"
      show "P q"
      proof (cases "i + ?w \<le> q")
        case False
        then have "q - i < ?w" "i + (q - i) = q" using q by simp_all
        then show ?thesis using a by metis
      qed (use a q in blast)
    qed (use vec in auto)
    show ?thesis
      unfolding probe_vec_block [OF len s vec] rec split [of "\<lambda>q. keys ! q \<noteq> r \<and> keys ! q \<noteq> 0"]
      by (rule conj_left_commute)
  next
    case tail
    have "h mod ?w \<noteq> 0"
    proof
      assume "h mod ?w = 0"
      then have "?w dvd i" using less.prems(3) by (simp add: dvd_eq_mod_eq_0)
      from dvd_next_le [OF dv this tail(2)] tail(1) show False by simp
    qed
    moreover have "probe_vec_loop isa keys n msk r i s \<noteq> None"
      by (rule probe_tail_ends [OF n len w h less.prems(1) tail(2)]) (use tail in simp)
    ultimately show ?thesis by blast
  next
    case full
    have "probe_vec_loop isa keys n msk r i s = None"
      using len s full key_lanes_pos [of isa]
      by (subst probe_vec_loop.simps) (simp del: key_lanes_pos)
    moreover have "h mod ?w = 0" using less.prems(3) full dv by (simp add: dvd_eq_mod_eq_0)
    ultimately show ?thesis using full by simp
  qed
qed

text \<open>A table smaller than one block is probed slot by slot.\<close>

lemma probe_vec_small:
  assumes n: "n = 2 ^ k" "msk = n - 1" and len: "length keys = n" and w: "n < key_lanes isa"
  shows "i < n \<Longrightarrow> probe_vec_loop isa keys n msk r i s \<noteq> None"
proof (induction "Suc n - s" arbitrary: s i rule: less_induct)
  case less
  show ?case
  proof (cases "s \<le> n")
    case True
    have "probe_vec_loop isa keys n msk r (next_slot msk i) (s + 1) \<noteq> None"
      by (rule less.hyps) (use True less.prems n in \<open>simp_all add: next_slot_mod\<close>)
    then show ?thesis using probe_vec_tail [OF len True _ less.prems] w by simp
  qed (simp add: probe_vec_stop)
qed

lemma probe_vec_None_iff:
  assumes inv: "table_inv t"
  shows "probe_vec isa t r (home_slot (rt_mask t) r) = None \<longleftrightarrow> overruns isa t r"
proof -
  obtain k where k: "rt_cap t = 2 ^ k" "rt_mask t = rt_cap t - 1" "length (rt_keys t) = rt_cap t"
    using inv by (rule table_invD)
  have h: "home_slot (rt_mask t) r < rt_cap t" using inv by (rule table_inv_home)
  show ?thesis
  proof (cases "key_lanes isa \<le> rt_cap t")
    case True
    show ?thesis
      using probe_vec_first_pass [OF k True h, of _ 0 r] True h
      by (simp add: probe_vec_def overruns_def stop_slot_def)
  next
    case False
    then show ?thesis
      using probe_vec_small [OF k, of isa _ r 0] h by (simp add: probe_vec_def overruns_def)
  qed
qed

text \<open>
  Property C7: the vector probes agree with the scalar probe, except in one situation. For
  every key of a well-formed table, the AVX2 and the AVX-512 probe return the index the scalar
  probe returns, unless the key's home slot starts an aligned block and every slot from there
  to the end of the vector is taken by other keys; in exactly that situation the loop reads
  \<open>keys_[cap_]\<close>, past the end.
\<close>

theorem vector_probe_scalar:
  assumes "table_inv t" "r \<noteq> 0"
  shows "find_index_vec isa t r = (if overruns isa t r then None else Some (find_index t r))"
proof (cases "find_index_vec isa t r")
  case None
  then show ?thesis using probe_vec_None_iff [OF assms(1)] assms(2) by (simp add: find_index_vec_def)
next
  case (Some x)
  then have "\<not> overruns isa t r"
    using probe_vec_None_iff [OF assms(1), of isa r] assms(2) by (simp add: find_index_vec_def)
  moreover have "x = find_index t r"
    using Some assms probe_vec_loop_sound [OF assms, of 0 "home_slot (rt_mask t) r" isa x]
      table_inv_home [OF assms(1), of r]
    by (simp add: find_index_vec_def probe_vec_def scanned_clear_def)
  ultimately show ?thesis using Some by simp
qed

end
