(* ===== verification/OrderStore.thy ===== *)
theory OrderStore
  imports RefTableErase RefTableSimd
begin

text \<open>
  What the book engine relies on when it stores orders: a contract for a bounded finite map
  from order references to order values, as a locale, with the sequences of operations the
  engine runs (look up, insert, delete, delete-then-insert, rollback) proved once from the
  contract. The order-reference table is shown to meet it.
\<close>

locale order_store =
  fixes good :: "'s \<Rightarrow> bool"
    and look :: "'s \<Rightarrow> u64 \<Rightarrow> order_value option"
    and used :: "'s \<Rightarrow> nat"
    and room :: "'s \<Rightarrow> nat"
    and ins :: "u64 \<Rightarrow> order_value \<Rightarrow> 's \<Rightarrow> 's \<times> bool"
    and del :: "u64 \<Rightarrow> 's \<Rightarrow> ('s \<times> bool) option"
    and modify :: "u64 \<Rightarrow> (order_value \<Rightarrow> order_value) \<Rightarrow> 's \<Rightarrow> 's"
  assumes used_card: "good s \<Longrightarrow> finite (dom (look s)) \<and> card (dom (look s)) = used s"
    and no_zero: "good s \<Longrightarrow> look s 0 = None"
    and ins_ok: "good s \<Longrightarrow> r \<noteq> 0 \<Longrightarrow> look s r \<noteq> None \<or> used s < room s \<Longrightarrow>
      \<exists>s'. ins r v s = (s', True) \<and> good s' \<and> look s' = (look s)(r \<mapsto> v) \<and> room s' = room s"
    and ins_refused: "good s \<Longrightarrow> r = 0 \<or> look s r = None \<and> used s = room s \<Longrightarrow> ins r v s = (s, False)"
    and del_ok: "good s \<Longrightarrow> look s r \<noteq> None \<Longrightarrow> used s < room s \<Longrightarrow>
      \<exists>s'. del r s = Some (s', True) \<and> good s' \<and> look s' = (look s)(r := None) \<and> room s' = room s"
    and del_absent: "good s \<Longrightarrow> look s r = None \<Longrightarrow> del r s = Some (s, False)"
    and modify_ok: "good s \<Longrightarrow>
      good (modify r f s) \<and> look (modify r f s) = (look s)(r := map_option f (look s r)) \<and>
      room (modify r f s) = room s"
begin

lemma used_ins:
  assumes "good s" "good s'" "look s' = (look s)(r \<mapsto> v)"
  shows "used s' = (if look s r = None then Suc (used s) else used s)"
proof -
  have f: "finite (dom (look s))" "card (dom (look s)) = used s" "card (dom (look s')) = used s'"
    using used_card assms(1,2) by simp_all
  have "dom (look s') = insert r (dom (look s))" using assms(3) by simp
  then show ?thesis using f by (auto simp: card_insert_if domIff)
qed

lemma used_del:
  assumes "good s" "good s'" "look s' = (look s)(r := None)" "look s r \<noteq> None"
  shows "Suc (used s') = used s"
proof -
  have f: "finite (dom (look s))" "card (dom (look s)) = used s" "card (dom (look s')) = used s'"
    using used_card assms(1,2) by simp_all
  have "dom (look s') = dom (look s) - {r}" using assms(3) by (simp add: dom_fun_upd)
  moreover have "r \<in> dom (look s)" using assms(4) by (simp add: domIff)
  ultimately show ?thesis using f card_Suc_Diff1 by metis
qed

lemma used_modify:
  assumes "good s"
  shows "used (modify r f s) = used s"
proof -
  have m: "good (modify r f s)" "look (modify r f s) = (look s)(r := map_option f (look s r))"
    using modify_ok [OF assms] by simp_all
  have "dom (look (modify r f s)) = dom (look s)"
    using m(2) by (cases "look s r") (auto simp: domIff split: if_splits)
  then show ?thesis using used_card [OF assms] used_card [OF m(1)] by simp
qed

text \<open>Deleting one order makes room for its replacement, whatever the occupancy.\<close>

lemma swap_ok:
  assumes s: "good s" and r: "look s r \<noteq> None" and room: "used s < room s" and r': "r' \<noteq> 0"
  shows "\<exists>s1 s2. del r s = Some (s1, True) \<and> ins r' v s1 = (s2, True) \<and> good s2 \<and>
    look s2 = (look s)(r := None, r' \<mapsto> v) \<and> room s2 = room s"
proof -
  obtain s1 where s1: "del r s = Some (s1, True)" "good s1" "look s1 = (look s)(r := None)"
    "room s1 = room s" using del_ok [OF s r room] by blast
  have "used s1 < room s1" using used_del [OF s s1(2,3) r] room s1(4) by simp
  then obtain s2 where "ins r' v s1 = (s2, True)" "good s2" "look s2 = (look s1)(r' \<mapsto> v)" "room s2 = room s1"
    using ins_ok [OF s1(2) r'] by blast
  then show ?thesis using s1 by auto
qed

text \<open>An insertion of a new order is undone by deleting it, when the store is not full after it.\<close>

lemma rollback_ok:
  assumes s: "good s" and r: "r \<noteq> 0" "look s r = None" and room: "Suc (used s) < room s"
  shows "\<exists>s1 s2. ins r v s = (s1, True) \<and> del r s1 = Some (s2, True) \<and> good s2 \<and>
    look s2 = look s \<and> room s2 = room s"
proof -
  obtain s1 where s1: "ins r v s = (s1, True)" "good s1" "look s1 = (look s)(r \<mapsto> v)" "room s1 = room s"
    using ins_ok [OF s r(1)] room by (metis Suc_lessD)
  have "used s1 < room s1" using used_ins [OF s s1(2,3)] r(2) room s1(4) by simp
  then obtain s2 where s2: "del r s1 = Some (s2, True)" "good s2" "look s2 = (look s1)(r := None)"
    "room s2 = room s1" using del_ok [OF s1(2), of r] s1(3) by auto
  have "look s2 = look s" using s2(3) s1(3) r(2) by (auto simp: fun_eq_iff)
  then show ?thesis using s1 s2 by auto
qed

end

text \<open>Each live key occupies exactly one slot.\<close>

lemma table_dom_card:
  assumes inv: "table_inv t"
  shows "finite (dom (table_map t)) \<and> card (dom (table_map t)) = rt_size t"
proof -
  let ?n = "rt_cap t" let ?ks = "rt_keys t"
  let ?S = "{i. i < ?n \<and> ?ks ! i \<noteq> 0}"
  have k: "length ?ks = ?n" "keys_unique ?n ?ks" "rt_size t = length (filter (\<lambda>k. k \<noteq> 0) ?ks)"
    using inv by (auto elim: table_invD)
  have "dom (table_map t) = (\<lambda>i. ?ks ! i) ` ?S"
    using table_map_Some_iff [OF inv] by (auto simp: dom_def image_iff)
  moreover have "inj_on (\<lambda>i. ?ks ! i) ?S"
    using k(2) by (auto simp: inj_on_def intro: keys_uniqueD)
  moreover have "card ?S = rt_size t"
    using k by (simp add: length_filter_conv_card)
  ultimately show ?thesis by (auto simp: card_image)
qed

lemma table_modify_ok:
  assumes "table_inv t"
  shows "table_inv (table_modify r f t) \<and>
    table_map (table_modify r f t) = (table_map t)(r := map_option f (table_map t r)) \<and>
    rt_cap (table_modify r f t) = rt_cap t"
proof (cases "table_map t r")
  case None
  then have "table_modify r f t = t" "(table_map t)(r := None) = table_map t"
    using table_modify_map [OF assms] by (simp_all add: table_map_None_iff fun_upd_idem)
  then show ?thesis using assms None by simp
next
  case (Some v)
  then obtain j where j: "slot_of t r = Some j" "rt_vals t ! j = v" by (auto simp: table_map_def)
  have "length (rt_vals t) = rt_cap t" using assms by (rule table_invD)
  then show ?thesis
    using assms find_index_slot [OF assms, of r] j Some table_inv_vals [OF assms]
    by (simp add: table_modify_def table_map_update_val Let_def)
qed

interpretation refs: order_store table_inv table_map rt_size rt_cap table_insert table_erase table_modify
proof (unfold_locales, goal_cases)
  case (1 s)
  then show ?case by (rule table_dom_card)
next
  case (3 s r v)
  then show ?case using table_insert_cases [OF 3(1), of r v] by (auto split: if_splits)
next
  case (4 s r v)
  then show ?case using table_insert_cases [OF 4(1), of r v] by (auto split: if_splits)
next
  case (5 s r)
  then show ?case using table_erase_cases [OF 5(1), of r] by (auto split: if_splits)
next
  case (6 s r)
  then show ?case using table_erase_cases [OF 6(1), of r] by simp
next
  case (7 s r f)
  then show ?case by (rule table_modify_ok)
qed simp

subsection \<open>Sample tables\<close>

text \<open>A two-slot table with one order, for evaluating the properties at a concrete state.\<close>

definition sample_order :: order_value where
  "sample_order = \<lparr>ov_price = 10000, ov_shares = 100, ov_locate = 1, ov_side = 0x42, ov_pad = 0\<rparr>"

definition sample_table :: "ref_table" where
  "sample_table = \<lparr>rt_keys = [0, 0], rt_vals = [no_value, no_value], rt_cap = 2, rt_mask = 1,
     rt_size = 0, rt_stats = no_table_stats\<rparr>"

lemma sample_table_inv: "table_inv sample_table"
  unfolding table_inv_def sample_table_def
  by (auto simp: keys_unique_def chains_ok_def less_Suc_eq numeral_2_eq_2 intro: bexI [of _ 1])

lemma sample_table_map: "table_map sample_table = Map.empty"
  by (rule ext) (auto simp: table_map_None_iff slot_of_None_iff sample_table_def less_Suc_eq numeral_2_eq_2)

subsection \<open>Properties of the order-reference table\<close>

text \<open>
  Construction. For every requested capacity up to \<open>2 ^ 31\<close> the table is built
  empty, with a power-of-two capacity that covers the request and is the smallest such power;
  above \<open>2 ^ 31\<close> the rounding loop does not end.
\<close>

theorem table_init_correct:
  "if unat capacity \<le> 2 ^ 31
   then \<exists>t. table_init capacity = Some t \<and> table_inv t \<and> (\<forall>r. table_find t r = None) \<and> rt_size t = 0 \<and>
     unat capacity \<le> rt_cap t \<and> rt_cap t \<le> max 1 (2 * (unat capacity - 1))
   else table_init capacity = None"
proof (cases "unat capacity \<le> 2 ^ 31")
  case True
  obtain t where t: "table_init capacity = Some t" "table_inv t" "table_map t = Map.empty"
    "rt_size t = 0" "unat capacity \<le> rt_cap t" "\<forall>m. 2 ^ m < rt_cap t \<longrightarrow> 2 ^ m < unat capacity"
    using True by (rule table_init_spec)
  obtain k where k: "rt_cap t = 2 ^ k" using t(2) by (rule table_invD)
  have "rt_cap t \<le> max 1 (2 * (unat capacity - 1))"
  proof (cases k)
    case (Suc j)
    then have "2 ^ j < unat capacity" using t(6) k by simp
    then show ?thesis using k Suc by simp
  qed (simp add: k)
  then show ?thesis using t True by (auto simp: table_find_map)
next
  case False
  then show ?thesis by (simp add: table_init_def round_up_diverges)
qed

text \<open>
  Property C6: insertion. It succeeds exactly when the key is not the reserved 0 and is either
  present already or there is a free slot; a successful insertion makes the key map to the new
  value and leaves every other key alone, a refused one changes nothing, and the probe-chain
  invariant is kept.
\<close>

theorem table_insert_find:
  assumes "table_inv t"
  shows "case table_insert r v t of (t', ok) \<Rightarrow>
    table_inv t' \<and> (ok \<longleftrightarrow> r \<noteq> 0 \<and> (table_find t r \<noteq> None \<or> rt_size t < rt_cap t)) \<and>
    (ok \<or> t' = t) \<and> (\<forall>q. table_find t' q = (if ok \<and> q = r then Some v else table_find t q))"
proof (cases "r \<noteq> 0 \<and> (table_map t r \<noteq> None \<or> rt_size t < rt_cap t)")
  case True
  then obtain t' where "table_insert r v t = (t', True)" "table_inv t'" "table_map t' = (table_map t)(r \<mapsto> v)"
    using refs.ins_ok [OF assms] by blast
  then show ?thesis using True assms by (simp add: table_find_map)
next
  case False
  then show ?thesis using table_insert_cases [OF assms, of r v] assms by (simp add: table_find_map)
qed

theorem table_insert_find_witness:
  "case table_insert 7 sample_order sample_table of (t', ok) \<Rightarrow>
    table_inv t' \<and> ok \<and> table_find t' 7 = Some sample_order \<and> table_find t' 8 = None"
  using table_insert_find [OF sample_table_inv, of 7 sample_order]
    table_find_map [OF sample_table_inv]
  by (simp add: sample_table_map split: prod.splits) (simp add: sample_table_def)

text \<open>
  Property C5: deletion by backward shift. It returns exactly when the key is absent or the
  table has a free slot; on a full table the loop that looks for the next empty slot never
  ends. When it returns, the key is gone, every other key is still found with its value, and
  the probe-chain invariant is kept.
\<close>

theorem table_erase_find:
  assumes "table_inv t"
  shows "case table_erase r t of
      None \<Rightarrow> table_find t r \<noteq> None \<and> rt_size t = rt_cap t
    | Some (t', found) \<Rightarrow>
        table_inv t' \<and> (found \<longleftrightarrow> table_find t r \<noteq> None) \<and> (found \<longrightarrow> rt_size t < rt_cap t) \<and>
        rt_size t' = (if found then rt_size t - 1 else rt_size t) \<and>
        (\<forall>q. table_find t' q = (if q = r then None else table_find t q))"
proof -
  note cases = table_erase_cases [OF assms, of r]
  consider "table_map t r = None" | "table_map t r \<noteq> None" "rt_size t < rt_cap t"
    | "table_map t r \<noteq> None" "\<not> rt_size t < rt_cap t" by blast
  then show ?thesis
  proof cases
    case 1
    then show ?thesis using cases assms by (auto simp: table_find_map)
  next
    case 2
    then obtain t' where "table_erase r t = Some (t', True)" "table_inv t'"
      "table_map t' = (table_map t)(r := None)"
      using refs.del_ok [OF assms] by blast
    then show ?thesis using 2 assms refs.used_del [OF assms, of t' r] by (simp add: table_find_map)
  next
    case 3
    then show ?thesis using cases assms table_size_le [OF assms] by (simp add: table_find_map)
  qed
qed

text \<open>
  Five orders that fill slots 4 to 7 of an eight-slot table, the last of them wrapping to slot
  0: the vector probe that looks for it starts an aligned block at slot 4.
\<close>

definition wrapped_table :: "ref_table" where
  "wrapped_table = \<lparr>rt_keys = [11, 0, 0, 0, 2, 3, 1, 9], rt_vals = replicate 8 sample_order,
     rt_cap = 8, rt_mask = 7, rt_size = 5, rt_stats = no_table_stats\<rparr>"

lemma wrapped_homes:
  "home_slot 7 11 = 4" "home_slot 7 2 = 4" "home_slot 7 3 = 5" "home_slot 7 1 = 6" "home_slot 7 9 = 7"
  by (simp_all add: home_slot_def hash_order_ref_def Let_def)

lemma less_8_iff: "i < (8::nat) \<longleftrightarrow> i = 0 \<or> i = 1 \<or> i = 2 \<or> i = 3 \<or> i = 4 \<or> i = 5 \<or> i = 6 \<or> i = 7"
  by auto

lemma less_4_iff: "i < (4::nat) \<longleftrightarrow> i = 0 \<or> i = 1 \<or> i = 2 \<or> i = 3"
  by auto

lemma wrapped_table_inv: "table_inv wrapped_table"
proof -
  have "keys_unique 8 [11, 0, 0, 0, 2, 3, 1, 9]"
    unfolding keys_unique_def less_8_iff by (intro allI impI) (elim disjE; simp)
  moreover have "chains_ok 8 [11, 0, 0, 0, 2, 3, 1, 9]"
    unfolding chains_ok_def
  proof (intro allI impI)
    fix j :: nat assume j: "j < 8" "[11, 0, 0, 0, 2, 3, 1, 9 :: u64] ! j \<noteq> 0"
    then consider "j = 0" | "j = 4" | "j = 5" | "j = 6" | "j = 7" unfolding less_8_iff by auto
    then show "let h = home_slot (8 - 1) ([11, 0, 0, 0, 2, 3, 1, 9] ! j)
      in \<forall>d<cyc_dist 8 h j. [11, 0, 0, 0, 2, 3, 1, 9 :: u64] ! ((h + d) mod 8) \<noteq> 0"
      by cases (simp_all add: wrapped_homes cyc_dist_def less_4_iff)
  qed
  ultimately show ?thesis
    unfolding table_inv_def wrapped_table_def by (auto intro!: bexI [of _ 3])
qed

lemma wrapped_find:
  "find_index wrapped_table 11 = 0" "find_index wrapped_table 3 = 5" "find_index wrapped_table 9 = 7"
  using hit_found [OF wrapped_table_inv, of 11 0] hit_found [OF wrapped_table_inv, of 3 5]
    hit_found [OF wrapped_table_inv, of 9 7]
  by (simp_all add: wrapped_table_def)

theorem vector_probe_scalar_witness:
  "table_find wrapped_table 11 = Some sample_order \<and> find_index wrapped_table 11 = 0 \<and>
   find_index_vec Avx2 wrapped_table 11 = None \<and> find_index_vec Avx512 wrapped_table 11 = Some 0 \<and>
   find_index_vec Avx2 wrapped_table 3 = Some 5"
proof -
  have "overruns Avx2 wrapped_table 11"
    by (simp add: overruns_def wrapped_table_def wrapped_homes stop_slot_def less_8_iff)
  moreover have "\<not> overruns Avx512 wrapped_table 11" "\<not> overruns Avx2 wrapped_table 3"
    by (simp_all add: overruns_def wrapped_table_def wrapped_homes)
  moreover have "find_index wrapped_table 11 = 0" "find_index wrapped_table 3 = 5"
    using wrapped_find by simp_all
  ultimately show ?thesis
    using vector_probe_scalar [OF wrapped_table_inv, of 11 Avx2]
      vector_probe_scalar [OF wrapped_table_inv, of 11 Avx512]
      vector_probe_scalar [OF wrapped_table_inv, of 3 Avx2]
    by (simp add: table_find_def wrapped_table_def)
qed

text \<open>A full one-slot table: deleting its only order does not return.\<close>

definition full_table :: "ref_table" where
  "full_table = \<lparr>rt_keys = [7], rt_vals = [sample_order], rt_cap = 1, rt_mask = 0,
     rt_size = 1, rt_stats = no_table_stats\<rparr>"

lemma full_table_inv: "table_inv full_table"
  unfolding table_inv_def full_table_def
  by (auto simp: keys_unique_def chains_ok_def home_slot_def intro: bexI [of _ 0])

theorem table_erase_find_witness:
  "table_erase 7 full_table = None \<and>
   (\<exists>t. table_erase 11 wrapped_table = Some (t, True) \<and> table_find t 11 = None \<and>
     table_find t 9 = Some sample_order)"
proof
  show "table_erase 7 full_table = None"
  proof (cases "table_erase 7 full_table")
    case (Some p)
    have "table_find full_table 7 = Some sample_order"
      using hit_found [OF full_table_inv, of 7 0] by (simp add: table_find_def full_table_def)
    then show ?thesis
      using table_erase_find [OF full_table_inv, of 7] Some
      by (cases p) (simp add: full_table_def split: if_splits)
  qed simp
  have "table_find wrapped_table 11 = Some sample_order" "table_find wrapped_table 9 = Some sample_order"
    by (simp_all add: table_find_def wrapped_find) (simp_all add: wrapped_table_def)
  then show "\<exists>t. table_erase 11 wrapped_table = Some (t, True) \<and> table_find t 11 = None \<and>
      table_find t 9 = Some sample_order"
    using table_erase_find [OF wrapped_table_inv, of 11]
    by (auto simp: wrapped_table_def split: option.splits)
qed

end
