(* ===== verification/OrderBook.thy ===== *)
theory OrderBook
  imports Messages RefTableSimd
begin

text \<open>
  The per-symbol book of \<^verbatim>\<open>sw/book/order_book.hpp\<close> (class \<open>OrderBook\<close>): one array of
  price levels per side, indexed by price, with the best prices kept incrementally and found
  again by a scan when the best level is emptied. Share and order counts, prices and the scan
  counters are machine words; an array index is the \<open>unat\<close> of a price. The operations here
  use the scalar scans; \<open>scan_down_vec\<close> and \<open>scan_up_vec\<close> are the AVX loops, compared
  with the scalar ones below.
\<close>

record price_level =
  pl_shares :: u32
  pl_orders :: u32

definition no_level :: price_level where
  "no_level = \<lparr>pl_shares = 0, pl_orders = 0\<rparr>"

record order_book =
  ob_max_price :: u32
  ob_bid :: "price_level list"
  ob_ask :: "price_level list"
  ob_best_bid :: u32
  ob_best_ask :: u32
  ob_scan_count :: u64
  ob_scan_steps :: u64

definition new_book :: "u32 \<Rightarrow> order_book" where
  "new_book price_levels =
     \<lparr>ob_max_price = (if price_levels > 0 then price_levels - 1 else 0),
      ob_bid = replicate (if price_levels > 0 then unat price_levels else 1) no_level,
      ob_ask = replicate (if price_levels > 0 then unat price_levels else 1) no_level,
      ob_best_bid = 0, ob_best_ask = 0, ob_scan_count = 0, ob_scan_steps = 0\<rparr>"

subsection \<open>Queries\<close>

definition best_bid_depth :: "order_book \<Rightarrow> u32" where
  "best_bid_depth b = (if ob_best_bid b \<noteq> 0 then pl_shares (ob_bid b ! unat (ob_best_bid b)) else 0)"

definition best_ask_depth :: "order_book \<Rightarrow> u32" where
  "best_ask_depth b = (if ob_best_ask b \<noteq> 0 then pl_shares (ob_ask b ! unat (ob_best_ask b)) else 0)"

definition bid_shares_at :: "order_book \<Rightarrow> u32 \<Rightarrow> u32" where
  "bid_shares_at b p = (if p \<le> ob_max_price b then pl_shares (ob_bid b ! unat p) else 0)"

definition ask_shares_at :: "order_book \<Rightarrow> u32 \<Rightarrow> u32" where
  "ask_shares_at b p = (if p \<le> ob_max_price b then pl_shares (ob_ask b ! unat p) else 0)"

definition spread :: "order_book \<Rightarrow> u32" where
  "spread b =
     (if ob_best_bid b \<noteq> 0 \<and> ob_best_ask b \<noteq> 0 \<and> ob_best_ask b > ob_best_bid b
      then ob_best_ask b - ob_best_bid b else 0)"

text \<open>The loops of \<open>vol_top\<close>; \<open>p\<close> is the price examined next.\<close>

fun vol_top_down :: "price_level list \<Rightarrow> nat \<Rightarrow> u32 \<Rightarrow> u64 \<Rightarrow> u32 \<Rightarrow> u64" where
  "vol_top_down side 0 n acc seen = acc"
| "vol_top_down side (Suc p) n acc seen =
     (if seen < n
      then if pl_shares (side ! Suc p) \<noteq> 0
           then vol_top_down side p n (acc + ucast (pl_shares (side ! Suc p))) (seen + 1)
           else vol_top_down side p n acc seen
      else acc)"

function vol_top_up :: "price_level list \<Rightarrow> nat \<Rightarrow> u32 \<Rightarrow> u64 \<Rightarrow> u32 \<Rightarrow> u64" where
  "vol_top_up side p n acc seen =
     (if p < length side \<and> seen < n
      then if pl_shares (side ! p) \<noteq> 0
           then vol_top_up side (p + 1) n (acc + ucast (pl_shares (side ! p))) (seen + 1)
           else vol_top_up side (p + 1) n acc seen
      else acc)"
  by pat_completeness auto
termination
  by (relation "measure (\<lambda>(side, p, n, acc, seen). length side - p)") auto

declare vol_top_up.simps [simp del]

definition vol_top :: "price_level list \<Rightarrow> u32 \<Rightarrow> u32 \<Rightarrow> bool \<Rightarrow> u64" where
  "vol_top side best n descending =
     (if best = 0 \<or> n = 0 then 0
      else if descending then vol_top_down side (unat best) n 0 0
      else vol_top_up side (unat best) n 0 0)"

definition bid_volume_top :: "order_book \<Rightarrow> u32 \<Rightarrow> u64" where
  "bid_volume_top b n = vol_top (ob_bid b) (ob_best_bid b) n True"

definition ask_volume_top :: "order_book \<Rightarrow> u32 \<Rightarrow> u64" where
  "ask_volume_top b n = vol_top (ob_ask b) (ob_best_ask b) n False"

subsection \<open>Scans for the next best level\<close>

text \<open>Each loop returns the price found (0 for none) and the number of levels examined.\<close>

fun scan_down_loop :: "price_level list \<Rightarrow> nat \<Rightarrow> u64 \<Rightarrow> nat \<times> u64" where
  "scan_down_loop bid 0 steps = (0, steps)"
| "scan_down_loop bid (Suc p) steps =
     (if pl_shares (bid ! Suc p) \<noteq> 0 then (Suc p, steps + 1)
      else scan_down_loop bid p (steps + 1))"

function scan_up_loop :: "price_level list \<Rightarrow> nat \<Rightarrow> nat \<Rightarrow> u64 \<Rightarrow> nat \<times> u64" where
  "scan_up_loop ask hi p steps =
     (if p \<le> hi
      then if pl_shares (ask ! p) \<noteq> 0 then (p, steps + 1) else scan_up_loop ask hi (p + 1) (steps + 1)
      else (0, steps))"
  by pat_completeness auto
termination
  by (relation "measure (\<lambda>(ask, hi, p, steps). Suc hi - p)") auto

declare scan_up_loop.simps [simp del]

text \<open>The gathered lanes are compared as signed 32-bit integers.\<close>

definition cmpgt_zero :: "u32 list \<Rightarrow> bool list" where
  "cmpgt_zero v = map (\<lambda>x. 0 <s x) v"

fun scan_down_vec_loop :: "price_level list \<Rightarrow> nat \<Rightarrow> u64 \<Rightarrow> nat \<times> u64" where
  "scan_down_vec_loop bid p steps =
     (if 8 \<le> p
      then let m = cmpgt_zero (map (\<lambda>l. pl_shares (bid ! (p - l))) [0..<8])
           in if mask_set m then (p - ctz m, steps + 8) else scan_down_vec_loop bid (p - 8) (steps + 8)
      else scan_down_loop bid p steps)"

declare scan_down_vec_loop.simps [simp del]

function scan_up_vec_loop :: "price_level list \<Rightarrow> nat \<Rightarrow> nat \<Rightarrow> u64 \<Rightarrow> nat \<times> u64" where
  "scan_up_vec_loop ask hi p steps =
     (if p + 8 \<le> hi + 1
      then let m = cmpgt_zero (map (\<lambda>l. pl_shares (ask ! (p + l))) [0..<8])
           in if mask_set m then (p + ctz m, steps + 8) else scan_up_vec_loop ask hi (p + 8) (steps + 8)
      else scan_up_loop ask hi p steps)"
  by pat_completeness auto
termination
  by (relation "measure (\<lambda>(ask, hi, p, steps). Suc hi - p)") auto

declare scan_up_vec_loop.simps [simp del]

definition scan_down_start :: "u32 \<Rightarrow> u32 \<Rightarrow> u32" where
  "scan_down_start max_price start =
     (if start = 0 \<or> start > max_price then if start > max_price then max_price else 0 else start)"

definition scan_down :: "order_book \<Rightarrow> u32 \<Rightarrow> order_book \<times> u32" where
  "scan_down b start =
     (case scan_down_loop (ob_bid b) (unat (scan_down_start (ob_max_price b) start)) (ob_scan_steps b) of
        (p, steps) \<Rightarrow>
          (b\<lparr>ob_scan_count := ob_scan_count b + 1, ob_scan_steps := steps\<rparr>, of_nat p))"

definition scan_up :: "order_book \<Rightarrow> u32 \<Rightarrow> order_book \<times> u32" where
  "scan_up b start =
     (case scan_up_loop (ob_ask b) (unat (ob_max_price b)) (unat (if start = 0 then 1 else start))
             (ob_scan_steps b) of
        (p, steps) \<Rightarrow>
          (b\<lparr>ob_scan_count := ob_scan_count b + 1, ob_scan_steps := steps\<rparr>, of_nat p))"

definition scan_down_vec :: "order_book \<Rightarrow> u32 \<Rightarrow> order_book \<times> u32" where
  "scan_down_vec b start =
     (case scan_down_vec_loop (ob_bid b) (unat (scan_down_start (ob_max_price b) start)) (ob_scan_steps b) of
        (p, steps) \<Rightarrow>
          (b\<lparr>ob_scan_count := ob_scan_count b + 1, ob_scan_steps := steps\<rparr>, of_nat p))"

definition scan_up_vec :: "order_book \<Rightarrow> u32 \<Rightarrow> order_book \<times> u32" where
  "scan_up_vec b start =
     (case scan_up_vec_loop (ob_ask b) (unat (ob_max_price b)) (unat (if start = 0 then 1 else start))
             (ob_scan_steps b) of
        (p, steps) \<Rightarrow>
          (b\<lparr>ob_scan_count := ob_scan_count b + 1, ob_scan_steps := steps\<rparr>, of_nat p))"

subsection \<open>Updates\<close>

definition side_levels :: "order_book \<Rightarrow> u8 \<Rightarrow> price_level list" where
  "side_levels b side = (if side = SIDE_BUY then ob_bid b else ob_ask b)"

definition can_add :: "order_book \<Rightarrow> u8 \<Rightarrow> u32 \<Rightarrow> u32 \<Rightarrow> bool" where
  "can_add b side price shares =
     (if side \<noteq> SIDE_BUY \<and> side \<noteq> SIDE_SELL \<or> price = 0 \<or> price > ob_max_price b \<or> shares = 0 then False
      else let level = side_levels b side ! unat price
           in (pl_shares level = 0) = (pl_orders level = 0) \<and>
              pl_shares level \<le> -1 - shares \<and> pl_orders level \<noteq> -1)"

definition level_add :: "u32 \<Rightarrow> price_level \<Rightarrow> price_level" where
  "level_add shares L = L\<lparr>pl_shares := pl_shares L + shares, pl_orders := pl_orders L + 1\<rparr>"

definition book_add :: "u8 \<Rightarrow> u32 \<Rightarrow> u32 \<Rightarrow> order_book \<Rightarrow> order_book \<times> bool" where
  "book_add side price shares b =
     (if \<not> can_add b side price shares then (b, False)
      else if side = SIDE_BUY then
        (let b1 = b\<lparr>ob_bid := (ob_bid b)[unat price := level_add shares (ob_bid b ! unat price)]\<rparr>
         in (if price > ob_best_bid b then b1\<lparr>ob_best_bid := price\<rparr> else b1, True))
      else
        (let b1 = b\<lparr>ob_ask := (ob_ask b)[unat price := level_add shares (ob_ask b ! unat price)]\<rparr>
         in (if ob_best_ask b = 0 \<or> price < ob_best_ask b then b1\<lparr>ob_best_ask := price\<rparr> else b1, True)))"

definition can_remove :: "order_book \<Rightarrow> u8 \<Rightarrow> u32 \<Rightarrow> u32 \<Rightarrow> bool \<Rightarrow> bool" where
  "can_remove b side price shares order_gone =
     (if side \<noteq> SIDE_BUY \<and> side \<noteq> SIDE_SELL \<or> price = 0 \<or> price > ob_max_price b \<or> shares = 0 then False
      else let level = side_levels b side ! unat price
           in if shares > pl_shares level \<or> order_gone \<and> pl_orders level = 0 then False
              else let remaining_shares = pl_shares level - shares;
                       remaining_orders = pl_orders level - (if order_gone then 1 else 0)
                   in (remaining_shares = 0) = (remaining_orders = 0))"

definition level_remove :: "u32 \<Rightarrow> bool \<Rightarrow> price_level \<Rightarrow> price_level" where
  "level_remove shares order_gone L =
     (let L1 = L\<lparr>pl_shares := pl_shares L - shares\<rparr>
      in if order_gone then L1\<lparr>pl_orders := pl_orders L1 - 1\<rparr> else L1)"

definition book_remove :: "u8 \<Rightarrow> u32 \<Rightarrow> u32 \<Rightarrow> bool \<Rightarrow> order_book \<Rightarrow> order_book \<times> bool" where
  "book_remove side price shares order_gone b =
     (if \<not> can_remove b side price shares order_gone then (b, False)
      else if side = SIDE_BUY then
        (let L = level_remove shares order_gone (ob_bid b ! unat price);
             b1 = b\<lparr>ob_bid := (ob_bid b)[unat price := L]\<rparr>
         in if pl_shares L = 0 \<and> price = ob_best_bid b
            then (case scan_down b1 (if price = 0 then 0 else price - 1) of
                    (b2, best) \<Rightarrow> (b2\<lparr>ob_best_bid := best\<rparr>, True))
            else (b1, True))
      else
        (let L = level_remove shares order_gone (ob_ask b ! unat price);
             b1 = b\<lparr>ob_ask := (ob_ask b)[unat price := L]\<rparr>
         in if pl_shares L = 0 \<and> price = ob_best_ask b
            then (case scan_up b1 (price + 1) of (b2, best) \<Rightarrow> (b2\<lparr>ob_best_ask := best\<rparr>, True))
            else (b1, True)))"

definition can_replace :: "order_book \<Rightarrow> u8 \<Rightarrow> u32 \<Rightarrow> u32 \<Rightarrow> u32 \<Rightarrow> u32 \<Rightarrow> bool" where
  "can_replace b side old_price old_shares new_price new_shares =
     (if \<not> can_remove b side old_price old_shares True \<or> new_price = 0 \<or>
         new_price > ob_max_price b \<or> new_shares = 0 then False
      else if old_price \<noteq> new_price then can_add b side new_price new_shares
      else let level = side_levels b side ! unat old_price;
               after_remove = pl_shares level - old_shares
           in after_remove \<le> -1 - new_shares)"

definition book_replace :: "u8 \<Rightarrow> u32 \<Rightarrow> u32 \<Rightarrow> u32 \<Rightarrow> u32 \<Rightarrow> order_book \<Rightarrow> order_book \<times> bool" where
  "book_replace side old_price old_shares new_price new_shares b =
     (if \<not> can_replace b side old_price old_shares new_price new_shares then (b, False)
      else case book_remove side old_price old_shares True b of
        (b1, removed) \<Rightarrow>
          (case book_add side new_price new_shares b1 of (b2, added) \<Rightarrow> (b2, removed \<and> added)))"

end
