(* ===== verification/BookInvariant.thy ===== *)
theory BookInvariant
  imports OrderBook
begin

text \<open>
  The invariant of \<open>OrderBook\<close> and what each operation does to it: the levels are
  consistent, the best prices are the extreme non-empty levels, and the operations act on the
  view of the book as counts of shares and orders per side and price.
\<close>

subsection \<open>Side conditions\<close>

definition is_side :: "u8 \<Rightarrow> bool" where
  "is_side s \<longleftrightarrow> s = SIDE_BUY \<or> s = SIDE_SELL"

lemma sides_differ [simp]: "SIDE_SELL \<noteq> SIDE_BUY" "SIDE_BUY \<noteq> SIDE_SELL"
  by (simp_all add: layout)

definition is_top :: "price_level list \<Rightarrow> nat \<Rightarrow> nat \<Rightarrow> bool" where
  "is_top side start p \<longleftrightarrow> p \<le> start \<and> (p \<noteq> 0 \<longrightarrow> pl_shares (side ! p) \<noteq> 0) \<and>
     (\<forall>q \<le> start. p < q \<longrightarrow> pl_shares (side ! q) = 0)"

definition is_low :: "price_level list \<Rightarrow> nat \<Rightarrow> nat \<Rightarrow> nat \<Rightarrow> bool" where
  "is_low side start hi p \<longleftrightarrow> p \<le> hi \<and> (p \<noteq> 0 \<longrightarrow> start \<le> p \<and> pl_shares (side ! p) \<noteq> 0) \<and>
     (\<forall>q\<le>hi. start \<le> q \<longrightarrow> p = 0 \<or> q < p \<longrightarrow> pl_shares (side ! q) = 0)"

definition levels_ok :: "nat \<Rightarrow> price_level list \<Rightarrow> bool" where
  "levels_ok n side \<longleftrightarrow> length side = n \<and> pl_shares (side ! 0) = 0 \<and>
     (\<forall>p<n. (pl_shares (side ! p) = 0) = (pl_orders (side ! p) = 0))"

definition book_inv :: "order_book \<Rightarrow> bool" where
  "book_inv b \<longleftrightarrow>
     Suc (unat (ob_max_price b)) < 2 ^ 32 \<and>
     levels_ok (Suc (unat (ob_max_price b))) (ob_bid b) \<and>
     levels_ok (Suc (unat (ob_max_price b))) (ob_ask b) \<and>
     is_top (ob_bid b) (unat (ob_max_price b)) (unat (ob_best_bid b)) \<and>
     is_low (ob_ask b) 1 (unat (ob_max_price b)) (unat (ob_best_ask b))"

definition side_view :: "price_level list \<Rightarrow> nat \<Rightarrow> nat \<times> nat" where
  "side_view side p =
     (if p < length side then (unat (pl_shares (side ! p)), unat (pl_orders (side ! p))) else (0, 0))"

definition book_view :: "order_book \<Rightarrow> u8 \<Rightarrow> u32 \<Rightarrow> nat \<times> nat" where
  "book_view b s p = side_view (side_levels b s) (unat p)"

subsection \<open>Scans\<close>

lemma scan_down_loop_top: "is_top bid p (fst (scan_down_loop bid p steps))"
proof (induction p arbitrary: steps)
  case (Suc p)
  show ?case
  proof (cases "pl_shares (bid ! Suc p) = 0")
    case True
    have "is_top bid p (fst (scan_down_loop bid p (steps + 1)))" by (rule Suc)
    then show ?thesis using True by (auto simp: is_top_def le_Suc_eq)
  next
    case False
    then show ?thesis by (auto simp: is_top_def)
  qed
qed (simp add: is_top_def)

lemma is_low_step:
  assumes low: "is_low side (p + 1) hi r" and p: "pl_shares (side ! p) = 0"
  shows "is_low side p hi r"
  unfolding is_low_def
proof (intro conjI allI impI)
  fix q assume q: "q \<le> hi" "p \<le> q" "r = 0 \<or> q < r"
  show "pl_shares (side ! q) = 0"
  proof (cases "q = p")
    case False
    then have "p + 1 \<le> q" using q(2) by simp
    then show ?thesis using low q unfolding is_low_def by blast
  qed (simp add: p)
qed (use low in \<open>auto simp: is_low_def\<close>)

lemma scan_up_loop_low: "0 < p \<Longrightarrow> is_low ask p hi (fst (scan_up_loop ask hi p steps))"
proof (induction "Suc hi - p" arbitrary: p steps rule: less_induct)
  case less
  show ?case
  proof (cases "p \<le> hi \<and> pl_shares (ask ! p) = 0")
    case True
    then have "is_low ask (p + 1) hi (fst (scan_up_loop ask hi (p + 1) (steps + 1)))"
      by (intro less.hyps) (simp_all add: Suc_diff_le)
    then have "is_low ask p hi (fst (scan_up_loop ask hi (p + 1) (steps + 1)))"
      using is_low_step True by simp
    then show ?thesis using True by (subst scan_up_loop.simps) simp
  next
    case False
    then show ?thesis using less.prems by (subst scan_up_loop.simps) (auto simp: is_low_def)
  qed
qed

lemma is_top_mono: "is_top side p r \<Longrightarrow> p \<le> m \<Longrightarrow> \<forall>q\<le>m. p < q \<longrightarrow> pl_shares (side ! q) = 0 \<Longrightarrow> is_top side m r"
  unfolding is_top_def by (meson le_trans not_le)

lemma is_low_mono: "is_low side p hi r \<Longrightarrow> m \<le> p \<Longrightarrow> \<forall>q<p. pl_shares (side ! q) = 0 \<Longrightarrow> is_low side m hi r"
  unfolding is_low_def by (meson le_trans not_le)

subsection \<open>Reading levels\<close>

lemma book_invD:
  assumes "book_inv b"
  shows "Suc (unat (ob_max_price b)) < 2 ^ 32"
    "length (ob_bid b) = Suc (unat (ob_max_price b))" "length (ob_ask b) = Suc (unat (ob_max_price b))"
    "length (side_levels b s) = Suc (unat (ob_max_price b))"
    "levels_ok (Suc (unat (ob_max_price b))) (ob_bid b)"
    "levels_ok (Suc (unat (ob_max_price b))) (ob_ask b)"
    "is_top (ob_bid b) (unat (ob_max_price b)) (unat (ob_best_bid b))"
    "is_low (ob_ask b) 1 (unat (ob_max_price b)) (unat (ob_best_ask b))"
  using assms by (simp_all add: book_inv_def levels_ok_def side_levels_def)

lemma levels_ok_zero: "levels_ok n side \<Longrightarrow> p < n \<Longrightarrow> (pl_shares (side ! p) = 0) = (pl_orders (side ! p) = 0)"
  by (simp add: levels_ok_def)

lemma side_ok: "book_inv b \<Longrightarrow> levels_ok (Suc (unat (ob_max_price b))) (side_levels b s)"
  by (simp add: book_inv_def side_levels_def)

lemma price_in: "book_inv b \<Longrightarrow> p \<le> ob_max_price b \<Longrightarrow> unat p < length (side_levels b s)"
  by (simp add: book_invD word_le_nat_alt)

lemma view_in:
  "book_inv b \<Longrightarrow> p \<le> ob_max_price b \<Longrightarrow>
   book_view b s p = (unat (pl_shares (side_levels b s ! unat p)), unat (pl_orders (side_levels b s ! unat p)))"
  by (simp add: book_view_def side_view_def price_in)

lemma view_out: "book_inv b \<Longrightarrow> \<not> p \<le> ob_max_price b \<Longrightarrow> book_view b s p = (0, 0)"
  by (simp add: book_view_def side_view_def book_invD word_le_nat_alt)

lemma view_zero: "book_inv b \<Longrightarrow> fst (book_view b s p) = 0 \<longleftrightarrow> snd (book_view b s p) = 0"
proof (cases "p \<le> ob_max_price b")
  case True
  assume "book_inv b"
  then show ?thesis
    using levels_ok_zero [OF side_ok, of b "unat p" s] True
    by (simp add: view_in unat_eq_0 word_le_nat_alt)
qed (simp add: view_out)

text \<open>Replacing the level at one price of one side.\<close>

definition same_slot :: "u8 \<Rightarrow> u32 \<Rightarrow> u8 \<Rightarrow> u32 \<Rightarrow> bool" where
  "same_slot s p s' p' \<longleftrightarrow> (s' = SIDE_BUY \<longleftrightarrow> s = SIDE_BUY) \<and> p' = p"

lemma view_update:
  assumes "p < length side"
  shows "side_view (side[p := L]) p' =
    (if p' = p then (unat (pl_shares L), unat (pl_orders L)) else side_view side p')"
  using assms by (auto simp: side_view_def)

lemma view_set_bid:
  assumes "ob_bid b' = (ob_bid b)[unat p := L]" "ob_ask b' = ob_ask b" "unat p < length (ob_bid b)"
  shows "book_view b' s' p' = (if same_slot SIDE_BUY p s' p'
    then (unat (pl_shares L), unat (pl_orders L)) else book_view b s' p')"
  using assms by (simp add: book_view_def side_levels_def view_update same_slot_def unat_inj_iff)

lemma view_set_ask:
  assumes "ob_ask b' = (ob_ask b)[unat p := L]" "ob_bid b' = ob_bid b" "unat p < length (ob_ask b)"
  shows "book_view b' s' p' = (if same_slot SIDE_SELL p s' p'
    then (unat (pl_shares L), unat (pl_orders L)) else book_view b s' p')"
  using assms by (simp add: book_view_def side_levels_def view_update same_slot_def unat_inj_iff)

lemma levels_ok_update:
  assumes "levels_ok n side" "0 < p" "p < n" "(pl_shares L = 0) = (pl_orders L = 0)"
  shows "levels_ok n (side[p := L])"
  using assms by (auto simp: levels_ok_def nth_list_update)

subsection \<open>Adding an order\<close>

lemma can_add_iff:
  assumes "book_inv b"
  shows "can_add b s p q \<longleftrightarrow> is_side s \<and> p \<noteq> 0 \<and> p \<le> ob_max_price b \<and> q \<noteq> 0 \<and>
    fst (book_view b s p) + unat q < 2 ^ 32 \<and> Suc (snd (book_view b s p)) < 2 ^ 32"
proof (cases "is_side s \<and> p \<noteq> 0 \<and> p \<le> ob_max_price b \<and> q \<noteq> 0")
  case True
  let ?L = "side_levels b s ! unat p"
  have zero: "(pl_shares ?L = 0) = (pl_orders ?L = 0)"
    using levels_ok_zero [OF side_ok [OF assms], of "unat p" s] True by (simp add: word_le_nat_alt)
  show ?thesis
    using True zero le_headroom_iff [of "pl_shares ?L" q] Suc_unat_less_iff [of "pl_orders ?L"]
    by (auto simp: can_add_def Let_def view_in [OF assms] is_side_def not_less)
qed (auto simp: can_add_def is_side_def not_less)

lemma unat_level_add:
  assumes "unat (pl_shares L) + unat q < 2 ^ 32" "Suc (unat (pl_orders L)) < 2 ^ 32"
  shows "unat (pl_shares (level_add q L)) = unat (pl_shares L) + unat q"
    and "unat (pl_orders (level_add q L)) = Suc (unat (pl_orders L))"
  using assms unat_plus_no_wrap [of "pl_shares L" q] unat_plus_no_wrap [of "pl_orders L" 1]
  by (simp_all add: level_add_def)

lemma level_add_live:
  assumes "unat (pl_shares L) + unat q < 2 ^ 32" "Suc (unat (pl_orders L)) < 2 ^ 32" "q \<noteq> 0"
  shows "pl_shares (level_add q L) \<noteq> 0" "pl_orders (level_add q L) \<noteq> 0"
proof -
  have "0 < unat q" using assms(3) by (simp add: unat_gt_0)
  then show "pl_shares (level_add q L) \<noteq> 0" "pl_orders (level_add q L) \<noteq> 0"
    using unat_level_add [OF assms(1,2)] by (auto simp flip: unat_eq_0)
qed

lemma is_top_raise:
  assumes "is_top side m r" "p \<le> m" "m < length side" "pl_shares L \<noteq> 0"
  shows "is_top (side[p := L]) m (if r < p then p else r)"
  using assms by (auto simp: is_top_def nth_list_update)

lemma is_low_drop:
  assumes "is_low side 1 m r" "0 < p" "p \<le> m" "m < length side" "pl_shares L \<noteq> 0"
  shows "is_low (side[p := L]) 1 m (if r = 0 \<or> p < r then p else r)"
  using assms by (auto simp: is_low_def nth_list_update)

lemma book_add_ok:
  assumes inv: "book_inv b" and can: "can_add b s p q"
  shows "\<exists>b'. book_add s p q b = (b', True) \<and> book_inv b' \<and> ob_max_price b' = ob_max_price b \<and>
    (\<forall>s' p'. book_view b' s' p' = (if same_slot s p s' p'
       then (fst (book_view b s p) + unat q, Suc (snd (book_view b s p))) else book_view b s' p'))"
proof -
  let ?m = "unat (ob_max_price b)" let ?L = "side_levels b s ! unat p" let ?p = "unat p"
  have c: "is_side s" "p \<noteq> 0" "p \<le> ob_max_price b" "q \<noteq> 0"
    "unat (pl_shares ?L) + unat q < 2 ^ 32" "Suc (unat (pl_orders ?L)) < 2 ^ 32"
    using can can_add_iff [OF inv, of s p q] view_in [OF inv, of p s] by auto
  have pm: "0 < ?p" "?p \<le> ?m" using c by (auto simp: word_le_nat_alt unat_gt_0)
  note live = level_add_live [OF c(5,6,4)]
  note new = unat_level_add [OF c(5,6)]
  note I = book_invD [OF inv]
  show ?thesis
  proof (cases "s = SIDE_BUY")
    case True
    let ?b = "b\<lparr>ob_bid := (ob_bid b)[?p := level_add q (ob_bid b ! ?p)]\<rparr>"
    let ?b' = "if p > ob_best_bid b then ?b\<lparr>ob_best_bid := p\<rparr> else ?b"
    have L: "?L = ob_bid b ! ?p" using True by (simp add: side_levels_def)
    have add: "book_add s p q b = (?b', True)" using can True by (simp add: book_add_def Let_def)
    have ok: "levels_ok (Suc ?m) (ob_bid ?b)"
      using levels_ok_update [OF I(5) pm(1), of "level_add q ?L"] pm live L by simp
    have "is_top (ob_bid ?b) ?m (if unat (ob_best_bid b) < ?p then ?p else unat (ob_best_bid b))"
      using is_top_raise [OF I(7) pm(2), of "level_add q ?L"] live I(2) L by simp
    then have "book_inv ?b'" using inv ok by (auto simp: book_inv_def word_less_nat_alt)
    moreover have "book_view ?b' s' p' = (if same_slot s p s' p'
       then (fst (book_view b s p) + unat q, Suc (snd (book_view b s p))) else book_view b s' p')" for s' p'
      using view_set_bid [of ?b' b p "level_add q ?L"] True pm I(2) L new view_in [OF inv c(3), of s] by simp
    ultimately show ?thesis using add by simp
  next
    case False
    then have s: "s = SIDE_SELL" using c by (simp add: is_side_def)
    let ?b = "b\<lparr>ob_ask := (ob_ask b)[?p := level_add q (ob_ask b ! ?p)]\<rparr>"
    let ?b' = "if ob_best_ask b = 0 \<or> p < ob_best_ask b then ?b\<lparr>ob_best_ask := p\<rparr> else ?b"
    have L: "?L = ob_ask b ! ?p" using s by (simp add: side_levels_def)
    have add: "book_add s p q b = (?b', True)" using can s by (simp add: book_add_def Let_def)
    have ok: "levels_ok (Suc ?m) (ob_ask ?b)"
      using levels_ok_update [OF I(6) pm(1), of "level_add q ?L"] pm live L by simp
    have "is_low (ob_ask ?b) 1 ?m
        (if unat (ob_best_ask b) = 0 \<or> ?p < unat (ob_best_ask b) then ?p else unat (ob_best_ask b))"
      using is_low_drop [OF I(8) pm, of "level_add q ?L"] live I(3) L by simp
    then have "book_inv ?b'" using inv ok by (auto simp: book_inv_def word_less_nat_alt unat_eq_0)
    moreover have "book_view ?b' s' p' = (if same_slot s p s' p'
       then (fst (book_view b s p) + unat q, Suc (snd (book_view b s p))) else book_view b s' p')" for s' p'
      using view_set_ask [of ?b' b p "level_add q ?L"] s pm I(3) L new view_in [OF inv c(3), of s] by simp
    ultimately show ?thesis using add by simp
  qed
qed

subsection \<open>Removing shares\<close>

definition less_order :: "bool \<Rightarrow> nat \<Rightarrow> nat" where
  "less_order gone n = (if gone then n - 1 else n)"

lemma less_order_zero:
  "q \<le> (a :: nat) \<Longrightarrow> 0 < n \<Longrightarrow> (q = a \<longleftrightarrow> gone \<and> n = 1) \<Longrightarrow> a - q = 0 \<longleftrightarrow> less_order gone n = 0"
  by (cases gone) (auto simp: less_order_def)

lemma can_remove_iff:
  assumes "book_inv b"
  shows "can_remove b s p q gone \<longleftrightarrow> is_side s \<and> p \<noteq> 0 \<and> p \<le> ob_max_price b \<and> q \<noteq> 0 \<and>
    unat q \<le> fst (book_view b s p) \<and>
    (unat q = fst (book_view b s p) \<longleftrightarrow> gone \<and> snd (book_view b s p) = 1)"
proof (cases "is_side s \<and> p \<noteq> 0 \<and> p \<le> ob_max_price b \<and> q \<noteq> 0 \<and> q \<le> pl_shares (side_levels b s ! unat p)")
  case True
  let ?L = "side_levels b s ! unat p"
  have "pl_shares ?L \<noteq> 0" using True by (auto simp: word_le_nat_alt simp flip: unat_eq_0)
  then have live: "pl_orders ?L \<noteq> 0"
    using levels_ok_zero [OF side_ok [OF assms], of "unat p" s] True by (simp add: word_le_nat_alt)
  have shares: "pl_shares ?L - q = 0 \<longleftrightarrow> unat q = unat (pl_shares ?L)"
    by (auto simp: unat_inj_iff)
  have orders: "pl_orders ?L - 1 = 0 \<longleftrightarrow> unat (pl_orders ?L) = 1"
    using unat_inj_iff [of "pl_orders ?L" 1] by simp
  have "can_remove b s p q gone \<longleftrightarrow>
      (pl_shares ?L - q = 0) = (pl_orders ?L - (if gone then 1 else 0) = 0)"
  proof -
    have g: "\<not> (s \<noteq> SIDE_BUY \<and> s \<noteq> SIDE_SELL)" "\<not> ob_max_price b < p" "p \<noteq> 0" "q \<noteq> 0" "\<not> pl_shares ?L < q"
      using True by (auto simp: is_side_def)
    show ?thesis by (simp only: can_remove_def Let_def g live simp_thms if_False)
  qed
  also have "\<dots> \<longleftrightarrow> (unat q = unat (pl_shares ?L) \<longleftrightarrow> gone \<and> unat (pl_orders ?L) = 1)"
    using live unfolding shares by (cases gone) (simp_all only: orders if_True if_False, simp_all)
  finally show ?thesis
    using True by (simp add: view_in [OF assms]) (simp add: word_le_nat_alt)
next
  case False
  then consider "\<not> is_side s \<or> p = 0 \<or> \<not> p \<le> ob_max_price b \<or> q = 0"
    | "is_side s" "p \<noteq> 0" "p \<le> ob_max_price b" "q \<noteq> 0" "\<not> q \<le> pl_shares (side_levels b s ! unat p)" by blast
  then show ?thesis
  proof cases
    case 1
    then show ?thesis by (auto simp: can_remove_def is_side_def not_less)
  next
    case 2
    then have "\<not> can_remove b s p q gone" by (auto simp: can_remove_def Let_def is_side_def not_less)
    then show ?thesis using 2 by (simp add: view_in [OF assms]) (simp add: word_le_nat_alt)
  qed
qed

lemma unat_level_remove:
  assumes "q \<le> pl_shares L" "gone \<Longrightarrow> pl_orders L \<noteq> 0"
  shows "unat (pl_shares (level_remove q gone L)) = unat (pl_shares L) - unat q"
    and "unat (pl_orders (level_remove q gone L)) = less_order gone (unat (pl_orders L))"
proof -
  have "unat (pl_orders L - 1) = unat (pl_orders L) - 1" if "pl_orders L \<noteq> 0"
    using that by (simp add: unat_minus_le word_le_nat_alt Suc_le_eq unat_gt_0)
  then show "unat (pl_shares (level_remove q gone L)) = unat (pl_shares L) - unat q"
    "unat (pl_orders (level_remove q gone L)) = less_order gone (unat (pl_orders L))"
    using assms by (simp_all add: level_remove_def Let_def less_order_def unat_minus_le)
qed

lemma is_top_keep:
  assumes top: "is_top side m r" and p: "p \<le> m" "m < length side" "pl_shares (side ! p) \<noteq> 0"
    and stay: "pl_shares L \<noteq> 0 \<or> p \<noteq> r"
  shows "is_top (side[p := L]) m r"
proof -
  have "p \<le> r" using top p by (metis is_top_def not_less)
  then show ?thesis using top p stay by (auto simp: is_top_def nth_list_update)
qed

lemma is_low_keep:
  assumes low: "is_low side 1 m r" and p: "0 < p" "p \<le> m" "m < length side" "pl_shares (side ! p) \<noteq> 0"
    and stay: "pl_shares L \<noteq> 0 \<or> p \<noteq> r"
  shows "is_low (side[p := L]) 1 m r"
proof -
  have "r \<noteq> 0 \<and> r \<le> p" using low p unfolding is_low_def by (metis One_nat_def Suc_leI not_less)
  then show ?thesis using low p stay by (auto simp: is_low_def nth_list_update)
qed

lemma is_top_rescan:
  assumes top: "is_top side m p" and p: "0 < p" "m < length side" and L: "pl_shares L = 0"
    and scan: "is_top (side[p := L]) (p - 1) r"
  shows "is_top (side[p := L]) m r"
proof (rule is_top_mono [OF scan])
  have pm: "p \<le> m" using top by (simp add: is_top_def)
  then show "p - 1 \<le> m" by simp
  show "\<forall>q\<le>m. p - 1 < q \<longrightarrow> pl_shares (side[p := L] ! q) = 0"
  proof (intro allI impI)
    fix q assume q: "q \<le> m" "p - 1 < q"
    show "pl_shares (side[p := L] ! q) = 0"
    proof (cases "q = p")
      case False
      then have "p < q" using q(2) by simp
      then show ?thesis using top q(1) by (simp add: is_top_def)
    qed (use L p pm in simp)
  qed
qed

lemma is_low_rescan:
  assumes low: "is_low side 1 m p" and p: "0 < p" "m < length side" and L: "pl_shares L = 0"
    and zero: "pl_shares (side ! 0) = 0"
    and scan: "is_low (side[p := L]) (p + 1) m r"
  shows "is_low (side[p := L]) 1 m r"
proof (rule is_low_mono [OF scan])
  have pm: "p \<le> m" using low by (simp add: is_low_def)
  show "\<forall>q<p + 1. pl_shares (side[p := L] ! q) = 0"
  proof (intro allI impI)
    fix q assume q: "q < p + 1"
    consider "q = p" | "q = 0" | "1 \<le> q" "q < p" using q by linarith
    then show "pl_shares (side[p := L] ! q) = 0"
      using low pm L p zero by cases (auto simp: is_low_def nth_list_update)
  qed
qed simp

lemma scan_down_spec:
  assumes "Suc m < 2 ^ 32" "m = unat (ob_max_price b)" "start \<le> ob_max_price b"
  obtains sc st r where "scan_down b start = (b\<lparr>ob_scan_count := sc, ob_scan_steps := st\<rparr>, r)"
    "is_top (ob_bid b) (unat start) (unat r)"
proof -
  let ?l = "scan_down_loop (ob_bid b) (unat start) (ob_scan_steps b)"
  have s: "scan_down_start (ob_max_price b) start = start"
    using assms(3) by (auto simp: scan_down_start_def)
  have top: "is_top (ob_bid b) (unat start) (fst ?l)" by (rule scan_down_loop_top)
  then have "fst ?l < 2 ^ 32" using assms by (auto simp: is_top_def word_le_nat_alt)
  then have "unat (of_nat (fst ?l) :: u32) = fst ?l"
    by (simp add: unsigned_of_nat take_bit_nat_eq_self_iff)
  then show ?thesis
    using top by (intro that [of "snd ?l" "ob_scan_count b + 1" "of_nat (fst ?l)"])
      (simp_all add: scan_down_def s split: prod.splits)
qed

lemma scan_up_spec:
  assumes "m = unat (ob_max_price b)" "start \<noteq> 0"
  obtains sc st r where "scan_up b start = (b\<lparr>ob_scan_count := sc, ob_scan_steps := st\<rparr>, r)"
    "is_low (ob_ask b) (unat start) m (unat r)"
proof -
  let ?l = "scan_up_loop (ob_ask b) m (unat start) (ob_scan_steps b)"
  have low: "is_low (ob_ask b) (unat start) m (fst ?l)"
    by (rule scan_up_loop_low) (use assms(2) in \<open>simp add: unat_gt_0\<close>)
  then have "fst ?l \<le> unat (ob_max_price b)" using assms(1) by (simp only: is_low_def)
  moreover have "unat (ob_max_price b) < 2 ^ 32" by simp
  ultimately have "fst ?l < 2 ^ 32" by (rule le_less_trans)
  then have "unat (of_nat (fst ?l) :: u32) = fst ?l"
    by (simp add: unsigned_of_nat take_bit_nat_eq_self_iff)
  then show ?thesis
    using low assms by (intro that [of "snd ?l" "ob_scan_count b + 1" "of_nat (fst ?l)"])
      (simp_all add: scan_up_def split: prod.splits)
qed

lemma book_remove_ok:
  assumes inv: "book_inv b" and can: "can_remove b s p q gone"
  shows "\<exists>b'. book_remove s p q gone b = (b', True) \<and> book_inv b' \<and> ob_max_price b' = ob_max_price b \<and>
    (\<forall>s' p'. book_view b' s' p' = (if same_slot s p s' p'
       then (fst (book_view b s p) - unat q, less_order gone (snd (book_view b s p)))
       else book_view b s' p'))"
proof -
  let ?m = "unat (ob_max_price b)" let ?L = "side_levels b s ! unat p" let ?p = "unat p"
  let ?L' = "level_remove q gone ?L"
  have c: "is_side s" "p \<noteq> 0" "p \<le> ob_max_price b" "q \<noteq> 0" "q \<le> pl_shares ?L"
    "unat q = unat (pl_shares ?L) \<longleftrightarrow> gone \<and> unat (pl_orders ?L) = 1"
    using can can_remove_iff [OF inv, of s p q gone] view_in [OF inv, of p s] by (auto simp: word_le_nat_alt)
  have pm: "0 < ?p" "?p \<le> ?m" using c by (auto simp: word_le_nat_alt unat_gt_0)
  have live: "pl_shares ?L \<noteq> 0" using c(4,5) by (auto simp: word_le_nat_alt simp flip: unat_eq_0)
  then have live': "pl_orders ?L \<noteq> 0"
    using levels_ok_zero [OF side_ok [OF inv], of ?p s] pm by simp
  note new = unat_level_remove [OF c(5), of gone, OF live']
  have "unat (pl_shares ?L') = 0 \<longleftrightarrow> unat (pl_orders ?L') = 0"
  proof -
    have "unat q \<le> unat (pl_shares ?L)" "0 < unat (pl_orders ?L)"
      using c(5) live' by (simp_all add: word_le_nat_alt unat_gt_0)
    then show ?thesis using less_order_zero c(6) unfolding new by blast
  qed
  then have ok: "(pl_shares ?L' = 0) = (pl_orders ?L' = 0)" by (simp add: unat_eq_0)
  note I = book_invD [OF inv]
  show ?thesis
  proof (cases "s = SIDE_BUY")
    case True
    let ?b = "b\<lparr>ob_bid := (ob_bid b)[?p := ?L']\<rparr>"
    have L: "?L = ob_bid b ! ?p" using True by (simp add: side_levels_def)
    have lv: "levels_ok (Suc ?m) (ob_bid ?b)"
      using levels_ok_update [OF I(5) pm(1) _ ok] pm by simp
    have "\<exists>b' sc st best. book_remove s p q gone b = (b', True) \<and>
      b' = ?b\<lparr>ob_scan_count := sc, ob_scan_steps := st, ob_best_bid := best\<rparr> \<and>
      is_top (ob_bid ?b) ?m (unat best)"
    proof (cases "pl_shares ?L' = 0 \<and> p = ob_best_bid b")
      case rescan: True
      have p1: "unat (p - 1) = ?p - 1"
        using c(2) by (simp add: unat_minus_le word_le_nat_alt Suc_le_eq unat_gt_0)
      have "p - 1 \<le> ob_max_price ?b" using p1 pm by (simp add: word_le_nat_alt)
      then obtain n st r where sc: "scan_down ?b (p - 1) = (?b\<lparr>ob_scan_count := n, ob_scan_steps := st\<rparr>, r)"
        "is_top (ob_bid ?b) (unat (p - 1)) (unat r)"
        using I(1) by (elim scan_down_spec [of ?m ?b "p - 1", rotated 2]) simp_all
      have "is_top (ob_bid b) ?m ?p" using I(7) rescan by simp
      then have "is_top (ob_bid ?b) ?m (unat r)"
        using is_top_rescan [OF _ pm(1) _ conjunct1 [OF rescan]] I(2) sc(2) p1 by simp
      moreover have "pl_shares (level_remove q gone (ob_bid b ! ?p)) = 0" "ob_best_bid b = p"
        using conjunct1 [OF rescan] conjunct2 [OF rescan] L by simp_all
      then have "book_remove s p q gone b = (?b\<lparr>ob_scan_count := n, ob_scan_steps := st, ob_best_bid := r\<rparr>, True)"
        using can True sc(1) c(2) L by (simp add: book_remove_def Let_def)
      ultimately show ?thesis by blast
    next
      case keep: False
      have "pl_shares ?L' \<noteq> 0 \<or> ?p \<noteq> unat (ob_best_bid b)" using keep by (auto simp: unat_inj_iff)
      then have "is_top (ob_bid ?b) ?m (unat (ob_best_bid b))"
        using is_top_keep [OF I(7) pm(2)] I(2) live L by simp
      moreover have "\<not> (pl_shares (level_remove q gone (ob_bid b ! ?p)) = 0 \<and> p = ob_best_bid b)"
        using keep L by simp
      then have "book_remove s p q gone b = (?b, True)"
        unfolding book_remove_def Let_def L
        using can by (simp only: True simp_thms if_True if_False)
      ultimately show ?thesis
        by (intro exI [of _ ?b] exI [of _ "ob_scan_count b"] exI [of _ "ob_scan_steps b"] exI [of _ "ob_best_bid b"]) simp
    qed
    then obtain b' sc st best where b': "book_remove s p q gone b = (b', True)"
      "b' = ?b\<lparr>ob_scan_count := sc, ob_scan_steps := st, ob_best_bid := best\<rparr>"
      "is_top (ob_bid ?b) ?m (unat best)" by blast
    have "book_inv b'" using inv lv b' by (simp add: book_inv_def)
    moreover have "book_view b' s' p' = (if same_slot s p s' p'
       then (fst (book_view b s p) - unat q, less_order gone (snd (book_view b s p)))
       else book_view b s' p')" for s' p'
      using view_set_bid [of b' b p ?L'] True pm I(2) L new view_in [OF inv c(3), of s] b'(2) by simp
    ultimately show ?thesis using b' by simp
  next
    case False
    then have s: "s = SIDE_SELL" using c by (simp add: is_side_def)
    let ?b = "b\<lparr>ob_ask := (ob_ask b)[?p := ?L']\<rparr>"
    have L: "?L = ob_ask b ! ?p" using s by (simp add: side_levels_def)
    have lv: "levels_ok (Suc ?m) (ob_ask ?b)"
      using levels_ok_update [OF I(6) pm(1) _ ok] pm by simp
    have "\<exists>b' sc st best. book_remove s p q gone b = (b', True) \<and>
      b' = ?b\<lparr>ob_scan_count := sc, ob_scan_steps := st, ob_best_ask := best\<rparr> \<and>
      is_low (ob_ask ?b) 1 ?m (unat best)"
    proof (cases "pl_shares ?L' = 0 \<and> p = ob_best_ask b")
      case rescan: True
      have p1: "unat (p + 1) = ?p + 1"
        using unat_plus_no_wrap [of p 1] pm(2) I(1) by simp
      then have "p + 1 \<noteq> 0" by (metis Suc_eq_plus1 nat.simps(3) unat_0)
      then obtain n st r where sc: "scan_up ?b (p + 1) = (?b\<lparr>ob_scan_count := n, ob_scan_steps := st\<rparr>, r)"
        "is_low (ob_ask ?b) (unat (p + 1)) ?m (unat r)"
        by (elim scan_up_spec [of ?m ?b "p + 1", rotated]) simp_all
      have "is_low (ob_ask b) 1 ?m ?p" using I(8) rescan by simp
      moreover have "pl_shares (ob_ask b ! 0) = 0" using I(6) by (simp add: levels_ok_def)
      ultimately have "is_low (ob_ask ?b) 1 ?m (unat r)"
        using is_low_rescan [OF _ pm(1) _ conjunct1 [OF rescan]] I(3) sc(2) p1 by simp
      moreover have "pl_shares (level_remove q gone (ob_ask b ! ?p)) = 0" "ob_best_ask b = p"
        using conjunct1 [OF rescan] conjunct2 [OF rescan] L by simp_all
      then have "book_remove s p q gone b = (?b\<lparr>ob_scan_count := n, ob_scan_steps := st, ob_best_ask := r\<rparr>, True)"
        using can s sc(1) L by (simp add: book_remove_def Let_def)
      ultimately show ?thesis by blast
    next
      case keep: False
      have "pl_shares ?L' \<noteq> 0 \<or> ?p \<noteq> unat (ob_best_ask b)" using keep by (auto simp: unat_inj_iff)
      then have "is_low (ob_ask ?b) 1 ?m (unat (ob_best_ask b))"
        using is_low_keep [OF I(8) pm] I(3) live L by simp
      moreover have "\<not> (pl_shares (level_remove q gone (ob_ask b ! ?p)) = 0 \<and> p = ob_best_ask b)"
        using keep L by simp
      then have "book_remove s p q gone b = (?b, True)"
        unfolding book_remove_def Let_def L
        using can by (simp only: False simp_thms if_True if_False)
      ultimately show ?thesis
        by (intro exI [of _ ?b] exI [of _ "ob_scan_count b"] exI [of _ "ob_scan_steps b"] exI [of _ "ob_best_ask b"]) simp
    qed
    then obtain b' sc st best where b': "book_remove s p q gone b = (b', True)"
      "b' = ?b\<lparr>ob_scan_count := sc, ob_scan_steps := st, ob_best_ask := best\<rparr>"
      "is_low (ob_ask ?b) 1 ?m (unat best)" by blast
    have "book_inv b'" using inv lv b' by (simp add: book_inv_def)
    moreover have "book_view b' s' p' = (if same_slot s p s' p'
       then (fst (book_view b s p) - unat q, less_order gone (snd (book_view b s p)))
       else book_view b s' p')" for s' p'
      using view_set_ask [of b' b p ?L'] s pm I(3) L new view_in [OF inv c(3), of s] b'(2) by simp
    ultimately show ?thesis using b' by simp
  qed
qed

end
