(* ===== verification/BookContract.thy ===== *)
theory BookContract
  imports BookInvariant
begin

text \<open>
  The contract between a per-symbol book and its client: a book is a table of share and order
  counts per side and price, an update either succeeds and changes one entry or is refused and
  changes nothing. The client sequences (remove then add, add then remove) are proved from the
  contract; \<open>OrderBook\<close> is shown to meet it, and its properties are stated.
\<close>

definition add_allowed :: "u32 \<Rightarrow> (u8 \<Rightarrow> u32 \<Rightarrow> nat \<times> nat) \<Rightarrow> u8 \<Rightarrow> u32 \<Rightarrow> u32 \<Rightarrow> bool" where
  "add_allowed lim view s p q \<longleftrightarrow> is_side s \<and> p \<noteq> 0 \<and> p \<le> lim \<and> q \<noteq> 0 \<and>
     fst (view s p) + unat q < 2 ^ 32 \<and> Suc (snd (view s p)) < 2 ^ 32"

definition remove_allowed :: "u32 \<Rightarrow> (u8 \<Rightarrow> u32 \<Rightarrow> nat \<times> nat) \<Rightarrow> u8 \<Rightarrow> u32 \<Rightarrow> u32 \<Rightarrow> bool \<Rightarrow> bool" where
  "remove_allowed lim view s p q gone \<longleftrightarrow> is_side s \<and> p \<noteq> 0 \<and> p \<le> lim \<and> q \<noteq> 0 \<and>
     unat q \<le> fst (view s p) \<and> (unat q = fst (view s p) \<longleftrightarrow> gone \<and> snd (view s p) = 1)"

definition view_upd :: "(u8 \<Rightarrow> u32 \<Rightarrow> nat \<times> nat) \<Rightarrow> u8 \<Rightarrow> u32 \<Rightarrow> nat \<times> nat \<Rightarrow> u8 \<Rightarrow> u32 \<Rightarrow> nat \<times> nat" where
  "view_upd view s p x = (\<lambda>s' p'. if same_slot s p s' p' then x else view s' p')"

definition add_view :: "(u8 \<Rightarrow> u32 \<Rightarrow> nat \<times> nat) \<Rightarrow> u8 \<Rightarrow> u32 \<Rightarrow> u32 \<Rightarrow> u8 \<Rightarrow> u32 \<Rightarrow> nat \<times> nat" where
  "add_view view s p q = view_upd view s p (fst (view s p) + unat q, Suc (snd (view s p)))"

definition remove_view :: "(u8 \<Rightarrow> u32 \<Rightarrow> nat \<times> nat) \<Rightarrow> u8 \<Rightarrow> u32 \<Rightarrow> u32 \<Rightarrow> bool \<Rightarrow> u8 \<Rightarrow> u32 \<Rightarrow> nat \<times> nat" where
  "remove_view view s p q gone =
     view_upd view s p (fst (view s p) - unat q, less_order gone (snd (view s p)))"

lemma same_slot_refl [simp]: "same_slot s p s p"
  by (simp add: same_slot_def)

lemma view_upd_same [simp]: "view_upd view s p x s p = x"
  by (simp add: view_upd_def)

locale level_book =
  fixes good :: "'b \<Rightarrow> bool"
    and limit :: "'b \<Rightarrow> u32"
    and view :: "'b \<Rightarrow> u8 \<Rightarrow> u32 \<Rightarrow> nat \<times> nat"
    and add :: "u8 \<Rightarrow> u32 \<Rightarrow> u32 \<Rightarrow> 'b \<Rightarrow> 'b \<times> bool"
    and remove :: "u8 \<Rightarrow> u32 \<Rightarrow> u32 \<Rightarrow> bool \<Rightarrow> 'b \<Rightarrow> 'b \<times> bool"
  assumes add_ok: "good b \<Longrightarrow> add_allowed (limit b) (view b) s p q \<Longrightarrow>
      \<exists>b'. add s p q b = (b', True) \<and> good b' \<and> limit b' = limit b \<and> view b' = add_view (view b) s p q"
    and add_refused: "good b \<Longrightarrow> \<not> add_allowed (limit b) (view b) s p q \<Longrightarrow> add s p q b = (b, False)"
    and remove_ok: "good b \<Longrightarrow> remove_allowed (limit b) (view b) s p q gone \<Longrightarrow>
      \<exists>b'. remove s p q gone b = (b', True) \<and> good b' \<and> limit b' = limit b \<and>
        view b' = remove_view (view b) s p q gone"
    and remove_refused: "good b \<Longrightarrow> \<not> remove_allowed (limit b) (view b) s p q gone \<Longrightarrow>
      remove s p q gone b = (b, False)"
    and consistent: "good b \<Longrightarrow> fst (view b s p) = 0 \<longleftrightarrow> snd (view b s p) = 0"
    and two_sides: "(s = SIDE_BUY \<longleftrightarrow> s' = SIDE_BUY) \<Longrightarrow> view b s p = view b s' p"
begin

text \<open>Removing an order and adding one on the same side, at the same or another price.\<close>

lemma remove_add_ok:
  assumes b: "good b" and rem: "remove_allowed (limit b) (view b) s p q True"
    and new: "add_allowed (limit b) (remove_view (view b) s p q True) s p' q'"
  shows "\<exists>b1 b2. remove s p q True b = (b1, True) \<and> add s p' q' b1 = (b2, True) \<and> good b2 \<and>
    limit b2 = limit b \<and> view b2 = add_view (remove_view (view b) s p q True) s p' q'"
proof -
  obtain b1 where b1: "remove s p q True b = (b1, True)" "good b1" "limit b1 = limit b"
    "view b1 = remove_view (view b) s p q True"
    using remove_ok [OF b rem] by blast
  obtain b2 where "add s p' q' b1 = (b2, True)" "good b2" "limit b2 = limit b1"
    "view b2 = add_view (view b1) s p' q'"
    using add_ok [OF b1(2), of s p' q'] new b1(3,4) by auto
  then show ?thesis using b1 by auto
qed

text \<open>Adding an order and removing it again restores every level.\<close>

lemma add_remove_restores:
  assumes b: "good b" and new: "add_allowed (limit b) (view b) s p q"
  shows "\<exists>b1 b2. add s p q b = (b1, True) \<and> remove s p q True b1 = (b2, True) \<and> good b2 \<and> view b2 = view b"
proof -
  obtain b1 where b1: "add s p q b = (b1, True)" "good b1" "limit b1 = limit b"
    "view b1 = add_view (view b) s p q"
    using add_ok [OF b new] by blast
  have "remove_allowed (limit b1) (view b1) s p q True"
    using new consistent [OF b, of s p]
    by (auto simp: b1(3,4) add_view_def add_allowed_def remove_allowed_def)
  then obtain b2 where b2: "remove s p q True b1 = (b2, True)" "good b2"
    "view b2 = remove_view (view b1) s p q True"
    using remove_ok [OF b1(2)] by blast
  have "remove_view (add_view (view b) s p q) s p q True = view b"
  proof (intro ext)
    fix s' p'
    show "remove_view (add_view (view b) s p q) s p q True s' p' = view b s' p'"
    proof (cases "same_slot s p s' p'")
      case True
      then have "view b s p = view b s' p'" using two_sides [of s s' b p] by (simp add: same_slot_def)
      then show ?thesis using True by (simp add: remove_view_def add_view_def view_upd_def less_order_def)
    next
      case False
      then show ?thesis by (simp add: remove_view_def add_view_def view_upd_def)
    qed
  qed
  then show ?thesis using b1 b2 by auto
qed

end

lemma book_view_sides: "(s = SIDE_BUY \<longleftrightarrow> s' = SIDE_BUY) \<Longrightarrow> book_view b s p = book_view b s' p"
  by (simp add: book_view_def side_levels_def)

lemma can_add_allowed: "book_inv b \<Longrightarrow> can_add b s p q = add_allowed (ob_max_price b) (book_view b) s p q"
  by (simp add: can_add_iff add_allowed_def)

lemma can_remove_allowed:
  "book_inv b \<Longrightarrow> can_remove b s p q gone = remove_allowed (ob_max_price b) (book_view b) s p q gone"
  by (simp add: can_remove_iff remove_allowed_def)

interpretation ob: level_book book_inv ob_max_price book_view book_add book_remove
proof (unfold_locales, goal_cases)
  case (1 b s p q)
  then have "can_add b s p q" by (simp add: can_add_allowed)
  then show ?case using book_add_ok [OF 1(1)] by (auto simp: add_view_def view_upd_def fun_eq_iff)
next
  case (2 b s p q)
  then show ?case by (simp add: book_add_def can_add_allowed)
next
  case (3 b s p q gone)
  then have "can_remove b s p q gone" by (simp add: can_remove_allowed)
  then show ?case using book_remove_ok [OF 3(1)] by (auto simp: remove_view_def view_upd_def fun_eq_iff)
next
  case (4 b s p q gone)
  then show ?case by (simp add: book_remove_def can_remove_allowed)
next
  case (5 b s p)
  then show ?case by (rule view_zero)
next
  case (6 s s' b p)
  then show ?case by (rule book_view_sides)
qed

lemma new_book_inv: "book_inv (new_book n)"
proof (cases "n = 0")
  case False
  then have n: "0 < unat n" "unat (n - 1) = unat n - 1" "Suc (unat n - 1) = unat n"
    by (simp_all add: unat_gt_0 unat_minus_le word_le_nat_alt Suc_le_eq)
  have "unat n < 2 ^ 32" by simp
  then show ?thesis
    using n False
    by (simp add: book_inv_def new_book_def levels_ok_def is_top_def is_low_def no_level_def
        word_greater_zero_iff del: power_numeral)
next
  case True
  then show ?thesis
    by (simp add: book_inv_def new_book_def levels_ok_def is_top_def is_low_def no_level_def)
qed

lemma new_book_view: "book_view (new_book n) s p = (0, 0)"
  by (simp add: book_view_def side_view_def side_levels_def new_book_def no_level_def)

lemma new_book_limit: "n \<noteq> 0 \<Longrightarrow> p \<le> ob_max_price (new_book n) \<longleftrightarrow> p < n"
proof -
  assume "n \<noteq> 0"
  then have "unat (n - 1) = unat n - 1" "0 < unat n"
    by (simp_all add: unat_gt_0 unat_minus_le word_le_nat_alt Suc_le_eq)
  then show ?thesis
    by (auto simp: new_book_def word_greater_zero_iff word_le_nat_alt word_less_nat_alt)
qed

subsection \<open>Replacement\<close>

lemma can_replace_iff:
  assumes inv: "book_inv b"
  shows "can_replace b s p q p' q' \<longleftrightarrow>
    remove_allowed (ob_max_price b) (book_view b) s p q True \<and>
    add_allowed (ob_max_price b) (remove_view (book_view b) s p q True) s p' q'"
proof (cases "remove_allowed (ob_max_price b) (book_view b) s p q True")
  case True
  note r = True [unfolded remove_allowed_def]
  have cr: "can_remove b s p q True" using True by (simp add: can_remove_allowed [OF inv])
  show ?thesis
  proof (cases "p = p'")
    case same: True
    let ?L = "side_levels b s ! unat p"
    have v: "book_view b s p = (unat (pl_shares ?L), unat (pl_orders ?L))" using r by (simp add: view_in [OF inv])
    have "unat (pl_shares ?L - q) = unat (pl_shares ?L) - unat q"
      using r v by (simp add: unat_minus_le word_le_nat_alt)
    moreover have "unat (pl_orders ?L) - 1 + 1 < 2 ^ 32"
    proof (cases "unat (pl_orders ?L)")
      case (Suc k)
      have "unat (pl_orders ?L) < 4294967296" by simp
      then show ?thesis using Suc by simp
    qed simp
    ultimately show ?thesis
      using r cr same v le_headroom_iff [of "pl_shares ?L - q" q'] True
      by (auto simp: can_replace_def Let_def add_allowed_def remove_view_def less_order_def not_less)
  next
    case False
    then have "remove_view (book_view b) s p q True s p' = book_view b s p'"
      by (simp add: remove_view_def view_upd_def same_slot_def)
    then show ?thesis
      using r cr False True by (auto simp: can_replace_def add_allowed_def can_add_allowed [OF inv] not_less)
  qed
qed (simp add: can_replace_def can_remove_allowed [OF inv])

lemma book_replace_ok:
  assumes inv: "book_inv b" and can: "can_replace b s p q p' q'"
  shows "\<exists>b'. book_replace s p q p' q' b = (b', True) \<and> book_inv b' \<and> ob_max_price b' = ob_max_price b \<and>
    book_view b' = add_view (remove_view (book_view b) s p q True) s p' q'"
  using ob.remove_add_ok [OF inv] can can_replace_iff [OF inv, of s p q p' q']
  by (fastforce simp: book_replace_def)

end
