(* ===== verification/BookProps.thy ===== *)
theory BookProps
  imports BookContract
begin

text \<open>
  The properties of the per-symbol book: what add, remove and replace do on every branch, the
  best prices after any sequence of updates, the volume of the top levels, and the comparison of
  the AVX scans with the scalar ones.
\<close>

subsection \<open>Sequences of updates\<close>

datatype book_op =
    Op_add u8 u32 u32
  | Op_remove u8 u32 u32 bool
  | Op_replace u8 u32 u32 u32 u32

fun book_step :: "book_op \<Rightarrow> order_book \<Rightarrow> order_book" where
  "book_step (Op_add s p q) b = fst (book_add s p q b)"
| "book_step (Op_remove s p q gone) b = fst (book_remove s p q gone b)"
| "book_step (Op_replace s p q p' q') b = fst (book_replace s p q p' q' b)"

lemma book_add_inv: "book_inv b \<Longrightarrow> book_inv (fst (book_add s p q b))"
  using ob.add_ok [of b s p q] ob.add_refused [of b s p q] by fastforce

lemma book_remove_inv: "book_inv b \<Longrightarrow> book_inv (fst (book_remove s p q gone b))"
  using ob.remove_ok [of b s p q gone] ob.remove_refused [of b s p q gone] by fastforce

lemma book_replace_inv: "book_inv b \<Longrightarrow> book_inv (fst (book_replace s p q p' q' b))"
proof (cases "can_replace b s p q p' q'")
  case True
  assume "book_inv b"
  from book_replace_ok [OF this True] show ?thesis by auto
qed (simp add: book_replace_def)

lemma book_step_inv: "book_inv b \<Longrightarrow> book_inv (book_step op b)"
  by (cases op) (simp_all add: book_add_inv book_remove_inv book_replace_inv)

lemma book_run_inv: "book_inv b \<Longrightarrow> book_inv (fold book_step ops b)"
  by (induction ops arbitrary: b) (simp_all add: book_step_inv)

subsection \<open>The best prices\<close>

lemma shares_at_view:
  "book_inv b \<Longrightarrow> unat (bid_shares_at b p) = fst (book_view b SIDE_BUY p)"
  "book_inv b \<Longrightarrow> unat (ask_shares_at b p) = fst (book_view b SIDE_SELL p)"
  by (simp_all add: bid_shares_at_def ask_shares_at_def view_in view_out side_levels_def)

lemma bid_live_iff:
  assumes "book_inv b"
  shows "bid_shares_at b p \<noteq> 0 \<longleftrightarrow> unat p \<le> unat (ob_max_price b) \<and> pl_shares (ob_bid b ! unat p) \<noteq> 0"
  by (simp add: bid_shares_at_def word_le_nat_alt)

lemma ask_live_iff:
  assumes "book_inv b"
  shows "ask_shares_at b p \<noteq> 0 \<longleftrightarrow> unat p \<le> unat (ob_max_price b) \<and> pl_shares (ob_ask b ! unat p) \<noteq> 0"
  by (simp add: ask_shares_at_def word_le_nat_alt)

lemma best_bid_max:
  assumes inv: "book_inv b"
  shows "ob_best_bid b = (if \<forall>p. bid_shares_at b p = 0 then 0 else Max {p. bid_shares_at b p \<noteq> 0})"
proof -
  have top: "is_top (ob_bid b) (unat (ob_max_price b)) (unat (ob_best_bid b))" by (rule book_invD [OF inv])
  have zero: "pl_shares (ob_bid b ! 0) = 0" using book_invD(5) [OF inv] by (simp add: levels_ok_def)
  have le: "p \<le> ob_best_bid b" if "bid_shares_at b p \<noteq> 0" for p
    using that top by (simp add: bid_live_iff [OF inv] is_top_def word_le_nat_alt) (meson not_le)
  have best: "bid_shares_at b (ob_best_bid b) \<noteq> 0" if "ob_best_bid b \<noteq> 0"
    using that top by (simp add: bid_live_iff [OF inv] is_top_def unat_eq_0)
  show ?thesis
  proof (cases "\<forall>p. bid_shares_at b p = 0")
    case True
    then show ?thesis using best by auto
  next
    case False
    then obtain p where p: "bid_shares_at b p \<noteq> 0" by blast
    have "ob_best_bid b \<noteq> 0"
    proof
      assume "ob_best_bid b = 0"
      then have "p = 0" using le [OF p] by simp
      then show False using p zero by (simp add: bid_live_iff [OF inv])
    qed
    then have "Max {p. bid_shares_at b p \<noteq> 0} = ob_best_bid b"
      using le best by (intro Max_eqI) auto
    then show ?thesis by (simp only: if_not_P [OF False])
  qed
qed

lemma best_ask_min:
  assumes inv: "book_inv b"
  shows "ob_best_ask b = (if \<forall>p. ask_shares_at b p = 0 then 0 else Min {p. ask_shares_at b p \<noteq> 0})"
proof -
  let ?m = "unat (ob_max_price b)"
  have low: "is_low (ob_ask b) 1 ?m (unat (ob_best_ask b))" by (rule book_invD [OF inv])
  have zero: "pl_shares (ob_ask b ! 0) = 0" using book_invD(6) [OF inv] by (simp add: levels_ok_def)
  have pos: "1 \<le> unat p" if "ask_shares_at b p \<noteq> 0" for p
    using that zero by (cases "unat p") (auto simp: ask_live_iff [OF inv])
  have le: "ob_best_ask b \<noteq> 0 \<and> ob_best_ask b \<le> p" if p: "ask_shares_at b p \<noteq> 0" for p
  proof -
    have p': "unat p \<le> ?m" "pl_shares (ob_ask b ! unat p) \<noteq> 0" using p by (simp_all add: ask_live_iff [OF inv])
    then have "\<not> (unat (ob_best_ask b) = 0 \<or> unat p < unat (ob_best_ask b))"
      using low pos [OF p] unfolding is_low_def by blast
    then show ?thesis by (auto simp: word_le_nat_alt)
  qed
  have best: "ask_shares_at b (ob_best_ask b) \<noteq> 0" if "ob_best_ask b \<noteq> 0"
    using that low by (simp add: ask_live_iff [OF inv] is_low_def unat_eq_0)
  show ?thesis
  proof (cases "\<forall>p. ask_shares_at b p = 0")
    case True
    then show ?thesis using best by auto
  next
    case False
    then obtain p where p: "ask_shares_at b p \<noteq> 0" by blast
    have "ob_best_ask b \<noteq> 0" using le [OF p] by blast
    then have "Min {p. ask_shares_at b p \<noteq> 0} = ob_best_ask b"
      using le best by (intro Min_eqI) auto
    then show ?thesis by (simp only: if_not_P [OF False])
  qed
qed

text \<open>
  Property C8: the best prices. After any sequence of add, remove and replace calls on a new
  book of any size, accepted or refused, \<open>best_bid\<close> is the highest price with bid shares and
  \<open>best_ask\<close> the lowest price with ask shares, and 0 stands for an empty side.
\<close>

theorem best_prices_reachable:
  "let b = fold book_step ops (new_book n)
   in ob_best_bid b = (if \<forall>p. bid_shares_at b p = 0 then 0 else Max {p. bid_shares_at b p \<noteq> 0}) \<and>
      ob_best_ask b = (if \<forall>p. ask_shares_at b p = 0 then 0 else Min {p. ask_shares_at b p \<noteq> 0})"
  unfolding Let_def by (intro conjI best_bid_max best_ask_min book_run_inv new_book_inv)

subsection \<open>Updates on every branch\<close>

text \<open>A book with one resting bid, for evaluating the properties at a concrete state.\<close>

definition sample_book :: order_book where
  "sample_book = fst (book_add SIDE_BUY 2 5 (new_book 4))"

lemma sample_book_ok:
  "book_inv sample_book" "ob_max_price sample_book = 3"
  "book_view sample_book SIDE_BUY 2 = (5, 1)" "book_view sample_book SIDE_BUY 3 = (0, 0)"
proof -
  have lim: "ob_max_price (new_book 4) = 3" by (simp add: new_book_def)
  have "add_allowed (ob_max_price (new_book 4)) (book_view (new_book 4)) SIDE_BUY 2 5"
    by (simp add: add_allowed_def new_book_view lim is_side_def)
  from ob.add_ok [OF new_book_inv this]
  show "book_inv sample_book" "ob_max_price sample_book = 3"
    "book_view sample_book SIDE_BUY 2 = (5, 1)" "book_view sample_book SIDE_BUY 3 = (0, 0)"
    by (auto simp: sample_book_def lim add_view_def view_upd_def same_slot_def new_book_view)
qed

lemma sample_levels:
  "ob_bid sample_book = [no_level, no_level, \<lparr>pl_shares = 5, pl_orders = 1\<rparr>, no_level]"
  "ob_ask sample_book = [no_level, no_level, no_level, no_level]"
  by code_simp+

text \<open>
  Adding an order. The call is accepted exactly for a valid side, a price in range,
  a non-zero quantity and counters with headroom; it then adds the quantity and one order to
  that level alone. A refused call changes nothing, and the book stays consistent.
\<close>

theorem book_add_correct:
  assumes "book_inv b"
  shows "case book_add s p q b of (b', ok) \<Rightarrow>
    book_inv b' \<and> (ok \<longleftrightarrow> add_allowed (ob_max_price b) (book_view b) s p q) \<and> (ok \<or> b' = b) \<and>
    book_view b' = (if ok then add_view (book_view b) s p q else book_view b)"
  using ob.add_ok [OF assms, of s p q] ob.add_refused [OF assms, of s p q] assms
  by (cases "add_allowed (ob_max_price b) (book_view b) s p q") auto

theorem book_add_correct_witness:
  "book_inv sample_book \<and> snd (book_add SIDE_BUY 2 7 sample_book) \<and>
   book_view (fst (book_add SIDE_BUY 2 7 sample_book)) SIDE_BUY 2 = (12, 2) \<and>
   book_add SIDE_BUY 2 0 sample_book = (sample_book, False)"
  using book_add_correct [OF sample_book_ok(1), of SIDE_BUY 2 7]
    book_add_correct [OF sample_book_ok(1), of SIDE_BUY 2 0] sample_book_ok
  by (auto simp: add_allowed_def add_view_def is_side_def split: prod.splits)

text \<open>
  Removing shares. The call is accepted exactly when the level holds the shares
  and empties together with its last order; it then takes the shares, and one order if it is
  gone, from that level alone. The subtractions never wrap and the book stays consistent, so the
  best prices are found again when the best level empties.
\<close>

theorem book_remove_correct:
  assumes "book_inv b"
  shows "case book_remove s p q gone b of (b', ok) \<Rightarrow>
    book_inv b' \<and> (ok \<longleftrightarrow> remove_allowed (ob_max_price b) (book_view b) s p q gone) \<and> (ok \<or> b' = b) \<and>
    book_view b' = (if ok then remove_view (book_view b) s p q gone else book_view b)"
  using ob.remove_ok [OF assms, of s p q gone] ob.remove_refused [OF assms, of s p q gone] assms
  by (cases "remove_allowed (ob_max_price b) (book_view b) s p q gone") auto

theorem book_remove_correct_witness:
  "book_inv sample_book \<and> snd (book_remove SIDE_BUY 2 5 True sample_book) \<and>
   book_view (fst (book_remove SIDE_BUY 2 5 True sample_book)) SIDE_BUY 2 = (0, 0) \<and>
   book_remove SIDE_BUY 2 5 False sample_book = (sample_book, False)"
  using book_remove_correct [OF sample_book_ok(1), of SIDE_BUY 2 5 True]
    book_remove_correct [OF sample_book_ok(1), of SIDE_BUY 2 5 False] sample_book_ok
  by (auto simp: remove_allowed_def remove_view_def less_order_def is_side_def split: prod.splits)

text \<open>
  Property C9: replacement is atomic. Either both the removal of the old order and the addition
  of the new one take effect, at the same price or another, or nothing changes: \<open>can_replace\<close>
  foresees exactly the cases in which both succeed.
\<close>

theorem book_replace_atomic:
  assumes "book_inv b"
  shows "case book_replace s p q p' q' b of (b', ok) \<Rightarrow>
    book_inv b' \<and>
    (ok \<longleftrightarrow> remove_allowed (ob_max_price b) (book_view b) s p q True \<and>
            add_allowed (ob_max_price b) (remove_view (book_view b) s p q True) s p' q') \<and>
    (ok \<or> b' = b) \<and>
    book_view b' = (if ok then add_view (remove_view (book_view b) s p q True) s p' q' else book_view b)"
proof (cases "can_replace b s p q p' q'")
  case True
  then show ?thesis
    using book_replace_ok [OF assms True] can_replace_iff [OF assms, of s p q p' q'] by auto
next
  case False
  then show ?thesis
    using assms can_replace_iff [OF assms, of s p q p' q'] by (simp add: book_replace_def)
qed

theorem book_replace_atomic_witness:
  "book_inv sample_book \<and> snd (book_replace SIDE_BUY 2 5 3 9 sample_book) \<and>
   book_view (fst (book_replace SIDE_BUY 2 5 3 9 sample_book)) SIDE_BUY 3 = (9, 1) \<and>
   book_replace SIDE_BUY 2 4 3 9 sample_book = (sample_book, False)"
  using book_replace_atomic [OF sample_book_ok(1), of SIDE_BUY 2 5 3 9]
    book_replace_atomic [OF sample_book_ok(1), of SIDE_BUY 2 4 3 9] sample_book_ok
  by (auto simp: remove_allowed_def add_allowed_def remove_view_def add_view_def view_upd_def
      same_slot_def less_order_def is_side_def split: prod.splits)

subsection \<open>Volume of the top levels\<close>

lemma vol_top_down_eq:
  "vol_top_down side p n acc seen = acc + sum_list (map ucast
     (take (unat n - unat seen) (filter (\<lambda>x. x \<noteq> 0) (map (\<lambda>i. pl_shares (side ! i)) (rev [1..<Suc p])))))"
proof (induction p arbitrary: acc seen)
  case (Suc p)
  have split: "map (\<lambda>i. pl_shares (side ! i)) (rev [1..<Suc (Suc p)]) =
      pl_shares (side ! Suc p) # map (\<lambda>i. pl_shares (side ! i)) (rev [1..<Suc p])"
    by simp
  show ?case
  proof (cases "seen < n")
    case True
    then have s: "unat n - unat seen = Suc (unat n - unat (seen + 1))" "unat seen < unat n"
      using unat_plus_no_wrap [of seen 1] unat_u32_less [of n] by (auto simp: word_less_nat_alt)
    show ?thesis unfolding split using True s Suc by (simp add: add.assoc)
  next
    case False
    then have "unat n - unat seen = 0" by (simp add: word_less_nat_alt)
    then show ?thesis using False by simp
  qed
qed simp

lemma vol_top_up_eq:
  "vol_top_up side p n acc seen = acc + sum_list (map ucast
     (take (unat n - unat seen) (filter (\<lambda>x. x \<noteq> 0) (map (\<lambda>i. pl_shares (side ! i)) [p..<length side]))))"
proof (induction "length side - p" arbitrary: p acc seen)
  case 0
  then show ?case by (subst vol_top_up.simps) simp
next
  case (Suc d)
  then have p: "p < length side" by simp
  then have split: "map (\<lambda>i. pl_shares (side ! i)) [p..<length side] =
      pl_shares (side ! p) # map (\<lambda>i. pl_shares (side ! i)) [p + 1..<length side]"
    by (simp add: upt_conv_Cons)
  have d: "d = length side - (p + 1)" using Suc.hyps(2) by simp
  show ?case
  proof (cases "seen < n")
    case True
    then have s: "unat n - unat seen = Suc (unat n - unat (seen + 1))" "unat seen < unat n"
      using unat_plus_no_wrap [of seen 1] unat_u32_less [of n] by (auto simp: word_less_nat_alt)
    show ?thesis
      unfolding split using True s Suc.hyps(1) [OF d] p
      by (subst vol_top_up.simps) (simp add: add.assoc)
  next
    case False
    then have "unat n - unat seen = 0" by (simp add: word_less_nat_alt)
    then show ?thesis using False by (subst vol_top_up.simps) simp
  qed
qed

lemma filter_dead: "(\<And>i. i \<in> set is \<Longrightarrow> f i = 0) \<Longrightarrow> filter (\<lambda>x. x \<noteq> 0) (map f is) = []"
  by (induction "is") auto

lemma live_bids:
  assumes inv: "book_inv b"
  shows "filter (\<lambda>x. x \<noteq> 0) (map (\<lambda>i. pl_shares (ob_bid b ! i)) (rev [1..<length (ob_bid b)])) =
    filter (\<lambda>x. x \<noteq> 0) (map (\<lambda>i. pl_shares (ob_bid b ! i)) (rev [1..<Suc (unat (ob_best_bid b))]))"
proof -
  let ?B = "unat (ob_best_bid b)" let ?f = "\<lambda>i. pl_shares (ob_bid b ! i)"
  have top: "is_top (ob_bid b) (unat (ob_max_price b)) ?B" and len: "length (ob_bid b) = Suc (unat (ob_max_price b))"
    by (rule book_invD [OF inv])+
  then have "[1..<length (ob_bid b)] = [1..<Suc ?B] @ [Suc ?B..<length (ob_bid b)]"
    by (metis One_nat_def Suc_le_mono is_top_def le_add_diff_inverse upt_add_eq_append zero_le)
  moreover have "filter (\<lambda>x. x \<noteq> 0) (map ?f (rev [Suc ?B..<length (ob_bid b)])) = []"
    by (rule filter_dead) (use top len in \<open>auto simp: is_top_def\<close>)
  ultimately show ?thesis by (simp del: upt_Suc)
qed

lemma live_asks:
  assumes inv: "book_inv b"
  shows "filter (\<lambda>x. x \<noteq> 0) (map (\<lambda>i. pl_shares (ob_ask b ! i)) [1..<length (ob_ask b)]) =
    (if ob_best_ask b = 0 then []
     else filter (\<lambda>x. x \<noteq> 0) (map (\<lambda>i. pl_shares (ob_ask b ! i)) [unat (ob_best_ask b)..<length (ob_ask b)]))"
proof -
  let ?A = "unat (ob_best_ask b)" let ?f = "\<lambda>i. pl_shares (ob_ask b ! i)"
  have low: "is_low (ob_ask b) 1 (unat (ob_max_price b)) ?A" and len: "length (ob_ask b) = Suc (unat (ob_max_price b))"
    by (rule book_invD [OF inv])+
  show ?thesis
  proof (cases "ob_best_ask b = 0")
    case True
    then have "filter (\<lambda>x. x \<noteq> 0) (map ?f [1..<length (ob_ask b)]) = []"
      by (intro filter_dead) (use low len in \<open>auto simp: is_low_def\<close>)
    then show ?thesis using True by simp
  next
    case False
    then have A: "1 \<le> ?A" "?A \<le> length (ob_ask b)" using low len by (auto simp: is_low_def Suc_le_eq unat_gt_0)
    then have "[1..<length (ob_ask b)] = [1..<?A] @ [?A..<length (ob_ask b)]"
      by (metis le_add_diff_inverse upt_add_eq_append)
    moreover have "filter (\<lambda>x. x \<noteq> 0) (map ?f [1..<?A]) = []"
      by (rule filter_dead) (use low A in \<open>auto simp: is_low_def\<close>)
    ultimately show ?thesis using False by simp
  qed
qed

text \<open>
  The volume of the top levels. In a consistent book the early-exit loops of
  \<open>bid_volume_top\<close> and \<open>ask_volume_top\<close> return the sum of the first \<open>n\<close> non-empty
  levels of the whole side, bids from the highest price down and asks from the lowest up.
\<close>

theorem volume_top_correct:
  assumes "book_inv b"
  shows "bid_volume_top b n = sum_list (map ucast (take (unat n)
      (filter (\<lambda>x. x \<noteq> 0) (map (\<lambda>p. pl_shares (ob_bid b ! p)) (rev [1..<length (ob_bid b)]))))) \<and>
    ask_volume_top b n = sum_list (map ucast (take (unat n)
      (filter (\<lambda>x. x \<noteq> 0) (map (\<lambda>p. pl_shares (ob_ask b ! p)) [1..<length (ob_ask b)]))))"
  unfolding live_bids [OF assms] live_asks [OF assms]
  by (simp_all add: bid_volume_top_def ask_volume_top_def vol_top_def vol_top_down_eq vol_top_up_eq)

theorem volume_top_correct_witness:
  "bid_volume_top sample_book 3 = 5 \<and> ask_volume_top sample_book 3 = 0"
proof -
  show ?thesis
    using sample_levels volume_top_correct [OF sample_book_ok(1), of 3]
    by (simp add: no_level_def upt_rec)
qed

subsection \<open>The vector scans\<close>

lemma ctz_first:
  assumes "mask_set m"
  shows "ctz m < length m" "m ! ctz m" "\<forall>l<ctz m. \<not> m ! l"
proof -
  have "\<exists>b\<in>set m. b" using assms by (auto simp: mask_set_def)
  then show lt: "ctz m < length m" by (auto simp: ctz_def intro: takeWhile_shorter)
  then have "\<not> Not (m ! ctz m)" unfolding ctz_def by (rule nth_length_takeWhile)
  then show "m ! ctz m" by simp
  show "\<forall>l<ctz m. \<not> m ! l"
    unfolding ctz_def by (metis nth_mem set_takeWhileD takeWhile_nth)
qed

text \<open>Below \<open>2 ^ 31\<close> a 32-bit quantity is positive as a signed integer exactly if it is not zero.\<close>

lemma signed_positive:
  assumes "unat (x :: u32) < 2 ^ 31"
  shows "0 <s x \<longleftrightarrow> x \<noteq> 0"
proof -
  have "uint x < 2 ^ 31" using assms by (metis of_nat_less_iff of_nat_numeral of_nat_power uint_nat)
  then have "sint x = uint x"
    unfolding sint_uint by (intro signed_take_bit_int_eq_self) (simp_all add: order_trans [OF _ uint_ge_0])
  then show ?thesis by (simp add: word_sless_alt uint_0_iff order_less_le)
qed

definition small_levels :: "price_level list \<Rightarrow> bool" where
  "small_levels side \<longleftrightarrow> (\<forall>L\<in>set side. unat (pl_shares L) < 2 ^ 31)"

lemma small_level: "small_levels side \<Longrightarrow> p < length side \<Longrightarrow> 0 <s pl_shares (side ! p) \<longleftrightarrow> pl_shares (side ! p) \<noteq> 0"
  by (rule signed_positive) (simp add: small_levels_def)

lemma scan_lanes:
  assumes small: "small_levels side" and at: "\<And>l. l < 8 \<Longrightarrow> at l < length side"
    and m: "m = cmpgt_zero (map (\<lambda>l. pl_shares (side ! at l)) [0..<8])"
  shows "mask_set m \<longleftrightarrow> (\<exists>l<8. pl_shares (side ! at l) \<noteq> 0)"
    and "mask_set m \<Longrightarrow> ctz m < 8 \<and> pl_shares (side ! at (ctz m)) \<noteq> 0 \<and>
      (\<forall>l<ctz m. pl_shares (side ! at l) = 0)"
proof -
  have lane: "m ! l \<longleftrightarrow> pl_shares (side ! at l) \<noteq> 0" if "l < 8" for l
    using that at small_level [OF small] by (simp add: m cmpgt_zero_def del: upt_Suc)
  have len: "length m = 8" by (simp add: m cmpgt_zero_def)
  show "mask_set m \<longleftrightarrow> (\<exists>l<8. pl_shares (side ! at l) \<noteq> 0)"
    using lane unfolding mask_set_def in_set_conv_nth len by blast
  assume "mask_set m"
  note c = ctz_first [OF this]
  have lt: "ctz m < 8" using c(1) by (simp only: len)
  moreover have "pl_shares (side ! at l) = 0" if "l < ctz m" for l
    using c(3) lane that lt by (meson less_trans)
  ultimately show "ctz m < 8 \<and> pl_shares (side ! at (ctz m)) \<noteq> 0 \<and> (\<forall>l<ctz m. pl_shares (side ! at l) = 0)"
    using c(2) lane by blast
qed

lemma is_low_back:
  assumes low: "is_low side p' hi r" and p: "p \<le> p'"
    and zero: "\<And>q. p \<le> q \<Longrightarrow> q < p' \<Longrightarrow> pl_shares (side ! q) = 0"
  shows "is_low side p hi r"
  unfolding is_low_def
proof (intro conjI allI impI)
  fix q assume q: "q \<le> hi" "p \<le> q" "r = 0 \<or> q < r"
  show "pl_shares (side ! q) = 0"
  proof (cases "p' \<le> q")
    case True
    then show ?thesis using low q unfolding is_low_def by blast
  next
    case False
    then show ?thesis using zero q(2) by simp
  qed
qed (use low p in \<open>auto simp: is_low_def\<close>)

lemma scan_down_vec_top:
  assumes small: "small_levels bid"
  shows "p < length bid \<Longrightarrow> is_top bid p (fst (scan_down_vec_loop bid p steps))"
proof (induction p arbitrary: steps rule: less_induct)
  case (less p)
  show ?case
  proof (cases "8 \<le> p")
    case True
    define m where m: "m = cmpgt_zero (map (\<lambda>l. pl_shares (bid ! (p - l))) [0..<8])"
    have at: "p - l < length bid" if "l < 8" for l using less.prems by simp
    note lanes = scan_lanes [of bid "\<lambda>l. p - l", OF small at m]
    show ?thesis
    proof (cases "mask_set m")
      case set: True
      then have "ctz m < 8" "pl_shares (bid ! (p - ctz m)) \<noteq> 0" "\<forall>l<ctz m. pl_shares (bid ! (p - l)) = 0"
        using lanes(2) by blast+
      moreover have "pl_shares (bid ! q) = 0" if "q \<le> p" "p - ctz m < q" for q
      proof -
        have "p - q < ctz m" "p - (p - q) = q" using that by linarith+
        then show ?thesis using calculation(3) by metis
      qed
      ultimately show ?thesis
        by (simp only: scan_down_vec_loop.simps [of bid p steps] m [symmetric] True set Let_def if_True fst_conv is_top_def) auto
    next
      case False
      then have zero: "pl_shares (bid ! (p - l)) = 0" if "l < 8" for l using lanes(1) that by blast
      have "is_top bid p (fst (scan_down_vec_loop bid (p - 8) (steps + 8)))"
      proof (rule is_top_mono)
        show "is_top bid (p - 8) (fst (scan_down_vec_loop bid (p - 8) (steps + 8)))"
          using less True by simp
        show "\<forall>q\<le>p. p - 8 < q \<longrightarrow> pl_shares (bid ! q) = 0"
        proof (intro allI impI)
          fix q assume "q \<le> p" "p - 8 < q"
          then have "p - q < 8" "p - (p - q) = q" using True by simp_all
          then show "pl_shares (bid ! q) = 0" using zero by metis
        qed
      qed simp
      then show ?thesis
        by (simp only: scan_down_vec_loop.simps [of bid p steps] m [symmetric] True False Let_def if_True if_False)
    qed
  next
    case False
    then show ?thesis by (subst scan_down_vec_loop.simps) (simp add: scan_down_loop_top)
  qed
qed

lemma scan_up_vec_low:
  assumes small: "small_levels ask" and len: "length ask = Suc hi"
  shows "0 < p \<Longrightarrow> is_low ask p hi (fst (scan_up_vec_loop ask hi p steps))"
proof (induction "Suc hi - p" arbitrary: p steps rule: less_induct)
  case less
  show ?case
  proof (cases "p + 8 \<le> hi + 1")
    case True
    define m where m: "m = cmpgt_zero (map (\<lambda>l. pl_shares (ask ! (p + l))) [0..<8])"
    have at: "p + l < length ask" if "l < 8" for l using that True len by simp
    note lanes = scan_lanes [of ask "\<lambda>l. p + l", OF small at m]
    show ?thesis
    proof (cases "mask_set m")
      case set: True
      then have c: "ctz m < 8" "pl_shares (ask ! (p + ctz m)) \<noteq> 0" "\<forall>l<ctz m. pl_shares (ask ! (p + l)) = 0"
        using lanes(2) by blast+
      have "pl_shares (ask ! q) = 0" if "p \<le> q" "q < p + ctz m" for q
      proof -
        have "q - p < ctz m" "p + (q - p) = q" using that by linarith+
        then show ?thesis using c(3) by metis
      qed
      then have "is_low ask p hi (p + ctz m)" using c less.prems True by (auto simp: is_low_def)
      then show ?thesis
        by (simp only: scan_up_vec_loop.simps [of ask hi p steps] m [symmetric] True set Let_def if_True fst_conv)
    next
      case False
      then have zero: "pl_shares (ask ! (p + l)) = 0" if "l < 8" for l using lanes(1) that by blast
      have "is_low ask (p + 8) hi (fst (scan_up_vec_loop ask hi (p + 8) (steps + 8)))"
        by (rule less.hyps) (use True in simp_all)
      then have "is_low ask p hi (fst (scan_up_vec_loop ask hi (p + 8) (steps + 8)))"
      proof (rule is_low_back)
        fix q assume "p \<le> q" "q < p + 8"
        then have "q - p < 8" "p + (q - p) = q" by linarith+
        then show "pl_shares (ask ! q) = 0" using zero by metis
      qed simp
      then show ?thesis
        by (simp only: scan_up_vec_loop.simps [of ask hi p steps] m [symmetric] True False Let_def if_True if_False)
    qed
  next
    case False
    then show ?thesis using less.prems by (subst scan_up_vec_loop.simps) (simp add: scan_up_loop_low)
  qed
qed

lemma is_top_unique: "is_top side m r \<Longrightarrow> is_top side m r' \<Longrightarrow> r = r'"
  unfolding is_top_def by (metis linorder_neqE_nat neq0_conv not_less_zero)

lemma is_low_unique: "is_low side p m r \<Longrightarrow> is_low side p m r' \<Longrightarrow> r = r'"
  unfolding is_low_def by (metis linorder_neqE_nat)


text \<open>A level with \<open>2 ^ 31\<close> shares is negative as a signed lane, so a block scan skips it.\<close>

definition heavy_level :: price_level where
  "heavy_level = \<lparr>pl_shares = 0x80000000, pl_orders = 1\<rparr>"

definition heavy_book :: order_book where
  "heavy_book = (new_book 11)\<lparr>ob_bid := (replicate 11 no_level)[5 := heavy_level]\<rparr>"

lemma vector_scan_skips_heavy_level:
  "snd (scan_down heavy_book 9) = 5 \<and> snd (scan_down_vec heavy_book 9) = 0"
proof -
  have max: "ob_max_price heavy_book = 10" by (simp add: heavy_book_def new_book_def)
  have bid: "ob_bid heavy_book ! p = (if p = 5 then heavy_level else no_level)" if "p < 11" for p
    using that by (simp add: heavy_book_def nth_list_update)
  have start: "unat (scan_down_start 10 9) = 9" by (simp add: scan_down_start_def)
  have "is_top (ob_bid heavy_book) 9 5" by (auto simp: is_top_def bid heavy_level_def no_level_def)
  then have "fst (scan_down_loop (ob_bid heavy_book) 9 n) = 5" for n
    using is_top_unique [OF scan_down_loop_top] by blast
  moreover have "\<not> 0 <s (0x80000000 :: u32)" by (simp add: word_sless_alt)
  then have "\<not> mask_set (cmpgt_zero (map (\<lambda>l. pl_shares (ob_bid heavy_book ! (9 - l))) [0..<8]))"
    by (auto simp: mask_set_def cmpgt_zero_def bid heavy_level_def no_level_def)
  then have "scan_down_vec_loop (ob_bid heavy_book) 9 n = scan_down_loop (ob_bid heavy_book) 1 (n + 8)" for n
    by (simp add: scan_down_vec_loop.simps [of _ 9] scan_down_vec_loop.simps [of _ "Suc 0"] Let_def)
  moreover have "fst (scan_down_loop (ob_bid heavy_book) 1 n) = 0" for n
    using bid [of 1] by (simp add: One_nat_def no_level_def)
  ultimately show ?thesis
    by (simp add: scan_down_def scan_down_vec_def max start split_def)
qed

text \<open>A book of 20 prices, so that the scan from 19 reads blocks of eight levels before it finds 5.\<close>

definition wide_book :: order_book where
  "wide_book = (new_book 20)\<lparr>ob_bid := (replicate 20 no_level)[5 := \<lparr>pl_shares = 7, pl_orders = 1\<rparr>]\<rparr>"

lemma wide_scan: "snd (scan_down wide_book 19) = 5"
  by code_simp


end
