(* ===== verification/BookEngine.thy ===== *)
theory BookEngine
  imports OrderStore OrderBook
begin

text \<open>
  The book engine of \<^verbatim>\<open>sw/book/order_book.hpp\<close> (class \<open>BookEngine\<close>): the order-reference
  table and one book per stock locate, driven by decoded messages. A handler returns the new
  engine, the locate of the book it hands back (\<open>None\<close> for a null pointer) and the execution
  report; the outer \<open>None\<close> is a call that does not return, which only the deletion loop of
  the reference table can cause.
\<close>

datatype apply_status =
    Ignored | Applied | InvalidEvent | DuplicateReference | MissingReference
  | ReferenceTableFull | ResyncRequired

record counters =
  ctr_add :: u64
  ctr_exec :: u64
  ctr_cancel :: u64
  ctr_del :: u64
  ctr_replace :: u64
  ctr_trade :: u64
  ctr_sys :: u64
  ctr_invalid :: u64
  ctr_duplicate_ref :: u64
  ctr_missing_ref :: u64
  ctr_ref_insert_fail :: u64
  ctr_resync_required :: u64

definition no_counters :: counters where
  "no_counters =
     \<lparr>ctr_add = 0, ctr_exec = 0, ctr_cancel = 0, ctr_del = 0, ctr_replace = 0, ctr_trade = 0,
      ctr_sys = 0, ctr_invalid = 0, ctr_duplicate_ref = 0, ctr_missing_ref = 0,
      ctr_ref_insert_fail = 0, ctr_resync_required = 0\<rparr>"

record exec_result =
  er_contributes :: bool
  er_price :: u32
  er_shares :: u32
  er_locate :: u16

definition no_exec :: exec_result where
  "no_exec = \<lparr>er_contributes = False, er_price = 0, er_shares = 0, er_locate = 0\<rparr>"

record book_engine =
  be_price_levels :: u32
  be_refs :: ref_table
  be_books :: "u16 \<rightharpoonup> order_book"
  be_ctr :: counters
  be_status :: apply_status

definition engine_init :: "u32 \<Rightarrow> u32 \<Rightarrow> book_engine option" where
  "engine_init price_levels ref_capacity = do {
     refs \<leftarrow> table_init ref_capacity;
     Some \<lparr>be_price_levels = price_levels, be_refs = refs, be_books = Map.empty,
           be_ctr = no_counters, be_status = Ignored\<rparr>
   }"

text \<open>An engine, the book handed back and the execution report.\<close>

type_synonym outcome = "book_engine \<times> u16 option \<times> exec_result"

definition count :: "(counters \<Rightarrow> counters) \<Rightarrow> book_engine \<Rightarrow> book_engine" where
  "count f e = e\<lparr>be_ctr := f (be_ctr e)\<rparr>"

definition reject :: "apply_status \<Rightarrow> book_engine \<Rightarrow> outcome" where
  "reject status e =
     (let e1 = e\<lparr>be_status := status\<rparr>
      in (case status of
            InvalidEvent \<Rightarrow> count (\<lambda>c. c\<lparr>ctr_invalid := ctr_invalid c + 1\<rparr>) e1
          | DuplicateReference \<Rightarrow> count (\<lambda>c. c\<lparr>ctr_duplicate_ref := ctr_duplicate_ref c + 1\<rparr>) e1
          | MissingReference \<Rightarrow> count (\<lambda>c. c\<lparr>ctr_missing_ref := ctr_missing_ref c + 1\<rparr>) e1
          | ReferenceTableFull \<Rightarrow> count (\<lambda>c. c\<lparr>ctr_ref_insert_fail := ctr_ref_insert_fail c + 1\<rparr>) e1
          | ResyncRequired \<Rightarrow> count (\<lambda>c. c\<lparr>ctr_resync_required := ctr_resync_required c + 1\<rparr>) e1
          | _ \<Rightarrow> e1,
          None, no_exec))"

definition get_or_make :: "u16 \<Rightarrow> book_engine \<Rightarrow> book_engine \<times> order_book" where
  "get_or_make locate e =
     (case be_books e locate of
        Some b \<Rightarrow> (e, b)
      | None \<Rightarrow>
          (let b = new_book (be_price_levels e)
           in (e\<lparr>be_books := (be_books e)(locate \<mapsto> b)\<rparr>, b)))"

text \<open>A book is mutated in place; the engine's entry for its locate is the new book.\<close>

definition put_book :: "u16 \<Rightarrow> order_book \<Rightarrow> book_engine \<Rightarrow> book_engine" where
  "put_book locate b e = e\<lparr>be_books := (be_books e)(locate \<mapsto> b)\<rparr>"

definition applied :: "u16 \<Rightarrow> exec_result \<Rightarrow> book_engine \<Rightarrow> outcome" where
  "applied locate out e = (e\<lparr>be_status := Applied\<rparr>, Some locate, out)"

definition order_at :: "decoded_message \<Rightarrow> u16 \<Rightarrow> u8 \<Rightarrow> order_value" where
  "order_at m locate side =
     \<lparr>ov_price = dm_price m, ov_shares = dm_shares m, ov_locate = locate, ov_side = side, ov_pad = 0\<rparr>"

definition on_add :: "decoded_message \<Rightarrow> book_engine \<Rightarrow> outcome option" where
  "on_add m e0 =
     (let e = count (\<lambda>c. c\<lparr>ctr_add := ctr_add c + 1\<rparr>) e0
      in if dm_side m \<noteq> SIDE_BUY \<and> dm_side m \<noteq> SIDE_SELL \<or> dm_order_ref m = 0 \<or> dm_stock_locate m = 0 \<or>
            dm_price m = 0 \<or> dm_price m \<ge> be_price_levels e \<or> dm_shares m = 0
         then Some (reject InvalidEvent e)
         else if table_find (be_refs e) (dm_order_ref m) \<noteq> None
         then Some (reject DuplicateReference e)
         else case get_or_make (dm_stock_locate m) e of (e1, b) \<Rightarrow>
           if \<not> can_add b (dm_side m) (dm_price m) (dm_shares m)
           then Some (reject InvalidEvent e1)
           else case table_insert (dm_order_ref m) (order_at m (dm_stock_locate m) (dm_side m)) (be_refs e1) of
             (refs, ok) \<Rightarrow>
               (let e2 = e1\<lparr>be_refs := refs\<rparr>
                in if \<not> ok then Some (reject ReferenceTableFull e2)
                   else case book_add (dm_side m) (dm_price m) (dm_shares m) b of (b', added) \<Rightarrow>
                     (let e3 = put_book (dm_stock_locate m) b' e2
                      in if \<not> added
                         then do {
                           (refs', _) \<leftarrow> table_erase (dm_order_ref m) (be_refs e3);
                           Some (reject ResyncRequired (e3\<lparr>be_refs := refs'\<rparr>))
                         }
                         else Some (applied (dm_stock_locate m) no_exec e3))))"

definition on_reduce :: "decoded_message \<Rightarrow> bool \<Rightarrow> book_engine \<Rightarrow> outcome option" where
  "on_reduce m is_exec e0 =
     (let e = (if is_exec then count (\<lambda>c. c\<lparr>ctr_exec := ctr_exec c + 1\<rparr>) e0
               else count (\<lambda>c. c\<lparr>ctr_cancel := ctr_cancel c + 1\<rparr>) e0)
      in if dm_order_ref m = 0 \<or> dm_shares m = 0 then Some (reject InvalidEvent e)
         else case table_find (be_refs e) (dm_order_ref m) of
           None \<Rightarrow> Some (reject MissingReference e)
         | Some v \<Rightarrow>
             if dm_shares m > ov_shares v then Some (reject InvalidEvent e)
             else (let quantity = dm_shares m
                   in case get_or_make (ov_locate v) e of (e1, b) \<Rightarrow>
                     (let printable = (if dm_type m = OrderExecutedPrice then dm_printable m \<noteq> 0 else True);
                          exec_px = (if dm_type m = OrderExecutedPrice then dm_price m else ov_price v);
                          locate = ov_locate v;
                          will_be_gone = (ov_shares v = quantity)
                      in case book_remove (ov_side v) (ov_price v) quantity will_be_gone b of (b', removed) \<Rightarrow>
                        (let e2 = put_book locate b' e1
                         in if \<not> removed then Some (reject ResyncRequired e2)
                            else (let refs1 = table_modify (dm_order_ref m)
                                        (\<lambda>x. x\<lparr>ov_shares := ov_shares x - quantity\<rparr>) (be_refs e2);
                                      out = (if is_exec
                                        then \<lparr>er_contributes = printable, er_price = exec_px,
                                              er_shares = quantity, er_locate = locate\<rparr>
                                        else no_exec)
                                  in if will_be_gone
                                     then do {
                                       (refs2, _) \<leftarrow> table_erase (dm_order_ref m) refs1;
                                       Some (applied locate out (e2\<lparr>be_refs := refs2\<rparr>))
                                     }
                                     else Some (applied locate out (e2\<lparr>be_refs := refs1\<rparr>)))))))"

definition on_delete :: "decoded_message \<Rightarrow> book_engine \<Rightarrow> outcome option" where
  "on_delete m e0 =
     (let e = count (\<lambda>c. c\<lparr>ctr_del := ctr_del c + 1\<rparr>) e0
      in case table_find (be_refs e) (dm_order_ref m) of
           None \<Rightarrow> Some (reject MissingReference e)
         | Some val \<Rightarrow>
             (case get_or_make (ov_locate val) e of (e1, b) \<Rightarrow>
               (case book_remove (ov_side val) (ov_price val) (ov_shares val) True b of (b', removed) \<Rightarrow>
                 (let e2 = put_book (ov_locate val) b' e1
                  in if \<not> removed then Some (reject ResyncRequired e2)
                     else do {
                       (refs, _) \<leftarrow> table_erase (dm_order_ref m) (be_refs e2);
                       Some (applied (ov_locate val) no_exec (e2\<lparr>be_refs := refs\<rparr>))
                     }))))"

definition on_replace :: "decoded_message \<Rightarrow> book_engine \<Rightarrow> outcome option" where
  "on_replace m e0 =
     (let e = count (\<lambda>c. c\<lparr>ctr_replace := ctr_replace c + 1\<rparr>) e0
      in case table_find (be_refs e) (dm_order_ref m) of
           None \<Rightarrow> Some (reject MissingReference e)
         | Some old \<Rightarrow>
             if dm_new_order_ref m = 0 \<or> dm_new_order_ref m = dm_order_ref m \<or> dm_price m = 0 \<or>
                dm_price m \<ge> be_price_levels e \<or> dm_shares m = 0
             then Some (reject InvalidEvent e)
             else if table_find (be_refs e) (dm_new_order_ref m) \<noteq> None
             then Some (reject DuplicateReference e)
             else case get_or_make (ov_locate old) e of (e1, b) \<Rightarrow>
               if \<not> can_replace b (ov_side old) (ov_price old) (ov_shares old) (dm_price m) (dm_shares m)
               then Some (reject InvalidEvent e1)
               else do {
                 (refs1, _) \<leftarrow> table_erase (dm_order_ref m) (be_refs e1);
                 case table_insert (dm_new_order_ref m) (order_at m (ov_locate old) (ov_side old)) refs1 of
                   (refs2, ok) \<Rightarrow>
                     if \<not> ok
                     then Some (reject ReferenceTableFull
                            (e1\<lparr>be_refs := fst (table_insert (dm_order_ref m) old refs2)\<rparr>))
                     else case book_replace (ov_side old) (ov_price old) (ov_shares old)
                                  (dm_price m) (dm_shares m) b of
                       (b', replaced) \<Rightarrow>
                         (let e2 = put_book (ov_locate old) b' (e1\<lparr>be_refs := refs2\<rparr>)
                          in if \<not> replaced
                             then do {
                               (refs3, _) \<leftarrow> table_erase (dm_new_order_ref m) (be_refs e2);
                               Some (reject ResyncRequired
                                 (e2\<lparr>be_refs := fst (table_insert (dm_order_ref m) old refs3)\<rparr>))
                             }
                             else Some (applied (ov_locate old) no_exec e2))
               })"

definition apply_msg :: "decoded_message \<Rightarrow> book_engine \<Rightarrow> outcome option" where
  "apply_msg m e0 =
     (let e = e0\<lparr>be_status := Ignored\<rparr>
      in case dm_type m of
           AddOrder \<Rightarrow> on_add m e
         | AddOrderMPID \<Rightarrow> on_add m e
         | OrderExecuted \<Rightarrow> on_reduce m True e
         | OrderExecutedPrice \<Rightarrow> on_reduce m True e
         | OrderCancel \<Rightarrow> on_reduce m False e
         | OrderDelete \<Rightarrow> on_delete m e
         | OrderReplace \<Rightarrow> on_replace m e
         | Trade \<Rightarrow>
             Some ((count (\<lambda>c. c\<lparr>ctr_trade := ctr_trade c + 1\<rparr>) e)\<lparr>be_status := Applied\<rparr>, None,
               \<lparr>er_contributes = True, er_price = dm_price m, er_shares = dm_shares m,
                er_locate = dm_stock_locate m\<rparr>)
         | SystemEvent \<Rightarrow>
             Some ((count (\<lambda>c. c\<lparr>ctr_sys := ctr_sys c + 1\<rparr>) e)\<lparr>be_status := Applied\<rparr>, None, no_exec)
         | Unknown \<Rightarrow> Some (e, None, no_exec))"

end
