(* ===== verification/BookSpec.thy ===== *)
theory BookSpec
  imports BookContract BookEngine
begin

text \<open>
  The abstract book: a finite map from order references to resting orders. A price level is the
  sum over the orders that rest there, so level totals are derived and not stored. The
  specification of a message is its status and its effect on the map; the two book
  implementations are compared with it.
\<close>

type_synonym orders = "u64 \<rightharpoonup> order_value"

definition rests_at :: "order_value \<Rightarrow> u16 \<Rightarrow> u8 \<Rightarrow> u32 \<Rightarrow> bool" where
  "rests_at v loc s p \<longleftrightarrow> ov_locate v = loc \<and> ov_side v = s \<and> ov_price v = p"

definition contrib :: "(order_value \<Rightarrow> nat) \<Rightarrow> order_value \<Rightarrow> u16 \<Rightarrow> u8 \<Rightarrow> u32 \<Rightarrow> nat" where
  "contrib w v loc s p = (if rests_at v loc s p then w v else 0)"

definition level_sum :: "(order_value \<Rightarrow> nat) \<Rightarrow> orders \<Rightarrow> u16 \<Rightarrow> u8 \<Rightarrow> u32 \<Rightarrow> nat" where
  "level_sum w m loc s p = (\<Sum>r\<in>dom m. contrib w (the (m r)) loc s p)"

definition qty :: "order_value \<Rightarrow> nat" where
  "qty v = unat (ov_shares v)"

definition one :: "order_value \<Rightarrow> nat" where
  "one v = 1"

definition level_view :: "orders \<Rightarrow> u16 \<Rightarrow> u8 \<Rightarrow> u32 \<Rightarrow> nat \<times> nat" where
  "level_view m loc s p = (level_sum qty m loc s p, level_sum one m loc s p)"

lemma level_sum_empty [simp]: "level_sum w Map.empty loc s p = 0"
  by (simp add: level_sum_def)

lemma level_sum_insert:
  assumes "finite (dom m)" "m r = None"
  shows "level_sum w (m(r \<mapsto> v)) loc s p = contrib w v loc s p + level_sum w m loc s p"
proof -
  have "r \<notin> dom m" using assms(2) by auto
  then have "(\<Sum>q\<in>dom m. contrib w (the ((m(r \<mapsto> v)) q)) loc s p) = level_sum w m loc s p"
    unfolding level_sum_def by (intro sum.cong) auto
  then show ?thesis using assms \<open>r \<notin> dom m\<close> by (simp add: level_sum_def)
qed

lemma level_sum_remove:
  assumes "finite (dom m)" "m r = Some v"
  shows "level_sum w m loc s p = contrib w v loc s p + level_sum w (m(r := None)) loc s p"
proof -
  have "(m(r := None))(r \<mapsto> v) = m" using assms(2) by auto
  moreover have "finite (dom (m(r := None)))" using assms(1) by simp
  ultimately show ?thesis using level_sum_insert [of "m(r := None)" r w v loc s p] by simp
qed

lemma level_sum_update:
  assumes "finite (dom m)" "m r = Some v"
  shows "level_sum w (m(r \<mapsto> v')) loc s p = contrib w v' loc s p + level_sum w (m(r := None)) loc s p"
proof -
  have "(m(r := None))(r \<mapsto> v') = m(r \<mapsto> v')" by simp
  moreover have "finite (dom (m(r := None)))" using assms(1) by simp
  ultimately show ?thesis using level_sum_insert [of "m(r := None)" r w v' loc s p] by simp
qed

lemma level_sum_le:
  assumes "finite (dom m)" "\<And>r v. m r = Some v \<Longrightarrow> w v \<le> k"
  shows "level_sum w m loc s p \<le> card (dom m) * k"
proof -
  have "contrib w (the (m r)) loc s p \<le> k" if "r \<in> dom m" for r
    using that assms(2) by (auto simp: contrib_def)
  then have "(\<Sum>r\<in>dom m. contrib w (the (m r)) loc s p) \<le> of_nat (card (dom m)) * k"
    by (rule sum_bounded_above)
  then show ?thesis by (simp add: level_sum_def)
qed

text \<open>An order map in which every order has shares has no empty level with orders.\<close>

definition live_orders :: "orders \<Rightarrow> bool" where
  "live_orders m \<longleftrightarrow> finite (dom m) \<and> (\<forall>r v. m r = Some v \<longrightarrow> ov_shares v \<noteq> 0)"

lemma level_zero_iff:
  assumes "live_orders m"
  shows "level_sum qty m loc s p = 0 \<longleftrightarrow> level_sum one m loc s p = 0"
proof -
  have fin: "finite (dom m)" using assms by (simp add: live_orders_def)
  have "contrib qty (the (m r)) loc s p = 0 \<longleftrightarrow> contrib one (the (m r)) loc s p = 0" if "r \<in> dom m" for r
    using assms that by (auto simp: live_orders_def contrib_def qty_def one_def unat_eq_0)
  then show ?thesis using fin by (simp add: level_sum_def)
qed

lemma live_orders_remove: "live_orders m \<Longrightarrow> live_orders (m(r := None))"
  by (auto simp: live_orders_def)

lemma live_orders_insert: "live_orders m \<Longrightarrow> ov_shares v \<noteq> 0 \<Longrightarrow> live_orders (m(r \<mapsto> v))"
  by (auto simp: live_orders_def)

text \<open>Taking shares from a resting order, all of them or a part, is always allowed on its level.\<close>

lemma reduce_allowed:
  assumes live: "live_orders m" and v: "m r = Some v" and side: "is_side (ov_side v)"
    and price: "ov_price v \<noteq> 0" "ov_price v \<le> lim" and q: "q \<noteq> 0" "q \<le> ov_shares v"
  shows "remove_allowed lim (level_view m (ov_locate v)) (ov_side v) (ov_price v) q (ov_shares v = q)"
proof -
  let ?m = "m(r := None)" let ?l = "ov_locate v" let ?s = "ov_side v" let ?p = "ov_price v"
  have fin: "finite (dom m)" using live by (simp add: live_orders_def)
  have sums: "level_sum qty m ?l ?s ?p = unat (ov_shares v) + level_sum qty ?m ?l ?s ?p"
    "level_sum one m ?l ?s ?p = Suc (level_sum one ?m ?l ?s ?p)"
    using level_sum_remove [OF fin v, of qty ?l ?s ?p] level_sum_remove [OF fin v, of one ?l ?s ?p]
    by (simp_all add: contrib_def rests_at_def qty_def one_def)
  have zero: "level_sum qty ?m ?l ?s ?p = 0 \<longleftrightarrow> level_sum one ?m ?l ?s ?p = 0"
    by (rule level_zero_iff [OF live_orders_remove [OF live]])
  have le: "unat q \<le> unat (ov_shares v)" using q(2) by (simp add: word_le_nat_alt)
  have eq: "ov_shares v = q \<longleftrightarrow> unat (ov_shares v) = unat q" by (simp add: unat_inj_iff)
  show ?thesis
    unfolding remove_allowed_def level_view_def fst_conv snd_conv sums eq
    using side price q(1) le zero by auto
qed

lemma contrib_qty: "contrib qty v loc s p = (if rests_at v loc s p then unat (ov_shares v) else 0)"
  by (simp add: contrib_def qty_def)

lemma contrib_one: "contrib one v loc s p = (if rests_at v loc s p then 1 else 0)"
  by (simp add: contrib_def one_def)

subsection \<open>The specification of a message\<close>

text \<open>
  The status a message must have, from the orders alone: \<open>lv\<close> is the number of price levels
  and \<open>cap\<close> the number of order slots.
\<close>

definition bad_order :: "u32 \<Rightarrow> decoded_message \<Rightarrow> bool" where
  "bad_order lv m \<longleftrightarrow> \<not> is_side (dm_side m) \<or> dm_order_ref m = 0 \<or> dm_stock_locate m = 0 \<or>
     dm_price m = 0 \<or> dm_price m \<ge> lv \<or> dm_shares m = 0"

definition bad_replacement :: "u32 \<Rightarrow> decoded_message \<Rightarrow> bool" where
  "bad_replacement lv m \<longleftrightarrow> dm_new_order_ref m = 0 \<or> dm_new_order_ref m = dm_order_ref m \<or>
     dm_price m = 0 \<or> dm_price m \<ge> lv \<or> dm_shares m = 0"

definition headroom :: "orders \<Rightarrow> u16 \<Rightarrow> u8 \<Rightarrow> u32 \<Rightarrow> u32 \<Rightarrow> bool" where
  "headroom os loc s p q \<longleftrightarrow>
     level_sum qty os loc s p + unat q < 2 ^ 32 \<and> Suc (level_sum one os loc s p) < 2 ^ 32"

definition add_status :: "u32 \<Rightarrow> nat \<Rightarrow> orders \<Rightarrow> decoded_message \<Rightarrow> apply_status" where
  "add_status lv cap os m =
     (if bad_order lv m then InvalidEvent
      else if os (dm_order_ref m) \<noteq> None then DuplicateReference
      else if \<not> headroom os (dm_stock_locate m) (dm_side m) (dm_price m) (dm_shares m) then InvalidEvent
      else if card (dom os) = cap then ReferenceTableFull
      else Applied)"

definition reduce_status :: "orders \<Rightarrow> decoded_message \<Rightarrow> apply_status" where
  "reduce_status os m =
     (if dm_order_ref m = 0 \<or> dm_shares m = 0 then InvalidEvent
      else case os (dm_order_ref m) of
             None \<Rightarrow> MissingReference
           | Some v \<Rightarrow> if dm_shares m > ov_shares v then InvalidEvent else Applied)"

definition replace_status :: "u32 \<Rightarrow> orders \<Rightarrow> decoded_message \<Rightarrow> apply_status" where
  "replace_status lv os m =
     (case os (dm_order_ref m) of
        None \<Rightarrow> MissingReference
      | Some v \<Rightarrow>
          if bad_replacement lv m then InvalidEvent
          else if os (dm_new_order_ref m) \<noteq> None then DuplicateReference
          else if \<not> headroom (os(dm_order_ref m := None)) (ov_locate v) (ov_side v) (dm_price m) (dm_shares m)
          then InvalidEvent
          else Applied)"

definition event_status :: "u32 \<Rightarrow> nat \<Rightarrow> orders \<Rightarrow> decoded_message \<Rightarrow> apply_status" where
  "event_status lv cap os m =
     (case dm_type m of
        AddOrder \<Rightarrow> add_status lv cap os m
      | AddOrderMPID \<Rightarrow> add_status lv cap os m
      | OrderExecuted \<Rightarrow> reduce_status os m
      | OrderExecutedPrice \<Rightarrow> reduce_status os m
      | OrderCancel \<Rightarrow> reduce_status os m
      | OrderDelete \<Rightarrow> (if os (dm_order_ref m) = None then MissingReference else Applied)
      | OrderReplace \<Rightarrow> replace_status lv os m
      | Trade \<Rightarrow> Applied
      | SystemEvent \<Rightarrow> Applied
      | Unknown \<Rightarrow> Ignored)"

text \<open>The effect of an applied message on the resting orders.\<close>

definition reduce_orders :: "orders \<Rightarrow> decoded_message \<Rightarrow> orders" where
  "reduce_orders os m =
     (case os (dm_order_ref m) of
        None \<Rightarrow> os
      | Some v \<Rightarrow>
          if ov_shares v = dm_shares m then os(dm_order_ref m := None)
          else os(dm_order_ref m \<mapsto> v\<lparr>ov_shares := ov_shares v - dm_shares m\<rparr>))"

definition event_orders :: "orders \<Rightarrow> decoded_message \<Rightarrow> orders" where
  "event_orders os m =
     (case dm_type m of
        AddOrder \<Rightarrow> os(dm_order_ref m \<mapsto> order_at m (dm_stock_locate m) (dm_side m))
      | AddOrderMPID \<Rightarrow> os(dm_order_ref m \<mapsto> order_at m (dm_stock_locate m) (dm_side m))
      | OrderExecuted \<Rightarrow> reduce_orders os m
      | OrderExecutedPrice \<Rightarrow> reduce_orders os m
      | OrderCancel \<Rightarrow> reduce_orders os m
      | OrderDelete \<Rightarrow> os(dm_order_ref m := None)
      | OrderReplace \<Rightarrow>
          (case os (dm_order_ref m) of
             None \<Rightarrow> os
           | Some v \<Rightarrow> os(dm_order_ref m := None, dm_new_order_ref m \<mapsto> order_at m (ov_locate v) (ov_side v)))
      | _ \<Rightarrow> os)"

text \<open>The messages that delete an entry of the reference table.\<close>

definition deletes_entry :: "orders \<Rightarrow> decoded_message \<Rightarrow> bool" where
  "deletes_entry os m \<longleftrightarrow>
     dm_type m \<in> {OrderDelete, OrderReplace} \<or>
     dm_type m \<in> {OrderExecuted, OrderExecutedPrice, OrderCancel} \<and>
       map_option ov_shares (os (dm_order_ref m)) = Some (dm_shares m)"

end
