(* ===== verification/EngineRefines.thy ===== *)
theory EngineRefines
  imports BookSpec
begin

text \<open>
  The book engine refines the abstract book: the invariant ties the levels of every book to the
  orders in the reference table, and every handler then takes the branch the specification
  names and has its effect.
\<close>

definition order_ok :: "u32 \<Rightarrow> order_value \<Rightarrow> bool" where
  "order_ok lv v \<longleftrightarrow> is_side (ov_side v) \<and> ov_price v \<noteq> 0 \<and> ov_price v < lv \<and> ov_shares v \<noteq> 0"

definition orders_ok :: "u32 \<Rightarrow> orders \<Rightarrow> bool" where
  "orders_ok lv os \<longleftrightarrow> finite (dom os) \<and> (\<forall>r v. os r = Some v \<longrightarrow> order_ok lv v)"

definition book_of :: "book_engine \<Rightarrow> u16 \<Rightarrow> order_book" where
  "book_of e loc = (case be_books e loc of None \<Rightarrow> new_book (be_price_levels e) | Some b \<Rightarrow> b)"

definition book_agrees :: "u32 \<Rightarrow> orders \<Rightarrow> u16 \<Rightarrow> order_book \<Rightarrow> bool" where
  "book_agrees lv os loc b \<longleftrightarrow>
     book_inv b \<and> ob_max_price b = ob_max_price (new_book lv) \<and>
     (\<forall>s p. is_side s \<longrightarrow> book_view b s p = level_view os loc s p)"

definition engine_inv :: "book_engine \<Rightarrow> bool" where
  "engine_inv e \<longleftrightarrow>
     table_inv (be_refs e) \<and> orders_ok (be_price_levels e) (table_map (be_refs e)) \<and>
     (\<forall>loc. book_agrees (be_price_levels e) (table_map (be_refs e)) loc (book_of e loc))"

abbreviation live :: "book_engine \<Rightarrow> orders" where
  "live e \<equiv> table_map (be_refs e)"

lemma orders_ok_live: "orders_ok lv os \<Longrightarrow> live_orders os"
  by (auto simp: orders_ok_def live_orders_def order_ok_def)

lemma book_of_count [simp]: "book_of (count f e) = book_of e"
  by (simp add: book_of_def count_def fun_eq_iff split: option.splits)

lemma engine_inv_cong:
  assumes "be_refs e' = be_refs e" "be_price_levels e' = be_price_levels e" "book_of e' = book_of e"
  shows "engine_inv e' = engine_inv e"
  by (simp add: engine_inv_def assms)

lemma get_or_make_book:
  assumes "get_or_make loc e = (e1, b)"
  shows "b = book_of e loc" "book_of e1 = book_of e" "be_refs e1 = be_refs e"
    "be_price_levels e1 = be_price_levels e" "be_books e1 loc = Some b"
    "be_status e1 = be_status e" "be_ctr e1 = be_ctr e"
    "\<And>loc'. be_books e1 loc' \<noteq> None \<longleftrightarrow> be_books e loc' \<noteq> None \<or> loc' = loc"
  using assms by (auto simp: get_or_make_def book_of_def fun_eq_iff Let_def split: option.splits if_splits)

text \<open>Levels of orders: what inserting, deleting and reducing an order does to the views.\<close>

lemma same_slot_rests:
  assumes "is_side (ov_side v)" "is_side s"
  shows "ov_locate v = loc \<and> same_slot (ov_side v) (ov_price v) s p \<longleftrightarrow> rests_at v loc s p"
  using assms by (auto simp: same_slot_def rests_at_def is_side_def)

lemma level_view_insert:
  assumes fin: "finite (dom os)" "os r = None" and s: "is_side (ov_side v)" "is_side s"
  shows "level_view (os(r \<mapsto> v)) loc s p =
    (if ov_locate v = loc
     then add_view (level_view os loc) (ov_side v) (ov_price v) (ov_shares v) s p
     else level_view os loc s p)"
proof -
  have same: "ov_locate v = loc \<and> same_slot (ov_side v) (ov_price v) s p \<longleftrightarrow> rests_at v loc s p"
    using s by (rule same_slot_rests)
  show ?thesis
  proof (cases "rests_at v loc s p")
    case True
    then have "loc = ov_locate v" "s = ov_side v" "p = ov_price v" by (auto simp: rests_at_def)
    then show ?thesis
      using True by (simp add: level_view_def level_sum_insert [OF fin] contrib_qty contrib_one add_view_def)
  next
    case False
    then show ?thesis
      using same by (auto simp: level_view_def level_sum_insert [OF fin] contrib_qty contrib_one
          add_view_def view_upd_def)
  qed
qed

lemma level_view_remove:
  assumes fin: "finite (dom os)" "os r = Some v" and s: "is_side (ov_side v)" "is_side s"
  shows "level_view (os(r := None)) loc s p =
    (if ov_locate v = loc
     then remove_view (level_view os loc) (ov_side v) (ov_price v) (ov_shares v) True s p
     else level_view os loc s p)"
proof -
  have same: "ov_locate v = loc \<and> same_slot (ov_side v) (ov_price v) s p \<longleftrightarrow> rests_at v loc s p"
    using s by (rule same_slot_rests)
  show ?thesis
  proof (cases "rests_at v loc s p")
    case True
    then have "loc = ov_locate v" "s = ov_side v" "p = ov_price v" by (auto simp: rests_at_def)
    then show ?thesis
      using True by (simp add: level_view_def level_sum_remove [OF fin] contrib_qty contrib_one
          remove_view_def less_order_def)
  next
    case False
    then show ?thesis
      using same by (auto simp: level_view_def level_sum_remove [OF fin] contrib_qty contrib_one
          remove_view_def view_upd_def)
  qed
qed

lemma level_view_reduce:
  assumes fin: "finite (dom os)" "os r = Some v" and s: "is_side (ov_side v)" "is_side s"
    and q: "q \<le> ov_shares v"
  shows "level_view (os(r \<mapsto> v\<lparr>ov_shares := ov_shares v - q\<rparr>)) loc s p =
    (if ov_locate v = loc
     then remove_view (level_view os loc) (ov_side v) (ov_price v) q False s p
     else level_view os loc s p)"
proof -
  have same: "ov_locate v = loc \<and> same_slot (ov_side v) (ov_price v) s p \<longleftrightarrow> rests_at v loc s p"
    using s by (rule same_slot_rests)
  have rest: "rests_at (v\<lparr>ov_shares := x\<rparr>) loc s p = rests_at v loc s p" for x
    by (simp add: rests_at_def)
  have le: "unat q \<le> unat (ov_shares v)" using q by (simp add: word_le_nat_alt)
  show ?thesis
  proof (cases "rests_at v loc s p")
    case True
    then have "loc = ov_locate v" "s = ov_side v" "p = ov_price v" by (auto simp: rests_at_def)
    then show ?thesis
      using True rest le q
      by (simp add: level_view_def level_sum_update [OF fin] level_sum_remove [OF fin] contrib_qty contrib_one
          remove_view_def less_order_def unat_minus_le)
  next
    case False
    then show ?thesis
      using same rest
      by (auto simp: level_view_def level_sum_update [OF fin] level_sum_remove [OF fin] contrib_qty contrib_one
          remove_view_def view_upd_def)
  qed
qed

subsection \<open>One step\<close>

definition steps_to :: "book_engine \<Rightarrow> apply_status \<Rightarrow> orders \<Rightarrow> book_engine \<Rightarrow> bool" where
  "steps_to e st os e' \<longleftrightarrow>
     engine_inv e' \<and> be_status e' = st \<and> live e' = os \<and> be_price_levels e' = be_price_levels e \<and>
     rt_cap (be_refs e') = rt_cap (be_refs e)"

lemma reject_steps:
  assumes "engine_inv e" "be_refs e1 = be_refs e" "be_price_levels e1 = be_price_levels e"
    "book_of e1 = book_of e"
  shows "\<exists>e'. reject st e1 = (e', None, no_exec) \<and> steps_to e st (live e) e'"
proof -
  let ?e = "fst (reject st e1)"
  have r: "be_refs ?e = be_refs e1" "be_price_levels ?e = be_price_levels e1" "be_status ?e = st"
    "be_books ?e = be_books e1"
    by (cases st; simp add: reject_def count_def)+
  then have "book_of ?e = book_of e1" by (simp add: book_of_def fun_eq_iff split: option.splits)
  then have "engine_inv ?e" using engine_inv_cong [of ?e e] assms r by simp
  then have "steps_to e st (live e) ?e" using r assms by (simp add: steps_to_def)
  moreover have "snd (reject st e1) = (None, no_exec)" by (simp add: reject_def Let_def)
  ultimately show ?thesis by (metis prod.collapse)
qed

lemma engine_invD:
  assumes "engine_inv e"
  shows "table_inv (be_refs e)" "orders_ok (be_price_levels e) (live e)"
    "book_agrees (be_price_levels e) (live e) loc (book_of e loc)"
    "finite (dom (live e))" "live_orders (live e)"
    "card (dom (live e)) = rt_size (be_refs e)"
  using assms table_dom_card [of "be_refs e"] orders_ok_live
  by (auto simp: engine_inv_def orders_ok_def)

lemma order_okD: "orders_ok lv os \<Longrightarrow> os r = Some v \<Longrightarrow> order_ok lv v"
  by (auto simp: orders_ok_def)

lemma find_live: "engine_inv e \<Longrightarrow> table_find (be_refs e) r = live e r"
  by (simp add: table_find_map engine_invD)

lemma price_limit: "p < lv \<Longrightarrow> p \<le> ob_max_price (new_book lv)"
  using new_book_limit [of lv p] by (cases "lv = 0") auto

text \<open>Replacing one book and the table together keeps the invariant.\<close>

lemma engine_inv_put:
  assumes inv: "engine_inv e" and lv: "be_price_levels e' = be_price_levels e"
    and t: "table_inv (be_refs e')" "orders_ok (be_price_levels e) (live e')"
    and books: "book_of e' = (book_of e)(loc := b')"
    and b': "book_agrees (be_price_levels e) (live e') loc b'"
    and other: "\<And>loc' s p. loc' \<noteq> loc \<Longrightarrow> is_side s \<Longrightarrow> level_view (live e') loc' s p = level_view (live e) loc' s p"
  shows "engine_inv e'"
proof -
  have "book_agrees (be_price_levels e) (live e') loc' (book_of e' loc')" for loc'
  proof (cases "loc' = loc")
    case False
    then show ?thesis
      using engine_invD(3) [OF inv, of loc'] other [OF False] books by (simp add: book_agrees_def)
  qed (simp add: books b')
  then show ?thesis using t lv by (simp add: engine_inv_def)
qed

lemma book_of_put: "book_of (put_book loc b e) = (book_of e)(loc := b)"
  by (auto simp: book_of_def put_book_def fun_eq_iff split: option.splits)

lemma book_of_refs [simp]: "book_of (e\<lparr>be_refs := t\<rparr>) = book_of e"
  by (simp add: book_of_def fun_eq_iff split: option.splits)

lemma book_of_status [simp]: "book_of (e\<lparr>be_status := st\<rparr>) = book_of e"
  by (simp add: book_of_def fun_eq_iff split: option.splits)

lemma put_book_fields [simp]:
  "be_refs (put_book loc b e) = be_refs e" "be_price_levels (put_book loc b e) = be_price_levels e"
  by (simp_all add: put_book_def)

lemma count_fields [simp]:
  "be_refs (count f e) = be_refs e" "be_price_levels (count f e) = be_price_levels e"
  "be_books (count f e) = be_books e" "be_status (count f e) = be_status e"
  by (simp_all add: count_def)

lemma engine_inv_count [simp]: "engine_inv (count f e) = engine_inv e"
  by (rule engine_inv_cong) simp_all

lemma order_at_simps [simp]:
  "ov_price (order_at m loc s) = dm_price m" "ov_shares (order_at m loc s) = dm_shares m"
  "ov_locate (order_at m loc s) = loc" "ov_side (order_at m loc s) = s"
  by (simp_all add: order_at_def)

lemma add_allowed_cong:
  "view s p = view' s p \<Longrightarrow> add_allowed lim view s p q = add_allowed lim view' s p q"
  by (simp add: add_allowed_def)

lemma agrees_can_add:
  assumes "book_agrees lv os loc b" "is_side s" "p \<noteq> 0" "p < lv" "q \<noteq> 0"
  shows "can_add b s p q \<longleftrightarrow> headroom os loc s p q"
  using assms price_limit [OF assms(4)]
  by (simp add: book_agrees_def can_add_allowed add_allowed_def headroom_def level_view_def)

lemma agrees_add:
  assumes agree: "book_agrees lv os loc b" and can: "can_add b s p q" and s: "is_side s"
    and v: "v = \<lparr>ov_price = p, ov_shares = q, ov_locate = loc, ov_side = s, ov_pad = pad\<rparr>"
    and os: "finite (dom os)" "os r = None"
  shows "\<exists>b'. book_add s p q b = (b', True) \<and> book_agrees lv (os(r \<mapsto> v)) loc b'"
proof -
  have inv: "book_inv b" using agree by (simp add: book_agrees_def)
  obtain b' where b': "book_add s p q b = (b', True)" "book_inv b'" "ob_max_price b' = ob_max_price b"
    "book_view b' = add_view (book_view b) s p q"
    using ob.add_ok [OF inv] can can_add_allowed [OF inv] by blast
  have "book_view b' s' p' = level_view (os(r \<mapsto> v)) loc s' p'" if "is_side s'" for s' p'
    using level_view_insert [OF os, of v s' loc p'] that s agree
    by (simp add: b'(4) v book_agrees_def add_view_def view_upd_def)
  then show ?thesis using b' agree by (simp add: book_agrees_def)
qed

lemma on_add_steps:
  assumes inv: "engine_inv e"
  shows "\<exists>e' bk. on_add m e = Some (e', bk, no_exec) \<and>
    steps_to e (add_status (be_price_levels e) (rt_cap (be_refs e)) (live e) m)
      (if add_status (be_price_levels e) (rt_cap (be_refs e)) (live e) m = Applied
       then (live e)(dm_order_ref m \<mapsto> order_at m (dm_stock_locate m) (dm_side m)) else live e) e'"
proof -
  let ?c = "count (\<lambda>c. c\<lparr>ctr_add := ctr_add c + 1\<rparr>) e"
  let ?lv = "be_price_levels e" let ?r = "dm_order_ref m" let ?loc = "dm_stock_locate m"
  let ?s = "dm_side m" let ?v = "order_at m ?loc ?s"
  have bad: "(?s \<noteq> SIDE_BUY \<and> ?s \<noteq> SIDE_SELL \<or> ?r = 0 \<or> ?loc = 0 \<or> dm_price m = 0 \<or>
      dm_price m \<ge> ?lv \<or> dm_shares m = 0) = bad_order ?lv m"
    by (auto simp: bad_order_def is_side_def)
  have same: "be_refs ?c = be_refs e" "be_price_levels ?c = ?lv" "book_of ?c = book_of e" by simp_all
  have "rt_size (be_refs e) \<le> rt_cap (be_refs e)" by (rule table_size_le [OF engine_invD(1) [OF inv]])
  then have full: "card (dom (live e)) = rt_cap (be_refs e) \<longleftrightarrow> \<not> rt_size (be_refs e) < rt_cap (be_refs e)"
    using engine_invD(6) [OF inv] by auto
  note unf = on_add_def [of m e, unfolded Let_def count_fields bad find_live [OF inv]]
  obtain e1 b where mk: "get_or_make ?loc ?c = (e1, b)" by (cases "get_or_make ?loc ?c")
  note mk' = get_or_make_book [OF mk]
  consider (bad) "bad_order ?lv m" | (dup) "\<not> bad_order ?lv m" "live e ?r \<noteq> None"
    | (go) "\<not> bad_order ?lv m" "live e ?r = None" by blast
  then show ?thesis
  proof cases
    case bad
    then have "on_add m e = Some (reject InvalidEvent ?c)" by (simp add: unf)
    then show ?thesis using reject_steps [OF inv same(1,2,3), of InvalidEvent] bad by (auto simp: add_status_def)
  next
    case dup
    then have "on_add m e = Some (reject DuplicateReference ?c)" by (simp add: unf)
    then show ?thesis using reject_steps [OF inv same(1,2,3), of DuplicateReference] dup by (auto simp: add_status_def)
  next
    case go
    have f: "is_side ?s" "?r \<noteq> 0" "dm_price m \<noteq> 0" "dm_price m < ?lv" "dm_shares m \<noteq> 0"
      using go(1) by (auto simp: bad_order_def)
    have agree: "book_agrees ?lv (live e) ?loc b" using engine_invD(3) [OF inv] mk' same by simp
    have can: "can_add b ?s (dm_price m) (dm_shares m) = headroom (live e) ?loc ?s (dm_price m) (dm_shares m)"
      by (rule agrees_can_add [OF agree f(1,3,4,5)])
    have e1: "be_refs e1 = be_refs e" "be_price_levels e1 = ?lv" "book_of e1 = book_of e"
      using mk' same by simp_all
    show ?thesis
    proof (cases "can_add b ?s (dm_price m) (dm_shares m)")
      case False
      then have "on_add m e = Some (reject InvalidEvent e1)" using go by (simp add: unf mk)
      then show ?thesis
        using reject_steps [OF inv e1, of InvalidEvent] go False can by (auto simp: add_status_def)
    next
      case True
      show ?thesis
      proof (cases "rt_size (be_refs e) < rt_cap (be_refs e)")
        case False
        have "table_insert ?r ?v (be_refs e) = (be_refs e, False)"
          using refs.ins_refused [OF engine_invD(1) [OF inv]] go False full engine_invD(6) [OF inv] by simp
        then have "on_add m e = Some (reject ReferenceTableFull (e1\<lparr>be_refs := be_refs e\<rparr>))"
          using go True e1 by (simp add: unf mk)
        then show ?thesis
          using reject_steps [OF inv, of "e1\<lparr>be_refs := be_refs e\<rparr>" ReferenceTableFull] go True can False full e1
          by (auto simp: add_status_def)
      next
        case room: True
        obtain t' where t': "table_insert ?r ?v (be_refs e) = (t', True)" "table_inv t'"
          "table_map t' = (live e)(?r \<mapsto> ?v)" "rt_cap t' = rt_cap (be_refs e)"
          using refs.ins_ok [OF engine_invD(1) [OF inv] f(2)] room by blast
        obtain b' where b': "book_add ?s (dm_price m) (dm_shares m) b = (b', True)"
          "book_agrees ?lv ((live e)(?r \<mapsto> ?v)) ?loc b'"
          using agrees_add [OF agree True f(1) _ engine_invD(4) [OF inv] go(2), of ?v 0]
          by (auto simp: order_at_def)
        let ?e' = "put_book ?loc b' (e1\<lparr>be_refs := t'\<rparr>)\<lparr>be_status := Applied\<rparr>"
        have run: "on_add m e = Some (?e', Some ?loc, no_exec)"
          using go True e1 t' b' by (simp add: unf mk applied_def)
        have "order_ok ?lv ?v" using f by (simp add: order_ok_def)
        then have ok: "orders_ok ?lv ((live e)(?r \<mapsto> ?v))"
          using engine_invD(2) [OF inv] by (auto simp: orders_ok_def)
        have other: "level_view ((live e)(?r \<mapsto> ?v)) loc' s p = level_view (live e) loc' s p"
          if "loc' \<noteq> ?loc" "is_side s" for loc' s p
          using that level_view_insert [OF engine_invD(4) [OF inv] go(2), of ?v s loc' p] f(1) by simp
        have "engine_inv ?e'"
          by (rule engine_inv_put [OF inv, of _ ?loc b']) (use t' e1 ok b' other in \<open>simp_all add: book_of_put\<close>)
        then have "steps_to e Applied ((live e)(?r \<mapsto> ?v)) ?e'" using t' e1 by (simp add: steps_to_def)
        then show ?thesis using run go True can room full by (simp add: add_status_def)
      qed
    qed
  qed
qed

subsection \<open>Reducing and deleting orders\<close>

text \<open>
  The outcome of a handler against the specification: status \<open>st\<close>, orders \<open>os\<close> after an
  applied message, and \<open>del\<close> for a message that deletes an entry of the table. The call does
  not return exactly when such a message is to be applied on a full table.
\<close>

definition outcome_ok :: "book_engine \<Rightarrow> apply_status \<Rightarrow> orders \<Rightarrow> bool \<Rightarrow> outcome option \<Rightarrow> bool" where
  "outcome_ok e st os del x \<longleftrightarrow>
     (case x of
        None \<Rightarrow> st = Applied \<and> del \<and> rt_size (be_refs e) = rt_cap (be_refs e)
      | Some (e', _) \<Rightarrow>
          \<not> (st = Applied \<and> del \<and> rt_size (be_refs e) = rt_cap (be_refs e)) \<and>
          steps_to e st (if st = Applied then os else live e) e')"

definition reduced :: "orders \<Rightarrow> u64 \<Rightarrow> order_value \<Rightarrow> u32 \<Rightarrow> orders" where
  "reduced os r v q =
     (if ov_shares v = q then os(r := None) else os(r \<mapsto> v\<lparr>ov_shares := ov_shares v - q\<rparr>))"

lemma reduced_ok:
  assumes "orders_ok lv os" "os r = Some v" "q \<le> ov_shares v"
  shows "orders_ok lv (reduced os r v q)"
  using assms by (auto simp: orders_ok_def reduced_def order_ok_def)

lemma level_view_reduced:
  assumes fin: "finite (dom os)" "os r = Some v" and s: "is_side (ov_side v)" "is_side s"
    and q: "q \<le> ov_shares v"
  shows "level_view (reduced os r v q) loc s p =
    (if ov_locate v = loc
     then remove_view (level_view os loc) (ov_side v) (ov_price v) q (ov_shares v = q) s p
     else level_view os loc s p)"
  using level_view_remove [OF fin s] level_view_reduce [OF fin s q]
  by (simp add: reduced_def del: fun_upd_apply)

lemma remove_view_cong:
  "is_side s \<Longrightarrow> (\<And>s p. is_side s \<Longrightarrow> view s p = view' s p) \<Longrightarrow> is_side s' \<Longrightarrow>
   remove_view view s p q gone s' p' = remove_view view' s p q gone s' p'"
  by (simp add: remove_view_def view_upd_def)

lemma agrees_reduce:
  assumes agree: "book_agrees lv os loc b" and os: "orders_ok lv os" "os r = Some v" "ov_locate v = loc"
    and q: "q \<noteq> 0" "q \<le> ov_shares v"
  shows "\<exists>b'. book_remove (ov_side v) (ov_price v) q (ov_shares v = q) b = (b', True) \<and>
    book_agrees lv (reduced os r v q) loc b'"
proof -
  let ?g = "ov_shares v = q"
  have inv: "book_inv b" and view: "\<And>s p. is_side s \<Longrightarrow> book_view b s p = level_view os loc s p"
    and lim: "ob_max_price b = ob_max_price (new_book lv)"
    using agree by (simp_all add: book_agrees_def)
  have v: "is_side (ov_side v)" "ov_price v \<noteq> 0" "ov_price v \<le> ob_max_price b"
    using order_okD [OF os(1,2)] price_limit by (auto simp: order_ok_def lim)
  have fin: "finite (dom os)" using os(1) by (simp add: orders_ok_def)
  have "remove_allowed (ob_max_price b) (level_view os loc) (ov_side v) (ov_price v) q ?g"
    using reduce_allowed [OF orders_ok_live [OF os(1)] os(2) v q] os(3) by simp
  then have "remove_allowed (ob_max_price b) (book_view b) (ov_side v) (ov_price v) q ?g"
    using view [OF v(1)] by (simp add: remove_allowed_def)
  then obtain b' where b': "book_remove (ov_side v) (ov_price v) q ?g b = (b', True)" "book_inv b'"
    "ob_max_price b' = ob_max_price b" "book_view b' = remove_view (book_view b) (ov_side v) (ov_price v) q ?g"
    using ob.remove_ok [OF inv] by blast
  have "book_view b' s p = level_view (reduced os r v q) loc s p" if "is_side s" for s p
    using level_view_reduced [OF fin os(2) v(1) that q(2), of loc p]
      remove_view_cong [OF v(1) view that] os(3) by (simp add: b'(4))
  then show ?thesis using b' lim by (simp add: book_agrees_def)
qed

text \<open>The state after the removal and the table update is well formed again.\<close>

lemma engine_inv_reduced:
  assumes inv: "engine_inv e" and v: "live e r = Some v" and q: "q \<le> ov_shares v"
    and t': "table_inv t'" "table_map t' = reduced (live e) r v q" "rt_cap t' = rt_cap (be_refs e)"
    and b': "book_agrees (be_price_levels e) (reduced (live e) r v q) (ov_locate v) b'"
    and e1: "be_price_levels e1 = be_price_levels e" "book_of e1 = book_of e"
  shows "steps_to e Applied (reduced (live e) r v q)
    (fst (applied (ov_locate v) out (put_book (ov_locate v) b' e1\<lparr>be_refs := t'\<rparr>)))"
proof -
  let ?e' = "put_book (ov_locate v) b' e1\<lparr>be_refs := t', be_status := Applied\<rparr>"
  have side: "is_side (ov_side v)" using order_okD [OF engine_invD(2) [OF inv] v] by (simp add: order_ok_def)
  have other: "level_view (reduced (live e) r v q) loc s p = level_view (live e) loc s p"
    if "loc \<noteq> ov_locate v" "is_side s" for loc s p
    using level_view_reduced [OF engine_invD(4) [OF inv] v side that(2) q, of loc p] that(1) by simp
  have "engine_inv ?e'"
    by (rule engine_inv_put [OF inv, of _ "ov_locate v" b'])
       (use t' e1 b' other reduced_ok [OF engine_invD(2) [OF inv] v q] in \<open>simp_all add: book_of_put\<close>)
  then show ?thesis using t' e1 by (simp add: steps_to_def applied_def)
qed

lemma outcome_reject:
  assumes "engine_inv e" "be_refs e1 = be_refs e" "be_price_levels e1 = be_price_levels e"
    "book_of e1 = book_of e" "st \<noteq> Applied"
  shows "outcome_ok e st os del (Some (reject st e1))"
  using reject_steps [OF assms(1-4), of st] assms(5) by (auto simp: outcome_ok_def)

lemma on_delete_ok:
  assumes inv: "engine_inv e"
  shows "outcome_ok e (if live e (dm_order_ref m) = None then MissingReference else Applied)
    ((live e)(dm_order_ref m := None)) True (on_delete m e)"
proof -
  let ?c = "count (\<lambda>c. c\<lparr>ctr_del := ctr_del c + 1\<rparr>) e" let ?r = "dm_order_ref m"
  note unf = on_delete_def [of m e, unfolded Let_def count_fields find_live [OF inv]]
  show ?thesis
  proof (cases "live e ?r")
    case None
    then show ?thesis using outcome_reject [OF inv, of ?c MissingReference] by (simp add: unf)
  next
    case (Some v)
    let ?loc = "ov_locate v"
    have ov: "order_ok (be_price_levels e) v" by (rule order_okD [OF engine_invD(2) [OF inv] Some])
    obtain e1 b where mk: "get_or_make ?loc ?c = (e1, b)" by (cases "get_or_make ?loc ?c")
    note mk' = get_or_make_book [OF mk]
    have agree: "book_agrees (be_price_levels e) (live e) ?loc b"
      using engine_invD(3) [OF inv] mk' by simp
    obtain b' where b': "book_remove (ov_side v) (ov_price v) (ov_shares v) True b = (b', True)"
      "book_agrees (be_price_levels e) (reduced (live e) ?r v (ov_shares v)) ?loc b'"
      using agrees_reduce [OF agree engine_invD(2) [OF inv] Some refl, of "ov_shares v"] ov
      by (auto simp: order_ok_def)
    have run: "on_delete m e = Option.bind (table_erase ?r (be_refs e))
        (\<lambda>(refs, _). Some (applied ?loc no_exec (put_book ?loc b' e1\<lparr>be_refs := refs\<rparr>)))"
      using Some mk mk' b' by (simp add: unf)
    show ?thesis
    proof (cases "rt_size (be_refs e) < rt_cap (be_refs e)")
      case True
      then obtain t' where t': "table_erase ?r (be_refs e) = Some (t', True)" "table_inv t'"
        "table_map t' = (live e)(?r := None)" "rt_cap t' = rt_cap (be_refs e)"
        using refs.del_ok [OF engine_invD(1) [OF inv], of ?r] Some by auto
      have "steps_to e Applied (reduced (live e) ?r v (ov_shares v))
        (fst (applied ?loc no_exec (put_book ?loc b' e1\<lparr>be_refs := t'\<rparr>)))"
        by (rule engine_inv_reduced [OF inv Some]) (use t' b' mk' in \<open>simp_all add: reduced_def\<close>)
      then show ?thesis
        using run t' True Some by (simp add: outcome_ok_def reduced_def applied_def)
    next
      case False
      then have "table_erase ?r (be_refs e) = None"
        using table_erase_cases [OF engine_invD(1) [OF inv], of ?r] Some by simp
      moreover have "rt_size (be_refs e) = rt_cap (be_refs e)"
        using False table_size_le [OF engine_invD(1) [OF inv]] by simp
      ultimately show ?thesis using run Some by (simp add: outcome_ok_def)
    qed
  qed
qed

lemma reduce_orders_Some:
  "os (dm_order_ref m) = Some v \<Longrightarrow> reduce_orders os m = reduced os (dm_order_ref m) v (dm_shares m)"
  by (simp add: reduce_orders_def reduced_def)

lemma on_reduce_ok:
  assumes inv: "engine_inv e"
  shows "outcome_ok e (reduce_status (live e) m) (reduce_orders (live e) m)
    (map_option ov_shares (live e (dm_order_ref m)) = Some (dm_shares m)) (on_reduce m is_exec e)"
proof -
  let ?c = "if is_exec then count (\<lambda>c. c\<lparr>ctr_exec := ctr_exec c + 1\<rparr>) e
            else count (\<lambda>c. c\<lparr>ctr_cancel := ctr_cancel c + 1\<rparr>) e"
  let ?r = "dm_order_ref m" let ?q = "dm_shares m"
  have same: "be_refs ?c = be_refs e" "be_price_levels ?c = be_price_levels e" "book_of ?c = book_of e"
    by simp_all
  note unf = on_reduce_def [of m is_exec e, unfolded Let_def same find_live [OF inv]]
  consider (bad) "?r = 0 \<or> ?q = 0" | (missing) "\<not> (?r = 0 \<or> ?q = 0)" "live e ?r = None"
    | (over) v where "\<not> (?r = 0 \<or> ?q = 0)" "live e ?r = Some v" "?q > ov_shares v"
    | (go) v where "\<not> (?r = 0 \<or> ?q = 0)" "live e ?r = Some v" "\<not> ?q > ov_shares v" by fastforce
  then show ?thesis
  proof cases
    case bad
    then have "on_reduce m is_exec e = Some (reject InvalidEvent ?c)" by (simp only: unf if_True)
    then show ?thesis
      using outcome_reject [OF inv same, of InvalidEvent] bad by (simp add: reduce_status_def)
  next
    case missing
    then have "on_reduce m is_exec e = Some (reject MissingReference ?c)"
      by (simp only: unf if_False option.case)
    then show ?thesis
      using outcome_reject [OF inv same, of MissingReference] missing by (simp add: reduce_status_def)
  next
    case over
    then have "on_reduce m is_exec e = Some (reject InvalidEvent ?c)"
      by (simp only: unf if_False if_True option.case)
    then show ?thesis
      using outcome_reject [OF inv same, of InvalidEvent] over by (simp add: reduce_status_def)
  next
    case go
    let ?loc = "ov_locate v" let ?os = "reduced (live e) ?r v ?q"
    have q: "?q \<noteq> 0" "?q \<le> ov_shares v" using go by auto
    have st: "reduce_status (live e) m = Applied" "reduce_orders (live e) m = ?os"
      using go by (simp_all add: reduce_status_def reduce_orders_Some)
    obtain e1 b where mk: "get_or_make ?loc ?c = (e1, b)" by (cases "get_or_make ?loc ?c")
    note mk' = get_or_make_book [OF mk, unfolded same]
    have agree: "book_agrees (be_price_levels e) (live e) ?loc b"
      using engine_invD(3) [OF inv] mk'(1) by simp
    obtain b' where b': "book_remove (ov_side v) (ov_price v) ?q (ov_shares v = ?q) b = (b', True)"
      "book_agrees (be_price_levels e) ?os ?loc b'"
      using agrees_reduce [OF agree engine_invD(2) [OF inv] go(2) refl q] by blast
    define out where "out = (if is_exec
      then \<lparr>er_contributes = (if dm_type m = OrderExecutedPrice then dm_printable m \<noteq> 0 else True),
            er_price = (if dm_type m = OrderExecutedPrice then dm_price m else ov_price v),
            er_shares = ?q, er_locate = ?loc\<rparr>
      else no_exec)"
    define t1 where "t1 = table_modify ?r (\<lambda>x. x\<lparr>ov_shares := ov_shares x - ?q\<rparr>) (be_refs e)"
    note T = engine_invD(1) [OF inv]
    have t1: "table_inv t1" "table_map t1 = (live e)(?r \<mapsto> v\<lparr>ov_shares := ov_shares v - ?q\<rparr>)"
      "rt_cap t1 = rt_cap (be_refs e)" "rt_size t1 = rt_size (be_refs e)"
      using refs.modify_ok [OF T, of ?r] refs.used_modify [OF T, of ?r] go(2) by (simp_all add: t1_def)
    have run: "on_reduce m is_exec e =
      (if ov_shares v = ?q
       then Option.bind (table_erase ?r t1)
         (\<lambda>(refs2, _). Some (applied ?loc out (put_book ?loc b' e1\<lparr>be_refs := refs2\<rparr>)))
       else Some (applied ?loc out (put_book ?loc b' e1\<lparr>be_refs := t1\<rparr>)))"
      using go mk'(3)
      by (simp only: unf if_False option.case mk prod.case b'(1) not_True_eq_False put_book_fields
          t1_def [symmetric] out_def [symmetric])
    have final: "steps_to e Applied ?os (fst (applied ?loc out (put_book ?loc b' e1\<lparr>be_refs := t'\<rparr>)))"
      if "table_inv t'" "table_map t' = ?os" "rt_cap t' = rt_cap (be_refs e)" for t'
      by (rule engine_inv_reduced [OF inv go(2) q(2) that b'(2)]) (simp_all add: mk' split: if_splits)
    show ?thesis
    proof (cases "ov_shares v = ?q")
      case partly: False
      have "table_map t1 = ?os" using t1(2) partly by (simp add: reduced_def)
      then show ?thesis
        using run partly final [of t1] t1 st go(2) by (simp add: outcome_ok_def applied_def)
    next
      case gone: True
      show ?thesis
      proof (cases "rt_size (be_refs e) < rt_cap (be_refs e)")
        case True
        then obtain t' where t': "table_erase ?r t1 = Some (t', True)" "table_inv t'"
          "table_map t' = (table_map t1)(?r := None)" "rt_cap t' = rt_cap t1"
          using refs.del_ok [OF t1(1), of ?r] t1 by auto
        have "table_map t' = ?os" using t' t1(2) gone by (simp add: reduced_def)
        then show ?thesis
          using run gone final [of t'] t' t1 st go(2) True by (simp add: outcome_ok_def applied_def)
      next
        case False
        then have "table_erase ?r t1 = None"
          using table_erase_cases [OF t1(1), of ?r] t1 by simp
        moreover have "rt_size (be_refs e) = rt_cap (be_refs e)"
          using False table_size_le [OF T] by simp
        ultimately show ?thesis using run gone st go(2) by (simp add: outcome_ok_def)
      qed
    qed
  qed
qed

subsection \<open>Replacing orders\<close>

definition replaced :: "orders \<Rightarrow> u64 \<Rightarrow> u64 \<Rightarrow> order_value \<Rightarrow> orders" where
  "replaced os r r' v' = os(r := None, r' \<mapsto> v')"

lemma replaced_ok:
  "orders_ok lv os \<Longrightarrow> order_ok lv v' \<Longrightarrow> orders_ok lv (replaced os r r' v')"
  by (auto simp: orders_ok_def replaced_def)

lemma add_view_cong:
  "is_side s \<Longrightarrow> (\<And>s p. is_side s \<Longrightarrow> view s p = view' s p) \<Longrightarrow> is_side s' \<Longrightarrow>
   add_view view s p q s' p' = add_view view' s p q s' p'"
  by (simp add: add_view_def view_upd_def)

lemma agrees_replace:
  assumes agree: "book_agrees lv os loc b" and os: "orders_ok lv os" "os r = Some v" "ov_locate v = loc"
    and new: "os r' = None" "p \<noteq> 0" "p < lv" "q \<noteq> 0"
    and v': "ov_price v' = p" "ov_shares v' = q" "ov_locate v' = loc" "ov_side v' = ov_side v"
  shows "can_replace b (ov_side v) (ov_price v) (ov_shares v) p q \<longleftrightarrow>
      headroom (os(r := None)) loc (ov_side v) p q"
    and "can_replace b (ov_side v) (ov_price v) (ov_shares v) p q \<Longrightarrow>
      \<exists>b'. book_replace (ov_side v) (ov_price v) (ov_shares v) p q b = (b', True) \<and>
        book_agrees lv (replaced os r r' v') loc b'"
proof -
  let ?s = "ov_side v" let ?V = "remove_view (book_view b) ?s (ov_price v) (ov_shares v) True"
  have inv: "book_inv b" and view: "\<And>s p. is_side s \<Longrightarrow> book_view b s p = level_view os loc s p"
    and lim: "ob_max_price b = ob_max_price (new_book lv)"
    using agree by (simp_all add: book_agrees_def)
  have ov: "order_ok lv v" by (rule order_okD [OF os(1,2)])
  then have v: "is_side ?s" "ov_price v \<noteq> 0" "ov_price v \<le> ob_max_price b" "ov_shares v \<noteq> 0"
    using price_limit by (auto simp: order_ok_def lim)
  have fin: "finite (dom os)" using os(1) by (simp add: orders_ok_def)
  have "remove_allowed (ob_max_price b) (level_view os loc) ?s (ov_price v) (ov_shares v) True"
    using reduce_allowed [OF orders_ok_live [OF os(1)] os(2) v(1-3) v(4) order_refl] os(3) by simp
  then have rem: "remove_allowed (ob_max_price b) (book_view b) ?s (ov_price v) (ov_shares v) True"
    using view [OF v(1)] by (simp add: remove_allowed_def)
  have mid: "?V s p = level_view (os(r := None)) loc s p" if "is_side s" for s p
    using level_view_remove [OF fin os(2) v(1) that, of loc p] remove_view_cong [OF v(1) view that] os(3) by simp
  have "p \<le> ob_max_price b" using price_limit [OF new(3)] lim by simp
  then show iff: "can_replace b ?s (ov_price v) (ov_shares v) p q \<longleftrightarrow> headroom (os(r := None)) loc ?s p q"
    using rem new v(1) mid [OF v(1), of p]
    by (simp add: can_replace_iff [OF inv] add_allowed_def headroom_def level_view_def)
  assume can: "can_replace b ?s (ov_price v) (ov_shares v) p q"
  obtain b' where b': "book_replace ?s (ov_price v) (ov_shares v) p q b = (b', True)" "book_inv b'"
    "ob_max_price b' = ob_max_price b" "book_view b' = add_view ?V ?s p q"
    using book_replace_ok [OF inv can] by blast
  have fin': "finite (dom (os(r := None)))" "(os(r := None)) r' = None" using fin new(1) by auto
  have "book_view b' s p' = level_view (replaced os r r' v') loc s p'" if "is_side s" for s p'
  proof -
    have "is_side (ov_side v')" using v(1) v'(4) by simp
    moreover have "add_view ?V ?s p q s p' = add_view (level_view (os(r := None)) loc) ?s p q s p'"
      by (rule add_view_cong [OF v(1) mid that])
    ultimately show ?thesis
      using level_view_insert [OF fin' _ that, of v' loc p'] v'
      by (simp add: b'(4) replaced_def del: fun_upd_apply)
  qed
  then show "\<exists>b'. book_replace ?s (ov_price v) (ov_shares v) p q b = (b', True) \<and>
      book_agrees lv (replaced os r r' v') loc b'"
    using b' lim by (simp add: book_agrees_def)
qed

lemma on_replace_ok:
  assumes inv: "engine_inv e"
  shows "outcome_ok e (replace_status (be_price_levels e) (live e) m)
    (case live e (dm_order_ref m) of None \<Rightarrow> live e
     | Some v \<Rightarrow> (live e)(dm_order_ref m := None, dm_new_order_ref m \<mapsto> order_at m (ov_locate v) (ov_side v)))
    True (on_replace m e)"
proof -
  let ?c = "count (\<lambda>c. c\<lparr>ctr_replace := ctr_replace c + 1\<rparr>) e"
  let ?r = "dm_order_ref m" let ?r' = "dm_new_order_ref m" let ?lv = "be_price_levels e"
  have bad: "(?r' = 0 \<or> ?r' = ?r \<or> dm_price m = 0 \<or> dm_price m \<ge> ?lv \<or> dm_shares m = 0) =
      bad_replacement ?lv m"
    by (simp add: bad_replacement_def)
  have same: "be_refs ?c = be_refs e" "be_price_levels ?c = ?lv" "book_of ?c = book_of e" by simp_all
  note unf = on_replace_def [of m e, unfolded Let_def same(1,2) find_live [OF inv] bad]
  show ?thesis
  proof (cases "live e ?r")
    case None
    then show ?thesis
      using outcome_reject [OF inv same, of MissingReference] by (simp add: unf replace_status_def)
  next
    case (Some v)
    let ?loc = "ov_locate v" let ?v' = "order_at m ?loc (ov_side v)"
    let ?os = "replaced (live e) ?r ?r' ?v'"
    note T = engine_invD(1) [OF inv]
    have st: "replace_status ?lv (live e) m =
      (if bad_replacement ?lv m then InvalidEvent
       else if live e ?r' \<noteq> None then DuplicateReference
       else if \<not> headroom ((live e)(?r := None)) ?loc (ov_side v) (dm_price m) (dm_shares m) then InvalidEvent
       else Applied)"
      using Some by (simp add: replace_status_def)
    obtain e1 b where mk: "get_or_make ?loc ?c = (e1, b)" by (cases "get_or_make ?loc ?c")
    note mk' = get_or_make_book [OF mk, unfolded same]
    have agree: "book_agrees ?lv (live e) ?loc b" using engine_invD(3) [OF inv] mk'(1) by simp
    consider (bad) "bad_replacement ?lv m" | (dup) "\<not> bad_replacement ?lv m" "live e ?r' \<noteq> None"
      | (go) "\<not> bad_replacement ?lv m" "live e ?r' = None" by blast
    then show ?thesis
    proof cases
      case bad
      then have "on_replace m e = Some (reject InvalidEvent ?c)" using Some by (simp only: unf option.case if_True)
      then show ?thesis using outcome_reject [OF inv same, of InvalidEvent] bad by (simp add: st)
    next
      case dup
      then have "on_replace m e = Some (reject DuplicateReference ?c)"
        using Some by (simp add: unf)
      then show ?thesis using outcome_reject [OF inv same, of DuplicateReference] dup by (simp add: st)
    next
      case go
      have f: "?r' \<noteq> 0" "dm_price m \<noteq> 0" "dm_price m < ?lv" "dm_shares m \<noteq> 0"
        using go(1) by (auto simp: bad_replacement_def)
      note ar = agrees_replace [OF agree engine_invD(2) [OF inv] Some refl go(2) f(2-4), of ?v']
      show ?thesis
      proof (cases "can_replace b (ov_side v) (ov_price v) (ov_shares v) (dm_price m) (dm_shares m)")
        case False
        then have "on_replace m e = Some (reject InvalidEvent e1)"
          using Some go by (simp add: unf mk)
        then show ?thesis
          using outcome_reject [OF inv mk'(3,4,2), of InvalidEvent] go ar(1) False by (simp add: st)
      next
        case can: True
        then have applied: "replace_status ?lv (live e) m = Applied" using go ar(1) by (simp add: st)
        obtain b' where b': "book_replace (ov_side v) (ov_price v) (ov_shares v) (dm_price m) (dm_shares m) b = (b', True)"
          "book_agrees ?lv ?os ?loc b'"
          using ar(2) can by auto
        show ?thesis
        proof (cases "rt_size (be_refs e) < rt_cap (be_refs e)")
          case False
          then have "table_erase ?r (be_refs e) = None"
            using table_erase_cases [OF T, of ?r] Some by simp
          then have "on_replace m e = None" using Some go can mk'(3) by (simp add: unf mk)
          moreover have "rt_size (be_refs e) = rt_cap (be_refs e)"
            using False table_size_le [OF T] by simp
          ultimately show ?thesis using applied by (simp add: outcome_ok_def)
        next
          case True
          obtain t1 t2 where t: "table_erase ?r (be_refs e) = Some (t1, True)"
            "table_insert ?r' ?v' t1 = (t2, True)" "table_inv t2" "table_map t2 = ?os" "rt_cap t2 = rt_cap (be_refs e)"
            using refs.swap_ok [OF T _ True f(1), of ?r ?v'] Some by (auto simp: replaced_def)
          let ?e' = "put_book ?loc b' (e1\<lparr>be_refs := t2\<rparr>)\<lparr>be_status := Applied\<rparr>"
          have run: "on_replace m e = Some (?e', Some ?loc, no_exec)"
            using Some go can mk'(3) t b' by (simp add: unf mk applied_def)
          have side: "is_side (ov_side v)" and new: "order_ok ?lv ?v'"
            using order_okD [OF engine_invD(2) [OF inv] Some] f by (simp_all add: order_ok_def)
          have other: "level_view ?os loc s p = level_view (live e) loc s p"
            if "loc \<noteq> ?loc" "is_side s" for loc s p
          proof -
            have "level_view ?os loc s p = level_view ((live e)(?r := None)) loc s p"
              using level_view_insert [of "(live e)(?r := None)" ?r' ?v' s loc p]
                engine_invD(4) [OF inv] go(2) side that by (simp add: replaced_def)
            also have "\<dots> = level_view (live e) loc s p"
              using level_view_remove [OF engine_invD(4) [OF inv] Some side that(2), of loc p] that(1) by simp
            finally show ?thesis .
          qed
          have "engine_inv ?e'"
            by (rule engine_inv_put [OF inv, of _ ?loc b'])
               (use t mk' b' other replaced_ok [OF engine_invD(2) [OF inv] new] in \<open>simp_all add: book_of_put\<close>)
          then have "steps_to e Applied ?os ?e'" using t mk' by (simp add: steps_to_def)
          then show ?thesis using run applied Some True by (simp add: outcome_ok_def replaced_def)
        qed
      qed
    qed
  qed
qed

subsection \<open>Every message\<close>

lemma apply_msg_ok:
  assumes "engine_inv e"
  shows "outcome_ok e (event_status (be_price_levels e) (rt_cap (be_refs e)) (live e) m)
    (event_orders (live e) m) (deletes_entry (live e) m) (apply_msg m e)"
proof -
  let ?e = "e\<lparr>be_status := Ignored\<rparr>"
  have inv: "engine_inv ?e" using assms by (simp add: engine_inv_cong [of ?e e])
  have shift: "outcome_ok ?e st os del x = outcome_ok e st os del x" for st os del x
    by (auto simp: outcome_ok_def steps_to_def split: option.splits)
  have same: "be_refs ?e = be_refs e" "be_price_levels ?e = be_price_levels e" by simp_all
  note ok = on_reduce_ok [OF inv, unfolded shift same, of m] on_delete_ok [OF inv, unfolded shift same, of m]
    on_replace_ok [OF inv, unfolded shift same, of m]
  have trivial: "outcome_ok e st (live e) False (Some (e', bk, er))"
    if "engine_inv e'" "be_status e' = st" "be_refs e' = be_refs e" "be_price_levels e' = be_price_levels e"
    for st e' bk er
    using that by (simp add: outcome_ok_def steps_to_def)
  have add: "outcome_ok e (add_status (be_price_levels e) (rt_cap (be_refs e)) (live e) m)
    ((live e)(dm_order_ref m \<mapsto> order_at m (dm_stock_locate m) (dm_side m))) False (on_add m ?e)"
    using on_add_steps [OF inv, of m] unfolding shift [symmetric] by (auto simp: outcome_ok_def)
  have tr: "engine_inv (count f ?e\<lparr>be_status := Applied\<rparr>)" for f
    using assms engine_inv_cong [of "count f ?e\<lparr>be_status := Applied\<rparr>" e] by simp
  note defs = apply_msg_def event_status_def event_orders_def deletes_entry_def Let_def
  show ?thesis
  proof (cases "dm_type m")
    case AddOrder
    then show ?thesis using add by (simp add: defs)
  next
    case AddOrderMPID
    then show ?thesis using add by (simp add: defs)
  next
    case OrderExecuted
    then show ?thesis using ok(1) [of True] by (simp add: defs)
  next
    case OrderExecutedPrice
    then show ?thesis using ok(1) [of True] by (simp add: defs)
  next
    case OrderCancel
    then show ?thesis using ok(1) [of False] by (simp add: defs)
  next
    case OrderDelete
    then show ?thesis using ok(2) by (simp add: defs)
  next
    case OrderReplace
    then show ?thesis using ok(3) by (simp add: defs)
  next
    case Trade
    then show ?thesis using trivial [OF tr, where st = Applied] by (simp add: defs)
  next
    case SystemEvent
    then show ?thesis using trivial [OF tr, where st = Applied] by (simp add: defs)
  next
    case Unknown
    then show ?thesis using trivial [OF inv, of Ignored] by (simp add: defs)
  qed
qed

subsection \<open>Runs\<close>

fun run_engine :: "decoded_message list \<Rightarrow> book_engine \<Rightarrow> book_engine option" where
  "run_engine [] e = Some e"
| "run_engine (m # ms) e = do { (e', _) \<leftarrow> apply_msg m e; run_engine ms e' }"

lemma engine_init_inv:
  assumes "engine_init lv cap = Some e"
  shows "engine_inv e" "live e = Map.empty" "be_price_levels e = lv" "be_books e = Map.empty"
    "unat cap \<le> rt_cap (be_refs e)" "rt_size (be_refs e) = 0" "be_status e = Ignored"
proof -
  obtain t where t: "table_init cap = Some t" "e = \<lparr>be_price_levels = lv, be_refs = t, be_books = Map.empty,
      be_ctr = no_counters, be_status = Ignored\<rparr>"
    using assms by (auto simp: engine_init_def split: Option.bind_splits)
  have "unat cap \<le> 2 ^ 31"
    using t(1) round_up_diverges [of cap] by (force simp: table_init_def not_le [symmetric])
  then obtain t' where "table_init cap = Some t'" "table_inv t'" "table_map t' = Map.empty" "rt_size t' = 0"
    "unat cap \<le> rt_cap t'" by (rule table_init_spec)
  then have i: "table_inv t" "table_map t = Map.empty" "rt_size t = 0" "unat cap \<le> rt_cap t" using t(1) by auto
  have "book_agrees lv Map.empty loc (new_book lv)" for loc
    by (simp add: book_agrees_def new_book_inv new_book_view level_view_def)
  then show "engine_inv e" "live e = Map.empty" "be_price_levels e = lv" "be_books e = Map.empty"
    "unat cap \<le> rt_cap (be_refs e)" "rt_size (be_refs e) = 0" "be_status e = Ignored"
    using i by (simp_all add: t(2) engine_inv_def orders_ok_def book_of_def)
qed

lemma apply_msg_Some:
  assumes "engine_inv e" "apply_msg m e = Some (e', bk, er)"
  shows "steps_to e (event_status (be_price_levels e) (rt_cap (be_refs e)) (live e) m)
    (if event_status (be_price_levels e) (rt_cap (be_refs e)) (live e) m = Applied
     then event_orders (live e) m else live e) e'"
  using apply_msg_ok [OF assms(1), of m] assms(2) by (simp add: outcome_ok_def)

lemma apply_msg_inv: "engine_inv e \<Longrightarrow> apply_msg m e = Some (e', bk, er) \<Longrightarrow> engine_inv e'"
  using apply_msg_Some by (simp add: steps_to_def)

lemma run_engine_inv: "engine_inv e \<Longrightarrow> run_engine ms e = Some e' \<Longrightarrow> engine_inv e'"
  by (induction ms arbitrary: e) (auto split: Option.bind_splits dest: apply_msg_inv)

end
