(* ===== verification/ReferenceBook.thy ===== *)
theory ReferenceBook
  imports "HOL-Library.RBT" Messages
begin

text \<open>
  The oracle of \<^verbatim>\<open>sw/book/reference_book.hpp\<close> (class \<open>ReferenceBook\<close>). A
  \<open>std::map\<close> is a red-black tree, kept sorted by price; an \<open>unordered_map\<close> is a map.
  The oracle validates nothing: it applies every message.
\<close>

type_synonym price_map = "(u32, u32) rbt"

record ref_order =
  ro_locate :: u16
  ro_side :: u8
  ro_price :: u32
  ro_shares :: u32

record ref_side =
  rs_shares :: price_map
  rs_orders :: price_map

record symbol_book =
  sb_bid :: ref_side
  sb_ask :: ref_side

record reference_book =
  rb_books :: "u16 \<rightharpoonup> symbol_book"
  rb_orders :: "u64 \<rightharpoonup> ref_order"

definition empty_side :: ref_side where
  "empty_side = \<lparr>rs_shares = RBT.empty, rs_orders = RBT.empty\<rparr>"

definition empty_symbol :: symbol_book where
  "empty_symbol = \<lparr>sb_bid = empty_side, sb_ask = empty_side\<rparr>"

definition empty_reference :: reference_book where
  "empty_reference = \<lparr>rb_books = Map.empty, rb_orders = Map.empty\<rparr>"

text \<open>\<open>m[price] += n\<close>: a missing key starts at 0.\<close>

definition map_plus :: "u32 \<Rightarrow> u32 \<Rightarrow> price_map \<Rightarrow> price_map" where
  "map_plus price n m =
     RBT.insert price ((case RBT.lookup m price of None \<Rightarrow> 0 | Some x \<Rightarrow> x) + n) m"

definition side_add :: "u32 \<Rightarrow> u32 \<Rightarrow> ref_side \<Rightarrow> ref_side" where
  "side_add price q s =
     s\<lparr>rs_shares := map_plus price q (rs_shares s), rs_orders := map_plus price 1 (rs_orders s)\<rparr>"

definition drop_order :: "u32 \<Rightarrow> price_map \<Rightarrow> price_map" where
  "drop_order price m =
     (case RBT.lookup m price of
        Some n \<Rightarrow> if n > 0 then RBT.insert price (n - 1) m else m
      | None \<Rightarrow> m)"

definition side_remove :: "u32 \<Rightarrow> u32 \<Rightarrow> ref_side \<Rightarrow> ref_side" where
  "side_remove price q s =
     (case RBT.lookup (rs_shares s) price of
        None \<Rightarrow> s
      | Some n \<Rightarrow>
          (let shares = RBT.insert price (n - q) (rs_shares s);
               orders = drop_order price (rs_orders s)
           in if n - q = 0
              then s\<lparr>rs_shares := RBT.delete price shares, rs_orders := RBT.delete price orders\<rparr>
              else s\<lparr>rs_shares := shares, rs_orders := orders\<rparr>))"

definition side_reduce :: "u32 \<Rightarrow> u32 \<Rightarrow> bool \<Rightarrow> ref_side \<Rightarrow> ref_side" where
  "side_reduce price q order_gone s =
     (case RBT.lookup (rs_shares s) price of
        None \<Rightarrow> s
      | Some n \<Rightarrow>
          (let shares = RBT.insert price (n - q) (rs_shares s);
               orders = (if order_gone then drop_order price (rs_orders s) else rs_orders s)
           in if n - q = 0
              then s\<lparr>rs_shares := RBT.delete price shares, rs_orders := RBT.delete price orders\<rparr>
              else s\<lparr>rs_shares := shares, rs_orders := orders\<rparr>))"

text \<open>\<open>books_[locate]\<close> creates the symbol on first use; a side is then updated in place.\<close>

definition symbol_at :: "reference_book \<Rightarrow> u16 \<Rightarrow> symbol_book" where
  "symbol_at rb loc = (case rb_books rb loc of None \<Rightarrow> empty_symbol | Some b \<Rightarrow> b)"

definition side_ref :: "symbol_book \<Rightarrow> u8 \<Rightarrow> ref_side" where
  "side_ref b side = (if side = SIDE_BUY then sb_bid b else sb_ask b)"

definition update_side :: "u16 \<Rightarrow> u8 \<Rightarrow> (ref_side \<Rightarrow> ref_side) \<Rightarrow> reference_book \<Rightarrow> reference_book" where
  "update_side loc side f rb =
     (let b = symbol_at rb loc;
          b' = (if side = SIDE_BUY then b\<lparr>sb_bid := f (sb_bid b)\<rparr> else b\<lparr>sb_ask := f (sb_ask b)\<rparr>)
      in rb\<lparr>rb_books := (rb_books rb)(loc \<mapsto> b')\<rparr>)"

definition put_order :: "u64 \<Rightarrow> ref_order \<Rightarrow> reference_book \<Rightarrow> reference_book" where
  "put_order r ord rb = rb\<lparr>rb_orders := (rb_orders rb)(r \<mapsto> ord)\<rparr>"

definition drop_ref :: "u64 \<Rightarrow> reference_book \<Rightarrow> reference_book" where
  "drop_ref r rb = rb\<lparr>rb_orders := (rb_orders rb)(r := None)\<rparr>"

definition ref_on_add :: "decoded_message \<Rightarrow> reference_book \<Rightarrow> reference_book" where
  "ref_on_add m rb =
     put_order (dm_order_ref m)
       \<lparr>ro_locate = dm_stock_locate m, ro_side = dm_side m, ro_price = dm_price m, ro_shares = dm_shares m\<rparr>
       (update_side (dm_stock_locate m) (dm_side m) (side_add (dm_price m) (dm_shares m)) rb)"

definition ref_on_exec :: "decoded_message \<Rightarrow> reference_book \<Rightarrow> reference_book" where
  "ref_on_exec m rb =
     (case rb_orders rb (dm_order_ref m) of
        None \<Rightarrow> rb
      | Some ord \<Rightarrow>
          (let ex = (if dm_shares m > ro_shares ord then ro_shares ord else dm_shares m);
               ord' = ord\<lparr>ro_shares := ro_shares ord - ex\<rparr>;
               gone = (ro_shares ord' = 0);
               rb1 = put_order (dm_order_ref m) ord' rb;
               rb2 = update_side (ro_locate ord) (ro_side ord) (side_reduce (ro_price ord) ex gone) rb1
           in if gone then drop_ref (dm_order_ref m) rb2 else rb2))"

definition ref_on_cancel :: "decoded_message \<Rightarrow> reference_book \<Rightarrow> reference_book" where
  "ref_on_cancel m rb =
     (case rb_orders rb (dm_order_ref m) of
        None \<Rightarrow> rb
      | Some ord \<Rightarrow>
          (let cx = (if dm_shares m > ro_shares ord then ro_shares ord else dm_shares m);
               ord' = ord\<lparr>ro_shares := ro_shares ord - cx\<rparr>;
               gone = (ro_shares ord' = 0);
               rb1 = put_order (dm_order_ref m) ord' rb;
               rb2 = update_side (ro_locate ord) (ro_side ord) (side_reduce (ro_price ord) cx gone) rb1
           in if gone then drop_ref (dm_order_ref m) rb2 else rb2))"

definition ref_on_delete :: "decoded_message \<Rightarrow> reference_book \<Rightarrow> reference_book" where
  "ref_on_delete m rb =
     (case rb_orders rb (dm_order_ref m) of
        None \<Rightarrow> rb
      | Some ord \<Rightarrow>
          drop_ref (dm_order_ref m)
            (update_side (ro_locate ord) (ro_side ord) (side_reduce (ro_price ord) (ro_shares ord) True) rb))"

definition ref_on_replace :: "decoded_message \<Rightarrow> reference_book \<Rightarrow> reference_book" where
  "ref_on_replace m rb =
     (case rb_orders rb (dm_order_ref m) of
        None \<Rightarrow> rb
      | Some ord \<Rightarrow>
          (let rb1 = update_side (ro_locate ord) (ro_side ord)
                 (side_reduce (ro_price ord) (ro_shares ord) True) rb;
               rb2 = drop_ref (dm_order_ref m) rb1;
               rb3 = update_side (ro_locate ord) (ro_side ord) (side_add (dm_price m) (dm_shares m)) rb2
           in put_order (dm_new_order_ref m)
                \<lparr>ro_locate = ro_locate ord, ro_side = ro_side ord, ro_price = dm_price m, ro_shares = dm_shares m\<rparr>
                rb3))"

definition ref_apply :: "decoded_message \<Rightarrow> reference_book \<Rightarrow> reference_book" where
  "ref_apply m rb =
     (case dm_type m of
        AddOrder \<Rightarrow> ref_on_add m rb
      | AddOrderMPID \<Rightarrow> ref_on_add m rb
      | OrderExecuted \<Rightarrow> ref_on_exec m rb
      | OrderExecutedPrice \<Rightarrow> ref_on_exec m rb
      | OrderCancel \<Rightarrow> ref_on_cancel m rb
      | OrderDelete \<Rightarrow> ref_on_delete m rb
      | OrderReplace \<Rightarrow> ref_on_replace m rb
      | Trade \<Rightarrow> rb
      | SystemEvent \<Rightarrow> rb
      | Unknown \<Rightarrow> rb)"

subsection \<open>Queries\<close>

definition has_symbol :: "reference_book \<Rightarrow> u16 \<Rightarrow> bool" where
  "has_symbol rb loc = (rb_books rb loc \<noteq> None)"

definition ref_best_bid :: "reference_book \<Rightarrow> u16 \<Rightarrow> u32" where
  "ref_best_bid rb loc =
     (case rb_books rb loc of
        None \<Rightarrow> 0
      | Some b \<Rightarrow> (case RBT.keys (rs_shares (sb_bid b)) of [] \<Rightarrow> 0 | ks \<Rightarrow> last ks))"

definition ref_best_ask :: "reference_book \<Rightarrow> u16 \<Rightarrow> u32" where
  "ref_best_ask rb loc =
     (case rb_books rb loc of
        None \<Rightarrow> 0
      | Some b \<Rightarrow> (case RBT.keys (rs_shares (sb_ask b)) of [] \<Rightarrow> 0 | k # ks \<Rightarrow> k))"

definition ref_bid_shares_at :: "reference_book \<Rightarrow> u16 \<Rightarrow> u32 \<Rightarrow> u32" where
  "ref_bid_shares_at rb loc price =
     (case rb_books rb loc of
        None \<Rightarrow> 0
      | Some b \<Rightarrow> (case RBT.lookup (rs_shares (sb_bid b)) price of None \<Rightarrow> 0 | Some n \<Rightarrow> n))"

definition ref_ask_shares_at :: "reference_book \<Rightarrow> u16 \<Rightarrow> u32 \<Rightarrow> u32" where
  "ref_ask_shares_at rb loc price =
     (case rb_books rb loc of
        None \<Rightarrow> 0
      | Some b \<Rightarrow> (case RBT.lookup (rs_shares (sb_ask b)) price of None \<Rightarrow> 0 | Some n \<Rightarrow> n))"

definition ref_best_bid_depth :: "reference_book \<Rightarrow> u16 \<Rightarrow> u32" where
  "ref_best_bid_depth rb loc =
     (let p = ref_best_bid rb loc in if p \<noteq> 0 then ref_bid_shares_at rb loc p else 0)"

definition ref_best_ask_depth :: "reference_book \<Rightarrow> u16 \<Rightarrow> u32" where
  "ref_best_ask_depth rb loc =
     (let p = ref_best_ask rb loc in if p \<noteq> 0 then ref_ask_shares_at rb loc p else 0)"

definition ref_live_orders :: "reference_book \<Rightarrow> nat" where
  "ref_live_orders rb = card (dom (rb_orders rb))"

end
