(* ===== verification/BookEquivalence.thy ===== *)
theory BookEquivalence
  imports EngineRefines BookProps ReferenceBook
begin

text \<open>
  The oracle implements the same abstract book. A side of the oracle holds, for every price with
  shares, the totals of the resting orders and no entry otherwise; every applied message keeps
  that relation, so on accepted messages the fast book and the oracle answer alike.
\<close>

definition entry :: "nat \<Rightarrow> nat \<Rightarrow> u32 option" where
  "entry S x = (if S = 0 then None else Some (of_nat x))"

text \<open>One side of one symbol against the totals \<open>S\<close> and order counts \<open>N\<close> per price.\<close>

definition side_agrees :: "(u32 \<Rightarrow> nat \<times> nat) \<Rightarrow> ref_side \<Rightarrow> bool" where
  "side_agrees V sd \<longleftrightarrow>
     (\<forall>p. RBT.lookup (rs_shares sd) p = entry (fst (V p)) (fst (V p)) \<and>
          RBT.lookup (rs_orders sd) p = entry (fst (V p)) (snd (V p)))"

definition to_ref :: "order_value \<Rightarrow> ref_order" where
  "to_ref v = \<lparr>ro_locate = ov_locate v, ro_side = ov_side v, ro_price = ov_price v, ro_shares = ov_shares v\<rparr>"

definition oracle_agrees :: "orders \<Rightarrow> reference_book \<Rightarrow> bool" where
  "oracle_agrees os rb \<longleftrightarrow>
     rb_orders rb = (\<lambda>r. map_option to_ref (os r)) \<and>
     (\<forall>loc s. is_side s \<longrightarrow> side_agrees (level_view os loc s) (side_ref (symbol_at rb loc) s))"

text \<open>Counters of a level fit in 32 bits, and a level has shares exactly if it has orders.\<close>

definition counts_ok :: "(u32 \<Rightarrow> nat \<times> nat) \<Rightarrow> bool" where
  "counts_ok V \<longleftrightarrow> (\<forall>p. fst (V p) < 2 ^ 32 \<and> snd (V p) < 2 ^ 32 \<and> (fst (V p) = 0 \<longleftrightarrow> snd (V p) = 0))"

lemma of_nat_u32_eq_0: "n < 2 ^ 32 \<Longrightarrow> (of_nat n :: u32) = 0 \<longleftrightarrow> n = 0"
proof -
  assume "n < 2 ^ 32"
  then have "unat (of_nat n :: u32) = n" by (simp add: unsigned_of_nat take_bit_nat_eq_self)
  then show ?thesis using unat_eq_0 [of "of_nat n :: u32"] by simp
qed

lemma counts_okD:
  assumes "counts_ok V"
  shows "fst (V p) < 2 ^ 32" "snd (V p) < 2 ^ 32" "fst (V p) = 0 \<longleftrightarrow> snd (V p) = 0"
  using assms unfolding counts_ok_def by blast+

lemma lookup_map_plus:
  "RBT.lookup (map_plus p n m) =
     (RBT.lookup m)(p \<mapsto> (case RBT.lookup m p of None \<Rightarrow> 0 | Some x \<Rightarrow> x) + n)"
  by (simp add: map_plus_def)

lemma side_add_agrees:
  assumes agree: "side_agrees V sd" and V: "counts_ok V" and q: "q \<noteq> 0"
  shows "side_agrees (V(p := (fst (V p) + unat q, Suc (snd (V p))))) (side_add p q sd)"
proof -
  have base: "(case RBT.lookup (rs_shares sd) p of None \<Rightarrow> 0 | Some x \<Rightarrow> x) = of_nat (fst (V p))"
    "(case RBT.lookup (rs_orders sd) p of None \<Rightarrow> 0 | Some x \<Rightarrow> x) = of_nat (snd (V p))"
    using agree counts_okD(3) [OF V, of p] by (cases "fst (V p) = 0"; simp add: side_agrees_def entry_def)+
  have "0 < unat q" using q by (simp add: unat_gt_0)
  then show ?thesis
    using agree base
    by (auto simp: side_agrees_def side_add_def lookup_map_plus entry_def add.commute)
qed

lemma drop_order_lookup:
  assumes "RBT.lookup m p = Some (of_nat n)" "0 < n" "n < 2 ^ 32"
  shows "RBT.lookup (drop_order p m) = (RBT.lookup m)(p \<mapsto> of_nat (n - 1))"
proof -
  have "(of_nat n :: u32) > 0" using assms(2,3) of_nat_u32_eq_0 [of n] by (simp add: word_greater_zero_iff)
  then show ?thesis using assms by (simp add: drop_order_def of_nat_diff)
qed

lemma side_reduce_agrees:
  assumes agree: "side_agrees V sd" and V: "counts_ok V" and q: "q \<noteq> 0" "unat q \<le> fst (V p)"
    and gone: "unat q = fst (V p) \<longleftrightarrow> gone \<and> snd (V p) = 1"
  shows "side_agrees (V(p := (fst (V p) - unat q, less_order gone (snd (V p))))) (side_reduce p q gone sd)"
proof -
  let ?S = "fst (V p)" let ?N = "snd (V p)"
  have pos: "0 < ?S" "0 < ?N" and fits: "?S < 2 ^ 32" "?N < 2 ^ 32"
    using q counts_okD [OF V, of p] unat_gt_0 [of q] by simp_all
  have look: "RBT.lookup (rs_shares sd) p = Some (of_nat ?S)" "RBT.lookup (rs_orders sd) p = Some (of_nat ?N)"
    using agree pos by (auto simp: side_agrees_def entry_def)
  have sub: "of_nat ?S - q = (of_nat (?S - unat q) :: u32)" using q(2) by (simp add: of_nat_diff)
  have empty: "of_nat ?S - q = 0 \<longleftrightarrow> ?S = unat q"
    unfolding sub using of_nat_u32_eq_0 [of "?S - unat q"] fits(1) q(2) by auto
  have orders: "RBT.lookup (if gone then drop_order p (rs_orders sd) else rs_orders sd) =
      (RBT.lookup (rs_orders sd))(p \<mapsto> of_nat (less_order gone ?N))"
    using drop_order_lookup [OF look(2) pos(2) fits(2)] look(2)
    by (cases gone) (auto simp: less_order_def fun_eq_iff)
  show ?thesis
  proof (cases "?S = unat q")
    case True
    then have "side_reduce p q gone sd = sd\<lparr>rs_shares := RBT.delete p (RBT.insert p (of_nat ?S - q) (rs_shares sd)),
        rs_orders := RBT.delete p (if gone then drop_order p (rs_orders sd) else rs_orders sd)\<rparr>"
      using empty look(1) by (simp add: side_reduce_def Let_def)
    then show ?thesis
      using agree True orders by (simp add: side_agrees_def entry_def)
  next
    case False
    then have "side_reduce p q gone sd = sd\<lparr>rs_shares := RBT.insert p (of_nat ?S - q) (rs_shares sd),
        rs_orders := (if gone then drop_order p (rs_orders sd) else rs_orders sd)\<rparr>"
      using empty look(1) by (simp add: side_reduce_def Let_def)
    moreover have "?S - unat q \<noteq> 0" using False q(2) by simp
    ultimately show ?thesis
      using agree orders by (simp add: side_agrees_def entry_def sub [symmetric])
  qed
qed

subsection \<open>The oracle step by step\<close>

lemma side_ref_update:
  "side_ref (symbol_at (update_side loc s f rb) loc') s' =
     (if loc' = loc \<and> (s' = SIDE_BUY \<longleftrightarrow> s = SIDE_BUY) then f (side_ref (symbol_at rb loc) s)
      else side_ref (symbol_at rb loc') s')"
  by (auto simp: update_side_def symbol_at_def side_ref_def Let_def)

lemma symbol_at_orders [simp]:
  "symbol_at (put_order r ord rb) = symbol_at rb" "symbol_at (drop_ref r rb) = symbol_at rb"
  by (simp_all add: fun_eq_iff symbol_at_def put_order_def drop_ref_def)

lemma orders_of_update [simp]:
  "rb_orders (update_side loc s f rb) = rb_orders rb"
  "rb_orders (put_order r ord rb) = (rb_orders rb)(r \<mapsto> ord)"
  "rb_orders (drop_ref r rb) = (rb_orders rb)(r := None)"
  by (simp_all add: update_side_def put_order_def drop_ref_def Let_def)

definition levels_fit :: "orders \<Rightarrow> bool" where
  "levels_fit os \<longleftrightarrow> (\<forall>loc s. is_side s \<longrightarrow> counts_ok (level_view os loc s))"

lemma engine_levels_fit:
  assumes "engine_inv e"
  shows "levels_fit (live e)"
  unfolding levels_fit_def counts_ok_def
proof (intro allI impI)
  fix loc s p assume s: "is_side s"
  have agree: "book_agrees (be_price_levels e) (live e) loc (book_of e loc)" by (rule engine_invD [OF assms])
  then have inv: "book_inv (book_of e loc)" and v: "level_view (live e) loc s p = book_view (book_of e loc) s p"
    using s by (simp_all add: book_agrees_def)
  have "fst (book_view (book_of e loc) s p) < 2 ^ 32 \<and> snd (book_view (book_of e loc) s p) < 2 ^ 32"
    by (simp add: book_view_def side_view_def)
  then show "fst (level_view (live e) loc s p) < 2 ^ 32 \<and> snd (level_view (live e) loc s p) < 2 ^ 32 \<and>
      (fst (level_view (live e) loc s p) = 0 \<longleftrightarrow> snd (level_view (live e) loc s p) = 0)"
    using view_zero [OF inv] v by simp
qed

lemma levels_fit_remove:
  assumes fit: "levels_fit os" and live: "live_orders os" and v: "os r = Some v"
  shows "levels_fit (os(r := None))"
  unfolding levels_fit_def counts_ok_def
proof (intro allI impI)
  fix loc s p assume s: "is_side s"
  have fin: "finite (dom os)" using live by (simp add: live_orders_def)
  have "counts_ok (level_view os loc s)" using fit s by (simp add: levels_fit_def)
  from counts_okD(1,2) [OF this, of p] show
    "fst (level_view (os(r := None)) loc s p) < 2 ^ 32 \<and> snd (level_view (os(r := None)) loc s p) < 2 ^ 32 \<and>
     (fst (level_view (os(r := None)) loc s p) = 0 \<longleftrightarrow> snd (level_view (os(r := None)) loc s p) = 0)"
    using level_sum_remove [OF fin v, of qty loc s p] level_sum_remove [OF fin v, of one loc s p]
      level_zero_iff [OF live_orders_remove [OF live], of r loc s p]
    by (simp add: level_view_def)
qed

lemma oracle_add:
  assumes agree: "oracle_agrees os rb" and fit: "levels_fit os" and os: "finite (dom os)" "os r = None"
    and v: "is_side (ov_side v)" "ov_shares v \<noteq> 0"
  shows "oracle_agrees (os(r \<mapsto> v))
    (put_order r (to_ref v) (update_side (ov_locate v) (ov_side v) (side_add (ov_price v) (ov_shares v)) rb))"
  unfolding oracle_agrees_def
proof (intro conjI allI impI)
  show "rb_orders (put_order r (to_ref v) (update_side (ov_locate v) (ov_side v) (side_add (ov_price v) (ov_shares v)) rb)) =
      (\<lambda>q. map_option to_ref ((os(r \<mapsto> v)) q))"
    using agree by (auto simp: oracle_agrees_def fun_eq_iff)
  fix loc s assume s: "is_side s"
  have sides: "(s = SIDE_BUY \<longleftrightarrow> ov_side v = SIDE_BUY) \<longleftrightarrow> s = ov_side v"
    using s v(1) by (auto simp: is_side_def)
  have old: "side_agrees (level_view os loc' s') (side_ref (symbol_at rb loc') s')" "counts_ok (level_view os loc' s')"
    if "is_side s'" for loc' s'
    using agree fit that by (simp_all add: oracle_agrees_def levels_fit_def)
  have "level_view (os(r \<mapsto> v)) loc s =
    (if loc = ov_locate v \<and> s = ov_side v
     then (level_view os loc s)(ov_price v :=
       (fst (level_view os loc s (ov_price v)) + unat (ov_shares v), Suc (snd (level_view os loc s (ov_price v)))))
     else level_view os loc s)"
    using level_view_insert [OF os v(1) s, of loc] sides
    by (auto simp: fun_eq_iff add_view_def view_upd_def same_slot_def)
  then show "side_agrees (level_view (os(r \<mapsto> v)) loc s)
      (side_ref (symbol_at (put_order r (to_ref v)
        (update_side (ov_locate v) (ov_side v) (side_add (ov_price v) (ov_shares v)) rb)) loc) s)"
    using old [OF s] side_add_agrees [OF old [OF v(1)] v(2), of "ov_locate v" "ov_price v"] sides
    by (simp add: side_ref_update)
qed

lemma oracle_reduce:
  assumes agree: "oracle_agrees os rb" and fit: "levels_fit os" and ok: "orders_ok lv os"
    and v: "os r = Some v" and q: "q \<noteq> 0" "q \<le> ov_shares v"
    and rb': "rb_orders rb' = (\<lambda>x. map_option to_ref (reduced os r v q x))"
      "symbol_at rb' = symbol_at (update_side (ov_locate v) (ov_side v)
         (side_reduce (ov_price v) q (ov_shares v = q)) rb)"
  shows "oracle_agrees (reduced os r v q) rb'"
  unfolding oracle_agrees_def
proof (intro conjI allI impI rb'(1))
  let ?g = "ov_shares v = q" let ?p = "ov_price v"
  have side: "is_side (ov_side v)" and price: "ov_price v \<noteq> 0"
    using order_okD [OF ok v] by (simp_all add: order_ok_def)
  have fin: "finite (dom os)" using ok by (simp add: orders_ok_def)
  fix loc s assume s: "is_side s"
  have sides: "(s = SIDE_BUY \<longleftrightarrow> ov_side v = SIDE_BUY) \<longleftrightarrow> s = ov_side v"
    using s side by (auto simp: is_side_def)
  have old: "side_agrees (level_view os loc' s') (side_ref (symbol_at rb loc') s')" "counts_ok (level_view os loc' s')"
    if "is_side s'" for loc' s'
    using agree fit that by (simp_all add: oracle_agrees_def levels_fit_def)
  have allowed: "unat q \<le> fst (level_view os (ov_locate v) (ov_side v) ?p)"
    "unat q = fst (level_view os (ov_locate v) (ov_side v) ?p) \<longleftrightarrow>
      ?g \<and> snd (level_view os (ov_locate v) (ov_side v) ?p) = 1"
    using reduce_allowed [OF orders_ok_live [OF ok] v side price order_refl q] by (simp_all add: remove_allowed_def)
  have "level_view (reduced os r v q) loc s =
    (if loc = ov_locate v \<and> s = ov_side v
     then (level_view os loc s)(?p :=
       (fst (level_view os loc s ?p) - unat q, less_order ?g (snd (level_view os loc s ?p))))
     else level_view os loc s)"
    using level_view_reduced [OF fin v side s q(2), of loc] sides
    by (auto simp: fun_eq_iff remove_view_def view_upd_def same_slot_def)
  then show "side_agrees (level_view (reduced os r v q) loc s) (side_ref (symbol_at rb' loc) s)"
    using old [OF s] side_reduce_agrees [OF old [OF side] q(1) allowed] sides
    by (simp add: side_ref_update rb'(2))
qed

lemma to_ref_simps [simp]:
  "ro_locate (to_ref v) = ov_locate v" "ro_side (to_ref v) = ov_side v"
  "ro_price (to_ref v) = ov_price v" "ro_shares (to_ref v) = ov_shares v"
  by (simp_all add: to_ref_def)

lemma oracle_orders: "oracle_agrees os rb \<Longrightarrow> rb_orders rb r = map_option to_ref (os r)"
  by (simp add: oracle_agrees_def)

lemma oracle_on_add:
  assumes inv: "engine_inv e" and agree: "oracle_agrees (live e) rb"
    and st: "add_status (be_price_levels e) cap (live e) m = Applied"
  shows "oracle_agrees ((live e)(dm_order_ref m \<mapsto> order_at m (dm_stock_locate m) (dm_side m))) (ref_on_add m rb)"
proof -
  have f: "is_side (dm_side m)" "dm_shares m \<noteq> 0" "live e (dm_order_ref m) = None"
    using st by (auto simp: add_status_def bad_order_def split: if_splits)
  have te: "to_ref (order_at m (dm_stock_locate m) (dm_side m)) =
      \<lparr>ro_locate = dm_stock_locate m, ro_side = dm_side m, ro_price = dm_price m, ro_shares = dm_shares m\<rparr>"
    by (simp add: to_ref_def)
  show ?thesis
    using oracle_add [OF agree engine_levels_fit [OF inv] engine_invD(4) [OF inv] f(3),
        of "order_at m (dm_stock_locate m) (dm_side m)"] f
    by (simp add: ref_on_add_def te [symmetric])
qed

lemma oracle_on_reduce:
  assumes inv: "engine_inv e" and agree: "oracle_agrees (live e) rb"
    and v: "live e (dm_order_ref m) = Some v" and q: "dm_shares m \<noteq> 0" "dm_shares m \<le> ov_shares v"
  shows "oracle_agrees (reduce_orders (live e) m) (ref_on_exec m rb)"
    and "oracle_agrees (reduce_orders (live e) m) (ref_on_cancel m rb)"
proof -
  let ?r = "dm_order_ref m" let ?q = "dm_shares m"
  have ex: "\<not> ov_shares v < ?q" using q(2) by auto
  have left: "to_ref v\<lparr>ro_shares := x\<rparr> = to_ref (v\<lparr>ov_shares := x\<rparr>)" for x by (simp add: to_ref_def)
  have gone: "ov_shares v - ?q = 0 \<longleftrightarrow> ov_shares v = ?q" by simp
  have same: "ref_on_exec m rb = ref_on_cancel m rb" by (simp add: ref_on_exec_def ref_on_cancel_def)
  have sym: "symbol_at (put_order r ord rb1) = symbol_at rb1" "symbol_at (drop_ref r rb1) = symbol_at rb1"
    for r ord rb1 by simp_all
  have upd: "symbol_at (update_side l s f (put_order r ord rb1)) = symbol_at (update_side l s f rb1)"
    for l s f r ord rb1 by (auto simp: update_side_def symbol_at_def put_order_def Let_def)
  have "oracle_agrees (reduced (live e) ?r v ?q) (ref_on_exec m rb)"
  proof (rule oracle_reduce [OF agree engine_levels_fit [OF inv] engine_invD(2) [OF inv] v q])
    show "rb_orders (ref_on_exec m rb) = (\<lambda>x. map_option to_ref (reduced (live e) ?r v ?q x))"
      using oracle_orders [OF agree] v
      by (auto simp: ref_on_exec_def Let_def ex left gone reduced_def fun_eq_iff)
    show "symbol_at (ref_on_exec m rb) =
        symbol_at (update_side (ov_locate v) (ov_side v) (side_reduce (ov_price v) ?q (ov_shares v = ?q)) rb)"
      using oracle_orders [OF agree, of ?r] v
      by (simp add: ref_on_exec_def Let_def ex gone upd)
  qed
  then show "oracle_agrees (reduce_orders (live e) m) (ref_on_exec m rb)"
    "oracle_agrees (reduce_orders (live e) m) (ref_on_cancel m rb)"
    using v same by (simp_all add: reduce_orders_Some)
qed

text \<open>Deleting an order, on its own or as the first half of a replacement.\<close>

lemma oracle_drop:
  assumes inv: "engine_inv e" and agree: "oracle_agrees (live e) rb" and v: "live e r = Some v"
  shows "oracle_agrees ((live e)(r := None))
    (drop_ref r (update_side (ov_locate v) (ov_side v) (side_reduce (ov_price v) (ov_shares v) True) rb))"
proof -
  have q: "ov_shares v \<noteq> 0" using order_okD [OF engine_invD(2) [OF inv] v] by (simp add: order_ok_def)
  have "oracle_agrees (reduced (live e) r v (ov_shares v))
    (drop_ref r (update_side (ov_locate v) (ov_side v) (side_reduce (ov_price v) (ov_shares v) True) rb))"
    by (rule oracle_reduce [OF agree engine_levels_fit [OF inv] engine_invD(2) [OF inv] v q order_refl])
       (use oracle_orders [OF agree] in \<open>auto simp: reduced_def fun_eq_iff\<close>)
  then show ?thesis by (simp add: reduced_def)
qed

lemma oracle_on_replace:
  assumes inv: "engine_inv e" and agree: "oracle_agrees (live e) rb" and v: "live e (dm_order_ref m) = Some v"
    and st: "replace_status lv (live e) m = Applied"
  shows "oracle_agrees ((live e)(dm_order_ref m := None, dm_new_order_ref m \<mapsto> order_at m (ov_locate v) (ov_side v)))
    (ref_on_replace m rb)"
proof -
  let ?r = "dm_order_ref m" let ?r' = "dm_new_order_ref m" let ?os = "(live e)(?r := None)"
  let ?v' = "order_at m (ov_locate v) (ov_side v)"
  have f: "dm_shares m \<noteq> 0" "?os ?r' = None" and side: "is_side (ov_side v)"
    using st v order_okD [OF engine_invD(2) [OF inv] v]
    by (auto simp: replace_status_def bad_replacement_def order_ok_def split: if_splits)
  have fin: "finite (dom ?os)" using engine_invD(4) [OF inv] by simp
  have fit: "levels_fit ?os" by (rule levels_fit_remove [OF engine_levels_fit [OF inv] engine_invD(5) [OF inv] v])
  have te: "to_ref ?v' = \<lparr>ro_locate = ov_locate v, ro_side = ov_side v, ro_price = dm_price m, ro_shares = dm_shares m\<rparr>"
    by (simp add: to_ref_def)
  show ?thesis
    using oracle_add [OF oracle_drop [OF inv agree v] fit fin f(2), of ?v'] side f(1) oracle_orders [OF agree, of ?r] v
    by (simp add: ref_on_replace_def Let_def te [symmetric] del: fun_upd_apply)
qed

definition accepted :: "apply_status \<Rightarrow> bool" where
  "accepted st \<longleftrightarrow> st \<in> {Applied, Ignored, MissingReference}"

lemma oracle_step:
  assumes inv: "engine_inv e" and agree: "oracle_agrees (live e) rb"
    and st: "st = event_status (be_price_levels e) cap (live e) m" "accepted st"
  shows "oracle_agrees (if st = Applied then event_orders (live e) m else live e) (ref_apply m rb)"
proof -
  have add: ?thesis if t: "dm_type m = AddOrder \<or> dm_type m = AddOrderMPID"
  proof -
    have a: "add_status (be_price_levels e) cap (live e) m = Applied"
      using t st by (auto simp: event_status_def accepted_def add_status_def split: if_splits)
    have "st = Applied" using t a st(1) by (auto simp: event_status_def)
    then show ?thesis using t oracle_on_add [OF inv agree a] by (auto simp: event_orders_def ref_apply_def)
  qed
  have reduce: ?thesis
    if t: "dm_type m = OrderExecuted \<or> dm_type m = OrderExecutedPrice \<or> dm_type m = OrderCancel"
  proof -
    have r: "st = reduce_status (live e) m" "event_orders (live e) m = reduce_orders (live e) m"
      using t st(1) by (auto simp: event_status_def event_orders_def)
    show ?thesis
    proof (cases "live e (dm_order_ref m)")
      case None
      then have "st = MissingReference" "ref_apply m rb = rb"
        using r t st(2) oracle_orders [OF agree, of "dm_order_ref m"]
        by (auto simp: reduce_status_def accepted_def ref_apply_def ref_on_exec_def ref_on_cancel_def split: if_splits)
      then show ?thesis using agree by simp
    next
      case (Some v)
      then have "st = Applied" "dm_shares m \<noteq> 0" "dm_shares m \<le> ov_shares v"
        using r st(2) by (auto simp: reduce_status_def accepted_def split: if_splits)
      then show ?thesis
        using oracle_on_reduce [OF inv agree Some] t r(2) by (auto simp: ref_apply_def)
    qed
  qed
  show ?thesis
  proof (cases "dm_type m")
    case OrderDelete
    show ?thesis
    proof (cases "live e (dm_order_ref m)")
      case None
      then show ?thesis
        using OrderDelete st(1) agree oracle_orders [OF agree, of "dm_order_ref m"]
        by (simp add: event_status_def ref_apply_def ref_on_delete_def)
    next
      case (Some v)
      then show ?thesis
        using OrderDelete st(1) oracle_drop [OF inv agree Some] oracle_orders [OF agree, of "dm_order_ref m"]
        by (simp add: event_status_def event_orders_def ref_apply_def ref_on_delete_def)
    qed
  next
    case OrderReplace
    show ?thesis
    proof (cases "live e (dm_order_ref m)")
      case None
      then show ?thesis
        using OrderReplace st(1) agree oracle_orders [OF agree, of "dm_order_ref m"]
        by (simp add: event_status_def replace_status_def ref_apply_def ref_on_replace_def)
    next
      case (Some v)
      have a: "replace_status (be_price_levels e) (live e) m = Applied"
        using OrderReplace st Some by (auto simp: event_status_def accepted_def replace_status_def split: if_splits)
      then show ?thesis
        using OrderReplace st(1) Some oracle_on_replace [OF inv agree Some a]
        by (simp add: event_status_def event_orders_def ref_apply_def)
    qed
  next
    case Trade
    then show ?thesis using agree st(1) by (simp add: event_status_def event_orders_def ref_apply_def)
  next
    case SystemEvent
    then show ?thesis using agree st(1) by (simp add: event_status_def event_orders_def ref_apply_def)
  next
    case Unknown
    then show ?thesis using agree st(1) by (simp add: event_status_def ref_apply_def)
  qed (use add reduce in blast)+
qed

subsection \<open>Answers\<close>

lemma le_last: "sorted xs \<Longrightarrow> x \<in> set xs \<Longrightarrow> x \<le> last xs"
  by (induction xs) (auto split: if_splits)

lemma sorted_last_Max: "sorted xs \<Longrightarrow> xs \<noteq> [] \<Longrightarrow> last xs = Max (set xs)"
  by (rule sym, rule Max_eqI) (auto intro: le_last)

lemma sorted_hd_Min: "sorted (x # xs) \<Longrightarrow> x = Min (set (x # xs))"
  by (rule sym, rule Min_eqI) auto

lemma oracle_lookup:
  assumes inv: "engine_inv e" and agree: "oracle_agrees (live e) rb"
  shows "RBT.lookup (rs_shares (side_ref (symbol_at rb loc) SIDE_BUY)) p =
      (if bid_shares_at (book_of e loc) p = 0 then None else Some (bid_shares_at (book_of e loc) p))"
    and "RBT.lookup (rs_shares (side_ref (symbol_at rb loc) SIDE_SELL)) p =
      (if ask_shares_at (book_of e loc) p = 0 then None else Some (ask_shares_at (book_of e loc) p))"
proof -
  have b: "book_agrees (be_price_levels e) (live e) loc (book_of e loc)" by (rule engine_invD [OF inv])
  then have binv: "book_inv (book_of e loc)" by (simp add: book_agrees_def)
  have v: "fst (level_view (live e) loc SIDE_BUY p) = unat (bid_shares_at (book_of e loc) p)"
    "fst (level_view (live e) loc SIDE_SELL p) = unat (ask_shares_at (book_of e loc) p)"
    using b shares_at_view [OF binv] by (simp_all add: book_agrees_def is_side_def)
  have "side_agrees (level_view (live e) loc SIDE_BUY) (side_ref (symbol_at rb loc) SIDE_BUY)"
    "side_agrees (level_view (live e) loc SIDE_SELL) (side_ref (symbol_at rb loc) SIDE_SELL)"
    using agree by (simp_all add: oracle_agrees_def is_side_def)
  then show "RBT.lookup (rs_shares (side_ref (symbol_at rb loc) SIDE_BUY)) p =
      (if bid_shares_at (book_of e loc) p = 0 then None else Some (bid_shares_at (book_of e loc) p))"
    "RBT.lookup (rs_shares (side_ref (symbol_at rb loc) SIDE_SELL)) p =
      (if ask_shares_at (book_of e loc) p = 0 then None else Some (ask_shares_at (book_of e loc) p))"
    using v by (simp_all add: side_agrees_def entry_def unat_eq_0)
qed

definition same_answers :: "reference_book \<Rightarrow> u16 \<Rightarrow> order_book \<Rightarrow> bool" where
  "same_answers rb loc b \<longleftrightarrow>
     ref_best_bid rb loc = ob_best_bid b \<and> ref_best_ask rb loc = ob_best_ask b \<and>
     ref_best_bid_depth rb loc = best_bid_depth b \<and> ref_best_ask_depth rb loc = best_ask_depth b \<and>
     (\<forall>p. ref_bid_shares_at rb loc p = bid_shares_at b p \<and> ref_ask_shares_at rb loc p = ask_shares_at b p)"

lemma depth_at_best:
  assumes "book_inv b"
  shows "best_bid_depth b = (if ob_best_bid b \<noteq> 0 then bid_shares_at b (ob_best_bid b) else 0)"
    and "best_ask_depth b = (if ob_best_ask b \<noteq> 0 then ask_shares_at b (ob_best_ask b) else 0)"
  using book_invD(7,8) [OF assms]
  by (simp_all add: best_bid_depth_def best_ask_depth_def bid_shares_at_def ask_shares_at_def
      is_top_def is_low_def word_le_nat_alt)

lemma oracle_answers:
  assumes inv: "engine_inv e" and agree: "oracle_agrees (live e) rb"
  shows "same_answers rb loc (book_of e loc)"
proof -
  let ?b = "book_of e loc"
  let ?B = "rs_shares (side_ref (symbol_at rb loc) SIDE_BUY)"
  let ?A = "rs_shares (side_ref (symbol_at rb loc) SIDE_SELL)"
  have binv: "book_inv ?b" using engine_invD(3) [OF inv, of loc] by (simp add: book_agrees_def)
  note look = oracle_lookup [OF inv agree, of loc]
  have unf: "?B = (case rb_books rb loc of None \<Rightarrow> RBT.empty | Some b \<Rightarrow> rs_shares (sb_bid b))"
    "?A = (case rb_books rb loc of None \<Rightarrow> RBT.empty | Some b \<Rightarrow> rs_shares (sb_ask b))"
    by (simp_all add: symbol_at_def side_ref_def empty_symbol_def empty_side_def split: option.splits)
  have at: "ref_bid_shares_at rb loc p = bid_shares_at ?b p" "ref_ask_shares_at rb loc p = ask_shares_at ?b p" for p
    using look [of p] unf
    by (auto simp: ref_bid_shares_at_def ref_ask_shares_at_def split: option.splits if_splits)
  have keys: "set (RBT.keys ?B) = {p. bid_shares_at ?b p \<noteq> 0}" "set (RBT.keys ?A) = {p. ask_shares_at ?b p \<noteq> 0}"
    using look by (auto simp: RBT.lookup_keys [symmetric] dom_def split: if_splits)
  have best: "ref_best_bid rb loc = (case RBT.keys ?B of [] \<Rightarrow> 0 | ks \<Rightarrow> last ks)"
    "ref_best_ask rb loc = (case RBT.keys ?A of [] \<Rightarrow> 0 | k # ks \<Rightarrow> k)"
    using unf by (auto simp: ref_best_bid_def ref_best_ask_def split: option.splits)
  have bid: "ref_best_bid rb loc = ob_best_bid ?b"
  proof (cases "RBT.keys ?B")
    case Nil
    then show ?thesis using keys(1) best(1) best_bid_max [OF binv] by simp
  next
    case (Cons k ks)
    then have "\<not> (\<forall>p. bid_shares_at ?b p = 0)" using keys(1) by auto
    then have "ob_best_bid ?b = Max (set (RBT.keys ?B))"
      using best_bid_max [OF binv] by (simp only: keys(1) if_False)
    then show ?thesis
      using sorted_last_Max [OF RBT.sorted_keys, of ?B] Cons best(1) by simp
  qed
  have ask: "ref_best_ask rb loc = ob_best_ask ?b"
  proof (cases "RBT.keys ?A")
    case Nil
    then show ?thesis using keys(2) best(2) best_ask_min [OF binv] by simp
  next
    case (Cons k ks)
    then have "\<not> (\<forall>p. ask_shares_at ?b p = 0)" using keys(2) by auto
    then have "ob_best_ask ?b = Min (set (RBT.keys ?A))"
      using best_ask_min [OF binv] by (simp only: keys(2) if_False)
    moreover have "sorted (k # ks)" using RBT.sorted_keys [of ?A] Cons by simp
    then have "k = Min (set (RBT.keys ?A))" unfolding Cons by (rule sorted_hd_Min)
    moreover have "ref_best_ask rb loc = k" using Cons best(2) by simp
    ultimately show ?thesis by (simp only:)
  qed
  show ?thesis
    unfolding same_answers_def
    using bid ask at depth_at_best [OF binv]
    by (simp add: ref_best_bid_depth_def ref_best_ask_depth_def Let_def)
qed

text \<open>A run in which every message is applied, has no book effect or names an unknown order.\<close>

fun accepted_run :: "decoded_message list \<Rightarrow> book_engine \<Rightarrow> bool" where
  "accepted_run [] e = True"
| "accepted_run (m # ms) e =
     (case apply_msg m e of None \<Rightarrow> False | Some (e', _) \<Rightarrow> accepted (be_status e') \<and> accepted_run ms e')"

lemma oracle_run:
  assumes "engine_inv e" "oracle_agrees (live e) rb" "accepted_run ms e"
  shows "\<exists>e'. run_engine ms e = Some e' \<and> engine_inv e' \<and> oracle_agrees (live e') (fold ref_apply ms rb)"
  using assms
proof (induction ms arbitrary: e rb)
  case (Cons m ms)
  obtain e1 bk er where m: "apply_msg m e = Some (e1, bk, er)" "accepted (be_status e1)" "accepted_run ms e1"
    using Cons.prems(3) by (auto split: option.splits)
  note step = apply_msg_Some [OF Cons.prems(1) m(1)]
  have "oracle_agrees (live e1) (ref_apply m rb)"
    using oracle_step [OF Cons.prems(1,2) refl] step m(2) by (simp add: steps_to_def)
  then show ?case using Cons.IH [OF apply_msg_inv [OF Cons.prems(1) m(1)] _ m(3)] m(1) by simp
qed simp

lemma empty_oracle: "oracle_agrees Map.empty empty_reference"
  by (simp add: oracle_agrees_def empty_reference_def side_agrees_def level_view_def entry_def
      symbol_at_def side_ref_def empty_symbol_def empty_side_def)

end
