(* ===== verification/EngineProps.thy ===== *)
theory EngineProps
  imports BookEquivalence
begin

text \<open>
  The properties of the book engine: it refines the abstract order map on every message, it
  never asks for a resynchronisation, it always answers below capacity, and it agrees with the
  oracle on accepted messages.
\<close>

subsection \<open>A sample run\<close>

definition add_msg :: "u64 \<Rightarrow> u8 \<Rightarrow> u32 \<Rightarrow> u32 \<Rightarrow> decoded_message" where
  "add_msg r s p q = empty_message\<lparr>dm_type := AddOrder, dm_order_ref := r, dm_stock_locate := 1, dm_stock_idx := 1,
     dm_side := s, dm_price := p, dm_shares := q\<rparr>"

definition exec_msg :: "u64 \<Rightarrow> u32 \<Rightarrow> decoded_message" where
  "exec_msg r q = empty_message\<lparr>dm_type := OrderExecuted, dm_order_ref := r, dm_shares := q\<rparr>"

definition delete_msg :: "u64 \<Rightarrow> decoded_message" where
  "delete_msg r = empty_message\<lparr>dm_type := OrderDelete, dm_order_ref := r\<rparr>"

definition sample_engine :: book_engine where
  "sample_engine = \<lparr>be_price_levels = 10, be_refs = sample_table, be_books = Map.empty,
     be_ctr = no_counters, be_status = Ignored\<rparr>"

lemma sample_engine_inv: "engine_inv sample_engine"
  by (simp add: engine_inv_def sample_engine_def sample_table_inv sample_table_map orders_ok_def
      book_of_def book_agrees_def new_book_inv new_book_view level_view_def)

text \<open>A new engine with ten price levels and one order slot, and a run of one message.\<close>

definition one_slot_engine :: book_engine where
  "one_slot_engine = \<lparr>be_price_levels = 10,
     be_refs = \<lparr>rt_keys = [0], rt_vals = [no_value], rt_cap = 1, rt_mask = 0, rt_size = 0,
                rt_stats = no_table_stats\<rparr>,
     be_books = Map.empty, be_ctr = no_counters, be_status = Ignored\<rparr>"

lemma one_slot_init: "engine_init 10 1 = Some one_slot_engine"
  by (simp add: engine_init_def table_init_def round_up_pow2.simps one_slot_engine_def)

lemma one_slot_run:
  "\<exists>e b. run_engine [add_msg 7 SIDE_BUY 5 100] one_slot_engine = Some e \<and> be_books e 1 = Some b \<and>
     ob_best_bid b = 5 \<and> be_status e = Applied"
proof -
  have home: "home_slot 0 r = 0" for r by (simp add: home_slot_def)
  have probe: "probe_scalar_loop keys msk ref i 2 = probe_scalar_loop keys msk ref i (Suc (Suc 0))" for keys msk ref i
    by (simp add: numeral_2_eq_2)
  show ?thesis
    by (simp add: one_slot_engine_def apply_msg_def add_msg_def empty_message_def on_add_def count_def Let_def
        table_find_def find_index_def probe_scalar_def home probe layout get_or_make_def new_book_def can_add_def
        side_levels_def no_level_def table_insert_def insert_probe.simps book_add_def put_book_def applied_def
        level_add_def)
qed

lemma one_slot_accepts: "accepted_run [add_msg 7 SIDE_BUY 5 100] one_slot_engine"
  using one_slot_run by (auto simp: accepted_def split: option.splits Option.bind_splits)

subsection \<open>Refinement of the abstract order map\<close>

text \<open>
  Property C1: one message refines the abstract book. In a consistent engine every message ends
  with the status the specification computes from the resting orders alone; an applied message
  has exactly the specified effect on the orders, any other message leaves them alone; the
  engine is consistent again, so every level of every book is the sum of the orders resting
  there. The only call that does not return is an applied deletion, replacement or complete
  execution on a full reference table.
\<close>

theorem engine_refines_orders:
  assumes "engine_inv e"
  shows "let os = table_map (be_refs e);
             st = event_status (be_price_levels e) (rt_cap (be_refs e)) os m;
             hangs = (st = Applied \<and> deletes_entry os m \<and> rt_size (be_refs e) = rt_cap (be_refs e))
         in case apply_msg m e of
              None \<Rightarrow> hangs
            | Some (e', _) \<Rightarrow>
                \<not> hangs \<and> be_status e' = st \<and> engine_inv e' \<and>
                table_map (be_refs e') = (if st = Applied then event_orders os m else os)"
  using apply_msg_ok [OF assms, of m]
  by (auto simp: outcome_ok_def steps_to_def Let_def split: option.splits)

theorem engine_refines_orders_witness:
  "\<exists>e1 e2 bk er bk' er'. apply_msg (add_msg 7 SIDE_BUY 5 100) sample_engine = Some (e1, bk, er) \<and>
     be_status e1 = Applied \<and> apply_msg (delete_msg 7) e1 = Some (e2, bk', er') \<and>
     be_status e2 = Applied \<and> table_map (be_refs e2) = Map.empty"
proof -
  let ?m = "add_msg 7 SIDE_BUY 5 100"
  have os: "table_map (be_refs sample_engine) = Map.empty" "be_price_levels sample_engine = 10"
    "rt_cap (be_refs sample_engine) = 2" "rt_size (be_refs sample_engine) = 0"
    by (simp_all add: sample_engine_def sample_table_map) (simp_all add: sample_table_def)
  have st: "event_status 10 2 Map.empty ?m = Applied"
    by (simp add: event_status_def add_status_def bad_order_def headroom_def add_msg_def is_side_def)
  obtain e1 bk er where e1: "apply_msg ?m sample_engine = Some (e1, bk, er)" "be_status e1 = Applied"
    "engine_inv e1" "table_map (be_refs e1) = event_orders Map.empty ?m"
    using engine_refines_orders [OF sample_engine_inv, of ?m] os st
    by (auto simp: Let_def split: option.splits)
  have l: "table_map (be_refs e1) = [7 \<mapsto> order_at ?m 1 SIDE_BUY]"
    using e1(4) by (simp add: event_orders_def add_msg_def)
  have cap: "rt_cap (be_refs e1) = 2"
    using apply_msg_Some [OF sample_engine_inv e1(1)] os by (simp add: steps_to_def)
  have "rt_size (be_refs e1) = 1"
    using engine_invD(6) [OF e1(3)] l by simp
  then show ?thesis
    using engine_refines_orders [OF e1(3), of "delete_msg 7"] e1(1,2) cap l
    by (auto simp: Let_def event_status_def event_orders_def delete_msg_def split: option.splits)
qed

subsection \<open>Reachable engines\<close>

definition resting_prices :: "orders \<Rightarrow> u16 \<Rightarrow> u8 \<Rightarrow> u32 set" where
  "resting_prices os loc s = {ov_price v | r v. os r = Some v \<and> ov_locate v = loc \<and> ov_side v = s}"

lemma level_sum_pos:
  assumes "live_orders os"
  shows "level_sum qty os loc s p \<noteq> 0 \<longleftrightarrow> p \<in> resting_prices os loc s"
proof -
  have fin: "finite (dom os)" using assms by (simp add: live_orders_def)
  have "level_sum qty os loc s p \<noteq> 0 \<longleftrightarrow> (\<exists>r\<in>dom os. contrib qty (the (os r)) loc s p \<noteq> 0)"
    using fin by (auto simp: level_sum_def)
  also have "\<dots> \<longleftrightarrow> (\<exists>r v. os r = Some v \<and> rests_at v loc s p)"
  proof -
    have "contrib qty v loc s p \<noteq> 0 \<longleftrightarrow> rests_at v loc s p" if "os r = Some v" for r v
    proof -
      have "ov_shares v \<noteq> 0" using assms that by (simp add: live_orders_def)
      then show ?thesis by (simp add: contrib_qty unat_gt_0)
    qed
    then show ?thesis by (metis domD domI option.sel)
  qed
  also have "\<dots> \<longleftrightarrow> p \<in> resting_prices os loc s"
    by (auto simp: resting_prices_def rests_at_def)
  finally show ?thesis .
qed

lemma engine_best_prices:
  assumes inv: "engine_inv e"
  shows "ob_best_bid (book_of e loc) = (if resting_prices (live e) loc SIDE_BUY = {} then 0
      else Max (resting_prices (live e) loc SIDE_BUY))"
    and "ob_best_ask (book_of e loc) = (if resting_prices (live e) loc SIDE_SELL = {} then 0
      else Min (resting_prices (live e) loc SIDE_SELL))"
proof -
  have b: "book_agrees (be_price_levels e) (live e) loc (book_of e loc)" by (rule engine_invD [OF inv])
  then have binv: "book_inv (book_of e loc)" by (simp add: book_agrees_def)
  have "fst (book_view (book_of e loc) s p) = level_sum qty (live e) loc s p" if "is_side s" for s p
    using b that by (simp add: book_agrees_def level_view_def)
  then have "unat (bid_shares_at (book_of e loc) p) \<noteq> 0 \<longleftrightarrow> p \<in> resting_prices (live e) loc SIDE_BUY"
    "unat (ask_shares_at (book_of e loc) p) \<noteq> 0 \<longleftrightarrow> p \<in> resting_prices (live e) loc SIDE_SELL" for p
    using shares_at_view [OF binv] level_sum_pos [OF engine_invD(5) [OF inv]] by (simp_all add: is_side_def)
  then have sets: "{p. bid_shares_at (book_of e loc) p \<noteq> 0} = resting_prices (live e) loc SIDE_BUY"
    "{p. ask_shares_at (book_of e loc) p \<noteq> 0} = resting_prices (live e) loc SIDE_SELL"
    by (auto simp: unat_eq_0)
  have none: "(\<forall>p. f p = 0) \<longleftrightarrow> {p. f p \<noteq> 0} = {}" for f :: "u32 \<Rightarrow> u32" by auto
  show "ob_best_bid (book_of e loc) = (if resting_prices (live e) loc SIDE_BUY = {} then 0
      else Max (resting_prices (live e) loc SIDE_BUY))"
    using best_bid_max [OF binv] by (simp only: none sets)
  show "ob_best_ask (book_of e loc) = (if resting_prices (live e) loc SIDE_SELL = {} then 0
      else Min (resting_prices (live e) loc SIDE_SELL))"
    using best_ask_min [OF binv] by (simp only: none sets)
qed

lemma event_status_no_resync: "event_status lv cap os m \<noteq> ResyncRequired"
  by (auto simp: event_status_def add_status_def reduce_status_def replace_status_def
      split: msg_type.splits option.splits)

lemma run_engine_status:
  "engine_inv e \<Longrightarrow> be_status e \<noteq> ResyncRequired \<Longrightarrow> run_engine ms e = Some e' \<Longrightarrow> be_status e' \<noteq> ResyncRequired"
proof (induction ms arbitrary: e)
  case (Cons m ms)
  obtain e1 bk er where m: "apply_msg m e = Some (e1, bk, er)" "run_engine ms e1 = Some e'"
    using Cons.prems(3) by (auto split: Option.bind_splits)
  have "be_status e1 \<noteq> ResyncRequired"
    using apply_msg_Some [OF Cons.prems(1) m(1)] event_status_no_resync by (simp add: steps_to_def)
  then show ?case using Cons.IH [OF apply_msg_inv [OF Cons.prems(1) m(1)] _ m(2)] by simp
qed simp

text \<open>
  Property C3: reachable engines. After any message sequence on a new engine, valid or not, no
  message asked for a resynchronisation; the shares and the number of orders at every level are
  those of the orders resting there, and the best prices are the extreme prices at which an
  order rests.
\<close>

theorem engine_reachable:
  assumes "engine_init lv cap = Some e0" "run_engine ms e0 = Some e" "be_books e loc = Some b"
  shows "be_status e \<noteq> ResyncRequired \<and>
    (\<forall>s p. is_side s \<longrightarrow> book_view b s p = level_view (table_map (be_refs e)) loc s p) \<and>
    (let bids = resting_prices (table_map (be_refs e)) loc SIDE_BUY;
         asks = resting_prices (table_map (be_refs e)) loc SIDE_SELL
     in ob_best_bid b = (if bids = {} then 0 else Max bids) \<and>
        ob_best_ask b = (if asks = {} then 0 else Min asks))"
proof -
  note init = engine_init_inv [OF assms(1)]
  have inv: "engine_inv e" by (rule run_engine_inv [OF init(1) assms(2)])
  have b: "b = book_of e loc" using assms(3) by (simp add: book_of_def)
  have "be_status e \<noteq> ResyncRequired" by (rule run_engine_status [OF init(1) _ assms(2)]) (simp add: init(7))
  moreover have "book_agrees (be_price_levels e) (live e) loc b" unfolding b by (rule engine_invD [OF inv])
  ultimately show ?thesis
    unfolding Let_def b using engine_best_prices [OF inv, of loc] by (simp only: book_agrees_def b) blast
qed

theorem engine_reachable_witness:
  "\<exists>e b. engine_init 10 1 = Some one_slot_engine \<and>
     run_engine [add_msg 7 SIDE_BUY 5 100] one_slot_engine = Some e \<and> be_books e 1 = Some b \<and>
     be_status e = Applied \<and> Max (resting_prices (table_map (be_refs e)) 1 SIDE_BUY) = 5"
proof -
  obtain e b where e: "run_engine [add_msg 7 SIDE_BUY 5 100] one_slot_engine = Some e" "be_books e 1 = Some b"
    "ob_best_bid b = 5" "be_status e = Applied"
    using one_slot_run by blast
  then show ?thesis
    using engine_reachable [OF one_slot_init e(1,2)] one_slot_init by (auto simp: Let_def split: if_splits)
qed

subsection \<open>Below capacity the engine always answers\<close>

lemma event_orders_card:
  assumes "finite (dom os)"
  shows "card (dom (event_orders os m)) \<le> Suc (card (dom os))"
proof -
  have ins: "card (dom (os(r \<mapsto> v))) \<le> Suc (card (dom os))" for r v
    using assms card_insert_le_m1 [of "Suc (card (dom os))" "dom os" r] by (simp add: card_insert_if)
  have rem: "card (dom (os(r := None))) \<le> card (dom os)" for r
    using assms by (simp add: dom_fun_upd card_mono)
  have swap: "card (dom (os(r := None, r' \<mapsto> v))) \<le> Suc (card (dom os))" for r r' v
  proof -
    have "card (dom (os(r := None, r' \<mapsto> v))) \<le> Suc (card (dom (os(r := None))))"
      using assms by (simp add: dom_fun_upd card_insert_if)
    then show ?thesis using rem [of r] by linarith
  qed
  have red: "card (dom (reduce_orders os m)) \<le> Suc (card (dom os))"
    using ins le_SucI [OF rem] by (auto simp: reduce_orders_def simp del: fun_upd_apply dom_fun_upd split: option.splits)
  show ?thesis
    unfolding event_orders_def
    using ins swap red le_SucI [OF rem]
    by (auto simp del: fun_upd_apply dom_fun_upd split: msg_type.splits option.splits)
qed

lemma apply_grows:
  assumes "engine_inv e" "apply_msg m e = Some (e', bk, er)"
  shows "rt_size (be_refs e') \<le> Suc (rt_size (be_refs e))" "rt_cap (be_refs e') = rt_cap (be_refs e)"
  using apply_msg_Some [OF assms] event_orders_card [OF engine_invD(4) [OF assms(1)], of m]
    engine_invD(6) [OF assms(1)] engine_invD(6) [OF apply_msg_inv [OF assms]]
  by (auto simp: steps_to_def split: if_splits)

lemma run_engine_answers:
  "engine_inv e \<Longrightarrow> rt_size (be_refs e) + length ms \<le> rt_cap (be_refs e) \<Longrightarrow> run_engine ms e \<noteq> None"
proof (induction ms arbitrary: e)
  case (Cons m ms)
  have "apply_msg m e \<noteq> None"
    using apply_msg_ok [OF Cons.prems(1), of m] Cons.prems(2) by (auto simp: outcome_ok_def split: option.splits)
  then obtain e1 bk er where m: "apply_msg m e = Some (e1, bk, er)" by auto
  have "run_engine ms e1 \<noteq> None"
    using Cons.IH [OF apply_msg_inv [OF Cons.prems(1) m]] apply_grows [OF Cons.prems(1) m] Cons.prems(2) by simp
  then show ?case using m by simp
qed simp

text \<open>
  Property C4: below capacity the engine always answers. A new engine processes every sequence
  of at most as many messages as the requested table capacity, valid or not: no deletion loop
  of the reference table runs forever.
\<close>

theorem engine_answers_below_capacity:
  assumes "engine_init lv cap = Some e0" "length ms \<le> unat cap"
  shows "\<exists>e. run_engine ms e0 = Some e"
  using run_engine_answers [OF engine_init_inv(1) [OF assms(1)], of ms] engine_init_inv(5,6) [OF assms(1)] assms(2)
  by auto

theorem engine_answers_below_capacity_witness:
  "engine_init 10 1 = Some one_slot_engine \<and> (\<exists>e. run_engine [exec_msg 3 4] one_slot_engine = Some e)"
  using engine_answers_below_capacity [OF one_slot_init, of "[exec_msg 3 4]"] one_slot_init by simp

subsection \<open>The fast book and the oracle\<close>

lemma accepted_run_oracle:
  assumes "engine_init lv cap = Some e0" "accepted_run ms e0"
  shows "\<exists>e. run_engine ms e0 = Some e \<and>
    (let rb = fold ref_apply ms empty_reference
     in (\<forall>loc b. be_books e loc = Some b \<longrightarrow> same_answers rb loc b) \<and>
        ref_live_orders rb = rt_size (be_refs e))"
proof -
  note init = engine_init_inv [OF assms(1)]
  obtain e where e: "run_engine ms e0 = Some e" "engine_inv e"
    "oracle_agrees (live e) (fold ref_apply ms empty_reference)"
    using oracle_run [OF init(1) _ assms(2), of empty_reference] empty_oracle init(2) by auto
  have "same_answers (fold ref_apply ms empty_reference) loc b" if "be_books e loc = Some b" for loc b
    using oracle_answers [OF e(2,3), of loc] that by (simp add: book_of_def)
  moreover have "dom (rb_orders (fold ref_apply ms empty_reference)) = dom (live e)"
    using oracle_orders [OF e(3)] by (auto simp: dom_def)
  ultimately show ?thesis using e engine_invD(6) [OF e(2)] by (simp add: ref_live_orders_def Let_def)
qed

text \<open>
  Property C2: the fast book agrees with the oracle. On every message sequence that the new
  engine accepts (each message applied, without book effect or naming an unknown order), the
  direct-indexed books and the tree-based reference book give the same best prices, depths and
  level sizes for every symbol and price, and hold the same number of live orders.
\<close>

theorem fast_book_matches_oracle:
  assumes "engine_init lv cap = Some e0" "accepted_run ms e0"
  shows "\<exists>e. run_engine ms e0 = Some e \<and>
    (let rb = fold ref_apply ms empty_reference
     in (\<forall>loc b. be_books e loc = Some b \<longrightarrow> same_answers rb loc b) \<and>
        ref_live_orders rb = rt_size (be_refs e))"
  using assms by (rule accepted_run_oracle)

theorem fast_book_matches_oracle_witness:
  "\<exists>e b. run_engine [add_msg 7 SIDE_BUY 5 100] one_slot_engine = Some e \<and> be_books e 1 = Some b \<and>
     ob_best_bid b = 5 \<and> ref_best_bid (ref_apply (add_msg 7 SIDE_BUY 5 100) empty_reference) 1 = 5"
proof -
  obtain e b where e: "run_engine [add_msg 7 SIDE_BUY 5 100] one_slot_engine = Some e" "be_books e 1 = Some b"
    "ob_best_bid b = 5" "be_status e = Applied"
    using one_slot_run by blast
  from fast_book_matches_oracle [OF one_slot_init one_slot_accepts] e show ?thesis
    by (auto simp: Let_def same_answers_def)
qed

end
