(* ===== verification/StrategyProgram.thy ===== *)
theory StrategyProgram
  imports Endian
begin

text \<open>
  The OBP1 strategy bytecode of \<open>src/sw/trade/program.hpp\<close> and
  \<open>program.cpp\<close>: the opcodes, the loaded program, the bounds-checked reader and the
  validator. Floats are kept as the bit patterns the file holds. A thrown
  \<open>std::runtime_error\<close> is a value of \<open>load_error\<close>.
\<close>

datatype opcode =
    OP_PUSH_CONST | OP_PUSH_PARAM | OP_PUSH_SERIES | OP_PUSH_SERIES_LAG
  | OP_PUSH_CTX | OP_LOAD | OP_STORE
  | OP_ADD | OP_SUB | OP_MUL | OP_DIV | OP_NEG
  | OP_ABS | OP_MIN2 | OP_MAX2 | OP_SQRT | OP_LOG
  | OP_GT | OP_LT | OP_GE | OP_LE | OP_EQ | OP_NE
  | OP_AND | OP_OR | OP_NOT
  | OP_SMA | OP_EMA | OP_RSI | OP_ATR | OP_HIGHEST | OP_LOWEST | OP_STDDEV
  | OP_DELAY | OP_CROSSOVER | OP_CROSSUNDER
  | OP_SMA_RAW | OP_HIGHEST_RAW | OP_LOWEST_RAW | OP_STDDEV_RAW | OP_DELAY_RAW
  | OP_SIG_EL | OP_SIG_XL | OP_SIG_ES | OP_SIG_XS
  | OP_SET_STOP | OP_SET_TP | OP_SET_TRAIL | OP_SET_SIZE
  | OP_HALT

text \<open>The opcodes in their numeric order; \<open>OP_COUNT\<close> is the length of the list.\<close>

definition op_table :: "opcode list" where
  "op_table =
    [OP_PUSH_CONST, OP_PUSH_PARAM, OP_PUSH_SERIES, OP_PUSH_SERIES_LAG,
     OP_PUSH_CTX, OP_LOAD, OP_STORE,
     OP_ADD, OP_SUB, OP_MUL, OP_DIV, OP_NEG,
     OP_ABS, OP_MIN2, OP_MAX2, OP_SQRT, OP_LOG,
     OP_GT, OP_LT, OP_GE, OP_LE, OP_EQ, OP_NE,
     OP_AND, OP_OR, OP_NOT,
     OP_SMA, OP_EMA, OP_RSI, OP_ATR, OP_HIGHEST, OP_LOWEST, OP_STDDEV,
     OP_DELAY, OP_CROSSOVER, OP_CROSSUNDER,
     OP_SMA_RAW, OP_HIGHEST_RAW, OP_LOWEST_RAW, OP_STDDEV_RAW, OP_DELAY_RAW,
     OP_SIG_EL, OP_SIG_XL, OP_SIG_ES, OP_SIG_XS,
     OP_SET_STOP, OP_SET_TP, OP_SET_TRAIL, OP_SET_SIZE,
     OP_HALT]"

definition opcode_at :: "nat \<Rightarrow> opcode option" where
  "opcode_at n = (if n < length op_table then Some (op_table ! n) else None)"

text \<open>An instruction word: the opcode in the top byte, the operand in the other 24 bits.\<close>

definition ins_op :: "u32 \<Rightarrow> opcode option" where
  "ins_op w = opcode_at (unat (drop_bit 24 w))"

definition ins_arg :: "u32 \<Rightarrow> nat" where
  "ins_arg w = unat (w AND 0xFFFFFF)"

definition op_name :: "opcode option \<Rightarrow> string" where
  "op_name q = (case q of
     None \<Rightarrow> ''??''
   | Some p \<Rightarrow> (case p of
       OP_PUSH_CONST \<Rightarrow> ''PUSH_CONST'' | OP_PUSH_PARAM \<Rightarrow> ''PUSH_PARAM''
     | OP_PUSH_SERIES \<Rightarrow> ''PUSH_SERIES'' | OP_PUSH_SERIES_LAG \<Rightarrow> ''PUSH_SERIES_LAG''
     | OP_PUSH_CTX \<Rightarrow> ''PUSH_CTX'' | OP_LOAD \<Rightarrow> ''LOAD'' | OP_STORE \<Rightarrow> ''STORE''
     | OP_ADD \<Rightarrow> ''ADD'' | OP_SUB \<Rightarrow> ''SUB'' | OP_MUL \<Rightarrow> ''MUL'' | OP_DIV \<Rightarrow> ''DIV''
     | OP_NEG \<Rightarrow> ''NEG'' | OP_ABS \<Rightarrow> ''ABS'' | OP_MIN2 \<Rightarrow> ''MIN2'' | OP_MAX2 \<Rightarrow> ''MAX2''
     | OP_SQRT \<Rightarrow> ''SQRT'' | OP_LOG \<Rightarrow> ''LOG''
     | OP_GT \<Rightarrow> ''GT'' | OP_LT \<Rightarrow> ''LT'' | OP_GE \<Rightarrow> ''GE'' | OP_LE \<Rightarrow> ''LE''
     | OP_EQ \<Rightarrow> ''EQ'' | OP_NE \<Rightarrow> ''NE''
     | OP_AND \<Rightarrow> ''AND'' | OP_OR \<Rightarrow> ''OR'' | OP_NOT \<Rightarrow> ''NOT''
     | OP_SMA \<Rightarrow> ''SMA'' | OP_EMA \<Rightarrow> ''EMA'' | OP_RSI \<Rightarrow> ''RSI'' | OP_ATR \<Rightarrow> ''ATR''
     | OP_HIGHEST \<Rightarrow> ''HIGHEST'' | OP_LOWEST \<Rightarrow> ''LOWEST'' | OP_STDDEV \<Rightarrow> ''STDDEV''
     | OP_DELAY \<Rightarrow> ''DELAY'' | OP_CROSSOVER \<Rightarrow> ''CROSSOVER''
     | OP_CROSSUNDER \<Rightarrow> ''CROSSUNDER''
     | OP_SMA_RAW \<Rightarrow> ''SMA_RAW'' | OP_HIGHEST_RAW \<Rightarrow> ''HIGHEST_RAW''
     | OP_LOWEST_RAW \<Rightarrow> ''LOWEST_RAW'' | OP_STDDEV_RAW \<Rightarrow> ''STDDEV_RAW''
     | OP_DELAY_RAW \<Rightarrow> ''DELAY_RAW''
     | OP_SIG_EL \<Rightarrow> ''SIG_EL'' | OP_SIG_XL \<Rightarrow> ''SIG_XL'' | OP_SIG_ES \<Rightarrow> ''SIG_ES''
     | OP_SIG_XS \<Rightarrow> ''SIG_XS''
     | OP_SET_STOP \<Rightarrow> ''SET_STOP'' | OP_SET_TP \<Rightarrow> ''SET_TP''
     | OP_SET_TRAIL \<Rightarrow> ''SET_TRAIL'' | OP_SET_SIZE \<Rightarrow> ''SET_SIZE''
     | OP_HALT \<Rightarrow> ''HALT''))"

subsection \<open>Slot kinds and limits\<close>

abbreviation (input) SK_EMA :: u32 where "SK_EMA \<equiv> 0"
abbreviation (input) SK_WILDER1 :: u32 where "SK_WILDER1 \<equiv> 1"
abbreviation (input) SK_WILDER2 :: u32 where "SK_WILDER2 \<equiv> 2"
abbreviation (input) SK_RING :: u32 where "SK_RING \<equiv> 3"
abbreviation (input) SK_PREV2 :: u32 where "SK_PREV2 \<equiv> 4"
abbreviation (input) SK_RAW :: u32 where "SK_RAW \<equiv> 5"

abbreviation (input) VM_MAX_STACK :: nat where "VM_MAX_STACK \<equiv> 32"
abbreviation (input) VM_MAX_CODE :: nat where "VM_MAX_CODE \<equiv> 6144"
abbreviation (input) VM_MAX_STATE_FLOATS :: nat where "VM_MAX_STATE_FLOATS \<equiv> 8192"
abbreviation (input) VM_MAX_WINDOW :: int where "VM_MAX_WINDOW \<equiv> 4096"
abbreviation (input) N_SERIES :: nat where "N_SERIES \<equiv> 5"
abbreviation (input) N_CTX :: nat where "N_CTX \<equiv> 4"

record strat_program =
  pg_code :: "u32 list"
  pg_consts :: "u32 list"
  pg_kind :: "u32 list"
  pg_off :: "u32 list"
  pg_cap :: "u32 list"
  pg_aux :: "u32 list"
  pg_defaults :: "u32 list"
  pg_names :: "bytes list"
  pg_locals :: u32
  pg_state_floats :: u32
  pg_max_stack :: u32

subsection \<open>The reader\<close>

text \<open>
  \<open>Throw\<close> is a fixed message and \<open>Fail\<close> a formatted one with its two arguments.
\<close>

datatype load_error = Throw string | Fail string u32 u32

definition truncated :: "string \<Rightarrow> load_error" where
  "truncated what = Throw (''obp1: truncated at '' @ what)"

type_synonym 'a parser = "bytes \<Rightarrow> load_error + 'a"

definition need :: "nat \<Rightarrow> string \<Rightarrow> 'a parser \<Rightarrow> 'a parser" where
  "need n what k d = (if length d < n then Inl (truncated what) else k d)"

definition u32_field :: "string \<Rightarrow> (u32 \<Rightarrow> 'a parser) \<Rightarrow> 'a parser" where
  "u32_field what k = need 4 what (\<lambda>d. k (load_u32 d) (drop 4 d))"

definition u16_field :: "string \<Rightarrow> (u16 \<Rightarrow> 'a parser) \<Rightarrow> 'a parser" where
  "u16_field what k = need 2 what (\<lambda>d. k (load_u16 d) (drop 2 d))"

fun load_words :: "nat \<Rightarrow> bytes \<Rightarrow> u32 list" where
  "load_words 0 d = []"
| "load_words (Suc n) d = load_u32 d # load_words n (drop 4 d)"

definition array_field :: "u32 \<Rightarrow> string \<Rightarrow> (u32 list \<Rightarrow> 'a parser) \<Rightarrow> 'a parser" where
  "array_field n what k d =
     (if unat n > length d div 4 then Inl (truncated what)
      else need (unat n * 4) what
             (\<lambda>d. k (load_words (unat n) d) (drop (unat n * 4) d)) d)"

fun names_field :: "nat \<Rightarrow> (bytes list \<Rightarrow> 'a parser) \<Rightarrow> 'a parser" where
  "names_field 0 k = k []"
| "names_field (Suc n) k = u16_field ''param name len'' (\<lambda>ln. need (unat ln) ''param name''
     (\<lambda>d. names_field n (\<lambda>ns. k (take (unat ln) d # ns)) (drop (unat ln) d)))"

text \<open>The part of \<open>parse\<close> before the semantic validation.\<close>

definition magic_bytes :: bytes where
  "magic_bytes = [0x4F, 0x42, 0x50, 0x31]"

definition check_limits :: "u32 \<Rightarrow> u32 \<Rightarrow> u32 \<Rightarrow> u32 \<Rightarrow> 'a parser \<Rightarrow> 'a parser" where
  "check_limits n_code n_params floats stack k d =
     (if unat stack > VM_MAX_STACK then Inl (Fail ''max_stack %u exceeds VM limit %u'' stack 32)
      else if n_code = 0 then Inl (Throw ''obp1: empty code'')
      else if unat n_code > VM_MAX_CODE
        then Inl (Fail ''code size %u exceeds VM limit %u'' n_code 6144)
      else if unat floats > VM_MAX_STATE_FLOATS
        then Inl (Fail ''state_floats %u exceeds VM limit %u'' floats 8192)
      else if n_params > 65535
        then Inl (Fail ''parameter count %u exceeds limit %u'' n_params 65535)
      else k d)"

definition parse_arrays :: "u32 \<Rightarrow> u32 \<Rightarrow> u32 \<Rightarrow> u32 \<Rightarrow> u32 \<Rightarrow> u32 \<Rightarrow> u32 \<Rightarrow> strat_program parser" where
  "parse_arrays n_code n_consts n_state n_params locals floats stack =
     array_field n_code ''code'' (\<lambda>code.
     array_field n_consts ''consts'' (\<lambda>consts.
     array_field n_state ''state_kind'' (\<lambda>kind.
     array_field n_state ''state_off'' (\<lambda>off.
     array_field n_state ''state_cap'' (\<lambda>cap.
     array_field n_state ''state_aux'' (\<lambda>aux.
     array_field n_params ''param_defaults'' (\<lambda>defaults.
     names_field (unat n_params) (\<lambda>names d.
       if d \<noteq> [] then Inl (Fail ''%u trailing bytes'' (of_nat (length d)) 0)
       else Inr \<lparr>pg_code = code, pg_consts = consts, pg_kind = kind, pg_off = off,
         pg_cap = cap, pg_aux = aux, pg_defaults = defaults, pg_names = names,
         pg_locals = locals, pg_state_floats = floats, pg_max_stack = stack\<rparr>))))))))"

definition parse_counts :: "strat_program parser" where
  "parse_counts =
     u32_field ''n_code'' (\<lambda>n_code.
     u32_field ''n_consts'' (\<lambda>n_consts.
     u32_field ''n_state'' (\<lambda>n_state.
     u32_field ''n_params'' (\<lambda>n_params.
     u32_field ''n_locals'' (\<lambda>locals.
     u32_field ''state_floats'' (\<lambda>floats.
     u32_field ''max_stack'' (\<lambda>stack.
     check_limits n_code n_params floats stack
       (parse_arrays n_code n_consts n_state n_params locals floats stack))))))))"

definition parse_layout :: "strat_program parser" where
  "parse_layout = need 4 ''magic'' (\<lambda>d.
     if take 4 d \<noteq> magic_bytes then Inl (Throw ''obp1: bad magic'')
     else u32_field ''version'' (\<lambda>version d.
            if version \<noteq> 1 then Inl (Fail ''unsupported version %u'' version 0)
            else parse_counts d)
          (drop 4 d))"

subsection \<open>The validator\<close>

definition state_size :: "u32 \<Rightarrow> u32 \<Rightarrow> load_error + u32" where
  "state_size kind cap =
     (if (kind = SK_RING \<or> kind = SK_RAW) \<and> (sint cap \<le> 0 \<or> sint cap > VM_MAX_WINDOW)
      then Inl (Fail ''bad state cap %u for kind %u'' cap kind)
      else if kind = SK_EMA then Inr 2
      else if kind = SK_WILDER1 then Inr 2
      else if kind = SK_WILDER2 then Inr 4
      else if kind = SK_RING then Inr (1 + cap)
      else if kind = SK_PREV2 then Inr 3
      else if kind = SK_RAW then Inr 0
      else Inl (Fail ''bad state kind %u (cap %u)'' kind cap))"

definition required_stack :: "opcode \<Rightarrow> int" where
  "required_stack q =
     (if q \<in> {OP_PUSH_CONST, OP_PUSH_PARAM, OP_PUSH_SERIES, OP_PUSH_SERIES_LAG, OP_PUSH_CTX,
              OP_LOAD, OP_HALT} then 0
      else if q \<in> {OP_STORE, OP_NEG, OP_ABS, OP_SQRT, OP_LOG, OP_ATR, OP_SMA_RAW,
              OP_HIGHEST_RAW, OP_LOWEST_RAW, OP_STDDEV_RAW, OP_DELAY_RAW, OP_SIG_EL, OP_SIG_XL,
              OP_SIG_ES, OP_SIG_XS, OP_SET_STOP, OP_SET_TP, OP_SET_TRAIL, OP_SET_SIZE, OP_NOT}
        then 1
      else 2)"

definition stack_delta :: "opcode \<Rightarrow> int" where
  "stack_delta q =
     (if q \<in> {OP_PUSH_CONST, OP_PUSH_PARAM, OP_PUSH_SERIES, OP_PUSH_SERIES_LAG, OP_PUSH_CTX,
              OP_LOAD} then 1
      else if q \<in> {OP_STORE, OP_SIG_EL, OP_SIG_XL, OP_SIG_ES, OP_SIG_XS, OP_SET_STOP, OP_SET_TP,
              OP_SET_TRAIL, OP_SET_SIZE} then - 1
      else if q \<in> {OP_ADD, OP_SUB, OP_MUL, OP_DIV, OP_MIN2, OP_MAX2, OP_GT, OP_LT, OP_GE, OP_LE,
              OP_EQ, OP_NE, OP_AND, OP_OR, OP_SMA, OP_EMA, OP_RSI, OP_HIGHEST, OP_LOWEST,
              OP_STDDEV, OP_DELAY, OP_CROSSOVER, OP_CROSSUNDER} then - 1
      else 0)"

definition expected_state_kind :: "opcode \<Rightarrow> u32 option" where
  "expected_state_kind q =
     (if q = OP_EMA then Some SK_EMA
      else if q = OP_ATR then Some SK_WILDER1
      else if q = OP_RSI then Some SK_WILDER2
      else if q \<in> {OP_SMA, OP_HIGHEST, OP_LOWEST, OP_STDDEV, OP_DELAY} then Some SK_RING
      else if q \<in> {OP_CROSSOVER, OP_CROSSUNDER} then Some SK_PREV2
      else if q \<in> {OP_SMA_RAW, OP_HIGHEST_RAW, OP_LOWEST_RAW, OP_STDDEV_RAW, OP_DELAY_RAW}
        then Some SK_RAW
      else None)"

text \<open>
  The marking loop over the cells of one slot: \<open>occ\<close> is the \<open>occupied\<close> vector.
\<close>

fun mark_slot :: "nat \<Rightarrow> nat \<Rightarrow> nat \<Rightarrow> bool list \<Rightarrow> load_error + bool list" where
  "mark_slot i off 0 occ = Inr occ"
| "mark_slot i off (Suc n) occ =
     (if occ ! off then Inl (Fail ''state slot %u overlaps offset %u'' (of_nat i) (of_nat off))
      else mark_slot i (Suc off) n (occ[off := True]))"

fun check_slots :: "strat_program \<Rightarrow> nat list \<Rightarrow> bool list \<Rightarrow> load_error + bool list" where
  "check_slots p [] occ = Inr occ"
| "check_slots p (i # is) occ =
     (case state_size (pg_kind p ! i) (pg_cap p ! i) of
        Inl err \<Rightarrow> Inl err
      | Inr sz \<Rightarrow>
          if sint (pg_off p ! i) < 0 \<or> pg_off p ! i + sz > pg_state_floats p
          then Inl (Fail ''state slot %u overruns state_floats %u'' (of_nat i) (pg_state_floats p))
          else (case mark_slot i (unat (pg_off p ! i)) (unat sz) occ of
             Inl err \<Rightarrow> Inl err
           | Inr occ' \<Rightarrow>
               if pg_kind p ! i = SK_RAW \<and> unat (drop_bit 16 (pg_aux p ! i)) \<ge> N_SERIES
               then Inl (Fail ''state slot %u has bad raw series %u'' (of_nat i)
                           (drop_bit 16 (pg_aux p ! i)))
               else check_slots p is occ'))"

text \<open>\<open>std::isfinite\<close> of a bit pattern: the exponent field is not all ones.\<close>

definition isfinite_bits :: "u32 \<Rightarrow> bool" where
  "isfinite_bits b \<longleftrightarrow> drop_bit 23 b AND 0xFF \<noteq> 0xFF"

fun check_finite :: "string \<Rightarrow> nat \<Rightarrow> u32 list \<Rightarrow> load_error option" where
  "check_finite msg i [] = None"
| "check_finite msg i (x # xs) =
     (if \<not> isfinite_bits x then Some (Fail msg (of_nat i) 0) else check_finite msg (Suc i) xs)"

definition out_of_range :: "string \<Rightarrow> nat \<Rightarrow> nat \<Rightarrow> nat \<Rightarrow> load_error option" where
  "out_of_range msg i x n = (if x \<ge> n then Some (Fail msg (of_nat i) (of_nat x)) else None)"

definition check_operand :: "strat_program \<Rightarrow> nat \<Rightarrow> opcode \<Rightarrow> nat \<Rightarrow> load_error option" where
  "check_operand p i q arg =
     (if q = OP_PUSH_CONST
      then out_of_range ''op %u: const %u out of range'' i arg (length (pg_consts p))
      else if q = OP_PUSH_PARAM
      then out_of_range ''op %u: param %u out of range'' i arg (length (pg_defaults p))
      else if q = OP_PUSH_SERIES
      then out_of_range ''op %u: series %u out of range'' i arg N_SERIES
      else if q = OP_PUSH_SERIES_LAG
      then out_of_range ''op %u: lag series %u out of range'' i (arg div 2 ^ 16) N_SERIES
      else if q = OP_PUSH_CTX
      then out_of_range ''op %u: ctx %u out of range'' i arg N_CTX
      else if q = OP_LOAD \<or> q = OP_STORE
      then out_of_range ''op %u: local %u out of range'' i arg (unat (pg_locals p))
      else if q \<in> {OP_SMA, OP_EMA, OP_RSI, OP_ATR, OP_HIGHEST, OP_LOWEST, OP_STDDEV, OP_DELAY,
                   OP_CROSSOVER, OP_CROSSUNDER, OP_SMA_RAW, OP_HIGHEST_RAW, OP_LOWEST_RAW,
                   OP_STDDEV_RAW, OP_DELAY_RAW}
      then out_of_range ''op %u: state slot %u out of range'' i arg (length (pg_kind p))
      else None)"

text \<open>
  The abstract run over the code: one instruction, then the loop with the running depth and
  the deepest one seen.
\<close>

definition check_ins :: "strat_program \<Rightarrow> nat \<Rightarrow> int \<Rightarrow> load_error + int" where
  "check_ins p i depth =
     (case ins_op (pg_code p ! i) of
        None \<Rightarrow> Inl (Fail ''op %u: bad opcode %u'' (of_nat i) (drop_bit 24 (pg_code p ! i)))
      | Some q \<Rightarrow>
          (let arg = ins_arg (pg_code p ! i) in
           case check_operand p i q arg of
             Some err \<Rightarrow> Inl err
           | None \<Rightarrow>
               if (case expected_state_kind q of Some k \<Rightarrow> pg_kind p ! arg \<noteq> k | None \<Rightarrow> False)
               then Inl (Fail ''op %u: state kind mismatch at slot %u'' (of_nat i) (of_nat arg))
               else if depth < required_stack q
               then Inl (Fail ''op %u: stack underflow (needs %u)'' (of_nat i)
                           (word_of_int (required_stack q)))
               else if depth + stack_delta q > int VM_MAX_STACK
               then Inl (Fail ''op %u: stack depth exceeds %u'' (of_nat i) 32)
               else if q = OP_HALT \<and> i + 1 \<noteq> length (pg_code p)
               then Inl (Fail ''op %u: HALT must be final (code size %u)'' (of_nat i)
                           (of_nat (length (pg_code p))))
               else Inr (depth + stack_delta q)))"

fun check_code :: "strat_program \<Rightarrow> nat list \<Rightarrow> int \<Rightarrow> int \<Rightarrow> load_error + int \<times> int" where
  "check_code p [] depth deepest = Inr (depth, deepest)"
| "check_code p (i # is) depth deepest =
     (case check_ins p i depth of
        Inl err \<Rightarrow> Inl err
      | Inr depth' \<Rightarrow> check_code p is depth' (if depth' > deepest then depth' else deepest))"

definition validate :: "strat_program \<Rightarrow> load_error option" where
  "validate p =
     (case check_slots p [0..<length (pg_kind p)]
              (replicate (unat (pg_state_floats p)) False) of
        Inl err \<Rightarrow> Some err
      | Inr _ \<Rightarrow>
     (case check_finite ''const %u is not finite'' 0 (pg_consts p) of
        Some err \<Rightarrow> Some err
      | None \<Rightarrow>
     (case check_finite ''param %u default is not finite'' 0 (pg_defaults p) of
        Some err \<Rightarrow> Some err
      | None \<Rightarrow>
          if ins_op (last (pg_code p)) \<noteq> Some OP_HALT
          then Some (Throw ''obp1: code does not end in HALT'')
          else (case check_code p [0..<length (pg_code p)] 0 0 of
             Inl err \<Rightarrow> Some err
           | Inr (depth, deepest) \<Rightarrow>
               if depth \<noteq> 0
               then Some (Fail ''final stack depth %u (expected %u)'' (word_of_int depth) 0)
               else if pg_max_stack p \<noteq> word_of_int deepest
               then Some (Fail ''max_stack %u does not match observed %u'' (pg_max_stack p)
                            (word_of_int deepest))
               else None))))"

definition parse :: "bytes \<Rightarrow> load_error + strat_program" where
  "parse d = (case parse_layout d of
     Inl err \<Rightarrow> Inl err
   | Inr p \<Rightarrow> (case validate p of Some err \<Rightarrow> Inl err | None \<Rightarrow> Inr p))"

text \<open>
  The disassembly: one line per instruction, as its index, its name and its operand (the
  column padding of the printed text is left out).
\<close>

definition disasm :: "strat_program \<Rightarrow> (nat \<times> string \<times> nat) list" where
  "disasm p = map (\<lambda>(i, w). (i, op_name (ins_op w), ins_arg w))
     (zip [0..<length (pg_code p)] (pg_code p))"

end
