(* ===== verification/ProgramLoad.thy ===== *)
theory ProgramLoad
  imports StrategyProgram
begin

text \<open>
  The loader of OBP1 programs accepts exactly the images of well-formed programs. The image
  of a program is the layout that the header comment of \<open>program.hpp\<close> specifies;
  \<open>program_ok\<close> states what the code promises of an accepted program, without loops.
\<close>

subsection \<open>The layout\<close>

definition words_image :: "u32 list \<Rightarrow> bytes" where
  "words_image ws = concat (map (le_of_word 4) ws)"

definition names_image :: "bytes list \<Rightarrow> bytes" where
  "names_image ns = concat (map (\<lambda>s. le_of_word 2 (of_nat (length s) :: u16) @ s) ns)"

definition header_words :: "strat_program \<Rightarrow> u32 list" where
  "header_words p =
     [1, of_nat (length (pg_code p)), of_nat (length (pg_consts p)), of_nat (length (pg_kind p)),
      of_nat (length (pg_defaults p)), pg_locals p, pg_state_floats p, pg_max_stack p]"

definition obp1_image :: "strat_program \<Rightarrow> bytes" where
  "obp1_image p = magic_bytes @ words_image (header_words p) @ words_image (pg_code p) @
     words_image (pg_consts p) @ words_image (pg_kind p) @ words_image (pg_off p) @
     words_image (pg_cap p) @ words_image (pg_aux p) @ words_image (pg_defaults p) @
     names_image (pg_names p)"

definition layout_ok :: "strat_program \<Rightarrow> bool" where
  "layout_ok p \<longleftrightarrow>
     unat (pg_max_stack p) \<le> VM_MAX_STACK \<and> pg_code p \<noteq> [] \<and>
     length (pg_code p) \<le> VM_MAX_CODE \<and> unat (pg_state_floats p) \<le> VM_MAX_STATE_FLOATS \<and>
     length (pg_defaults p) \<le> 65535 \<and> length (pg_consts p) < 2 ^ 32 \<and>
     length (pg_kind p) < 2 ^ 32 \<and> length (pg_off p) = length (pg_kind p) \<and>
     length (pg_cap p) = length (pg_kind p) \<and> length (pg_aux p) = length (pg_kind p) \<and>
     length (pg_names p) = length (pg_defaults p) \<and> (\<forall>s \<in> set (pg_names p). length s < 2 ^ 16)"

named_theorems field_iff \<open>inversion of the reader's fields\<close>

lemma load_u32_split:
  "4 \<le> length d \<longleftrightarrow> d = le_of_word 4 (load_u32 d) @ drop 4 d"
proof
  assume "4 \<le> length d"
  then have "length (take 4 d) = 4" by simp
  then have "le_of_word 4 (load_u32 d) = take 4 d"
    using le_of_word_of_le [of "take 4 d", where 'a = 32] by (simp add: load_u32_def)
  then show "d = le_of_word 4 (load_u32 d) @ drop 4 d" by simp
next
  assume "d = le_of_word 4 (load_u32 d) @ drop 4 d"
  from arg_cong [OF this, of length] show "4 \<le> length d" by simp
qed

lemma load_u32_le [simp]: "load_u32 (le_of_word 4 w @ d) = w"
  by (simp add: load_u32_def word_of_le_of_word)

lemma load_u16_split:
  "2 \<le> length d \<longleftrightarrow> d = le_of_word 2 (load_u16 d) @ drop 2 d"
proof
  assume "2 \<le> length d"
  then have "length (take 2 d) = 2" by simp
  then have "le_of_word 2 (load_u16 d) = take 2 d"
    using le_of_word_of_le [of "take 2 d", where 'a = 16] by (simp add: load_u16_def)
  then show "d = le_of_word 2 (load_u16 d) @ drop 2 d" by simp
next
  assume "d = le_of_word 2 (load_u16 d) @ drop 2 d"
  from arg_cong [OF this, of length] show "2 \<le> length d" by simp
qed

lemma load_u16_le [simp]: "load_u16 (le_of_word 2 w @ d) = w"
  by (simp add: load_u16_def word_of_le_of_word)

lemma need_Inr [field_iff]: "need n what k d = Inr r \<longleftrightarrow> n \<le> length d \<and> k d = Inr r"
  by (auto simp: need_def)

lemma u32_field_Inr [field_iff]:
  "u32_field what k d = Inr r \<longleftrightarrow> (\<exists>w d'. d = le_of_word 4 w @ d' \<and> k w d' = Inr r)"
proof
  assume "u32_field what k d = Inr r"
  then have "4 \<le> length d" "k (load_u32 d) (drop 4 d) = Inr r"
    by (auto simp: u32_field_def need_Inr)
  then show "\<exists>w d'. d = le_of_word 4 w @ d' \<and> k w d' = Inr r" using load_u32_split by blast
qed (auto simp: u32_field_def need_Inr)

lemma u16_field_Inr [field_iff]:
  "u16_field what k d = Inr r \<longleftrightarrow> (\<exists>w d'. d = le_of_word 2 w @ d' \<and> k w d' = Inr r)"
proof
  assume "u16_field what k d = Inr r"
  then have "2 \<le> length d" "k (load_u16 d) (drop 2 d) = Inr r"
    by (auto simp: u16_field_def need_Inr)
  then show "\<exists>w d'. d = le_of_word 2 w @ d' \<and> k w d' = Inr r" using load_u16_split by blast
qed (auto simp: u16_field_def need_Inr)

lemma length_words_image [simp]: "length (words_image ws) = 4 * length ws"
  by (induction ws) (auto simp: words_image_def)

lemma words_image_Cons: "words_image (w # ws) = le_of_word 4 w @ words_image ws"
  by (simp add: words_image_def)

lemma load_words_image: "load_words (length ws) (words_image ws @ d) = ws"
  by (induction ws) (simp_all add: words_image_def)

lemma load_words_split:
  "n * 4 \<le> length d \<Longrightarrow>
   d = words_image (load_words n d) @ drop (n * 4) d \<and> length (load_words n d) = n"
proof (induction n arbitrary: d)
  case 0
  then show ?case by (simp add: words_image_def)
next
  case (Suc n)
  then have "n * 4 \<le> length (drop 4 d)" by simp
  from Suc.IH [OF this]
  have *: "drop 4 d = words_image (load_words n (drop 4 d)) @ drop (n * 4) (drop 4 d)"
    "length (load_words n (drop 4 d)) = n" by blast+
  have "4 \<le> length d" using Suc.prems by simp
  then have "d = le_of_word 4 (load_u32 d) @ drop 4 d" by (rule load_u32_split [THEN iffD1])
  also have "\<dots> = le_of_word 4 (load_u32 d) @ words_image (load_words n (drop 4 d)) @
      drop (Suc n * 4) d"
    using *(1) by (simp add: add.commute)
  finally show ?case using *(2) by (simp add: words_image_Cons)
qed

lemma array_field_Inr [field_iff]:
  "array_field n what k d = Inr r \<longleftrightarrow>
     (\<exists>ws d'. length ws = unat n \<and> d = words_image ws @ d' \<and> k ws d' = Inr r)"
  (is "?L \<longleftrightarrow> ?R")
proof
  assume ?L
  then have "unat n * 4 \<le> length d"
    "k (load_words (unat n) d) (drop (unat n * 4) d) = Inr r"
    by (auto simp: array_field_def need_Inr split: if_splits)
  then show ?R using load_words_split by blast
next
  assume ?R
  then obtain ws d' where ws: "unat n = length ws" "d = words_image ws @ d'" "k ws d' = Inr r"
    by metis
  then show ?L by (simp add: array_field_def need_Inr load_words_image)
qed

lemma names_field_Inr [field_iff]:
  "names_field n k d = Inr r \<longleftrightarrow>
     (\<exists>ns d'. length ns = n \<and> (\<forall>s \<in> set ns. length s < 2 ^ 16) \<and>
        d = names_image ns @ d' \<and> k ns d' = Inr r)"
proof (induction n arbitrary: k d)
  case 0
  then show ?case by (auto simp: names_image_def)
next
  case (Suc n)
  show ?case (is "?L \<longleftrightarrow> ?R")
  proof
    assume ?L
    then obtain w :: u16 and d1 where "d = le_of_word 2 w @ d1" "unat w \<le> length d1"
      "names_field n (\<lambda>ns. k (take (unat w) d1 # ns)) (drop (unat w) d1) = Inr r"
      unfolding names_field.simps u16_field_Inr need_Inr by blast
    moreover from this(3) obtain ns d' where
      "length ns = n" "\<forall>s \<in> set ns. length s < 2 ^ 16" and ns: "drop (unat w) d1 = names_image ns @ d'" and
      "k (take (unat w) d1 # ns) d' = Inr r"
      unfolding Suc by blast
    moreover have "d1 = take (unat w) d1 @ names_image ns @ d'"
      using ns by (metis append_take_drop_id)
    ultimately show ?R
      by (intro exI [of _ "take (unat w) d1 # ns"] exI [of _ d'])
        (simp add: names_image_def min_absorb2)
  next
    assume ?R
    then obtain s ns d' where ns: "length ns = n" "\<forall>s \<in> set ns. length s < 2 ^ 16"
      "length s < 2 ^ 16" "d = le_of_word 2 (of_nat (length s) :: u16) @ s @ names_image ns @ d'"
      "k (s # ns) d' = Inr r"
      by (auto simp: names_image_def length_Suc_conv)
    then have "unat (of_nat (length s) :: u16) = length s"
      by (simp add: unsigned_of_nat take_bit_nat_eq_self)
    then show ?L
      using ns by (auto simp: u16_field_Inr need_Inr Suc intro!: exI [of _ ns] exI [of _ d'])
  qed
qed

lemma check_limits_Inr [field_iff]:
  "check_limits n_code n_params floats stack k d = Inr r \<longleftrightarrow>
     unat stack \<le> VM_MAX_STACK \<and> n_code \<noteq> 0 \<and> unat n_code \<le> VM_MAX_CODE \<and>
     unat floats \<le> VM_MAX_STATE_FLOATS \<and> unat n_params \<le> 65535 \<and> k d = Inr r"
  by (auto simp: check_limits_def word_less_nat_alt)


lemma parse_arrays_Inr:
  "parse_arrays n_code n_consts n_state n_params locals floats stack d = Inr p \<longleftrightarrow>
     length (pg_code p) = unat n_code \<and> length (pg_consts p) = unat n_consts \<and>
     length (pg_kind p) = unat n_state \<and> length (pg_off p) = unat n_state \<and>
     length (pg_cap p) = unat n_state \<and> length (pg_aux p) = unat n_state \<and>
     length (pg_defaults p) = unat n_params \<and> length (pg_names p) = unat n_params \<and>
     (\<forall>s \<in> set (pg_names p). length s < 2 ^ 16) \<and> pg_locals p = locals \<and>
     pg_state_floats p = floats \<and> pg_max_stack p = stack \<and>
     d = words_image (pg_code p) @ words_image (pg_consts p) @ words_image (pg_kind p) @
       words_image (pg_off p) @ words_image (pg_cap p) @ words_image (pg_aux p) @
       words_image (pg_defaults p) @ names_image (pg_names p)"
  (is "?L \<longleftrightarrow> ?R")
proof
  assume ?L
  then show ?R by (auto simp: parse_arrays_def field_iff split: if_splits)
next
  assume ?R
  then show ?L
    unfolding parse_arrays_def array_field_Inr names_field_Inr
    by (cases p) (auto intro!: exI)
qed

lemma le_of_word4_inj [simp]: "le_of_word 4 a = le_of_word 4 b \<longleftrightarrow> a = (b :: u32)"
proof -
  have "word_of_le (le_of_word 4 v) = v" for v :: u32 by (rule word_of_le_of_word) simp
  then show ?thesis by metis
qed

lemma of_nat_u32_zero: "n < 2 ^ 32 \<Longrightarrow> (of_nat n :: u32) = 0 \<longleftrightarrow> n = 0"
  by (simp add: word_unat_eq_iff unsigned_of_nat take_bit_nat_eq_self)

lemma parse_layout_Inr:
  "parse_layout d = Inr p \<longleftrightarrow>
     (\<exists>d1. d = magic_bytes @ le_of_word 4 (1 :: u32) @ d1 \<and> parse_counts d1 = Inr p)"
proof
  assume "parse_layout d = Inr p"
  then obtain d1 where "take 4 d = magic_bytes"
    "drop 4 d = le_of_word 4 (1 :: u32) @ d1" "parse_counts d1 = Inr p"
    by (auto simp: parse_layout_def need_Inr u32_field_Inr split: if_splits)
  moreover from this have "d = magic_bytes @ le_of_word 4 (1 :: u32) @ d1"
    by (metis append_take_drop_id)
  ultimately show "\<exists>d1. d = magic_bytes @ le_of_word 4 (1 :: u32) @ d1 \<and> parse_counts d1 = Inr p"
    by blast
qed (auto simp: parse_layout_def need_Inr u32_field_Inr magic_bytes_def)

lemma parse_layout_exact: "parse_layout d = Inr p \<longleftrightarrow> layout_ok p \<and> d = obp1_image p"
proof -
  have "parse_counts d1 = Inr p \<longleftrightarrow>
      layout_ok p \<and> magic_bytes @ le_of_word 4 (1 :: u32) @ d1 = obp1_image p" for d1
    unfolding parse_counts_def u32_field_Inr check_limits_Inr parse_arrays_Inr layout_ok_def
      obp1_image_def header_words_def
    by (auto simp: words_image_Cons words_image_def [of "[]"] unat_eq_zero unsigned_of_nat
      take_bit_nat_eq_self of_nat_u32_zero)
  then show ?thesis unfolding parse_layout_Inr
    by (auto simp: obp1_image_def header_words_def words_image_Cons)
qed

subsection \<open>State slots\<close>

definition slot_floats :: "u32 \<Rightarrow> u32 \<Rightarrow> nat" where
  "slot_floats kind cap =
     (if kind = SK_EMA \<or> kind = SK_WILDER1 then 2 else if kind = SK_WILDER2 then 4
      else if kind = SK_RING then 1 + unat cap else if kind = SK_PREV2 then 3 else 0)"

definition window_ok :: "u32 \<Rightarrow> u32 \<Rightarrow> bool" where
  "window_ok kind cap \<longleftrightarrow>
     (kind = SK_RING \<or> kind = SK_RAW \<longrightarrow> 0 < sint cap \<and> sint cap \<le> VM_MAX_WINDOW)"

definition slot_cells :: "strat_program \<Rightarrow> nat \<Rightarrow> nat set" where
  "slot_cells p i =
     {unat (pg_off p ! i)..<unat (pg_off p ! i) + slot_floats (pg_kind p ! i) (pg_cap p ! i)}"

definition slot_ok :: "strat_program \<Rightarrow> nat \<Rightarrow> bool" where
  "slot_ok p i \<longleftrightarrow> unat (pg_kind p ! i) \<le> 5 \<and> window_ok (pg_kind p ! i) (pg_cap p ! i) \<and>
     0 \<le> sint (pg_off p ! i) \<and>
     unat (pg_off p ! i) + slot_floats (pg_kind p ! i) (pg_cap p ! i)
       \<le> unat (pg_state_floats p) \<and>
     (pg_kind p ! i = SK_RAW \<longrightarrow> unat (drop_bit 16 (pg_aux p ! i)) < N_SERIES)"

lemma sint_pos_unat:
  assumes "0 \<le> sint (w :: u32)"
  shows "unat w = nat (sint w)" "unat w < 2 ^ 31"
proof -
  have lt: "sint w < 2 ^ 31" using sint_lt [of w] by simp
  have "uint w = take_bit LENGTH(32) (sint w)" by (rule uint_sint)
  also have "\<dots> = sint w" using assms lt by (simp add: take_bit_eq_mod)
  finally have "nat (uint w) = nat (sint w)" by (rule arg_cong)
  then show eq: "unat w = nat (sint w)" by simp
  show "unat w < 2 ^ 31" unfolding eq using lt assms by (simp add: nat_less_iff)
qed

lemma word_le_5: "unat (k :: u32) \<le> 5 \<longleftrightarrow> k \<in> {0, 1, 2, 3, 4, 5}"
proof
  assume "unat k \<le> 5"
  then have "unat k \<in> {0, 1, 2, 3, 4, 5}" by auto
  then show "k \<in> {0, 1, 2, 3, 4, 5}" by (auto simp: word_unat_eq_iff)
qed auto

lemma state_size_Inr:
  "state_size kind cap = Inr s \<longleftrightarrow>
     unat kind \<le> 5 \<and> window_ok kind cap \<and> s = of_nat (slot_floats kind cap)"
proof -
  have "(1 :: u32) + cap = of_nat (1 + unat cap)" by simp
  then show ?thesis
    unfolding word_le_5 by (auto simp: state_size_def window_ok_def slot_floats_def)
qed

lemma slot_floats_bound: "window_ok kind cap \<Longrightarrow> slot_floats kind cap \<le> 4097"
  using sint_pos_unat(1) [of cap]
  by (auto simp: slot_floats_def window_ok_def nat_le_iff)

lemma slot_end_unat:
  assumes "window_ok kind cap" "0 \<le> sint (off :: u32)"
  shows "unat (off + of_nat (slot_floats kind cap)) = unat off + slot_floats kind cap"
    "unat (of_nat (slot_floats kind cap) :: u32) = slot_floats kind cap"
proof -
  have "slot_floats kind cap \<le> 4097" using slot_floats_bound assms(1) .
  moreover have "unat off < 2 ^ 31" using sint_pos_unat assms(2) by blast
  ultimately show "unat (of_nat (slot_floats kind cap) :: u32) = slot_floats kind cap"
    "unat (off + of_nat (slot_floats kind cap)) = unat off + slot_floats kind cap"
    by (simp_all add: unat_plus_no_wrap unsigned_of_nat take_bit_nat_eq_self)
qed

definition marked :: "bool list \<Rightarrow> nat set" where
  "marked occ = {j. j < length occ \<and> occ ! j}"

lemma marked_replicate [simp]: "marked (replicate n False) = {}"
  by (auto simp: marked_def)

lemma marked_inject: "length occ = length occ' \<Longrightarrow> marked occ = marked occ' \<Longrightarrow> occ = occ'"
  by (rule nth_equalityI) (auto simp: marked_def set_eq_iff)

lemma mark_slot_Inr:
  "off + n \<le> length occ \<Longrightarrow>
   mark_slot i off n occ = Inr occ' \<longleftrightarrow>
     {off..<off + n} \<inter> marked occ = {} \<and> length occ' = length occ \<and>
     marked occ' = marked occ \<union> {off..<off + n}"
proof (induction n arbitrary: off occ)
  case 0
  then show ?case using marked_inject [of occ' occ] by auto
next
  case (Suc n)
  have step: "marked (occ[off := True]) = insert off (marked occ)"
    using Suc.prems by (auto simp: marked_def nth_list_update)
  have cells: "{off..<off + Suc n} = insert off {Suc off..<Suc off + n}" by auto
  have hd: "occ ! off \<longleftrightarrow> off \<in> marked occ" using Suc.prems by (simp add: marked_def)
  have "Suc off + n \<le> length (occ[off := True])" using Suc.prems by simp
  note IH = Suc.IH [OF this]
  show ?case
  proof (cases "off \<in> marked occ")
    case True
    then show ?thesis unfolding cells by (auto simp: hd)
  next
    case False
    then show ?thesis unfolding cells by (simp only: mark_slot.simps hd if_False IH step) auto
  qed
qed

lemma mark_slot_ex:
  "off + n \<le> length occ \<Longrightarrow> {off..<off + n} \<inter> marked occ = {} \<Longrightarrow>
   \<exists>occ'. mark_slot i off n occ = Inr occ'"
proof (induction n arbitrary: off occ)
  case (Suc n)
  have "off \<in> {off..<off + Suc n}" by simp
  then have "off \<notin> marked occ" using Suc.prems by blast
  then have hd: "\<not> occ ! off" using Suc.prems by (simp add: marked_def)
  have "marked (occ[off := True]) = insert off (marked occ)"
    using Suc.prems by (auto simp: marked_def nth_list_update)
  moreover have "{Suc off..<Suc off + n} \<subseteq> {off..<off + Suc n}" by auto
  ultimately have "{Suc off..<Suc off + n} \<inter> marked (occ[off := True]) = {}"
    using Suc.prems(2) by (auto simp: disjoint_iff)
  then show ?case using Suc.IH [of "Suc off" "occ[off := True]"] Suc.prems(1) hd by simp
qed simp

lemma check_slots_Inr:
  "length occ = unat (pg_state_floats p) \<Longrightarrow>
   (\<exists>occ'. check_slots p is occ = Inr occ') \<longleftrightarrow>
     (\<forall>i \<in> set is. slot_ok p i \<and> slot_cells p i \<inter> marked occ = {}) \<and>
     sorted_wrt (\<lambda>i j. slot_cells p i \<inter> slot_cells p j = {}) is"
proof (induction "is" arbitrary: occ)
  case Nil
  then show ?case by simp
next
  case (Cons i "is")
  let ?sz = "slot_floats (pg_kind p ! i) (pg_cap p ! i)"
  show ?case
  proof (cases "slot_ok p i \<and> slot_cells p i \<inter> marked occ = {}")
    case True
    then have ok: "unat (pg_kind p ! i) \<le> 5" "window_ok (pg_kind p ! i) (pg_cap p ! i)"
      "0 \<le> sint (pg_off p ! i)" "unat (pg_off p ! i) + ?sz \<le> length occ"
      "pg_kind p ! i = SK_RAW \<longrightarrow> unat (drop_bit 16 (pg_aux p ! i)) < N_SERIES"
      using Cons.prems by (auto simp: slot_ok_def)
    note ends = slot_end_unat [OF ok(2,3)]
    obtain occ1 where occ1: "mark_slot i (unat (pg_off p ! i)) ?sz occ = Inr occ1"
      using mark_slot_ex [OF ok(4)] True unfolding slot_cells_def by blast
    have m1: "length occ1 = length occ" "marked occ1 = marked occ \<union> slot_cells p i"
      using mark_slot_Inr [OF ok(4)] occ1 by (auto simp: slot_cells_def)
    have "state_size (pg_kind p ! i) (pg_cap p ! i) = Inr (of_nat ?sz)"
      using ok by (simp add: state_size_Inr)
    then have "check_slots p (i # is) occ = check_slots p is occ1"
      using ok occ1 ends Cons.prems by (auto simp: word_less_nat_alt not_le not_less)
    then show ?thesis
      using Cons.IH [of occ1] Cons.prems True m1 by auto
  next
    case False
    have "check_slots p (i # is) occ \<noteq> Inr occ'" for occ'
    proof
      assume "check_slots p (i # is) occ = Inr occ'"
      then obtain s occ1 where s: "state_size (pg_kind p ! i) (pg_cap p ! i) = Inr s"
        "0 \<le> sint (pg_off p ! i)" "pg_off p ! i + s \<le> pg_state_floats p"
        and occ1: "mark_slot i (unat (pg_off p ! i)) (unat s) occ = Inr occ1"
        and raw: "pg_kind p ! i = SK_RAW \<longrightarrow> unat (drop_bit 16 (pg_aux p ! i)) < N_SERIES"
        by (auto split: sum.splits if_splits simp: not_le not_less)
      have ok: "unat (pg_kind p ! i) \<le> 5" "window_ok (pg_kind p ! i) (pg_cap p ! i)"
        "s = of_nat ?sz" using s(1) by (auto simp: state_size_Inr)
      note ends = slot_end_unat [OF ok(2) s(2)]
      have "unat (pg_off p ! i) + ?sz \<le> length occ"
        using s(3) ok(3) ends Cons.prems by (simp add: word_le_nat_alt)
      then show False
        using False ok s(2) raw occ1 ends Cons.prems mark_slot_Inr
        by (auto simp: slot_ok_def slot_cells_def)
    qed
    then show ?thesis using False by auto
  qed
qed

subsection \<open>The code\<close>

definition operand_ok :: "strat_program \<Rightarrow> opcode \<Rightarrow> nat \<Rightarrow> bool" where
  "operand_ok p q arg \<longleftrightarrow>
     (q = OP_PUSH_CONST \<longrightarrow> arg < length (pg_consts p)) \<and>
     (q = OP_PUSH_PARAM \<longrightarrow> arg < length (pg_defaults p)) \<and>
     (q = OP_PUSH_SERIES \<longrightarrow> arg < N_SERIES) \<and>
     (q = OP_PUSH_SERIES_LAG \<longrightarrow> arg div 2 ^ 16 < N_SERIES) \<and>
     (q = OP_PUSH_CTX \<longrightarrow> arg < N_CTX) \<and>
     (q = OP_LOAD \<or> q = OP_STORE \<longrightarrow> arg < unat (pg_locals p)) \<and>
     (\<forall>k. expected_state_kind q = Some k \<longrightarrow> arg < length (pg_kind p) \<and> pg_kind p ! arg = k)"

definition ins_ok :: "strat_program \<Rightarrow> nat \<Rightarrow> int \<Rightarrow> bool" where
  "ins_ok p i depth \<longleftrightarrow> (\<exists>q. ins_op (pg_code p ! i) = Some q \<and>
     operand_ok p q (ins_arg (pg_code p ! i)) \<and> required_stack q \<le> depth \<and>
     depth + stack_delta q \<le> int VM_MAX_STACK \<and> (q = OP_HALT \<longrightarrow> i + 1 = length (pg_code p)))"

definition ins_delta :: "u32 \<Rightarrow> int" where
  "ins_delta w = (case ins_op w of Some q \<Rightarrow> stack_delta q | None \<Rightarrow> 0)"

text \<open>The stack depth before instruction \<open>i\<close>.\<close>

definition depth_at :: "strat_program \<Rightarrow> nat \<Rightarrow> int" where
  "depth_at p i = sum_list (map ins_delta (take i (pg_code p)))"

lemma check_operand_None:
  "check_operand p i q arg = None \<and>
     (case expected_state_kind q of Some k \<Rightarrow> pg_kind p ! arg = k | None \<Rightarrow> True) \<longleftrightarrow>
   operand_ok p q arg"
  by (cases q) (auto simp: check_operand_def operand_ok_def out_of_range_def
    expected_state_kind_def)

lemma check_ins_Inr:
  "check_ins p i depth = Inr depth' \<longleftrightarrow>
     ins_ok p i depth \<and> depth' = depth + ins_delta (pg_code p ! i)"
proof (cases "ins_op (pg_code p ! i)")
  case None
  then show ?thesis by (simp add: check_ins_def ins_ok_def)
next
  case (Some q)
  then show ?thesis
    using check_operand_None [of p i q "ins_arg (pg_code p ! i)"]
    by (auto simp: check_ins_def ins_ok_def ins_delta_def Let_def split: option.splits)
qed

text \<open>
  The loop of the code check from instruction \<open>k\<close> on, its depth and its deepest value.
\<close>

lemma depth_at_Suc: "i < length (pg_code p) \<Longrightarrow>
    depth_at p (Suc i) = depth_at p i + ins_delta (pg_code p ! i)"
  by (simp add: depth_at_def take_Suc_conv_app_nth)

lemma Max_insert_twice:
  "finite S \<Longrightarrow> Max (insert m (insert a S)) = Max (insert (if a > m then a else m) S)"
  for a :: int
  by (cases "S = {}") (auto simp: max_def)

lemma check_code_Inr:
  assumes "k \<le> length (pg_code p)"
  shows "check_code p [k..<length (pg_code p)] (depth_at p k) m = Inr (d', m') \<longleftrightarrow>
     (\<forall>i. k \<le> i \<and> i < length (pg_code p) \<longrightarrow> ins_ok p i (depth_at p i)) \<and>
     d' = depth_at p (length (pg_code p)) \<and>
     m' = Max (insert m (depth_at p ` {Suc k..length (pg_code p)}))"
  using assms
proof (induction "length (pg_code p) - k" arbitrary: k m)
  case 0
  then have "k = length (pg_code p)" by simp
  then show ?case by auto
next
  case (Suc n)
  let ?n = "length (pg_code p)"
  from Suc.hyps have k: "k < ?n" by simp
  then have up: "[k..<?n] = k # [Suc k..<?n]" by (simp add: upt_rec)
  have cells: "{Suc k..?n} = insert (Suc k) {Suc (Suc k)..?n}" using k by auto
  have mx: "Max (insert m (depth_at p ` {Suc k..?n})) =
      Max (insert (if depth_at p (Suc k) > m then depth_at p (Suc k) else m)
        (depth_at p ` {Suc (Suc k)..?n}))"
    unfolding cells image_insert by (rule Max_insert_twice) simp
  have all: "(\<forall>i. k \<le> i \<and> i < ?n \<longrightarrow> ins_ok p i (depth_at p i)) \<longleftrightarrow>
      ins_ok p k (depth_at p k) \<and> (\<forall>i. Suc k \<le> i \<and> i < ?n \<longrightarrow> ins_ok p i (depth_at p i))"
    using k by (metis Suc_le_eq le_neq_implies_less order_refl less_imp_le_nat)
  show ?case
  proof (cases "ins_ok p k (depth_at p k)")
    case True
    then have "check_ins p k (depth_at p k) = Inr (depth_at p (Suc k))"
      using k by (simp add: check_ins_Inr depth_at_Suc)
    then show ?thesis
      using Suc.hyps(1) [of "Suc k"] Suc.hyps(2) k True
      by (simp add: up mx all)
  next
    case False
    then have "check_ins p k (depth_at p k) \<noteq> Inr x" for x by (simp add: check_ins_Inr)
    then show ?thesis using False k by (auto simp: up split: sum.splits)
  qed
qed

subsection \<open>Accepted programs\<close>

lemma check_finite_None: "check_finite msg i xs = None \<longleftrightarrow> (\<forall>x \<in> set xs. isfinite_bits x)"
  by (induction xs arbitrary: i) auto

definition slots_ok :: "strat_program \<Rightarrow> bool" where
  "slots_ok p \<longleftrightarrow> (\<forall>i < length (pg_kind p). slot_ok p i) \<and>
     (\<forall>j < length (pg_kind p). \<forall>i < j. slot_cells p i \<inter> slot_cells p j = {})"

definition code_ok :: "strat_program \<Rightarrow> bool" where
  "code_ok p \<longleftrightarrow> (\<forall>i < length (pg_code p). ins_ok p i (depth_at p i)) \<and>
     ins_op (last (pg_code p)) = Some OP_HALT \<and> depth_at p (length (pg_code p)) = 0 \<and>
     int (unat (pg_max_stack p)) = Max (depth_at p ` {0..length (pg_code p)})"

definition program_ok :: "strat_program \<Rightarrow> bool" where
  "program_ok p \<longleftrightarrow> layout_ok p \<and> slots_ok p \<and> code_ok p \<and>
     (\<forall>x \<in> set (pg_consts p). isfinite_bits x) \<and> (\<forall>x \<in> set (pg_defaults p). isfinite_bits x)"

lemma depth_at_0 [simp]: "depth_at p 0 = 0"
  by (simp add: depth_at_def)

lemma depth_at_range:
  assumes "\<forall>i < length (pg_code p). ins_ok p i (depth_at p i)" "i \<le> length (pg_code p)"
  shows "0 \<le> depth_at p i \<and> depth_at p i \<le> 32"
proof (cases i)
  case (Suc j)
  then have "ins_ok p j (depth_at p j)" and j: "j < length (pg_code p)" using assms by auto
  then obtain q where q: "ins_op (pg_code p ! j) = Some q" "required_stack q \<le> depth_at p j"
    "depth_at p j + stack_delta q \<le> 32"
    by (auto simp: ins_ok_def)
  have "0 \<le> required_stack q + stack_delta q"
    by (cases q) (simp_all add: required_stack_def stack_delta_def)
  moreover have "depth_at p i = depth_at p j + stack_delta q"
    using Suc j q(1) by (simp add: depth_at_Suc ins_delta_def)
  ultimately show ?thesis using q by linarith
qed simp

lemma slots_checked:
  "(\<exists>occ. check_slots p [0..<length (pg_kind p)]
      (replicate (unat (pg_state_floats p)) False) = Inr occ) \<longleftrightarrow> slots_ok p"
proof -
  have "sorted_wrt (\<lambda>i j. slot_cells p i \<inter> slot_cells p j = {}) [0..<length (pg_kind p)] \<longleftrightarrow>
      (\<forall>j < length (pg_kind p). \<forall>i < j. slot_cells p i \<inter> slot_cells p j = {})"
    by (simp add: sorted_wrt_iff_nth_less) (metis less_trans)
  then show ?thesis
    by (subst check_slots_Inr) (auto simp: slots_ok_def)
qed

lemma code_checked:
  assumes "layout_ok p"
  shows "(\<exists>d m. check_code p [0..<length (pg_code p)] 0 0 = Inr (d, m) \<and> d = 0 \<and>
      pg_max_stack p = word_of_int m) \<and> ins_op (last (pg_code p)) = Some OP_HALT \<longleftrightarrow> code_ok p"
proof -
  let ?n = "length (pg_code p)"
  let ?D = "depth_at p ` {0..?n}"
  have "{0..?n} = insert 0 {Suc 0..?n}" by (simp add: atLeastAtMost_insertL)
  then have ins: "insert 0 (depth_at p ` {Suc 0..?n}) = ?D" by simp
  have word: "pg_max_stack p = word_of_int (Max ?D) \<longleftrightarrow> int (unat (pg_max_stack p)) = Max ?D"
    if "\<forall>i < ?n. ins_ok p i (depth_at p i)"
  proof -
    have "Max ?D \<in> ?D" by (rule Max_in) auto
    then obtain i where "i \<le> ?n" "Max ?D = depth_at p i" by fastforce
    then have b: "0 \<le> Max ?D" "Max ?D \<le> 32" using depth_at_range [OF that] by simp_all
    have "uint (word_of_int x :: u32) = x" if "0 \<le> x" "x \<le> 32" for x
      using that by (simp add: uint_word_of_int)
    then have "uint (word_of_int (Max ?D) :: u32) = Max ?D" using b by blast
    then show ?thesis by (simp add: word_uint_eq_iff)
  qed
  have "check_code p [0..<?n] 0 0 = Inr (d, m) \<longleftrightarrow>
      (\<forall>i < ?n. ins_ok p i (depth_at p i)) \<and> d = depth_at p ?n \<and> m = Max ?D" for d m
    using check_code_Inr [of 0 p 0 d m] ins by simp
  then show ?thesis
    using word unfolding code_ok_def
    by (cases "\<forall>i < ?n. ins_ok p i (depth_at p i)") auto
qed

lemma validate_None:
  "validate p = None \<longleftrightarrow>
     (\<exists>occ. check_slots p [0..<length (pg_kind p)]
        (replicate (unat (pg_state_floats p)) False) = Inr occ) \<and>
     (\<forall>x \<in> set (pg_consts p). isfinite_bits x) \<and> (\<forall>x \<in> set (pg_defaults p). isfinite_bits x) \<and>
     (\<exists>d m. check_code p [0..<length (pg_code p)] 0 0 = Inr (d, m) \<and> d = 0 \<and>
        pg_max_stack p = word_of_int m) \<and> ins_op (last (pg_code p)) = Some OP_HALT"
  unfolding validate_def check_finite_None [symmetric, of "pg_consts p" "''const %u is not finite''" 0]
    check_finite_None [symmetric, of "pg_defaults p" "''param %u default is not finite''" 0]
  by (simp split: sum.splits option.splits prod.splits)

lemma validate_iff:
  "layout_ok p \<Longrightarrow> validate p = None \<longleftrightarrow> slots_ok p \<and> code_ok p \<and>
     (\<forall>x \<in> set (pg_consts p). isfinite_bits x) \<and> (\<forall>x \<in> set (pg_defaults p). isfinite_bits x)"
  unfolding validate_None slots_checked by (subst code_checked [symmetric]) blast+

lemma parse_Inr: "parse d = Inr p \<longleftrightarrow> layout_ok p \<and> d = obp1_image p \<and> validate p = None"
  using parse_layout_exact [of d p]
  by (auto simp: parse_def split: sum.splits option.splits)

lemma parse_iff: "parse d = Inr p \<longleftrightarrow> program_ok p \<and> d = obp1_image p"
  unfolding parse_Inr program_ok_def using validate_iff [of p] by blast

end
