(* ===== verification/Binary32.thy ===== *)
theory Binary32
  imports Prelude
begin

text \<open>
  The C++ type \<open>float\<close> (IEEE 754 binary32, round to nearest, ties to even), as far as
  the trading code uses it: decoding a bit pattern, the arithmetic and comparison operators,
  \<open>fabsf\<close>, \<open>sqrtf\<close>, \<open>std::floor\<close>, \<open>std::isfinite\<close>, and the
  conversions to and from integers. A finite value is its sign, significand and exponent,
  \<open>(-1)^s * m * 2^e\<close>; an operation computes the exact result on integers and rounds
  once. Not-a-number payloads are not kept: the code never observes them. The conversion of
  a float to an integer type that cannot represent it is undefined in C++; here it is
  \<open>None\<close>.
\<close>

datatype f32 = NaN | Inf bool | Fin bool int int

subsection \<open>Rounding\<close>

fun nbits :: "int \<Rightarrow> int" where
  "nbits n = (if n \<le> 0 then 0 else 1 + nbits (n div 2))"

declare nbits.simps [simp del]

text \<open>
  The quotient of two positive numbers, rounded to an integer (nearest, ties to even).
\<close>

definition round_div :: "int \<Rightarrow> int \<Rightarrow> int" where
  "round_div n d = (let t = n div d; r = n mod d in
     if d < 2 * r \<or> (2 * r = d \<and> odd t) then t + 1 else t)"

text \<open>\<open>n / d * 2^e\<close> in units of \<open>2^q\<close>, rounded to an integer.\<close>

definition scaled :: "int \<Rightarrow> int \<Rightarrow> int \<Rightarrow> int \<Rightarrow> int" where
  "scaled n d e q =
     (if q \<le> e then round_div (n * 2 ^ nat (e - q)) d else round_div n (d * 2 ^ nat (q - e)))"

text \<open>Whether \<open>2^k \<le> n / d\<close>.\<close>

definition pow_le :: "int \<Rightarrow> int \<Rightarrow> int \<Rightarrow> bool" where
  "pow_le k n d = (if 0 \<le> k then d * 2 ^ nat k \<le> n else d \<le> n * 2 ^ nat (- k))"

definition log2_quot :: "int \<Rightarrow> int \<Rightarrow> int" where
  "log2_quot n d = (let k = nbits n - nbits d in if pow_le k n d then k else k - 1)"

definition round_f32 :: "bool \<Rightarrow> int \<Rightarrow> int \<Rightarrow> int \<Rightarrow> f32" where
  "round_f32 s n d e =
     (if n = 0 then Fin s 0 (-149)
      else let q = max (-149) (e + log2_quot n d - 23);
               t = scaled n d e q;
               (t', q') = (if t = 2 ^ 24 then (2 ^ 23, q + 1) else (t, q))
           in if 104 < q' then Inf s else Fin s t' q')"

subsection \<open>Bit patterns and integers\<close>

definition f32_of_bits :: "u32 \<Rightarrow> f32" where
  "f32_of_bits b =
     (let s = bit b 31; x = uint (drop_bit 23 b AND 0xFF); f = uint (b AND 0x7FFFFF) in
      if x = 255 then (if f = 0 then Inf s else NaN)
      else if x = 0 then Fin s f (-149)
      else Fin s (f + 2 ^ 23) (x - 150))"

definition f32_of_int :: "int \<Rightarrow> f32" where
  "f32_of_int i = round_f32 (i < 0) \<bar>i\<bar> 1 0"

definition f32_of_u32 :: "u32 \<Rightarrow> f32" where
  "f32_of_u32 w = f32_of_int (uint w)"

text \<open>The integer part of a finite value, towards zero.\<close>

definition trunc_mag :: "int \<Rightarrow> int \<Rightarrow> int" where
  "trunc_mag m e = (if 0 \<le> e then m * 2 ^ nat e else m div 2 ^ nat (- e))"

fun f32_trunc :: "f32 \<Rightarrow> int option" where
  "f32_trunc (Fin s m e) = Some (if s then - trunc_mag m e else trunc_mag m e)"
| "f32_trunc _ = None"

definition int32_of_f32 :: "f32 \<Rightarrow> int option" where
  "int32_of_f32 x = (case f32_trunc x of
     Some i \<Rightarrow> if - (2 ^ 31) \<le> i \<and> i < 2 ^ 31 then Some i else None
   | None \<Rightarrow> None)"

definition u32_of_f32 :: "f32 \<Rightarrow> u32 option" where
  "u32_of_f32 x = (case f32_trunc x of
     Some i \<Rightarrow> if 0 \<le> i \<and> i < 2 ^ 32 then Some (word_of_int i) else None
   | None \<Rightarrow> None)"

fun f32_finite :: "f32 \<Rightarrow> bool" where
  "f32_finite (Fin _ _ _) = True"
| "f32_finite _ = False"

text \<open>\<open>std::floor\<close>: the largest integer value not above the argument.\<close>

fun f32_floor :: "f32 \<Rightarrow> f32" where
  "f32_floor (Fin s m e) =
     (if 0 \<le> e then Fin s m e
      else let q = m div 2 ^ nat (- e); r = m mod 2 ^ nat (- e) in
           if s then (if r = 0 then round_f32 True q 1 0 else round_f32 True (q + 1) 1 0)
           else round_f32 False q 1 0)"
| "f32_floor x = x"

subsection \<open>Arithmetic\<close>

text \<open>The value of a finite float as a multiple of \<open>2^k\<close>, for \<open>k \<le> e\<close>.\<close>

definition fix_val :: "bool \<Rightarrow> int \<Rightarrow> int \<Rightarrow> int \<Rightarrow> int" where
  "fix_val s m e k = (let v = m * 2 ^ nat (e - k) in if s then - v else v)"

fun f32_neg :: "f32 \<Rightarrow> f32" where
  "f32_neg NaN = NaN"
| "f32_neg (Inf s) = Inf (\<not> s)"
| "f32_neg (Fin s m e) = Fin (\<not> s) m e"

fun f32_abs :: "f32 \<Rightarrow> f32" where
  "f32_abs NaN = NaN"
| "f32_abs (Inf s) = Inf False"
| "f32_abs (Fin s m e) = Fin False m e"

fun f32_add :: "f32 \<Rightarrow> f32 \<Rightarrow> f32" where
  "f32_add (Fin s m e) (Fin t n f) =
     (let k = min e f; v = fix_val s m e k + fix_val t n f k in
      if v = 0 then Fin (s \<and> t \<and> m = 0 \<and> n = 0) 0 (-149)
      else round_f32 (v < 0) \<bar>v\<bar> 1 k)"
| "f32_add (Inf s) (Inf t) = (if s = t then Inf s else NaN)"
| "f32_add (Inf s) (Fin _ _ _) = Inf s"
| "f32_add (Fin _ _ _) (Inf s) = Inf s"
| "f32_add NaN _ = NaN"
| "f32_add _ NaN = NaN"

definition f32_sub :: "f32 \<Rightarrow> f32 \<Rightarrow> f32" where
  "f32_sub x y = f32_add x (f32_neg y)"

fun f32_mul :: "f32 \<Rightarrow> f32 \<Rightarrow> f32" where
  "f32_mul (Fin s m e) (Fin t n f) = round_f32 (s \<noteq> t) (m * n) 1 (e + f)"
| "f32_mul (Inf s) (Inf t) = Inf (s \<noteq> t)"
| "f32_mul (Inf s) (Fin t n _) = (if n = 0 then NaN else Inf (s \<noteq> t))"
| "f32_mul (Fin s m _) (Inf t) = (if m = 0 then NaN else Inf (s \<noteq> t))"
| "f32_mul NaN _ = NaN"
| "f32_mul _ NaN = NaN"

fun f32_div :: "f32 \<Rightarrow> f32 \<Rightarrow> f32" where
  "f32_div (Fin s m e) (Fin t n f) =
     (if n = 0 then (if m = 0 then NaN else Inf (s \<noteq> t))
      else round_f32 (s \<noteq> t) m n (e - f))"
| "f32_div (Inf s) (Inf t) = NaN"
| "f32_div (Inf s) (Fin t n _) = Inf (s \<noteq> t)"
| "f32_div (Fin s m _) (Inf t) = Fin (s \<noteq> t) 0 (-149)"
| "f32_div NaN _ = NaN"
| "f32_div _ NaN = NaN"

fun isqrt :: "int \<Rightarrow> int" where
  "isqrt n = (if n \<le> 0 then 0 else
     (let r = 2 * isqrt (n div 4) in if (r + 1) * (r + 1) \<le> n then r + 1 else r))"

declare isqrt.simps [simp del]

text \<open>
  The square root of \<open>m * 2^e\<close>: the significand is scaled by an even power of two to
  at least 52 bits, so its integer root has more bits than a result keeps and a root that is
  not exact lies strictly between two of them, never on a tie.
\<close>

fun f32_sqrt :: "f32 \<Rightarrow> f32" where
  "f32_sqrt (Fin s m e) =
     (if m = 0 then Fin s m e
      else if s then NaN
      else let k = (if even e then 52 else 53); M = m * 2 ^ nat k; r = isqrt M;
               h = (e - k) div 2
           in if r * r = M then round_f32 False r 1 h else round_f32 False (2 * r + 1) 2 h)"
| "f32_sqrt (Inf s) = (if s then NaN else Inf False)"
| "f32_sqrt NaN = NaN"

subsection \<open>Comparison\<close>

fun f32_lt :: "f32 \<Rightarrow> f32 \<Rightarrow> bool" where
  "f32_lt (Fin s m e) (Fin t n f) =
     (let k = min e f in fix_val s m e k < fix_val t n f k)"
| "f32_lt (Inf s) (Inf t) = (s \<and> \<not> t)"
| "f32_lt (Inf s) (Fin _ _ _) = s"
| "f32_lt (Fin _ _ _) (Inf t) = (\<not> t)"
| "f32_lt NaN _ = False"
| "f32_lt _ NaN = False"

fun f32_eq :: "f32 \<Rightarrow> f32 \<Rightarrow> bool" where
  "f32_eq (Fin s m e) (Fin t n f) =
     (let k = min e f in fix_val s m e k = fix_val t n f k)"
| "f32_eq (Inf s) (Inf t) = (s = t)"
| "f32_eq _ _ = False"

definition f32_le :: "f32 \<Rightarrow> f32 \<Rightarrow> bool" where
  "f32_le x y = (f32_lt x y \<or> f32_eq x y)"

subsection \<open>The literals of the code\<close>

abbreviation f_zero :: f32 where "f_zero \<equiv> Fin False 0 (-149)"
abbreviation f_one :: f32 where "f_one \<equiv> f32_of_int 1"

text \<open>\<open>x != 0.0f\<close>, true of not-a-number.\<close>

abbreviation f32_nonzero :: "f32 \<Rightarrow> bool" where
  "f32_nonzero x \<equiv> \<not> f32_eq x f_zero"

abbreviation f32_pos :: "f32 \<Rightarrow> bool" where
  "f32_pos x \<equiv> f32_lt f_zero x"

subsection \<open>Small integers are exact\<close>

lemma nbits_bounds: "0 < n \<Longrightarrow> 1 \<le> nbits n \<and> 2 ^ nat (nbits n - 1) \<le> n \<and> n < 2 ^ nat (nbits n)"
proof (induction n rule: nbits.induct)
  case (1 n)
  show ?case
  proof (cases "n = 1")
    case True
    then show ?thesis by (simp add: nbits.simps [of 1] nbits.simps [of 0])
  next
    case False
    with "1.prems" have pos: "0 < n div 2" by linarith
    with "1.IH" "1.prems" have IH: "1 \<le> nbits (n div 2)"
      "2 ^ nat (nbits (n div 2) - 1) \<le> n div 2" "n div 2 < 2 ^ nat (nbits (n div 2))"
      by auto
    have "nbits n = 1 + nbits (n div 2)" using "1.prems" by (simp add: nbits.simps [of n])
    moreover from this have "nat (nbits n) = Suc (nat (nbits (n div 2)))"
      "nat (nbits n - 1) = Suc (nat (nbits (n div 2) - 1))"
      using IH(1) by (simp_all add: nat_add_distrib flip: Suc_nat_eq_nat_zadd1)
    moreover have "n div 2 * 2 \<le> n" "n < n div 2 * 2 + 2" by linarith+
    ultimately show ?thesis using IH by (simp add: power_Suc)
  qed
qed

lemma round_div_1 [simp]: "round_div n 1 = n"
  by (simp add: round_div_def)

lemma f32_of_int_exact:
  assumes "0 < c" "c < 2 ^ 24"
  obtains k where "k \<le> 23" "f32_of_int c = Fin False (c * 2 ^ k) (- int k)"
proof -
  define k where "k = nbits c - 1"
  have k: "0 \<le> k" "2 ^ nat k \<le> c" "c < 2 ^ Suc (nat k)"
  proof -
    have "nat (nbits c) = Suc (nat k)" using nbits_bounds [OF assms(1)] unfolding k_def by linarith
    then show "0 \<le> k" "2 ^ nat k \<le> c" "c < 2 ^ Suc (nat k)"
      using nbits_bounds [OF assms(1)] by (simp_all add: k_def)
  qed
  have "nat k < 24"
  proof (rule ccontr)
    assume "\<not> nat k < 24"
    then have "(2 :: int) ^ 24 \<le> 2 ^ nat k" by (intro power_increasing) auto
    then show False using k assms by linarith
  qed
  then have k23: "k \<le> 23" using k(1) by linarith
  have one: "nbits 1 = 1" by (simp add: nbits.simps [of 1] nbits.simps [of 0])
  have log: "log2_quot c 1 = k"
    using k by (simp add: log2_quot_def one pow_le_def k_def [symmetric])
  define j where "j = nat (23 - k)"
  have sc: "scaled c 1 0 (k - 23) = c * 2 ^ j"
    using k23 by (simp add: scaled_def j_def)
  have "c * 2 ^ j < 2 ^ Suc (nat k) * 2 ^ j" using k(3) by (intro mult_strict_right_mono) auto
  also have "\<dots> = (2 :: int) ^ 24"
    using k(1) k23 by (simp flip: power_add) (simp add: j_def nat_diff_distrib flip: nat_add_distrib)
  finally have "c * 2 ^ j \<noteq> 2 ^ 24" by simp
  then have "f32_of_int c = Fin False (c * 2 ^ j) (- int j)"
    using assms k(1) k23 log sc
    by (simp add: f32_of_int_def round_f32_def Let_def max_def) (simp add: j_def)
  then show ?thesis using that [of j] k(1) by (simp add: j_def)
qed

lemma f32_count_limit: "f32_of_int (2 ^ 24) = Fin False (2 ^ 23) 1"
  "f32_of_int (2 ^ 24 + 1) = f32_of_int (2 ^ 24)"
  by code_simp+

lemma int32_of_f32_of_int:
  assumes "0 \<le> c" "c \<le> 2 ^ 24"
  shows "int32_of_f32 (f32_of_int c) = Some c"
proof -
  consider "c = 0" | "0 < c" "c < 2 ^ 24" | "c = 2 ^ 24" using assms by linarith
  then show ?thesis
  proof cases
    case 1
    then show ?thesis by (simp add: f32_of_int_def round_f32_def int32_of_f32_def trunc_mag_def)
  next
    case 2
    then obtain k where "k \<le> 23" "f32_of_int c = Fin False (c * 2 ^ k) (- int k)"
      by (rule f32_of_int_exact)
    then show ?thesis using 2 by (simp add: int32_of_f32_def trunc_mag_def)
  next
    case 3
    then show ?thesis by (simp only: f32_count_limit) (simp add: int32_of_f32_def trunc_mag_def)
  qed
qed

end
