(* ===== verification/BarBuilder.thy ===== *)
theory BarBuilder
  imports Binary32
begin

text \<open>
  The bar builder of \<open>src/sw/trade/bar_builder.hpp\<close>: trade prints are gathered in
  buckets of \<open>bar_ns\<close> nanoseconds, a print in a later bucket closes the open bar, and
  each empty bucket in between becomes a flat bar.
\<close>

record bar_series =
  bs_o :: "f32 list"
  bs_h :: "f32 list"
  bs_l :: "f32 list"
  bs_c :: "f32 list"
  bs_v :: "f32 list"

definition no_bars :: bar_series where
  "no_bars = \<lparr>bs_o = [], bs_h = [], bs_l = [], bs_c = [], bs_v = []\<rparr>"

text \<open>
  \<open>(int)c.size()\<close>: the number of bars narrowed to 32 bits, negative from \<open>2 ^ 31\<close> bars on.
\<close>

definition series_size :: "bar_series \<Rightarrow> int" where
  "series_size s = sint (of_nat (length (bs_c s)) :: 32 word)"

record bar_builder =
  bb_ns :: u64
  bb_bucket :: int
  bb_o :: f32
  bb_h :: f32
  bb_l :: f32
  bb_c :: f32
  bb_vol :: f32
  bb_open :: bool
  bb_bars :: bar_series

definition new_builder :: "u64 \<Rightarrow> bar_builder" where
  "new_builder ns = \<lparr>bb_ns = ns, bb_bucket = 0, bb_o = f_zero, bb_h = f_zero, bb_l = f_zero,
     bb_c = f_zero, bb_vol = f_zero, bb_open = False, bb_bars = no_bars\<rparr>"

definition emit :: "f32 \<Rightarrow> f32 \<Rightarrow> f32 \<Rightarrow> f32 \<Rightarrow> f32 \<Rightarrow> bar_series \<Rightarrow> bar_series" where
  "emit p_o p_h p_l p_c p_v s = s\<lparr>bs_o := bs_o s @ [p_o], bs_h := bs_h s @ [p_h],
     bs_l := bs_l s @ [p_l], bs_c := bs_c s @ [p_c], bs_v := bs_v s @ [p_v]\<rparr>"

text \<open>The gap loop, \<open>for (b = cur + 1; b < bucket; ++b)\<close>, by its number of rounds.\<close>

fun emit_gap :: "nat \<Rightarrow> f32 \<Rightarrow> bar_series \<Rightarrow> bar_series" where
  "emit_gap 0 c s = s"
| "emit_gap (Suc n) c s = emit_gap n c (emit c c c c f_zero s)"

text \<open>
  \<open>on_trade\<close> returns the number of completed bars. The bucket is an \<open>int64_t\<close>
  converted from an unsigned quotient. Two things are undefined in C++ and \<open>None\<close> here: the
  division by \<open>bar_ns = 0\<close> (\<open>run_session\<close> rejects it), and the overflow of \<open>int completed\<close> when
  one trade completes \<open>2 ^ 31\<close> bars or more.
\<close>

definition bucket_of :: "u64 \<Rightarrow> u64 \<Rightarrow> int" where
  "bucket_of ts ns = sint (ts div ns)"

definition on_trade :: "u64 \<Rightarrow> u32 \<Rightarrow> u32 \<Rightarrow> bar_builder \<Rightarrow> (bar_builder \<times> int) option" where
  "on_trade ts price shares b =
     (if bb_ns b = 0 then None
      else (let px = f32_of_u32 price; bucket = bucket_of ts (bb_ns b) in
        if \<not> bb_open b
        then Some (b\<lparr>bb_open := True, bb_bucket := bucket, bb_o := px, bb_h := px, bb_l := px,
                     bb_c := px, bb_vol := f32_of_u32 shares\<rparr>, 0)
        else if bucket \<le> bb_bucket b
        then Some (b\<lparr>bb_h := (if f32_lt (bb_h b) px then px else bb_h b),
                     bb_l := (if f32_lt px (bb_l b) then px else bb_l b),
                     bb_c := px, bb_vol := f32_add (bb_vol b) (f32_of_u32 shares)\<rparr>, 0)
        else (let gap = nat (bucket - bb_bucket b - 1) in
          if 1 + int gap \<ge> 2 ^ 31 then None
          else Some (b\<lparr>bb_bars := emit_gap gap (bb_c b)
                        (emit (bb_o b) (bb_h b) (bb_l b) (bb_c b) (bb_vol b) (bb_bars b)),
                      bb_bucket := bucket, bb_o := px, bb_h := px, bb_l := px,
                      bb_c := px, bb_vol := f32_of_u32 shares\<rparr>, 1 + int gap))))"

definition flush :: "bar_builder \<Rightarrow> bar_builder \<times> int" where
  "flush b =
     (if \<not> bb_open b then (b, 0)
      else (b\<lparr>bb_bars := emit (bb_o b) (bb_h b) (bb_l b) (bb_c b) (bb_vol b) (bb_bars b),
              bb_open := False\<rparr>, 1))"

end
