(* ===== verification/StrategyVm.thy ===== *)
theory StrategyVm
  imports StrategyProgram BarBuilder
begin

text \<open>
  The per-bar interpreter of \<open>src/sw/trade/dsl_vm.cpp\<close>. The C++ code indexes raw arrays
  without checks; here every access is checked and an access out of bounds, a division by
  zero or a float-to-int conversion out of range (each undefined behaviour in C++) is a value
  of \<open>vm_fault\<close>. \<open>logf\<close> has no specified rounding: it is the parameter \<open>lg\<close>.
\<close>

datatype vm_fault = Stack_fault | Pool_fault | Local_fault | State_fault | Series_fault
  | Cast_fault | Div_fault

record signals =
  sg_el :: bool
  sg_xl :: bool
  sg_es :: bool
  sg_xs :: bool
  sg_stop :: f32
  sg_tp :: f32
  sg_trail :: f32
  sg_size :: f32

definition no_signals :: signals where
  "no_signals = \<lparr>sg_el = False, sg_xl = False, sg_es = False, sg_xs = False, sg_stop = f_zero,
     sg_tp = f_zero, sg_trail = f_zero, sg_size = f_one\<rparr>"

record vm_ctx =
  cx_position :: f32
  cx_entry_px :: f32
  cx_equity :: f32

record strategy_vm =
  vm_prog :: strat_program
  vm_params :: "f32 list"
  vm_state :: "f32 list"
  vm_locals :: "f32 list"

definition new_vm :: "strat_program \<Rightarrow> f32 list \<Rightarrow> strategy_vm option" where
  "new_vm p params =
     (let ps = (if params = [] then map f32_of_bits (pg_defaults p) else params) in
      if length ps \<noteq> length (pg_defaults p) then None
      else Some \<lparr>vm_prog = p, vm_params = ps,
        vm_state = replicate (unat (pg_state_floats p)) f_zero,
        vm_locals = replicate (if pg_locals p > 0 then unat (pg_locals p) else 1) f_zero\<rparr>)"

text \<open>
  The registers of one \<open>step\<close>: the stack (\<open>stack[0..sp)\<close>, its top first), the state
  block, the locals and the signals gathered so far.
\<close>

record vm_regs =
  rg_stack :: "f32 list"
  rg_state :: "f32 list"
  rg_locals :: "f32 list"
  rg_sig :: signals

type_synonym 'a vm_result = "vm_fault + 'a"

definition and_then :: "'a vm_result \<Rightarrow> ('a \<Rightarrow> 'b vm_result) \<Rightarrow> 'b vm_result" where
  "and_then r f = (case r of Inl e \<Rightarrow> Inl e | Inr x \<Rightarrow> f x)"

definition at_index :: "vm_fault \<Rightarrow> 'a list \<Rightarrow> int \<Rightarrow> 'a vm_result" where
  "at_index e xs i = (if 0 \<le> i \<and> i < int (length xs) then Inr (xs ! nat i) else Inl e)"

definition put_index :: "vm_fault \<Rightarrow> 'a list \<Rightarrow> int \<Rightarrow> 'a \<Rightarrow> 'a list vm_result" where
  "put_index e xs i x =
     (if 0 \<le> i \<and> i < int (length xs) then Inr (xs[nat i := x]) else Inl e)"

definition push :: "f32 \<Rightarrow> vm_regs \<Rightarrow> vm_regs vm_result" where
  "push x r = (if length (rg_stack r) < VM_MAX_STACK then Inr (r\<lparr>rg_stack := x # rg_stack r\<rparr>)
     else Inl Stack_fault)"

definition pop :: "vm_regs \<Rightarrow> (f32 \<times> vm_regs) vm_result" where
  "pop r = (case rg_stack r of [] \<Rightarrow> Inl Stack_fault
     | x # xs \<Rightarrow> Inr (x, r\<lparr>rg_stack := xs\<rparr>))"

definition unop :: "(f32 \<Rightarrow> f32) \<Rightarrow> vm_regs \<Rightarrow> vm_regs vm_result" where
  "unop f r = and_then (pop r) (\<lambda>(x, r). push (f x) r)"

definition binop :: "(f32 \<Rightarrow> f32 \<Rightarrow> f32) \<Rightarrow> vm_regs \<Rightarrow> vm_regs vm_result" where
  "binop f r = and_then (pop r) (\<lambda>(y, r). and_then (pop r) (\<lambda>(x, r). push (f x y) r))"

definition to_int :: "f32 \<Rightarrow> int vm_result" where
  "to_int x = (case int32_of_f32 x of Some i \<Rightarrow> Inr i | None \<Rightarrow> Inl Cast_fault)"

definition f_bool :: "bool \<Rightarrow> f32" where
  "f_bool b = (if b then f_one else f_zero)"

text \<open>The remainder of C++, which takes the sign of the dividend.\<close>

definition c_rem :: "int \<Rightarrow> int \<Rightarrow> int vm_result" where
  "c_rem a b = (if b = 0 then Inl Div_fault else Inr (sgn a * (\<bar>a\<bar> mod \<bar>b\<bar>)))"

subsection \<open>Series\<close>

definition series_of :: "bar_series \<Rightarrow> int \<Rightarrow> f32 list" where
  "series_of s sid = (if sid = 0 then bs_o s else if sid = 1 then bs_h s
     else if sid = 2 then bs_l s else if sid = 3 then bs_c s else bs_v s)"

text \<open>\<open>s[idx > 0 ? idx : 0]\<close>\<close>

definition lagged :: "f32 list \<Rightarrow> int \<Rightarrow> f32 vm_result" where
  "lagged s idx = at_index Series_fault s (if idx > 0 then idx else 0)"

text \<open>The values of a loop's reads, in the order of the loop.\<close>

fun read_all :: "(int \<Rightarrow> f32 vm_result) \<Rightarrow> int list \<Rightarrow> f32 list vm_result" where
  "read_all f [] = Inr []"
| "read_all f (i # is) = and_then (f i) (\<lambda>x. and_then (read_all f is) (\<lambda>xs. Inr (x # xs)))"

definition highest :: "f32 \<Rightarrow> f32 list \<Rightarrow> f32" where
  "highest x xs = foldl (\<lambda>acc xi. if f32_lt acc xi then xi else acc) x xs"

definition lowest :: "f32 \<Rightarrow> f32 list \<Rightarrow> f32" where
  "lowest x xs = foldl (\<lambda>acc xi. if f32_lt xi acc then xi else acc) x xs"

definition sum_f32 :: "f32 list \<Rightarrow> f32" where
  "sum_f32 xs = foldl f32_add f_zero xs"

definition mean_f32 :: "int \<Rightarrow> f32 list \<Rightarrow> f32" where
  "mean_f32 k xs = f32_div (sum_f32 xs) (f32_of_int k)"

definition stddev_f32 :: "int \<Rightarrow> f32 list \<Rightarrow> f32" where
  "stddev_f32 k xs =
     (let mean = mean_f32 k xs;
          ss = foldl (\<lambda>ss x. f32_add ss (let d = f32_sub x mean in f32_mul d d)) f_zero xs;
          var = f32_div ss (f32_of_int k)
      in if f32_pos var then f32_sqrt var else f_zero)"

text \<open>
  What a window operation computes from the values of its window, oldest first, and their
  number: \<open>OP_HIGHEST\<close> and \<open>OP_LOWEST\<close> read the oldest value before their loop, so
  an empty window is a fault for them.
\<close>

datatype window_fn = W_Sma | W_Highest | W_Lowest | W_Stddev

fun window_value :: "window_fn \<Rightarrow> int \<Rightarrow> f32 list \<Rightarrow> f32 vm_result" where
  "window_value W_Sma k xs = Inr (mean_f32 k xs)"
| "window_value W_Highest k xs = (case xs of [] \<Rightarrow> Inl State_fault | y # ys \<Rightarrow> Inr (highest y ys))"
| "window_value W_Lowest k xs = (case xs of [] \<Rightarrow> Inl State_fault | y # ys \<Rightarrow> Inr (lowest y ys))"
| "window_value W_Stddev k xs = Inr (stddev_f32 k xs)"

subsection \<open>Indicators\<close>

definition at_least_1 :: "int \<Rightarrow> int" where
  "at_least_1 n = (if n < 1 then 1 else n)"

definition clamp_window :: "int \<Rightarrow> int \<Rightarrow> int" where
  "clamp_window n cap = (let m = at_least_1 n in if m > cap then cap else m)"

text \<open>\<open>(a < b) ? a : b\<close>\<close>

definition shorter :: "int \<Rightarrow> int \<Rightarrow> int" where
  "shorter a b = (if a < b then a else b)"

definition st_get :: "int \<Rightarrow> int \<Rightarrow> vm_regs \<Rightarrow> f32 vm_result" where
  "st_get off i r = at_index State_fault (rg_state r) (off + i)"

definition st_put :: "int \<Rightarrow> int \<Rightarrow> f32 \<Rightarrow> vm_regs \<Rightarrow> vm_regs vm_result" where
  "st_put off i x r =
     and_then (put_index State_fault (rg_state r) (off + i) x) (\<lambda>st. Inr (r\<lparr>rg_state := st\<rparr>))"

definition op_ema :: "int \<Rightarrow> vm_regs \<Rightarrow> vm_regs vm_result" where
  "op_ema off r = and_then (pop r) (\<lambda>(n, r). and_then (pop r) (\<lambda>(x, r).
     and_then (to_int n) (\<lambda>i. let n_eff = at_least_1 i in
     and_then (st_get off 0 r) (\<lambda>count. and_then (st_get off 1 r) (\<lambda>v.
     let v' = (if f32_eq count f_zero then x
               else (let alpha = f32_div (f32_of_int 2) (f32_of_int (n_eff + 1))
                     in f32_add v (f32_mul alpha (f32_sub x v))))
     in and_then (st_put off 1 v' r) (\<lambda>r. and_then (st_put off 0 (f32_add count f_one) r)
       (push v')))))))"

definition op_rsi :: "int \<Rightarrow> vm_regs \<Rightarrow> vm_regs vm_result" where
  "op_rsi off r = and_then (pop r) (\<lambda>(n, r). and_then (pop r) (\<lambda>(x, r).
     and_then (to_int n) (\<lambda>i. let n_eff = at_least_1 i in
     and_then (st_get off 0 r) (\<lambda>c. and_then (to_int c) (\<lambda>count.
     and_then
       (if count = 0 then Inr (f32_of_int 50, r)
        else and_then (st_get off 1 r) (\<lambda>prev.
          let delta = f32_sub x prev;
              g = (if f32_pos delta then delta else f_zero);
              lo = (if f32_pos (f32_neg delta) then f32_neg delta else f_zero)
          in and_then (st_get off 2 r) (\<lambda>ag. and_then (st_get off 3 r) (\<lambda>al.
             let ag' = (if count = 1 then g
                        else f32_add ag (f32_div (f32_sub g ag) (f32_of_int n_eff)));
                 al' = (if count = 1 then lo
                        else f32_add al (f32_div (f32_sub lo al) (f32_of_int n_eff)));
                 denom = f32_add ag' al'
             in and_then (st_put off 2 ag' r) (\<lambda>r. and_then (st_put off 3 al' r) (\<lambda>r.
                Inr (if f32_eq denom f_zero then f32_of_int 50
                     else f32_mul (f32_of_int 100) (f32_div ag' denom), r)))))))
     (\<lambda>(res, r). and_then (st_put off 1 x r) (\<lambda>r.
        and_then (st_put off 0 (f32_of_int (count + 1)) r) (push res))))))))"

definition true_range :: "bar_series \<Rightarrow> int \<Rightarrow> f32 vm_result" where
  "true_range s t =
     and_then (at_index Series_fault (bs_h s) t) (\<lambda>h.
     and_then (at_index Series_fault (bs_l s) t) (\<lambda>l.
     if t = 0 then Inr (f32_sub h l)
     else and_then (at_index Series_fault (bs_c s) (t - 1)) (\<lambda>pc.
       let a = f32_sub h l; b1 = f32_abs (f32_sub h pc); c1 = f32_abs (f32_sub l pc);
           m = (if f32_lt c1 b1 then b1 else c1)
       in Inr (if f32_lt m a then a else m))))"

definition op_atr :: "bar_series \<Rightarrow> int \<Rightarrow> int \<Rightarrow> vm_regs \<Rightarrow> vm_regs vm_result" where
  "op_atr s t off r = and_then (pop r) (\<lambda>(n, r). and_then (to_int n) (\<lambda>i.
     let n_eff = at_least_1 i in
     and_then (true_range s t) (\<lambda>tr.
     and_then (st_get off 0 r) (\<lambda>count. and_then (st_get off 1 r) (\<lambda>v.
     let v' = (if f32_eq count f_zero then tr
               else f32_add v (f32_div (f32_sub tr v) (f32_of_int n_eff)))
     in and_then (st_put off 1 v' r) (\<lambda>r. and_then (st_put off 0 (f32_add count f_one) r)
       (push v')))))))"

text \<open>
  The ring of a slot: \<open>[count, buf...]\<close>. Appending a value returns the new count; a read
  of entry \<open>i\<close> is \<open>st[1 + i % cap]\<close>.
\<close>

definition ring_append :: "int \<Rightarrow> int \<Rightarrow> f32 \<Rightarrow> vm_regs \<Rightarrow> (int \<times> vm_regs) vm_result" where
  "ring_append off cap x r =
     and_then (st_get off 0 r) (\<lambda>c. and_then (to_int c) (\<lambda>count.
     and_then (c_rem count cap) (\<lambda>m. and_then (st_put off (1 + m) x r) (\<lambda>r.
     and_then (st_put off 0 (f32_of_int (count + 1)) r) (\<lambda>r. Inr (count + 1, r))))))"

definition ring_read :: "int \<Rightarrow> int \<Rightarrow> vm_regs \<Rightarrow> int \<Rightarrow> f32 vm_result" where
  "ring_read off cap r i = and_then (c_rem i cap) (\<lambda>m. st_get off (1 + m) r)"

definition op_window :: "window_fn \<Rightarrow> int \<Rightarrow> int \<Rightarrow> vm_regs \<Rightarrow> vm_regs vm_result" where
  "op_window w off cap r = and_then (pop r) (\<lambda>(n, r). and_then (pop r) (\<lambda>(x, r).
     and_then (to_int n) (\<lambda>i. let n_eff = clamp_window i cap in
     and_then (ring_append off cap x r) (\<lambda>(count, r).
     let k = shorter count n_eff; base = count - k in
     and_then (read_all (ring_read off cap r) (map (\<lambda>i. base + i) [0..k - 1])) (\<lambda>xs.
     and_then (window_value w k xs) (\<lambda>y. push y r))))))"

definition aux_sid :: "u32 \<Rightarrow> int" where
  "aux_sid aux = sint aux div 2 ^ 16"

definition aux_lag :: "u32 \<Rightarrow> int" where
  "aux_lag aux = uint (aux AND 0xFFFF)"

definition op_window_raw ::
  "window_fn \<Rightarrow> bar_series \<Rightarrow> int \<Rightarrow> int \<Rightarrow> u32 \<Rightarrow> vm_regs \<Rightarrow> vm_regs vm_result" where
  "op_window_raw w s t cap aux r = and_then (pop r) (\<lambda>(n, r). and_then (to_int n) (\<lambda>i.
     let n_eff = clamp_window i cap; k = shorter (t + 1) n_eff;
         j0 = t - k + 1 in
     and_then (read_all (\<lambda>j. lagged (series_of s (aux_sid aux)) (j - aux_lag aux)) [j0..t]) (\<lambda>xs.
     and_then (window_value w k xs) (\<lambda>y. push y r))))"

definition clamp_back :: "int \<Rightarrow> int \<Rightarrow> int \<Rightarrow> int" where
  "clamp_back kk cap count =
     (let k0 = (if kk < 0 then 0 else kk); k_eff = (if k0 > cap - 1 then cap - 1 else k0);
          avail = shorter count cap
      in shorter k_eff (avail - 1))"

definition op_delay_raw :: "bar_series \<Rightarrow> int \<Rightarrow> int \<Rightarrow> u32 \<Rightarrow> vm_regs \<Rightarrow> vm_regs vm_result" where
  "op_delay_raw s t cap aux r = and_then (pop r) (\<lambda>(kk, r). and_then (to_int kk) (\<lambda>i.
     and_then (lagged (series_of s (aux_sid aux)) (t - clamp_back i cap (t + 1) - aux_lag aux))
       (\<lambda>y. push y r)))"

definition op_delay :: "int \<Rightarrow> int \<Rightarrow> vm_regs \<Rightarrow> vm_regs vm_result" where
  "op_delay off cap r = and_then (pop r) (\<lambda>(kk, r). and_then (pop r) (\<lambda>(x, r).
     and_then (ring_append off cap x r) (\<lambda>(count, r). and_then (to_int kk) (\<lambda>i.
     and_then (ring_read off cap r (count - 1 - clamp_back i cap count)) (\<lambda>y. push y r)))))"

definition op_cross :: "bool \<Rightarrow> int \<Rightarrow> vm_regs \<Rightarrow> vm_regs vm_result" where
  "op_cross over off r = and_then (pop r) (\<lambda>(y, r). and_then (pop r) (\<lambda>(x, r).
     and_then (st_get off 0 r) (\<lambda>c. and_then (to_int c) (\<lambda>count.
     and_then (st_get off 1 r) (\<lambda>pa. and_then (st_get off 2 r) (\<lambda>pb.
     let res = (if over then count \<ge> 1 \<and> f32_lt y x \<and> f32_le pa pb
                else count \<ge> 1 \<and> f32_lt x y \<and> f32_le pb pa)
     in and_then (st_put off 1 x r) (\<lambda>r. and_then (st_put off 2 y r) (\<lambda>r.
        and_then (st_put off 0 (f32_of_int (count + 1)) r) (push (f_bool res))))))))))"

subsection \<open>Signals\<close>

text \<open>
  \<open>sig.el = sig.el || (stack[--sp] != 0.0f)\<close>: the operator does not evaluate its right
  operand when the flag is already set, and then nothing is popped.
\<close>

definition op_sig ::
  "(signals \<Rightarrow> bool) \<Rightarrow> (bool \<Rightarrow> signals \<Rightarrow> signals) \<Rightarrow> vm_regs \<Rightarrow> vm_regs vm_result" where
  "op_sig get put r =
     (if get (rg_sig r) then Inr r
      else and_then (pop r) (\<lambda>(x, r). Inr (r\<lparr>rg_sig := put (f32_nonzero x) (rg_sig r)\<rparr>)))"

definition op_set :: "(f32 \<Rightarrow> signals \<Rightarrow> signals) \<Rightarrow> vm_regs \<Rightarrow> vm_regs vm_result" where
  "op_set put r = and_then (pop r) (\<lambda>(x, r). Inr (r\<lparr>rg_sig := put x (rg_sig r)\<rparr>))"

definition clamp_size :: "f32 \<Rightarrow> f32" where
  "clamp_size s = (let s1 = (if f32_lt s f_zero then f_zero else s)
     in if f32_lt f_one s1 then f_one else s1)"

subsection \<open>Instructions\<close>

definition slot_off :: "strat_program \<Rightarrow> int \<Rightarrow> int vm_result" where
  "slot_off p arg = and_then (at_index Pool_fault (pg_off p) arg) (\<lambda>w. Inr (sint w))"

definition slot_cap :: "strat_program \<Rightarrow> int \<Rightarrow> int vm_result" where
  "slot_cap p arg = and_then (at_index Pool_fault (pg_cap p) arg) (\<lambda>w. Inr (sint w))"

definition with_ring ::
  "strat_program \<Rightarrow> int \<Rightarrow> (int \<Rightarrow> int \<Rightarrow> vm_regs \<Rightarrow> vm_regs vm_result) \<Rightarrow> vm_regs \<Rightarrow> vm_regs vm_result"
where
  "with_ring p arg f r = and_then (slot_off p arg) (\<lambda>off. and_then (slot_cap p arg) (\<lambda>cap. f off cap r))"

definition with_raw ::
  "strat_program \<Rightarrow> int \<Rightarrow> (int \<Rightarrow> u32 \<Rightarrow> vm_regs \<Rightarrow> vm_regs vm_result) \<Rightarrow> vm_regs \<Rightarrow> vm_regs vm_result"
where
  "with_raw p arg f r = and_then (slot_cap p arg) (\<lambda>cap.
     and_then (at_index Pool_fault (pg_aux p) arg) (\<lambda>aux. f cap aux r))"

definition with_slot ::
  "strat_program \<Rightarrow> int \<Rightarrow> (int \<Rightarrow> vm_regs \<Rightarrow> vm_regs vm_result) \<Rightarrow> vm_regs \<Rightarrow> vm_regs vm_result"
where
  "with_slot p arg f r = and_then (slot_off p arg) (\<lambda>off. f off r)"

definition exec_push :: "strategy_vm \<Rightarrow> bar_series \<Rightarrow> int \<Rightarrow> vm_ctx \<Rightarrow> opcode \<Rightarrow> int \<Rightarrow> vm_regs \<Rightarrow> vm_regs vm_result" where
  "exec_push vm s t ctx q arg r = and_then
     (case q of
        OP_PUSH_CONST \<Rightarrow>
          and_then (at_index Pool_fault (pg_consts (vm_prog vm)) arg) (\<lambda>b. Inr (f32_of_bits b))
      | OP_PUSH_PARAM \<Rightarrow> at_index Pool_fault (vm_params vm) arg
      | OP_PUSH_SERIES \<Rightarrow> at_index Series_fault (series_of s arg) t
      | OP_PUSH_SERIES_LAG \<Rightarrow> lagged (series_of s (arg div 2 ^ 16)) (t - arg mod 2 ^ 16)
      | OP_PUSH_CTX \<Rightarrow> Inr (if arg = 0 then f32_of_int t else if arg = 1 then cx_position ctx
          else if arg = 2 then cx_entry_px ctx else cx_equity ctx)
      | _ \<Rightarrow> at_index Local_fault (rg_locals r) arg)
     (\<lambda>x. push x r)"

definition exec_store :: "int \<Rightarrow> vm_regs \<Rightarrow> vm_regs vm_result" where
  "exec_store arg r = and_then (pop r) (\<lambda>(x, r).
     and_then (put_index Local_fault (rg_locals r) arg x) (\<lambda>ls. Inr (r\<lparr>rg_locals := ls\<rparr>)))"

definition exec_ins ::
  "(f32 \<Rightarrow> f32) \<Rightarrow> strategy_vm \<Rightarrow> bar_series \<Rightarrow> int \<Rightarrow> vm_ctx \<Rightarrow> opcode \<Rightarrow> int \<Rightarrow> vm_regs \<Rightarrow>
   vm_regs vm_result"
where
  "exec_ins lg vm s t ctx q arg = (case q of
     OP_PUSH_CONST \<Rightarrow> exec_push vm s t ctx q arg
   | OP_PUSH_PARAM \<Rightarrow> exec_push vm s t ctx q arg
   | OP_PUSH_SERIES \<Rightarrow> exec_push vm s t ctx q arg
   | OP_PUSH_SERIES_LAG \<Rightarrow> exec_push vm s t ctx q arg
   | OP_PUSH_CTX \<Rightarrow> exec_push vm s t ctx q arg
   | OP_LOAD \<Rightarrow> exec_push vm s t ctx q arg
   | OP_STORE \<Rightarrow> exec_store arg
   | OP_ADD \<Rightarrow> binop f32_add
   | OP_SUB \<Rightarrow> binop f32_sub
   | OP_MUL \<Rightarrow> binop f32_mul
   | OP_DIV \<Rightarrow> binop (\<lambda>x y. if f32_nonzero y then f32_div x y else f_zero)
   | OP_NEG \<Rightarrow> unop f32_neg
   | OP_ABS \<Rightarrow> unop f32_abs
   | OP_MIN2 \<Rightarrow> binop (\<lambda>x y. if f32_lt x y then x else y)
   | OP_MAX2 \<Rightarrow> binop (\<lambda>x y. if f32_lt y x then x else y)
   | OP_SQRT \<Rightarrow> unop (\<lambda>x. if f32_pos x then f32_sqrt x else f_zero)
   | OP_LOG \<Rightarrow> unop (\<lambda>x. if f32_pos x then lg x else f_zero)
   | OP_GT \<Rightarrow> binop (\<lambda>x y. f_bool (f32_lt y x))
   | OP_LT \<Rightarrow> binop (\<lambda>x y. f_bool (f32_lt x y))
   | OP_GE \<Rightarrow> binop (\<lambda>x y. f_bool (f32_le y x))
   | OP_LE \<Rightarrow> binop (\<lambda>x y. f_bool (f32_le x y))
   | OP_EQ \<Rightarrow> binop (\<lambda>x y. f_bool (f32_eq x y))
   | OP_NE \<Rightarrow> binop (\<lambda>x y. f_bool (\<not> f32_eq x y))
   | OP_AND \<Rightarrow> binop (\<lambda>x y. f_bool (f32_nonzero x \<and> f32_nonzero y))
   | OP_OR \<Rightarrow> binop (\<lambda>x y. f_bool (f32_nonzero x \<or> f32_nonzero y))
   | OP_NOT \<Rightarrow> unop (\<lambda>x. f_bool (f32_eq x f_zero))
   | OP_EMA \<Rightarrow> with_slot (vm_prog vm) arg op_ema
   | OP_RSI \<Rightarrow> with_slot (vm_prog vm) arg op_rsi
   | OP_ATR \<Rightarrow> with_slot (vm_prog vm) arg (op_atr s t)
   | OP_SMA \<Rightarrow> with_ring (vm_prog vm) arg (op_window W_Sma)
   | OP_HIGHEST \<Rightarrow> with_ring (vm_prog vm) arg (op_window W_Highest)
   | OP_LOWEST \<Rightarrow> with_ring (vm_prog vm) arg (op_window W_Lowest)
   | OP_STDDEV \<Rightarrow> with_ring (vm_prog vm) arg (op_window W_Stddev)
   | OP_DELAY \<Rightarrow> with_ring (vm_prog vm) arg op_delay
   | OP_CROSSOVER \<Rightarrow> with_slot (vm_prog vm) arg (op_cross True)
   | OP_CROSSUNDER \<Rightarrow> with_slot (vm_prog vm) arg (op_cross False)
   | OP_SMA_RAW \<Rightarrow> with_raw (vm_prog vm) arg (op_window_raw W_Sma s t)
   | OP_HIGHEST_RAW \<Rightarrow> with_raw (vm_prog vm) arg (op_window_raw W_Highest s t)
   | OP_LOWEST_RAW \<Rightarrow> with_raw (vm_prog vm) arg (op_window_raw W_Lowest s t)
   | OP_STDDEV_RAW \<Rightarrow> with_raw (vm_prog vm) arg (op_window_raw W_Stddev s t)
   | OP_DELAY_RAW \<Rightarrow> with_raw (vm_prog vm) arg (op_delay_raw s t)
   | OP_SIG_EL \<Rightarrow> op_sig sg_el (\<lambda>b g. g\<lparr>sg_el := b\<rparr>)
   | OP_SIG_XL \<Rightarrow> op_sig sg_xl (\<lambda>b g. g\<lparr>sg_xl := b\<rparr>)
   | OP_SIG_ES \<Rightarrow> op_sig sg_es (\<lambda>b g. g\<lparr>sg_es := b\<rparr>)
   | OP_SIG_XS \<Rightarrow> op_sig sg_xs (\<lambda>b g. g\<lparr>sg_xs := b\<rparr>)
   | OP_SET_STOP \<Rightarrow> op_set (\<lambda>x g. g\<lparr>sg_stop := x\<rparr>)
   | OP_SET_TP \<Rightarrow> op_set (\<lambda>x g. g\<lparr>sg_tp := x\<rparr>)
   | OP_SET_TRAIL \<Rightarrow> op_set (\<lambda>x g. g\<lparr>sg_trail := x\<rparr>)
   | OP_SET_SIZE \<Rightarrow> op_set (\<lambda>x g. g\<lparr>sg_size := clamp_size x\<rparr>)
   | OP_HALT \<Rightarrow> Inr)"

text \<open>
  The instruction loop: \<open>OP_HALT\<close> leaves it and an unknown opcode does nothing.
\<close>

fun run_code ::
  "(f32 \<Rightarrow> f32) \<Rightarrow> strategy_vm \<Rightarrow> bar_series \<Rightarrow> int \<Rightarrow> vm_ctx \<Rightarrow> u32 list \<Rightarrow> vm_regs \<Rightarrow>
   vm_regs vm_result"
where
  "run_code lg vm s t ctx [] r = Inr r"
| "run_code lg vm s t ctx (w # ws) r =
     (case ins_op w of
        None \<Rightarrow> run_code lg vm s t ctx ws r
      | Some q \<Rightarrow>
          if q = OP_HALT then Inr r
          else and_then (exec_ins lg vm s t ctx q (int (ins_arg w)) r)
                 (run_code lg vm s t ctx ws))"

definition start_regs :: "strategy_vm \<Rightarrow> vm_regs" where
  "start_regs vm = \<lparr>rg_stack = [], rg_state = vm_state vm, rg_locals = vm_locals vm,
     rg_sig = no_signals\<rparr>"

definition vm_step ::
  "(f32 \<Rightarrow> f32) \<Rightarrow> bar_series \<Rightarrow> nat \<Rightarrow> vm_ctx \<Rightarrow> strategy_vm \<Rightarrow> (strategy_vm \<times> signals) vm_result"
where
  "vm_step lg s t ctx vm =
     and_then (run_code lg vm s (int t) ctx (pg_code (vm_prog vm)) (start_regs vm))
       (\<lambda>r. Inr (vm\<lparr>vm_state := rg_state r, vm_locals := rg_locals r\<rparr>, rg_sig r))"

end
