(* ===== verification/VmSafety.thy ===== *)
theory VmSafety
  imports ProgramLoad StrategyVm
begin

text \<open>
  Memory safety of the strategy interpreter on programs the loader accepts: no read or write
  leaves the stack, the pools, the locals, the state block or the bar series, provided each
  signal instruction occurs at most once. The only fault left is a conversion of a float that
  an \<open>int\<close> cannot represent.
\<close>

definition safe :: "('a \<Rightarrow> bool) \<Rightarrow> 'a vm_result \<Rightarrow> bool" where
  "safe Q r \<longleftrightarrow> (case r of Inl e \<Rightarrow> e = Cast_fault | Inr x \<Rightarrow> Q x)"

named_theorems vm_safe \<open>safety of the interpreter's primitives\<close>

lemma safe_Inr [simp]: "safe Q (Inr x) = Q x"
  by (simp add: safe_def)

lemma safe_Inl [simp]: "safe Q (Inl e) \<longleftrightarrow> e = Cast_fault"
  by (simp add: safe_def)

lemma safe_and_then [simp]: "safe Q (and_then r f) = safe (\<lambda>x. safe Q (f x)) r"
  by (auto simp: safe_def and_then_def split: sum.splits)

lemma safe_mono: "safe P r \<Longrightarrow> (\<And>x. P x \<Longrightarrow> Q x) \<Longrightarrow> safe Q r"
  by (auto simp: safe_def split: sum.splits)

subsection \<open>Well-formed registers\<close>

text \<open>Slots whose first cell counts the values seen, as an integer-valued float.\<close>

definition counted :: "u32 \<Rightarrow> bool" where
  "counted kind \<longleftrightarrow> kind = SK_WILDER2 \<or> kind = SK_RING \<or> kind = SK_PREV2"

definition is_count :: "f32 \<Rightarrow> bool" where
  "is_count x \<longleftrightarrow> (\<exists>c. 0 \<le> c \<and> c \<le> 2 ^ 24 \<and> x = f32_of_int c)"

definition slot_base :: "strat_program \<Rightarrow> nat \<Rightarrow> int" where
  "slot_base p i = sint (pg_off p ! i)"

definition slot_len :: "strat_program \<Rightarrow> nat \<Rightarrow> nat" where
  "slot_len p i = slot_floats (pg_kind p ! i) (pg_cap p ! i)"

definition state_ok :: "strat_program \<Rightarrow> f32 list \<Rightarrow> bool" where
  "state_ok p st \<longleftrightarrow> length st = unat (pg_state_floats p) \<and>
     (\<forall>i < length (pg_kind p). counted (pg_kind p ! i) \<longrightarrow> is_count (st ! nat (slot_base p i)))"

definition regs_ok :: "strat_program \<Rightarrow> nat \<Rightarrow> signals \<Rightarrow> vm_regs \<Rightarrow> bool" where
  "regs_ok p d g r \<longleftrightarrow> length (rg_stack r) = d \<and> state_ok p (rg_state r) \<and>
     unat (pg_locals p) \<le> length (rg_locals r) \<and> rg_sig r = g"

definition vm_ok :: "strategy_vm \<Rightarrow> bool" where
  "vm_ok vm \<longleftrightarrow> length (vm_params vm) = length (pg_defaults (vm_prog vm)) \<and>
     state_ok (vm_prog vm) (vm_state vm) \<and> unat (pg_locals (vm_prog vm)) \<le> length (vm_locals vm)"

text \<open>The bars the interpreter may read at bar \<open>t\<close>.\<close>

definition bars_ok :: "bar_series \<Rightarrow> int \<Rightarrow> bool" where
  "bars_ok s t \<longleftrightarrow> 0 \<le> t \<and> t < int (length (bs_o s)) \<and> t < int (length (bs_h s)) \<and>
     t < int (length (bs_l s)) \<and> t < int (length (bs_c s)) \<and> t < int (length (bs_v s))"

lemma is_count_next: "is_count (f32_of_int c) \<Longrightarrow> 0 \<le> c \<Longrightarrow> c \<le> 2 ^ 24 \<Longrightarrow> is_count (f32_of_int (c + 1))"
proof (cases "c = 2 ^ 24")
  case True
  then show ?thesis
    unfolding is_count_def using f32_count_limit(2) by (intro exI [of _ "2 ^ 24"]) simp
qed (auto simp: is_count_def intro!: exI [of _ "c + 1"])

lemma slot_range:
  assumes "slots_ok p" "i < length (pg_kind p)"
  shows "0 \<le> slot_base p i" "slot_base p i = int (unat (pg_off p ! i))"
    "slot_base p i + int (slot_len p i) \<le> int (unat (pg_state_floats p))"
proof -
  have ok: "slot_ok p i" using assms by (simp add: slots_ok_def)
  then show "0 \<le> slot_base p i" by (simp add: slot_ok_def slot_base_def)
  then show eq: "slot_base p i = int (unat (pg_off p ! i))"
    using sint_pos_unat(1) [of "pg_off p ! i"] by (simp add: slot_base_def)
  show "slot_base p i + int (slot_len p i) \<le> int (unat (pg_state_floats p))"
    using ok unfolding eq slot_len_def slot_ok_def by linarith
qed

lemma slots_apart:
  assumes "slots_ok p" "i < length (pg_kind p)" "i' < length (pg_kind p)"
    "slot_base p i + j = slot_base p i' + j'" "0 \<le> j" "j < int (slot_len p i)"
    "0 \<le> j'" "j' < int (slot_len p i')"
  shows "i = i' \<and> j = j'"
proof -
  let ?c = "nat (slot_base p i + j)"
  note b = slot_range(2) [OF assms(1,2)] slot_range(2) [OF assms(1,3)]
  have "?c \<in> slot_cells p i" "?c \<in> slot_cells p i'"
    using assms(4-) b unfolding slot_cells_def slot_len_def atLeastLessThan_iff by linarith+
  moreover have "slot_cells p i \<inter> slot_cells p i' = {}" if "i \<noteq> i'"
    using assms(1-3) that unfolding slots_ok_def
    by (metis inf_commute linorder_neqE_nat)
  ultimately have "i = i'" by blast
  then show ?thesis using assms(4) by simp
qed

lemma slot_len_pos: "counted (pg_kind p ! i) \<Longrightarrow> 0 < slot_len p i"
  by (auto simp: counted_def slot_len_def slot_floats_def)

subsection \<open>Primitives\<close>

lemma safe_pop [vm_safe]:
  "regs_ok p (Suc d) g r \<Longrightarrow> (\<And>x r'. regs_ok p d g r' \<Longrightarrow> Q (x, r')) \<Longrightarrow>
   safe Q (pop r)"
  by (cases "rg_stack r") (auto simp: pop_def regs_ok_def)

lemma safe_push [vm_safe]:
  "regs_ok p d g r \<Longrightarrow> d < 32 \<Longrightarrow> (\<And>r'. regs_ok p (Suc d) g r' \<Longrightarrow> Q r') \<Longrightarrow> safe Q (push x r)"
  by (auto simp: push_def regs_ok_def)

lemma safe_to_int [vm_safe]: "(\<And>i. Q i) \<Longrightarrow> safe Q (to_int x)"
  by (auto simp: to_int_def split: option.splits)

lemma safe_get [vm_safe]:
  assumes "regs_ok p d g r" "slots_ok p" "i < length (pg_kind p)" "0 \<le> j" "j < int (slot_len p i)"
    "\<And>x. Q x"
  shows "safe Q (st_get (slot_base p i) j r)"
  using assms slot_range [OF assms(2,3)]
  by (auto simp: st_get_def at_index_def regs_ok_def state_ok_def)

lemma safe_get_count [vm_safe]:
  assumes "regs_ok p d g r" "slots_ok p" "i < length (pg_kind p)" "counted (pg_kind p ! i)"
    "\<And>c. 0 \<le> c \<Longrightarrow> c \<le> 2 ^ 24 \<Longrightarrow> Q c"
  shows "safe (\<lambda>x. safe Q (to_int x)) (st_get (slot_base p i) 0 r)"
proof -
  have "0 < slot_len p i" using assms(4) by (rule slot_len_pos)
  then have in_range: "0 \<le> slot_base p i" "slot_base p i < int (length (rg_state r))"
    using slot_range [OF assms(2,3)] assms(1) by (auto simp: regs_ok_def state_ok_def)
  obtain c where "0 \<le> c" "c \<le> 2 ^ 24" "rg_state r ! nat (slot_base p i) = f32_of_int c"
    using assms(1,3,4) by (auto simp: regs_ok_def state_ok_def is_count_def)
  then show ?thesis
    using in_range assms(5) by (simp add: st_get_def at_index_def to_int_def int32_of_f32_of_int)
qed

lemma safe_put [vm_safe]:
  assumes "regs_ok p d g r" "slots_ok p" "i < length (pg_kind p)" "0 \<le> j" "j < int (slot_len p i)"
    "j = 0 \<Longrightarrow> counted (pg_kind p ! i) \<Longrightarrow> is_count x"
    "\<And>r'. regs_ok p d g r' \<Longrightarrow> Q r'"
  shows "safe Q (st_put (slot_base p i) j x r)"
proof -
  let ?c = "slot_base p i + j"
  have c: "0 \<le> ?c" "?c < int (length (rg_state r))"
    using slot_range [OF assms(2,3)] assms(1,4,5) by (auto simp: regs_ok_def state_ok_def)
  have "is_count ((rg_state r)[nat ?c := x] ! nat (slot_base p i'))"
    if i': "i' < length (pg_kind p)" "counted (pg_kind p ! i')" for i'
  proof (cases "slot_base p i' = ?c")
    case True
    then have "i = i'" "j = 0"
      using slots_apart [OF assms(2,3) i'(1), of j 0] assms(4,5) slot_len_pos [OF i'(2)] by auto
    then show ?thesis using assms(6) i'(2) c by auto
  next
    case False
    then have "nat (slot_base p i') \<noteq> nat ?c"
      using c(1) slot_range(1) [OF assms(2) i'(1)] by (simp add: nat_eq_iff)
    then show ?thesis using assms(1) i' by (auto simp: regs_ok_def state_ok_def)
  qed
  then have "regs_ok p d g (r\<lparr>rg_state := (rg_state r)[nat ?c := x]\<rparr>)"
    using assms(1) by (auto simp: regs_ok_def state_ok_def)
  then show ?thesis
    using c assms(7) by (simp add: st_put_def put_index_def and_then_def)
qed

subsection \<open>Indicators\<close>

lemma safe_if [vm_safe]:
  "(b \<Longrightarrow> safe Q x) \<Longrightarrow> (\<not> b \<Longrightarrow> safe Q y) \<Longrightarrow> safe Q (if b then x else y)"
  by simp

lemma is_count_of_int [simp]: "0 \<le> c \<Longrightarrow> c \<le> 2 ^ 24 \<Longrightarrow> is_count (f32_of_int (c + 1))"
  by (rule is_count_next) (auto simp: is_count_def)

lemma is_count_one [simp]: "is_count f_one"
  using is_count_of_int [of 0] by simp

lemma safe_true_range [vm_safe]: "bars_ok s t \<Longrightarrow> (\<And>x. Q x) \<Longrightarrow> safe Q (true_range s t)"
  by (auto simp: true_range_def bars_ok_def at_index_def Let_def)

lemma safe_op_ema [vm_safe]:
  assumes "regs_ok p (Suc (Suc d)) g r" "slots_ok p" "i < length (pg_kind p)" "pg_kind p ! i = SK_EMA"
    "d < 32" "\<And>r'. regs_ok p (Suc d) g r' \<Longrightarrow> Q r'"
  shows "safe Q (op_ema (slot_base p i) r)"
proof -
  have len: "slot_len p i = 2" "\<not> counted (pg_kind p ! i)"
    using assms(4) by (simp_all add: slot_len_def slot_floats_def counted_def)
  show ?thesis
    unfolding op_ema_def Let_def
    using assms len by (auto simp: split_beta split del: if_split intro!: vm_safe)
qed

lemma safe_op_atr [vm_safe]:
  assumes "regs_ok p (Suc d) g r" "slots_ok p" "i < length (pg_kind p)" "pg_kind p ! i = SK_WILDER1"
    "d < 32" "bars_ok s t" "\<And>r'. regs_ok p (Suc d) g r' \<Longrightarrow> Q r'"
  shows "safe Q (op_atr s t (slot_base p i) r)"
proof -
  have len: "slot_len p i = 2" "\<not> counted (pg_kind p ! i)"
    using assms(4) by (simp_all add: slot_len_def slot_floats_def counted_def)
  show ?thesis
    unfolding op_atr_def Let_def
    using assms len by (auto simp: split_beta split del: if_split intro!: vm_safe)
qed

lemma safe_op_rsi [vm_safe]:
  assumes "regs_ok p (Suc (Suc d)) g r" "slots_ok p" "i < length (pg_kind p)" "pg_kind p ! i = SK_WILDER2"
    "d < 32" "\<And>r'. regs_ok p (Suc d) g r' \<Longrightarrow> Q r'"
  shows "safe Q (op_rsi (slot_base p i) r)"
proof -
  have len: "slot_len p i = 4" "counted (pg_kind p ! i)"
    using assms(4) by (simp_all add: slot_len_def slot_floats_def counted_def)
  show ?thesis
    unfolding op_rsi_def Let_def
    using assms len by (auto simp: split_beta split del: if_split intro!: vm_safe)
qed

lemma safe_op_cross [vm_safe]:
  assumes "regs_ok p (Suc (Suc d)) g r" "slots_ok p" "i < length (pg_kind p)" "pg_kind p ! i = SK_PREV2"
    "d < 32" "\<And>r'. regs_ok p (Suc d) g r' \<Longrightarrow> Q r'"
  shows "safe Q (op_cross over (slot_base p i) r)"
proof -
  have len: "slot_len p i = 3" "counted (pg_kind p ! i)"
    using assms(4) by (simp_all add: slot_len_def slot_floats_def counted_def)
  show ?thesis
    unfolding op_cross_def Let_def
    using assms len by (auto simp: split_beta split del: if_split intro!: vm_safe)
qed

subsection \<open>Windows\<close>

lemma safe_read_all [vm_safe]:
  "(\<And>i. i \<in> set is \<Longrightarrow> safe (\<lambda>_. True) (f i)) \<Longrightarrow> (\<And>xs. length xs = length is \<Longrightarrow> Q xs) \<Longrightarrow>
   safe Q (read_all f is)"
proof (induction "is" arbitrary: Q)
  case (Cons i "is")
  have "safe (\<lambda>xs. Q (x # xs)) (read_all f is)" for x
    by (rule Cons.IH) (use Cons.prems in auto)
  then show ?case using Cons.prems(1) [of i] by (auto intro: safe_mono)
qed simp

lemma safe_window_value [vm_safe]:
  "xs \<noteq> [] \<Longrightarrow> (\<And>y. Q y) \<Longrightarrow> safe Q (window_value w k xs)"
  by (cases w; cases xs) auto

lemma safe_lagged [vm_safe]:
  "bars_ok s t \<Longrightarrow> idx \<le> t \<Longrightarrow> (\<And>x. Q x) \<Longrightarrow> safe Q (lagged (series_of s sid) idx)"
  by (auto simp: lagged_def at_index_def series_of_def bars_ok_def)

definition ring_slot :: "strat_program \<Rightarrow> nat \<Rightarrow> int \<Rightarrow> bool" where
  "ring_slot p i cap \<longleftrightarrow> slots_ok p \<and> i < length (pg_kind p) \<and> pg_kind p ! i = SK_RING \<and>
     cap = sint (pg_cap p ! i)"

lemma ring_slotD:
  assumes "ring_slot p i cap"
  shows "0 < cap" "cap \<le> 4096" "int (slot_len p i) = 1 + cap" "counted (pg_kind p ! i)"
    "slots_ok p" "i < length (pg_kind p)"
proof -
  have "window_ok (pg_kind p ! i) (pg_cap p ! i)"
    using assms by (auto simp: ring_slot_def slots_ok_def slot_ok_def)
  then show "0 < cap" "cap \<le> 4096" using assms by (simp_all add: window_ok_def ring_slot_def)
  then show "int (slot_len p i) = 1 + cap"
    using assms sint_pos_unat(1) [of "pg_cap p ! i"]
    by (simp add: ring_slot_def slot_len_def slot_floats_def)
qed (use assms in \<open>simp_all add: ring_slot_def counted_def\<close>)

lemma safe_c_rem [vm_safe]:
  "0 \<le> a \<Longrightarrow> 0 < b \<Longrightarrow> (0 \<le> a mod b \<Longrightarrow> a mod b < b \<Longrightarrow> Q (a mod b)) \<Longrightarrow> safe Q (c_rem a b)"
  by (cases "a = 0") (auto simp: c_rem_def)

lemma safe_ring_append [vm_safe]:
  assumes "regs_ok p d g r" "ring_slot p i cap"
    "\<And>c r'. 1 \<le> c \<Longrightarrow> regs_ok p d g r' \<Longrightarrow> Q (c, r')"
  shows "safe Q (ring_append (slot_base p i) cap x r)"
  unfolding ring_append_def
  using assms ring_slotD [OF assms(2)] by (auto intro!: vm_safe)

lemma safe_ring_read [vm_safe]:
  assumes "regs_ok p d g r" "ring_slot p i cap" "0 \<le> j" "\<And>x. Q x"
  shows "safe Q (ring_read (slot_base p i) cap r j)"
  unfolding ring_read_def
  using assms ring_slotD [OF assms(2)] by (auto intro!: vm_safe)

lemma clamp_window_bounds: "0 < cap \<Longrightarrow> 1 \<le> clamp_window n cap \<and> clamp_window n cap \<le> cap"
  by (auto simp: clamp_window_def at_least_1_def Let_def)

lemma clamp_back_bounds:
  "0 < cap \<Longrightarrow> 1 \<le> count \<Longrightarrow> 0 \<le> clamp_back k cap count \<and> clamp_back k cap count < count"
  by (auto simp: clamp_back_def shorter_def Let_def)

lemma safe_op_window [vm_safe]:
  assumes "regs_ok p (Suc (Suc d)) g r" "ring_slot p i cap" "d < 32"
    "\<And>r'. regs_ok p (Suc d) g r' \<Longrightarrow> Q r'"
  shows "safe Q (op_window w (slot_base p i) cap r)"
proof -
  note cap = ring_slotD [OF assms(2)]
  have k: "\<not> shorter c (clamp_window n cap) \<le> 0" "c - shorter c (clamp_window n cap) \<le> j \<Longrightarrow> 0 \<le> j"
    if "1 \<le> c" for c n j
    using that clamp_window_bounds [OF cap(1), of n] by (auto simp: shorter_def split: if_splits)
  show ?thesis
    unfolding op_window_def Let_def
    using assms by (auto simp: split_beta k(1) split del: if_split intro!: vm_safe dest: k(2))
qed

lemma safe_op_delay [vm_safe]:
  assumes "regs_ok p (Suc (Suc d)) g r" "ring_slot p i cap" "d < 32"
    "\<And>r'. regs_ok p (Suc d) g r' \<Longrightarrow> Q r'"
  shows "safe Q (op_delay (slot_base p i) cap r)"
proof -
  note bounds = clamp_back_bounds [OF ring_slotD(1) [OF assms(2)]]
  show ?thesis
    unfolding op_delay_def
    using assms by (auto simp: split_beta intro!: vm_safe dest: bounds)
qed

lemma safe_op_window_raw [vm_safe]:
  assumes "regs_ok p (Suc d) g r" "bars_ok s t" "0 < cap" "d < 32"
    "\<And>r'. regs_ok p (Suc d) g r' \<Longrightarrow> Q r'"
  shows "safe Q (op_window_raw w s t cap aux r)"
proof -
  have "0 \<le> aux_lag aux" by (simp add: aux_lag_def)
  moreover have "0 \<le> t" using assms(2) by (simp add: bars_ok_def)
  then have "\<not> shorter (t + 1) (clamp_window n cap) \<le> 0" for n
    using clamp_window_bounds [OF assms(3), of n] by (auto simp: shorter_def)
  ultimately show ?thesis
    unfolding op_window_raw_def Let_def
    using assms by (auto simp: split_beta split del: if_split intro!: vm_safe)
qed

lemma safe_op_delay_raw [vm_safe]:
  assumes "regs_ok p (Suc d) g r" "bars_ok s t" "0 < cap" "d < 32"
    "\<And>r'. regs_ok p (Suc d) g r' \<Longrightarrow> Q r'"
  shows "safe Q (op_delay_raw s t cap aux r)"
proof -
  have "0 \<le> aux_lag aux" "0 \<le> t" using assms(2) by (simp_all add: aux_lag_def bars_ok_def)
  then have "t - clamp_back n cap (t + 1) - aux_lag aux \<le> t" for n
    using clamp_back_bounds [OF assms(3), of "t + 1" n] by auto
  then show ?thesis
    unfolding op_delay_raw_def
    using assms by (auto simp: split_beta intro!: vm_safe)
qed

subsection \<open>Instructions\<close>

lemma safe_unop [vm_safe]:
  "regs_ok p (Suc d) g r \<Longrightarrow> d < 32 \<Longrightarrow> (\<And>r'. regs_ok p (Suc d) g r' \<Longrightarrow> Q r') \<Longrightarrow> safe Q (unop f r)"
  by (auto simp: unop_def split_beta intro!: vm_safe)

lemma safe_binop [vm_safe]:
  "regs_ok p (Suc (Suc d)) g r \<Longrightarrow> d < 32 \<Longrightarrow> (\<And>r'. regs_ok p (Suc d) g r' \<Longrightarrow> Q r') \<Longrightarrow>
   safe Q (binop f r)"
  by (auto simp: binop_def split_beta intro!: vm_safe)

lemma safe_op_sig [vm_safe]:
  "regs_ok p (Suc d) g r \<Longrightarrow> \<not> get g \<Longrightarrow>
   (\<And>b r'. regs_ok p d (put b g) r' \<Longrightarrow> Q r') \<Longrightarrow> safe Q (op_sig get put r)"
  by (cases "rg_stack r") (auto simp: op_sig_def pop_def regs_ok_def)

lemma safe_op_set [vm_safe]:
  "regs_ok p (Suc d) g r \<Longrightarrow> (\<And>x r'. regs_ok p d (put x g) r' \<Longrightarrow> Q r') \<Longrightarrow>
   safe Q (op_set put r)"
  by (cases "rg_stack r") (auto simp: op_set_def pop_def regs_ok_def)

lemma safe_exec_store [vm_safe]:
  "regs_ok p (Suc d) g r \<Longrightarrow> arg < unat (pg_locals p) \<Longrightarrow>
   (\<And>r'. regs_ok p d g r' \<Longrightarrow> Q r') \<Longrightarrow> safe Q (exec_store (int arg) r)"
  by (cases "rg_stack r") (auto simp: exec_store_def pop_def put_index_def regs_ok_def)

text \<open>Whether the flag a signal instruction sets is already set.\<close>

definition sig_flag :: "opcode \<Rightarrow> signals \<Rightarrow> bool" where
  "sig_flag q g = (case q of OP_SIG_EL \<Rightarrow> sg_el g | OP_SIG_XL \<Rightarrow> sg_xl g
     | OP_SIG_ES \<Rightarrow> sg_es g | OP_SIG_XS \<Rightarrow> sg_xs g | _ \<Rightarrow> False)"

definition sig_only :: "opcode \<Rightarrow> signals \<Rightarrow> signals \<Rightarrow> bool" where
  "sig_only q g g' \<longleftrightarrow> (\<forall>q'. sig_flag q' g' \<longrightarrow> sig_flag q' g \<or> q' = q)"

lemma sig_only_same [simp]: "sig_only q g g"
  by (simp add: sig_only_def)

lemma sig_only_set [simp]:
  "sig_only q g (g\<lparr>sg_stop := x\<rparr>)" "sig_only q g (g\<lparr>sg_tp := x\<rparr>)"
  "sig_only q g (g\<lparr>sg_trail := x\<rparr>)" "sig_only q g (g\<lparr>sg_size := x\<rparr>)"
  "sig_only OP_SIG_EL g (g\<lparr>sg_el := b\<rparr>)" "sig_only OP_SIG_XL g (g\<lparr>sg_xl := b\<rparr>)"
  "sig_only OP_SIG_ES g (g\<lparr>sg_es := b\<rparr>)" "sig_only OP_SIG_XS g (g\<lparr>sg_xs := b\<rparr>)"
  by (auto simp: sig_only_def sig_flag_def split: opcode.splits)

lemma safe_exec_push:
  assumes "regs_ok p d g r" "d < 32" "operand_ok p q arg" "bars_ok s t"
    "vm_prog vm = p" "length (vm_params vm) = length (pg_defaults p)"
    "q \<in> {OP_PUSH_CONST, OP_PUSH_PARAM, OP_PUSH_SERIES, OP_PUSH_SERIES_LAG, OP_PUSH_CTX, OP_LOAD}"
    "\<And>r'. regs_ok p (Suc d) g r' \<Longrightarrow> Q r'"
  shows "safe Q (exec_push vm s t ctx q (int arg) r)"
proof -
  have push: "safe Q (push x r)" for x
    using assms(1,2,8) by (rule safe_push)
  have loc: "q = OP_LOAD \<Longrightarrow> arg < length (rg_locals r)"
    using assms(1,3) by (simp add: regs_ok_def operand_ok_def)
  have "safe (\<lambda>_. True) (lagged (series_of s (int arg div 2 ^ 16)) (t - int arg mod 2 ^ 16))"
    by (rule safe_lagged [OF assms(4)]) simp_all
  then have "safe (\<lambda>_. True) (case q of
        OP_PUSH_CONST \<Rightarrow>
          and_then (at_index Pool_fault (pg_consts (vm_prog vm)) (int arg)) (\<lambda>b. Inr (f32_of_bits b))
      | OP_PUSH_PARAM \<Rightarrow> at_index Pool_fault (vm_params vm) (int arg)
      | OP_PUSH_SERIES \<Rightarrow> at_index Series_fault (series_of s (int arg)) t
      | OP_PUSH_SERIES_LAG \<Rightarrow> lagged (series_of s (int arg div 2 ^ 16)) (t - int arg mod 2 ^ 16)
      | OP_PUSH_CTX \<Rightarrow> Inr (if int arg = 0 then f32_of_int t else if int arg = 1 then cx_position ctx
          else if int arg = 2 then cx_entry_px ctx else cx_equity ctx)
      | _ \<Rightarrow> at_index Local_fault (rg_locals r) (int arg))"
    using assms(3-7) loc
    by (cases q) (auto simp: operand_ok_def at_index_def bars_ok_def series_of_def)
  then show ?thesis
    unfolding exec_push_def safe_and_then by (rule safe_mono) (rule push)
qed

lemma safe_with_slot:
  assumes "layout_ok p" "arg < length (pg_kind p)" "safe Q (f (slot_base p arg) r)"
  shows "safe Q (with_slot p (int arg) f r)"
  using assms
  by (simp add: with_slot_def slot_off_def at_index_def and_then_def layout_ok_def slot_base_def)

lemma safe_with_ring:
  assumes "layout_ok p" "slots_ok p" "arg < length (pg_kind p)" "pg_kind p ! arg = SK_RING"
    "\<And>cap. ring_slot p arg cap \<Longrightarrow> safe Q (f (slot_base p arg) cap r)"
  shows "safe Q (with_ring p (int arg) f r)"
  using assms
  by (simp add: with_ring_def slot_off_def slot_cap_def at_index_def and_then_def layout_ok_def
    slot_base_def ring_slot_def)

lemma safe_with_raw:
  assumes "layout_ok p" "slots_ok p" "arg < length (pg_kind p)" "pg_kind p ! arg = SK_RAW"
    "\<And>cap aux. 0 < cap \<Longrightarrow> safe Q (f cap aux r)"
  shows "safe Q (with_raw p (int arg) f r)"
proof -
  have "window_ok (pg_kind p ! arg) (pg_cap p ! arg)"
    using assms by (auto simp: slots_ok_def slot_ok_def)
  then have "0 < sint (pg_cap p ! arg)" using assms(4) by (simp add: window_ok_def)
  then show ?thesis
    using assms
    by (simp add: with_raw_def slot_cap_def at_index_def and_then_def layout_ok_def)
qed

lemma safe_exec_ins:
  assumes "layout_ok (vm_prog vm)" "slots_ok (vm_prog vm)" "operand_ok (vm_prog vm) q arg"
    "bars_ok s t" "length (vm_params vm) = length (pg_defaults (vm_prog vm))"
    "regs_ok (vm_prog vm) d g r" "required_stack q \<le> int d" "int d + stack_delta q \<le> 32"
    "q \<noteq> OP_HALT" "\<not> sig_flag q g"
  shows "safe (\<lambda>r'. \<exists>g'. regs_ok (vm_prog vm) (nat (int d + stack_delta q)) g' r' \<and> sig_only q g g')
     (exec_ins lg vm s t ctx q (int arg) r)" (is "safe ?Q _")
proof -
  have req: "required_stack q \<in> {0, 1, 2}" by (simp add: required_stack_def)
  note rules = vm_safe safe_with_slot [OF assms(1)] safe_with_ring [OF assms(1,2)]
    safe_with_raw [OF assms(1,2)]
  show ?thesis
  proof (cases "required_stack q = 0")
    case True
    then have q: "q \<in> {OP_PUSH_CONST, OP_PUSH_PARAM, OP_PUSH_SERIES, OP_PUSH_SERIES_LAG,
        OP_PUSH_CTX, OP_LOAD}"
      using assms(9) by (cases q) (simp_all add: required_stack_def)
    then have delta: "stack_delta q = 1" by (auto simp: stack_delta_def)
    then have "safe ?Q (exec_push vm s t ctx q (int arg) r)"
      using assms(8)
      by (intro safe_exec_push [OF assms(6) _ assms(3,4) refl assms(5) q])
        (auto simp: nat_add_distrib)
    then show ?thesis using q by (auto simp: exec_ins_def)
  next
    case False
    then obtain d1 where d1: "d = Suc d1" using assms(7) req by (cases d) auto
    show ?thesis
    proof (cases "required_stack q = 1")
      case True
      then show ?thesis
        using assms(2-6,8,10) d1
        by (cases q; simp add: exec_ins_def required_stack_def)
          (auto simp: stack_delta_def nat_add_distrib operand_ok_def expected_state_kind_def
            sig_flag_def intro!: rules split: if_splits)
    next
      case False
      then obtain d2 where d2: "d1 = Suc d2"
        using assms(7) req d1 \<open>required_stack q \<noteq> 0\<close> by (cases d1) auto
      show ?thesis
        using assms(2-6,8,10) d1 d2 False \<open>required_stack q \<noteq> 0\<close>
        by (cases q; simp add: exec_ins_def required_stack_def)
          (auto simp: stack_delta_def nat_add_distrib operand_ok_def expected_state_kind_def
            intro!: rules split: if_splits)
    qed
  qed
qed

subsection \<open>Programs\<close>

definition sig_ops :: "u32 list \<Rightarrow> opcode list" where
  "sig_ops ws = filter (\<lambda>q. q \<in> {OP_SIG_EL, OP_SIG_XL, OP_SIG_ES, OP_SIG_XS})
     (List.map_filter ins_op ws)"

definition signals_once :: "strat_program \<Rightarrow> bool" where
  "signals_once p \<longleftrightarrow> distinct (sig_ops (pg_code p))"

lemma sig_ops_Cons:
  "sig_ops (w # ws) = (case ins_op w of
     Some q \<Rightarrow> if q \<in> {OP_SIG_EL, OP_SIG_XL, OP_SIG_ES, OP_SIG_XS} then q # sig_ops ws else sig_ops ws
   | None \<Rightarrow> sig_ops ws)"
  by (auto simp: sig_ops_def map_filter_simps split: option.splits)

lemma sig_flag_is_sig: "sig_flag q g \<Longrightarrow> q \<in> {OP_SIG_EL, OP_SIG_XL, OP_SIG_ES, OP_SIG_XS}"
  by (cases q) (auto simp: sig_flag_def)

lemma safe_run_code:
  assumes "program_ok (vm_prog vm)" "bars_ok s t"
    "length (vm_params vm) = length (pg_defaults (vm_prog vm))"
    "k \<le> length (pg_code (vm_prog vm))"
    "regs_ok (vm_prog vm) (nat (depth_at (vm_prog vm) k)) g r"
    "distinct (sig_ops (drop k (pg_code (vm_prog vm))))"
    "\<forall>q \<in> set (sig_ops (drop k (pg_code (vm_prog vm)))). \<not> sig_flag q g"
  shows "safe (\<lambda>r'. \<exists>g'. regs_ok (vm_prog vm) 0 g' r')
     (run_code lg vm s t ctx (drop k (pg_code (vm_prog vm))) r)"
  using assms(4-)
proof (induction "length (pg_code (vm_prog vm)) - k" arbitrary: k g r)
  case 0
  let ?p = "vm_prog vm"
  have "k = length (pg_code ?p)" using 0 by simp
  moreover have "depth_at ?p (length (pg_code ?p)) = 0"
    using assms(1) by (simp add: program_ok_def code_ok_def)
  ultimately show ?case using 0 by auto
next
  case (Suc m)
  let ?p = "vm_prog vm"
  let ?code = "pg_code ?p"
  let ?ws = "drop (Suc k) ?code"
  have ok: "layout_ok ?p" "slots_ok ?p" "\<forall>i < length ?code. ins_ok ?p i (depth_at ?p i)"
    "depth_at ?p (length ?code) = 0"
    using assms(1) by (simp_all add: program_ok_def code_ok_def)
  have k: "k < length ?code" using Suc.hyps(2) by simp
  then have dr: "drop k ?code = ?code ! k # ?ws" by (simp add: Cons_nth_drop_Suc)
  have depth: "0 \<le> depth_at ?p k" using depth_at_range [OF ok(3)] k by simp
  obtain q where q: "ins_op (?code ! k) = Some q" "operand_ok ?p q (ins_arg (?code ! k))"
    "required_stack q \<le> depth_at ?p k" "depth_at ?p k + stack_delta q \<le> 32"
    "q = OP_HALT \<longrightarrow> k + 1 = length ?code"
    using ok(3) k unfolding ins_ok_def by auto
  have next_depth: "depth_at ?p (Suc k) = depth_at ?p k + stack_delta q"
    using q(1) k by (simp add: depth_at_Suc ins_delta_def)
  show ?case
  proof (cases "q = OP_HALT")
    case True
    then have "Suc k = length ?code" using q(5) by simp
    moreover have "stack_delta q = 0" using True by (simp add: stack_delta_def)
    ultimately have "depth_at ?p k = 0" using next_depth ok(4) by simp
    then show ?thesis using Suc.prems(2) q(1) True dr by auto
  next
    case False
    have flag: "\<not> sig_flag q g"
    proof
      assume flag: "sig_flag q g"
      then have "q \<in> {OP_SIG_EL, OP_SIG_XL, OP_SIG_ES, OP_SIG_XS}" by (rule sig_flag_is_sig)
      then have "q \<in> set (sig_ops (drop k ?code))" unfolding dr sig_ops_Cons q(1) by simp
      then show False using Suc.prems(4) flag by blast
    qed
    have "safe (\<lambda>r'. \<exists>g'. regs_ok ?p (nat (depth_at ?p (Suc k))) g' r' \<and> sig_only q g g')
       (exec_ins lg vm s t ctx q (int (ins_arg (?code ! k))) r)"
      using safe_exec_ins [OF ok(1,2) q(2) assms(2,3) Suc.prems(2) _ _ False flag] q(3,4) depth
      by (simp add: next_depth)
    moreover have "safe (\<lambda>r'. \<exists>g'. regs_ok ?p 0 g' r') (run_code lg vm s t ctx ?ws r')"
      if "regs_ok ?p (nat (depth_at ?p (Suc k))) g' r'" "sig_only q g g'" for g' r'
    proof (rule Suc.hyps(1) [OF _ _ that(1)])
      show "distinct (sig_ops ?ws)" using Suc.prems(3) q(1) by (auto simp: dr sig_ops_Cons split: if_splits)
      show "\<forall>q' \<in> set (sig_ops ?ws). \<not> sig_flag q' g'"
      proof
        fix q' assume q': "q' \<in> set (sig_ops ?ws)"
        then have "q' \<in> {OP_SIG_EL, OP_SIG_XL, OP_SIG_ES, OP_SIG_XS}" by (simp add: sig_ops_def)
        then have "q' \<noteq> q \<and> \<not> sig_flag q' g"
          using Suc.prems(3,4) q(1) q' by (auto simp: dr sig_ops_Cons split: if_splits)
        then show "\<not> sig_flag q' g'" using that(2) by (auto simp: sig_only_def)
      qed
    qed (use Suc.hyps(2) k in simp_all)
    ultimately show ?thesis using q(1) False by (simp add: dr) (erule safe_mono; blast)
  qed
qed

lemma vm_step_ok:
  assumes "program_ok (vm_prog vm)" "signals_once (vm_prog vm)" "vm_ok vm" "bars_ok s (int t)"
  shows "safe (\<lambda>(vm', g). vm_ok vm' \<and> vm_prog vm' = vm_prog vm) (vm_step lg s t ctx vm)"
proof -
  have "regs_ok (vm_prog vm) (nat (depth_at (vm_prog vm) 0)) no_signals (start_regs vm)"
    using assms(3) by (simp add: vm_ok_def regs_ok_def start_regs_def)
  moreover have "\<not> sig_flag q no_signals" for q
    by (cases q) (simp_all add: sig_flag_def no_signals_def)
  ultimately have "safe (\<lambda>r'. \<exists>g'. regs_ok (vm_prog vm) 0 g' r')
      (run_code lg vm s (int t) ctx (drop 0 (pg_code (vm_prog vm))) (start_regs vm))"
    using assms by (intro safe_run_code) (auto simp: vm_ok_def signals_once_def)
  then show ?thesis
    unfolding vm_step_def safe_and_then
    using assms(3) by (auto simp: vm_ok_def regs_ok_def intro: safe_mono)
qed

lemma new_vm_ok:
  assumes "program_ok p" "new_vm p params = Some vm"
  shows "vm_ok vm \<and> vm_prog vm = p"
proof -
  have "is_count f_zero" unfolding is_count_def
    by (rule exI [of _ 0]) (simp add: f32_of_int_def round_f32_def)
  moreover have "nat (slot_base p i) < unat (pg_state_floats p)"
    if "i < length (pg_kind p)" "counted (pg_kind p ! i)" for i
  proof -
    have "slots_ok p" using assms(1) by (simp add: program_ok_def)
    from slot_range [OF this that(1)] show ?thesis using slot_len_pos [OF that(2)] by linarith
  qed
  ultimately show ?thesis
    using assms(2) word_gt_0 [of "pg_locals p"]
    by (auto simp: new_vm_def Let_def vm_ok_def state_ok_def split: if_splits)
qed

text \<open>The interpreter over the first bars of a series, one context per bar.\<close>

fun run_bars ::
  "(f32 \<Rightarrow> f32) \<Rightarrow> bar_series \<Rightarrow> nat \<Rightarrow> vm_ctx list \<Rightarrow> strategy_vm \<Rightarrow>
   (strategy_vm \<times> signals list) vm_result"
where
  "run_bars lg s t [] vm = Inr (vm, [])"
| "run_bars lg s t (c # cs) vm = and_then (vm_step lg s t c vm) (\<lambda>(vm1, g).
     and_then (run_bars lg s (Suc t) cs vm1) (\<lambda>(vm2, gs). Inr (vm2, g # gs)))"

lemma run_bars_ok:
  assumes "program_ok (vm_prog vm)" "signals_once (vm_prog vm)" "vm_ok vm"
    "\<forall>i < length cs. bars_ok s (int (t + i))"
  shows "safe (\<lambda>(vm', gs). vm_ok vm' \<and> length gs = length cs) (run_bars lg s t cs vm)"
  using assms
proof (induction cs arbitrary: t vm)
  case (Cons c cs)
  have "bars_ok s (int t)" using Cons.prems(4) by force
  from vm_step_ok [OF Cons.prems(1-3) this]
  have "safe (\<lambda>(vm', g). vm_ok vm' \<and> vm_prog vm' = vm_prog vm) (vm_step lg s t c vm)" .
  moreover have "safe (\<lambda>(vm', gs). vm_ok vm' \<and> length gs = length cs) (run_bars lg s (Suc t) cs vm1)"
    if "vm_ok vm1" "vm_prog vm1 = vm_prog vm" for vm1
  proof (rule Cons.IH)
    show "\<forall>i < length cs. bars_ok s (int (Suc t + i))"
      using Cons.prems(4) by (metis Suc_less_eq add_Suc_right add_Suc length_Cons)
  qed (use Cons.prems that in auto)
  ultimately show ?case
    by (auto simp: case_prod_unfold elim!: safe_mono)
qed simp

end
