(* ===== verification/VmWindows.thy ===== *)
theory VmWindows
  imports StrategyVm
begin

text \<open>
  The window operations against the history of their input. A ring slot holds the last
  \<open>cap\<close> values of the history it was fed; the raw operations re-scan the bar series
  instead. Both read the same values in the same order, so they compute the same float.
\<close>

subsection \<open>The ring refines a history\<close>

definition ring_holds :: "int \<Rightarrow> int \<Rightarrow> f32 list \<Rightarrow> f32 list \<Rightarrow> bool" where
  "ring_holds off cap hist st \<longleftrightarrow> 0 \<le> off \<and> 0 < cap \<and> off + 1 + cap \<le> int (length st) \<and>
     st ! nat off = f32_of_int (int (length hist)) \<and>
     (\<forall>i < length hist. int (length hist) \<le> int i + cap \<longrightarrow>
        st ! nat (off + 1 + int i mod cap) = hist ! i)"

lemma c_rem_nonneg: "0 \<le> a \<Longrightarrow> 0 < b \<Longrightarrow> c_rem a b = Inr (a mod b)"
  by (cases "a = 0") (auto simp: c_rem_def)

text \<open>Two states that agree outside a slot.\<close>

definition same_outside :: "int \<Rightarrow> int \<Rightarrow> f32 list \<Rightarrow> f32 list \<Rightarrow> bool" where
  "same_outside off cap st st' \<longleftrightarrow> length st' = length st \<and>
     (\<forall>i. int i < off \<or> off + cap < int i \<longrightarrow> st' ! i = st ! i)"

lemma ring_append_holds:
  assumes "ring_holds off cap hist (rg_state r)" "length hist < 2 ^ 24"
  obtains st where "ring_append off cap x r = Inr (int (length hist) + 1, r\<lparr>rg_state := st\<rparr>)"
    "ring_holds off cap (hist @ [x]) st" "same_outside off cap (rg_state r) st"
proof -
  let ?n = "int (length hist)"
  let ?m = "?n mod cap"
  let ?st1 = "(rg_state r)[nat (off + 1 + ?m) := x]"
  let ?st2 = "?st1[nat off := f32_of_int (?n + 1)]"
  have cap: "0 \<le> off" "0 < cap" "off + 1 + cap \<le> int (length (rg_state r))"
    and cnt: "rg_state r ! nat off = f32_of_int ?n"
    and old: "\<And>i. i < length hist \<Longrightarrow> ?n \<le> int i + cap \<Longrightarrow>
      rg_state r ! nat (off + 1 + int i mod cap) = hist ! i"
    using assms(1) by (auto simp: ring_holds_def)
  have m: "0 \<le> ?m" "?m < cap" using cap(2) by simp_all
  have "int32_of_f32 (f32_of_int ?n) = Some ?n"
    using assms(2) by (intro int32_of_f32_of_int) simp_all
  then have res: "ring_append off cap x r = Inr (?n + 1, r\<lparr>rg_state := ?st2\<rparr>)"
    using cap m cnt
    by (simp add: ring_append_def and_then_def st_get_def st_put_def at_index_def put_index_def
      to_int_def c_rem_nonneg add.assoc)
  have "?st2 ! nat (off + 1 + int i mod cap) = (hist @ [x]) ! i"
    if i: "i < length (hist @ [x])" "int (length (hist @ [x])) \<le> int i + cap" for i
  proof -
    have im: "0 \<le> int i mod cap" "int i mod cap < cap" using cap(2) by simp_all
    have ne: "nat (off + 1 + int i mod cap) \<noteq> nat off" using cap im by linarith
    show ?thesis
    proof (cases "i = length hist")
      case True
      then show ?thesis using ne cap m by simp
    next
      case False
      then have lt: "i < length hist" using i by simp
      have "int i mod cap \<noteq> ?m"
      proof
        assume "int i mod cap = ?m"
        then have "cap dvd ?n - int i" by (simp add: mod_eq_dvd_iff dvd_diff_commute)
        then show False using lt i(2) zdvd_not_zless [of "?n - int i" cap] by simp
      qed
      then have "nat (off + 1 + int i mod cap) \<noteq> nat (off + 1 + ?m)" using cap im m by linarith
      then show ?thesis using ne old [OF lt] i(2) lt by (simp add: nth_append)
    qed
  qed
  then have "ring_holds off cap (hist @ [x]) ?st2"
    using cap by (simp add: ring_holds_def add.commute)
  moreover have "same_outside off cap (rg_state r) ?st2"
    using cap m by (auto simp: same_outside_def nth_list_update)
  ultimately show ?thesis using res that by blast
qed

lemma ring_read_holds:
  assumes "ring_holds off cap hist (rg_state r)" "0 \<le> i" "i < int (length hist)"
    "int (length hist) \<le> i + cap"
  shows "ring_read off cap r i = Inr (hist ! nat i)"
proof -
  have cap: "0 \<le> off" "0 < cap" "off + 1 + cap \<le> int (length (rg_state r))"
    using assms(1) by (auto simp: ring_holds_def)
  obtain j where j: "i = int j" using assms(2) nonneg_int_cases by blast
  then have "rg_state r ! nat (off + 1 + int j mod cap) = hist ! j"
    using assms(1,3,4) unfolding ring_holds_def by simp
  then have "rg_state r ! nat (off + 1 + i mod cap) = hist ! nat i" using j by simp
  moreover have "0 \<le> i mod cap" "i mod cap < cap" using cap(2) by simp_all
  moreover from this have "off + (1 + i mod cap) < int (length (rg_state r))" using cap(3) by linarith
  ultimately show ?thesis
    using cap(1,2) assms(2)
    by (simp add: ring_read_def c_rem_nonneg and_then_def st_get_def at_index_def add.assoc)
qed

lemma read_all_map: "(\<And>i. i \<in> set is \<Longrightarrow> f i = Inr (g i)) \<Longrightarrow> read_all f is = Inr (map g is)"
  by (induction "is") (auto simp: and_then_def)

text \<open>The last \<open>k\<close> values of a history, oldest first.\<close>

definition last_vals :: "int \<Rightarrow> f32 list \<Rightarrow> f32 list" where
  "last_vals k hist = drop (length hist - nat k) hist"

lemma map_nth_upto:
  assumes "0 \<le> k" "k \<le> int (length hist)"
  shows "map (\<lambda>j. hist ! nat j) [int (length hist) - k..int (length hist) - 1] = last_vals k hist"
proof (rule nth_equalityI)
  show "length (map (\<lambda>j. hist ! nat j) [int (length hist) - k..int (length hist) - 1]) =
      length (last_vals k hist)"
    using assms by (simp add: last_vals_def)
next
  fix i
  assume "i < length (map (\<lambda>j. hist ! nat j) [int (length hist) - k..int (length hist) - 1])"
  then have "int i < k" by simp
  moreover from this have "nat (int (length hist) - k + int i) = length hist - nat k + i"
    using assms by linarith
  ultimately show "map (\<lambda>j. hist ! nat j) [int (length hist) - k..int (length hist) - 1] ! i =
      last_vals k hist ! i"
    using assms by (simp add: last_vals_def nth_upto)
qed

lemma op_window_history:
  assumes "ring_holds off cap hist (rg_state r)" "length hist < 2 ^ 24"
    "rg_stack r = n # x # stk" "length stk < 31" "int32_of_f32 n = Some i"
  obtains st where
    "op_window w off cap r =
       (let k = shorter (int (length hist) + 1) (clamp_window i cap) in
        and_then (window_value w k (last_vals k (hist @ [x])))
          (\<lambda>y. Inr (r\<lparr>rg_stack := y # stk, rg_state := st\<rparr>)))"
    "ring_holds off cap (hist @ [x]) st" "same_outside off cap (rg_state r) st"
proof -
  let ?r0 = "r\<lparr>rg_stack := stk\<rparr>"
  let ?n = "int (length hist)"
  let ?k = "shorter (?n + 1) (clamp_window i cap)"
  have "ring_holds off cap hist (rg_state ?r0)" using assms(1) by simp
  from ring_append_holds [OF this assms(2), of x] obtain st where
    st: "ring_append off cap x ?r0 = Inr (?n + 1, ?r0\<lparr>rg_state := st\<rparr>)"
    "ring_holds off cap (hist @ [x]) st" "same_outside off cap (rg_state r) st" by auto
  let ?r1 = "?r0\<lparr>rg_state := st\<rparr>"
  have "0 < cap" using assms(1) by (simp add: ring_holds_def)
  then have "1 \<le> clamp_window i cap" "clamp_window i cap \<le> cap"
    by (simp_all add: clamp_window_def at_least_1_def Let_def)
  then have k: "1 \<le> ?k" "?k \<le> ?n + 1" "?k \<le> cap" by (auto simp: shorter_def)
  have ups: "map (\<lambda>j. ?n + 1 - ?k + j) [0..?k - 1] = [?n + 1 - ?k..?n]"
    by (rule nth_equalityI) (simp_all add: nth_upto)
  have "read_all (ring_read off cap ?r1) [?n + 1 - ?k..?n] =
      Inr (map (\<lambda>j. (hist @ [x]) ! nat j) [?n + 1 - ?k..?n])"
    by (rule read_all_map, rule ring_read_holds) (use st(2) k in auto)
  also have "map (\<lambda>j. (hist @ [x]) ! nat j) [?n + 1 - ?k..?n] = last_vals ?k (hist @ [x])"
    using map_nth_upto [of ?k "hist @ [x]"] k by (simp add: add.commute)
  finally have rd: "read_all (ring_read off cap ?r1) [?n + 1 - ?k..?n] =
      Inr (last_vals ?k (hist @ [x]))" .
  have "op_window w off cap r = and_then (window_value w ?k (last_vals ?k (hist @ [x])))
      (\<lambda>y. Inr (r\<lparr>rg_stack := y # stk, rg_state := st\<rparr>))"
    using assms(3-5) st(1) rd
    by (simp add: op_window_def pop_def and_then_def to_int_def Let_def ups push_def split: sum.split)
  then show ?thesis using that st(2,3) by (simp add: Let_def)
qed

subsection \<open>Rings fed by the operation itself\<close>

text \<open>
  The states that a slot of a window operation goes through: it starts with a zero count,
  each execution of the operation with a value \<open>x\<close> under its window length adds \<open>x\<close> to the
  history, and between two executions the cells of other slots may change.
\<close>

inductive window_fed :: "window_fn \<Rightarrow> int \<Rightarrow> int \<Rightarrow> f32 list \<Rightarrow> f32 list \<Rightarrow> bool" for w off cap where
  fed_start: "0 \<le> off \<Longrightarrow> 0 < cap \<Longrightarrow> off + 1 + cap \<le> int (length st) \<Longrightarrow> st ! nat off = f_zero \<Longrightarrow>
    window_fed w off cap [] st"
| fed_step: "window_fed w off cap hist (rg_state r) \<Longrightarrow> rg_stack r = n # x # stk \<Longrightarrow> length stk < 31 \<Longrightarrow>
    op_window w off cap r = Inr r' \<Longrightarrow> window_fed w off cap (hist @ [x]) (rg_state r')"
| fed_other: "window_fed w off cap hist st \<Longrightarrow> length st' = length st \<Longrightarrow>
    (\<And>i. off \<le> int i \<Longrightarrow> int i \<le> off + cap \<Longrightarrow> st' ! i = st ! i) \<Longrightarrow> window_fed w off cap hist st'"

lemma ring_holds_other:
  assumes "ring_holds off cap hist st" "length st' = length st"
    "\<And>i. off \<le> int i \<Longrightarrow> int i \<le> off + cap \<Longrightarrow> st' ! i = st ! i"
  shows "ring_holds off cap hist st'"
proof -
  have cap: "0 \<le> off" "0 < cap" using assms(1) by (simp_all add: ring_holds_def)
  have "st' ! nat (off + 1 + int i mod cap) = st ! nat (off + 1 + int i mod cap)" for i
  proof -
    have "0 \<le> int i mod cap" "int i mod cap < cap" using cap(2) by simp_all
    then show ?thesis using cap by (intro assms(3)) linarith+
  qed
  moreover have "st' ! nat off = st ! nat off" using cap by (intro assms(3)) simp_all
  ultimately show ?thesis using assms(1,2) by (simp add: ring_holds_def)
qed

lemma op_window_casts: "op_window w off cap r = Inr r' \<Longrightarrow> rg_stack r = n # x # stk \<Longrightarrow>
    int32_of_f32 n \<noteq> None"
  by (cases "int32_of_f32 n") (simp_all add: op_window_def pop_def and_then_def to_int_def)

lemma window_fed_holds: "window_fed w off cap hist st \<Longrightarrow> length hist < 2 ^ 24 \<Longrightarrow> ring_holds off cap hist st"
proof (induction rule: window_fed.induct)
  case (fed_start st)
  then show ?case by (simp add: ring_holds_def f32_of_int_def round_f32_def)
next
  case (fed_step hist r n x stk r')
  have ring: "ring_holds off cap hist (rg_state r)" "length hist < 2 ^ 24"
    using fed_step.IH fed_step.prems by simp_all
  obtain i where "int32_of_f32 n = Some i" using op_window_casts [OF fed_step.hyps(4,2)] by blast
  from op_window_history [OF ring fed_step.hyps(2,3) this, of w] obtain k vs st where
    st: "op_window w off cap r = and_then (window_value w k vs)
      (\<lambda>y. Inr (r\<lparr>rg_stack := y # stk, rg_state := st\<rparr>))" "ring_holds off cap (hist @ [x]) st"
    unfolding Let_def by blast
  have "rg_state r' = st"
    using fed_step.hyps(4) unfolding st(1) by (cases "window_value w k vs") (auto simp: and_then_def)
  then show ?case using st(2) by simp
next
  case (fed_other hist st st')
  then show ?case by (blast intro: ring_holds_other)
qed

subsection \<open>The raw operations\<close>

text \<open>
  The value the strategy reads at bar \<open>j\<close> with lag \<open>lag\<close>, and its history up to bar
  \<open>t\<close>.
\<close>

definition lag_value :: "f32 list \<Rightarrow> int \<Rightarrow> int \<Rightarrow> f32" where
  "lag_value s lag j = s ! nat (if j - lag > 0 then j - lag else 0)"

definition lag_history :: "f32 list \<Rightarrow> int \<Rightarrow> nat \<Rightarrow> f32 list" where
  "lag_history s lag t = map (\<lambda>j. lag_value s lag (int j)) [0..<t]"

lemma length_lag_history [simp]: "length (lag_history s lag t) = t"
  by (simp add: lag_history_def)

lemma lag_history_Suc: "lag_history s lag (Suc t) = lag_history s lag t @ [lag_value s lag (int t)]"
  by (simp add: lag_history_def)

lemma op_window_raw_history:
  assumes "t < length (series_of s (aux_sid aux))" "0 < cap"
    "rg_stack r = n # stk" "length stk < 31" "int32_of_f32 n = Some i"
  shows "op_window_raw w s (int t) cap aux r =
     (let k = shorter (int t + 1) (clamp_window i cap) in
      and_then (window_value w k
          (last_vals k (lag_history (series_of s (aux_sid aux)) (aux_lag aux) (Suc t))))
        (\<lambda>y. Inr (r\<lparr>rg_stack := y # stk\<rparr>)))"
proof -
  let ?k = "shorter (int t + 1) (clamp_window i cap)"
  let ?ser = "series_of s (aux_sid aux)"
  let ?hist = "lag_history ?ser (aux_lag aux) (Suc t)"
  have "1 \<le> clamp_window i cap" using assms(2) by (simp add: clamp_window_def at_least_1_def Let_def)
  then have k: "1 \<le> ?k" "?k \<le> int t + 1" by (auto simp: shorter_def)
  have lag: "0 \<le> aux_lag aux" by (simp add: aux_lag_def)
  have "lagged ?ser (j - aux_lag aux) = Inr (?hist ! nat j)" if "j \<in> set [int t - ?k + 1..int t]" for j
  proof -
    have j: "0 \<le> j" "j \<le> int t" using that k by auto
    then have "nat j < Suc t" by linarith
    then have "?hist ! nat j = lag_value ?ser (aux_lag aux) j"
      using j(1) by (simp add: lag_history_def del: upt_Suc)
    moreover have "?ser \<noteq> []" using assms(1) by auto
    ultimately show ?thesis using j lag assms(1) by (simp add: lagged_def at_index_def lag_value_def)
  qed
  then have "read_all (\<lambda>j. lagged ?ser (j - aux_lag aux)) [int t - ?k + 1..int t] =
      Inr (map (\<lambda>j. ?hist ! nat j) [int t - ?k + 1..int t])"
    by (rule read_all_map)
  also have "map (\<lambda>j. ?hist ! nat j) [int t - ?k + 1..int t] = last_vals ?k ?hist"
    using map_nth_upto [of ?k ?hist] k by (simp add: algebra_simps)
  finally show ?thesis
    using assms(3-5)
    by (simp add: op_window_raw_def pop_def and_then_def to_int_def Let_def push_def split: sum.split)
qed

lemma raw_window_matches:
  assumes "window_fed w off cap (lag_history ser (aux_lag aux) t) (rg_state r)"
    "ser = series_of s (aux_sid aux)" "t < length ser" "t < 2 ^ 24"
    "rg_stack r = n # lag_value ser (aux_lag aux) (int t) # stk" "length stk < 31"
  shows "case op_window w off cap r of
    Inl e \<Rightarrow> op_window_raw w s (int t) cap aux (r\<lparr>rg_stack := n # stk\<rparr>) = Inl e
  | Inr r' \<Rightarrow>
      op_window_raw w s (int t) cap aux (r\<lparr>rg_stack := n # stk\<rparr>) = Inr (r\<lparr>rg_stack := rg_stack r'\<rparr>) \<and>
      r' = r\<lparr>rg_stack := rg_stack r', rg_state := rg_state r'\<rparr> \<and>
      window_fed w off cap (lag_history ser (aux_lag aux) (Suc t)) (rg_state r') \<and>
      same_outside off cap (rg_state r) (rg_state r')"
proof (cases "int32_of_f32 n")
  case None
  then show ?thesis
    using assms(5) by (simp add: op_window_def op_window_raw_def pop_def and_then_def to_int_def)
next
  case (Some i)
  have len: "length (lag_history ser (aux_lag aux) t) < 2 ^ 24" using assms(4) by simp
  note ring = window_fed_holds [OF assms(1) len]
  then have "0 < cap" by (simp add: ring_holds_def)
  let ?k = "shorter (int t + 1) (clamp_window i cap)"
  let ?hist = "lag_history ser (aux_lag aux) (Suc t)"
  obtain st where st: "op_window w off cap r =
      and_then (window_value w ?k (last_vals ?k ?hist))
        (\<lambda>y. Inr (r\<lparr>rg_stack := y # stk, rg_state := st\<rparr>))" "same_outside off cap (rg_state r) st"
    using op_window_history [OF ring len assms(5,6) Some, of w]
    by (simp add: Let_def lag_history_Suc) metis
  moreover have "op_window_raw w s (int t) cap aux (r\<lparr>rg_stack := n # stk\<rparr>) =
      and_then (window_value w ?k (last_vals ?k ?hist)) (\<lambda>y. Inr (r\<lparr>rg_stack := y # stk\<rparr>))"
    using op_window_raw_history [of t s aux cap "r\<lparr>rg_stack := n # stk\<rparr>" n stk i w]
      assms(2,3,6) Some \<open>0 < cap\<close>
    by (simp add: Let_def)
  moreover have "window_fed w off cap ?hist (rg_state r')" if r': "op_window w off cap r = Inr r'" for r'
    using fed_step [OF assms(1,5,6) r'] by (simp add: lag_history_Suc)
  ultimately show ?thesis by (auto simp: and_then_def split: sum.split)
qed

end
