(* ===== verification/VmProps.thy ===== *)
theory VmProps
  imports VmSafety VmWindows
begin

text \<open>
  The properties of the strategy loader and interpreter, on two small programs: one that
  compares a moving average kept in a ring with one re-scanned from the bars, and one that
  raises the same signal many times.
\<close>

text \<open>
  \<open>PUSH_SERIES close; PUSH_CONST 3.0; SMA slot 0; PUSH_CONST 3.0; SMA_RAW slot 1; GT; SIG_EL;
  HALT\<close>
\<close>

definition sample_program :: strat_program where
  "sample_program =
     \<lparr>pg_code = [0x02000003, 0x00000000, 0x1A000000, 0x00000000, 0x24000001, 0x11000000,
        0x29000000, 0x31000000],
      pg_consts = [0x40400000], pg_kind = [3, 5], pg_off = [0, 0], pg_cap = [4, 4],
      pg_aux = [0, 0x30000], pg_defaults = [], pg_names = [], pg_locals = 0,
      pg_state_floats = 5, pg_max_stack = 2\<rparr>"

text \<open>The pair \<open>PUSH_CONST 1.0; SIG_EL\<close>, repeated, and \<open>HALT\<close>.\<close>

definition flood_program :: "nat \<Rightarrow> strat_program" where
  "flood_program n =
     \<lparr>pg_code = concat (replicate n [0x00000000, 0x29000000]) @ [0x31000000],
      pg_consts = [0x3F800000], pg_kind = [], pg_off = [], pg_cap = [], pg_aux = [],
      pg_defaults = [], pg_names = [], pg_locals = 0, pg_state_floats = 0, pg_max_stack = 1\<rparr>"

lemma sample_accepted: "parse (obp1_image sample_program) = Inr sample_program"
proof -
  have "validate sample_program = None" by code_simp
  moreover have "layout_ok sample_program" by (simp add: layout_ok_def sample_program_def)
  ultimately show ?thesis by (simp add: parse_Inr)
qed

lemma flood_accepted: "parse (obp1_image (flood_program 34)) = Inr (flood_program 34)"
proof -
  have "validate (flood_program 34) = None" by code_simp
  moreover have "layout_ok (flood_program 34)" by (simp add: layout_ok_def flood_program_def sum_list_replicate length_concat)
  ultimately show ?thesis by (simp add: parse_Inr)
qed

lemma signals_once_sample: "signals_once sample_program"
  by code_simp

definition flat_bars :: "nat \<Rightarrow> f32 \<Rightarrow> bar_series" where
  "flat_bars n x = \<lparr>bs_o = replicate n x, bs_h = replicate n x, bs_l = replicate n x,
     bs_c = replicate n x, bs_v = replicate n x\<rparr>"

definition flat_ctx :: vm_ctx where
  "flat_ctx = \<lparr>cx_position = f_zero, cx_entry_px = f_zero, cx_equity = f_zero\<rparr>"

text \<open>
  Property C12. The loader accepts exactly the images of well-formed programs: it returns a
  program iff the bytes are that program's OBP1 layout, and the program's operands are in
  range, its state slots lie in the state block and do not overlap, its constants are finite,
  its code ends in the only \<open>HALT\<close>, never underflows its stack, ends with an empty one and
  stays within 32 entries, with the declared maximum the observed one.
\<close>

theorem loader_exact: "parse d = Inr p \<longleftrightarrow> program_ok p \<and> d = obp1_image p"
  by (rule parse_iff)

text \<open>
  Property C13. An accepted program in which each signal instruction occurs at most once runs
  safely over any bars: no access outside the stack, the pools, the locals, the state block or
  the bar series and no division by zero, bar after bar; the only fault possible is the
  conversion of a float to an \<open>int\<close> that cannot represent it.
\<close>

theorem accepted_program_safe:
  assumes "parse d = Inr p" "signals_once p" "new_vm p params = Some vm"
    "\<And>i. i < length cs \<Longrightarrow> bars_ok s (int i)"
  shows "safe (\<lambda>(vm', gs). vm_ok vm' \<and> length gs = length cs) (run_bars lg s 0 cs vm)"
proof -
  have ok: "program_ok p" using assms(1) by (simp add: parse_iff)
  from new_vm_ok [OF ok assms(3)] have "vm_ok vm" "vm_prog vm = p" by blast+
  then show ?thesis using ok assms(2,4) by (intro run_bars_ok) auto
qed

definition sample_vm :: strategy_vm where
  "sample_vm = \<lparr>vm_prog = sample_program, vm_params = [], vm_state = replicate 5 f_zero,
     vm_locals = [f_zero]\<rparr>"

lemma sample_new_vm: "new_vm sample_program [] = Some sample_vm"
  by (simp add: new_vm_def sample_vm_def sample_program_def)

theorem accepted_program_safe_witness:
  "safe (\<lambda>(vm', gs). vm_ok vm' \<and> length gs = 2)
     (run_bars id (flat_bars 2 f_one) 0 [flat_ctx, flat_ctx] sample_vm)"
proof -
  have bars: "\<And>i. i < length [flat_ctx, flat_ctx] \<Longrightarrow> bars_ok (flat_bars 2 f_one) (int i)"
    by (simp add: bars_ok_def flat_bars_def)
  show ?thesis
    using accepted_program_safe [OF sample_accepted signals_once_sample sample_new_vm,
      of "[flat_ctx, flat_ctx]" "flat_bars 2 f_one" id] bars
    by (simp add: numeral_2_eq_2 del: run_bars.simps)
qed

text \<open>
  The check of the stack is not enough for a program that repeats a signal: the
  loader accepts this program, whose declared and observed stack is one entry deep, and the
  interpreter overflows its 32-entry stack on the first bar, because a signal that is already
  set is not popped.
\<close>

theorem repeated_signal_overflows:
  "\<exists>vm. parse (obp1_image (flood_program 34)) = Inr (flood_program 34) \<and>
     new_vm (flood_program 34) [] = Some vm \<and>
     vm_step lg (flat_bars 1 f_one) 0 flat_ctx vm = Inl Stack_fault"
proof -
  let ?vm = "\<lparr>vm_prog = flood_program 34, vm_params = [], vm_state = [], vm_locals = [f_zero]\<rparr>"
  have "new_vm (flood_program 34) [] = Some ?vm"
    by (simp add: new_vm_def flood_program_def)
  moreover have "vm_step lg (flat_bars 1 f_one) 0 flat_ctx ?vm = Inl Stack_fault"
    by code_simp
  ultimately show ?thesis using flood_accepted by blast
qed

text \<open>
  Property C14. A window operation and its raw form, which re-scans the bars, are the same
  computation for the first \<open>2 ^ 24\<close> bars: on a slot that started zeroed and was fed the lagged
  series by the operation itself, bar after bar and whatever its window lengths, both put the
  same value on the stack (same window, same order of operations) or fail with the same fault.
  The operation leaves the slot fed with one value more and every cell outside the slot as it
  was. (From \<open>2 ^ 24\<close> values on the count of the ring no longer grows: \<open>ring_count_sticks\<close>.)
\<close>

theorem raw_window_equals_ring:
  assumes "window_fed w off cap (lag_history (series_of s (aux_sid aux)) (aux_lag aux) t) (rg_state r)"
    "t < length (series_of s (aux_sid aux))" "t < 2 ^ 24" "length stk < 31"
    "rg_stack r = n # lag_value (series_of s (aux_sid aux)) (aux_lag aux) (int t) # stk"
  shows "case op_window w off cap r of
    Inl e \<Rightarrow> op_window_raw w s (int t) cap aux (r\<lparr>rg_stack := n # stk\<rparr>) = Inl e
  | Inr r' \<Rightarrow>
      op_window_raw w s (int t) cap aux (r\<lparr>rg_stack := n # stk\<rparr>) = Inr (r\<lparr>rg_stack := rg_stack r'\<rparr>) \<and>
      r' = r\<lparr>rg_stack := rg_stack r', rg_state := rg_state r'\<rparr> \<and>
      window_fed w off cap (lag_history (series_of s (aux_sid aux)) (aux_lag aux) (Suc t)) (rg_state r') \<and>
      same_outside off cap (rg_state r) (rg_state r')"
  by (rule raw_window_matches [OF assms(1) refl assms(2,3,5,4)])

text \<open>Three rising bars; the first two fed into a slot in the middle of the state block.\<close>

definition slot_regs :: "f32 \<Rightarrow> f32 list \<Rightarrow> vm_regs" where
  "slot_regs x st = \<lparr>rg_stack = [f32_of_int 3, x], rg_state = st, rg_locals = [], rg_sig = no_signals\<rparr>"

definition rising_bars :: bar_series where
  "rising_bars = (flat_bars 3 f_one)\<lparr>bs_c := [f_one, f32_of_int 2, f32_of_int 3]\<rparr>"

lemma rising_series: "series_of rising_bars (aux_sid 0x30000) = [f_one, f32_of_int 2, f32_of_int 3]"
  "aux_lag 0x30000 = 0"
  by code_simp+

lemma slot_fed_step:
  assumes "window_fed W_Sma 1 2 hist st"
    "map_sum id rg_state (op_window W_Sma 1 2 (slot_regs x st)) = Inr st'"
  shows "window_fed W_Sma 1 2 (hist @ [x]) st'"
proof -
  obtain r' where r': "op_window W_Sma 1 2 (slot_regs x st) = Inr r'" "rg_state r' = st'"
    using assms(2) by (cases "op_window W_Sma 1 2 (slot_regs x st)") auto
  have "window_fed W_Sma 1 2 hist (rg_state (slot_regs x st))" using assms(1) by (simp add: slot_regs_def)
  from fed_step [OF this _ _ r'(1), of "f32_of_int 3" x "[]"] show ?thesis
    by (simp add: slot_regs_def r'(2))
qed

lemma slot_fed: "window_fed W_Sma 1 2 [f_one, f32_of_int 2] [f_one, f32_of_int 2, f_one, f32_of_int 2]"
proof -
  have "window_fed W_Sma 1 2 [] [f_one, f_zero, f_zero, f_zero]" by (rule fed_start) simp_all
  moreover have "map_sum id rg_state (op_window W_Sma 1 2 (slot_regs f_one [f_one, f_zero, f_zero, f_zero])) =
      Inr [f_one, f_one, f_one, f_zero]" by code_simp
  ultimately have one: "window_fed W_Sma 1 2 [f_one] [f_one, f_one, f_one, f_zero]"
    using slot_fed_step [of "[]"] by (metis append_Nil)
  have "map_sum id rg_state (op_window W_Sma 1 2 (slot_regs (f32_of_int 2) [f_one, f_one, f_one, f_zero])) =
      Inr [f_one, f32_of_int 2, f_one, f32_of_int 2]" by code_simp
  from slot_fed_step [OF one this] show ?thesis by simp
qed

theorem raw_window_equals_ring_witness:
  "\<exists>r'. op_window W_Sma 1 2 (slot_regs (f32_of_int 3) [f_one, f32_of_int 2, f_one, f32_of_int 2]) = Inr r' \<and>
     op_window_raw W_Sma rising_bars 2 2 0x30000
       ((slot_regs (f32_of_int 3) [f_one, f32_of_int 2, f_one, f32_of_int 2])\<lparr>rg_stack := [f32_of_int 3]\<rparr>) =
     Inr ((slot_regs (f32_of_int 3) [f_one, f32_of_int 2, f_one, f32_of_int 2])\<lparr>rg_stack := rg_stack r'\<rparr>) \<and>
     window_fed W_Sma 1 2 [f_one, f32_of_int 2, f32_of_int 3] (rg_state r')"
proof -
  let ?r = "slot_regs (f32_of_int 3) [f_one, f32_of_int 2, f_one, f32_of_int 2]"
  have hist: "lag_history [f_one, f32_of_int 2, f32_of_int 3] 0 2 = [f_one, f32_of_int 2]"
    "lag_history [f_one, f32_of_int 2, f32_of_int 3] 0 (Suc 2) = [f_one, f32_of_int 2, f32_of_int 3]"
    by code_simp+
  have fed: "window_fed W_Sma 1 2 (lag_history (series_of rising_bars (aux_sid 0x30000)) (aux_lag 0x30000) 2)
      (rg_state ?r)"
    unfolding rising_series hist using slot_fed by (simp add: slot_regs_def)
  have top: "rg_stack ?r = f32_of_int 3 # lag_value (series_of rising_bars (aux_sid 0x30000)) (aux_lag 0x30000) (int 2) # []"
    unfolding rising_series by (simp add: slot_regs_def lag_value_def)
  have "\<not> isl (op_window W_Sma 1 2 ?r)" by code_simp
  then obtain r' where "op_window W_Sma 1 2 ?r = Inr r'" by (cases "op_window W_Sma 1 2 ?r") auto
  then show ?thesis
    using raw_window_equals_ring [OF fed _ _ _ top] unfolding rising_series hist by (auto simp: slot_regs_def)
qed

text \<open>
  The count of a ring is kept in a float, which cannot represent every integer
  above \<open>2^24\<close>: once a slot has seen that many values its count no longer changes, so
  every later value overwrites the same cell and the window stops moving.
\<close>

theorem ring_count_sticks:
  assumes "0 \<le> off" "0 < cap" "off + 1 + cap \<le> int (length (rg_state r))"
    "rg_state r ! nat off = f32_of_int (2 ^ 24)"
  shows "ring_append off cap x r =
     Inr (2 ^ 24 + 1, r\<lparr>rg_state := (rg_state r)[nat (off + 1 + 2 ^ 24 mod cap) := x]\<rparr>)"
proof -
  have m: "0 \<le> (2 ^ 24) mod cap" "(2 ^ 24) mod cap < cap" using assms(2) by simp_all
  let ?st = "(rg_state r)[nat (off + 1 + 2 ^ 24 mod cap) := x]"
  have "nat (off + 1 + 2 ^ 24 mod cap) \<noteq> nat off" using m(1) assms(1) by linarith
  then have "?st ! nat off = f32_of_int (2 ^ 24)" using assms(4) by simp
  then have same: "?st[nat off := f32_of_int (2 ^ 24)] = ?st" by (metis list_update_id)
  have "int32_of_f32 (f32_of_int (2 ^ 24)) = Some (2 ^ 24)" by (rule int32_of_f32_of_int) simp_all
  moreover have "c_rem (2 ^ 24) cap = Inr (2 ^ 24 mod cap)" using assms(2) by (simp add: c_rem_nonneg)
  ultimately show ?thesis
    using assms m same f32_count_limit(2)
    by (simp add: ring_append_def and_then_def st_get_def st_put_def at_index_def put_index_def
      to_int_def add.assoc del: One_nat_def)
qed

theorem ring_count_sticks_witness:
  "\<exists>r r'. ring_append 0 4 f_one r = Inr (2 ^ 24 + 1, r') \<and> rg_state r' ! 0 = f32_of_int (2 ^ 24)"
proof -
  let ?r = "\<lparr>rg_stack = [], rg_state = [f32_of_int (2 ^ 24), f_zero, f_zero, f_zero, f_zero],
    rg_locals = [], rg_sig = no_signals\<rparr>"
  have "ring_append 0 4 f_one ?r = Inr (2 ^ 24 + 1,
      ?r\<lparr>rg_state := (rg_state ?r)[nat (0 + 1 + 2 ^ 24 mod 4) := f_one]\<rparr>)"
    by (rule ring_count_sticks) simp_all
  then show ?thesis by (intro exI conjI) (assumption, simp)
qed

end
