(* ===== verification/BarProps.thy ===== *)
theory BarProps
  imports BarBuilder
begin

text \<open>
  Properties of the bar builder: completed bars are only appended, their number follows the
  bar clock, and every bar's high and low enclose its other prices.
\<close>

subsection \<open>The order of finite floats\<close>

lemma fix_val_shift: "k \<le> j \<Longrightarrow> j \<le> e \<Longrightarrow> fix_val s m e k = fix_val s m e j * 2 ^ nat (j - k)"
proof -
  assume "k \<le> j" "j \<le> e"
  then have "nat (e - k) = nat (e - j) + nat (j - k)" by simp
  then show ?thesis by (simp add: fix_val_def Let_def power_add)
qed

lemma f32_lt_at:
  "k \<le> e \<Longrightarrow> k \<le> f \<Longrightarrow> f32_lt (Fin s m e) (Fin t n f) \<longleftrightarrow> fix_val s m e k < fix_val t n f k"
  using fix_val_shift [of k "min e f" e s m] fix_val_shift [of k "min e f" f t n]
  by (simp add: Let_def)

lemma f32_le_at:
  "k \<le> e \<Longrightarrow> k \<le> f \<Longrightarrow> f32_le (Fin s m e) (Fin t n f) \<longleftrightarrow> fix_val s m e k \<le> fix_val t n f k"
  using fix_val_shift [of k "min e f" e s m] fix_val_shift [of k "min e f" f t n]
  by (auto simp: Let_def f32_le_def)

lemma finiteE:
  assumes "f32_finite x"
  obtains s m e where "x = Fin s m e"
  using assms by (cases x) auto

lemma f32_le_refl: "f32_finite x \<Longrightarrow> f32_le x x"
  by (erule finiteE) (simp add: f32_le_def)

lemma f32_le_trans:
  assumes "f32_finite x" "f32_finite y" "f32_finite z" "f32_le x y" "f32_le y z"
  shows "f32_le x z"
proof -
  obtain s m e t n f u o' g where xyz: "x = Fin s m e" "y = Fin t n f" "z = Fin u o' g"
    using assms(1-3) by (meson finiteE)
  let ?k = "min e (min f g)"
  have "?k \<le> e" "?k \<le> f" "?k \<le> g" by simp_all
  then show ?thesis using assms(4,5) unfolding xyz by (simp add: f32_le_at [of ?k])
qed

lemma f32_not_lt: "f32_finite x \<Longrightarrow> f32_finite y \<Longrightarrow> \<not> f32_lt x y \<longleftrightarrow> f32_le y x"
  by (elim finiteE) (auto simp: f32_lt_at [of "min _ _"] f32_le_def Let_def min.commute)

lemma f32_lt_le: "f32_lt x y \<Longrightarrow> f32_le x y"
  by (simp add: f32_le_def)

lemma nbits_le: "0 \<le> n \<Longrightarrow> n < 2 ^ k \<Longrightarrow> nbits n \<le> int k"
proof (cases "0 < n")
  case True
  assume "n < 2 ^ k"
  have "1 \<le> nbits n" "2 ^ nat (nbits n - 1) \<le> n" using nbits_bounds [OF True] by simp_all
  then have "(2 :: int) ^ nat (nbits n - 1) < 2 ^ k" using \<open>n < 2 ^ k\<close> by linarith
  then have "nat (nbits n - 1) < k" by simp
  then show ?thesis using \<open>1 \<le> nbits n\<close> by linarith
qed (simp add: nbits.simps)

lemma f32_of_u32_finite [simp]: "f32_finite (f32_of_u32 w)"
proof -
  have "uint w < 2 ^ 32" using uint_lt2p [of w] by simp
  then have "nbits (uint w) \<le> 32" using nbits_le [of "uint w" 32] by simp
  moreover have "nbits 1 = 1" by (simp add: nbits.simps)
  ultimately have "log2_quot (uint w) 1 \<le> 31" by (simp add: log2_quot_def Let_def)
  then show ?thesis
    by (auto simp: f32_of_u32_def f32_of_int_def round_f32_def Let_def)
qed

subsection \<open>The builder's invariant\<close>

text \<open>The number of bars, which \<open>series_size\<close> narrows to an \<open>int\<close>.\<close>

definition bar_count :: "bar_series \<Rightarrow> nat" where
  "bar_count s = length (bs_c s)"

lemma series_size_le: "series_size s \<le> int (bar_count s)"
proof -
  have "uint (of_nat (bar_count s) :: 32 word) \<le> int (bar_count s)"
    by (simp add: uint_nat unat_of_nat flip: of_nat_mod)
  moreover have "sint w \<le> uint w" for w :: "32 word"
    using order_trans [of "- (2 ^ 31)" 0 "uint w"] by (simp add: sint_uint signed_take_bit_int_less_eq_self_iff)
  ultimately show ?thesis
    unfolding series_size_def bar_count_def by (rule order_trans [rotated])
qed

lemma series_size_small:
  assumes "bar_count s < 2 ^ 31"
  shows "series_size s = int (bar_count s)"
proof -
  have "uint (of_nat (bar_count s) :: 32 word) = int (bar_count s)"
    using assms by (simp add: uint_nat unat_of_nat)
  then show ?thesis
    using assms by (simp add: series_size_def bar_count_def sint_uint signed_take_bit_int_eq_self)
qed

definition bar_ok :: "f32 \<Rightarrow> f32 \<Rightarrow> f32 \<Rightarrow> f32 \<Rightarrow> bool" where
  "bar_ok p_o p_h p_l p_c \<longleftrightarrow> f32_finite p_o \<and> f32_finite p_h \<and> f32_finite p_l \<and> f32_finite p_c \<and>
     f32_le p_l p_o \<and> f32_le p_l p_c \<and> f32_le p_o p_h \<and> f32_le p_c p_h"

definition series_ok :: "bar_series \<Rightarrow> bool" where
  "series_ok s \<longleftrightarrow> length (bs_o s) = bar_count s \<and> length (bs_h s) = bar_count s \<and>
     length (bs_l s) = bar_count s \<and> length (bs_v s) = bar_count s \<and>
     (\<forall>i < bar_count s. bar_ok (bs_o s ! i) (bs_h s ! i) (bs_l s ! i) (bs_c s ! i))"

definition builder_ok :: "bar_builder \<Rightarrow> bool" where
  "builder_ok b \<longleftrightarrow> series_ok (bb_bars b) \<and>
     (bb_open b \<longrightarrow> bar_ok (bb_o b) (bb_h b) (bb_l b) (bb_c b))"

lemma bar_ok_flat: "f32_finite x \<Longrightarrow> bar_ok x x x x"
  by (simp add: bar_ok_def f32_le_refl)

lemma bar_ok_extend:
  assumes "bar_ok p_o p_h p_l p_c" "f32_finite x"
  shows "bar_ok p_o (if f32_lt p_h x then x else p_h) (if f32_lt x p_l then x else p_l) x"
proof -
  have fin: "f32_finite p_o" "f32_finite p_h" "f32_finite p_l"
    and le: "f32_le p_l p_o" "f32_le p_o p_h" using assms(1) by (auto simp: bar_ok_def)
  have "f32_le p_o (if f32_lt p_h x then x else p_h)" "f32_le (if f32_lt x p_l then x else p_l) p_o"
    using f32_le_trans [of p_o p_h x] f32_le_trans [of x p_l p_o] fin assms(2) le
    by (auto intro: f32_lt_le)
  moreover have "f32_le x (if f32_lt p_h x then x else p_h)" "f32_le (if f32_lt x p_l then x else p_l) x"
    using f32_not_lt fin assms(2) by (auto intro: f32_le_refl)
  ultimately show ?thesis using fin assms(2) by (auto simp: bar_ok_def)
qed

lemma bar_count_emit [simp]: "bar_count (emit p_o p_h p_l p_c p_v s) = Suc (bar_count s)"
  by (simp add: emit_def bar_count_def)

lemma emit_ok: "series_ok s \<Longrightarrow> bar_ok p_o p_h p_l p_c \<Longrightarrow> series_ok (emit p_o p_h p_l p_c p_v s)"
  by (auto simp: series_ok_def nth_append less_Suc_eq emit_def bar_count_def)

lemma emit_gap_ok: "series_ok s \<Longrightarrow> f32_finite c \<Longrightarrow> series_ok (emit_gap n c s)"
  by (induction n arbitrary: s) (auto intro: emit_ok bar_ok_flat)

lemma emit_gap_closes: "bs_c (emit_gap n c s) = bs_c s @ replicate n c"
  by (induction n arbitrary: s) (auto simp: emit_def replicate_append_same [symmetric])

text \<open>A trade is absorbed unless it completes \<open>2 ^ 31\<close> bars at once.\<close>

lemma on_trade_None:
  "on_trade ts p q b = None \<longleftrightarrow>
     bb_ns b = 0 \<or> bb_open b \<and> bucket_of ts (bb_ns b) - bb_bucket b \<ge> 2 ^ 31"
  by (auto simp: on_trade_def Let_def)

lemma on_trade_ok:
  assumes "builder_ok b" "on_trade ts p q b = Some (b', k)"
  shows "builder_ok b' \<and> bb_open b' \<and> bb_ns b' = bb_ns b"
proof -
  have fin: "bb_open b \<Longrightarrow> f32_finite (bb_c b)" using assms(1) by (simp add: builder_ok_def bar_ok_def)
  show ?thesis
    using assms fin bar_ok_extend [of "bb_o b" "bb_h b" "bb_l b" "bb_c b" "f32_of_u32 p"]
      bar_ok_flat [of "f32_of_u32 p"]
    by (auto simp: on_trade_def Let_def builder_ok_def split: if_splits intro!: emit_ok emit_gap_ok)
qed

text \<open>
  One trade of an open builder: nothing in its bucket or an earlier one, and otherwise the
  open bar and a flat bar for each empty bucket in between.
\<close>

lemma on_trade_step:
  assumes "bb_open b" "on_trade ts p q b = Some (b', k)"
  shows "bb_bucket b' = max (bb_bucket b) (bucket_of ts (bb_ns b))"
    "k = bb_bucket b' - bb_bucket b"
    "bs_c (bb_bars b') = bs_c (bb_bars b) @ (if k = 0 then [] else bb_c b # replicate (nat k - 1) (bb_c b))"
  using assms
  by (auto simp: on_trade_def Let_def emit_gap_closes emit_def max_def nat_diff_distrib
    split: if_splits)

fun feed :: "(u64 \<times> u32 \<times> u32) list \<Rightarrow> bar_builder \<Rightarrow> bar_builder option" where
  "feed [] b = Some b"
| "feed ((ts, p, q) # trades) b = Option.bind (on_trade ts p q b) (\<lambda>(b', k). feed trades b')"

lemma feed_append: "feed (xs @ ys) b = Option.bind (feed xs b) (feed ys)"
  by (induction xs b rule: feed.induct) (auto simp: bind_eq_Some_conv split: Option.bind_splits)

definition tr_bucket :: "u64 \<Rightarrow> u64 \<times> u32 \<times> u32 \<Rightarrow> int" where
  "tr_bucket ns tr = bucket_of (fst tr) ns"

definition tr_price :: "u64 \<times> u32 \<times> u32 \<Rightarrow> f32" where
  "tr_price tr = f32_of_u32 (fst (snd tr))"

text \<open>What a builder holds after the trades \<open>trs\<close>, the first of which opened it.\<close>

definition fed :: "u64 \<Rightarrow> (u64 \<times> u32 \<times> u32) list \<Rightarrow> bar_builder \<Rightarrow> bool" where
  "fed ns trs b \<longleftrightarrow> builder_ok b \<and> bb_open b \<and> bb_ns b = ns \<and>
     bb_bucket b = Max (tr_bucket ns ` set trs) \<and>
     int (bar_count (bb_bars b)) = bb_bucket b - tr_bucket ns (hd trs) \<and>
     bb_c b = tr_price (last trs)"

lemma fed_first:
  assumes "ns \<noteq> 0"
  obtains b where "feed [tr] (new_builder ns) = Some b" "fed ns [tr] b"
    "bar_count (bb_bars b) = 0"
proof -
  obtain ts p q where tr: "tr = (ts, p, q)" by (cases tr)
  have "builder_ok (new_builder ns)"
    by (simp add: builder_ok_def new_builder_def no_bars_def series_ok_def bar_count_def)
  then show ?thesis
    using assms that on_trade_ok [of "new_builder ns" ts p q]
    by (simp add: tr on_trade_def Let_def fed_def new_builder_def no_bars_def bar_count_def
      tr_bucket_def tr_price_def)
qed

lemma fed_next:
  assumes "ns \<noteq> 0" "fed ns trs b" "trs \<noteq> []" "tr_bucket ns tr - bb_bucket b < 2 ^ 31"
  obtains b' where "feed [tr] b = Some b'" "fed ns (trs @ [tr]) b'"
    "bs_c (bb_bars b') = bs_c (bb_bars b) @
       replicate (nat (bb_bucket b' - bb_bucket b)) (tr_price (last trs))"
proof -
  obtain ts p q where tr: "tr = (ts, p, q)" by (cases tr)
  obtain b' k where step: "on_trade ts p q b = Some (b', k)"
    using on_trade_None [of ts p q b] assms(1,2,4) by (cases "on_trade ts p q b") (auto simp: fed_def tr tr_bucket_def)
  have "bb_open b" using assms(2) by (simp add: fed_def)
  note st = on_trade_step [OF this step]
  have ok: "builder_ok b' \<and> bb_open b' \<and> bb_ns b' = bb_ns b"
    using on_trade_ok step assms(2) by (auto simp: fed_def)
  have "Max (insert (tr_bucket ns tr) (tr_bucket ns ` set trs)) =
      max (tr_bucket ns tr) (Max (tr_bucket ns ` set trs))"
    using assms(3) by (intro Max_insert) auto
  then have bucket: "bb_bucket b' = Max (tr_bucket ns ` set (trs @ [tr]))"
    using st(1) assms(2) by (simp add: fed_def tr tr_bucket_def max.commute)
  have k: "0 \<le> k" using st(1,2) by simp
  have rep: "(if k = 0 then [] else bb_c b # replicate (nat k - 1) (bb_c b)) = replicate (nat k) (bb_c b)"
    using k by (cases "nat k") auto
  have closes: "bs_c (bb_bars b') = bs_c (bb_bars b) @ replicate (nat k) (bb_c b)"
    using st(3) unfolding rep .
  have price: "bb_c b' = tr_price tr"
    using step by (auto simp: on_trade_def Let_def tr tr_price_def split: if_splits)
  have "int (bar_count (bb_bars b')) = bb_bucket b' - tr_bucket ns (hd (trs @ [tr]))"
    using closes assms(2,3) k st(2) by (simp add: bar_count_def fed_def)
  then have "fed ns (trs @ [tr]) b'"
    using ok bucket price assms(2) by (simp add: fed_def)
  then show ?thesis
    using that [of b'] closes step st(2) assms(2) by (simp add: tr fed_def)
qed

text \<open>No two trades are \<open>2 ^ 31\<close> bar lengths apart.\<close>

definition within_clock :: "u64 \<Rightarrow> (u64 \<times> u32 \<times> u32) list \<Rightarrow> bool" where
  "within_clock ns trs \<longleftrightarrow> (\<forall>x\<in>set trs. \<forall>y\<in>set trs. tr_bucket ns x - tr_bucket ns y < 2 ^ 31)"

lemma within_clock_append: "within_clock ns (xs @ ys) \<Longrightarrow> within_clock ns xs"
  by (simp add: within_clock_def)

lemma within_clock_latest:
  assumes "within_clock ns (trs @ [tr])" "fed ns trs b" "trs \<noteq> []"
  shows "tr_bucket ns tr - bb_bucket b < 2 ^ 31"
proof -
  have "bb_bucket b \<in> tr_bucket ns ` set trs" using assms(2,3) Max_in [of "tr_bucket ns ` set trs"] by (simp add: fed_def)
  then show ?thesis using assms(1) by (auto simp: within_clock_def)
qed

lemma feed_fed:
  assumes "ns \<noteq> 0" "trs \<noteq> []" "within_clock ns trs"
  shows "\<exists>b. feed trs (new_builder ns) = Some b \<and> fed ns trs b"
  using assms(2,3)
proof (induction trs rule: rev_nonempty_induct)
  case (single tr)
  show ?case using fed_first [OF assms(1), of tr] by blast
next
  case (snoc tr trs)
  then obtain b where b: "feed trs (new_builder ns) = Some b" "fed ns trs b"
    using within_clock_append by blast
  with fed_next [OF assms(1) b(2) snoc.hyps(1) within_clock_latest [OF snoc.prems b(2) snoc.hyps(1)]] show ?case
    by (auto simp: feed_append)
qed

text \<open>With trades in bucket order, a bar closes at the last price up to its bucket.\<close>

lemma feed_closes:
  assumes "ns \<noteq> 0" "trs \<noteq> []" "within_clock ns trs" "sorted (map (tr_bucket ns) trs)"
    "feed trs (new_builder ns) = Some b" "i < bar_count (bb_bars b)"
  shows "bs_c (bb_bars b) ! i =
    tr_price (last (filter (\<lambda>tr. tr_bucket ns tr \<le> tr_bucket ns (hd trs) + int i) trs))"
  using assms(2-)
proof (induction trs arbitrary: b i rule: rev_nonempty_induct)
  case (single tr)
  then show ?case using fed_first [OF assms(1), of tr] by auto
next
  case (snoc tr trs)
  have near: "within_clock ns trs" using snoc.prems(1) by (rule within_clock_append)
  obtain b0 where b0: "feed trs (new_builder ns) = Some b0" "fed ns trs b0"
    using feed_fed [OF assms(1) snoc.hyps(1) near] by blast
  obtain b1 where b1: "feed [tr] b0 = Some b1" "fed ns (trs @ [tr]) b1"
    "bs_c (bb_bars b1) = bs_c (bb_bars b0) @
      replicate (nat (bb_bucket b1 - bb_bucket b0)) (tr_price (last trs))"
    using fed_next [OF assms(1) b0(2) snoc.hyps(1) within_clock_latest [OF snoc.prems(1) b0(2) snoc.hyps(1)]] by blast
  have b: "b = b1" using snoc.prems(3) b0(1) b1(1) by (simp add: feed_append)
  let ?first = "tr_bucket ns (hd trs)"
  have srt: "sorted (map (tr_bucket ns) trs)" "\<forall>x \<in> set trs. tr_bucket ns x \<le> tr_bucket ns tr"
    using snoc.prems(2) by (simp_all add: sorted_append)
  have top: "\<forall>x \<in> set trs. tr_bucket ns x \<le> bb_bucket b0"
    using b0(2) by (auto simp: fed_def)
  have size0: "int (bar_count (bb_bars b0)) = bb_bucket b0 - ?first" using b0(2) by (simp add: fed_def)
  have size1: "int (bar_count (bb_bars b1)) = bb_bucket b1 - ?first"
    using b1(2) snoc.hyps(1) by (simp add: fed_def)
  have "bb_bucket b1 = tr_bucket ns tr"
    using b1(2) srt(2) by (auto simp: fed_def intro!: Max_eqI)
  then have out: "\<not> tr_bucket ns tr \<le> ?first + int i"
    using snoc.prems(4) [unfolded b] size1 by linarith
  have hd: "hd (trs @ [tr]) = hd trs" using snoc.hyps(1) by simp
  show ?case
  proof (cases "i < bar_count (bb_bars b0)")
    case True
    then have "bs_c (bb_bars b1) ! i = bs_c (bb_bars b0) ! i"
      by (simp add: b1(3) nth_append bar_count_def)
    then show ?thesis using snoc.IH [OF near srt(1) b0(1) True] out b hd by simp
  next
    case False
    have "i < length (bs_c (bb_bars b1))" using snoc.prems(4) b by (simp add: bar_count_def)
    then have "bs_c (bb_bars b1) ! i = tr_price (last trs)"
      using False unfolding b1(3) by (simp add: nth_append bar_count_def)
    moreover have "filter (\<lambda>x. tr_bucket ns x \<le> ?first + int i) trs = trs"
      using top size0 False by (force simp: filter_id_conv)
    ultimately show ?thesis using out b hd by simp
  qed
qed

text \<open>
  Property C15. The bar clock never stalls: with a positive bar length every stream of trades, no
  two of which lie \<open>2 ^ 31\<close> bar lengths apart, is absorbed, and the number of completed bars is the
  distance from the first trade's bucket to the latest one, empty buckets included. Every
  completed bar has finite prices and its low and high enclose its open and close. (A trade that
  far behind the open bar overflows the \<open>int\<close> that counts the bars it completes.)
\<close>

theorem bar_clock:
  assumes "ns \<noteq> 0" "trs \<noteq> []" "within_clock ns trs"
  shows "\<exists>b. feed trs (new_builder ns) = Some b \<and> builder_ok b \<and>
     bb_bucket b = Max (tr_bucket ns ` set trs) \<and>
     series_size (bb_bars b) = bb_bucket b - tr_bucket ns (hd trs)"
proof -
  obtain b where b: "feed trs (new_builder ns) = Some b" "fed ns trs b" using feed_fed [OF assms] by blast
  have "bb_bucket b \<in> tr_bucket ns ` set trs" using b(2) assms(2) Max_in [of "tr_bucket ns ` set trs"] by (simp add: fed_def)
  moreover have "hd trs \<in> set trs" using assms(2) by simp
  ultimately have "bb_bucket b - tr_bucket ns (hd trs) < 2 ^ 31" using assms(3) by (auto simp: within_clock_def)
  moreover from b(2) have "int (bar_count (bb_bars b)) = bb_bucket b - tr_bucket ns (hd trs)" by (simp add: fed_def)
  ultimately have "bar_count (bb_bars b) < 2 ^ 31" by simp
  then show ?thesis using b series_size_small by (auto simp: fed_def)
qed

theorem bar_clock_witness:
  "\<exists>b. feed [(5, 100, 10), (37, 101, 10)] (new_builder 10) = Some b \<and> builder_ok b \<and>
     series_size (bb_bars b) = 3"
proof -
  have "tr_bucket 10 (5, 100, 10) = 0" "tr_bucket 10 (37, 101, 10) = 3" by code_simp+
  then show ?thesis
    using bar_clock [of 10 "[(5, 100, 10), (37, 101, 10)]"] by (auto simp: within_clock_def)
qed

text \<open>
  When trades arrive in bucket order, bar \<open>i\<close> closes at the price of the last
  trade up to the end of its bucket: the last trade inside it, or the previous close when the
  bucket is empty.
\<close>

theorem bar_closes:
  assumes "ns \<noteq> 0" "trs \<noteq> []" "within_clock ns trs" "sorted (map (tr_bucket ns) trs)"
    "feed trs (new_builder ns) = Some b" "i < bar_count (bb_bars b)"
  shows "bs_c (bb_bars b) ! i =
    tr_price (last (filter (\<lambda>tr. tr_bucket ns tr \<le> tr_bucket ns (hd trs) + int i) trs))"
  using assms by (rule feed_closes)

definition sample_trades :: "(u64 \<times> u32 \<times> u32) list" where
  "sample_trades = [(5, 100, 10), (7, 102, 10), (37, 101, 10)]"

theorem bar_closes_witness:
  "\<exists>b. feed sample_trades (new_builder 10) = Some b \<and> bs_c (bb_bars b) ! 1 = f32_of_u32 102"
proof -
  have ne: "(10 :: u64) \<noteq> 0" "sample_trades \<noteq> []" by (simp_all add: sample_trades_def)
  have srt: "within_clock 10 sample_trades" "sorted (map (tr_bucket 10) sample_trades)" by code_simp+
  have b: "feed sample_trades (new_builder 10) \<noteq> None"
    "bar_count (bb_bars (the (feed sample_trades (new_builder 10)))) = 3" by code_simp+
  then obtain b where some: "feed sample_trades (new_builder 10) = Some b" by blast
  then have "1 < bar_count (bb_bars b)" using b(2) by simp
  moreover have "filter (\<lambda>tr. tr_bucket 10 tr \<le> tr_bucket 10 (hd sample_trades) + int 1) sample_trades =
      [(5, 100, 10), (7, 102, 10)]" by code_simp
  ultimately show ?thesis
    using bar_closes [OF ne srt some, of 1] some by (auto simp: tr_price_def)
qed

end
