(* ===== verification/FillEngine.thy ===== *)
theory FillEngine
  imports BookEngine
begin

text \<open>
  The fill simulation of \<open>src/sw/trade/fill_engine.hpp\<close> and \<open>fill_engine.cpp\<close>: the
  overlay of the strategy's own orders on the market book. The engine reads the book through a
  reference, here an argument of the operations; it never changes it.
\<close>

abbreviation (input) OUR_REF_BIT :: u64 where "OUR_REF_BIT \<equiv> 0x8000000000000000"

record fill_rec =
  fr_ts :: u64
  fr_ref :: u64
  fr_side :: u8
  fr_price :: u32
  fr_shares :: u32
  fr_maker :: bool

record open_order =
  oo_ref :: u64
  oo_side :: u8
  oo_price :: u32
  oo_remaining :: u32
  oo_original :: u32
  oo_queue :: u64
  oo_watermark :: u64
  oo_seq :: u64

record fill_engine =
  fe_locate :: u16
  fe_next_ref :: u64
  fe_next_seq :: u64
  fe_watermark :: u64
  fe_open :: "open_order list"
  fe_fills :: "fill_rec list"

definition new_fill_engine :: "u16 \<Rightarrow> fill_engine" where
  "new_fill_engine locate = \<lparr>fe_locate = locate, fe_next_ref = OUR_REF_BIT OR 1, fe_next_seq = 0,
     fe_watermark = 0, fe_open = [], fe_fills = []\<rparr>"

definition umin :: "u32 \<Rightarrow> u32 \<Rightarrow> u32" where
  "umin a b = (if a < b then a else b)"

text \<open>\<open>q -= (x < q) ? x : q\<close>\<close>

definition drain :: "u64 \<Rightarrow> u64 \<Rightarrow> u64" where
  "drain q x = q - (if x < q then x else q)"

subsection \<open>Submitting and cancelling\<close>

lemma unat_next_price: "p + 1 \<noteq> 0 \<Longrightarrow> unat (p + 1) = Suc (unat (p :: u32))"
proof -
  assume "p + 1 \<noteq> 0"
  then have "p \<noteq> - 1" by (auto simp: eq_neg_iff_add_eq_0)
  then have "Suc (unat p) < 2 ^ 32" by (simp only: Suc_unat_less_iff not_False_eq_True)
  then show ?thesis by (simp add: unat_plus_no_wrap)
qed

lemma unat_prev_price: "p \<noteq> 0 \<Longrightarrow> Suc (unat (p - 1)) = unat (p :: u32)"
proof -
  assume "p \<noteq> 0"
  then have "unat p \<noteq> 0" by (simp add: unat_eq_zero)
  then have "1 \<le> p" by (simp add: word_le_nat_alt)
  then show ?thesis using unat_minus_le [of 1 p] \<open>unat p \<noteq> 0\<close> by simp
qed

definition price_room :: "u32 \<Rightarrow> nat" where
  "price_room p = (if p = 0 then 0 else 2 ^ 32 - unat p)"

lemma price_room_next:
  assumes "p \<noteq> 0"
  shows "price_room (p + 1) < price_room p"
proof (cases "p + 1 = 0")
  case True
  then show ?thesis using assms by (simp add: price_room_def)
next
  case False
  have "unat p < 2 ^ 32" by simp
  then have "2 ^ 32 - unat (p + 1) < 2 ^ 32 - unat p" unfolding unat_next_price [OF False] by linarith
  then show ?thesis unfolding price_room_def using assms False by (simp only: if_False)
qed

text \<open>
  The sweeps of \<open>submit_limit\<close>, from a touch \<open>p\<close> to the limit; \<open>avail\<close> is the
  displayed quantity at a price. They return the taker fills (price and shares) and the
  quantity left. Price 0 ends them: it is an empty touch, or the counter wrapped.
\<close>

function sweep_up :: "(u32 \<Rightarrow> u32) \<Rightarrow> u32 \<Rightarrow> u32 \<Rightarrow> u32 \<Rightarrow> (u32 \<times> u32) list \<times> u32" where
  "sweep_up avail price p remaining =
     (if remaining \<noteq> 0 \<and> p \<noteq> 0 \<and> p \<le> price
      then (if avail p = 0 then sweep_up avail price (p + 1) remaining
            else (let f = umin remaining (avail p);
                      (fs, left) = sweep_up avail price (p + 1) (remaining - f)
                  in ((p, f) # fs, left)))
      else ([], remaining))"
  by pat_completeness auto
termination
  by (relation "measure (\<lambda>(avail, price, p, remaining). price_room p)") (simp_all add: price_room_next)

function sweep_down :: "(u32 \<Rightarrow> u32) \<Rightarrow> u32 \<Rightarrow> u32 \<Rightarrow> u32 \<Rightarrow> (u32 \<times> u32) list \<times> u32" where
  "sweep_down avail price p remaining =
     (if remaining \<noteq> 0 \<and> p \<noteq> 0 \<and> price \<le> p
      then (if avail p = 0 then sweep_down avail price (p - 1) remaining
            else (let f = umin remaining (avail p);
                      (fs, left) = sweep_down avail price (p - 1) (remaining - f)
                  in ((p, f) # fs, left)))
      else ([], remaining))"
  by pat_completeness auto
termination
  by (relation "measure (\<lambda>(avail, price, p, remaining). unat p)")
    (auto dest: unat_prev_price)

declare sweep_up.simps [simp del] sweep_down.simps [simp del]

definition sweep :: "order_book option \<Rightarrow> u8 \<Rightarrow> u32 \<Rightarrow> u32 \<Rightarrow> (u32 \<times> u32) list \<times> u32" where
  "sweep book side price shares = (case book of
     None \<Rightarrow> ([], shares)
   | Some b \<Rightarrow>
       if side = SIDE_BUY then sweep_up (ask_shares_at b) price (ob_best_ask b) shares
       else sweep_down (bid_shares_at b) price (ob_best_bid b) shares)"

definition at_level :: "u8 \<Rightarrow> u32 \<Rightarrow> open_order \<Rightarrow> bool" where
  "at_level side price x \<longleftrightarrow> oo_side x = side \<and> oo_price x = price"

text \<open>The queue in front of a new order: the displayed quantity and our earlier orders.\<close>

definition queue_snapshot :: "order_book option \<Rightarrow> u8 \<Rightarrow> u32 \<Rightarrow> open_order list \<Rightarrow> u64" where
  "queue_snapshot book side price orders =
     foldl (\<lambda>qa x. if at_level side price x then qa + ucast (oo_remaining x) else qa)
       (case book of None \<Rightarrow> 0
        | Some b \<Rightarrow> ucast (if side = SIDE_BUY then bid_shares_at b price else ask_shares_at b price))
       orders"

definition submit_limit ::
  "book_engine \<Rightarrow> u8 \<Rightarrow> u32 \<Rightarrow> u32 \<Rightarrow> u64 \<Rightarrow> fill_engine \<Rightarrow> fill_engine \<times> u64"
where
  "submit_limit eng side price shares ts fe =
     (let ref = fe_next_ref fe; book = be_books eng (fe_locate fe);
          (taken, remaining) = sweep book side price shares;
          fills = map (\<lambda>(p, f). \<lparr>fr_ts = ts, fr_ref = ref, fr_side = side, fr_price = p,
                                  fr_shares = f, fr_maker = False\<rparr>) taken;
          fe1 = fe\<lparr>fe_next_ref := ref + 1, fe_fills := fe_fills fe @ fills\<rparr>
      in (if remaining = 0 then fe1
          else fe1\<lparr>fe_open := fe_open fe @
                 [\<lparr>oo_ref = ref, oo_side = side, oo_price = price, oo_remaining = remaining,
                   oo_original = shares, oo_queue = queue_snapshot book side price (fe_open fe),
                   oo_watermark = fe_watermark fe, oo_seq = fe_next_seq fe\<rparr>],
               fe_next_seq := fe_next_seq fe + 1\<rparr>, ref))"

text \<open>Our order \<open>x\<close> lost \<open>amount\<close> shares: our later orders at its level move up.\<close>

definition reduce_later :: "open_order \<Rightarrow> u32 \<Rightarrow> open_order list \<Rightarrow> open_order list" where
  "reduce_later x amount = map (\<lambda>later.
     if oo_seq later \<le> oo_seq x \<or> oo_side later \<noteq> oo_side x \<or> oo_price later \<noteq> oo_price x
     then later else later\<lparr>oo_queue := drain (oo_queue later) (ucast amount)\<rparr>)"

text \<open>The first open order with a reference, and the list without it.\<close>

fun take_order :: "u64 \<Rightarrow> open_order list \<Rightarrow> (open_order \<times> open_order list) option" where
  "take_order r [] = None"
| "take_order r (x # xs) =
     (if oo_ref x \<noteq> r then map_option (\<lambda>(y, ys). (y, x # ys)) (take_order r xs)
      else Some (x, xs))"

definition fe_cancel :: "u64 \<Rightarrow> fill_engine \<Rightarrow> fill_engine \<times> bool" where
  "fe_cancel our_ref fe = (case take_order our_ref (fe_open fe) of
     None \<Rightarrow> (fe, False)
   | Some (x, rest) \<Rightarrow> (fe\<lparr>fe_open := reduce_later x (oo_remaining x) rest\<rparr>, True))"

definition fe_find :: "u64 \<Rightarrow> fill_engine \<Rightarrow> open_order option" where
  "fe_find our_ref fe = find (\<lambda>x. oo_ref x = our_ref) (fe_open fe)"

definition take_fills :: "fill_engine \<Rightarrow> fill_engine \<times> fill_rec list" where
  "take_fills fe = (fe\<lparr>fe_fills := []\<rparr>, fe_fills fe)"

subsection \<open>Market messages\<close>

text \<open>
  A fill of the order at index \<open>i\<close>: nothing for zero shares, otherwise a record and the
  remaining quantity reduced.
\<close>

definition maker_fill :: "nat \<Rightarrow> u32 \<Rightarrow> u64 \<Rightarrow> open_order list \<times> fill_rec list \<Rightarrow>
    open_order list \<times> fill_rec list" where
  "maker_fill i shares ts = (\<lambda>(orders, fills).
     if shares = 0 then (orders, fills)
     else (let x = orders ! i in
       (orders[i := x\<lparr>oo_remaining := oo_remaining x - shares\<rparr>],
        fills @ [\<lparr>fr_ts = ts, fr_ref = oo_ref x, fr_side = oo_side x, fr_price = oo_price x,
                   fr_shares = shares, fr_maker = True\<rparr>])))"

text \<open>
  The two loops of \<open>handle_exec\<close>, each over the indices of the open orders: a step changes
  the order at its index and, by \<open>reduce_later\<close>, the queue of later ones. The budget is the
  part of the executed quantity not given out yet.
\<close>

type_synonym exec_state = "(open_order list \<times> fill_rec list) \<times> u32"

definition superior :: "u8 \<Rightarrow> u32 \<Rightarrow> u32 \<Rightarrow> bool" where
  "superior side ours price \<longleftrightarrow> (if side = SIDE_BUY then ours > price else ours < price)"

definition price_through_step :: "u8 \<Rightarrow> u32 \<Rightarrow> u64 \<Rightarrow> exec_state \<Rightarrow> nat \<Rightarrow> exec_state" where
  "price_through_step side price ts = (\<lambda>((orders, fills), budget) i.
     let x = orders ! i in
     if oo_side x \<noteq> side \<or> oo_remaining x = 0 \<or> \<not> superior side (oo_price x) price
     then ((orders, fills), budget)
     else (let f = umin budget (oo_remaining x);
               (orders1, fills1) = maker_fill i f ts (orders, fills)
           in ((if f = 0 then orders1 else reduce_later (orders1 ! i) f orders1, fills1),
               budget - f)))"

definition level_step :: "u64 \<Rightarrow> u8 \<Rightarrow> u32 \<Rightarrow> u32 \<Rightarrow> u64 \<Rightarrow> exec_state \<Rightarrow> nat \<Rightarrow> exec_state" where
  "level_step r side price q ts = (\<lambda>((orders, fills), budget) i.
     let x = orders ! i in
     if oo_side x \<noteq> side \<or> oo_price x \<noteq> price \<or> oo_remaining x = 0
     then ((orders, fills), budget)
     else if r \<le> oo_watermark x
     then (let take = (if ucast q < oo_queue x then ucast q else oo_queue x);
               orders1 = orders[i := x\<lparr>oo_queue := oo_queue x - take\<rparr>];
               leftover = q - ucast take
           in (maker_fill i (umin leftover (oo_remaining x)) ts (orders1, fills), budget))
     else (let f = umin budget (oo_remaining x);
               (orders1, fills1) = maker_fill i f ts (orders, fills)
           in ((if f = 0 then orders1 else reduce_later (orders1 ! i) f orders1, fills1),
               budget - f)))"

definition erase_filled :: "open_order list \<Rightarrow> open_order list" where
  "erase_filled = filter (\<lambda>x. oo_remaining x \<noteq> 0)"

definition handle_exec :: "u64 \<Rightarrow> u8 \<Rightarrow> u32 \<Rightarrow> u32 \<Rightarrow> u64 \<Rightarrow> fill_engine \<Rightarrow> fill_engine" where
  "handle_exec r side price q ts fe =
     (let is = [0..<length (fe_open fe)];
          (st1, _) = foldl (price_through_step side price ts) ((fe_open fe, fe_fills fe), q) is;
          ((orders, fills), _) = foldl (level_step r side price q ts) (st1, q) is
      in fe\<lparr>fe_open := erase_filled orders, fe_fills := fills\<rparr>)"

definition handle_remove :: "u64 \<Rightarrow> u8 \<Rightarrow> u32 \<Rightarrow> u32 \<Rightarrow> fill_engine \<Rightarrow> fill_engine" where
  "handle_remove r side price x fe = fe\<lparr>fe_open := map (\<lambda>y.
     if oo_side y \<noteq> side \<or> oo_price y \<noteq> price then y
     else if r \<le> oo_watermark y then y\<lparr>oo_queue := drain (oo_queue y) (ucast x)\<rparr> else y)
       (fe_open fe)\<rparr>"

definition raise_watermark :: "u64 \<Rightarrow> fill_engine \<Rightarrow> fill_engine" where
  "raise_watermark r fe = (if r > fe_watermark fe then fe\<lparr>fe_watermark := r\<rparr> else fe)"

definition on_market_message :: "book_engine \<Rightarrow> decoded_message \<Rightarrow> fill_engine \<Rightarrow> fill_engine" where
  "on_market_message eng m fe =
     (let found = (case table_find (be_refs eng) (dm_order_ref m) of
                     Some v \<Rightarrow> if ov_locate v \<noteq> fe_locate fe then None else Some v
                   | None \<Rightarrow> None)
      in if dm_type m = AddOrder \<or> dm_type m = AddOrderMPID
         then raise_watermark (dm_order_ref m) fe
         else if dm_type m = OrderExecuted \<or> dm_type m = OrderExecutedPrice
         then (case found of None \<Rightarrow> fe
               | Some v \<Rightarrow> handle_exec (dm_order_ref m) (ov_side v) (ov_price v)
                   (umin (dm_shares m) (ov_shares v)) (dm_timestamp m) fe)
         else if dm_type m = OrderCancel
         then (case found of None \<Rightarrow> fe
               | Some v \<Rightarrow> handle_remove (dm_order_ref m) (ov_side v) (ov_price v)
                   (umin (dm_shares m) (ov_shares v)) fe)
         else if dm_type m = OrderDelete
         then (case found of None \<Rightarrow> fe
               | Some v \<Rightarrow> handle_remove (dm_order_ref m) (ov_side v) (ov_price v) (ov_shares v) fe)
         else if dm_type m = OrderReplace
         then raise_watermark (dm_new_order_ref m)
                (case found of None \<Rightarrow> fe
                 | Some v \<Rightarrow> handle_remove (dm_order_ref m) (ov_side v) (ov_price v) (ov_shares v) fe)
         else fe)"

end
