(* ===== verification/FillLedger.thy ===== *)
theory FillLedger
  imports FillEngine
begin

text \<open>
  What the fill engine promises over a whole run: every fill belongs to a submitted order, on
  its side and within its limit, and no order is ever filled beyond its size. The ledger
  relates the open orders and the fills so far to the submitted orders.
\<close>

subsection \<open>Sweeps as a walk over price levels\<close>

fun take_levels :: "(u32 \<Rightarrow> u32) \<Rightarrow> u32 list \<Rightarrow> u32 \<Rightarrow> (u32 \<times> u32) list \<times> u32" where
  "take_levels avail [] remaining = ([], remaining)"
| "take_levels avail (p # ps) remaining =
     (if remaining = 0 then ([], 0)
      else if avail p = 0 then take_levels avail ps remaining
      else (let f = umin remaining (avail p); (fs, left) = take_levels avail ps (remaining - f)
            in ((p, f) # fs, left)))"

definition levels_up :: "u32 \<Rightarrow> u32 \<Rightarrow> u32 list" where
  "levels_up p price = (if p = 0 then [] else map of_nat [unat p..<Suc (unat price)])"

definition levels_down :: "u32 \<Rightarrow> u32 \<Rightarrow> u32 list" where
  "levels_down p price = rev (map of_nat [max 1 (unat price)..<Suc (unat p)])"

lemma take_levels_0 [simp]: "take_levels avail ps 0 = ([], 0)"
  by (induction ps) auto

lemma of_nat_range: "p \<le> q \<Longrightarrow> [unat p..<Suc (unat q)] = unat p # [Suc (unat p)..<Suc (unat q)]"
  for p q :: u32
  by (simp add: word_le_nat_alt upt_conv_Cons del: upt_Suc)

lemma levels_up_step:
  assumes "p \<noteq> 0" "p \<le> price"
  shows "levels_up p price = p # levels_up (p + 1) price"
proof (cases "p + 1 = 0")
  case True
  then have "p = - 1" by (simp add: eq_neg_iff_add_eq_0)
  then have "Suc (unat p) = 2 ^ 32" by (simp only: unat_max_iff)
  moreover have "unat price < 2 ^ 32" by simp
  ultimately have "Suc (unat price) \<le> Suc (unat p)" by linarith
  then have "[Suc (unat p)..<Suc (unat price)] = []" by (rule upt_conv_Nil)
  then show ?thesis using assms True by (simp add: levels_up_def of_nat_range del: upt_Suc)
next
  case False
  then show ?thesis
    using assms unat_next_price [OF False] by (simp add: levels_up_def of_nat_range del: upt_Suc)
qed

lemma sweep_up_levels: "sweep_up avail price p remaining = take_levels avail (levels_up p price) remaining"
proof (induction avail price p remaining rule: sweep_up.induct)
  case (1 avail price p remaining)
  show ?case
  proof (cases "remaining \<noteq> 0 \<and> p \<noteq> 0 \<and> p \<le> price")
    case True
    then show ?thesis
      using 1 levels_up_step [of p price]
      by (subst sweep_up.simps) (auto simp: Let_def)
  next
    case False
    then consider "remaining = 0" | "p = 0" | "p \<noteq> 0" "\<not> p \<le> price" by blast
    then show ?thesis
    proof cases
      case 3
      then have "[unat p..<Suc (unat price)] = []" by (simp add: word_le_nat_alt)
      then show ?thesis using 3 by (subst sweep_up.simps) (simp add: levels_up_def)
    qed (subst sweep_up.simps, simp add: levels_up_def)+
  qed
qed

lemma levels_down_step:
  assumes "p \<noteq> 0" "price \<le> p"
  shows "levels_down p price = p # levels_down (p - 1) price"
proof -
  have "unat p \<noteq> 0" using assms(1) by (simp add: unat_eq_zero)
  then have "max 1 (unat price) \<le> unat p" using assms(2) by (simp add: word_le_nat_alt)
  then have "[max 1 (unat price)..<Suc (unat p)] = [max 1 (unat price)..<unat p] @ [unat p]" by simp
  then show ?thesis using unat_prev_price [OF assms(1)] by (simp add: levels_down_def)
qed

lemma sweep_down_levels:
  "sweep_down avail price p remaining = take_levels avail (levels_down p price) remaining"
proof (induction avail price p remaining rule: sweep_down.induct)
  case (1 avail price p remaining)
  show ?case
  proof (cases "remaining \<noteq> 0 \<and> p \<noteq> 0 \<and> price \<le> p")
    case True
    then show ?thesis
      using 1 levels_down_step [of p price]
      by (subst sweep_down.simps) (auto simp: Let_def)
  next
    case False
    then consider "remaining = 0" | "p = 0" | "p \<noteq> 0" "\<not> price \<le> p" by blast
    then show ?thesis
      by cases (subst sweep_down.simps, simp add: levels_down_def word_le_nat_alt)+
  qed
qed

lemma unat_umin: "unat (umin a b) = min (unat a) (unat b)"
  by (auto simp: umin_def word_less_nat_alt)

lemma umin_pos: "a \<noteq> 0 \<Longrightarrow> b \<noteq> 0 \<Longrightarrow> umin a b \<noteq> 0"
  by (simp add: umin_def)

definition taken :: "(u32 \<times> u32) list \<Rightarrow> nat" where
  "taken fs = sum_list (map (unat \<circ> snd) fs)"

definition displayed :: "(u32 \<Rightarrow> u32) \<Rightarrow> u32 list \<Rightarrow> nat" where
  "displayed avail ps = sum_list (map (unat \<circ> avail) ps)"

lemma take_levels_total:
  "take_levels avail ps remaining = (fs, left) \<Longrightarrow>
   taken fs = min (unat remaining) (displayed avail ps) \<and> unat left = unat remaining - taken fs"
proof (induction avail ps remaining arbitrary: fs left rule: take_levels.induct)
  case (2 avail p ps remaining)
  show ?case
  proof (cases "remaining = 0 \<or> avail p = 0")
    case True
    then show ?thesis using 2 by (auto simp: taken_def displayed_def split: if_splits)
  next
    case False
    let ?f = "umin remaining (avail p)"
    obtain fs1 where fs1: "take_levels avail ps (remaining - ?f) = (fs1, left)" "fs = (p, ?f) # fs1"
      using 2(3) False by (auto simp: Let_def split: prod.splits)
    have f: "?f \<le> remaining" by (auto simp: umin_def)
    have "taken fs1 = min (unat (remaining - ?f)) (displayed avail ps) \<and>
        unat left = unat (remaining - ?f) - taken fs1"
      using 2(2) [OF _ _ refl fs1(1)] False by simp
    then show ?thesis
      using fs1(2) unat_minus_le [OF f] by (auto simp: taken_def displayed_def unat_umin)
  qed
qed (auto simp: taken_def displayed_def)

lemma take_levels_fills:
  "take_levels avail ps remaining = (fs, left) \<Longrightarrow> (x, f) \<in> set fs \<Longrightarrow>
   x \<in> set ps \<and> f \<noteq> 0 \<and> f \<le> avail x"
proof (induction avail ps remaining arbitrary: fs left rule: take_levels.induct)
  case (2 avail p ps remaining)
  then show ?case
    by (fastforce simp: Let_def umin_pos umin_def split: if_splits prod.splits)
qed simp

lemma take_levels_order:
  "take_levels avail ps remaining = (fs, left) \<Longrightarrow> sorted_wrt R ps \<Longrightarrow> sorted_wrt R (map fst fs)"
proof (induction avail ps remaining arbitrary: fs left rule: take_levels.induct)
  case (2 avail p ps remaining)
  then show ?case
    by (fastforce simp: Let_def split: if_splits prod.splits dest: take_levels_fills)
qed simp

subsection \<open>The ledger\<close>

type_synonym submitted = "u64 \<rightharpoonup> u8 \<times> u32 \<times> u32"

definition filled :: "u64 \<Rightarrow> fill_rec list \<Rightarrow> nat" where
  "filled r fills = sum_list (map (unat \<circ> fr_shares) (filter (\<lambda>f. fr_ref f = r) fills))"

text \<open>A fill within an order's limit: maker fills at the limit, taker fills at it or better.\<close>

definition fill_ok :: "u8 \<Rightarrow> u32 \<Rightarrow> fill_rec \<Rightarrow> bool" where
  "fill_ok side price f \<longleftrightarrow> fr_side f = side \<and> fr_shares f \<noteq> 0 \<and>
     (if fr_maker f then fr_price f = price
      else if side = SIDE_BUY then fr_price f \<le> price else price \<le> fr_price f)"

definition order_ok :: "submitted \<Rightarrow> fill_rec list \<Rightarrow> open_order \<Rightarrow> bool" where
  "order_ok subs fills x \<longleftrightarrow> subs (oo_ref x) = Some (oo_side x, oo_price x, oo_original x) \<and>
     unat (oo_original x) = unat (oo_remaining x) + filled (oo_ref x) fills"

definition fills_ok :: "submitted \<Rightarrow> fill_rec list \<Rightarrow> bool" where
  "fills_ok subs fills \<longleftrightarrow>
     (\<forall>f \<in> set fills. \<exists>side price q. subs (fr_ref f) = Some (side, price, q) \<and> fill_ok side price f) \<and>
     (\<forall>r side price q. subs r = Some (side, price, q) \<longrightarrow> filled r fills \<le> unat q)"

definition ledger :: "submitted \<Rightarrow> open_order list \<Rightarrow> fill_rec list \<Rightarrow> bool" where
  "ledger subs orders fills \<longleftrightarrow> distinct (map oo_ref orders) \<and>
     (\<forall>x \<in> set orders. order_ok subs fills x) \<and> fills_ok subs fills"

text \<open>An order but for what matching changes, and but for its queue.\<close>

definition fixed_part :: "open_order \<Rightarrow> open_order" where
  "fixed_part x = x\<lparr>oo_remaining := 0, oo_queue := 0\<rparr>"

definition but_queue :: "open_order \<Rightarrow> open_order" where
  "but_queue x = x\<lparr>oo_queue := 0\<rparr>"

lemma filled_append [simp]: "filled r (xs @ ys) = filled r xs + filled r ys"
  by (simp add: filled_def)

lemma filled_Nil [simp]: "filled r [] = 0"
  by (simp add: filled_def)

lemma filled_Cons: "filled r (f # fs) = (if fr_ref f = r then unat (fr_shares f) else 0) + filled r fs"
  by (simp add: filled_def)

lemma but_queue_fields:
  "but_queue x = but_queue y \<Longrightarrow> oo_ref x = oo_ref y \<and> oo_side x = oo_side y \<and>
     oo_price x = oo_price y \<and> oo_remaining x = oo_remaining y \<and> oo_original x = oo_original y \<and>
     oo_watermark x = oo_watermark y \<and> oo_seq x = oo_seq y"
  by (cases x; cases y) (simp add: but_queue_def)

lemma fixed_of_queue:
  assumes "map but_queue xs = map but_queue ys"
  shows "map fixed_part xs = map fixed_part ys"
proof -
  have "fixed_part (but_queue x) = fixed_part x" for x by (simp add: fixed_part_def but_queue_def)
  then have "map fixed_part zs = map fixed_part (map but_queue zs)" for zs by simp
  then show ?thesis using assms by metis
qed

lemma order_ok_queue: "but_queue x = but_queue y \<Longrightarrow> order_ok subs fills x = order_ok subs fills y"
  by (auto simp: order_ok_def dest: but_queue_fields)

lemma ledger_queue:
  assumes "map but_queue orders = map but_queue orders'"
  shows "ledger subs orders fills = ledger subs orders' fills"
proof -
  have len: "length orders = length orders'" using assms by (rule map_eq_imp_length_eq)
  have nth: "but_queue (orders ! i) = but_queue (orders' ! i)" if "i < length orders'" for i
    using arg_cong [OF assms, of "\<lambda>xs. xs ! i"] that len by simp
  have "map oo_ref orders = map oo_ref orders'"
    by (rule nth_equalityI) (use len nth in \<open>auto dest!: but_queue_fields\<close>)
  moreover have "(\<forall>x \<in> set orders. order_ok subs fills x) = (\<forall>x \<in> set orders'. order_ok subs fills x)"
    unfolding all_set_conv_all_nth len using order_ok_queue [OF nth] by auto
  ultimately show ?thesis by (simp add: ledger_def)
qed

lemma reduce_later_queue: "map but_queue (reduce_later x a orders) = map but_queue orders"
  by (auto simp: reduce_later_def but_queue_def)

lemma length_reduce_later [simp]: "length (reduce_later x a orders) = length orders"
  by (simp add: reduce_later_def)

lemma maker_fill_ledger:
  assumes "ledger subs orders (log @ fills)" "i < length orders"
    "n \<le> oo_remaining (orders ! i)" "maker_fill i n ts (orders, fills) = (orders', fills')"
  shows "ledger subs orders' (log @ fills') \<and> map fixed_part orders' = map fixed_part orders"
proof (cases "n = 0")
  case True
  then show ?thesis using assms by (auto simp: maker_fill_def)
next
  case False
  let ?x = "orders ! i"
  let ?y = "?x\<lparr>oo_remaining := oo_remaining ?x - n\<rparr>"
  let ?f = "\<lparr>fr_ts = ts, fr_ref = oo_ref ?x, fr_side = oo_side ?x, fr_price = oo_price ?x,
    fr_shares = n, fr_maker = True\<rparr>"
  have res: "orders' = orders[i := ?y]" "fills' = fills @ [?f]"
    using assms(4) False by (auto simp: maker_fill_def Let_def)
  have dist: "distinct (map oo_ref orders)" using assms(1) by (simp add: ledger_def)
  have x: "order_ok subs (log @ fills) ?x" using assms(1,2) by (simp add: ledger_def)
  have refs: "map oo_ref orders' = map oo_ref orders"
    unfolding res by (rule nth_equalityI) (use assms(2) in \<open>auto simp: nth_list_update\<close>)
  have fixed: "map fixed_part orders' = map fixed_part orders"
    unfolding res by (rule nth_equalityI) (use assms(2) in \<open>auto simp: nth_list_update fixed_part_def\<close>)
  have y: "order_ok subs (log @ fills') ?y"
    using x assms(3) by (simp add: order_ok_def res filled_Cons unat_minus_le word_le_nat_alt)
  have other: "order_ok subs (log @ fills') (orders ! j)" if "j < length orders" "j \<noteq> i" for j
  proof -
    have "oo_ref (orders ! j) \<noteq> oo_ref ?x"
      using dist that assms(2) by (auto simp: distinct_conv_nth)
    moreover have "order_ok subs (log @ fills) (orders ! j)" using assms(1) that by (simp add: ledger_def)
    ultimately show ?thesis by (simp add: order_ok_def res filled_Cons)
  qed
  have "\<forall>x \<in> set orders'. order_ok subs (log @ fills') x"
    unfolding all_set_conv_all_nth using y other res(1) assms(2) by (auto simp: nth_list_update)
  moreover have "fills_ok subs (log @ fills')"
  proof -
    have "filled r (log @ fills') \<le> unat q" if "subs r = Some (side, price, q)" for r side price q
    proof (cases "r = oo_ref ?x")
      case True
      then show ?thesis using y x that by (simp add: order_ok_def)
    next
      case False
      then show ?thesis using assms(1) that by (auto simp: res filled_Cons ledger_def fills_ok_def)
    qed
    moreover have "subs (fr_ref ?f) = Some (oo_side ?x, oo_price ?x, oo_original ?x) \<and>
        fill_ok (oo_side ?x) (oo_price ?x) ?f"
      using x False by (simp add: order_ok_def fill_ok_def)
    ultimately show ?thesis
      using assms(1) unfolding ledger_def fills_ok_def res(2) by auto
  qed
  ultimately show ?thesis using dist refs fixed by (simp add: ledger_def)
qed

subsection \<open>Executions\<close>

lemma price_through_step_ledger:
  assumes "price_through_step side price ts ((orders, fills), b) i = ((orders', fills'), b')"
    "ledger subs orders (log @ fills)" "i < length orders"
  shows "ledger subs orders' (log @ fills') \<and> map fixed_part orders' = map fixed_part orders"
proof (cases "oo_side (orders ! i) \<noteq> side \<or> oo_remaining (orders ! i) = 0 \<or>
    \<not> superior side (oo_price (orders ! i)) price")
  case True
  then show ?thesis using assms by (auto simp: price_through_step_def Let_def)
next
  case False
  let ?f = "umin b (oo_remaining (orders ! i))"
  obtain orders1 where mf: "maker_fill i ?f ts (orders, fills) = (orders1, fills')"
    and orders': "orders' = (if ?f = 0 then orders1 else reduce_later (orders1 ! i) ?f orders1)"
    using assms(1) False by (auto simp: price_through_step_def Let_def split: prod.splits)
  have "?f \<le> oo_remaining (orders ! i)" by (auto simp: umin_def)
  note mfl = maker_fill_ledger [OF assms(2,3) this mf]
  have queue: "map but_queue orders' = map but_queue orders1"
    unfolding orders' by (simp add: reduce_later_queue)
  then have "map fixed_part orders' = map fixed_part orders1"
    by (rule fixed_of_queue)
  then show ?thesis using mfl ledger_queue [OF queue] by simp
qed

lemma level_step_ledger:
  assumes "level_step r side price q ts ((orders, fills), b) i = ((orders', fills'), b')"
    "ledger subs orders (log @ fills)" "i < length orders"
  shows "ledger subs orders' (log @ fills') \<and> map fixed_part orders' = map fixed_part orders"
proof -
  let ?x = "orders ! i"
  consider (skip) "oo_side ?x \<noteq> side \<or> oo_price ?x \<noteq> price \<or> oo_remaining ?x = 0"
    | (ahead) "\<not> (oo_side ?x \<noteq> side \<or> oo_price ?x \<noteq> price \<or> oo_remaining ?x = 0)" "r \<le> oo_watermark ?x"
    | (behind) "\<not> (oo_side ?x \<noteq> side \<or> oo_price ?x \<noteq> price \<or> oo_remaining ?x = 0)" "\<not> r \<le> oo_watermark ?x"
    by blast
  then show ?thesis
  proof cases
    case skip
    then show ?thesis using assms by (auto simp: level_step_def Let_def)
  next
    case ahead
    let ?take = "if ucast q < oo_queue ?x then ucast q else oo_queue ?x"
    let ?orders1 = "orders[i := ?x\<lparr>oo_queue := oo_queue ?x - ?take\<rparr>]"
    let ?n = "umin (q - ucast ?take) (oo_remaining ?x)"
    have mf: "maker_fill i ?n ts (?orders1, fills) = (orders', fills')"
      using assms(1) ahead by (simp add: level_step_def Let_def)
    have queue: "map but_queue ?orders1 = map but_queue orders"
      by (rule nth_equalityI) (use assms(3) in \<open>auto simp: nth_list_update but_queue_def\<close>)
    have "ledger subs ?orders1 (log @ fills)" using assms(2) ledger_queue [OF queue] by simp
    moreover have "i < length ?orders1" "?n \<le> oo_remaining (?orders1 ! i)"
      using assms(3) by (auto simp: umin_def)
    ultimately show ?thesis
      using maker_fill_ledger [OF _ _ _ mf] fixed_of_queue [OF queue] by metis
  next
    case behind
    let ?f = "umin b (oo_remaining ?x)"
    obtain orders1 where mf: "maker_fill i ?f ts (orders, fills) = (orders1, fills')"
      and orders': "orders' = (if ?f = 0 then orders1 else reduce_later (orders1 ! i) ?f orders1)"
      using assms(1) behind by (auto simp: level_step_def Let_def split: prod.splits)
    have "?f \<le> oo_remaining ?x" by (auto simp: umin_def)
    note mfl = maker_fill_ledger [OF assms(2,3) this mf]
    have queue: "map but_queue orders' = map but_queue orders1"
      unfolding orders' by (simp add: reduce_later_queue)
    then show ?thesis using mfl ledger_queue [OF queue] fixed_of_queue [OF queue] by simp
  qed
qed

text \<open>Both loops are folds of steps that keep the ledger.\<close>

lemma foldl_ledger:
  assumes "\<And>orders fills b i orders' fills' b'. \<lbrakk>step ((orders, fills), b) i = ((orders', fills'), b');
      ledger subs orders (log @ fills); i < length orders\<rbrakk> \<Longrightarrow>
      ledger subs orders' (log @ fills') \<and> map fixed_part orders' = map fixed_part orders"
  shows "foldl step ((orders, fills), b) is = ((orders', fills'), b') \<Longrightarrow>
    ledger subs orders (log @ fills) \<Longrightarrow> \<forall>i \<in> set is. i < length orders \<Longrightarrow>
    ledger subs orders' (log @ fills') \<and> map fixed_part orders' = map fixed_part orders"
proof (induction "is" arbitrary: orders fills b)
  case (Cons i "is")
  obtain orders1 fills1 b1 where st: "step ((orders, fills), b) i = ((orders1, fills1), b1)"
    by (metis prod.exhaust)
  have one: "ledger subs orders1 (log @ fills1) \<and> map fixed_part orders1 = map fixed_part orders"
    by (rule assms [OF st Cons.prems(2)]) (use Cons.prems(3) in simp)
  then have "length orders1 = length orders" by (blast dest: map_eq_imp_length_eq)
  then have "ledger subs orders' (log @ fills') \<and> map fixed_part orders' = map fixed_part orders1"
    using Cons.prems st one by (intro Cons.IH [of orders1 fills1 b1]) auto
  then show ?case using one by simp
qed simp

lemma handle_exec_ledger:
  assumes "ledger subs (fe_open fe) (log @ fe_fills fe)"
  obtains orders where
    "fe_open (handle_exec r side price q ts fe) = filter (\<lambda>x. oo_remaining x \<noteq> 0) orders"
    "map fixed_part orders = map fixed_part (fe_open fe)"
    "ledger subs orders (log @ fe_fills (handle_exec r side price q ts fe))"
    "fe_next_ref (handle_exec r side price q ts fe) = fe_next_ref fe"
    "fe_next_seq (handle_exec r side price q ts fe) = fe_next_seq fe"
proof -
  let ?is = "[0..<length (fe_open fe)]"
  obtain orders1 fills1 b1 where
    one: "foldl (price_through_step side price ts) ((fe_open fe, fe_fills fe), q) ?is = ((orders1, fills1), b1)"
    by (metis prod.exhaust)
  obtain orders2 fills2 b2 where
    two: "foldl (level_step r side price q ts) ((orders1, fills1), q) ?is = ((orders2, fills2), b2)"
    by (metis prod.exhaust)
  have res: "handle_exec r side price q ts fe =
      fe\<lparr>fe_open := filter (\<lambda>x. oo_remaining x \<noteq> 0) orders2, fe_fills := fills2\<rparr>"
    by (simp add: handle_exec_def Let_def one two erase_filled_def)
  have l1: "ledger subs orders1 (log @ fills1) \<and> map fixed_part orders1 = map fixed_part (fe_open fe)"
    by (rule foldl_ledger [OF _ one assms]) (use price_through_step_ledger in auto)
  then have "length orders1 = length (fe_open fe)" by (blast dest: map_eq_imp_length_eq)
  then have "ledger subs orders2 (log @ fills2) \<and> map fixed_part orders2 = map fixed_part orders1"
    using l1 by (intro foldl_ledger [OF _ two]) (use level_step_ledger in auto)
  then show ?thesis using l1 res by (intro that [of orders2]) simp_all
qed

subsection \<open>Runs\<close>

text \<open>
  The steps of a fill engine: its client submits limit orders, cancels and drains the fills,
  and market messages arrive, resolved against the market engine of the moment. A state is
  the engine, the fills already drained and the orders submitted so far. The synthetic
  references must not run out: \<open>2 ^ 63 - 2\<close> orders.
\<close>

inductive fill_run :: "u16 \<Rightarrow> fill_engine \<Rightarrow> fill_rec list \<Rightarrow> submitted \<Rightarrow> bool" for locate where
  run_start: "fill_run locate (new_fill_engine locate) [] Map.empty"
| run_submit: "fill_run locate fe log subs \<Longrightarrow> fe_next_ref fe < - 1 \<Longrightarrow>
    submit_limit eng side price shares ts fe = (fe', ref) \<Longrightarrow>
    fill_run locate fe' log (subs(ref \<mapsto> (side, price, shares)))"
| run_cancel: "fill_run locate fe log subs \<Longrightarrow> fe_cancel r fe = (fe', ok) \<Longrightarrow>
    fill_run locate fe' log subs"
| run_market: "fill_run locate fe log subs \<Longrightarrow> fill_run locate (on_market_message eng m fe) log subs"
| run_drain: "fill_run locate fe log subs \<Longrightarrow> take_fills fe = (fe', fills) \<Longrightarrow>
    fill_run locate fe' (log @ fills) subs"

definition fill_inv :: "fill_engine \<Rightarrow> fill_rec list \<Rightarrow> submitted \<Rightarrow> bool" where
  "fill_inv fe log subs \<longleftrightarrow> ledger subs (fe_open fe) (log @ fe_fills fe) \<and>
     (\<forall>x \<in> set (fe_open fe). oo_remaining x \<noteq> 0 \<and> oo_seq x < fe_next_seq fe) \<and>
     sorted_wrt (<) (map oo_seq (fe_open fe)) \<and>
     (\<forall>r \<in> dom subs. OUR_REF_BIT < r \<and> r < fe_next_ref fe) \<and> OUR_REF_BIT < fe_next_ref fe \<and>
     unat (fe_next_seq fe) + 2 ^ 63 < unat (fe_next_ref fe)"

lemma ledger_sub: "ledger subs orders fills \<Longrightarrow> (\<forall>x \<in> set ys. x \<in> set orders) \<Longrightarrow>
    distinct (map oo_ref ys) \<Longrightarrow> ledger subs ys fills"
  by (auto simp: ledger_def)

lemma fixed_part_fields:
  "fixed_part x = fixed_part y \<Longrightarrow> oo_ref x = oo_ref y \<and> oo_seq x = oo_seq y"
  by (cases x; cases y) (simp add: fixed_part_def)

lemma map_seq_fixed:
  assumes "map fixed_part xs = map fixed_part ys"
  shows "map oo_seq xs = map oo_seq ys"
proof -
  have "map oo_seq zs = map oo_seq (map fixed_part zs)" for zs by (simp add: fixed_part_def)
  then show ?thesis using assms by metis
qed

lemma fill_inv_filter:
  assumes "fill_inv fe log subs" "map fixed_part orders = map fixed_part (fe_open fe)"
    "ledger subs orders (log @ fe_fills fe')" "fe_open fe' = filter (\<lambda>x. oo_remaining x \<noteq> 0) orders"
    "fe_next_ref fe' = fe_next_ref fe" "fe_next_seq fe' = fe_next_seq fe"
  shows "fill_inv fe' log subs"
proof -
  have seqs: "map oo_seq orders = map oo_seq (fe_open fe)" using assms(2) by (rule map_seq_fixed)
  have "ledger subs (fe_open fe') (log @ fe_fills fe')"
    using assms(3,4) by (auto simp: ledger_def distinct_map_filter)
  moreover have "\<forall>x \<in> set orders. oo_seq x < fe_next_seq fe"
  proof
    fix x assume "x \<in> set orders"
    then have "oo_seq x \<in> set (map oo_seq (fe_open fe))" unfolding seqs [symmetric] by simp
    then show "oo_seq x < fe_next_seq fe" using assms(1) by (auto simp: fill_inv_def)
  qed
  moreover have "sorted_wrt (<) (map oo_seq orders)" using assms(1) unfolding seqs by (simp add: fill_inv_def)
  then have "sorted_wrt (<) (map oo_seq (fe_open fe'))"
    using assms(4) by (simp add: sorted_wrt_map sorted_wrt_filter)
  ultimately show ?thesis using assms(1,4,5,6) by (auto simp: fill_inv_def)
qed

lemma filter_remaining:
  "fill_inv fe log subs \<Longrightarrow> map but_queue orders = map but_queue (fe_open fe) \<Longrightarrow>
   filter (\<lambda>x. oo_remaining x \<noteq> 0) orders = orders"
proof -
  assume inv: "fill_inv fe log subs" and eq: "map but_queue orders = map but_queue (fe_open fe)"
  have "oo_remaining x \<noteq> 0" if "x \<in> set orders" for x
  proof -
    have "but_queue x \<in> set (map but_queue (fe_open fe))" using that unfolding eq [symmetric] by simp
    then obtain y where "y \<in> set (fe_open fe)" "but_queue x = but_queue y" by auto
    then show ?thesis using inv but_queue_fields [of x y] by (auto simp: fill_inv_def)
  qed
  then show ?thesis by (simp add: filter_id_conv)
qed

text \<open>A step that only changes queues, the fills staying as they are.\<close>

lemma fill_inv_queue:
  assumes "fill_inv fe log subs" "map but_queue (fe_open fe') = map but_queue (fe_open fe)"
    "fe_fills fe' = fe_fills fe" "fe_next_ref fe' = fe_next_ref fe" "fe_next_seq fe' = fe_next_seq fe"
  shows "fill_inv fe' log subs"
proof (rule fill_inv_filter [OF assms(1) fixed_of_queue [OF assms(2)]])
  show "ledger subs (fe_open fe') (log @ fe_fills fe')"
    using assms(1) ledger_queue [OF assms(2)] by (simp add: fill_inv_def assms(3))
  show "fe_open fe' = filter (\<lambda>x. oo_remaining x \<noteq> 0) (fe_open fe')"
    using filter_remaining [OF assms(1,2)] by simp
qed (rule assms)+

lemma handle_remove_inv: "fill_inv fe log subs \<Longrightarrow> fill_inv (handle_remove r side price x fe) log subs"
  by (rule fill_inv_queue) (auto simp: handle_remove_def but_queue_def)

lemma handle_exec_inv:
  assumes "fill_inv fe log subs"
  shows "fill_inv (handle_exec r side price q ts fe) log subs"
proof -
  have "ledger subs (fe_open fe) (log @ fe_fills fe)" using assms by (simp add: fill_inv_def)
  from handle_exec_ledger [OF this, of r side price q ts] obtain orders where o:
    "fe_open (handle_exec r side price q ts fe) = filter (\<lambda>x. oo_remaining x \<noteq> 0) orders"
    "map fixed_part orders = map fixed_part (fe_open fe)"
    "ledger subs orders (log @ fe_fills (handle_exec r side price q ts fe))"
    "fe_next_ref (handle_exec r side price q ts fe) = fe_next_ref fe"
    "fe_next_seq (handle_exec r side price q ts fe) = fe_next_seq fe" .
  show ?thesis by (rule fill_inv_filter [OF assms o(2,3,1,4,5)])
qed

lemma raise_watermark_inv: "fill_inv fe log subs \<Longrightarrow> fill_inv (raise_watermark r fe) log subs"
  by (simp add: raise_watermark_def fill_inv_def)

lemma on_market_message_inv: "fill_inv fe log subs \<Longrightarrow> fill_inv (on_market_message eng m fe) log subs"
  by (auto simp: on_market_message_def Let_def split: option.splits
    intro!: handle_exec_inv handle_remove_inv raise_watermark_inv)

lemma take_order_split:
  "take_order r xs = Some (x, rest) \<Longrightarrow>
   \<exists>pre post. xs = pre @ x # post \<and> rest = pre @ post \<and> oo_ref x = r \<and> r \<notin> oo_ref ` set pre"
proof (induction xs arbitrary: x rest)
  case (Cons y ys)
  show ?case
  proof (cases "oo_ref y = r")
    case True
    then show ?thesis using Cons.prems by (intro exI [of _ "[] :: open_order list"] exI [of _ rest]) auto
  next
    case False
    then obtain rest' where "take_order r ys = Some (x, rest')" "rest = y # rest'"
      using Cons.prems by auto
    then obtain pre post where "ys = pre @ x # post" "rest' = pre @ post" "oo_ref x = r" "r \<notin> oo_ref ` set pre"
      using Cons.IH by blast
    then show ?thesis using \<open>rest = y # rest'\<close> False
      by (intro exI [of _ "y # pre"] exI [of _ post]) auto
  qed
qed simp

lemma cancel_inv:
  assumes "fill_inv fe log subs" "fe_cancel r fe = (fe', ok)"
  shows "fill_inv fe' log subs"
proof (cases "take_order r (fe_open fe)")
  case None
  then show ?thesis using assms by (simp add: fe_cancel_def)
next
  case (Some p)
  obtain x rest where p: "p = (x, rest)" by (cases p)
  obtain pre post where split: "fe_open fe = pre @ x # post" "rest = pre @ post"
    using take_order_split Some p by blast
  have rest: "fill_inv (fe\<lparr>fe_open := rest\<rparr>) log subs"
    using assms(1) by (auto simp: fill_inv_def split sorted_wrt_append ledger_def)
  have "fe' = fe\<lparr>fe_open := reduce_later x (oo_remaining x) rest\<rparr>"
    using assms(2) Some p by (simp add: fe_cancel_def)
  then show ?thesis by (intro fill_inv_queue [OF rest]) (simp_all add: reduce_later_queue)
qed

lemma of_nat_unat_bounds:
  fixes p q :: u32
  assumes "n \<in> {unat p..<Suc (unat q)}"
  shows "p \<le> of_nat n \<and> of_nat n \<le> q \<and> unat (of_nat n :: u32) = n"
proof -
  have "unat q < 2 ^ 32" by simp
  then have "n < 2 ^ 32" using assms unfolding atLeastLessThan_iff by linarith
  then have "unat (of_nat n :: u32) = n" by (simp add: unsigned_of_nat take_bit_nat_eq_self)
  then show ?thesis using assms by (simp add: word_le_nat_alt)
qed

lemma levels_up_within:
  assumes "x \<in> set (levels_up p price)"
  shows "p \<le> x \<and> x \<le> price \<and> x \<noteq> 0"
proof -
  obtain n where n: "p \<noteq> 0" "n \<in> {unat p..<Suc (unat price)}" "x = of_nat n"
    using assms by (auto simp: levels_up_def simp del: upt_Suc split: if_splits)
  then have "p \<le> x \<and> x \<le> price" using of_nat_unat_bounds by blast
  moreover have "x \<noteq> 0" using \<open>p \<noteq> 0\<close> calculation by auto
  ultimately show ?thesis by blast
qed

lemma levels_down_within:
  assumes "x \<in> set (levels_down p price)"
  shows "price \<le> x \<and> x \<le> p \<and> x \<noteq> 0"
proof -
  obtain n where n: "n \<in> {max 1 (unat price)..<Suc (unat p)}" "x = of_nat n"
    using assms by (auto simp: levels_down_def simp del: upt_Suc)
  then have "n \<in> {unat price..<Suc (unat p)}" by auto
  then have "price \<le> x \<and> x \<le> p \<and> unat x = n" using of_nat_unat_bounds n(2) by blast
  moreover have "x \<noteq> 0" using calculation n(1) by auto
  ultimately show ?thesis by blast
qed

text \<open>The levels a limit order may sweep, best first, and what they display.\<close>

definition crossed_levels :: "order_book option \<Rightarrow> u8 \<Rightarrow> u32 \<Rightarrow> u32 list" where
  "crossed_levels book side price = (case book of None \<Rightarrow> []
     | Some b \<Rightarrow> if side = SIDE_BUY then levels_up (ob_best_ask b) price
                 else levels_down (ob_best_bid b) price)"

definition opposite_shares :: "order_book option \<Rightarrow> u8 \<Rightarrow> u32 \<Rightarrow> u32" where
  "opposite_shares book side p = (case book of None \<Rightarrow> 0
     | Some b \<Rightarrow> if side = SIDE_BUY then ask_shares_at b p else bid_shares_at b p)"

lemma sweep_levels:
  "sweep book side price shares = take_levels (opposite_shares book side) (crossed_levels book side price) shares"
proof (cases book)
  case (Some b)
  have "opposite_shares (Some b) side = (if side = SIDE_BUY then ask_shares_at b else bid_shares_at b)"
    by (auto simp: opposite_shares_def)
  then show ?thesis
    using Some by (simp add: sweep_def crossed_levels_def sweep_up_levels sweep_down_levels)
qed (simp add: sweep_def crossed_levels_def)

lemma crossed_within:
  "x \<in> set (crossed_levels book side price) \<Longrightarrow>
   x \<noteq> 0 \<and> (if side = SIDE_BUY then x \<le> price else price \<le> x)"
  by (auto simp: crossed_levels_def dest: levels_up_within levels_down_within
    split: option.splits if_splits)

lemma submit_inv:
  assumes "fill_inv fe log subs" "fe_next_ref fe < - 1"
    "submit_limit eng side price shares ts fe = (fe', ref)"
  shows "fill_inv fe' log (subs(ref \<mapsto> (side, price, shares)))"
proof -
  let ?book = "be_books eng (fe_locate fe)"
  obtain fs left where sw: "sweep ?book side price shares = (fs, left)" by (metis prod.exhaust)
  note lv = sw [unfolded sweep_levels]
  let ?fills = "map (\<lambda>(p, f). \<lparr>fr_ts = ts, fr_ref = ref, fr_side = side, fr_price = p,
                                  fr_shares = f, fr_maker = False\<rparr>) fs"
  have ref: "ref = fe_next_ref fe" using assms(3) by (auto simp: submit_limit_def Let_def sw)
  have res: "fe_next_ref fe' = fe_next_ref fe + 1" "fe_fills fe' = fe_fills fe @ ?fills"
    "fe_next_seq fe' = (if left = 0 then fe_next_seq fe else fe_next_seq fe + 1)"
    "\<exists>qa wm. fe_open fe' = fe_open fe @ (if left = 0 then [] else
       [\<lparr>oo_ref = ref, oo_side = side, oo_price = price, oo_remaining = left, oo_original = shares,
         oo_queue = qa, oo_watermark = wm, oo_seq = fe_next_seq fe\<rparr>])"
    using assms(3) by (auto simp: submit_limit_def Let_def sw ref)
  have inv: "ledger subs (fe_open fe) (log @ fe_fills fe)"
    "\<forall>r \<in> dom subs. OUR_REF_BIT < r \<and> r < fe_next_ref fe"
    "unat (fe_next_seq fe) + 2 ^ 63 < unat (fe_next_ref fe)"
    using assms(1) by (simp_all add: fill_inv_def)
  have nxt: "unat (fe_next_ref fe + 1) = Suc (unat (fe_next_ref fe))"
  proof -
    have "unat (fe_next_ref fe) < unat (- 1 :: u64)" using assms(2) by (simp only: word_less_nat_alt)
    then have "Suc (unat (fe_next_ref fe)) < 2 ^ 64" by (simp add: unsigned_minus_1_eq_mask mask_eq_exp_minus_1)
    then show ?thesis by (simp add: unat_plus_no_wrap)
  qed
  then have ref_less: "r < fe_next_ref fe + 1 \<longleftrightarrow> r \<le> fe_next_ref fe" for r
    by (simp add: word_less_nat_alt word_le_nat_alt less_Suc_eq_le)
  have new: "subs ref = None" using inv(2) ref by (metis domIff less_irrefl)
  have known: "\<exists>v. subs (fr_ref f) = Some v" if "f \<in> set (log @ fe_fills fe)" for f
    using inv(1) that unfolding ledger_def fills_ok_def by blast
  then have "filled ref (log @ fe_fills fe) = 0"
    using new by (force simp: filled_def sum_list_eq_0_iff)
  moreover have "filled ref ?fills = taken fs"
    by (simp add: filled_def taken_def filter_map comp_def case_prod_unfold)
  ultimately have mine: "filled ref (log @ fe_fills fe') = taken fs" by (simp add: res(2))
  have "filled r ?fills = 0" if "r \<noteq> ref" for r
    using that by (auto simp: filled_def filter_map comp_def case_prod_unfold)
  then have others: "filled r (log @ fe_fills fe') = filled r (log @ fe_fills fe)" if "r \<noteq> ref" for r
    using that by (simp add: res(2))
  let ?subs = "subs(ref \<mapsto> (side, price, shares))"
  have total: "taken fs \<le> unat shares" "unat left = unat shares - taken fs"
    using take_levels_total [OF lv] by simp_all
  have fine: "fill_ok side price f" if "f \<in> set ?fills" for f
    using that take_levels_fills [OF lv] crossed_within [of _ ?book side price]
    by (auto simp: fill_ok_def split: if_splits)
  have old: "order_ok ?subs (log @ fe_fills fe') x" if "x \<in> set (fe_open fe)" for x
    using that inv(1) new others [of "oo_ref x"] by (auto simp: ledger_def order_ok_def)
  have old_ref: "oo_ref x \<noteq> ref" if "x \<in> set (fe_open fe)" for x
    using that inv(1) new by (auto simp: ledger_def order_ok_def)
  have fills: "fills_ok ?subs (log @ fe_fills fe')"
    unfolding fills_ok_def
  proof (intro conjI allI impI ballI)
    fix f assume f: "f \<in> set (log @ fe_fills fe')"
    show "\<exists>side' price' q. ?subs (fr_ref f) = Some (side', price', q) \<and> fill_ok side' price' f"
    proof (cases "f \<in> set (log @ fe_fills fe)")
      case True
      then have "fr_ref f \<noteq> ref" using known new by force
      then show ?thesis using True inv(1) by (simp add: ledger_def fills_ok_def)
    next
      case False
      then have "f \<in> set ?fills" using f by (auto simp: res(2))
      moreover from this have "fr_ref f = ref" by auto
      ultimately show ?thesis using fine by simp
    qed
  next
    fix r side' price' q assume r: "?subs r = Some (side', price', q)"
    show "filled r (log @ fe_fills fe') \<le> unat q"
      using r mine total others [of r] inv(1)
      by (cases "r = ref") (auto simp: ledger_def fills_ok_def)
  qed
  obtain y where y: "fe_open fe' = fe_open fe @ (if left = 0 then [] else [y])"
    "oo_ref y = ref" "oo_side y = side" "oo_price y = price" "oo_remaining y = left"
    "oo_original y = shares" "oo_seq y = fe_next_seq fe"
    using res(4) by fastforce
  have "order_ok ?subs (log @ fe_fills fe') y"
    unfolding order_ok_def y using mine total by simp
  then have led: "ledger ?subs (fe_open fe') (log @ fe_fills fe')"
    using old old_ref fills inv(1) unfolding y(1) ledger_def by (cases "left = 0") (auto simp: y(2))
  have "unat (fe_next_ref fe) < 2 ^ 64" using unsigned_less [of "fe_next_ref fe"] by simp
  then have "unat (fe_next_seq fe + 1) = Suc (unat (fe_next_seq fe))"
    using inv(3) by (simp add: unat_plus_no_wrap)
  then have seq: "fe_next_seq fe < fe_next_seq fe + 1" "unat (fe_next_seq fe') + 2 ^ 63 < unat (fe_next_ref fe')"
    "\<And>n. n < fe_next_seq fe \<Longrightarrow> n < fe_next_seq fe + 1"
    using inv(3) nxt by (simp_all add: res word_less_nat_alt)
  have doms: "OUR_REF_BIT < r \<and> r < fe_next_ref fe'" if "r \<in> dom ?subs" for r
  proof (cases "r = ref")
    case True
    then show ?thesis using assms(1) by (simp add: res(1) ref ref_less fill_inv_def)
  next
    case False
    then have "r \<in> dom subs" using that by auto
    then show ?thesis using inv(2) by (auto simp: res(1) ref_less intro: less_imp_le)
  qed
  have "OUR_REF_BIT < fe_next_ref fe'" using doms [of ref] by auto
  moreover have "\<forall>x \<in> set (fe_open fe'). oo_remaining x \<noteq> 0 \<and> oo_seq x < fe_next_seq fe'"
    using res(3) y seq assms(1) by (auto simp: fill_inv_def)
  moreover have "sorted_wrt (<) (map oo_seq (fe_open fe'))"
    using y assms(1) by (auto simp: fill_inv_def sorted_wrt_append)
  ultimately show ?thesis using led doms seq(2) by (simp add: fill_inv_def)
qed

lemma fill_run_inv: "fill_run locate fe log subs \<Longrightarrow> fill_inv fe log subs"
proof (induction rule: fill_run.induct)
  case run_start
  show ?case
    by (simp add: fill_inv_def ledger_def fills_ok_def new_fill_engine_def word_less_nat_alt)
next
  case (run_drain fe log subs fe' fills)
  then show ?case by (auto simp: take_fills_def fill_inv_def)
next
  case (run_submit fe log subs eng side price shares ts fe' ref)
  then show ?case by (intro submit_inv)
qed (auto intro: cancel_inv on_market_message_inv)

lemma of_nat_prices_mono: "m < n \<Longrightarrow> n < Suc (unat p) \<Longrightarrow> unat (of_nat m :: u32) < unat (of_nat n :: u32)"
  for p :: u32
  using of_nat_unat_bounds [of m 0 p] of_nat_unat_bounds [of n 0 p] by simp

lemma levels_up_sorted: "sorted_wrt (\<lambda>x y. unat x < unat y) (levels_up p price)"
proof -
  have "sorted_wrt (\<lambda>m n. unat (of_nat m :: u32) < unat (of_nat n :: u32)) [unat p..<Suc (unat price)]"
    by (rule sorted_wrt_mono_rel [OF _ sorted_wrt_upt], rule of_nat_prices_mono [of _ _ price])
      (simp_all del: upt_Suc)
  then show ?thesis by (simp add: levels_up_def sorted_wrt_map del: upt_Suc)
qed

lemma levels_down_sorted: "sorted_wrt (\<lambda>x y. unat x > unat y) (levels_down p price)"
proof -
  have "sorted_wrt (\<lambda>m n. unat (of_nat m :: u32) < unat (of_nat n :: u32))
      [max 1 (unat price)..<Suc (unat p)]"
    by (rule sorted_wrt_mono_rel [OF _ sorted_wrt_upt], rule of_nat_prices_mono [of _ _ p])
      (simp_all del: upt_Suc)
  then show ?thesis by (simp add: levels_down_def sorted_wrt_rev sorted_wrt_map del: upt_Suc)
qed

lemma crossed_sorted:
  "sorted_wrt (\<lambda>x y. (if side = SIDE_BUY then (<) else (>)) (unat x) (unat y))
     (crossed_levels book side price)"
  using levels_up_sorted levels_down_sorted by (auto simp: crossed_levels_def split: option.splits)

end
