(* ===== verification/FillProps.thy ===== *)
theory FillProps
  imports FillLedger
begin

text \<open>
  The properties of the fill simulation: what a submitted limit order does, what no sequence
  of operations can do, and what an execution distributes.
\<close>

subsection \<open>Executions of orders ahead of ours\<close>

definition fill_total :: "fill_rec list \<Rightarrow> nat" where
  "fill_total fills = sum_list (map (unat \<circ> fr_shares) fills)"

lemma fill_total_append [simp]: "fill_total (xs @ ys) = fill_total xs + fill_total ys"
  by (simp add: fill_total_def)

lemma fill_total_Nil [simp]: "fill_total [] = 0"
  by (simp add: fill_total_def)

text \<open>
  What an execution of \<open>q\<close> shares of a market order ahead of ours gives an order at its
  level: the part of \<open>q\<close> beyond the order's queue, up to its remaining quantity.
\<close>

definition ahead_amount :: "u8 \<Rightarrow> u32 \<Rightarrow> u32 \<Rightarrow> open_order \<Rightarrow> nat" where
  "ahead_amount side price q x =
     (if at_level side price x then min (unat q - unat (oo_queue x)) (unat (oo_remaining x)) else 0)"

lemma maker_fill_total:
  "maker_fill i n ts (orders, fills) = (orders', fills') \<Longrightarrow>
   fill_total fills' = fill_total fills + unat n \<and> length orders' = length orders \<and>
   (\<forall>j. j \<noteq> i \<longrightarrow> orders' ! j = orders ! j)"
  by (auto simp: maker_fill_def Let_def fill_total_def split: if_splits)

lemma leftover_unat:
  "unat (q - ucast (if ucast q < Q then ucast q else Q) :: u32) = unat q - unat (Q :: u64)"
proof -
  have q: "unat (ucast q :: u64) = unat q" by (simp add: unat_ucast_up)
  show ?thesis
  proof (cases "ucast q < Q")
    case True
    then have "unat q < unat Q" using q by (simp add: word_less_nat_alt)
    moreover have "(ucast (ucast q :: u64) :: u32) = q"
      by (rule bit_word_eqI) (simp add: bit_ucast_iff)
    ultimately show ?thesis using True by simp
  next
    case False
    then have le: "unat Q \<le> unat q" using q by (simp add: word_less_nat_alt)
    then have "unat Q < 4294967296" using unat_u32_less [of q] by (rule le_less_trans)
    then have c: "unat (ucast Q :: u32) = unat Q" by (simp add: unsigned_ucast_eq take_bit_nat_eq_self)
    then have "ucast Q \<le> q" using le by (simp add: word_le_nat_alt)
    then show ?thesis using False c by (simp add: unat_minus_le)
  qed
qed

lemma level_step_ahead:
  assumes "level_step r side price q ts ((orders, fills), b) i = ((orders', fills'), b')"
    "i < length orders" "at_level side price (orders ! i) \<Longrightarrow> r \<le> oo_watermark (orders ! i)"
  shows "fill_total fills' = fill_total fills + ahead_amount side price q (orders ! i)"
    "length orders' = length orders" "\<forall>j. j \<noteq> i \<longrightarrow> orders' ! j = orders ! j"
proof -
  let ?x = "orders ! i"
  let ?take = "if ucast q < oo_queue ?x then ucast q else oo_queue ?x"
  have "fill_total fills' = fill_total fills + ahead_amount side price q (orders ! i) \<and>
      length orders' = length orders \<and> (\<forall>j. j \<noteq> i \<longrightarrow> orders' ! j = orders ! j)"
  proof (cases "at_level side price ?x \<and> oo_remaining ?x \<noteq> 0")
    case True
    then have "maker_fill i (umin (q - ucast ?take) (oo_remaining ?x)) ts
        (orders[i := ?x\<lparr>oo_queue := oo_queue ?x - ?take\<rparr>], fills) = (orders', fills')"
      using assms(1,3) by (simp add: level_step_def Let_def at_level_def)
    from maker_fill_total [OF this] show ?thesis
      using True by (auto simp: unat_umin leftover_unat ahead_amount_def)
  next
    case False
    then have "orders' = orders" "fills' = fills"
      using assms(1) by (auto simp: level_step_def Let_def at_level_def)
    then show ?thesis using False by (auto simp: ahead_amount_def)
  qed
  then show "fill_total fills' = fill_total fills + ahead_amount side price q (orders ! i)"
    "length orders' = length orders" "\<forall>j. j \<noteq> i \<longrightarrow> orders' ! j = orders ! j" by blast+
qed

lemma level_fold_ahead:
  "foldl (level_step r side price q ts) ((orders, fills), b) is = ((orders', fills'), b') \<Longrightarrow>
   distinct is \<Longrightarrow> \<forall>i \<in> set is. i < length orders \<Longrightarrow>
   \<forall>i \<in> set is. at_level side price (orders ! i) \<longrightarrow> r \<le> oo_watermark (orders ! i) \<Longrightarrow>
   fill_total fills' = fill_total fills +
     sum_list (map (\<lambda>i. ahead_amount side price q (orders ! i)) is)"
proof (induction "is" arbitrary: orders fills b)
  case (Cons i "is")
  obtain orders1 fills1 b1 where
    st: "level_step r side price q ts ((orders, fills), b) i = ((orders1, fills1), b1)"
    by (metis prod.exhaust)
  have "at_level side price (orders ! i) \<Longrightarrow> r \<le> oo_watermark (orders ! i)" "i < length orders"
    using Cons.prems(3,4) by simp_all
  note one = level_step_ahead [OF st this(2,1)]
  have same: "orders1 ! j = orders ! j" if "j \<in> set is" for j
    using one(3) that Cons.prems(2) by auto
  have "fill_total fills' = fill_total fills1 +
      sum_list (map (\<lambda>i. ahead_amount side price q (orders1 ! i)) is)"
    using Cons.prems st one(2) same by (intro Cons.IH [of orders1 fills1 b1]) auto
  moreover have "map (\<lambda>i. ahead_amount side price q (orders1 ! i)) is =
      map (\<lambda>i. ahead_amount side price q (orders ! i)) is"
    using same by simp
  ultimately show ?case using one(1) by simp
qed simp

subsection \<open>A budget shared in submission order\<close>

text \<open>
  The step both loops of an execution use for the orders that fill before the market does: the
  next order that qualifies takes what it can of the budget. It changes remaining quantities and
  queues only, and only of qualifying orders.
\<close>

definition same_terms :: "open_order \<Rightarrow> open_order \<Rightarrow> bool" where
  "same_terms x y \<longleftrightarrow> oo_side x = oo_side y \<and> oo_price x = oo_price y \<and> oo_watermark x = oo_watermark y"

definition shared_step :: "(open_order \<Rightarrow> bool) \<Rightarrow> u64 \<Rightarrow> exec_state \<Rightarrow> nat \<Rightarrow> exec_state" where
  "shared_step P ts = (\<lambda>((orders, fills), budget) i.
     let x = orders ! i in
     if \<not> P x \<or> oo_remaining x = 0 then ((orders, fills), budget)
     else (let f = umin budget (oo_remaining x);
               (orders1, fills1) = maker_fill i f ts (orders, fills)
           in ((if f = 0 then orders1 else reduce_later (orders1 ! i) f orders1, fills1),
               budget - f)))"

lemma price_through_shared:
  "price_through_step side price ts =
   shared_step (\<lambda>x. oo_side x = side \<and> superior side (oo_price x) price) ts"
  by (intro ext) (auto simp: price_through_step_def shared_step_def Let_def split: prod.split)

lemma level_shared:
  "oo_watermark (orders ! i) < r \<Longrightarrow>
   level_step r side price q ts ((orders, fills), b) i = shared_step (at_level side price) ts ((orders, fills), b) i"
  by (auto simp: level_step_def shared_step_def at_level_def Let_def)

definition worth :: "(open_order \<Rightarrow> bool) \<Rightarrow> open_order \<Rightarrow> nat" where
  "worth P x = (if P x then unat (oo_remaining x) else 0)"

text \<open>What a step or a loop leaves: the orders it may not touch, and the terms of all.\<close>

definition others_kept :: "(open_order \<Rightarrow> bool) \<Rightarrow> nat set \<Rightarrow> open_order list \<Rightarrow> open_order list \<Rightarrow> bool" where
  "others_kept P done orders orders' \<longleftrightarrow> length orders' = length orders \<and>
     (\<forall>j < length orders. same_terms (orders ! j) (orders' ! j) \<and>
        (j \<notin> done \<longrightarrow> oo_remaining (orders' ! j) = oo_remaining (orders ! j)) \<and>
        (\<not> P (orders ! j) \<longrightarrow> orders' ! j = orders ! j))"

definition by_level :: "(open_order \<Rightarrow> bool) \<Rightarrow> bool" where
  "by_level P \<longleftrightarrow> (\<forall>x y. oo_side x = oo_side y \<longrightarrow> oo_price x = oo_price y \<longrightarrow> P x = P y)"

definition maker_fills :: "(u8 \<Rightarrow> u32 \<Rightarrow> bool) \<Rightarrow> fill_rec list \<Rightarrow> bool" where
  "maker_fills Q fs \<longleftrightarrow> (\<forall>f \<in> set fs. fr_maker f \<and> Q (fr_side f) (fr_price f))"

lemma others_kept_trans:
  assumes "others_kept P A xs ys" "others_kept P B ys zs"
  shows "others_kept P (A \<union> B) xs zs"
proof -
  have len: "length ys = length xs" "length zs = length ys" using assms(1,2) by (simp_all add: others_kept_def)
  have "same_terms (xs ! j) (zs ! j) \<and>
      (j \<notin> A \<union> B \<longrightarrow> oo_remaining (zs ! j) = oo_remaining (xs ! j)) \<and> (\<not> P (xs ! j) \<longrightarrow> zs ! j = xs ! j)"
    if j: "j < length xs" for j
  proof -
    have one: "same_terms (xs ! j) (ys ! j)" "j \<notin> A \<Longrightarrow> oo_remaining (ys ! j) = oo_remaining (xs ! j)"
      "\<not> P (xs ! j) \<Longrightarrow> ys ! j = xs ! j"
      using assms(1) j by (simp_all add: others_kept_def)
    have two: "same_terms (ys ! j) (zs ! j)" "j \<notin> B \<Longrightarrow> oo_remaining (zs ! j) = oo_remaining (ys ! j)"
      "\<not> P (ys ! j) \<Longrightarrow> zs ! j = ys ! j"
      using assms(2) j len by (simp_all add: others_kept_def)
    show ?thesis using one two by (cases "P (xs ! j)") (auto simp: same_terms_def)
  qed
  then show ?thesis using len by (simp add: others_kept_def)
qed

lemma shared_step_gives:
  assumes "shared_step P ts ((orders, fills), b) i = ((orders', fills'), b')" "i < length orders" "by_level P"
    "\<And>x. P x = Q (oo_side x) (oo_price x)"
  shows "\<exists>fs. fills' = fills @ fs \<and> maker_fills Q fs \<and> others_kept P {i} orders orders' \<and>
    fill_total fs = min (unat b) (worth P (orders ! i)) \<and>
    unat b' = unat b - min (unat b) (worth P (orders ! i))"
proof (cases "P (orders ! i) \<and> umin b (oo_remaining (orders ! i)) \<noteq> 0")
  case False
  then have "orders' = orders \<and> fills' = fills \<and> b' = b"
    using assms(1) by (auto simp: shared_step_def maker_fill_def Let_def split: if_splits)
  moreover have "min (unat b) (worth P (orders ! i)) = 0"
    using False by (auto simp: worth_def unat_umin [symmetric] unat_eq_zero)
  ultimately show ?thesis
    by (simp add: others_kept_def same_terms_def maker_fills_def)
next
  case True
  let ?x = "orders ! i"
  let ?f = "umin b (oo_remaining ?x)"
  let ?y = "?x\<lparr>oo_remaining := oo_remaining ?x - ?f\<rparr>"
  have le: "?f \<le> b" by (auto simp: umin_def)
  have "oo_remaining ?x \<noteq> 0" using True by (auto simp: umin_def split: if_splits)
  then have res: "orders' = reduce_later ?y ?f (orders[i := ?y])" "b' = b - ?f"
    "fills' = fills @ [\<lparr>fr_ts = ts, fr_ref = oo_ref ?x, fr_side = oo_side ?x, fr_price = oo_price ?x,
                   fr_shares = ?f, fr_maker = True\<rparr>]"
    using assms(1,2) True by (auto simp: shared_step_def maker_fill_def Let_def)
  have level: "P y" if "oo_side y = oo_side ?x" "oo_price y = oo_price ?x" for y
    using True assms(4) that by simp
  have "orders' ! j = (if j = i then ?y else if oo_seq (orders ! j) \<le> oo_seq ?x \<or>
      oo_side (orders ! j) \<noteq> oo_side ?x \<or> oo_price (orders ! j) \<noteq> oo_price ?x then orders ! j
      else (orders ! j)\<lparr>oo_queue := drain (oo_queue (orders ! j)) (ucast ?f)\<rparr>)" if "j < length orders" for j
    using that assms(2) by (simp add: res(1) reduce_later_def nth_list_update)
  then have "same_terms (orders ! j) (orders' ! j) \<and>
      (j \<noteq> i \<longrightarrow> oo_remaining (orders' ! j) = oo_remaining (orders ! j)) \<and>
      (\<not> P (orders ! j) \<longrightarrow> orders' ! j = orders ! j)" if "j < length orders" for j
    using that True level [of "orders ! j"] by (simp add: same_terms_def)
  moreover have "length orders' = length orders" by (simp add: res(1) reduce_later_def)
  ultimately have "others_kept P {i} orders orders'" by (simp add: others_kept_def)
  then show ?thesis
    using True assms(4) unat_minus_le [OF le]
    by (intro exI [of _ "[\<lparr>fr_ts = ts, fr_ref = oo_ref ?x, fr_side = oo_side ?x, fr_price = oo_price ?x,
                   fr_shares = ?f, fr_maker = True\<rparr>]"])
      (auto simp: res(2,3) maker_fills_def fill_total_def worth_def unat_umin)
qed

lemma shared_fold_gives:
  assumes "foldl (shared_step P ts) ((orders, fills), b) is = ((orders', fills'), b')"
    "distinct is" "\<forall>i \<in> set is. i < length orders" "by_level P" "\<And>x. P x = Q (oo_side x) (oo_price x)"
  shows "\<exists>fs. fills' = fills @ fs \<and> maker_fills Q fs \<and> others_kept P (set is) orders orders' \<and>
    fill_total fs = min (unat b) (sum_list (map (\<lambda>i. worth P (orders ! i)) is))"
  using assms(1-3)
proof (induction "is" arbitrary: orders fills b)
  case Nil
  then show ?case by (simp add: others_kept_def same_terms_def maker_fills_def)
next
  case (Cons i "is")
  obtain orders1 fills1 b1 where st: "shared_step P ts ((orders, fills), b) i = ((orders1, fills1), b1)"
    by (metis prod.exhaust)
  have "i < length orders" using Cons.prems(3) by simp
  from shared_step_gives [OF st this assms(4,5)] obtain fs where
    fs: "fills1 = fills @ fs" "maker_fills Q fs" "others_kept P {i} orders orders1"
    "fill_total fs = min (unat b) (worth P (orders ! i))"
    "unat b1 = unat b - min (unat b) (worth P (orders ! i))" by blast
  have len: "length orders1 = length orders" using fs(3) by (simp add: others_kept_def)
  have same: "worth P (orders1 ! j) = worth P (orders ! j)" if "j \<in> set is" for j
  proof -
    have "j < length orders" "j \<noteq> i" using that Cons.prems(2,3) by auto
    then have "same_terms (orders ! j) (orders1 ! j)" "oo_remaining (orders1 ! j) = oo_remaining (orders ! j)"
      using fs(3) by (simp_all add: others_kept_def)
    then show ?thesis using assms(5) by (simp add: worth_def same_terms_def)
  qed
  then have sums: "map (\<lambda>i. worth P (orders1 ! i)) is = map (\<lambda>i. worth P (orders ! i)) is" by simp
  obtain gs where gs: "fills' = fills1 @ gs" "maker_fills Q gs" "others_kept P (set is) orders1 orders'"
    "fill_total gs = min (unat b1) (sum_list (map (\<lambda>i. worth P (orders1 ! i)) is))"
    using Cons.IH [of orders1 fills1 b1] Cons.prems st len by auto
  have "others_kept P (set (i # is)) orders orders'"
    using others_kept_trans [OF fs(3) gs(3)] by simp
  moreover have "fill_total (fs @ gs) = min (unat b) (sum_list (map (\<lambda>i. worth P (orders ! i)) (i # is)))"
    unfolding fill_total_append fs(4) gs(4) fs(5) sums list.map sum_list.Cons by linarith
  ultimately show ?case
    using fs(1,2) gs(1,2) by (intro exI [of _ "fs @ gs"]) (auto simp: maker_fills_def)
qed

subsection \<open>The fills at the level\<close>

lemma maker_fill_fills:
  "maker_fill i n ts (orders, fills) = (orders', fills') \<Longrightarrow> at_level side price (orders ! i) \<Longrightarrow>
   \<exists>fs. fills' = fills @ fs \<and> maker_fills (\<lambda>s p. s = side \<and> p = price) fs"
  by (auto simp: maker_fill_def maker_fills_def at_level_def Let_def split: if_splits)

lemma level_step_fills:
  assumes "level_step r side price q ts ((orders, fills), b) i = ((orders', fills'), b')" "i < length orders"
  shows "length orders' = length orders \<and>
    (\<exists>fs. fills' = fills @ fs \<and> maker_fills (\<lambda>s p. s = side \<and> p = price) fs)"
proof (cases "at_level side price (orders ! i) \<and> oo_remaining (orders ! i) \<noteq> 0")
  case False
  then have "orders' = orders \<and> fills' = fills" using assms(1) by (auto simp: level_step_def at_level_def Let_def)
  then show ?thesis by (simp add: maker_fills_def)
next
  case True
  let ?x = "orders ! i"
  let ?take = "if ucast q < oo_queue ?x then ucast q else oo_queue ?x"
  show ?thesis
  proof (cases "r \<le> oo_watermark ?x")
    case ahead: True
    have "maker_fill i (umin (q - ucast ?take) (oo_remaining ?x)) ts
        (orders[i := ?x\<lparr>oo_queue := oo_queue ?x - ?take\<rparr>], fills) = (orders', fills')"
      using assms(1) True ahead by (simp add: level_step_def Let_def at_level_def)
    from maker_fill_fills [OF this, of side price] maker_fill_total [OF this] show ?thesis
      using True assms(2) by (simp add: at_level_def)
  next
    case behind: False
    obtain orders1 fills1 where m: "maker_fill i (umin b (oo_remaining ?x)) ts (orders, fills) = (orders1, fills1)"
      by (metis prod.exhaust)
    have "fills' = fills1 \<and> length orders' = length orders1"
      using assms(1) True behind m by (auto simp: level_step_def at_level_def reduce_later_def Let_def)
    then show ?thesis using maker_fill_fills [OF m, of side price] maker_fill_total [OF m] True by simp
  qed
qed

lemma level_fold_fills:
  "foldl (level_step r side price q ts) ((orders, fills), b) is = ((orders', fills'), b') \<Longrightarrow>
   \<forall>i \<in> set is. i < length orders \<Longrightarrow> \<exists>fs. fills' = fills @ fs \<and> maker_fills (\<lambda>s p. s = side \<and> p = price) fs"
proof (induction "is" arbitrary: orders fills b)
  case (Cons i "is")
  obtain orders1 fills1 b1 where st: "level_step r side price q ts ((orders, fills), b) i = ((orders1, fills1), b1)"
    by (metis prod.exhaust)
  from level_step_fills [OF st] Cons.prems(2) obtain fs where fs: "length orders1 = length orders" "fills1 = fills @ fs"
    "maker_fills (\<lambda>s p. s = side \<and> p = price) fs" by auto
  obtain gs where "fills' = fills1 @ gs" "maker_fills (\<lambda>s p. s = side \<and> p = price) gs"
    using Cons.IH [of orders1 fills1 b1] Cons.prems st fs(1) by auto
  then show ?case using fs by (intro exI [of _ "fs @ gs"]) (auto simp: maker_fills_def)
qed (simp add: maker_fills_def)

lemma level_fold_behind:
  assumes "\<forall>i \<in> set is. i < length orders" "\<forall>x \<in> set orders. at_level side price x \<longrightarrow> oo_watermark x < r"
  shows "foldl (level_step r side price q ts) ((orders, fills), b) is =
    foldl (shared_step (at_level side price) ts) ((orders, fills), b) is"
  using assms
proof (induction "is" arbitrary: orders fills b)
  case (Cons i "is")
  obtain orders1 fills1 b1 where
    st: "shared_step (at_level side price) ts ((orders, fills), b) i = ((orders1, fills1), b1)"
    by (metis prod.exhaust)
  have i: "i < length orders" using Cons.prems(1) by simp
  have lv: "by_level (at_level side price)" by (simp add: by_level_def at_level_def)
  have kept: "others_kept (at_level side price) {i} orders orders1"
    using shared_step_gives [OF st i lv, of "\<lambda>s p. s = side \<and> p = price"] by (auto simp: at_level_def)
  have "level_step r side price q ts ((orders, fills), b) i = ((orders1, fills1), b1)"
  proof (cases "at_level side price (orders ! i)")
    case True
    then have "oo_watermark (orders ! i) < r" using Cons.prems(2) i by simp
    then show ?thesis using level_shared st by simp
  next
    case False
    then show ?thesis using st by (auto simp: level_step_def shared_step_def at_level_def Let_def)
  qed
  moreover have "\<forall>x \<in> set orders1. at_level side price x \<longrightarrow> oo_watermark x < r"
  proof
    fix x assume "x \<in> set orders1"
    then obtain j where j: "j < length orders1" "x = orders1 ! j" by (auto simp: in_set_conv_nth)
    then have "j < length orders" "same_terms (orders ! j) x" using kept by (simp_all add: others_kept_def)
    then show "at_level side price x \<longrightarrow> oo_watermark x < r"
      using Cons.prems(2) nth_mem [of j orders] by (auto simp: same_terms_def at_level_def)
  qed
  ultimately show ?case
    using Cons.IH [of orders1 fills1 b1] Cons.prems(1) kept st by (simp add: others_kept_def)
qed simp

text \<open>
  Property C16. A limit order takes displayed liquidity first: it fills, best level first, at
  the crossed levels of the other side, never more at a level than displayed there, in total
  the smaller of its size and what those levels display; what is left rests as one open order
  at its limit behind everything displayed and our earlier orders there.
\<close>

theorem submit_limit_correct:
  assumes "submit_limit eng side price shares ts fe = (fe', ref)"
  shows "\<exists>fs. fe_fills fe' = fe_fills fe @ map (\<lambda>(p, f). \<lparr>fr_ts = ts, fr_ref = ref, fr_side = side,
        fr_price = p, fr_shares = f, fr_maker = False\<rparr>) fs \<and>
     (\<forall>(p, f) \<in> set fs. p \<in> set (crossed_levels (be_books eng (fe_locate fe)) side price) \<and>
        f \<le> opposite_shares (be_books eng (fe_locate fe)) side p) \<and>
     taken fs = min (unat shares) (displayed (opposite_shares (be_books eng (fe_locate fe)) side)
        (crossed_levels (be_books eng (fe_locate fe)) side price)) \<and>
     sorted_wrt (if side = SIDE_BUY then (<) else (>)) (map (unat \<circ> fst) fs) \<and>
     (if taken fs = unat shares then fe_open fe' = fe_open fe
      else \<exists>x. fe_open fe' = fe_open fe @ [x] \<and> oo_ref x = ref \<and> oo_side x = side \<and>
        oo_price x = price \<and> unat (oo_remaining x) = unat shares - taken fs \<and>
        oo_queue x = queue_snapshot (be_books eng (fe_locate fe)) side price (fe_open fe))"
proof -
  let ?book = "be_books eng (fe_locate fe)"
  obtain fs left where sw: "sweep ?book side price shares = (fs, left)" by (metis prod.exhaust)
  note lv = sw [unfolded sweep_levels]
  note total = take_levels_total [OF lv]
  let ?R = "if side = SIDE_BUY then (<) else (>)"
  have "sorted_wrt (\<lambda>x y. ?R (unat x) (unat y)) (crossed_levels ?book side price)"
    by (rule crossed_sorted)
  then have "sorted_wrt (\<lambda>x y. ?R (unat x) (unat y)) (map fst fs)" by (rule take_levels_order [OF lv])
  then have sorted: "sorted_wrt ?R (map (unat \<circ> fst) fs)"
    by (simp add: sorted_wrt_map comp_def)
  have "left = 0 \<longleftrightarrow> taken fs = unat shares"
    using total by (auto simp: unat_eq_zero [symmetric])
  then show ?thesis
    using assms total sorted take_levels_fills [OF lv]
    by (intro exI [of _ fs]) (auto simp: submit_limit_def Let_def sw)
qed


text \<open>
  Property C17. Whatever the client submits and cancels and whatever market messages arrive,
  the fills stay sound: each belongs to a submitted order, has its side and a price within its
  limit (a maker fill exactly at the limit), no order is filled beyond its size, and every
  open order's remaining quantity is its size less its fills. Synthetic references are unique,
  lie above the market's, and the open orders are kept in submission order.
\<close>

theorem fills_never_exceed_orders:
  assumes "fill_run locate fe log subs"
  shows "(\<forall>f \<in> set (log @ fe_fills fe). \<exists>side price q.
        subs (fr_ref f) = Some (side, price, q) \<and> fill_ok side price f) \<and>
     (\<forall>r side price q. subs r = Some (side, price, q) \<longrightarrow>
        OUR_REF_BIT < r \<and> filled r (log @ fe_fills fe) \<le> unat q) \<and>
     (\<forall>x \<in> set (fe_open fe). subs (oo_ref x) = Some (oo_side x, oo_price x, oo_original x) \<and>
        oo_remaining x \<noteq> 0 \<and>
        unat (oo_original x) = unat (oo_remaining x) + filled (oo_ref x) (log @ fe_fills fe)) \<and>
     distinct (map oo_ref (fe_open fe)) \<and> sorted_wrt (<) (map oo_seq (fe_open fe))"
  using fill_run_inv [OF assms]
  unfolding fill_inv_def ledger_def order_ok_def fills_ok_def by blast

text \<open>An engine with an empty book, and one order of ours resting behind nothing.\<close>

definition quiet_engine :: book_engine where
  "quiet_engine = \<lparr>be_price_levels = 1000, be_refs = \<lparr>rt_keys = [9], rt_vals =
       [\<lparr>ov_price = 100, ov_shares = 80, ov_locate = 1, ov_side = SIDE_BUY, ov_pad = 0\<rparr>],
       rt_cap = 1, rt_mask = 0, rt_size = 1, rt_stats = no_table_stats\<rparr>,
     be_books = Map.empty, be_ctr = no_counters, be_status = Ignored\<rparr>"

definition one_order :: fill_engine where
  "one_order = fst (submit_limit quiet_engine SIDE_BUY 100 50 7 (new_fill_engine 1))"

definition exec_9 :: decoded_message where
  "exec_9 = empty_message\<lparr>dm_type := OrderExecuted, dm_order_ref := 9, dm_shares := 30,
     dm_timestamp := 8\<rparr>"

lemma one_order_eq:
  "one_order = \<lparr>fe_locate = 1, fe_next_ref = 0x8000000000000002, fe_next_seq = 1, fe_watermark = 0,
     fe_open = [\<lparr>oo_ref = 0x8000000000000001, oo_side = SIDE_BUY, oo_price = 100, oo_remaining = 50,
       oo_original = 50, oo_queue = 0, oo_watermark = 0, oo_seq = 0\<rparr>], fe_fills = []\<rparr>"
  by (simp add: one_order_def submit_limit_def quiet_engine_def new_fill_engine_def sweep_def
    queue_snapshot_def Let_def)

lemma one_order_run: "fill_run 1 one_order [] [0x8000000000000001 \<mapsto> (SIDE_BUY, 100, 50)]"
proof -
  have "submit_limit quiet_engine SIDE_BUY 100 50 7 (new_fill_engine 1) = (one_order, 0x8000000000000001)"
    unfolding one_order_def by (simp add: submit_limit_def quiet_engine_def new_fill_engine_def sweep_def)
  moreover have "fe_next_ref (new_fill_engine 1) < - 1" by code_simp
  ultimately show ?thesis using run_submit [OF run_start] by fastforce
qed

lemma quiet_find: "table_find (be_refs quiet_engine) 9 =
    Some \<lparr>ov_price = 100, ov_shares = 80, ov_locate = 1, ov_side = SIDE_BUY, ov_pad = 0\<rparr>"
proof -
  have home: "home_slot 0 r = 0" for r by (simp add: home_slot_def)
  have probe: "probe_scalar_loop keys msk ref i 2 = probe_scalar_loop keys msk ref i (Suc (Suc 0))"
    for keys msk ref i by (simp add: numeral_2_eq_2)
  show ?thesis
    by (simp add: table_find_def find_index_def probe_scalar_def quiet_engine_def home probe)
qed

lemma exec_9_fills:
  "fe_fills (on_market_message quiet_engine exec_9 one_order) =
     [\<lparr>fr_ts = 8, fr_ref = 0x8000000000000001, fr_side = SIDE_BUY, fr_price = 100, fr_shares = 30,
       fr_maker = True\<rparr>]"
  by (simp add: on_market_message_def exec_9_def quiet_find one_order_eq umin_def handle_exec_def
    price_through_step_def level_step_def superior_def maker_fill_def reduce_later_def Let_def)

theorem fills_never_exceed_orders_witness:
  "filled 0x8000000000000001 (fe_fills (on_market_message quiet_engine exec_9 one_order)) = 30 \<and>
   filled 0x8000000000000001 (fe_fills (on_market_message quiet_engine exec_9 one_order)) \<le> 50"
proof -
  have "filled 0x8000000000000001 (fe_fills (on_market_message quiet_engine exec_9 one_order)) = 30"
    by (simp add: exec_9_fills filled_def)
  then show ?thesis
    using fills_never_exceed_orders [OF run_market [OF one_order_run, of quiet_engine exec_9]] by auto
qed

theorem submit_limit_correct_witness:
  "\<exists>x. fe_open one_order = [x] \<and> unat (oo_remaining x) = 50"
proof -
  have "submit_limit quiet_engine SIDE_BUY 100 50 7 (new_fill_engine 1) =
      (one_order, snd (submit_limit quiet_engine SIDE_BUY 100 50 7 (new_fill_engine 1)))"
    by (simp add: one_order_def)
  from submit_limit_correct [OF this] show ?thesis
    by (auto simp: quiet_engine_def crossed_levels_def displayed_def new_fill_engine_def)
qed


text \<open>Two submitted orders, the later at a better price: 50 executed shares fill both of them.\<close>

definition two_orders :: fill_engine where
  "two_orders = fst (submit_limit quiet_engine SIDE_BUY 101 50 7 one_order)"

lemma two_orders_open:
  "fe_open two_orders = fe_open one_order @
     [\<lparr>oo_ref = 0x8000000000000002, oo_side = SIDE_BUY, oo_price = 101, oo_remaining = 50,
       oo_original = 50, oo_queue = 0, oo_watermark = 0, oo_seq = 1\<rparr>]"
  "fe_fills two_orders = []"
  by (simp_all add: two_orders_def one_order_eq submit_limit_def quiet_engine_def sweep_def
    queue_snapshot_def at_level_def Let_def)


end
