(* ===== verification/OrderManager.thy ===== *)
theory OrderManager
  imports FillEngine BarBuilder StrategyVm
begin

text \<open>
  The order manager of \<open>src/sw/trade/order_manager.hpp\<close> and \<open>order_manager.cpp\<close>:
  signals to orders, position, protective exits and profit. It mutates the fill engine it
  refers to, so its operations act on a desk, the pair of both; the market engine is an
  argument. A float that the code converts to an unsigned integer it cannot represent is
  undefined behaviour, here \<open>None\<close>. The arithmetic is that of the C++ expressions without
  contraction into fused multiply-adds.
\<close>

abbreviation (input) RSN_SIGNAL :: int where "RSN_SIGNAL \<equiv> 0"
abbreviation (input) RSN_STOP :: int where "RSN_STOP \<equiv> 1"
abbreviation (input) RSN_TRAIL :: int where "RSN_TRAIL \<equiv> 2"
abbreviation (input) RSN_TP :: int where "RSN_TP \<equiv> 3"
abbreviation (input) RSN_EOD :: int where "RSN_EOD \<equiv> 4"

definition reason_name :: "int \<Rightarrow> string" where
  "reason_name r = (if r = RSN_SIGNAL then ''signal'' else if r = RSN_STOP then ''stop''
     else if r = RSN_TRAIL then ''trail'' else if r = RSN_TP then ''tp''
     else if r = RSN_EOD then ''eod'' else ''?'')"

record trade_rec =
  tr_side :: int
  tr_entry_t :: int
  tr_exit_t :: int
  tr_entry_px :: f32
  tr_exit_px :: f32
  tr_qty :: f32
  tr_pnl :: f32
  tr_reason :: int

record om_config =
  oc_fee :: f32
  oc_equity0 :: f32
  oc_entry_cross :: bool
  oc_cross_ticks :: u32

record order_manager =
  om_locate :: u16
  om_cfg :: om_config
  om_cash :: f32
  om_side :: int
  om_qty :: u32
  om_entry_notional :: f32
  om_entry_shares :: u32
  om_fees_open :: f32
  om_exit_notional :: f32
  om_exit_shares :: u32
  om_entry_bar :: int
  om_anchor :: f32
  om_last_print :: u32
  om_entry_ref :: u64
  om_entry_dir :: int
  om_exit_ref :: u64
  om_exit_reason :: int
  om_stop :: f32
  om_tp :: f32
  om_trail :: f32
  om_cur_bar :: int
  om_trades :: "trade_rec list"
  om_log :: "fill_rec list"

definition new_order_manager :: "u16 \<Rightarrow> om_config \<Rightarrow> order_manager" where
  "new_order_manager locate cfg =
     \<lparr>om_locate = locate, om_cfg = cfg, om_cash = oc_equity0 cfg, om_side = 0, om_qty = 0,
      om_entry_notional = f_zero, om_entry_shares = 0, om_fees_open = f_zero,
      om_exit_notional = f_zero, om_exit_shares = 0, om_entry_bar = - 1, om_anchor = f_zero,
      om_last_print = 0, om_entry_ref = 0, om_entry_dir = 0, om_exit_ref = 0,
      om_exit_reason = RSN_SIGNAL, om_stop = f_zero, om_tp = f_zero, om_trail = f_zero,
      om_cur_bar = 0, om_trades = [], om_log = []\<rparr>"

type_synonym desk = "order_manager \<times> fill_engine"

definition vwap :: "f32 \<Rightarrow> u32 \<Rightarrow> f32" where
  "vwap notional shares = (if shares \<noteq> 0 then f32_div notional (f32_of_u32 shares) else f_zero)"

definition equity :: "order_manager \<Rightarrow> f32 \<Rightarrow> f32" where
  "equity om mark_px = f32_add (om_cash om)
     (f32_mul (f32_mul (f32_of_int (om_side om)) (f32_of_u32 (om_qty om))) mark_px)"

definition close_round_trip :: "int \<Rightarrow> order_manager \<Rightarrow> order_manager" where
  "close_round_trip reason om =
     om\<lparr>om_trades := om_trades om @
          [\<lparr>tr_side = om_side om, tr_entry_t = om_entry_bar om, tr_exit_t = om_cur_bar om,
            tr_entry_px = vwap (om_entry_notional om) (om_entry_shares om),
            tr_exit_px = vwap (om_exit_notional om) (om_exit_shares om),
            tr_qty = f32_of_u32 (om_entry_shares om),
            tr_pnl = f32_sub (f32_mul (f32_of_int (om_side om))
              (f32_sub (om_exit_notional om) (om_entry_notional om))) (om_fees_open om),
            tr_reason = reason\<rparr>],
        om_side := 0, om_qty := 0, om_entry_notional := f_zero, om_exit_notional := f_zero,
        om_entry_shares := 0, om_exit_shares := 0, om_fees_open := f_zero, om_entry_bar := - 1,
        om_anchor := f_zero\<rparr>"

subsection \<open>Fills\<close>

definition charge_fee :: "f32 \<Rightarrow> order_manager \<Rightarrow> order_manager" where
  "charge_fee notional om = (let fee = f32_mul notional (oc_fee (om_cfg om)) in
     om\<lparr>om_cash := f32_sub (om_cash om) fee, om_fees_open := f32_add (om_fees_open om) fee\<rparr>)"

definition entry_fill :: "fill_rec \<Rightarrow> f32 \<Rightarrow> desk \<Rightarrow> desk" where
  "entry_fill f notional = (\<lambda>(om, fe).
     (let om1 = (if om_side om = 0
                 then om\<lparr>om_side := om_entry_dir om, om_entry_bar := om_cur_bar om,
                         om_anchor := f32_of_u32 (fr_price f)\<rparr>
                 else om);
          om2 = om1\<lparr>om_qty := om_qty om1 + fr_shares f,
                    om_entry_shares := om_entry_shares om1 + fr_shares f,
                    om_entry_notional := f32_add (om_entry_notional om1) notional,
                    om_cash := f32_sub (om_cash om1) (f32_mul (f32_of_int (om_side om1)) notional)\<rparr>
      in (if fe_find (om_entry_ref om2) fe = None then om2\<lparr>om_entry_ref := 0\<rparr> else om2, fe)))"

definition exit_fill :: "fill_rec \<Rightarrow> desk \<Rightarrow> desk" where
  "exit_fill f = (\<lambda>(om, fe).
     (let sh = (if fr_shares f \<le> om_qty om then fr_shares f else om_qty om);
          px = f32_of_u32 (fr_price f);
          om1 = om\<lparr>om_qty := om_qty om - sh, om_exit_shares := om_exit_shares om + sh,
                   om_exit_notional := f32_add (om_exit_notional om) (f32_mul px (f32_of_u32 sh)),
                   om_cash := f32_add (om_cash om)
                     (f32_mul (f32_mul (f32_of_int (om_side om)) px) (f32_of_u32 sh))\<rparr>
      in if om_qty om1 = 0
         then (close_round_trip (om_exit_reason om1) (om1\<lparr>om_exit_ref := 0\<rparr>),
               if fe_find (om_exit_ref om1) fe \<noteq> None then fst (fe_cancel (om_exit_ref om1) fe) else fe)
         else if fe_find (om_exit_ref om1) fe = None then (om1\<lparr>om_exit_ref := 0\<rparr>, fe)
         else (om1, fe)))"

definition apply_fill :: "fill_rec \<Rightarrow> desk \<Rightarrow> desk" where
  "apply_fill f = (\<lambda>(om, fe).
     (let notional = f32_mul (f32_of_u32 (fr_price f)) (f32_of_u32 (fr_shares f));
          om1 = charge_fee notional (om\<lparr>om_log := om_log om @ [f]\<rparr>)
      in if fr_ref f = om_entry_ref om1 then entry_fill f notional (om1, fe)
         else if fr_ref f = om_exit_ref om1 then exit_fill f (om1, fe)
         else (om1, fe)))"

definition poll_fills :: "desk \<Rightarrow> desk" where
  "poll_fills = (\<lambda>(om, fe). case take_fills fe of (fe1, fills) \<Rightarrow> fold apply_fill fills (om, fe1))"

subsection \<open>Orders\<close>

definition through_ask :: "order_book \<Rightarrow> u32 \<Rightarrow> u32" where
  "through_ask b ticks = (if ob_best_ask b \<noteq> 0 then ob_best_ask b + ticks else 0)"

definition through_bid :: "order_book \<Rightarrow> u32 \<Rightarrow> u32" where
  "through_bid b ticks = (if ob_best_bid b > ticks then ob_best_bid b - ticks else 0)"

definition entry_price :: "book_engine \<Rightarrow> order_manager \<Rightarrow> int \<Rightarrow> u32" where
  "entry_price eng om dir = (case be_books eng (om_locate om) of
     None \<Rightarrow> 0
   | Some b \<Rightarrow>
       if oc_entry_cross (om_cfg om)
       then (if dir > 0 then through_ask b (oc_cross_ticks (om_cfg om))
             else through_bid b (oc_cross_ticks (om_cfg om)))
       else (if dir > 0 then ob_best_bid b else ob_best_ask b))"

definition exit_price :: "book_engine \<Rightarrow> order_manager \<Rightarrow> u32" where
  "exit_price eng om = (case be_books eng (om_locate om) of
     None \<Rightarrow> 0
   | Some b \<Rightarrow> if om_side om > 0 then through_bid b (oc_cross_ticks (om_cfg om))
               else through_ask b (oc_cross_ticks (om_cfg om)))"

definition clear_entry_if_gone :: "desk \<Rightarrow> desk" where
  "clear_entry_if_gone = (\<lambda>(om, fe).
     (if fe_find (om_entry_ref om) fe = None then om\<lparr>om_entry_ref := 0\<rparr> else om, fe))"

definition submit_entry :: "book_engine \<Rightarrow> int \<Rightarrow> f32 \<Rightarrow> u64 \<Rightarrow> desk \<Rightarrow> desk option" where
  "submit_entry eng dir size_frac ts = (\<lambda>(om, fe).
     (let px = entry_price eng om dir in
      if px = 0 then Some (om, fe)
      else do {
        shares \<leftarrow> u32_of_f32 (f32_floor (f32_div (f32_mul (om_cash om) size_frac) (f32_of_u32 px)));
        if shares = 0 then Some (om, fe)
        else (case submit_limit eng (if dir > 0 then SIDE_BUY else SIDE_SELL) px shares ts fe of
          (fe1, ref) \<Rightarrow> Some (clear_entry_if_gone
            (poll_fills (om\<lparr>om_entry_dir := dir, om_entry_ref := ref\<rparr>, fe1))))
      }))"

definition submit_exit :: "book_engine \<Rightarrow> int \<Rightarrow> u64 \<Rightarrow> desk \<Rightarrow> desk" where
  "submit_exit eng reason ts = (\<lambda>(om, fe).
     if om_side om = 0 \<or> om_qty om = 0 then (om, fe)
     else (let px = exit_price eng om in
       if px = 0 then (om, fe)
       else (case submit_limit eng (if om_side om > 0 then SIDE_SELL else SIDE_BUY) px (om_qty om) ts fe of
         (fe1, ref) \<Rightarrow> poll_fills (om\<lparr>om_exit_reason := reason, om_exit_ref := ref\<rparr>, fe1))))"

definition cancel_working_entry :: "desk \<Rightarrow> desk" where
  "cancel_working_entry = (\<lambda>(om, fe).
     if om_entry_ref om = 0 then (om, fe)
     else (om\<lparr>om_entry_ref := 0\<rparr>, fst (fe_cancel (om_entry_ref om) fe)))"

subsection \<open>Events\<close>

text \<open>Which protective exit a print triggers: stop before trail before take-profit.\<close>

definition protective_exit :: "order_manager \<Rightarrow> f32 \<Rightarrow> int option" where
  "protective_exit om px =
     (let entry_vwap = vwap (om_entry_notional om) (om_entry_shares om);
          less = (\<lambda>c. f32_sub f_one c); more = (\<lambda>c. f32_add f_one c) in
      if om_side om > 0
      then (if f32_pos (om_stop om) \<and> f32_le px (f32_mul entry_vwap (less (om_stop om)))
            then Some RSN_STOP
            else if f32_pos (om_trail om) \<and> f32_le px (f32_mul (om_anchor om) (less (om_trail om)))
            then Some RSN_TRAIL
            else if f32_pos (om_tp om) \<and> f32_le (f32_mul entry_vwap (more (om_tp om))) px
            then Some RSN_TP else None)
      else (if f32_pos (om_stop om) \<and> f32_le (f32_mul entry_vwap (more (om_stop om))) px
            then Some RSN_STOP
            else if f32_pos (om_trail om) \<and> f32_le (f32_mul (om_anchor om) (more (om_trail om))) px
            then Some RSN_TRAIL
            else if f32_pos (om_tp om) \<and> f32_le px (f32_mul entry_vwap (less (om_tp om)))
            then Some RSN_TP else None))"

definition move_anchor :: "f32 \<Rightarrow> order_manager \<Rightarrow> order_manager" where
  "move_anchor px om =
     (if om_side om > 0
      then (if f32_lt (om_anchor om) px then om\<lparr>om_anchor := px\<rparr> else om)
      else (if f32_lt px (om_anchor om) then om\<lparr>om_anchor := px\<rparr> else om))"

definition on_trade_print :: "book_engine \<Rightarrow> u32 \<Rightarrow> u64 \<Rightarrow> desk \<Rightarrow> desk" where
  "on_trade_print eng price ts = (\<lambda>(om0, fe).
     (let om = om0\<lparr>om_last_print := price\<rparr>; px = f32_of_u32 price in
      if om_side om = 0 \<or> om_exit_ref om \<noteq> 0 then (om, fe)
      else (let om1 = move_anchor px om in
        case protective_exit om1 px of
          None \<Rightarrow> (om1, fe)
        | Some reason \<Rightarrow> submit_exit eng reason ts (cancel_working_entry (om1, fe)))))"

definition om_ctx :: "order_manager \<Rightarrow> bar_series \<Rightarrow> nat \<Rightarrow> vm_ctx" where
  "om_ctx om bars t = \<lparr>cx_position = f32_of_int (om_side om),
     cx_entry_px = (if om_side om \<noteq> 0 \<and> om_entry_shares om \<noteq> 0
                    then f32_div (om_entry_notional om) (f32_of_u32 (om_entry_shares om)) else f_zero),
     cx_equity = equity om (bs_c bars ! t)\<rparr>"

definition exit_on_signal :: "book_engine \<Rightarrow> u64 \<Rightarrow> desk \<Rightarrow> desk" where
  "exit_on_signal eng ts d = (let d1 = cancel_working_entry d in
     if om_exit_ref (fst d1) = 0 then submit_exit eng RSN_SIGNAL ts d1 else d1)"

definition enter :: "book_engine \<Rightarrow> int \<Rightarrow> f32 \<Rightarrow> u64 \<Rightarrow> desk \<Rightarrow> desk option" where
  "enter eng dir size_frac ts d =
     (let d1 = (if om_entry_dir (fst d) * dir < 0 then cancel_working_entry d else d) in
      if om_entry_ref (fst d1) = 0
      then submit_entry eng dir size_frac ts ((fst d1)\<lparr>om_entry_dir := dir\<rparr>, snd d1)
      else Some d1)"

definition arbitrate :: "book_engine \<Rightarrow> signals \<Rightarrow> u64 \<Rightarrow> desk \<Rightarrow> desk option" where
  "arbitrate eng sig ts d =
     (let om = fst d in
      if om_side om > 0 \<and> sg_xl sig then Some (exit_on_signal eng ts d)
      else if om_side om < 0 \<and> sg_xs sig then Some (exit_on_signal eng ts d)
      else if om_side om = 0 \<and> om_exit_ref om = 0
      then (if sg_el sig \<and> \<not> sg_es sig then enter eng 1 (sg_size sig) ts d
            else if sg_es sig \<and> \<not> sg_el sig then enter eng (- 1) (sg_size sig) ts d
            else Some d)
      else Some d)"

definition repeg :: "book_engine \<Rightarrow> u64 \<Rightarrow> desk \<Rightarrow> desk" where
  "repeg eng ts = (\<lambda>(om, fe).
     if om_entry_ref om \<noteq> 0 \<and> \<not> oc_entry_cross (om_cfg om)
     then (case fe_find (om_entry_ref om) fe of
             None \<Rightarrow> (om\<lparr>om_entry_ref := 0\<rparr>, fe)
           | Some x \<Rightarrow>
               (let best = entry_price eng om (om_entry_dir om) in
                if best \<noteq> 0 \<and> best \<noteq> oo_price x
                then (case submit_limit eng (if om_entry_dir om > 0 then SIDE_BUY else SIDE_SELL) best
                        (oo_remaining x) ts (fst (fe_cancel (om_entry_ref om) fe)) of
                      (fe1, ref) \<Rightarrow> clear_entry_if_gone (poll_fills (om\<lparr>om_entry_ref := ref\<rparr>, fe1)))
                else (om, fe)))
     else (om, fe))"

definition on_bar :: "book_engine \<Rightarrow> nat \<Rightarrow> signals \<Rightarrow> u64 \<Rightarrow> desk \<Rightarrow> desk option" where
  "on_bar eng t sig ts = (\<lambda>(om, fe). do {
     d1 \<leftarrow> arbitrate eng sig ts
       (om\<lparr>om_stop := sg_stop sig, om_tp := sg_tp sig, om_trail := sg_trail sig\<rparr>, fe);
     let (om2, fe2) = repeg eng ts d1;
     Some (om2\<lparr>om_cur_bar := int t + 1\<rparr>, fe2)
   })"

definition om_finish :: "u64 \<Rightarrow> desk \<Rightarrow> desk option" where
  "om_finish ts d =
     (let (om, fe) = cancel_working_entry d;
          (om1, fe1) = (if om_exit_ref om \<noteq> 0 \<and> fe_find (om_exit_ref om) fe \<noteq> None
                        then (om\<lparr>om_exit_ref := 0\<rparr>, fst (fe_cancel (om_exit_ref om) fe))
                        else (om, fe))
      in if om_side om1 \<noteq> 0 \<and> om_qty om1 > 0
         then do {
           mark \<leftarrow> (if om_last_print om1 \<noteq> 0 then Some (om_last_print om1)
                    else u32_of_f32 (f32_div (om_entry_notional om1) (f32_of_u32 (om_entry_shares om1))));
           let notional = f32_mul (f32_of_u32 mark) (f32_of_u32 (om_qty om1));
           let fee = f32_mul notional (oc_fee (om_cfg om1));
           Some (close_round_trip RSN_EOD
             (om1\<lparr>om_log := om_log om1 @ [\<lparr>fr_ts = ts, fr_ref = 0,
                    fr_side = (if om_side om1 > 0 then SIDE_SELL else SIDE_BUY), fr_price = mark,
                    fr_shares = om_qty om1, fr_maker = False\<rparr>],
                  om_cash := f32_sub (f32_add (om_cash om1)
                    (f32_mul (f32_of_int (om_side om1)) notional)) fee,
                  om_fees_open := f32_add (om_fees_open om1) fee,
                  om_exit_shares := om_exit_shares om1 + om_qty om1,
                  om_exit_notional := f32_add (om_exit_notional om1) notional,
                  om_qty := 0\<rparr>), fe1)
         }
         else Some (om1, fe1))"

end
