(* ===== verification/DeskInvariant.thy ===== *)
theory DeskInvariant
  imports OrderManager FillLedger
begin

text \<open>
  The invariant of a desk, the order manager with its fill engine: the position accounts of
  the order manager agree with the orders it submitted. Shares entered are the shares held
  plus the shares exited, as natural numbers, so no count wraps; every recorded round trip
  sold exactly what it bought.
\<close>

subsection \<open>The accounts\<close>

definition direction :: "int \<Rightarrow> bool" where
  "direction s \<longleftrightarrow> s = 1 \<or> s = - 1"

text \<open>A round trip whose two prices are the VWAPs of the same number of shares.\<close>

definition trade_ok :: "trade_rec \<Rightarrow> bool" where
  "trade_ok tr \<longleftrightarrow> direction (tr_side tr) \<and>
     (\<exists>entry exit fees shares. shares \<noteq> 0 \<and> tr_entry_px tr = vwap entry shares \<and>
        tr_exit_px tr = vwap exit shares \<and> tr_qty tr = f32_of_u32 shares \<and>
        tr_pnl tr = f32_sub (f32_mul (f32_of_int (tr_side tr)) (f32_sub exit entry)) fees)"

definition om_ok :: "order_manager \<Rightarrow> bool" where
  "om_ok om \<longleftrightarrow> (om_side om = 0 \<or> direction (om_side om)) \<and>
     (om_entry_ref om \<noteq> 0 \<longrightarrow> direction (om_entry_dir om)) \<and>
     unat (om_qty om) + unat (om_exit_shares om) = unat (om_entry_shares om) \<and>
     (om_side om = 0 \<longrightarrow> om_entry_shares om = 0 \<and> om_exit_ref om = 0) \<and>
     (om_side om \<noteq> 0 \<longrightarrow> om_qty om \<noteq> 0) \<and> (\<forall>tr \<in> set (om_trades om). trade_ok tr)"

text \<open>
  The round trips in the order of the bar clock, which stands at \<open>k\<close>: the bars in which the
  recorded trips were entered and left, the bar in which the open position was entered, and
  the bar being built never go back.
\<close>

definition trade_bars :: "trade_rec list \<Rightarrow> int list" where
  "trade_bars trs = concat (map (\<lambda>tr. [tr_entry_t tr, tr_exit_t tr]) trs)"

definition trips :: "nat \<Rightarrow> order_manager \<Rightarrow> bool" where
  "trips k om \<longleftrightarrow> om_cur_bar om = int k \<and> (if om_side om = 0
     then sorted (0 # trade_bars (om_trades om) @ [int k])
     else sorted (0 # trade_bars (om_trades om) @ [om_entry_bar om, int k]))"

text \<open>
  The working entry order leaves room in the 32-bit share counts: what was entered before it
  (\<open>base\<close>) and its size fit, and the entered shares are at most \<open>base\<close> and its fills.
\<close>

definition entry_room :: "submitted \<Rightarrow> order_manager \<Rightarrow> fill_rec list \<Rightarrow> bool" where
  "entry_room subs om log \<longleftrightarrow> (om_entry_ref om \<noteq> 0 \<longrightarrow>
     (\<exists>side price q base. subs (om_entry_ref om) = Some (side, price, q) \<and>
        base + unat q < 2 ^ 32 \<and> unat (om_entry_shares om) \<le> base + filled (om_entry_ref om) log))"

definition refs_left :: "nat \<Rightarrow> fill_engine \<Rightarrow> bool" where
  "refs_left n fe \<longleftrightarrow> unat (fe_next_ref fe) + n < 2 ^ 64"

definition desk_ok :: "u16 \<Rightarrow> nat \<Rightarrow> submitted \<Rightarrow> desk \<Rightarrow> bool" where
  "desk_ok locate n subs = (\<lambda>(om, fe). om_ok om \<and> fill_run locate fe (om_log om) subs \<and>
     entry_room subs om (om_log om) \<and> refs_left n fe)"

lemma direction_nonzero: "direction s \<Longrightarrow> s \<noteq> 0"
  by (auto simp: direction_def)

lemma filled_within: "fill_run locate fe log subs \<Longrightarrow> subs r = Some (side, price, q) \<Longrightarrow>
    filled r (log @ fe_fills fe) \<le> unat q"
  using fill_run_inv unfolding fill_inv_def ledger_def fills_ok_def by blast

lemma fill_of_submitted: "fill_run locate fe log subs \<Longrightarrow> f \<in> set (log @ fe_fills fe) \<Longrightarrow>
    \<exists>side price q. subs (fr_ref f) = Some (side, price, q) \<and> fr_shares f \<noteq> 0"
  using fill_run_inv unfolding fill_inv_def ledger_def fills_ok_def fill_ok_def by blast

lemma submitted_ref_nonzero: "fill_run locate fe log subs \<Longrightarrow> subs r = Some v \<Longrightarrow> r \<noteq> 0"
  using fill_run_inv unfolding fill_inv_def by (metis domI word_not_simps(1))

lemma next_ref_fresh: "fill_run locate fe log subs \<Longrightarrow> subs (fe_next_ref fe) = None"
  using fill_run_inv unfolding fill_inv_def by (metis domIff less_irrefl)

lemma next_ref_nonzero: "fill_run locate fe log subs \<Longrightarrow> fe_next_ref fe \<noteq> 0"
  using fill_run_inv unfolding fill_inv_def by (metis word_not_simps(1))

lemma unfilled: "fill_run locate fe log subs \<Longrightarrow> subs r = None \<Longrightarrow> filled r log = 0"
proof -
  assume run: "fill_run locate fe log subs" and none: "subs r = None"
  have "fr_ref f \<noteq> r" if "f \<in> set log" for f
    using fill_of_submitted [OF run, of f] that none by auto
  then show ?thesis by (force simp: filled_def sum_list_eq_0_iff)
qed

lemma open_order_filled:
  assumes "fill_run locate fe log subs" "fe_find r fe = Some x"
  shows "oo_ref x = r \<and> subs r = Some (oo_side x, oo_price x, oo_original x) \<and>
    unat (oo_remaining x) + filled r log \<le> unat (oo_original x)"
proof -
  have x: "x \<in> set (fe_open fe)" "oo_ref x = r"
    using assms(2) by (auto simp: fe_find_def find_Some_iff)
  then have "order_ok subs (log @ fe_fills fe) x"
    using fill_run_inv [OF assms(1)] by (simp add: fill_inv_def ledger_def)
  then show ?thesis using x(2) by (simp add: order_ok_def)
qed

subsection \<open>Cancelling and submitting\<close>

lemma fe_cancel_frame [simp]:
  "fe_next_ref (fst (fe_cancel r fe)) = fe_next_ref fe" "fe_fills (fst (fe_cancel r fe)) = fe_fills fe"
  by (simp_all add: fe_cancel_def split: option.split)

lemma fill_run_cancel: "fill_run locate fe log subs \<Longrightarrow> fill_run locate (fst (fe_cancel r fe)) log subs"
  by (metis run_cancel prod.collapse)

lemma refs_left_submit:
  assumes "refs_left (Suc n) fe" "submit_limit eng side price shares ts fe = (fe', ref)"
  shows "refs_left n fe' \<and> fe_next_ref fe < - 1 \<and> ref = fe_next_ref fe"
proof -
  have next': "fe_next_ref fe' = fe_next_ref fe + 1" "ref = fe_next_ref fe"
    using assms(2) by (auto simp: submit_limit_def Let_def split: prod.splits if_splits)
  have room: "unat (fe_next_ref fe) + Suc n < 2 ^ 64" using assms(1) by (simp only: refs_left_def)
  then have "unat (fe_next_ref fe) + unat (1 :: u64) < 2 ^ LENGTH(64)" by simp
  then have "unat (fe_next_ref fe + 1) = unat (fe_next_ref fe) + 1"
    by (simp add: unat_plus_no_wrap)
  moreover have "unat (fe_next_ref fe) < unat (- 1 :: u64)"
    using room by (simp add: unsigned_minus_1_eq_mask mask_eq_exp_minus_1)
  ultimately show ?thesis
    using next' room by (simp add: refs_left_def word_less_nat_alt)
qed

lemma fill_run_submit:
  assumes "fill_run locate fe log subs" "refs_left (Suc n) fe"
    "submit_limit eng side price shares ts fe = (fe', ref)"
  shows "fill_run locate fe' log (subs(ref \<mapsto> (side, price, shares)))"
  using run_submit [OF assms(1) _ assms(3)] refs_left_submit [OF assms(2,3)] by blast

lemma refs_left_mono: "refs_left n fe \<Longrightarrow> m \<le> n \<Longrightarrow> refs_left m fe"
  by (simp add: refs_left_def)

subsection \<open>Fills\<close>

lemma om_ok_log: "om_ok (charge_fee x (om\<lparr>om_log := l\<rparr>)) = om_ok om"
  by (simp add: om_ok_def charge_fee_def Let_def)

lemma charge_fee_fields:
  "om_entry_ref (charge_fee x om) = om_entry_ref om" "om_exit_ref (charge_fee x om) = om_exit_ref om"
  "om_log (charge_fee x om) = om_log om" "om_entry_shares (charge_fee x om) = om_entry_shares om"
  by (simp_all add: charge_fee_def Let_def)

lemma add_fits: "unat a + unat b < 2 ^ 32 \<Longrightarrow> unat (a + b) = unat a + unat b" for a b :: u32
  by (simp add: unat_plus_no_wrap)

lemma room_chain: "e \<le> b + l \<Longrightarrow> l + s \<le> q \<Longrightarrow> b + q < m \<Longrightarrow> e + s < m" for e b l s q m :: nat
  by linarith

lemma entry_fill_ok:
  assumes "om_ok om" "om_entry_ref om \<noteq> 0" "fr_shares f \<noteq> 0"
    "unat (om_entry_shares om) + unat (fr_shares f) < 2 ^ 32"
    "entry_fill f notional (om, fe) = (om', fe')"
  shows "om_ok om' \<and> fe' = fe \<and> om_log om' = om_log om \<and>
    om_entry_shares om' = om_entry_shares om + fr_shares f \<and>
    (om_entry_ref om' = 0 \<or> om_entry_ref om' = om_entry_ref om)"
proof -
  let ?n = "fr_shares f"
  have sums: "unat (om_qty om) + unat (om_exit_shares om) = unat (om_entry_shares om)"
    using assms(1) by (simp add: om_ok_def)
  have entry: "unat (om_entry_shares om + ?n) = unat (om_entry_shares om) + unat ?n"
    by (rule add_fits [OF assms(4)])
  have "unat (om_qty om) + unat ?n < 2 ^ 32" using sums assms(4) by linarith
  then have qty: "unat (om_qty om + ?n) = unat (om_qty om) + unat ?n" by (rule add_fits)
  have "unat ?n \<noteq> 0" using assms(3) by (simp add: unat_eq_zero)
  then have "unat (om_qty om + ?n) \<noteq> 0" using qty by linarith
  then have nz: "om_qty om + ?n \<noteq> 0" by (simp add: unat_eq_zero)
  have total: "unat (om_qty om + ?n) + unat (om_exit_shares om) = unat (om_entry_shares om + ?n)"
    using sums entry qty by linarith
  have ok: "om_side om = 0 \<or> direction (om_side om)" "direction (om_entry_dir om)"
    "\<forall>tr \<in> set (om_trades om). trade_ok tr"
    using assms(1,2) by (auto simp: om_ok_def)
  show ?thesis
    using assms(5) nz total ok direction_nonzero [OF ok(2)]
    by (auto simp: entry_fill_def Let_def om_ok_def split: if_splits)
qed

lemma trade_bars_simps [simp]:
  "trade_bars [] = []" "trade_bars (trs @ [tr]) = trade_bars trs @ [tr_entry_t tr, tr_exit_t tr]"
  by (simp_all add: trade_bars_def)

lemma entry_fill_trips:
  assumes "trips k om" "direction (om_entry_dir om)" "entry_fill f notional (om, fe) = (om', fe')"
  shows "trips k om'"
  using assms(1,3) direction_nonzero [OF assms(2)]
  by (auto simp: entry_fill_def Let_def trips_def sorted_append split: if_splits)

lemma exit_fill_trips:
  assumes "trips k om" "om_side om \<noteq> 0" "exit_fill f (om, fe) = (om', fe')"
  shows "trips k om'"
  using assms by (auto simp: exit_fill_def close_round_trip_def Let_def trips_def sorted_append split: if_splits)

lemma apply_fill_trips:
  assumes "trips k om" "om_ok om" "fr_ref f \<noteq> 0" "apply_fill f (om, fe) = (om', fe')"
  shows "trips k om'"
proof -
  let ?notional = "f32_mul (f32_of_u32 (fr_price f)) (f32_of_u32 (fr_shares f))"
  define om1 where "om1 = charge_fee ?notional (om\<lparr>om_log := om_log om @ [f]\<rparr>)"
  have om1: "om_ok om1" "om_entry_ref om1 = om_entry_ref om" "om_exit_ref om1 = om_exit_ref om"
    using assms(2) by (simp_all add: om1_def om_ok_log charge_fee_fields)
  have trips: "trips k om1" using assms(1)
    by (cases "om_side om = 0") (simp_all add: om1_def charge_fee_def trips_def Let_def)
  consider (entry) "fr_ref f = om_entry_ref om1" "entry_fill f ?notional (om1, fe) = (om', fe')"
    | (exit) "fr_ref f = om_exit_ref om1" "exit_fill f (om1, fe) = (om', fe')" | (other) "om' = om1"
    using assms(4) by (auto simp: apply_fill_def Let_def simp flip: om1_def split: if_splits)
  then show ?thesis
  proof cases
    case entry
    then show ?thesis using entry_fill_trips [OF trips] om1(1) assms(3) by (simp add: om_ok_def)
  next
    case exit
    then have "om_side om1 \<noteq> 0" using om1(1) assms(3) by (auto simp: om_ok_def)
    then show ?thesis using exit_fill_trips [OF trips] exit(2) by blast
  qed (use trips in simp)
qed

lemma exit_fill_ok:
  assumes "om_ok om" "om_exit_ref om \<noteq> 0" "exit_fill f (om, fe) = (om', fe')"
  shows "om_ok om' \<and> (fe' = fe \<or> (\<exists>r. fe' = fst (fe_cancel r fe))) \<and> om_log om' = om_log om \<and>
    om_entry_ref om' = om_entry_ref om \<and> unat (om_entry_shares om') \<le> unat (om_entry_shares om)"
proof -
  define sh where "sh = (if fr_shares f \<le> om_qty om then fr_shares f else om_qty om)"
  have le: "sh \<le> om_qty om" by (simp add: sh_def)
  have sums: "unat (om_qty om) + unat (om_exit_shares om) = unat (om_entry_shares om)"
    and side: "om_side om \<noteq> 0" using assms(1,2) by (auto simp: om_ok_def)
  have qty: "unat (om_qty om - sh) = unat (om_qty om) - unat sh" by (rule unat_minus_le [OF le])
  have shq: "unat sh \<le> unat (om_qty om)" using le by (simp add: word_le_nat_alt)
  have "unat (om_entry_shares om) < 2 ^ 32" by simp
  then have "unat (om_exit_shares om) + unat sh < 2 ^ 32" using sums shq by linarith
  then have ex: "unat (om_exit_shares om + sh) = unat (om_exit_shares om) + unat sh" by (rule add_fits)
  have total: "unat (om_qty om - sh) + unat (om_exit_shares om + sh) = unat (om_entry_shares om)"
    using qty ex sums shq by linarith
  have ok: "direction (om_side om)" "om_entry_ref om \<noteq> 0 \<longrightarrow> direction (om_entry_dir om)"
    "\<forall>tr \<in> set (om_trades om). trade_ok tr" "om_qty om \<noteq> 0"
    using assms(1) side by (auto simp: om_ok_def)
  show ?thesis
  proof (cases "om_qty om - sh = 0")
    case True
    then have "unat (om_exit_shares om + sh) = unat (om_entry_shares om)" using total by simp
    then have same: "om_exit_shares om + sh = om_entry_shares om" by (simp only: word_unat_eq_iff)
    have "unat (om_qty om) \<noteq> 0" using ok(4) by (simp add: unat_eq_zero)
    then have "unat (om_entry_shares om) \<noteq> 0" using sums by linarith
    then have "om_entry_shares om \<noteq> 0" by (simp add: unat_eq_zero)
    then have trade: "trade_ok \<lparr>tr_side = om_side om, tr_entry_t = et, tr_exit_t = xt,
        tr_entry_px = vwap en (om_entry_shares om), tr_exit_px = vwap ex (om_entry_shares om),
        tr_qty = f32_of_u32 (om_entry_shares om),
        tr_pnl = f32_sub (f32_mul (f32_of_int (om_side om)) (f32_sub ex en)) fees,
        tr_reason = rs\<rparr>" for et xt en ex fees rs
      using ok(1) unfolding trade_ok_def by (intro conjI exI [of _ en] exI [of _ ex] exI [of _ fees]
        exI [of _ "om_entry_shares om"]) simp_all
    have res: "om_trades om' = om_trades om @ [\<lparr>tr_side = om_side om, tr_entry_t = om_entry_bar om,
          tr_exit_t = om_cur_bar om, tr_entry_px = vwap (om_entry_notional om) (om_entry_shares om),
          tr_exit_px = vwap (f32_add (om_exit_notional om)
            (f32_mul (f32_of_u32 (fr_price f)) (f32_of_u32 sh))) (om_entry_shares om),
          tr_qty = f32_of_u32 (om_entry_shares om),
          tr_pnl = f32_sub (f32_mul (f32_of_int (om_side om)) (f32_sub (f32_add (om_exit_notional om)
            (f32_mul (f32_of_u32 (fr_price f)) (f32_of_u32 sh))) (om_entry_notional om)))
            (om_fees_open om), tr_reason = om_exit_reason om\<rparr>]"
      "om_side om' = 0" "om_qty om' = 0" "om_entry_shares om' = 0" "om_exit_shares om' = 0"
      "om_exit_ref om' = 0" "om_entry_ref om' = om_entry_ref om" "om_entry_dir om' = om_entry_dir om"
      "om_log om' = om_log om" "fe' = fe \<or> fe' = fst (fe_cancel (om_exit_ref om) fe)"
      using assms(3) True same unfolding exit_fill_def prod.case sh_def [symmetric] Let_def
      by (auto simp: close_round_trip_def)
    have "om_ok om'" using ok(2,3) trade unfolding om_ok_def by (simp add: res)
    then show ?thesis using res by auto
  next
    case False
    then have res: "om_side om' = om_side om" "om_qty om' = om_qty om - sh"
      "om_entry_shares om' = om_entry_shares om" "om_exit_shares om' = om_exit_shares om + sh"
      "om_entry_ref om' = om_entry_ref om" "om_entry_dir om' = om_entry_dir om"
      "om_log om' = om_log om" "om_trades om' = om_trades om" "fe' = fe"
      using assms(3) unfolding exit_fill_def prod.case sh_def [symmetric] Let_def
      by (auto split: if_splits)
    have "om_ok om'" using ok side total False unfolding om_ok_def by (simp add: res)
    then show ?thesis using res by simp
  qed
qed

lemma entry_room_grow:
  assumes "entry_room subs om log" "om_entry_ref om' = om_entry_ref om"
    "unat (om_entry_shares om') \<le> unat (om_entry_shares om)"
  shows "entry_room subs om' (log @ fills)"
  unfolding entry_room_def assms(2)
proof
  assume "om_entry_ref om \<noteq> 0"
  then obtain side price q base where q: "subs (om_entry_ref om) = Some (side, price, q)"
    "base + unat q < 2 ^ 32" "unat (om_entry_shares om) \<le> base + filled (om_entry_ref om) log"
    using assms(1) by (auto simp: entry_room_def)
  have "unat (om_entry_shares om') \<le> base + filled (om_entry_ref om) (log @ fills)"
    using q(3) assms(3) unfolding filled_append by linarith
  then show "\<exists>side price q base. subs (om_entry_ref om) = Some (side, price, q) \<and>
      base + unat q < 2 ^ 32 \<and>
      unat (om_entry_shares om') \<le> base + filled (om_entry_ref om) (log @ fills)"
    using q(1,2) by blast
qed

lemma apply_fill_ok:
  assumes "om_ok om" "entry_room subs om (om_log om)" "fr_ref f \<noteq> 0" "fr_shares f \<noteq> 0"
    "\<And>side price q. subs (fr_ref f) = Some (side, price, q) \<Longrightarrow>
       filled (fr_ref f) (om_log om @ [f]) \<le> unat q"
    "apply_fill f (om, fe) = (om', fe')"
  shows "om_ok om' \<and> entry_room subs om' (om_log om') \<and> om_log om' = om_log om @ [f] \<and>
    (fe' = fe \<or> (\<exists>r. fe' = fst (fe_cancel r fe)))"
proof -
  let ?notional = "f32_mul (f32_of_u32 (fr_price f)) (f32_of_u32 (fr_shares f))"
  define om1 where "om1 = charge_fee ?notional (om\<lparr>om_log := om_log om @ [f]\<rparr>)"
  have om1: "om_ok om1" "om_entry_ref om1 = om_entry_ref om" "om_exit_ref om1 = om_exit_ref om"
    "om_log om1 = om_log om @ [f]" "om_entry_shares om1 = om_entry_shares om"
    using assms(1) by (simp_all add: om1_def om_ok_log charge_fee_fields)
  show ?thesis
  proof (cases "fr_ref f = om_entry_ref om")
    case True
    then obtain side price q base where q: "subs (fr_ref f) = Some (side, price, q)"
      "base + unat q < 2 ^ 32" "unat (om_entry_shares om) \<le> base + filled (fr_ref f) (om_log om)"
      using assms(2,3) by (auto simp: entry_room_def)
    have "filled (fr_ref f) (om_log om @ [f]) \<le> unat q" using assms(5) q(1) by blast
    then have total: "filled (fr_ref f) (om_log om) + unat (fr_shares f) \<le> unat q"
      by (simp add: filled_Cons)
    have fits: "unat (om_entry_shares om1) + unat (fr_shares f) < 2 ^ 32"
      unfolding om1(5) by (rule room_chain [OF q(3) total q(2)])
    have "entry_fill f ?notional (om1, fe) = (om', fe')"
      using assms(6) True om1(2) by (simp add: apply_fill_def Let_def flip: om1_def)
    from entry_fill_ok [OF om1(1) _ assms(4) fits this]
    have res: "om_ok om'" "fe' = fe" "om_log om' = om_log om @ [f]"
      "om_entry_shares om' = om_entry_shares om + fr_shares f"
      "om_entry_ref om' = 0 \<or> om_entry_ref om' = fr_ref f"
      using True assms(3) om1(2,4,5) by auto
    have "unat (om_entry_shares om') \<le> base + filled (fr_ref f) (om_log om')"
      using q(3) add_fits [of "om_entry_shares om" "fr_shares f"] fits om1(5)
      by (simp add: res(3,4) filled_Cons)
    then show ?thesis using res q(1,2) by (auto simp: entry_room_def)
  next
    case False
    show ?thesis
    proof (cases "fr_ref f = om_exit_ref om")
      case True
      then have "exit_fill f (om1, fe) = (om', fe')"
        using assms(6) False om1(2,3) by (simp add: apply_fill_def Let_def flip: om1_def)
      moreover have "om_exit_ref om1 \<noteq> 0" using True assms(3) om1(3) by simp
      ultimately have res: "om_ok om'" "om_log om' = om_log om @ [f]"
        "om_entry_ref om' = om_entry_ref om" "unat (om_entry_shares om') \<le> unat (om_entry_shares om)"
        "fe' = fe \<or> (\<exists>r. fe' = fst (fe_cancel r fe))"
        using exit_fill_ok [OF om1(1)] om1(2,4,5) by auto
      then show ?thesis
        using entry_room_grow [OF assms(2), of om' "[f]"] by simp
    next
      case no: False
      then have "om' = om1 \<and> fe' = fe"
        using assms(6) False om1(2,3) by (simp add: apply_fill_def Let_def flip: om1_def)
      then show ?thesis
        using entry_room_grow [OF assms(2), of om' "[f]"] om1 by simp
    qed
  qed
qed

text \<open>Applying a batch of fills: the part of the log still to come is \<open>fills\<close>.\<close>

lemma apply_fills_ok:
  assumes "fold apply_fill fills (om, fe) = (om', fe')"
    "om_ok om" "entry_room subs om (om_log om)" "refs_left n fe"
    "fill_run locate fe (om_log om @ fills) subs"
  shows "desk_ok locate n subs (om', fe') \<and> om_log om' = om_log om @ fills \<and> (trips k om \<longrightarrow> trips k om')"
  using assms
proof (induction fills arbitrary: om fe)
  case Nil
  then show ?case by (simp add: desk_ok_def)
next
  case (Cons f fills)
  obtain om1 fe1 where step: "apply_fill f (om, fe) = (om1, fe1)" by (metis prod.exhaust)
  have "f \<in> set ((om_log om @ f # fills) @ fe_fills fe)" by simp
  from fill_of_submitted [OF Cons.prems(5) this] obtain side price q where
    f: "subs (fr_ref f) = Some (side, price, q)" "fr_shares f \<noteq> 0" by blast
  have bound: "filled (fr_ref f) (om_log om @ [f]) \<le> unat q'"
    if "subs (fr_ref f) = Some (side', price', q')" for side' price' q'
    using filled_within [OF Cons.prems(5) that] by (simp add: filled_Cons)
  have ref: "fr_ref f \<noteq> 0" using f(1) submitted_ref_nonzero [OF Cons.prems(5)] by blast
  have "om_ok om1 \<and> entry_room subs om1 (om_log om1) \<and> om_log om1 = om_log om @ [f] \<and>
      (fe1 = fe \<or> (\<exists>r. fe1 = fst (fe_cancel r fe)))"
    by (rule apply_fill_ok [OF Cons.prems(2,3) ref f(2) _ step]) (rule bound)
  then have one: "om_ok om1" "entry_room subs om1 (om_log om1)" "om_log om1 = om_log om @ [f]"
    "fe1 = fe \<or> (\<exists>r. fe1 = fst (fe_cancel r fe))" by blast+
  have run: "fill_run locate fe1 (om_log om1 @ fills) subs" and left: "refs_left n fe1"
    using one(3,4) Cons.prems(4,5) fill_run_cancel by (auto simp: refs_left_def)
  have "fold apply_fill fills (om1, fe1) = (om', fe')" using Cons.prems(1) step by simp
  from Cons.IH [OF this one(1,2) left run] show ?case
    using one(3) apply_fill_trips [OF _ Cons.prems(2) ref step, of k] by simp
qed

lemma poll_fills_both:
  assumes "desk_ok locate n subs d"
  shows "desk_ok locate n subs (poll_fills d) \<and> (trips k (fst d) \<longrightarrow> trips k (fst (poll_fills d)))"
proof -
  obtain om fe where d: "d = (om, fe)" by (cases d)
  obtain om' fe' where res: "fold apply_fill (fe_fills fe) (om, fe\<lparr>fe_fills := []\<rparr>) = (om', fe')"
    by (metis prod.exhaust)
  have ok: "om_ok om" "entry_room subs om (om_log om)" "fill_run locate fe (om_log om) subs" "refs_left n fe"
    using assms by (simp_all add: d desk_ok_def)
  have "take_fills fe = (fe\<lparr>fe_fills := []\<rparr>, fe_fills fe)" by (simp add: take_fills_def)
  from run_drain [OF ok(3) this] have "fill_run locate (fe\<lparr>fe_fills := []\<rparr>) (om_log om @ fe_fills fe) subs" .
  moreover have "refs_left n (fe\<lparr>fe_fills := []\<rparr>)" using ok(4) by (simp add: refs_left_def)
  ultimately have "desk_ok locate n subs (om', fe') \<and> (trips k om \<longrightarrow> trips k om')"
    using apply_fills_ok [OF res ok(1,2)] by blast
  then show ?thesis by (simp add: d poll_fills_def take_fills_def res)
qed

lemmas poll_fills_ok = poll_fills_both [THEN conjunct1]
  and poll_fills_trips = poll_fills_both [THEN conjunct2, rule_format]

subsection \<open>Orders\<close>

lemma desk_ok_mono: "desk_ok locate n subs d \<Longrightarrow> m \<le> n \<Longrightarrow> desk_ok locate m subs d"
  by (auto simp: desk_ok_def dest: refs_left_mono)

text \<open>Forgetting the working entry, and any change outside the accounts.\<close>

lemma forget_entry_ok: "desk_ok locate n subs (om, fe) \<Longrightarrow> desk_ok locate n subs (om\<lparr>om_entry_ref := 0\<rparr>, fe)"
  by (simp add: desk_ok_def om_ok_def entry_room_def)

lemma desk_ok_cancel: "desk_ok locate n subs (om, fe) \<Longrightarrow> desk_ok locate n subs (om, fst (fe_cancel r fe))"
  by (simp add: desk_ok_def fill_run_cancel refs_left_def)

lemma clear_entry_ok: "desk_ok locate n subs d \<Longrightarrow> desk_ok locate n subs (clear_entry_if_gone d)"
  by (auto simp: clear_entry_if_gone_def forget_entry_ok split: prod.split)

lemma cancel_working_entry_ok:
  "desk_ok locate n subs d \<Longrightarrow> desk_ok locate n subs (cancel_working_entry d)"
  by (auto simp: cancel_working_entry_def forget_entry_ok desk_ok_cancel split: prod.split)

lemma om_ok_entry: "om_ok om \<Longrightarrow> direction dir \<Longrightarrow> om_ok (om\<lparr>om_entry_dir := dir, om_entry_ref := r\<rparr>)"
  by (simp add: om_ok_def)

lemma om_ok_exit: "om_ok om \<Longrightarrow> om_side om \<noteq> 0 \<Longrightarrow> om_ok (om\<lparr>om_exit_reason := reason, om_exit_ref := r\<rparr>)"
  by (simp add: om_ok_def)

text \<open>A new working entry of \<open>shares\<close> that fit beside the shares already entered.\<close>

lemma submit_as_entry_ok:
  assumes "desk_ok locate (Suc n) subs (om, fe)" "direction dir"
    "unat (om_entry_shares om) + unat shares < 2 ^ 32"
    "submit_limit eng side price shares ts fe = (fe', ref)"
  shows "desk_ok locate n (subs(ref \<mapsto> (side, price, shares)))
    (om\<lparr>om_entry_dir := dir, om_entry_ref := ref\<rparr>, fe')"
proof -
  have ok: "om_ok om" "fill_run locate fe (om_log om) subs" "refs_left (Suc n) fe"
    using assms(1) by (simp_all add: desk_ok_def)
  have sub: "refs_left n fe'" "ref = fe_next_ref fe" using refs_left_submit [OF ok(3) assms(4)] by blast+
  have "filled ref (om_log om) = 0"
    unfolding sub(2) by (rule unfilled [OF ok(2) next_ref_fresh [OF ok(2)]])
  then have "entry_room (subs(ref \<mapsto> (side, price, shares)))
      (om\<lparr>om_entry_dir := dir, om_entry_ref := ref\<rparr>) (om_log om)"
    using assms(3) by (auto simp: entry_room_def intro!: exI [of _ "unat (om_entry_shares om)"])
  then show ?thesis
    using om_ok_entry [OF ok(1) assms(2)] sub(1) fill_run_submit [OF ok(2,3) assms(4)]
    by (simp add: desk_ok_def)
qed

lemma submit_as_exit_ok:
  assumes "desk_ok locate (Suc n) subs (om, fe)" "om_side om \<noteq> 0"
    "submit_limit eng side price shares ts fe = (fe', ref)"
  shows "desk_ok locate n (subs(ref \<mapsto> (side, price, shares)))
    (om\<lparr>om_exit_reason := reason, om_exit_ref := ref\<rparr>, fe')"
proof -
  have ok: "om_ok om" "fill_run locate fe (om_log om) subs" "refs_left (Suc n) fe"
    "entry_room subs om (om_log om)"
    using assms(1) by (simp_all add: desk_ok_def)
  have sub: "refs_left n fe'" "ref = fe_next_ref fe" using refs_left_submit [OF ok(3) assms(3)] by blast+
  have "subs ref = None" unfolding sub(2) by (rule next_ref_fresh [OF ok(2)])
  then have "entry_room (subs(ref \<mapsto> (side, price, shares)))
      (om\<lparr>om_exit_reason := reason, om_exit_ref := ref\<rparr>) (om_log om)"
    using ok(4) by (auto simp: entry_room_def)
  then show ?thesis
    using om_ok_exit [OF ok(1) assms(2)] sub(1) fill_run_submit [OF ok(2,3) assms(3)]
    by (simp add: desk_ok_def)
qed

lemma submit_exit_ok:
  assumes "desk_ok locate (Suc n) subs d"
  shows "\<exists>subs'. desk_ok locate n subs' (submit_exit eng reason ts d)"
proof -
  obtain om fe where d: "d = (om, fe)" by (cases d)
  show ?thesis
  proof (cases "om_side om = 0 \<or> om_qty om = 0 \<or> exit_price eng om = 0")
    case True
    then show ?thesis
      using desk_ok_mono [OF assms, of n] by (auto simp: d submit_exit_def Let_def)
  next
    case False
    obtain fe1 ref where sub: "submit_limit eng (if om_side om > 0 then SIDE_SELL else SIDE_BUY)
        (exit_price eng om) (om_qty om) ts fe = (fe1, ref)" by (metis prod.exhaust)
    from submit_as_exit_ok [OF assms [unfolded d] _ sub] False
    show ?thesis by (auto simp: d submit_exit_def Let_def sub dest: poll_fills_ok)
  qed
qed

lemma submit_entry_ok:
  assumes "desk_ok locate (Suc n) subs (om, fe)" "om_side om = 0" "direction dir"
    "submit_entry eng dir size_frac ts (om, fe) = Some d'"
  shows "\<exists>subs'. desk_ok locate n subs' d'"
proof -
  have flat: "om_entry_shares om = 0" using assms(1,2) by (simp add: desk_ok_def om_ok_def)
  show ?thesis
  proof (cases "d' = (om, fe)")
    case True
    then show ?thesis using desk_ok_mono [OF assms(1), of n] by auto
  next
    case False
    then obtain px shares fe1 ref where
      sub: "submit_limit eng (if dir > 0 then SIDE_BUY else SIDE_SELL) px shares ts fe = (fe1, ref)"
      "d' = clear_entry_if_gone (poll_fills (om\<lparr>om_entry_dir := dir, om_entry_ref := ref\<rparr>, fe1))"
      using assms(4)
      by (auto simp: submit_entry_def Let_def split: if_splits prod.splits option.splits bind_splits)
    have "unat (om_entry_shares om) + unat shares < 2 ^ 32" by (simp add: flat)
    from submit_as_entry_ok [OF assms(1,3) this sub(1)] show ?thesis
      unfolding sub(2) by (blast intro: clear_entry_ok poll_fills_ok)
  qed
qed

subsection \<open>Events\<close>

text \<open>Updates that touch no account.\<close>

lemma desk_ok_fields:
  "desk_ok locate n subs (om\<lparr>om_last_print := p\<rparr>, fe) = desk_ok locate n subs (om, fe)"
  "desk_ok locate n subs (om\<lparr>om_anchor := a\<rparr>, fe) = desk_ok locate n subs (om, fe)"
  "desk_ok locate n subs (om\<lparr>om_cur_bar := t\<rparr>, fe) = desk_ok locate n subs (om, fe)"
  "desk_ok locate n subs (om\<lparr>om_stop := x, om_tp := y, om_trail := z\<rparr>, fe) = desk_ok locate n subs (om, fe)"
  by (simp_all add: desk_ok_def om_ok_def entry_room_def)

lemma desk_ok_entry_dir: "desk_ok locate n subs (om, fe) \<Longrightarrow> direction dir \<Longrightarrow>
    desk_ok locate n subs (om\<lparr>om_entry_dir := dir\<rparr>, fe)"
  by (simp add: desk_ok_def om_ok_def entry_room_def)

lemma move_anchor_ok: "desk_ok locate n subs (move_anchor px om, fe) = desk_ok locate n subs (om, fe)"
  by (simp add: move_anchor_def desk_ok_fields)

lemma cancel_working_entry_frame [simp]:
  "om_side (fst (cancel_working_entry d)) = om_side (fst d)"
  by (simp add: cancel_working_entry_def split: prod.split)

lemma on_trade_print_ok:
  assumes "desk_ok locate (Suc n) subs d"
  shows "\<exists>subs'. desk_ok locate n subs' (on_trade_print eng price ts d)"
proof -
  obtain om fe where d: "d = (om, fe)" by (cases d)
  define om1 where "om1 = move_anchor (f32_of_u32 price) (om\<lparr>om_last_print := price\<rparr>)"
  have one: "desk_ok locate (Suc n) subs (om1, fe)"
    "desk_ok locate (Suc n) subs (om\<lparr>om_last_print := price\<rparr>, fe)"
    using assms by (simp_all add: d om1_def move_anchor_ok desk_ok_fields)
  have "\<exists>subs'. desk_ok locate n subs' (submit_exit eng r ts (cancel_working_entry (om1, fe)))" for r
    by (rule submit_exit_ok [OF cancel_working_entry_ok [OF one(1)]])
  then show ?thesis
    using one [THEN desk_ok_mono, of n]
    by (auto simp: d on_trade_print_def Let_def simp flip: om1_def split: option.split)
qed

lemma exit_on_signal_ok:
  assumes "desk_ok locate (Suc n) subs d"
  shows "\<exists>subs'. desk_ok locate n subs' (exit_on_signal eng ts d)"
  using submit_exit_ok [OF cancel_working_entry_ok [OF assms]]
    desk_ok_mono [OF cancel_working_entry_ok [OF assms], of n]
  by (auto simp: exit_on_signal_def Let_def)

lemma enter_ok:
  assumes "desk_ok locate (Suc n) subs d" "om_side (fst d) = 0" "direction dir"
    "enter eng dir size_frac ts d = Some d'"
  shows "\<exists>subs'. desk_ok locate n subs' d'"
proof -
  define d1 where "d1 = (if om_entry_dir (fst d) * dir < 0 then cancel_working_entry d else d)"
  obtain om fe where d1p: "d1 = (om, fe)" by (cases d1)
  have ok: "desk_ok locate (Suc n) subs (om, fe)" "om_side om = 0"
    using cancel_working_entry_ok [OF assms(1)] assms(1,2) d1p unfolding d1_def
    by (metis cancel_working_entry_frame fst_conv)+
  show ?thesis
  proof (cases "om_entry_ref om = 0")
    case True
    then have "submit_entry eng dir size_frac ts (om\<lparr>om_entry_dir := dir\<rparr>, fe) = Some d'"
      using assms(4) by (simp add: enter_def d1p flip: d1_def)
    from submit_entry_ok [OF desk_ok_entry_dir [OF ok(1) assms(3)] _ assms(3) this] ok(2)
    show ?thesis by simp
  next
    case False
    then have "d' = (om, fe)" using assms(4) by (simp add: enter_def d1p flip: d1_def)
    then show ?thesis using desk_ok_mono [OF ok(1), of n] by auto
  qed
qed

lemma arbitrate_ok:
  assumes "desk_ok locate (Suc n) subs d" "arbitrate eng sig ts d = Some d'"
  shows "\<exists>subs'. desk_ok locate n subs' d'"
proof -
  have "direction 1" "direction (- 1)" by (simp_all add: direction_def)
  then show ?thesis
    using assms(2) exit_on_signal_ok [OF assms(1), of eng ts] enter_ok [OF assms(1)]
      desk_ok_mono [OF assms(1), of n]
    by (auto simp: arbitrate_def Let_def split: if_splits)
qed

lemma repeg_cases:
  obtains (idle) "repeg eng ts (om, fe) = (om, fe)" | (gone) "repeg eng ts (om, fe) = (om\<lparr>om_entry_ref := 0\<rparr>, fe)"
    | (move) x fe1 ref where "om_entry_ref om \<noteq> 0" "fe_find (om_entry_ref om) fe = Some x"
      "submit_limit eng (if om_entry_dir om > 0 then SIDE_BUY else SIDE_SELL)
         (entry_price eng om (om_entry_dir om)) (oo_remaining x) ts
         (fst (fe_cancel (om_entry_ref om) fe)) = (fe1, ref)"
      "repeg eng ts (om, fe) = clear_entry_if_gone (poll_fills (om\<lparr>om_entry_ref := ref\<rparr>, fe1))"
proof (cases "om_entry_ref om \<noteq> 0 \<and> \<not> oc_entry_cross (om_cfg om)")
  case True
  show thesis
  proof (cases "fe_find (om_entry_ref om) fe")
    case None
    then show thesis using True gone by (simp add: repeg_def)
  next
    case (Some x)
    let ?best = "entry_price eng om (om_entry_dir om)"
    obtain fe1 ref where "submit_limit eng (if om_entry_dir om > 0 then SIDE_BUY else SIDE_SELL)
        ?best (oo_remaining x) ts (fst (fe_cancel (om_entry_ref om) fe)) = (fe1, ref)"
      by (metis prod.exhaust)
    then show thesis
      using True Some idle move [of x fe1 ref]
      by (cases "?best \<noteq> 0 \<and> ?best \<noteq> oo_price x") (simp_all add: repeg_def Let_def)
  qed
next
  case False
  then have "repeg eng ts (om, fe) = (om, fe)" unfolding repeg_def prod.case by (simp only: if_False)
  then show thesis by (rule idle)
qed

text \<open>The entry that is cancelled and submitted again has room for what is left of it.\<close>

lemma repeg_move_ok:
  assumes "desk_ok locate (Suc n) subs (om, fe)" "om_entry_ref om \<noteq> 0"
    "fe_find (om_entry_ref om) fe = Some x"
    "submit_limit eng s price (oo_remaining x) ts (fst (fe_cancel (om_entry_ref om) fe)) = (fe1, ref)"
  shows "desk_ok locate n (subs(ref \<mapsto> (s, price, oo_remaining x))) (om\<lparr>om_entry_ref := ref\<rparr>, fe1)"
proof -
  have ok: "om_ok om" "fill_run locate fe (om_log om) subs" "entry_room subs om (om_log om)"
    using assms(1) by (simp_all add: desk_ok_def)
  obtain side price' q base where q: "subs (om_entry_ref om) = Some (side, price', q)"
    "base + unat q < 2 ^ 32" "unat (om_entry_shares om) \<le> base + filled (om_entry_ref om) (om_log om)"
    using ok(3) assms(2) by (auto simp: entry_room_def)
  have "unat (oo_remaining x) + filled (om_entry_ref om) (om_log om) \<le> unat q"
    using open_order_filled [OF ok(2) assms(3)] q(1) by simp
  then have "filled (om_entry_ref om) (om_log om) + unat (oo_remaining x) \<le> unat q" by linarith
  then have fits: "unat (om_entry_shares om) + unat (oo_remaining x) < 2 ^ 32"
    by (rule room_chain [OF q(3) _ q(2)])
  have dir: "direction (om_entry_dir om)" using ok(1) assms(2) by (simp add: om_ok_def)
  have "desk_ok locate (Suc n) subs (om, fst (fe_cancel (om_entry_ref om) fe))"
    using desk_ok_cancel assms(1) by blast
  from submit_as_entry_ok [OF this dir fits assms(4)] show ?thesis by simp
qed

lemma repeg_ok:
  assumes "desk_ok locate (Suc n) subs d"
  shows "\<exists>subs'. desk_ok locate n subs' (repeg eng ts d)"
proof -
  obtain om fe where d: "d = (om, fe)" by (cases d)
  have less: "desk_ok locate n subs (om, fe)" using desk_ok_mono [OF assms, of n] d by simp
  show ?thesis
    unfolding d
  proof (cases rule: repeg_cases [of eng ts om fe])
    case gone
    then show "\<exists>subs'. desk_ok locate n subs' (repeg eng ts (om, fe))"
      using forget_entry_ok [OF less] by auto
  next
    case move
    from repeg_move_ok [OF assms [unfolded d] move(1-3)]
    show "\<exists>subs'. desk_ok locate n subs' (repeg eng ts (om, fe))"
      unfolding move(4) by (blast intro: clear_entry_ok poll_fills_ok)
  qed (use less in auto)
qed

lemma on_bar_ok:
  assumes "desk_ok locate (Suc (Suc n)) subs d" "on_bar eng t sig ts d = Some d'"
  shows "\<exists>subs'. desk_ok locate n subs' d'"
proof -
  obtain om fe where d: "d = (om, fe)" by (cases d)
  obtain d1 where d1: "arbitrate eng sig ts
      (om\<lparr>om_stop := sg_stop sig, om_tp := sg_tp sig, om_trail := sg_trail sig\<rparr>, fe) = Some d1"
    using assms(2) by (auto simp: on_bar_def d split: bind_splits)
  obtain om2 fe2 where two: "repeg eng ts d1 = (om2, fe2)" by (metis prod.exhaust)
  have d': "d' = (om2\<lparr>om_cur_bar := int t + 1\<rparr>, fe2)"
    using assms(2) d1 two by (simp add: on_bar_def d)
  obtain subs1 where "desk_ok locate (Suc n) subs1 d1"
    using arbitrate_ok [OF _ d1, of locate "Suc n" subs] assms(1) by (auto simp: d desk_ok_fields)
  then obtain subs2 where "desk_ok locate n subs2 (om2, fe2)" using repeg_ok two by metis
  then show ?thesis by (auto simp: d' desk_ok_fields)
qed

lemma om_finish_ok:
  assumes "desk_ok locate n subs d" "om_finish ts d = Some (om', fe')"
  shows "om_side om' = 0 \<and> om_qty om' = 0 \<and> om_entry_ref om' = 0 \<and>
    (\<forall>tr \<in> set (om_trades om'). trade_ok tr) \<and>
    (\<exists>eod. om_log om' = om_log (fst d) @ eod \<and> length eod = (if om_side (fst d) = 0 then 0 else 1))"
proof -
  obtain om0 fe0 where c: "cancel_working_entry d = (om0, fe0)" by (metis prod.exhaust)
  obtain om1 fe1 where e: "(if om_exit_ref om0 \<noteq> 0 \<and> fe_find (om_exit_ref om0) fe0 \<noteq> None
        then (om0\<lparr>om_exit_ref := 0\<rparr>, fst (fe_cancel (om_exit_ref om0) fe0)) else (om0, fe0)) = (om1, fe1)"
    by (metis prod.exhaust)
  have "desk_ok locate n subs (om0, fe0)" using cancel_working_entry_ok [OF assms(1)] c by simp
  then have "om_ok om0" by (simp add: desk_ok_def)
  then have ok: "om_ok om1" using e by (auto simp: om_ok_def split: if_splits)
  have same: "om_side om1 = om_side (fst d)" "om_log om1 = om_log (fst d)" "om_entry_ref om1 = 0"
    using c e by (auto simp: cancel_working_entry_def split: prod.splits if_splits)
  show ?thesis
  proof (cases "om_side om1 = 0")
    case True
    then have "unat (om_qty om1) + unat (om_exit_shares om1) = 0" using ok by (simp add: om_ok_def)
    then have "unat (om_qty om1) = 0" by linarith
    then have "om_qty om1 = 0" by (simp add: unat_eq_zero)
    moreover have "om' = om1" using assms(2) c e True by (auto simp: om_finish_def Let_def)
    ultimately show ?thesis using True ok same by (simp add: om_ok_def)
  next
    case False
    then have side: "direction (om_side om1)" "om_qty om1 \<noteq> 0" using ok by (auto simp: om_ok_def)
    then have pos: "om_qty om1 > 0" by (simp add: word_neq_0_conv)
    have sums: "unat (om_qty om1) + unat (om_exit_shares om1) = unat (om_entry_shares om1)"
      using ok by (simp add: om_ok_def)
    have "unat (om_exit_shares om1) + unat (om_qty om1) < 2 ^ 32"
      unfolding add.commute [of "unat (om_exit_shares om1)"] sums by simp
    then have "unat (om_exit_shares om1 + om_qty om1) = unat (om_entry_shares om1)"
      using add_fits sums by simp
    then have all_out: "om_exit_shares om1 + om_qty om1 = om_entry_shares om1" by (simp only: word_unat_eq_iff)
    have "unat (om_qty om1) \<noteq> 0" using side(2) by (simp add: unat_eq_zero)
    then have "unat (om_entry_shares om1) \<noteq> 0" using sums by linarith
    then have entered: "om_entry_shares om1 \<noteq> 0" by (simp add: unat_eq_zero)
    have trade: "trade_ok \<lparr>tr_side = om_side om1, tr_entry_t = et, tr_exit_t = xt,
        tr_entry_px = vwap en (om_entry_shares om1), tr_exit_px = vwap ex (om_entry_shares om1),
        tr_qty = f32_of_u32 (om_entry_shares om1),
        tr_pnl = f32_sub (f32_mul (f32_of_int (om_side om1)) (f32_sub ex en)) fees,
        tr_reason = rs\<rparr>" for et xt en ex fees rs
      using side(1) entered unfolding trade_ok_def by (intro conjI exI [of _ en] exI [of _ ex] exI [of _ fees]
        exI [of _ "om_entry_shares om1"]) simp_all
    obtain mark om2 where om': "om' = close_round_trip RSN_EOD om2"
      "om_side om2 = om_side om1" "om_entry_shares om2 = om_entry_shares om1"
      "om_exit_shares om2 = om_entry_shares om1" "om_trades om2 = om_trades om1"
      "om_log om2 = om_log om1 @ [\<lparr>fr_ts = ts, fr_ref = 0,
          fr_side = (if om_side om1 > 0 then SIDE_SELL else SIDE_BUY), fr_price = mark,
          fr_shares = om_qty om1, fr_maker = False\<rparr>]" "om_entry_ref om2 = 0"
      using assms(2) False pos unfolding om_finish_def c e prod.case Let_def
      by (auto simp: all_out same split: bind_splits)
    have "\<forall>tr \<in> set (om_trades om'). trade_ok tr"
      using ok trade by (auto simp: om'(1) close_round_trip_def om'(2-7) om_ok_def)
    then show ?thesis
      using False same(1,2) by (simp add: om'(1) close_round_trip_def om'(6,7))
  qed
qed

end
