(* ===== verification/DeskProps.thy ===== *)
theory DeskProps
  imports DeskInvariant
begin

text \<open>
  The properties of the order manager: its position accounts over every sequence of events,
  the close-out at the end of the data, and the fills it loses.
\<close>

text \<open>
  The events of a desk in a session. An event that submits orders needs synthetic references
  left for it: at most two for a bar, one for a print.
\<close>

inductive desk_run :: "u16 \<Rightarrow> om_config \<Rightarrow> desk \<Rightarrow> bool" for locate cfg where
  desk_start: "desk_run locate cfg (new_order_manager locate cfg, new_fill_engine locate)"
| desk_message: "desk_run locate cfg (om, fe) \<Longrightarrow> desk_run locate cfg (om, on_market_message eng m fe)"
| desk_poll: "desk_run locate cfg d \<Longrightarrow> desk_run locate cfg (poll_fills d)"
| desk_print: "desk_run locate cfg d \<Longrightarrow> refs_left 1 (snd d) \<Longrightarrow>
    desk_run locate cfg (on_trade_print eng price ts d)"
| desk_bar: "desk_run locate cfg d \<Longrightarrow> refs_left 2 (snd d) \<Longrightarrow> on_bar eng t sig ts d = Some d' \<Longrightarrow>
    desk_run locate cfg d'"

lemma desk_ok_left: "desk_ok locate n subs d \<Longrightarrow> refs_left m (snd d) \<Longrightarrow> desk_ok locate m subs d"
  by (auto simp: desk_ok_def)

lemma desk_run_ok: "desk_run locate cfg d \<Longrightarrow> \<exists>subs. desk_ok locate 0 subs d"
proof (induction rule: desk_run.induct)
  case desk_start
  have "om_ok (new_order_manager locate cfg)" "om_log (new_order_manager locate cfg) = []"
    "entry_room Map.empty (new_order_manager locate cfg) []"
    by (simp_all add: om_ok_def new_order_manager_def entry_room_def)
  moreover have "unat (fe_next_ref (new_fill_engine locate)) < 2 ^ LENGTH(64)" by (rule unsigned_less)
  then have "refs_left 0 (new_fill_engine locate)" by (simp add: refs_left_def)
  ultimately show ?case using run_start by (auto simp: desk_ok_def intro!: exI)
next
  case (desk_message om fe eng m)
  have "fe_next_ref (on_market_message eng m fe) = fe_next_ref fe"
    by (simp add: on_market_message_def handle_exec_def handle_remove_def raise_watermark_def Let_def
      split: option.split prod.split)
  then show ?case using desk_message.IH by (auto simp: desk_ok_def refs_left_def intro: run_market)
next
  case (desk_poll d)
  then show ?case using poll_fills_ok by blast
next
  case (desk_print d eng price ts)
  then show ?case using desk_ok_left on_trade_print_ok [of locate 0] by (metis One_nat_def)
next
  case (desk_bar d eng t sig ts d')
  then show ?case using desk_ok_left on_bar_ok [of locate 0] by (metis numeral_2_eq_2)
qed

text \<open>
  Property C19. The position accounts hold after every sequence of events: the shares entered
  are those held plus those exited, without wrap-around; the desk is flat exactly when it
  holds nothing; a flat desk has no exit working, and a working entry has a direction. Every
  fill handed over is logged and stays within a submitted order, and every recorded round
  trip sold as many shares as it bought.
\<close>

theorem position_accounts:
  assumes "desk_run locate cfg (om, fe)"
  shows "unat (om_qty om) + unat (om_exit_shares om) = unat (om_entry_shares om) \<and>
    (om_side om = 0 \<longleftrightarrow> om_qty om = 0) \<and> om_side om \<in> {- 1, 0, 1} \<and>
    (om_side om = 0 \<longrightarrow> om_entry_shares om = 0 \<and> om_exit_ref om = 0) \<and>
    (om_entry_ref om \<noteq> 0 \<longrightarrow> om_entry_dir om \<in> {- 1, 1}) \<and>
    (\<forall>tr \<in> set (om_trades om). trade_ok tr) \<and>
    (\<exists>subs. fill_run locate fe (om_log om) subs)"
proof -
  obtain subs where d: "om_ok om" "fill_run locate fe (om_log om) subs"
    using desk_run_ok [OF assms] by (auto simp: desk_ok_def)
  have "om_qty om = 0" if "om_side om = 0"
  proof -
    have "unat (om_qty om) + unat (om_exit_shares om) = 0" using d(1) that by (simp add: om_ok_def)
    then have "unat (om_qty om) = 0" by linarith
    then show ?thesis by (simp add: unat_eq_zero)
  qed
  then show ?thesis using d unfolding om_ok_def direction_def by auto
qed

text \<open>
  At the end of the data a desk is closed out: nothing is held, no entry works,
  and an open position becomes one more fill of all its shares and a round trip whose two
  sides have equal shares.
\<close>

theorem finish_closes_out:
  assumes "desk_run locate cfg (om, fe)" "om_finish ts (om, fe) = Some (om', fe')"
  shows "om_side om' = 0 \<and> om_qty om' = 0 \<and> om_entry_ref om' = 0 \<and>
    (\<forall>tr \<in> set (om_trades om'). trade_ok tr) \<and>
    (\<exists>eod. om_log om' = om_log om @ eod \<and> length eod = (if om_side om = 0 then 0 else 1))"
proof -
  obtain subs where "desk_ok locate 0 subs (om, fe)" using desk_run_ok [OF assms(1)] by blast
  from om_finish_ok [OF this assms(2)] show ?thesis by simp
qed

subsection \<open>Fills of one order\<close>

text \<open>Fills for neither working order only reach the log and the fees.\<close>

lemma foreign_fills:
  "fold apply_fill fs (om, fe) = (om', fe') \<Longrightarrow>
   \<forall>g \<in> set fs. fr_ref g \<noteq> om_entry_ref om \<and> fr_ref g \<noteq> om_exit_ref om \<Longrightarrow>
   om_qty om' = om_qty om \<and> om_entry_shares om' = om_entry_shares om \<and> om_log om' = om_log om @ fs"
proof (induction fs arbitrary: om)
  case (Cons g fs)
  define om1 where "om1 = charge_fee (f32_mul (f32_of_u32 (fr_price g)) (f32_of_u32 (fr_shares g)))
    (om\<lparr>om_log := om_log om @ [g]\<rparr>)"
  have om1: "om_entry_ref om1 = om_entry_ref om" "om_exit_ref om1 = om_exit_ref om"
    "om_log om1 = om_log om @ [g]" "om_qty om1 = om_qty om" "om_entry_shares om1 = om_entry_shares om"
    by (simp_all add: om1_def charge_fee_def Let_def)
  have "apply_fill g (om, fe) = (om1, fe)"
    using Cons.prems(2) om1(1,2) by (simp add: apply_fill_def Let_def flip: om1_def)
  then show ?case using Cons.IH [of om1] Cons.prems om1 by simp
qed simp

text \<open>
  Property C20. An entry that sweeps several levels and fills completely keeps only its first
  fill: the order is already gone when that fill is applied, so the manager forgets its
  reference and takes the remaining fills for strangers. They are logged and charged fees, but
  their shares never reach the position.
\<close>

theorem filled_entry_keeps_first_fill:
  assumes "submit_limit eng side px shares ts fe = (fe1, ref)" "fe_fills fe = []"
    "fe_fills fe1 = f # fs" "fe_find ref fe1 = None" "ref \<noteq> 0" "om_exit_ref om = 0"
    "poll_fills (om\<lparr>om_entry_ref := ref\<rparr>, fe1) = (om', fe')"
  shows "om_qty om' = om_qty om + fr_shares f \<and> om_entry_shares om' = om_entry_shares om + fr_shares f \<and>
    om_log om' = om_log om @ f # fs"
proof -
  have mine: "\<forall>g \<in> set (f # fs). fr_ref g = ref"
    using assms(1-3) by (auto simp: submit_limit_def Let_def split: prod.splits if_splits)
  have gone: "fe_find ref (fe1\<lparr>fe_fills := []\<rparr>) = None" using assms(4) by (simp add: fe_find_def)
  obtain om1 where om1: "apply_fill f (om\<lparr>om_entry_ref := ref\<rparr>, fe1\<lparr>fe_fills := []\<rparr>) =
        (om1, fe1\<lparr>fe_fills := []\<rparr>)" "om_entry_ref om1 = 0" "om_exit_ref om1 = om_exit_ref om"
      "om_qty om1 = om_qty om + fr_shares f" "om_entry_shares om1 = om_entry_shares om + fr_shares f"
      "om_log om1 = om_log om @ [f]"
    using mine gone by (auto simp: apply_fill_def entry_fill_def charge_fee_def Let_def)
  have "fold apply_fill fs (om1, fe1\<lparr>fe_fills := []\<rparr>) = (om', fe')"
    using assms(7) om1(1) by (simp add: poll_fills_def take_fills_def assms(3))
  from foreign_fills [OF this] show ?thesis using mine assms(5,6) om1 by simp
qed

subsection \<open>A sample desk\<close>

text \<open>Two ask levels of 60 shares at prices 4 and 5, and a desk that crosses up to 6.\<close>

definition two_level_book :: order_book where
  "two_level_book = \<lparr>ob_max_price = 7, ob_bid = replicate 8 no_level,
     ob_ask = (replicate 8 no_level)[4 := \<lparr>pl_shares = 60, pl_orders = 1\<rparr>,
       5 := \<lparr>pl_shares = 60, pl_orders = 1\<rparr>],
     ob_best_bid = 0, ob_best_ask = 4, ob_scan_count = 0, ob_scan_steps = 0\<rparr>"

definition two_level_engine :: book_engine where
  "two_level_engine = \<lparr>be_price_levels = 8, be_refs = \<lparr>rt_keys = [0], rt_vals =
       [\<lparr>ov_price = 0, ov_shares = 0, ov_locate = 0, ov_side = 0, ov_pad = 0\<rparr>],
       rt_cap = 1, rt_mask = 0, rt_size = 0, rt_stats = no_table_stats\<rparr>,
     be_books = [1 \<mapsto> two_level_book], be_ctr = no_counters, be_status = Ignored\<rparr>"

definition crossing_config :: om_config where
  "crossing_config = \<lparr>oc_fee = f_zero, oc_equity0 = f32_of_int 600, oc_entry_cross = True,
     oc_cross_ticks = 2\<rparr>"

definition buy_signal :: signals where
  "buy_signal = no_signals\<lparr>sg_el := True\<rparr>"

definition start_desk :: desk where
  "start_desk = (new_order_manager 1 crossing_config, new_fill_engine 1)"

definition bought_desk :: desk where
  "bought_desk = the (on_bar two_level_engine 0 buy_signal 7 start_desk)"

lemma bought_desk_bar: "on_bar two_level_engine 0 buy_signal 7 start_desk = Some bought_desk"
proof -
  have "on_bar two_level_engine 0 buy_signal 7 start_desk \<noteq> None" by code_simp
  then show ?thesis by (auto simp: bought_desk_def)
qed

lemma bought_desk_run: "desk_run 1 crossing_config bought_desk"
proof -
  have "desk_run 1 crossing_config start_desk" unfolding start_desk_def by (rule desk_start)
  moreover have "refs_left 2 (snd start_desk)"
    by (simp add: refs_left_def start_desk_def new_fill_engine_def)
  ultimately show ?thesis by (rule desk_bar [OF _ _ bought_desk_bar])
qed

theorem position_accounts_witness:
  "om_qty (fst bought_desk) = 60 \<and> om_exit_shares (fst bought_desk) = 0 \<and>
   unat (om_qty (fst bought_desk)) + unat (om_exit_shares (fst bought_desk)) =
     unat (om_entry_shares (fst bought_desk)) \<and> om_side (fst bought_desk) \<in> {- 1, 0, 1}"
proof -
  obtain om fe where d: "bought_desk = (om, fe)" by (metis prod.exhaust)
  have "om_qty (fst bought_desk) = 60 \<and> om_exit_shares (fst bought_desk) = 0" by code_simp
  then show ?thesis using position_accounts [OF bought_desk_run [unfolded d]] unfolding d by auto
qed

theorem finish_closes_out_witness:
  "\<exists>om fe. om_finish 9 bought_desk = Some (om, fe) \<and> length (om_trades om) = 1 \<and> om_qty om = 0"
proof -
  obtain om fe where d: "bought_desk = (om, fe)" by (metis prod.exhaust)
  have "case om_finish 9 bought_desk of None \<Rightarrow> False | Some d' \<Rightarrow> length (om_trades (fst d')) = 1"
    by code_simp
  then obtain om' fe' where f: "om_finish 9 (om, fe) = Some (om', fe')" "length (om_trades om') = 1"
    unfolding d by (auto split: option.splits)
  then show ?thesis using finish_closes_out [OF bought_desk_run [unfolded d] f(1)] d by auto
qed

text \<open>The sample entry buys 60 shares at 4 and 40 at 5; the position is 60.\<close>

theorem filled_entry_keeps_first_fill_witness:
  "case submit_limit two_level_engine SIDE_BUY 6 100 7 (new_fill_engine 1) of (fe1, ref) \<Rightarrow>
     map fr_shares (fe_fills fe1) = [60, 40] \<and>
     om_qty (fst (poll_fills ((fst start_desk)\<lparr>om_entry_ref := ref\<rparr>, fe1))) = 60"
proof -
  obtain fe1 ref where sub: "submit_limit two_level_engine SIDE_BUY 6 100 7 (new_fill_engine 1) = (fe1, ref)"
    by (metis prod.exhaust)
  have "case submit_limit two_level_engine SIDE_BUY 6 100 7 (new_fill_engine 1) of (fe1, ref) \<Rightarrow>
      map fr_shares (fe_fills fe1) = [60, 40] \<and> fe_find ref fe1 = None \<and> ref \<noteq> 0"
    by code_simp
  then have fe1: "map fr_shares (fe_fills fe1) = [60, 40]" "fe_find ref fe1 = None" "ref \<noteq> 0"
    unfolding sub by auto
  obtain f fs where fills: "fe_fills fe1 = f # fs" "fr_shares f = 60" using fe1(1) by auto
  obtain om' fe' where poll: "poll_fills ((fst start_desk)\<lparr>om_entry_ref := ref\<rparr>, fe1) = (om', fe')"
    by (metis prod.exhaust)
  have start: "fe_fills (new_fill_engine 1) = []" "om_exit_ref (fst start_desk) = 0"
    "om_qty (fst start_desk) = 0"
    by (simp_all add: new_fill_engine_def start_desk_def new_order_manager_def)
  show ?thesis
    using filled_entry_keeps_first_fill [OF sub start(1) fills(1) fe1(2,3) start(2) poll] fe1(1) start(3) fills(2)
    by (simp add: sub poll)
qed

end
