(* ===== verification/DeskClock.thy ===== *)
theory DeskClock
  imports DeskProps
begin

text \<open>
  The bar clock of a desk: fills, prints, bars and the close-out record the round trips in the
  order of the bars in which they were entered and left.
\<close>

lemma trips_fields [simp]:
  "trips k (om\<lparr>om_entry_ref := r\<rparr>) = trips k om" "trips k (om\<lparr>om_entry_dir := i\<rparr>) = trips k om"
  "trips k (om\<lparr>om_exit_ref := r\<rparr>) = trips k om" "trips k (om\<lparr>om_exit_reason := i\<rparr>) = trips k om"
  "trips k (om\<lparr>om_last_print := p\<rparr>) = trips k om" "trips k (om\<lparr>om_anchor := x\<rparr>) = trips k om"
  "trips k (om\<lparr>om_stop := x, om_tp := y, om_trail := z\<rparr>) = trips k om"
  "trips k (om\<lparr>om_entry_dir := i, om_entry_ref := r\<rparr>) = trips k om"
  "trips k (om\<lparr>om_exit_reason := i, om_exit_ref := r\<rparr>) = trips k om"
  by (cases "om_side om = 0"; simp add: trips_def)+

lemma trips_start: "trips 0 (new_order_manager locate cfg)"
  by (simp add: trips_def new_order_manager_def)

lemma trips_tick: "trips k om \<Longrightarrow> trips (Suc k) (om\<lparr>om_cur_bar := int k + 1\<rparr>)"
  by (cases "om_side om = 0") (auto simp: trips_def sorted_append)

lemma trips_clear [simp]: "trips k (fst (clear_entry_if_gone d)) = trips k (fst d)"
  by (simp add: clear_entry_if_gone_def split: prod.split)

lemma trips_cancel [simp]: "trips k (fst (cancel_working_entry d)) = trips k (fst d)"
  by (simp add: cancel_working_entry_def split: prod.split)

lemma trips_anchor [simp]: "trips k (move_anchor px om) = trips k om"
  by (simp add: move_anchor_def)

lemma submit_exit_trips:
  assumes "desk_ok locate (Suc n) subs d" "trips k (fst d)"
  shows "trips k (fst (submit_exit eng reason ts d))"
proof -
  obtain om fe where d: "d = (om, fe)" by (cases d)
  show ?thesis
  proof (cases "om_side om = 0 \<or> om_qty om = 0 \<or> exit_price eng om = 0")
    case True
    then show ?thesis using assms(2) by (auto simp: d submit_exit_def Let_def)
  next
    case False
    obtain fe1 ref where sub: "submit_limit eng (if om_side om > 0 then SIDE_SELL else SIDE_BUY)
        (exit_price eng om) (om_qty om) ts fe = (fe1, ref)" by (metis prod.exhaust)
    from submit_as_exit_ok [OF assms(1) [unfolded d] _ sub] False have
      "desk_ok locate n (subs(ref \<mapsto> (if om_side om > 0 then SIDE_SELL else SIDE_BUY, exit_price eng om, om_qty om)))
         (om\<lparr>om_exit_reason := reason, om_exit_ref := ref\<rparr>, fe1)" by blast
    from poll_fills_trips [OF this, of k] show ?thesis
      using False assms(2) by (auto simp: d submit_exit_def Let_def sub)
  qed
qed

lemma submit_entry_trips:
  assumes "desk_ok locate (Suc n) subs (om, fe)" "om_side om = 0" "direction dir" "trips k om"
    "submit_entry eng dir size_frac ts (om, fe) = Some d'"
  shows "trips k (fst d')"
proof -
  have flat: "om_entry_shares om = 0" using assms(1,2) by (simp add: desk_ok_def om_ok_def)
  show ?thesis
  proof (cases "d' = (om, fe)")
    case False
    then obtain px shares fe1 ref where
      sub: "submit_limit eng (if dir > 0 then SIDE_BUY else SIDE_SELL) px shares ts fe = (fe1, ref)"
      "d' = clear_entry_if_gone (poll_fills (om\<lparr>om_entry_dir := dir, om_entry_ref := ref\<rparr>, fe1))"
      using assms(5)
      by (auto simp: submit_entry_def Let_def split: if_splits prod.splits option.splits bind_splits)
    have "unat (om_entry_shares om) + unat shares < 2 ^ 32" by (simp add: flat)
    from poll_fills_trips [OF submit_as_entry_ok [OF assms(1,3) this sub(1)], of k] show ?thesis
      using assms(4) by (simp add: sub(2))
  qed (use assms(4) in simp)
qed

lemma on_trade_print_trips:
  assumes "desk_ok locate (Suc n) subs d" "trips k (fst d)"
  shows "trips k (fst (on_trade_print eng price ts d))"
proof -
  obtain om fe where d: "d = (om, fe)" by (cases d)
  define om1 where "om1 = move_anchor (f32_of_u32 price) (om\<lparr>om_last_print := price\<rparr>)"
  have one: "desk_ok locate (Suc n) subs (om1, fe)" "trips k om1"
    using assms by (simp_all add: d om1_def move_anchor_ok desk_ok_fields)
  have "trips k (fst (submit_exit eng r ts (cancel_working_entry (om1, fe))))" for r
    by (rule submit_exit_trips [OF cancel_working_entry_ok [OF one(1)]]) (simp add: one(2))
  then show ?thesis
    using one assms(2) by (auto simp: d on_trade_print_def Let_def simp flip: om1_def split: option.split)
qed

lemma exit_on_signal_trips:
  assumes "desk_ok locate (Suc n) subs d" "trips k (fst d)"
  shows "trips k (fst (exit_on_signal eng ts d))"
  using submit_exit_trips [OF cancel_working_entry_ok [OF assms(1)], of k] assms(2)
  by (auto simp: exit_on_signal_def Let_def)

lemma enter_trips:
  assumes "desk_ok locate (Suc n) subs d" "om_side (fst d) = 0" "direction dir" "trips k (fst d)"
    "enter eng dir size_frac ts d = Some d'"
  shows "trips k (fst d')"
proof -
  define d1 where "d1 = (if om_entry_dir (fst d) * dir < 0 then cancel_working_entry d else d)"
  obtain om fe where d1p: "d1 = (om, fe)" by (cases d1)
  have ok: "desk_ok locate (Suc n) subs (om, fe)" "om_side om = 0" "trips k om"
    using cancel_working_entry_ok [OF assms(1)] assms(1,2,4) d1p unfolding d1_def
    by (metis cancel_working_entry_frame trips_cancel fst_conv)+
  show ?thesis
  proof (cases "om_entry_ref om = 0")
    case True
    then have "submit_entry eng dir size_frac ts (om\<lparr>om_entry_dir := dir\<rparr>, fe) = Some d'"
      using assms(5) by (simp add: enter_def d1p flip: d1_def)
    from submit_entry_trips [OF desk_ok_entry_dir [OF ok(1) assms(3)] _ assms(3) _ this, of k] ok
    show ?thesis by simp
  next
    case False
    then have "d' = (om, fe)" using assms(5) by (simp add: enter_def d1p flip: d1_def)
    then show ?thesis using ok(3) by simp
  qed
qed

lemma arbitrate_trips:
  assumes "desk_ok locate (Suc n) subs d" "trips k (fst d)" "arbitrate eng sig ts d = Some d'"
  shows "trips k (fst d')"
proof -
  have "d' = exit_on_signal eng ts d \<or> d' = d \<or> om_side (fst d) = 0 \<and>
      (enter eng 1 (sg_size sig) ts d = Some d' \<or> enter eng (- 1) (sg_size sig) ts d = Some d')"
    using assms(3) unfolding arbitrate_def Let_def by (simp split: if_split_asm)
  moreover have "direction 1" "direction (- 1)" by (simp_all add: direction_def)
  ultimately consider "d' = exit_on_signal eng ts d" | "d' = d"
    | dir where "om_side (fst d) = 0" "direction dir" "enter eng dir (sg_size sig) ts d = Some d'"
    by blast
  then show ?thesis
  proof cases
    case 1
    then show ?thesis using exit_on_signal_trips [OF assms(1,2)] by simp
  next
    case 3
    then show ?thesis using enter_trips [OF assms(1) 3(1,2) assms(2) 3(3)] by simp
  qed (use assms(2) in simp)
qed

lemma repeg_trips:
  assumes "desk_ok locate (Suc n) subs (om, fe)" "trips k om"
  shows "trips k (fst (repeg eng ts (om, fe)))"
proof (cases rule: repeg_cases [of eng ts om fe])
  case move
  from poll_fills_trips [OF repeg_move_ok [OF assms(1) move(1-3)], of k] show ?thesis
    unfolding move(4) using assms(2) by simp
qed (use assms(2) in simp_all)

lemma on_bar_trips:
  assumes "desk_ok locate (Suc (Suc n)) subs d" "trips t (fst d)" "on_bar eng t sig ts d = Some d'"
  shows "trips (Suc t) (fst d')"
proof -
  obtain om fe where d: "d = (om, fe)" by (cases d)
  let ?om = "om\<lparr>om_stop := sg_stop sig, om_tp := sg_tp sig, om_trail := sg_trail sig\<rparr>"
  obtain om1 fe1 where d1: "arbitrate eng sig ts (?om, fe) = Some (om1, fe1)"
    using assms(3) by (auto simp: on_bar_def d split: bind_splits)
  obtain om2 fe2 where two: "repeg eng ts (om1, fe1) = (om2, fe2)" by (metis prod.exhaust)
  have d': "d' = (om2\<lparr>om_cur_bar := int t + 1\<rparr>, fe2)"
    using assms(3) d1 two by (simp add: on_bar_def d)
  have start: "desk_ok locate (Suc (Suc n)) subs (?om, fe)" "trips t (fst (?om, fe))"
    using assms(1,2) by (simp_all add: d desk_ok_fields)
  obtain subs1 where "desk_ok locate (Suc n) subs1 (om1, fe1)" using arbitrate_ok [OF start(1) d1] by blast
  then have "trips t (fst (repeg eng ts (om1, fe1)))"
    by (rule repeg_trips) (use arbitrate_trips [OF start d1] in simp)
  then show ?thesis using trips_tick [of t om2] by (simp add: two d')
qed

lemma om_finish_trips:
  assumes "trips k (fst d)" "om_finish ts d = Some (om', fe')"
  shows "sorted (0 # trade_bars (om_trades om') @ [int k])"
proof -
  obtain om0 fe0 where c: "cancel_working_entry d = (om0, fe0)" by (metis prod.exhaust)
  obtain om1 fe1 where e: "(if om_exit_ref om0 \<noteq> 0 \<and> fe_find (om_exit_ref om0) fe0 \<noteq> None
        then (om0\<lparr>om_exit_ref := 0\<rparr>, fst (fe_cancel (om_exit_ref om0) fe0)) else (om0, fe0)) = (om1, fe1)"
    by (metis prod.exhaust)
  have "trips k om0" using assms(1) trips_cancel [of k d] by (simp add: c)
  then have t: "trips k om1" using e by (auto split: if_splits)
  show ?thesis
  proof (cases "om_side om1 \<noteq> 0 \<and> om_qty om1 > 0")
    case False
    then have "om' = om1" using assms(2) unfolding om_finish_def c e prod.case Let_def
      by (simp only: if_False option.inject prod.inject)
    then show ?thesis using t by (auto simp: trips_def sorted_append split: if_splits)
  next
    case True
    then have "trade_bars (om_trades om') = trade_bars (om_trades om1) @ [om_entry_bar om1, om_cur_bar om1]"
      using assms(2) unfolding om_finish_def c e prod.case Let_def
      by (auto simp: close_round_trip_def split: bind_splits)
    then show ?thesis using t True by (auto simp: trips_def sorted_append)
  qed
qed

end
