(* ===== verification/Session.thy ===== *)
theory Session
  imports OrderManager BookEngine ItchParser
begin

text \<open>
  One trading session of \<open>src/sw/trade/session.hpp\<close>: the loop over a framed stream that drives
  the fill engine, the book engine, the order manager, the bar builder and the interpreter, in
  that order for each message, and the summary it returns. The ways in which the code does not
  return a result are faults: the two invalid arguments it rejects, a fault of the interpreter,
  a float that an integer conversion cannot represent, an \<open>int\<close> that overflows (the bars one trade
  completes, the counts of fills and wins), and a book engine that does not answer.
\<close>

datatype session_fault = Bad_bar_ns | Bad_params | Vm_fault vm_fault | Bad_cast | Int_overflow | No_answer | Bad_read

type_synonym 'a session_outcome = "session_fault + 'a"

definition session_then :: "'a session_outcome \<Rightarrow> ('a \<Rightarrow> 'b session_outcome) \<Rightarrow> 'b session_outcome" where
  "session_then r f = (case r of Inl e \<Rightarrow> Inl e | Inr x \<Rightarrow> f x)"

definition expect :: "session_fault \<Rightarrow> 'a option \<Rightarrow> 'a session_outcome" where
  "expect e r = (case r of None \<Rightarrow> Inl e | Some x \<Rightarrow> Inr x)"

definition vm_outcome :: "'a vm_result \<Rightarrow> 'a session_outcome" where
  "vm_outcome r = (case r of Inl e \<Rightarrow> Inl (Vm_fault e) | Inr x \<Rightarrow> Inr x)"

record session_config =
  sc_locate :: u16
  sc_bar_ns :: u64
  sc_om :: om_config
  sc_params :: "f32 list"

record session_result =
  sr_bars :: bar_series
  sr_equity :: "f32 list"
  sr_trades :: "trade_rec list"
  sr_fills :: "fill_rec list"
  sr_final_equity :: f32
  sr_total_return :: f32
  sr_max_dd :: f32
  sr_maker_fills :: nat
  sr_taker_fills :: nat
  sr_wins :: nat
  sr_messages :: u64
  sr_malformed :: u64
  sr_truncated :: bool
  sr_counters :: counters

text \<open>The objects on the stack of \<open>run_session\<close>.\<close>

record session =
  ss_eng :: book_engine
  ss_desk :: desk
  ss_builder :: bar_builder
  ss_vm :: strategy_vm
  ss_next_bar :: nat
  ss_last_ts :: u64
  ss_equity :: "f32 list"
  ss_messages :: u64
  ss_malformed :: u64

subsection \<open>Completed bars\<close>

definition close_bar :: "(f32 \<Rightarrow> f32) \<Rightarrow> u64 \<Rightarrow> session \<Rightarrow> session session_outcome" where
  "close_bar lg ts s =
     (let bars = bb_bars (ss_builder s); t = ss_next_bar s; ctx = om_ctx (fst (ss_desk s)) bars t in
      session_then (vm_outcome (vm_step lg bars t ctx (ss_vm s))) (\<lambda>(vm, sig).
        session_then (expect Bad_cast (on_bar (ss_eng s) t sig ts (ss_desk s))) (\<lambda>d.
          Inr (s\<lparr>ss_vm := vm, ss_desk := d, ss_next_bar := t + 1,
                 ss_equity := ss_equity s @ [equity (fst d) (bs_c bars ! t)]\<rparr>))))"

text \<open>\<open>n\<close> rounds of the loop; it runs up to the \<open>int\<close> size of the series.\<close>

fun close_bars :: "(f32 \<Rightarrow> f32) \<Rightarrow> u64 \<Rightarrow> nat \<Rightarrow> session \<Rightarrow> session session_outcome" where
  "close_bars lg ts 0 s = Inr s"
| "close_bars lg ts (Suc n) s = session_then (close_bar lg ts s) (close_bars lg ts n)"

definition process_bars :: "(f32 \<Rightarrow> f32) \<Rightarrow> u64 \<Rightarrow> session \<Rightarrow> session session_outcome" where
  "process_bars lg ts s = close_bars lg ts (nat (series_size (bb_bars (ss_builder s)) - int (ss_next_bar s))) s"

subsection \<open>Messages\<close>

text \<open>A trade print of the traded symbol: protective exits, the bar clock, completed bars.\<close>

definition on_print :: "(f32 \<Rightarrow> f32) \<Rightarrow> u64 \<Rightarrow> u32 \<Rightarrow> u32 \<Rightarrow> session \<Rightarrow> session session_outcome" where
  "on_print lg ts price shares s =
     (let d = on_trade_print (ss_eng s) price ts (ss_desk s) in
      session_then (expect Int_overflow (on_trade ts price shares (ss_builder s))) (\<lambda>(bb, done).
        let s1 = s\<lparr>ss_desk := d, ss_builder := bb\<rparr> in
        if done > 0 then process_bars lg ts s1 else Inr s1))"

text \<open>The fill engine sees the message before the book does, then the fills are polled.\<close>

definition handle_message ::
  "(f32 \<Rightarrow> f32) \<Rightarrow> u16 \<Rightarrow> decoded_message \<Rightarrow> session \<Rightarrow> session session_outcome"
where
  "handle_message lg locate m s =
     (case ss_desk s of (om, fe) \<Rightarrow>
        session_then (expect No_answer (apply_msg m (ss_eng s))) (\<lambda>(eng, _, er).
          let s1 = s\<lparr>ss_last_ts := dm_timestamp m, ss_eng := eng,
                     ss_desk := poll_fills (om, on_market_message (ss_eng s) m fe)\<rparr> in
          if er_contributes er \<and> er_locate er = locate
          then on_print lg (dm_timestamp m) (er_price er) (er_shares er) s1
          else Inr s1))"

definition session_body :: "(f32 \<Rightarrow> f32) \<Rightarrow> u16 \<Rightarrow> bytes \<Rightarrow> session \<Rightarrow> session session_outcome" where
  "session_body lg locate body s =
     session_then (expect Bad_read (decode_body body)) (\<lambda>m.
       let s1 = s\<lparr>ss_messages := ss_messages s + 1\<rparr> in
       if dm_type m = Unknown then Inr (s1\<lparr>ss_malformed := ss_malformed s1 + 1\<rparr>)
       else handle_message lg locate m s1)"

text \<open>The loop over the frames; it returns the offset where it stops.\<close>

function session_loop ::
  "(f32 \<Rightarrow> f32) \<Rightarrow> u16 \<Rightarrow> bytes \<Rightarrow> nat \<Rightarrow> session \<Rightarrow> (session \<times> nat) session_outcome"
where
  "session_loop lg locate d off s =
     (if off + 2 \<le> length d then
        session_then (expect Bad_read (be16_at d off)) (\<lambda>bl.
          let n = unat bl in
          if off + 2 + n > length d then Inr (s, off)
          else session_then (expect Bad_read (read_at d (off + 2) n)) (\<lambda>body.
            session_then (session_body lg locate body s) (session_loop lg locate d (off + 2 + n))))
      else Inr (s, off))"
  by pat_completeness auto
termination
  by (relation "measure (\<lambda>(lg, locate, d, off, s). length d - off)") auto

declare session_loop.simps [simp del]

subsection \<open>The session\<close>

definition book_price_levels :: u32 where "book_price_levels = 1000000"
definition book_ref_capacity :: u32 where "book_ref_capacity = 2 ^ 20"

definition new_session :: "strat_program \<Rightarrow> session_config \<Rightarrow> session session_outcome" where
  "new_session prog sc =
     (if sc_bar_ns sc = 0 then Inl Bad_bar_ns
      else session_then (expect No_answer (engine_init book_price_levels book_ref_capacity)) (\<lambda>eng.
        session_then (expect Bad_params (new_vm prog (sc_params sc))) (\<lambda>vm.
          Inr \<lparr>ss_eng = eng, ss_desk = (new_order_manager (sc_locate sc) (sc_om sc),
                 new_fill_engine (sc_locate sc)),
               ss_builder = new_builder (sc_bar_ns sc), ss_vm = vm, ss_next_bar = 0,
               ss_last_ts = 0, ss_equity = [], ss_messages = 0, ss_malformed = 0\<rparr>)))"

text \<open>The running peak and the largest drop from it, relative to it.\<close>

definition drawdown_step :: "f32 \<times> f32 \<Rightarrow> f32 \<Rightarrow> f32 \<times> f32" where
  "drawdown_step = (\<lambda>(peak, max_dd) e.
     (let peak' = (if f32_lt peak e then e else peak) in
      if f32_pos peak'
      then (let dd = f32_div (f32_sub peak' e) peak' in
        (peak', if f32_lt max_dd dd then dd else max_dd))
      else (peak', max_dd)))"

definition max_drawdown :: "f32 list \<Rightarrow> f32" where
  "max_drawdown eq = snd (foldl drawdown_step (f_zero, f_zero) eq)"

definition summary :: "session_config \<Rightarrow> bool \<Rightarrow> session \<Rightarrow> order_manager \<Rightarrow> session_result" where
  "summary sc is_cut s om =
     \<lparr>sr_bars = bb_bars (ss_builder s), sr_equity = ss_equity s, sr_trades = om_trades om,
      sr_fills = om_log om, sr_final_equity = om_cash om,
      sr_total_return = (if f32_nonzero (oc_equity0 (sc_om sc))
        then f32_sub (f32_div (om_cash om) (oc_equity0 (sc_om sc))) f_one else f_zero),
      sr_max_dd = max_drawdown (ss_equity s),
      sr_maker_fills = length (filter fr_maker (om_log om)),
      sr_taker_fills = length (filter (\<lambda>f. \<not> fr_maker f) (om_log om)),
      sr_wins = length (filter (\<lambda>t. f32_pos (tr_pnl t)) (om_trades om)),
      sr_messages = ss_messages s, sr_malformed = ss_malformed s, sr_truncated = is_cut,
      sr_counters = be_ctr (ss_eng s)\<rparr>"

text \<open>The three counts of the summary are \<open>int\<close>.\<close>

definition counts_fit :: "session_result \<Rightarrow> bool" where
  "counts_fit r \<longleftrightarrow> sr_maker_fills r < 2 ^ 31 \<and> sr_taker_fills r < 2 ^ 31 \<and> sr_wins r < 2 ^ 31"

definition close_session :: "(f32 \<Rightarrow> f32) \<Rightarrow> session_config \<Rightarrow> bool \<Rightarrow> session \<Rightarrow> session_result session_outcome" where
  "close_session lg sc is_cut s =
     (case flush (ss_builder s) of (bb, done) \<Rightarrow>
        let s1 = s\<lparr>ss_builder := bb\<rparr> in
        session_then (if done > 0 then process_bars lg (ss_last_ts s1) s1 else Inr s1) (\<lambda>s2.
          session_then (expect Bad_cast (om_finish (ss_last_ts s2) (ss_desk s2))) (\<lambda>(om, fe).
            if counts_fit (summary sc is_cut s2 om) then Inr (summary sc is_cut s2 om)
            else Inl Int_overflow)))"

definition run_session ::
  "(f32 \<Rightarrow> f32) \<Rightarrow> bytes \<Rightarrow> strat_program \<Rightarrow> session_config \<Rightarrow> session_result session_outcome"
where
  "run_session lg d prog sc =
     session_then (new_session prog sc) (\<lambda>s0.
       session_then (session_loop lg (sc_locate sc) d 0 s0) (\<lambda>(s, off).
         close_session lg sc (off \<noteq> length d) s))"

end
