(* ===== verification/SessionRun.thy ===== *)
theory SessionRun
  imports Session DeskClock BarProps VmSafety EngineProps
begin

text \<open>
  The loop of a session as a run over the bodies of its frames, and what each body keeps: the
  accounts of the desk, the shape of the bars and of the interpreter, and the book engine's
  sequence of applied messages.
\<close>

subsection \<open>Outcomes\<close>

lemma session_then_simps [simp]:
  "session_then (Inl e) f = Inl e" "session_then (Inr x) f = f x"
  by (simp_all add: session_then_def)

lemma session_then_Inr: "session_then r f = Inr y \<longleftrightarrow> (\<exists>x. r = Inr x \<and> f x = Inr y)"
  by (cases r) auto

lemma expect_simps [simp]: "expect e None = Inl e" "expect e (Some x) = Inr x"
  by (simp_all add: expect_def)

lemma expect_Inr: "expect e r = Inr x \<longleftrightarrow> r = Some x"
  by (cases r) auto

lemma vm_outcome_Inr: "vm_outcome r = Inr x \<longleftrightarrow> r = Inr x"
  by (cases r) (auto simp: vm_outcome_def)

lemmas session_inversion = session_then_Inr expect_Inr vm_outcome_Inr

lemma session_then_assoc:
  "session_then (session_then r f) g = session_then r (\<lambda>x. session_then (f x) g)"
  by (cases r) simp_all

subsection \<open>The frames of a session\<close>

text \<open>Unlike \<open>parse_stream\<close> the session goes on after an empty frame.\<close>

fun session_frames :: "bytes \<Rightarrow> bytes list \<times> bytes" where
  "session_frames (a # b # r) =
     (let n = unat (be16 [a, b]) in
      if length r < n then ([], a # b # r)
      else (case session_frames (drop n r) of (bodies, rest) \<Rightarrow> (take n r # bodies, rest)))"
| "session_frames d = ([], d)"

fun session_bodies :: "(f32 \<Rightarrow> f32) \<Rightarrow> u16 \<Rightarrow> bytes list \<Rightarrow> session \<Rightarrow> session session_outcome" where
  "session_bodies lg locate [] s = Inr s"
| "session_bodies lg locate (b # bs) s =
     session_then (session_body lg locate b s) (session_bodies lg locate bs)"

lemma session_frames_short: "length d < 2 \<Longrightarrow> session_frames d = ([], d)"
  by (cases d rule: session_frames.cases) auto

lemma session_frames_split:
  "session_frames d = (bodies, rest) \<Longrightarrow> d = framed bodies @ rest \<and>
     list_all (\<lambda>b. length b < 65536) bodies"
proof (induction d arbitrary: bodies rest rule: session_frames.induct)
  case (1 a b r)
  let ?n = "unat (be16 [a, b])"
  show ?case
  proof (cases "length r < ?n")
    case False
    obtain bs where bs: "session_frames (drop ?n r) = (bs, rest)" "bodies = take ?n r # bs"
      using 1(2) False by (auto simp: Let_def split: prod.splits)
    have d: "drop ?n r = framed bs @ rest" and all: "list_all (\<lambda>b. length b < 65536) bs"
      using 1(1) [OF refl False bs(1)] by blast+
    have "frame (take ?n r) = a # b # take ?n r"
      using False by (simp add: frame_def min_absorb2 store_be16_be16)
    then have "a # b # r = frame (take ?n r) @ drop ?n r" by simp
    moreover have "length (take ?n r) < 65536"
      by (rule le_less_trans [of _ ?n]) simp_all
    ultimately show ?thesis using bs(2) d all by simp
  qed (use 1(2) in \<open>auto simp: Let_def\<close>)
qed (auto simp: framed_def)

lemma session_frames_rest:
  "session_frames d = (bodies, rest) \<Longrightarrow>
   case rest of a # b # r \<Rightarrow> length r < unat (be16 [a, b]) | _ \<Rightarrow> True"
proof (induction d arbitrary: bodies rest rule: session_frames.induct)
  case (1 a b r)
  then show ?case
    by (cases "length r < unat (be16 [a, b])") (auto simp: Let_def split: prod.splits)
qed auto

lemma session_frames_drop:
  assumes "off + 2 \<le> length d" and n: "n = unat (be16 (take 2 (drop off d)))"
  shows "session_frames (drop off d) =
    (if off + 2 + n > length d then ([], drop off d)
     else (case session_frames (drop (off + 2 + n) d) of (bodies, rest) \<Rightarrow>
       (take n (drop (off + 2) d) # bodies, rest)))"
proof -
  have "length (take 2 (drop off d)) = 2" using assms by simp
  then obtain a b where ab: "take 2 (drop off d) = [a, b]" by (rule length2E)
  have "drop off d = take 2 (drop off d) @ drop 2 (drop off d)"
    by (rule append_take_drop_id [symmetric])
  also have "\<dots> = a # b # drop (off + 2) d"
    by (simp only: ab drop_drop add.commute [of 2 off] append_Cons append_Nil)
  finally have d: "drop off d = a # b # drop (off + 2) d" .
  have l: "length (drop (off + 2) d) < n \<longleftrightarrow> off + 2 + n > length d"
    using assms(1) by auto
  have e: "drop n (drop (off + 2) d) = drop (off + 2 + n) d"
    by (simp only: drop_drop add.commute)
  have "session_frames (a # b # drop (off + 2) d) =
      (if length (drop (off + 2) d) < n then ([], a # b # drop (off + 2) d)
       else (case session_frames (drop n (drop (off + 2) d)) of (bodies, rest) \<Rightarrow>
         (take n (drop (off + 2) d) # bodies, rest)))"
    using n ab by (simp add: Let_def)
  then show ?thesis unfolding l e d [symmetric] .
qed

lemma session_loop_frames:
  "off \<le> length d \<Longrightarrow> session_loop lg locate d off s =
     session_then (session_bodies lg locate (fst (session_frames (drop off d))) s)
       (\<lambda>s'. Inr (s', length d - length (snd (session_frames (drop off d)))))"
proof (induction lg locate d off s rule: session_loop.induct)
  case (1 lg locate d off s)
  show ?case
  proof (cases "off + 2 \<le> length d")
    case False
    then show ?thesis using 1(2) by (subst session_loop.simps) (simp add: session_frames_short)
  next
    case True
    define n where "n = unat (be16 (take 2 (drop off d)))"
    have bl: "be16_at d off = Some (be16 (take 2 (drop off d)))" using True by simp
    show ?thesis
    proof (cases "off + 2 + n > length d")
      case big: True
      then show ?thesis
        using True session_frames_drop [OF True n_def] bl
        by (subst session_loop.simps) (simp add: Let_def n_def [symmetric])
    next
      case False
      let ?body = "take n (drop (off + 2) d)"
      have fits: "off + 2 + n \<le> length d" using False by simp
      then have body: "read_at d (off + 2) n = Some ?body" by simp
      obtain bs rest where rec: "session_frames (drop (off + 2 + n) d) = (bs, rest)" by (metis prod.exhaust)
      have IH: "session_loop lg locate d (off + 2 + n) s' =
          session_then (session_bodies lg locate bs s') (\<lambda>s''. Inr (s'', length d - length rest))" for s'
        using 1(1) [OF True n_def _ fits] False rec by (simp add: n_def)
      then have "session_loop lg locate d (off + 2 + n) =
          (\<lambda>s'. session_then (session_bodies lg locate bs s') (\<lambda>s''. Inr (s'', length d - length rest)))"
        by (rule ext)
      then show ?thesis
        using True False session_frames_drop [OF True n_def] bl body rec
        by (subst session_loop.simps) (simp add: Let_def n_def [symmetric] session_then_assoc)
    qed
  qed
qed

lemma run_session_bodies:
  "run_session lg d prog sc = session_then (new_session prog sc) (\<lambda>s0.
     session_then (session_bodies lg (sc_locate sc) (fst (session_frames d)) s0)
       (close_session lg sc (snd (session_frames d) \<noteq> [])))"
proof -
  obtain bodies rest where f: "session_frames d = (bodies, rest)" by (metis prod.exhaust)
  then have "d = framed bodies @ rest" using session_frames_split by blast
  then have "length d - length rest \<noteq> length d \<longleftrightarrow> rest \<noteq> []" by auto
  then show ?thesis
    using f by (simp add: run_session_def session_loop_frames session_then_assoc)
qed

subsection \<open>The accounts over a session\<close>

text \<open>
  \<open>N\<close> synthetic references were available at the start; after \<open>k\<close> messages, one for each
  and two for each processed bar may be gone, and the rest is still there; the round trips are
  in the order of the bars processed.
\<close>

definition desk_budget :: "u16 \<Rightarrow> nat \<Rightarrow> nat \<Rightarrow> session \<Rightarrow> bool" where
  "desk_budget locate N k s \<longleftrightarrow> (k + 2 * ss_next_bar s \<le> N \<longrightarrow>
     trips (ss_next_bar s) (fst (ss_desk s)) \<and>
     (\<exists>subs. desk_ok locate (N - (k + 2 * ss_next_bar s)) subs (ss_desk s)))"

text \<open>
  Every completed bar is processed and marked once, every message counted. Once their number
  does not fit an \<open>int\<close> no bar is processed any more.
\<close>

definition clock_ok :: "nat \<Rightarrow> session \<Rightarrow> bool" where
  "clock_ok k s \<longleftrightarrow> ss_next_bar s \<le> bar_count (bb_bars (ss_builder s)) \<and>
     (bar_count (bb_bars (ss_builder s)) < 2 ^ 31 \<longrightarrow> ss_next_bar s = bar_count (bb_bars (ss_builder s))) \<and>
     length (ss_equity s) = ss_next_bar s \<and> ss_messages s = of_nat k"

text \<open>What processing bars leaves alone.\<close>

definition same_feed :: "session \<Rightarrow> session \<Rightarrow> bool" where
  "same_feed s s' \<longleftrightarrow> ss_builder s' = ss_builder s \<and> ss_eng s' = ss_eng s \<and>
     ss_messages s' = ss_messages s \<and> ss_malformed s' = ss_malformed s \<and> ss_last_ts s' = ss_last_ts s"

lemma close_bar_accounts:
  assumes "close_bar lg ts s = Inr s'"
  shows "same_feed s s'" "ss_next_bar s' = Suc (ss_next_bar s)"
    "length (ss_equity s') = Suc (length (ss_equity s))"
    "desk_budget locate N k s \<Longrightarrow> desk_budget locate N k s'"
proof -
  obtain vm sig d where d: "on_bar (ss_eng s) (ss_next_bar s) sig ts (ss_desk s) = Some d"
    and s': "s' = s\<lparr>ss_vm := vm, ss_desk := d, ss_next_bar := ss_next_bar s + 1,
      ss_equity := ss_equity s @ [equity (fst d) (bs_c (bb_bars (ss_builder s)) ! ss_next_bar s)]\<rparr>"
    using assms by (auto simp: close_bar_def Let_def session_inversion)
  show "same_feed s s'" "ss_next_bar s' = Suc (ss_next_bar s)"
    "length (ss_equity s') = Suc (length (ss_equity s))"
    by (simp_all add: s' same_feed_def)
  assume budget: "desk_budget locate N k s"
  show "desk_budget locate N k s'"
    unfolding desk_budget_def
  proof
    assume le: "k + 2 * ss_next_bar s' \<le> N"
    define n where "n = N - (k + 2 * ss_next_bar s')"
    have n: "N - (k + 2 * ss_next_bar s) = Suc (Suc n)" using le by (simp add: n_def s')
    obtain subs where ok: "desk_ok locate (Suc (Suc n)) subs (ss_desk s)" "trips (ss_next_bar s) (fst (ss_desk s))"
      using budget le n by (auto simp: desk_budget_def s')
    from on_bar_ok [OF ok(1) d] on_bar_trips [OF ok d]
    show "trips (ss_next_bar s') (fst (ss_desk s')) \<and> (\<exists>subs. desk_ok locate n subs (ss_desk s'))"
      by (simp add: s')
  qed
qed

lemma close_bars_accounts:
  "close_bars lg ts n s = Inr s' \<Longrightarrow> same_feed s s' \<and> ss_next_bar s' = ss_next_bar s + n \<and>
     length (ss_equity s') = length (ss_equity s) + n \<and>
     (desk_budget locate N k s \<longrightarrow> desk_budget locate N k s')"
proof (induction n arbitrary: s)
  case (Suc n)
  then obtain s1 where s1: "close_bar lg ts s = Inr s1" "close_bars lg ts n s1 = Inr s'"
    by (auto simp: session_inversion)
  show ?case
    using Suc.IH [OF s1(2)] close_bar_accounts [OF s1(1)] by (auto simp: same_feed_def)
qed (simp add: same_feed_def)

lemma emit_gap_count [simp]: "bar_count (emit_gap n c s) = bar_count s + n"
  by (induction n c s rule: emit_gap.induct) simp_all

lemma on_trade_size:
  "on_trade ts p q b = Some (b', done) \<Longrightarrow>
   0 \<le> done \<and> int (bar_count (bb_bars b')) = int (bar_count (bb_bars b)) + done"
  by (auto simp: on_trade_def Let_def split: if_splits)

lemma process_bars_reach:
  assumes "n \<le> bar_count bars"
  shows "n + nat (series_size bars - int n) \<le> bar_count bars"
    "bar_count bars < 2 ^ 31 \<Longrightarrow> n + nat (series_size bars - int n) = bar_count bars"
  using assms series_size_le [of bars] series_size_small [of bars] by linarith+

lemma process_bars_accounts:
  assumes "process_bars lg ts s = Inr s'" "ss_next_bar s \<le> bar_count (bb_bars (ss_builder s))"
    "length (ss_equity s) = ss_next_bar s" "ss_messages s = of_nat k"
  shows "clock_ok k s' \<and> (desk_budget locate N k s \<longrightarrow> desk_budget locate N k s')"
  using close_bars_accounts [OF assms(1) [unfolded process_bars_def], of locate N k] assms(2-4)
    process_bars_reach [OF assms(2)]
  by (auto simp: clock_ok_def same_feed_def)

lemma on_print_accounts:
  assumes "on_print lg ts price shares s = Inr s'" "clock_ok (Suc k) s" "desk_budget locate N k s"
  shows "clock_ok (Suc k) s' \<and> desk_budget locate N (Suc k) s'"
proof -
  let ?d = "on_trade_print (ss_eng s) price ts (ss_desk s)"
  obtain bb n where bb: "on_trade ts price shares (ss_builder s) = Some (bb, n)"
    and s': "(if n > 0 then process_bars lg ts (s\<lparr>ss_desk := ?d, ss_builder := bb\<rparr>)
      else Inr (s\<lparr>ss_desk := ?d, ss_builder := bb\<rparr>)) = Inr s'"
    using assms(1) by (auto simp: on_print_def Let_def session_inversion)
  define s1 where "s1 = s\<lparr>ss_desk := ?d, ss_builder := bb\<rparr>"
  have grow: "0 \<le> n" "int (bar_count (bb_bars bb)) = int (bar_count (bb_bars (ss_builder s))) + n"
    using on_trade_size [OF bb] by simp_all
  have s1: "ss_next_bar s1 = ss_next_bar s" "ss_equity s1 = ss_equity s" "ss_messages s1 = ss_messages s"
    "ss_builder s1 = bb" "ss_desk s1 = ?d"
    by (simp_all add: s1_def)
  have budget: "desk_budget locate N (Suc k) s1"
    unfolding desk_budget_def s1
  proof
    assume le: "Suc k + 2 * ss_next_bar s \<le> N"
    define m where "m = N - (Suc k + 2 * ss_next_bar s)"
    have "N - (k + 2 * ss_next_bar s) = Suc m" using le by (simp add: m_def)
    then obtain subs where ok: "desk_ok locate (Suc m) subs (ss_desk s)" "trips (ss_next_bar s) (fst (ss_desk s))"
      using assms(3) le by (auto simp: desk_budget_def)
    from on_trade_print_ok [OF ok(1)] on_trade_print_trips [OF ok]
    show "trips (ss_next_bar s) (fst ?d) \<and> (\<exists>subs. desk_ok locate m subs ?d)" by blast
  qed
  show ?thesis
  proof (cases "n > 0")
    case True
    then have "process_bars lg ts s1 = Inr s'" using s' by (simp add: s1_def)
    from process_bars_accounts [OF this, of "Suc k" locate N] show ?thesis
      using budget grow assms(2) by (simp add: s1 clock_ok_def)
  next
    case False
    then have "s' = s1" "bar_count (bb_bars bb) = bar_count (bb_bars (ss_builder s))"
      using s' grow by (simp_all add: s1_def)
    then show ?thesis using budget assms(2) by (simp add: s1 clock_ok_def)
  qed
qed

lemma desk_budget_Suc: "desk_budget locate N k s \<Longrightarrow> desk_budget locate N (Suc k) s"
  unfolding desk_budget_def by (metis Suc_leD add_Suc desk_ok_mono diff_le_mono2 le_SucI le_refl)

lemma on_market_message_desk:
  "desk_ok locate n subs (om, fe) \<Longrightarrow> desk_ok locate n subs (om, on_market_message eng m fe)"
proof -
  have "fe_next_ref (on_market_message eng m fe) = fe_next_ref fe"
    by (simp add: on_market_message_def handle_exec_def handle_remove_def raise_watermark_def Let_def
      split: option.split prod.split)
  then show "desk_ok locate n subs (om, fe) \<Longrightarrow> ?thesis"
    by (auto simp: desk_ok_def refs_left_def intro: run_market)
qed

lemma handle_message_accounts:
  assumes "handle_message lg locate m s = Inr s'" "clock_ok (Suc k) s" "desk_budget locate N k s"
  shows "clock_ok (Suc k) s' \<and> desk_budget locate N (Suc k) s'"
proof -
  obtain om fe where desk: "ss_desk s = (om, fe)" by (cases "ss_desk s")
  obtain eng bk er where app: "apply_msg m (ss_eng s) = Some (eng, bk, er)"
    using assms(1) by (auto simp: handle_message_def desk session_inversion)
  define s1 where "s1 = s\<lparr>ss_last_ts := dm_timestamp m, ss_eng := eng,
    ss_desk := poll_fills (om, on_market_message (ss_eng s) m fe)\<rparr>"
  let ?d = "(om, on_market_message (ss_eng s) m fe)"
  have "trips t (fst (poll_fills ?d)) \<and> (\<exists>subs. desk_ok locate n subs (poll_fills ?d))"
    if t: "trips t om" and some: "\<exists>subs. desk_ok locate n subs (om, fe)" for t n
  proof -
    obtain subs where "desk_ok locate n subs ?d" using some on_market_message_desk by blast
    from poll_fills_ok [OF this] poll_fills_trips [OF this, of t] t show ?thesis by auto
  qed
  then have "desk_budget locate N k s1"
    using assms(3) by (simp add: s1_def desk_budget_def desk) blast
  moreover have "clock_ok (Suc k) s1" using assms(2) by (simp add: s1_def clock_ok_def)
  ultimately have s1: "clock_ok (Suc k) s1" "desk_budget locate N k s1" by blast+
  show ?thesis
  proof (cases "er_contributes er \<and> er_locate er = locate")
    case True
    then have "on_print lg (dm_timestamp m) (er_price er) (er_shares er) s1 = Inr s'"
      using assms(1) by (simp add: handle_message_def desk app Let_def s1_def)
    then show ?thesis by (rule on_print_accounts [OF _ s1])
  next
    case False
    then have "s' = s1"
      using assms(1) unfolding handle_message_def by (simp only: desk app expect_simps
        session_then_simps prod.case Let_def s1_def if_False sum.inject)
    then show ?thesis using s1 desk_budget_Suc by blast
  qed
qed

lemma session_body_accounts:
  assumes "session_body lg locate b s = Inr s'" "clock_ok k s" "desk_budget locate N k s"
  shows "clock_ok (Suc k) s' \<and> desk_budget locate N (Suc k) s'"
proof -
  define s1 where "s1 = s\<lparr>ss_messages := ss_messages s + 1\<rparr>"
  have s1: "clock_ok (Suc k) s1" "desk_budget locate N k s1"
    using assms(2,3) by (simp_all add: s1_def clock_ok_def desk_budget_def)
  show ?thesis
  proof (cases "dm_type (decoded b) = Unknown")
    case True
    then have "s' = s1\<lparr>ss_malformed := ss_malformed s1 + 1\<rparr>"
      using assms(1) by (simp add: session_body_def Let_def s1_def)
    then show ?thesis using s1(1) desk_budget_Suc [OF s1(2)] by (simp add: clock_ok_def desk_budget_def)
  next
    case False
    then have "handle_message lg locate (decoded b) s1 = Inr s'"
      using assms(1) by (simp add: session_body_def Let_def s1_def)
    then show ?thesis by (rule handle_message_accounts [OF _ s1])
  qed
qed

lemma session_bodies_accounts:
  "session_bodies lg locate bs s = Inr s' \<Longrightarrow> clock_ok k s \<Longrightarrow> desk_budget locate N k s \<Longrightarrow>
   clock_ok (k + length bs) s' \<and> desk_budget locate N (k + length bs) s'"
proof (induction bs arbitrary: s k)
  case (Cons b bs)
  then obtain s1 where s1: "session_body lg locate b s = Inr s1" "session_bodies lg locate bs s1 = Inr s'"
    by (auto simp: session_inversion)
  from session_body_accounts [OF s1(1) Cons.prems(2,3)] show ?case
    using Cons.IH [OF s1(2), of "Suc k"] by simp
qed simp

end
