(* ===== verification/EngineCounters.thy ===== *)
theory EngineCounters
  imports EngineProps
begin

text \<open>
  The error counters of the book engine count its rejected messages exactly: the ground of the
  integrity checks of the programs that run it.
\<close>

subsection \<open>The error counters\<close>

definition errors :: "counters \<Rightarrow> nat" where
  "errors c = unat (ctr_invalid c) + unat (ctr_duplicate_ref c) + unat (ctr_missing_ref c) +
     unat (ctr_ref_insert_fail c) + unat (ctr_resync_required c)"

definition clean :: "apply_status \<Rightarrow> bool" where
  "clean st \<longleftrightarrow> st = Applied \<or> st = Ignored"

text \<open>A handler either leaves the error counters alone, or rejects and raises one of them.\<close>

definition counted_outcome :: "book_engine \<Rightarrow> outcome option \<Rightarrow> bool" where
  "counted_outcome e r \<longleftrightarrow> (case r of None \<Rightarrow> True | Some (e', bk, er) \<Rightarrow>
     errors (be_ctr e) + 1 < 2 ^ 64 \<longrightarrow>
       errors (be_ctr e') = errors (be_ctr e) + (if clean (be_status e') then 0 else 1))"

lemma incr_fits: "unat c + 1 < 2 ^ 64 \<Longrightarrow> unat (c + 1) = unat c + 1" for c :: u64
  by (simp add: unat_plus_no_wrap)

lemma errors_count [simp]:
  "errors (be_ctr (count (\<lambda>c. c\<lparr>ctr_add := ctr_add c + 1\<rparr>) e)) = errors (be_ctr e)"
  "errors (be_ctr (count (\<lambda>c. c\<lparr>ctr_exec := ctr_exec c + 1\<rparr>) e)) = errors (be_ctr e)"
  "errors (be_ctr (count (\<lambda>c. c\<lparr>ctr_cancel := ctr_cancel c + 1\<rparr>) e)) = errors (be_ctr e)"
  "errors (be_ctr (count (\<lambda>c. c\<lparr>ctr_del := ctr_del c + 1\<rparr>) e)) = errors (be_ctr e)"
  "errors (be_ctr (count (\<lambda>c. c\<lparr>ctr_replace := ctr_replace c + 1\<rparr>) e)) = errors (be_ctr e)"
  "errors (be_ctr (count (\<lambda>c. c\<lparr>ctr_trade := ctr_trade c + 1\<rparr>) e)) = errors (be_ctr e)"
  "errors (be_ctr (count (\<lambda>c. c\<lparr>ctr_sys := ctr_sys c + 1\<rparr>) e)) = errors (be_ctr e)"
  by (simp_all add: count_def errors_def)

lemma frame_ctr [simp]:
  "be_ctr (fst (get_or_make l e)) = be_ctr e" "be_ctr (put_book l b e) = be_ctr e"
  by (simp_all add: get_or_make_def put_book_def Let_def split: option.split)

lemma get_or_make_ctr: "get_or_make l e = (e1, b) \<Longrightarrow> be_ctr e1 = be_ctr e"
  by (metis frame_ctr(1) fst_conv)

lemma counted_reject:
  assumes "be_ctr e' = be_ctr e" "st \<in> {InvalidEvent, DuplicateReference, MissingReference,
      ReferenceTableFull, ResyncRequired}"
  shows "counted_outcome e (Some (reject st e'))"
proof -
  have "errors (be_ctr e) + 1 < 2 ^ 64 \<Longrightarrow>
      unat (ctr_invalid (be_ctr e) + 1) = unat (ctr_invalid (be_ctr e)) + 1 \<and>
      unat (ctr_duplicate_ref (be_ctr e) + 1) = unat (ctr_duplicate_ref (be_ctr e)) + 1 \<and>
      unat (ctr_missing_ref (be_ctr e) + 1) = unat (ctr_missing_ref (be_ctr e)) + 1 \<and>
      unat (ctr_ref_insert_fail (be_ctr e) + 1) = unat (ctr_ref_insert_fail (be_ctr e)) + 1 \<and>
      unat (ctr_resync_required (be_ctr e) + 1) = unat (ctr_resync_required (be_ctr e)) + 1"
    unfolding errors_def by (intro conjI incr_fits; linarith)
  then show ?thesis
    using assms by (auto simp: counted_outcome_def reject_def count_def clean_def errors_def Let_def)
qed

lemma counted_applied: "be_ctr e' = be_ctr e \<Longrightarrow> counted_outcome e (Some (applied l out e'))"
  by (simp add: counted_outcome_def applied_def clean_def)

lemma counted_bind: "(\<And>x. counted_outcome e (f x)) \<Longrightarrow> counted_outcome e (Option.bind r f)"
  by (cases r) (simp_all add: counted_outcome_def)

lemma counted_same: "errors (be_ctr e') = errors (be_ctr e) \<Longrightarrow> counted_outcome e r = counted_outcome e' r"
  by (simp add: counted_outcome_def split: option.split)

lemmas counted_intros = counted_reject counted_applied counted_bind

text \<open>Each handler counts its message first, which is no error.\<close>

lemma counted_after:
  assumes "errors (be_ctr e1) = errors (be_ctr e)" "counted_outcome e1 r"
  shows "counted_outcome e r"
  using assms counted_same by blast

lemma on_add_counted: "counted_outcome e (on_add m e)"
  unfolding on_add_def Let_def
  by (rule counted_after [of "count (\<lambda>c. c\<lparr>ctr_add := ctr_add c + 1\<rparr>) e"])
    (auto intro!: counted_intros dest!: get_or_make_ctr split: prod.split)

lemma on_reduce_counted: "counted_outcome e (on_reduce m x e)"
  unfolding on_reduce_def Let_def
  by (rule counted_after [of "if x then count (\<lambda>c. c\<lparr>ctr_exec := ctr_exec c + 1\<rparr>) e
      else count (\<lambda>c. c\<lparr>ctr_cancel := ctr_cancel c + 1\<rparr>) e"])
    (auto intro!: counted_intros dest!: get_or_make_ctr split: prod.split option.split)

lemma on_delete_counted: "counted_outcome e (on_delete m e)"
  unfolding on_delete_def Let_def
  by (rule counted_after [of "count (\<lambda>c. c\<lparr>ctr_del := ctr_del c + 1\<rparr>) e"])
    (auto intro!: counted_intros dest!: get_or_make_ctr split: prod.split option.split)

lemma on_replace_counted: "counted_outcome e (on_replace m e)"
  unfolding on_replace_def Let_def
  by (rule counted_after [of "count (\<lambda>c. c\<lparr>ctr_replace := ctr_replace c + 1\<rparr>) e"])
    (auto intro!: counted_intros dest!: get_or_make_ctr split: prod.split option.split)

lemma apply_msg_counted: "counted_outcome e (apply_msg m e)"
proof -
  let ?e = "e\<lparr>be_status := Ignored\<rparr>"
  have "counted_outcome ?e (apply_msg m e)"
    using on_add_counted [of ?e] on_reduce_counted [of ?e] on_delete_counted [of ?e] on_replace_counted [of ?e]
    by (auto simp: apply_msg_def Let_def counted_outcome_def clean_def count_def errors_def split: msg_type.split)
  then show ?thesis by (rule counted_after [rotated]) simp
qed

lemma engine_init_ctr: "engine_init lv cap = Some e \<Longrightarrow> be_ctr e = no_counters"
  by (auto simp: engine_init_def split: Option.bind_splits)

lemma engine_init_exists: "unat cap \<le> 2 ^ 31 \<Longrightarrow> \<exists>e. engine_init lv cap = Some e"
  by (erule table_init_spec) (simp add: engine_init_def)

end
