(* ===== verification/SessionCheck.thy ===== *)
theory SessionCheck
  imports SessionRun EngineCounters
begin

text \<open>
  The integrity check of \<open>src/sw/trade/trade_main.cpp\<close> and what it is worth: the engine's
  error counters count its rejected messages exactly, so a session whose counters are zero has
  a book built from accepted messages only.
\<close>

definition session_intact :: "session_result \<Rightarrow> bool" where
  "session_intact r \<longleftrightarrow> \<not> (sr_malformed r \<noteq> 0 \<or> sr_truncated r \<or> ctr_invalid (sr_counters r) \<noteq> 0 \<or>
     ctr_duplicate_ref (sr_counters r) \<noteq> 0 \<or> ctr_missing_ref (sr_counters r) \<noteq> 0 \<or>
     ctr_ref_insert_fail (sr_counters r) \<noteq> 0 \<or> ctr_resync_required (sr_counters r) \<noteq> 0)"

text \<open>
  The parameter overrides: every parameter of the given name is set, and an unknown name ends
  the program.
\<close>

definition override_param :: "bytes list \<Rightarrow> bytes \<times> f32 \<Rightarrow> f32 list \<Rightarrow> f32 list option" where
  "override_param names = (\<lambda>(name, val) params.
     if name \<notin> set names then None
     else Some (foldl (\<lambda>ps i. if names ! i = name then ps[i := val] else ps) params [0..<length names]))"

fun override_params :: "bytes list \<Rightarrow> (bytes \<times> f32) list \<Rightarrow> f32 list \<Rightarrow> f32 list option" where
  "override_params names [] params = Some params"
| "override_params names (o1 # os) params = do {
     params1 \<leftarrow> override_param names o1 params;
     override_params names os params1
   }"

subsection \<open>The engine's messages in a session\<close>

definition session_messages :: "bytes list \<Rightarrow> decoded_message list" where
  "session_messages bodies = filter (\<lambda>m. dm_type m \<noteq> Unknown) (map decoded bodies)"

lemma process_bars_feed: "process_bars lg ts s = Inr s' \<Longrightarrow> same_feed s s'"
  unfolding process_bars_def using close_bars_accounts by blast

lemma on_print_feed:
  "on_print lg ts price shares s = Inr s' \<Longrightarrow> ss_eng s' = ss_eng s \<and> ss_malformed s' = ss_malformed s"
  by (auto simp: on_print_def Let_def session_inversion same_feed_def split: if_splits
    dest!: process_bars_feed)

lemma handle_message_engine:
  assumes "handle_message lg locate m s = Inr s'"
  shows "\<exists>bk er. apply_msg m (ss_eng s) = Some (ss_eng s', bk, er) \<and> ss_malformed s' = ss_malformed s"
proof -
  obtain om fe where desk: "ss_desk s = (om, fe)" by (cases "ss_desk s")
  obtain eng bk er where app: "apply_msg m (ss_eng s) = Some (eng, bk, er)"
    using assms by (auto simp: handle_message_def desk session_inversion)
  define s1 where "s1 = s\<lparr>ss_last_ts := dm_timestamp m, ss_eng := eng,
    ss_desk := poll_fills (om, on_market_message (ss_eng s) m fe)\<rparr>"
  have s1: "ss_eng s1 = eng" "ss_malformed s1 = ss_malformed s" by (simp_all add: s1_def)
  show ?thesis
  proof (cases "er_contributes er \<and> er_locate er = locate")
    case True
    then have "on_print lg (dm_timestamp m) (er_price er) (er_shares er) s1 = Inr s'"
      using assms by (simp add: handle_message_def desk app Let_def s1_def)
    then show ?thesis using app s1 on_print_feed by fastforce
  next
    case False
    then have "s' = s1"
      using assms unfolding handle_message_def by (simp only: desk app expect_simps
        session_then_simps prod.case Let_def s1_def if_False sum.inject)
    then show ?thesis using app s1 by simp
  qed
qed

lemma session_body_engine:
  assumes "session_body lg locate b s = Inr s'"
  shows "if dm_type (decoded b) = Unknown
    then ss_eng s' = ss_eng s \<and> ss_malformed s' = ss_malformed s + 1
    else \<exists>bk er. apply_msg (decoded b) (ss_eng s) = Some (ss_eng s', bk, er) \<and> ss_malformed s' = ss_malformed s"
proof (cases "dm_type (decoded b) = Unknown")
  case True
  then show ?thesis using assms by (auto simp: session_body_def Let_def)
next
  case False
  then have "handle_message lg locate (decoded b) (s\<lparr>ss_messages := ss_messages s + 1\<rparr>) = Inr s'"
    using assms by (simp add: session_body_def Let_def)
  from handle_message_engine [OF this] show ?thesis using False by simp
qed

lemma session_bodies_engine:
  assumes "session_bodies lg locate bs s = Inr s'"
    "errors (be_ctr (ss_eng s)) + length bs < 2 ^ 64" "unat (ss_malformed s) + length bs < 2 ^ 64"
  shows "run_engine (session_messages bs) (ss_eng s) = Some (ss_eng s') \<and>
    errors (be_ctr (ss_eng s)) \<le> errors (be_ctr (ss_eng s')) \<and>
    (errors (be_ctr (ss_eng s')) = errors (be_ctr (ss_eng s)) \<longrightarrow> accepted_run (session_messages bs) (ss_eng s)) \<and>
    unat (ss_malformed s') =
      unat (ss_malformed s) + length (filter (\<lambda>b. dm_type (decoded b) = Unknown) bs)"
  using assms
proof (induction bs arbitrary: s)
  case (Cons b bs)
  obtain s1 where s1: "session_body lg locate b s = Inr s1" "session_bodies lg locate bs s1 = Inr s'"
    using Cons.prems(1) by (auto simp: session_inversion)
  note step = session_body_engine [OF s1(1)]
  show ?case
  proof (cases "dm_type (decoded b) = Unknown")
    case True
    have "unat (ss_malformed s) + 1 < 2 ^ 64" using Cons.prems(3) by simp
    then have one: "unat (ss_malformed s1) = unat (ss_malformed s) + 1" "ss_eng s1 = ss_eng s"
      using step True incr_fits by simp_all
    have "errors (be_ctr (ss_eng s1)) + length bs < 2 ^ 64" "unat (ss_malformed s1) + length bs < 2 ^ 64"
      using Cons.prems(2,3) unfolding one by (simp_all only: list.size)
    from Cons.IH [OF s1(2) this] show ?thesis
      using True one by (simp add: session_messages_def)
  next
    case False
    then obtain bk er where app: "apply_msg (decoded b) (ss_eng s) = Some (ss_eng s1, bk, er)"
      "ss_malformed s1 = ss_malformed s"
      using step by auto
    have "errors (be_ctr (ss_eng s)) + 1 < 2 ^ 64" using Cons.prems(2) by simp
    then have err: "errors (be_ctr (ss_eng s1)) =
        errors (be_ctr (ss_eng s)) + (if clean (be_status (ss_eng s1)) then 0 else 1)"
      using apply_msg_counted [of "ss_eng s" "decoded b"] app(1) by (simp add: counted_outcome_def)
    then have "errors (be_ctr (ss_eng s1)) + length bs < 2 ^ 64" "unat (ss_malformed s1) + length bs < 2 ^ 64"
      using Cons.prems(2,3) app(2) by (auto split: if_splits)
    note IH = Cons.IH [OF s1(2) this]
    have msgs: "session_messages (b # bs) = decoded b # session_messages bs"
      using False by (simp add: session_messages_def)
    have "accepted_run (session_messages (b # bs)) (ss_eng s)"
      if "errors (be_ctr (ss_eng s')) = errors (be_ctr (ss_eng s))"
    proof -
      have "clean (be_status (ss_eng s1))" "errors (be_ctr (ss_eng s')) = errors (be_ctr (ss_eng s1))"
        using that IH err by (auto split: if_splits)
      then show ?thesis using IH app(1) by (auto simp: msgs clean_def accepted_def)
    qed
    then show ?thesis using IH err app False by (simp add: msgs split: if_splits)
  qed
qed (simp add: session_messages_def)

lemma intact_errors: "session_intact r \<longleftrightarrow> sr_malformed r = 0 \<and> \<not> sr_truncated r \<and> errors (sr_counters r) = 0"
  by (auto simp: session_intact_def errors_def unat_eq_zero)

lemma new_session_Inr:
  assumes "new_session prog sc = Inr s0"
  shows "engine_init book_price_levels book_ref_capacity = Some (ss_eng s0) \<and>
    new_vm prog (sc_params sc) = Some (ss_vm s0) \<and>
    ss_desk s0 = (new_order_manager (sc_locate sc) (sc_om sc), new_fill_engine (sc_locate sc)) \<and>
    ss_builder s0 = new_builder (sc_bar_ns sc) \<and> ss_next_bar s0 = 0 \<and> ss_equity s0 = [] \<and>
    ss_messages s0 = 0 \<and> ss_malformed s0 = 0 \<and> sc_bar_ns sc \<noteq> 0"
  using assms by (auto simp: new_session_def session_inversion split: if_splits)

lemma close_session_Inr:
  assumes "close_session lg sc is_cut s = Inr res"
  shows "\<exists>s2 om fe. om_finish (ss_last_ts s2) (ss_desk s2) = Some (om, fe) \<and> res = summary sc is_cut s2 om \<and>
    ss_eng s2 = ss_eng s \<and> ss_malformed s2 = ss_malformed s \<and>
    (if bb_open (ss_builder s) then process_bars lg (ss_last_ts s) (s\<lparr>ss_builder := fst (flush (ss_builder s))\<rparr>) = Inr s2
     else s2 = s\<lparr>ss_builder := fst (flush (ss_builder s))\<rparr>)"
proof -
  obtain bb n where f: "flush (ss_builder s) = (bb, n)" by (metis prod.exhaust)
  have pos: "n > 0 \<longleftrightarrow> bb_open (ss_builder s)" using f by (auto simp: flush_def split: if_splits)
  let ?s1 = "s\<lparr>ss_builder := bb\<rparr>"
  obtain s2 om fe where s2: "(if n > 0 then process_bars lg (ss_last_ts ?s1) ?s1 else Inr ?s1) = Inr s2"
    "om_finish (ss_last_ts s2) (ss_desk s2) = Some (om, fe)" "res = summary sc is_cut s2 om"
    using assms unfolding close_session_def f prod.case Let_def session_inversion by (force split: if_splits)
  have "same_feed ?s1 s2"
    using s2(1) process_bars_feed [of lg "ss_last_ts s" ?s1 s2] by (auto simp: same_feed_def split: if_splits)
  then have "ss_eng s2 = ss_eng s" "ss_malformed s2 = ss_malformed s" by (simp_all add: same_feed_def)
  moreover have "if bb_open (ss_builder s) then process_bars lg (ss_last_ts s) ?s1 = Inr s2 else s2 = ?s1"
    using s2(1) pos by auto
  ultimately show ?thesis
    using s2(2,3) f by (intro exI [of _ s2] exI [of _ om] exI [of _ fe]) simp
qed

end
