(* ===== verification/SessionProps.thy ===== *)
theory SessionProps
  imports SessionCheck VmProps
begin

text \<open>
  The properties of a trading session: what it computes from a stream, that an accepted
  program cannot make it leave its arrays, that its accounts balance at the end, and that a
  session which passes the integrity check traded against the book of the oracle.
\<close>

subsection \<open>Safety of the interpreter in a session\<close>

text \<open>
  The faults left for an accepted program: a float that an integer conversion cannot
  represent, an \<open>int\<close> count that overflows, and a reference table that is full.
\<close>

definition session_safe :: "(session \<Rightarrow> bool) \<Rightarrow> session session_outcome \<Rightarrow> bool" where
  "session_safe Q r \<longleftrightarrow> (case r of Inl e \<Rightarrow> e \<in> {Vm_fault Cast_fault, Bad_cast, Int_overflow, No_answer} | Inr s \<Rightarrow> Q s)"

lemma session_safe_simps [simp]:
  "session_safe Q (Inr s) = Q s"
  "session_safe Q (Inl e) \<longleftrightarrow> e \<in> {Vm_fault Cast_fault, Bad_cast, Int_overflow, No_answer}"
  by (simp_all add: session_safe_def)

lemma session_safe_then:
  "session_safe R r \<Longrightarrow> (\<And>s. R s \<Longrightarrow> session_safe Q (f s)) \<Longrightarrow> session_safe Q (session_then r f)"
  by (cases r) auto

definition bars_built :: "bar_builder \<Rightarrow> bool" where
  "bars_built b \<longleftrightarrow> builder_ok b \<and> bb_ns b \<noteq> 0"

definition feed_ok :: "strat_program \<Rightarrow> session \<Rightarrow> bool" where
  "feed_ok p s \<longleftrightarrow> program_ok p \<and> signals_once p \<and> bars_built (ss_builder s) \<and> vm_ok (ss_vm s) \<and> vm_prog (ss_vm s) = p \<and>
     ss_next_bar s \<le> bar_count (bb_bars (ss_builder s))"

lemma series_bars: "series_ok s \<Longrightarrow> i < bar_count s \<Longrightarrow> bars_ok s (int i)"
  by (simp add: series_ok_def bars_ok_def bar_count_def)

lemma close_bar_safe:
  assumes "feed_ok p s" "ss_next_bar s < bar_count (bb_bars (ss_builder s))"
  shows "session_safe (\<lambda>s'. feed_ok p s' \<and> ss_next_bar s' = Suc (ss_next_bar s) \<and> same_feed s s')
    (close_bar lg ts s)"
proof -
  let ?bars = "bb_bars (ss_builder s)" and ?t = "ss_next_bar s"
  let ?step = "vm_step lg ?bars ?t (om_ctx (fst (ss_desk s)) ?bars ?t) (ss_vm s)"
  have "bars_ok ?bars (int ?t)"
    using assms by (simp add: series_bars feed_ok_def bars_built_def builder_ok_def)
  then have "safe (\<lambda>(vm', g). vm_ok vm' \<and> vm_prog vm' = p) ?step"
    using vm_step_ok [of "ss_vm s" ?bars ?t] assms(1) by (simp add: feed_ok_def)
  then consider "?step = Inl Cast_fault" | vm sig where "?step = Inr (vm, sig)" "vm_ok vm" "vm_prog vm = p"
    by (cases ?step) auto
  then show ?thesis
  proof cases
    case 2
    then show ?thesis
      using assms by (cases "on_bar (ss_eng s) ?t sig ts (ss_desk s)")
        (auto simp: close_bar_def Let_def vm_outcome_def feed_ok_def same_feed_def)
  qed (simp add: close_bar_def Let_def vm_outcome_def)
qed

lemma close_bars_safe:
  "feed_ok p s \<Longrightarrow> ss_next_bar s + n \<le> bar_count (bb_bars (ss_builder s)) \<Longrightarrow>
   session_safe (feed_ok p) (close_bars lg ts n s)"
proof (induction n arbitrary: s)
  case (Suc n)
  have "session_safe (feed_ok p) (close_bars lg ts n s')"
    if "feed_ok p s' \<and> ss_next_bar s' = Suc (ss_next_bar s) \<and> same_feed s s'" for s'
    using that Suc.prems(2) by (intro Suc.IH) (auto simp: same_feed_def)
  then show ?case
    using close_bar_safe [OF Suc.prems(1)] Suc.prems(2) by (auto intro: session_safe_then)
qed simp

lemma process_bars_safe: "feed_ok p s \<Longrightarrow> session_safe (feed_ok p) (process_bars lg ts s)"
  unfolding process_bars_def by (rule close_bars_safe) (auto simp: feed_ok_def intro!: process_bars_reach(1))

lemma on_print_safe:
  assumes "feed_ok p s"
  shows "session_safe (feed_ok p) (on_print lg ts price shares s)"
proof -
  show ?thesis
  proof (cases "on_trade ts price shares (ss_builder s)")
    case None
    then show ?thesis by (simp add: on_print_def Let_def)
  next
    case (Some x)
    obtain bb n where x: "x = (bb, n)" by (cases x)
    define s1 where "s1 = s\<lparr>ss_desk := on_trade_print (ss_eng s) price ts (ss_desk s), ss_builder := bb\<rparr>"
    have "feed_ok p s1"
      using assms on_trade_ok [OF _ Some [unfolded x]] on_trade_size [OF Some [unfolded x]]
      by (auto simp: feed_ok_def bars_built_def s1_def)
    then have "feed_ok p s1" "session_safe (feed_ok p) (process_bars lg ts s1)"
      using process_bars_safe by blast+
    then show ?thesis by (simp add: on_print_def Let_def Some x flip: s1_def)
  qed
qed

lemma session_body_safe:
  assumes "feed_ok p s"
  shows "session_safe (feed_ok p) (session_body lg locate b s)"
proof -
  let ?m = "decoded b" and ?s = "s\<lparr>ss_messages := ss_messages s + 1\<rparr>"
  obtain om fe where desk: "ss_desk s = (om, fe)" by (cases "ss_desk s")
  have "session_safe (feed_ok p) (handle_message lg locate ?m ?s)"
  proof (cases "apply_msg ?m (ss_eng s)")
    case (Some r)
    obtain eng bk er where r: "r = (eng, bk, er)" by (metis prod.exhaust)
    have "feed_ok p (?s\<lparr>ss_last_ts := l, ss_eng := e, ss_desk := d\<rparr>)" for l e d
      using assms by (simp add: feed_ok_def)
    then show ?thesis using on_print_safe by (simp add: handle_message_def desk Some r Let_def)
  qed (simp add: handle_message_def desk)
  then show ?thesis using assms by (simp add: session_body_def Let_def feed_ok_def)
qed

lemma session_bodies_safe: "feed_ok p s \<Longrightarrow> session_safe (feed_ok p) (session_bodies lg locate bs s)"
  by (induction bs arbitrary: s) (auto intro: session_safe_then session_body_safe)

lemma close_session_safe:
  assumes "feed_ok p s"
  shows "case close_session lg sc is_cut s of
    Inl e \<Rightarrow> e \<in> {Vm_fault Cast_fault, Bad_cast, Int_overflow, No_answer} | Inr res \<Rightarrow> True"
proof -
  obtain bb n where f: "flush (ss_builder s) = (bb, n)" by (metis prod.exhaust)
  have bb: "bars_built bb \<and> bar_count (bb_bars (ss_builder s)) \<le> bar_count (bb_bars bb)"
    using assms f emit_ok by (auto simp: flush_def feed_ok_def bars_built_def builder_ok_def split: if_splits)
  then have "feed_ok p (s\<lparr>ss_builder := bb\<rparr>)" using assms by (auto simp: feed_ok_def)
  then have "session_safe (feed_ok p) (if n > 0 then process_bars lg ts (s\<lparr>ss_builder := bb\<rparr>)
      else Inr (s\<lparr>ss_builder := bb\<rparr>))" for ts
    using process_bars_safe by simp
  from this [of "ss_last_ts s"] show ?thesis
    by (auto simp: close_session_def f Let_def session_then_def expect_def session_safe_def
      split: sum.splits option.splits prod.splits)
qed

subsection \<open>The engine answers\<close>

lemma on_bars_answer: "close_bars lg ts n s \<noteq> Inl No_answer"
proof (induction n arbitrary: s)
  case (Suc n)
  have "close_bar lg ts s \<noteq> Inl No_answer"
    by (auto simp: close_bar_def Let_def vm_outcome_def expect_def session_then_def
      split: sum.splits option.splits prod.splits)
  then show ?case using Suc by (cases "close_bar lg ts s") auto
qed simp

lemma on_print_answers: "on_print lg ts price shares s \<noteq> Inl No_answer"
  using on_bars_answer
  by (auto simp: on_print_def process_bars_def Let_def expect_def session_then_def
    split: option.splits prod.splits)

lemma session_body_answers:
  assumes "engine_inv (ss_eng s)" "rt_size (be_refs (ss_eng s)) < rt_cap (be_refs (ss_eng s))"
  shows "session_body lg locate b s \<noteq> Inl No_answer"
proof -
  have "apply_msg (decoded b) (ss_eng s) \<noteq> None"
    using apply_msg_ok [OF assms(1), of "decoded b"] assms(2) by (auto simp: outcome_ok_def split: option.splits)
  then show ?thesis
    using on_print_answers
    by (auto simp: session_body_def handle_message_def Let_def split: prod.splits if_splits)
qed

lemma session_bodies_answer:
  "engine_inv (ss_eng s) \<Longrightarrow> rt_size (be_refs (ss_eng s)) + length bs \<le> rt_cap (be_refs (ss_eng s)) \<Longrightarrow>
   session_bodies lg locate bs s \<noteq> Inl No_answer"
proof (induction bs arbitrary: s)
  case (Cons b bs)
  have body: "session_body lg locate b s \<noteq> Inl No_answer"
    using Cons.prems by (intro session_body_answers) auto
  show ?case
  proof (cases "session_body lg locate b s")
    case (Inr s1)
    have "engine_inv (ss_eng s1) \<and> rt_size (be_refs (ss_eng s1)) \<le> Suc (rt_size (be_refs (ss_eng s))) \<and>
        rt_cap (be_refs (ss_eng s1)) = rt_cap (be_refs (ss_eng s))"
      using session_body_engine [OF Inr] Cons.prems(1) apply_msg_inv apply_grows
      by (auto split: if_splits)
    then show ?thesis using Cons.IH [of s1] Cons.prems(2) Inr by simp
  qed (use body in simp)
qed simp

lemma close_session_answers: "close_session lg sc is_cut s \<noteq> Inl No_answer"
proof -
  have "process_bars lg ts s' \<noteq> Inl No_answer" for ts s'
    unfolding process_bars_def by (rule on_bars_answer)
  then show ?thesis
    by (auto simp: close_session_def Let_def session_then_def expect_def
      split: sum.splits option.splits prod.splits)
qed

lemma session_engine_exists: "\<exists>e. engine_init book_price_levels book_ref_capacity = Some e"
  by (rule engine_init_exists) (simp add: book_ref_capacity_def)

subsection \<open>The end of a session\<close>

lemma new_desk_ok:
  "desk_ok locate (2 ^ 63 - 2) Map.empty (new_order_manager locate cfg, new_fill_engine locate)"
proof -
  have "refs_left (2 ^ 63 - 2) (new_fill_engine locate)"
    by (simp add: refs_left_def new_fill_engine_def)
  then show ?thesis
    using run_start [of locate]
    by (simp add: desk_ok_def om_ok_def new_order_manager_def entry_room_def)
qed

lemma flush_accounts:
  assumes "clock_ok k s" "desk_budget locate N k s"
    "if bb_open (ss_builder s) then process_bars lg (ss_last_ts s) (s\<lparr>ss_builder := fst (flush (ss_builder s))\<rparr>) = Inr s2
     else s2 = s\<lparr>ss_builder := fst (flush (ss_builder s))\<rparr>"
  shows "clock_ok k s2 \<and> desk_budget locate N k s2"
proof -
  let ?s1 = "s\<lparr>ss_builder := fst (flush (ss_builder s))\<rparr>"
  have budget: "desk_budget locate N k ?s1" using assms(2) by (simp add: desk_budget_def)
  show ?thesis
  proof (cases "bb_open (ss_builder s)")
    case True
    then have "process_bars lg (ss_last_ts s) ?s1 = Inr s2" using assms(3) by simp
    from process_bars_accounts [OF this, of k locate N] show ?thesis
      using assms(1) budget True by (simp add: clock_ok_def flush_def)
  next
    case False
    then show ?thesis using assms(1,3) budget by (simp add: clock_ok_def flush_def)
  qed
qed

subsection \<open>A sample session\<close>

text \<open>A stream of one trade of 5 shares at 100 at time 9, traded by the sample program.\<close>

definition print_body :: bytes where
  "print_body = [0x50, 0, 1, 0, 0, 0, 0, 0, 0, 0, 0, 0, 9] @ replicate 8 0 @ [0, 0, 0, 0, 5] @
     replicate 8 0 @ [0, 0, 0, 100] @ replicate 8 0"

definition print_config :: session_config where
  "print_config = \<lparr>sc_locate = 1, sc_bar_ns = 10, sc_om = crossing_config, sc_params = []\<rparr>"

lemma print_decoded:
  "dm_type (decoded print_body) = Trade" "dm_stock_locate (decoded print_body) = 1"
  "dm_timestamp (decoded print_body) = 9" "dm_price (decoded print_body) = 100"
  "dm_shares (decoded print_body) = 5"
  by code_simp+

lemma print_frames: "session_frames (frame print_body) = ([print_body], [])"
  by code_simp

definition print_manager :: order_manager where
  "print_manager = (new_order_manager 1 crossing_config)\<lparr>om_last_print := 100\<rparr>"

definition print_builder :: bar_builder where
  "print_builder = fst (the (on_trade 9 100 5 (new_builder 10)))"

definition print_bars :: bar_series where
  "print_bars = bb_bars (fst (flush print_builder))"

lemma print_trade: "on_trade 9 100 5 (new_builder 10) = Some (print_builder, 0)"
  by (simp add: print_builder_def on_trade_def new_builder_def Let_def)

lemma print_flush: "\<exists>bb. flush print_builder = (bb, 1) \<and> bb_bars bb = print_bars"
  by (simp add: print_bars_def flush_def print_builder_def on_trade_def new_builder_def Let_def)

lemma print_bars_count: "bar_count print_bars = 1"
  by (simp add: print_bars_def flush_def print_builder_def on_trade_def new_builder_def Let_def emit_def
    no_bars_def bar_count_def)

lemmas print_bars_size = print_bars_count series_size_small [of print_bars, unfolded print_bars_count, simplified]

lemma print_step:
  "\<exists>vm sig. vm_step id print_bars 0 (om_ctx print_manager print_bars 0) sample_vm = Inr (vm, sig) \<and>
     \<not> sg_el sig \<and> \<not> sg_es sig"
proof -
  have "case vm_step id print_bars 0 (om_ctx print_manager print_bars 0) sample_vm of
      Inl e \<Rightarrow> False | Inr (vm, sig) \<Rightarrow> \<not> sg_el sig \<and> \<not> sg_es sig"
    by code_simp
  then show ?thesis by (auto split: sum.splits)
qed

lemma flat_bar:
  assumes "\<not> sg_el sig" "\<not> sg_es sig" "om_side om = 0" "om_entry_ref om = 0"
  shows "on_bar eng t sig ts (om, fe) = Some (om\<lparr>om_stop := sg_stop sig, om_tp := sg_tp sig,
    om_trail := sg_trail sig, om_cur_bar := int t + 1\<rparr>, fe)"
  using assms by (simp add: on_bar_def arbitrate_def repeg_def Let_def)

lemma print_session:
  "\<exists>res. run_session id (frame print_body) sample_program print_config = Inr res \<and>
     session_intact res \<and> bar_count (sr_bars res) = 1"
proof -
  obtain eng where eng: "engine_init book_price_levels book_ref_capacity = Some eng"
    using session_engine_exists by blast
  define s0 where "s0 = \<lparr>ss_eng = eng, ss_desk = (new_order_manager 1 crossing_config, new_fill_engine 1),
    ss_builder = new_builder 10, ss_vm = sample_vm, ss_next_bar = 0, ss_last_ts = 0, ss_equity = [],
    ss_messages = 0, ss_malformed = 0\<rparr>"
  have s0: "new_session sample_program print_config = Inr s0"
    using eng sample_new_vm by (simp add: new_session_def print_config_def s0_def)
  define eng1 where "eng1 = (count (\<lambda>c. c\<lparr>ctr_trade := ctr_trade c + 1\<rparr>) (eng\<lparr>be_status := Ignored\<rparr>))
    \<lparr>be_status := Applied\<rparr>"
  have app: "apply_msg (decoded print_body) eng = Some (eng1, None,
      \<lparr>er_contributes = True, er_price = 100, er_shares = 5, er_locate = 1\<rparr>)"
    by (simp add: apply_msg_def print_decoded eng1_def Let_def)
  have market: "on_market_message eng (decoded print_body) fe = fe" for fe
    by (simp add: on_market_message_def print_decoded)
  have poll: "poll_fills (om, new_fill_engine 1) = (om, new_fill_engine 1)" for om
    by (simp add: poll_fills_def take_fills_def new_fill_engine_def)
  have print: "on_trade_print e 100 9 (new_order_manager 1 crossing_config, fe) = (print_manager, fe)" for e fe
    by (simp add: on_trade_print_def print_manager_def new_order_manager_def Let_def)
  define s1 where "s1 = s0\<lparr>ss_messages := 1, ss_last_ts := 9, ss_eng := eng1,
    ss_desk := (print_manager, new_fill_engine 1), ss_builder := print_builder\<rparr>"
  have "session_body id 1 print_body s0 = Inr s1"
    by (simp add: session_body_def handle_message_def on_print_def print_decoded app market poll print
      print_trade s0_def s1_def Let_def)
  then have bodies: "session_bodies id 1 [print_body] s0 = Inr s1" by simp
  obtain bb where bb: "flush print_builder = (bb, 1)" "bb_bars bb = print_bars" using print_flush by blast
  obtain vm sig where step: "vm_step id print_bars 0 (om_ctx print_manager print_bars 0) sample_vm = Inr (vm, sig)"
    "\<not> sg_el sig" "\<not> sg_es sig" using print_step by blast
  have flat: "om_side print_manager = 0" "om_entry_ref print_manager = 0" "om_exit_ref print_manager = 0"
    by (simp_all add: print_manager_def new_order_manager_def)
  define om2 where "om2 = print_manager\<lparr>om_stop := sg_stop sig, om_tp := sg_tp sig,
    om_trail := sg_trail sig, om_cur_bar := 1\<rparr>"
  define s2 where "s2 = s1\<lparr>ss_builder := bb, ss_vm := vm, ss_desk := (om2, new_fill_engine 1),
    ss_next_bar := 1, ss_equity := [equity om2 (bs_c print_bars ! 0)]\<rparr>"
  have bar: "on_bar eng1 0 sig 9 (print_manager, new_fill_engine 1) = Some (om2, new_fill_engine 1)"
    using flat_bar [OF step(2,3) flat(1,2), of eng1 0 9] by (simp add: om2_def)
  have "process_bars id 9 (s1\<lparr>ss_builder := bb\<rparr>) = Inr s2"
    using step(1) bar by (simp add: process_bars_def bb(2) print_bars_size s1_def s2_def s0_def
      close_bar_def Let_def vm_outcome_def)
  moreover have "om_finish 9 (om2, new_fill_engine 1) = Some (om2, new_fill_engine 1)"
    using flat by (simp add: om_finish_def cancel_working_entry_def om2_def)
  moreover have "counts_fit (summary print_config False s2 om2)"
    by (simp add: counts_fit_def summary_def om2_def print_manager_def new_order_manager_def)
  ultimately have "close_session id print_config False s1 = Inr (summary print_config False s2 om2)"
    by (simp add: close_session_def s1_def s2_def bb(1) Let_def)
  then have "run_session id (frame print_body) sample_program print_config =
      Inr (summary print_config False s2 om2)"
    using s0 bodies by (simp add: run_session_bodies print_frames print_config_def)
  moreover have "session_intact (summary print_config False s2 om2)"
    using engine_init_ctr [OF eng] by (simp add: session_intact_def summary_def s2_def s1_def s0_def
      eng1_def count_def no_counters_def)
  ultimately show ?thesis by (auto simp: summary_def s2_def bb(2) print_bars_size)
qed

subsection \<open>The properties\<close>

text \<open>
  A session processes exactly the frames of its stream, in order, empty ones
  included: the stream is those frames, each of at most 65535 bytes, and a rest that is no
  complete frame, and it is reported truncated iff the rest is not empty.
\<close>

theorem session_stream:
  "\<exists>bodies rest. d = framed bodies @ rest \<and> list_all (\<lambda>b. length b < 65536) bodies \<and>
     (case rest of a # b # r \<Rightarrow> length r < unat (be16 [a, b]) | _ \<Rightarrow> True) \<and>
     run_session lg d prog sc = session_then (new_session prog sc) (\<lambda>s0.
       session_then (session_bodies lg (sc_locate sc) bodies s0) (close_session lg sc (rest \<noteq> [])))"
proof -
  obtain bodies rest where f: "session_frames d = (bodies, rest)" by (metis prod.exhaust)
  have "case rest of a # b # r \<Rightarrow> length r < unat (be16 [a, b]) | _ \<Rightarrow> True"
    using f by (rule session_frames_rest)
  then show ?thesis
    using session_frames_split [OF f] run_session_bodies [of lg d prog sc] f by auto
qed

lemma session_outcome:
  assumes "parse img = Inr prog" "signals_once prog" "sc_bar_ns sc \<noteq> 0"
    "sc_params sc = [] \<or> length (sc_params sc) = length (pg_defaults prog)"
    "length (fst (session_frames d)) \<le> 2 ^ 20"
  shows "case run_session lg d prog sc of
    Inl e \<Rightarrow> e = Vm_fault Cast_fault \<or> e = Bad_cast \<or> e = Int_overflow | Inr res \<Rightarrow> True"
proof -
  obtain eng where eng: "engine_init book_price_levels book_ref_capacity = Some eng"
    using session_engine_exists by blast
  have "new_vm prog (sc_params sc) \<noteq> None" using assms(4) by (auto simp: new_vm_def Let_def)
  then obtain vm where vm: "new_vm prog (sc_params sc) = Some vm" by auto
  obtain s0 where s0: "new_session prog sc = Inr s0"
    using assms(3) eng vm by (simp add: new_session_def)
  note init = new_session_Inr [OF s0]
  have prog: "program_ok prog" using assms(1) by (simp add: parse_iff)
  have "series_ok no_bars" by (simp add: series_ok_def no_bars_def bar_count_def)
  then have "feed_ok prog s0"
    using init new_vm_ok [OF prog, of "sc_params sc" "ss_vm s0"] prog assms(2)
    by (simp add: feed_ok_def bars_built_def builder_ok_def new_builder_def)
  note safe = session_bodies_safe [OF this, of lg "sc_locate sc" "fst (session_frames d)"]
  have e0: "engine_init book_price_levels book_ref_capacity = Some (ss_eng s0)" using init by blast
  have "engine_inv (ss_eng s0)" "rt_size (be_refs (ss_eng s0)) = 0"
    "2 ^ 20 \<le> rt_cap (be_refs (ss_eng s0))"
    using engine_init_inv(1,5,6) [OF e0] by (simp_all add: book_ref_capacity_def)
  then have answers: "session_bodies lg (sc_locate sc) (fst (session_frames d)) s0 \<noteq> Inl No_answer"
    using assms(5) by (intro session_bodies_answer) auto
  show ?thesis
  proof (cases "session_bodies lg (sc_locate sc) (fst (session_frames d)) s0")
    case (Inl e)
    then show ?thesis using safe answers by (auto simp: run_session_bodies s0)
  next
    case (Inr s)
    then have "feed_ok prog s" using safe by simp
    from close_session_safe [OF this, of lg sc "snd (session_frames d) \<noteq> []"] show ?thesis
      using close_session_answers [of lg sc "snd (session_frames d) \<noteq> []" s]
      by (cases "close_session lg sc (snd (session_frames d) \<noteq> []) s")
        (auto simp: run_session_bodies s0 Inr)
  qed
qed

text \<open>
  Property C21. A session with an accepted program that raises each signal at most once never
  accesses anything outside the interpreter's stack, pools, state and bars; on a stream of at
  most \<open>2 ^ 20\<close> messages it always ends, with a result, with the conversion of a float that an
  integer cannot represent, or with an \<open>int\<close> counter that overflows (one trade that completes
  \<open>2 ^ 31\<close> bars, or as many fills).
\<close>

theorem session_never_leaves_arrays:
  assumes "parse img = Inr prog" "signals_once prog" "sc_bar_ns sc \<noteq> 0"
    "sc_params sc = [] \<or> length (sc_params sc) = length (pg_defaults prog)"
    "length (fst (session_frames d)) \<le> 2 ^ 20"
  shows "case run_session lg d prog sc of
    Inl e \<Rightarrow> e = Vm_fault Cast_fault \<or> e = Bad_cast \<or> e = Int_overflow | Inr res \<Rightarrow> True"
  by (rule session_outcome [OF assms])

theorem session_never_leaves_arrays_witness:
  "case run_session id (frame print_body) sample_program print_config of
     Inl e \<Rightarrow> e = Vm_fault Cast_fault \<or> e = Bad_cast \<or> e = Int_overflow | Inr res \<Rightarrow> True"
  by (rule session_never_leaves_arrays [OF sample_accepted signals_once_sample])
    (simp_all add: print_config_def print_frames)

text \<open>
  Property C22. A session that ends balances, as long as its bars number below \<open>2 ^ 31\<close> and its
  stream is short enough that the \<open>2 ^ 63\<close> synthetic references cannot run out: every completed
  bar is marked once, every frame counted, and a rest of the stream reported. Its fills are those
  of a run of the fill engine, so each belongs to a submitted order and stays within its size,
  side and limit, but for one last fill that closes an open position out. Its round trips follow
  each other on the bar clock: each is entered and left, in this order, within the bars of the
  session, and none begins before the one before it has ended.
\<close>

theorem session_balances:
  assumes "run_session lg d prog sc = Inr res" "bar_count (sr_bars res) < 2 ^ 31"
    "length (fst (session_frames d)) < 2 ^ 62"
  shows "length (sr_equity res) = bar_count (sr_bars res) \<and>
    sr_messages res = of_nat (length (fst (session_frames d))) \<and>
    sr_truncated res = (snd (session_frames d) \<noteq> []) \<and>
    (\<exists>log eod fe subs. sr_fills res = log @ eod \<and> length eod \<le> 1 \<and>
       fill_run (sc_locate sc) fe log subs) \<and>
    sorted (0 # trade_bars (sr_trades res) @ [int (bar_count (sr_bars res))]) \<and>
    (\<forall>tr \<in> set (sr_trades res). tr_side tr \<in> {- 1, 1})"
proof -
  let ?L = "sc_locate sc" and ?bodies = "fst (session_frames d)" and ?N = "2 ^ 63 - 2 :: nat"
  obtain s0 s where s0: "new_session prog sc = Inr s0" "session_bodies lg ?L ?bodies s0 = Inr s"
    "close_session lg sc (snd (session_frames d) \<noteq> []) s = Inr res"
    using assms(1) by (auto simp: run_session_bodies session_inversion)
  note init = new_session_Inr [OF s0(1)]
  have clock: "clock_ok 0 s0" using init
    by (simp add: clock_ok_def new_builder_def bar_count_def no_bars_def)
  have "desk_ok ?L ?N Map.empty (ss_desk s0)" "trips 0 (fst (ss_desk s0))"
    using init new_desk_ok trips_start by (metis fst_conv)+
  then have budget: "desk_budget ?L ?N 0 s0" using init by (auto simp: desk_budget_def)
  have s: "clock_ok (length ?bodies) s" "desk_budget ?L ?N (length ?bodies) s"
    using session_bodies_accounts [OF s0(2) clock budget] by simp_all
  obtain s2 om fe where s2: "om_finish (ss_last_ts s2) (ss_desk s2) = Some (om, fe)"
    "res = summary sc (snd (session_frames d) \<noteq> []) s2 om"
    "if bb_open (ss_builder s) then process_bars lg (ss_last_ts s) (s\<lparr>ss_builder := fst (flush (ss_builder s))\<rparr>) = Inr s2
     else s2 = s\<lparr>ss_builder := fst (flush (ss_builder s))\<rparr>"
    using close_session_Inr [OF s0(3)] by blast
  have last: "clock_ok (length ?bodies) s2" "desk_budget ?L ?N (length ?bodies) s2"
    using flush_accounts [OF s s2(3)] by blast+
  have marked: "ss_next_bar s2 = bar_count (sr_bars res)"
    using last(1) assms(2) by (simp add: s2(2) summary_def clock_ok_def)
  then have "length ?bodies + 2 * ss_next_bar s2 \<le> ?N" using assms(2,3) by simp
  then obtain n subs where desk: "desk_ok ?L n subs (ss_desk s2)" and
    trips: "trips (ss_next_bar s2) (fst (ss_desk s2))" using last(2) by (auto simp: desk_budget_def)
  note fin = om_finish_ok [OF desk s2(1)]
  obtain eod where eod: "om_log om = om_log (fst (ss_desk s2)) @ eod" "length eod \<le> 1"
    using fin by (auto split: if_splits)
  have "fill_run ?L (snd (ss_desk s2)) (om_log (fst (ss_desk s2))) subs"
    using desk by (auto simp: desk_ok_def)
  then have "\<exists>log eod fe subs. om_log om = log @ eod \<and> length eod \<le> 1 \<and> fill_run ?L fe log subs"
    using eod by blast
  moreover have "\<forall>tr \<in> set (om_trades om). tr_side tr \<in> {- 1, 1}"
    using fin by (auto simp: trade_ok_def direction_def)
  ultimately show ?thesis
    using last(1) om_finish_trips [OF trips s2(1)] marked
    by (simp add: s2(2) summary_def clock_ok_def)
qed

theorem session_balances_witness:
  "\<exists>res. run_session id (frame print_body) sample_program print_config = Inr res \<and>
     length (sr_equity res) = 1 \<and> sr_messages res = 1 \<and> \<not> sr_truncated res"
proof -
  obtain res where res: "run_session id (frame print_body) sample_program print_config = Inr res"
    "bar_count (sr_bars res) = 1" using print_session by blast
  from session_balances [OF res(1)] res show ?thesis by (simp add: print_frames)
qed

text \<open>What a passed check says of a stream and a result.\<close>

definition oracle_session :: "bytes \<Rightarrow> session_result \<Rightarrow> bool" where
  "oracle_session d res \<longleftrightarrow> (\<exists>bodies e0 e. d = framed bodies \<and> (\<forall>b \<in> set bodies. dm_type (decoded b) \<noteq> Unknown) \<and>
    engine_init book_price_levels book_ref_capacity = Some e0 \<and>
    run_engine (map decoded bodies) e0 = Some e \<and> sr_counters res = be_ctr e \<and>
    (let rb = fold ref_apply (map decoded bodies) empty_reference
     in (\<forall>loc b. be_books e loc = Some b \<longrightarrow> same_answers rb loc b) \<and>
        ref_live_orders rb = rt_size (be_refs e)))"

lemma intact_session:
  assumes "run_session lg d prog sc = Inr res" "session_intact res" "length d < 2 ^ 64"
  shows "oracle_session d res"
proof -
  let ?L = "sc_locate sc" and ?bodies = "fst (session_frames d)"
  obtain s0 s where s0: "new_session prog sc = Inr s0" "session_bodies lg ?L ?bodies s0 = Inr s"
    "close_session lg sc (snd (session_frames d) \<noteq> []) s = Inr res"
    using assms(1) by (auto simp: run_session_bodies session_inversion)
  note init = new_session_Inr [OF s0(1)]
  obtain s2 om fe where s2: "res = summary sc (snd (session_frames d) \<noteq> []) s2 om"
    "ss_eng s2 = ss_eng s" "ss_malformed s2 = ss_malformed s"
    using close_session_Inr [OF s0(3)] by blast
  have end0: "ss_malformed s = 0" "snd (session_frames d) = []" "errors (be_ctr (ss_eng s)) = 0"
    using assms(2) s2 by (simp_all add: intact_errors summary_def)
  then have d: "d = framed ?bodies"
    using session_frames_split [of d ?bodies "[]"] by (metis append_Nil2 prod.collapse)
  have "length ?bodies \<le> length (framed ?bodies)" by (rule framed_length)
  then have few: "length ?bodies < 2 ^ 64" using d assms(3) by simp
  have ctr0: "errors (be_ctr (ss_eng s0)) = 0"
    using init engine_init_ctr [of _ _ "ss_eng s0"] by (auto simp: errors_def no_counters_def)
  have eng: "run_engine (session_messages ?bodies) (ss_eng s0) = Some (ss_eng s)"
    "accepted_run (session_messages ?bodies) (ss_eng s0)"
    "length (filter (\<lambda>b. dm_type (decoded b) = Unknown) ?bodies) = 0"
    using session_bodies_engine [OF s0(2)] few ctr0 end0 init by auto
  have known: "\<forall>b \<in> set ?bodies. dm_type (decoded b) \<noteq> Unknown"
    using eng(3) by (simp add: filter_empty_conv)
  then have msgs: "session_messages ?bodies = map decoded ?bodies"
    by (auto simp: session_messages_def filter_id_conv)
  have init0: "engine_init book_price_levels book_ref_capacity = Some (ss_eng s0)" using init by blast
  from accepted_run_oracle [OF init0 eng(2)] show ?thesis
    unfolding oracle_session_def using d known init0 eng(1) s2(1,2) unfolding msgs
    by (intro exI [of _ ?bodies] exI [of _ "ss_eng s0"] exI [of _ "ss_eng s"]) (auto simp: summary_def)
qed

text \<open>
  Property C23. The integrity check is sound: a session that passes it, its stream below
  \<open>2 ^ 64\<close> bytes, consisted of complete well-formed frames only, and its book engine accepted
  every message, so that its books answer like the tree-based oracle fed with the same stream.
\<close>

theorem intact_session_matches_oracle:
  assumes "run_session lg d prog sc = Inr res" "session_intact res" "length d < 2 ^ 64"
  shows "\<exists>bodies e0 e. d = framed bodies \<and> (\<forall>b \<in> set bodies. dm_type (decoded b) \<noteq> Unknown) \<and>
    engine_init book_price_levels book_ref_capacity = Some e0 \<and>
    run_engine (map decoded bodies) e0 = Some e \<and> sr_counters res = be_ctr e \<and>
    (let rb = fold ref_apply (map decoded bodies) empty_reference
     in (\<forall>loc b. be_books e loc = Some b \<longrightarrow> same_answers rb loc b) \<and>
        ref_live_orders rb = rt_size (be_refs e))"
  using intact_session [OF assms] by (simp only: oracle_session_def)

theorem intact_session_matches_oracle_witness:
  "\<exists>bodies e0 e. frame print_body = framed bodies \<and>
     engine_init book_price_levels book_ref_capacity = Some e0 \<and>
     run_engine (map decoded bodies) e0 = Some e \<and>
     ref_live_orders (fold ref_apply (map decoded bodies) empty_reference) = rt_size (be_refs e)"
proof -
  obtain res where res: "run_session id (frame print_body) sample_program print_config = Inr res"
    "session_intact res" using print_session by blast
  have "length (frame print_body) < 2 ^ 64" by (simp add: print_body_def)
  from intact_session_matches_oracle [OF res this] show ?thesis by (auto simp: Let_def)
qed

end
