(* ===== verification/Mold.thy ===== *)
theory Mold
  imports ItchParser
begin

text \<open>
  MoldUDP64: the packet walk of \<open>src/sw/parser/mold_parser.hpp\<close> and the packet writer of
  \<open>src/tools/mold_wrap.cpp\<close>. A packet is a session name of 10 bytes, a sequence number, a
  message count and that many length-prefixed blocks. As in the ITCH parser every read is
  checked, and the block handler is the list of the blocks it is called with.
\<close>

subsection \<open>Walking packets\<close>

definition MOLD_HDR_BYTES :: nat where
  "MOLD_HDR_BYTES = 20"

record mold_stats =
  ml_packets :: u64
  ml_heartbeats :: u64
  ml_messages :: u64
  ml_gap_events :: u64
  ml_gap_msgs :: u64
  ml_stale :: u64
  ml_next_seq :: u64
  ml_init :: bool
  ml_end :: bool
  ml_truncated :: bool

definition no_mold_stats :: mold_stats where
  "no_mold_stats = \<lparr>ml_packets = 0, ml_heartbeats = 0, ml_messages = 0, ml_gap_events = 0,
     ml_gap_msgs = 0, ml_stale = 0, ml_next_seq = 0, ml_init = False, ml_end = False,
     ml_truncated = False\<rparr>"

type_synonym mold_state = "mold_stats \<times> bytes list"

text \<open>
  The loop over the blocks of a packet; \<open>Inl\<close> is its return from the whole walk when the
  stream ends inside the packet.
\<close>

fun mold_blocks :: "bytes \<Rightarrow> bool \<Rightarrow> nat \<Rightarrow> nat \<Rightarrow> mold_state \<Rightarrow> (mold_state + mold_state \<times> nat) option"
where
  "mold_blocks d stale 0 off (st, out) = Some (Inr ((st, out), off))"
| "mold_blocks d stale (Suc i) off (st, out) =
     (if off + 2 > length d then Some (Inl (st\<lparr>ml_truncated := True\<rparr>, out))
      else do {
        bl \<leftarrow> be16_at d off;
        if bl = 0 \<or> off + 2 + unat bl > length d then Some (Inl (st\<lparr>ml_truncated := True\<rparr>, out))
        else do {
          block \<leftarrow> read_at d off (2 + unat bl);
          mold_blocks d stale i (off + 2 + unat bl)
            (if stale then (st, out) else (st\<lparr>ml_messages := ml_messages st + 1\<rparr>, out @ [block]))
        }
      })"

definition mold_gap :: "u64 \<Rightarrow> mold_stats \<Rightarrow> mold_stats" where
  "mold_gap seq st =
     (if ml_init st \<and> seq > ml_next_seq st
      then st\<lparr>ml_gap_events := ml_gap_events st + 1, ml_gap_msgs := ml_gap_msgs st + (seq - ml_next_seq st)\<rparr>
      else st)"

definition mold_packet_done :: "bool \<Rightarrow> u64 \<Rightarrow> u16 \<Rightarrow> mold_stats \<Rightarrow> mold_stats" where
  "mold_packet_done stale seq cnt st =
     (let st1 = (if stale then st\<lparr>ml_stale := ml_stale st + 1\<rparr>
                 else st\<lparr>ml_next_seq := seq + ucast cnt, ml_init := True\<rparr>)
      in if cnt = 0 then st1\<lparr>ml_heartbeats := ml_heartbeats st1 + 1\<rparr> else st1)"

lemma mold_blocks_grow: "mold_blocks d stale n off s = Some (Inr (s', off')) \<Longrightarrow> off \<le> off'"
proof (induction d stale n off s rule: mold_blocks.induct)
  case (2 d stale i off st out)
  show ?case
  proof (cases "off + 2 > length d \<or> be16_at d off = None")
    case True
    then show ?thesis using 2(2) by (auto split: if_splits)
  next
    case False
    then obtain bl where bl: "\<not> off + 2 > length d" "be16_at d off = Some bl" by auto
    show ?thesis
    proof (cases "bl = 0 \<or> off + 2 + unat bl > length d \<or> read_at d off (2 + unat bl) = None")
      case True
      then show ?thesis using 2(2) bl by (auto split: if_splits)
    next
      case False
      then obtain block where "read_at d off (2 + unat bl) = Some block" by auto
      then have "off + 2 + unat bl \<le> off'"
        using 2(2) False bl by (intro 2(1) [OF bl]) auto
      then show ?thesis by simp
    qed
  qed
qed auto

function mold_walk :: "bytes \<Rightarrow> nat \<Rightarrow> mold_state \<Rightarrow> mold_state option" where
  "mold_walk d off s =
     (if off + MOLD_HDR_BYTES \<le> length d then do {
        seq \<leftarrow> be64_at d (off + 10);
        cnt \<leftarrow> be16_at d (off + 18);
        let st1 = (fst s)\<lparr>ml_packets := ml_packets (fst s) + 1\<rparr>;
        if cnt = 0xFFFF then Some (st1\<lparr>ml_end := True\<rparr>, snd s)
        else (let stale = ml_init st1 \<and> seq < ml_next_seq st1 in
          case mold_blocks d stale (unat cnt) (off + MOLD_HDR_BYTES) (mold_gap seq st1, snd s) of
            None \<Rightarrow> None
          | Some (Inl s') \<Rightarrow> Some s'
          | Some (Inr (s', off')) \<Rightarrow> mold_walk d off' (mold_packet_done stale seq cnt (fst s'), snd s'))
      } else Some s)"
  by pat_completeness auto
termination
proof (relation "measure (\<lambda>(d, off, s). length d - off)", goal_cases)
  case (2 d off s seq cnt st1 stale r1 r2 s' off')
  then have "off + MOLD_HDR_BYTES \<le> off'" using mold_blocks_grow by (metis prod.collapse)
  then show ?case using 2(1) by (auto simp: MOLD_HDR_BYTES_def)
qed simp

declare mold_walk.simps [simp del]

definition mold_parse_stream :: "bytes \<Rightarrow> (mold_stats \<times> decoded_message list) option" where
  "mold_parse_stream d = do {
     (st, blocks) \<leftarrow> mold_walk d 0 (no_mold_stats, []);
     Some (st, map (\<lambda>b. decoded (drop 2 b)) blocks)
   }"

definition mold_decap :: "bytes \<Rightarrow> (mold_stats \<times> bytes) option" where
  "mold_decap d = do {
     (st, blocks) \<leftarrow> mold_walk d 0 (no_mold_stats, []);
     Some (st, concat blocks)
   }"

subsection \<open>Writing packets\<close>

definition put_be16 :: "u16 \<Rightarrow> bytes" where
  "put_be16 x = [ucast (drop_bit 8 x), ucast (x AND 0xFF)]"

definition put_be64 :: "u64 \<Rightarrow> bytes" where
  "put_be64 x = map (\<lambda>i. ucast (drop_bit (8 * i) x)) (rev [0..<8])"

definition mold_session :: bytes where
  "mold_session = [0x4F, 0x42, 0x53, 0x45, 0x53, 0x53, 0x30, 0x30, 0x30, 0x31]"

definition put_header :: "u64 \<Rightarrow> u16 \<Rightarrow> bytes" where
  "put_header seq count = mold_session @ put_be64 seq @ put_be16 count"

text \<open>The blocks of the input, as offsets and sizes.\<close>

function wrap_split :: "bytes \<Rightarrow> nat \<Rightarrow> (nat \<times> nat) list" where
  "wrap_split d off =
     (if off + 2 \<le> length d
      then (let n = unat (push_bit 8 (ucast (d ! off)) OR ucast (d ! (off + 1)) :: u16) in
        if n = 0 \<or> off + 2 + n > length d then [] else (off, 2 + n) # wrap_split d (off + 2 + n))
      else [])"
  by pat_completeness auto
termination
  by (relation "measure (\<lambda>(d, off). length d - off)") auto

declare wrap_split.simps [simp del]

text \<open>
  The packets of up to \<open>per\<close> blocks; a dropped one still uses up its sequence numbers. The
  result is the bytes and the final sequence number. \<open>per\<close> is positive.
\<close>

function wrap_packets ::
  "bytes \<Rightarrow> nat \<Rightarrow> u64 set \<Rightarrow> (nat \<times> nat) list \<Rightarrow> u64 \<Rightarrow> u64 \<Rightarrow> bytes \<times> u64"
where
  "wrap_packets d per dropped msgs idx seq =
     (if msgs = [] \<or> per = 0 then ([], seq)
      else (let group = take per msgs; n = of_nat (length group) :: u64;
                (out, final) = wrap_packets d per dropped (drop per msgs) (idx + 1) (seq + n)
            in if idx \<in> dropped then (out, final)
               else (put_header seq (of_nat (length group)) @
                     concat (map (\<lambda>(off, n). take n (drop off d)) group) @ out, final)))"
  by pat_completeness auto
termination
  by (relation "measure (\<lambda>(d, per, dropped, msgs, idx, seq). length msgs)") auto

declare wrap_packets.simps [simp del]

text \<open>The whole tool, but for its files; a packet size it refuses is \<open>None\<close>.\<close>

definition mold_wrap :: "nat \<Rightarrow> u64 \<Rightarrow> u64 set \<Rightarrow> bool \<Rightarrow> bytes \<Rightarrow> bytes option" where
  "mold_wrap per seq dropped end_pkt d =
     (if per = 0 \<or> per \<ge> 0xFFFF then None
      else (case wrap_packets d per dropped (wrap_split d 0) 0 seq of
        (out, final) \<Rightarrow> Some (out @ (if end_pkt then put_header final 0xFFFF else []))))"

end
