(* ===== verification/MoldProps.thy ===== *)
theory MoldProps
  imports Mold
begin

text \<open>
  The round trip between the packet writer and the packet walk: what \<open>mold_wrap\<close> writes,
  \<open>decap\<close> unwraps to the blocks of the packets that were not dropped, and the gap counters
  account for the dropped ones.
\<close>

subsection \<open>Packets as data\<close>

lemma put_be64_store: "put_be64 x = store_be64 x"
  by (simp add: put_be64_def store_be64_conv le_of_word_def rev_map)

lemma ucast_low_byte: "(ucast (x AND 0xFF) :: u8) = ucast (x :: u16)"
proof -
  have "x AND 0xFF = take_bit 8 x" by (simp add: take_bit_eq_mask mask_eq_exp_minus_1)
  then show ?thesis by (intro bit_word_eqI) (simp add: bit_ucast_iff bit_take_bit_iff)
qed

lemma put_be16_store: "put_be16 x = store_be16 x"
  by (simp add: put_be16_def store_be16_conv le_of_word_def ucast_low_byte numeral_2_eq_2)

lemma length_put_header [simp]: "length (put_header seq cnt) = MOLD_HDR_BYTES"
  by (simp add: put_header_def put_be64_store put_be16_store mold_session_def MOLD_HDR_BYTES_def)

lemma header_fields [simp]:
  "be64 (take 8 (drop 10 (put_header seq cnt @ r))) = seq"
  "be16 (take 2 (drop 18 (put_header seq cnt @ r))) = cnt"
proof -
  have sess: "length mold_session = 10" by (simp add: mold_session_def)
  have "take 8 (drop 10 (put_header seq cnt @ r)) = store_be64 seq"
    by (simp add: put_header_def put_be64_store sess)
  then show "be64 (take 8 (drop 10 (put_header seq cnt @ r))) = seq"
    using be64_store [of seq "[]"] by simp
  have "put_header seq cnt @ r = (mold_session @ store_be64 seq) @ store_be16 cnt @ r"
    by (simp add: put_header_def put_be64_store put_be16_store)
  moreover have "length (mold_session @ store_be64 seq) = 18" by (simp add: sess)
  ultimately have "take 2 (drop 18 (put_header seq cnt @ r)) = store_be16 cnt"
    using take_drop_append [of 18 "mold_session @ store_be64 seq" 2 "store_be16 cnt" r] by simp
  then show "be16 (take 2 (drop 18 (put_header seq cnt @ r))) = cnt"
    using be16_store [of cnt "[]"] by simp
qed

lemma header_alone [simp]:
  "be64 (take 8 (drop 10 (put_header seq cnt))) = seq" "be16 (drop 18 (put_header seq cnt)) = cnt"
  using header_fields [of seq cnt "[]"] by (simp_all add: MOLD_HDR_BYTES_def)

type_synonym mold_packet = "u64 \<times> bytes list"

definition mold_pkt :: "mold_packet \<Rightarrow> bytes" where
  "mold_pkt = (\<lambda>(seq, bodies). put_header seq (of_nat (length bodies)) @ framed bodies)"

definition packet_ok :: "mold_packet \<Rightarrow> bool" where
  "packet_ok p \<longleftrightarrow> list_all frameable (snd p) \<and> length (snd p) < 0xFFFF"

text \<open>What a packet in sequence does to the counters.\<close>

definition take_packet :: "mold_packet \<Rightarrow> mold_stats \<Rightarrow> mold_stats" where
  "take_packet = (\<lambda>(seq, bodies) st.
     let st1 = mold_gap seq (st\<lparr>ml_packets := ml_packets st + 1\<rparr>) in
     mold_packet_done False seq (of_nat (length bodies))
       (st1\<lparr>ml_messages := ml_messages st1 + of_nat (length bodies)\<rparr>))"

lemma framed_append [simp]: "framed (xs @ ys) = framed xs @ framed ys"
  by (simp add: framed_def)

lemma be16_frame:
  assumes "frameable b"
  shows "be16 (take 2 (frame b @ r)) = of_nat (length b)" "unat (of_nat (length b) :: u16) = length b"
    "(of_nat (length b) :: u16) \<noteq> 0"
proof -
  show u: "unat (of_nat (length b) :: u16) = length b"
    using assms by (simp add: frameable_def unat_of_nat_u16)
  then show "(of_nat (length b) :: u16) \<noteq> 0"
    using assms by (metis frameable_def length_0_conv unsigned_0)
  have "take 2 (frame b @ r) = store_be16 (of_nat (length b))" by (simp add: frame_def)
  then show "be16 (take 2 (frame b @ r)) = of_nat (length b)"
    using be16_store [of "of_nat (length b)" "[]"] by simp
qed

lemma mold_blocks_framed:
  "list_all frameable bs \<Longrightarrow>
   mold_blocks (pre @ framed bs @ r) False (length bs) (length pre) (st, out) =
     Some (Inr ((st\<lparr>ml_messages := ml_messages st + of_nat (length bs)\<rparr>, out @ map frame bs),
       length pre + length (framed bs)))"
proof (induction bs arbitrary: pre st out)
  case (Cons b bs)
  let ?d = "pre @ framed (b # bs) @ r" and ?off = "length pre"
  have b: "frameable b" using Cons.prems by simp
  have d: "?d = pre @ frame b @ framed bs @ r" by simp
  have bl: "be16_at ?d ?off = Some (of_nat (length b))"
    using be16_frame(1) [OF b, of "framed bs @ r"] by simp
  have fits: "\<not> ?off + 2 + length b > length ?d" by simp
  have block: "read_at ?d ?off (2 + length b) = Some (frame b)" by simp
  have "mold_blocks ?d False (Suc (length bs)) ?off (st, out) =
      mold_blocks ((pre @ frame b) @ framed bs @ r) False (length bs) (length (pre @ frame b))
        (st\<lparr>ml_messages := ml_messages st + 1\<rparr>, out @ [frame b])"
    using be16_frame(2,3) [OF b] bl fits block by simp
  also have "\<dots> = Some (Inr ((st\<lparr>ml_messages := ml_messages st + 1 + of_nat (length bs)\<rparr>,
      out @ frame b # map frame bs), length (pre @ frame b) + length (framed bs)))"
    using Cons.prems by (subst Cons.IH) simp_all
  finally show ?case by (simp add: add.assoc)
qed simp

lemma mold_walk_packet:
  assumes "packet_ok (seq, bodies)" "\<not> (ml_init st \<and> seq < ml_next_seq st)"
  shows "mold_walk (pre @ mold_pkt (seq, bodies) @ r) (length pre) (st, out) =
    mold_walk (pre @ mold_pkt (seq, bodies) @ r) (length (pre @ mold_pkt (seq, bodies)))
      (take_packet (seq, bodies) st, out @ map frame bodies)"
proof -
  let ?d = "pre @ mold_pkt (seq, bodies) @ r" and ?n = "length bodies"
  let ?h = "put_header seq (of_nat ?n)"
  have n: "?n < 0xFFFF" "list_all frameable bodies" using assms(1) by (simp_all add: packet_ok_def)
  then have cnt: "unat (of_nat ?n :: u16) = ?n" by (simp add: unat_of_nat_u16)
  have not_end: "(of_nat ?n :: u16) \<noteq> 0xFFFF"
  proof
    assume "(of_nat ?n :: u16) = 0xFFFF"
    then have "unat (of_nat ?n :: u16) = 0xFFFF" by simp
    then show False using cnt n(1) by simp
  qed
  have d: "?d = pre @ ?h @ framed bodies @ r" by (simp add: mold_pkt_def)
  have drop10: "drop (length pre + k) ?d = drop k (?h @ framed bodies @ r)" for k
    unfolding d by simp
  have fits: "length pre + MOLD_HDR_BYTES \<le> length ?d" unfolding d by simp
  then have reads: "be64_at ?d (length pre + 10) = Some seq" "be16_at ?d (length pre + 18) = Some (of_nat ?n)"
    using drop10 by (simp_all add: MOLD_HDR_BYTES_def)
  let ?st1 = "st\<lparr>ml_packets := ml_packets st + 1\<rparr>"
  have blocks: "mold_blocks ?d False ?n (length pre + MOLD_HDR_BYTES) (mold_gap seq ?st1, out) =
      Some (Inr (((mold_gap seq ?st1)\<lparr>ml_messages := ml_messages (mold_gap seq ?st1) + of_nat ?n\<rparr>,
        out @ map frame bodies), length pre + MOLD_HDR_BYTES + length (framed bodies)))"
    using mold_blocks_framed [OF n(2), of "pre @ ?h" r "mold_gap seq ?st1" out] unfolding d by simp
  have len: "length (pre @ mold_pkt (seq, bodies)) = length pre + MOLD_HDR_BYTES + length (framed bodies)"
    by (simp add: mold_pkt_def)
  have stale: "(ml_init ?st1 \<and> seq < ml_next_seq ?st1) = False" using assms(2) by simp
  show ?thesis
    unfolding len
    by (subst mold_walk.simps)
      (simp only: fits if_True reads Option.bind_lunit Let_def fst_conv snd_conv not_end if_False stale cnt
        blocks option.case sum.case prod.case take_packet_def)
qed

subsection \<open>Packets in sequence\<close>

text \<open>Sequence numbers that never go back, from \<open>low\<close> on, and stay below \<open>2 ^ 64\<close>.\<close>

fun spaced :: "nat \<Rightarrow> mold_packet list \<Rightarrow> bool" where
  "spaced low [] = True"
| "spaced low ((seq, bodies) # ps) \<longleftrightarrow> low \<le> unat seq \<and> unat seq + length bodies < 2 ^ 64 \<and>
     spaced (unat seq + length bodies) ps"

definition due :: "mold_stats \<Rightarrow> nat" where
  "due st = (if ml_init st then unat (ml_next_seq st) else 0)"

lemma take_packet_fields:
  "ml_next_seq (take_packet (seq, bodies) st) = seq + ucast (of_nat (length bodies) :: u16)"
  "ml_init (take_packet (seq, bodies) st)"
  "ml_stale (take_packet (seq, bodies) st) = ml_stale st"
  "ml_end (take_packet (seq, bodies) st) = ml_end st"
  "ml_truncated (take_packet (seq, bodies) st) = ml_truncated st"
  "ml_messages (take_packet (seq, bodies) st) = ml_messages st + of_nat (length bodies)"
  "ml_gap_msgs (take_packet (seq, bodies) st) = ml_gap_msgs st +
     (if ml_init st \<and> seq > ml_next_seq st then seq - ml_next_seq st else 0)"
  by (simp_all add: take_packet_def mold_packet_done_def mold_gap_def Let_def)

lemma unat_after_packet:
  assumes "packet_ok (seq, bodies)" "unat seq + length bodies < 2 ^ 64"
  shows "unat (seq + ucast (of_nat (length bodies) :: u16)) = unat seq + length bodies"
proof -
  have "length bodies < 65536" using assms(1) by (simp add: packet_ok_def)
  then have "unat (ucast (of_nat (length bodies) :: u16) :: u64) = length bodies"
    by (simp add: unat_ucast_up unat_of_nat_u16)
  then show ?thesis using assms(2) by (simp add: unat_plus_no_wrap)
qed

lemma due_after:
  "packet_ok (seq, bodies) \<Longrightarrow> unat seq + length bodies < 2 ^ 64 \<Longrightarrow>
   due (take_packet (seq, bodies) st) = unat seq + length bodies"
  by (simp add: due_def take_packet_fields unat_after_packet)

lemma mold_walk_packets:
  "list_all packet_ok ps \<Longrightarrow> spaced (due st) ps \<Longrightarrow>
   mold_walk (pre @ concat (map mold_pkt ps) @ r) (length pre) (st, out) =
   mold_walk (pre @ concat (map mold_pkt ps) @ r) (length (pre @ concat (map mold_pkt ps)))
     (fold take_packet ps st, out @ map frame (concat (map snd ps)))"
proof (induction ps arbitrary: pre st out)
  case (Cons p ps)
  obtain seq bodies where p: "p = (seq, bodies)" by (cases p)
  have ok: "packet_ok (seq, bodies)" "due st \<le> unat seq" "unat seq + length bodies < 2 ^ 64"
    "list_all packet_ok ps" "spaced (unat seq + length bodies) ps"
    using Cons.prems p by auto
  have fresh: "\<not> (ml_init st \<and> seq < ml_next_seq st)"
    using ok(2) by (auto simp: due_def word_less_nat_alt)
  have "mold_walk (pre @ mold_pkt p @ concat (map mold_pkt ps) @ r) (length pre) (st, out) =
      mold_walk ((pre @ mold_pkt p) @ concat (map mold_pkt ps) @ r) (length (pre @ mold_pkt p))
        (take_packet p st, out @ map frame bodies)"
    using mold_walk_packet [OF ok(1) fresh] p by simp
  also have "\<dots> = mold_walk ((pre @ mold_pkt p) @ concat (map mold_pkt ps) @ r)
      (length ((pre @ mold_pkt p) @ concat (map mold_pkt ps)))
      (fold take_packet ps (take_packet p st), (out @ map frame bodies) @ map frame (concat (map snd ps)))"
    using ok due_after [OF ok(1,3)] p by (intro Cons.IH) simp_all
  finally show ?case using p by simp
qed simp

lemma mold_walk_short: "length d < off + MOLD_HDR_BYTES \<Longrightarrow> mold_walk d off s = Some s"
  by (subst mold_walk.simps) simp

lemma mold_walk_end:
  "mold_walk (pre @ put_header seq 0xFFFF @ r) (length pre) (st, out) =
   Some (st\<lparr>ml_packets := ml_packets st + 1, ml_end := True\<rparr>, out)"
proof -
  let ?d = "pre @ put_header seq 0xFFFF @ r"
  have fits: "length pre + MOLD_HDR_BYTES \<le> length ?d" by simp
  have "drop (length pre + k) ?d = drop k (put_header seq 0xFFFF @ r)" for k by simp
  then have reads: "be64_at ?d (length pre + 10) = Some seq" "be16_at ?d (length pre + 18) = Some 0xFFFF"
    using fits by (simp_all add: MOLD_HDR_BYTES_def)
  show ?thesis
    by (subst mold_walk.simps)
      (simp only: fits if_True reads Option.bind_lunit Let_def fst_conv snd_conv simp_thms)
qed

subsection \<open>What the writer writes\<close>

text \<open>The specification: groups of \<open>per\<close> bodies with their sequence numbers, without the dropped.\<close>

function kept_packets :: "nat \<Rightarrow> u64 set \<Rightarrow> bytes list \<Rightarrow> u64 \<Rightarrow> u64 \<Rightarrow> mold_packet list" where
  "kept_packets per dropped bodies idx seq =
     (if bodies = [] \<or> per = 0 then []
      else (let group = take per bodies;
                rest = kept_packets per dropped (drop per bodies) (idx + 1) (seq + of_nat (length group))
            in if idx \<in> dropped then rest else (seq, group) # rest))"
  by pat_completeness auto
termination
  by (relation "measure (\<lambda>(per, dropped, bodies, idx, seq). length bodies)") auto

declare kept_packets.simps [simp del]

definition slice :: "bytes \<Rightarrow> nat \<times> nat \<Rightarrow> bytes" where
  "slice d = (\<lambda>(off, n). take n (drop off d))"

lemma be16_pair: "push_bit 8 (ucast a) OR ucast b = be16 [a, b]"
  by (simp add: be16_conv or.commute)

lemma wrap_split_frames: "map (slice d) (wrap_split d off) = map frame (frames (drop off d))"
proof (induction d off rule: wrap_split.induct)
  case (1 d off)
  show ?case
  proof (cases "off + 2 \<le> length d")
    case False
    then show ?thesis by (subst wrap_split.simps) (simp add: frames_short)
  next
    case True
    define n where "n = unat (be16 (take 2 (drop off d)))"
    have two: "take 2 (drop off d) = [d ! off, d ! (off + 1)]"
      using True by (intro nth_equalityI) (auto simp: nth_Cons split: nat.splits)
    then have n: "n = unat (push_bit 8 (ucast (d ! off)) OR ucast (d ! (off + 1)) :: u16)"
      by (simp add: n_def be16_pair)
    note fr = frames_drop [OF True n_def]
    show ?thesis
    proof (cases "n = 0 \<or> off + 2 + n > length d")
      case cut: True
      then have "frames (drop off d) = []" using fr by simp
      then show ?thesis using True cut by (subst wrap_split.simps, unfold Let_def n [symmetric]) simp
    next
      case False
      let ?body = "take n (drop (off + 2) d)"
      have "off + 2 + n \<le> length d" using False by simp
      then have len: "length ?body = n" by (simp add: min_absorb2)
      have "be16 (take 2 (drop off d)) = of_nat n" by (simp add: n_def)
      then have "store_be16 (of_nat n) = take 2 (drop off d)"
        using store_be16_be16 [of "d ! off" "d ! (off + 1)"] two by simp
      then have "frame ?body = take 2 (drop off d) @ take n (drop 2 (drop off d))"
        unfolding frame_def len by (simp add: add.commute)
      also have "\<dots> = slice d (off, 2 + n)" by (simp only: slice_def prod.case take_add)
      finally have frame: "slice d (off, 2 + n) = frame ?body" ..
      have "map (slice d) (wrap_split d (off + 2 + n)) = map frame (frames (drop (off + 2 + n) d))"
        using 1 [OF True n] False by simp
      moreover have "wrap_split d off = (off, 2 + n) # wrap_split d (off + 2 + n)"
        using True False by (subst wrap_split.simps, unfold Let_def n [symmetric]) simp
      moreover have "frames (drop off d) = ?body # frames (drop (off + 2 + n) d)" using fr False by simp
      ultimately show ?thesis using frame by simp
    qed
  qed
qed

lemma wrap_packets_kept:
  "map (slice d) msgs = map frame bodies \<Longrightarrow>
   fst (wrap_packets d per dropped msgs idx seq) = concat (map mold_pkt (kept_packets per dropped bodies idx seq))"
proof (induction d per dropped msgs idx seq arbitrary: bodies rule: wrap_packets.induct)
  case (1 d per dropped msgs idx seq)
  have len: "length msgs = length bodies" using 1(2) by (rule map_eq_imp_length_eq)
  show ?case
  proof (cases "msgs = [] \<or> per = 0")
    case True
    then show ?thesis using len by (subst wrap_packets.simps, subst kept_packets.simps) auto
  next
    case False
    let ?seq = "seq + of_nat (length (take per msgs)) :: u64"
    obtain out fin where rec: "wrap_packets d per dropped (drop per msgs) (idx + 1) ?seq = (out, fin)"
      by (metis prod.exhaust)
    have group: "map (slice d) (take per msgs) = map frame (take per bodies)"
      using 1(2) by (metis take_map)
    have "map (slice d) (drop per msgs) = map frame (drop per bodies)" using 1(2) by (metis drop_map)
    then have out: "out = concat (map mold_pkt
        (kept_packets per dropped (drop per bodies) (idx + 1) (seq + of_nat (length (take per bodies)))))"
      using 1(1) [OF False refl refl, of "drop per bodies"] rec len by simp
    have bytes: "concat (map (\<lambda>(off, n). take n (drop off d)) (take per msgs)) = framed (take per bodies)"
      using group by (simp add: slice_def [abs_def] framed_def)
    have "wrap_packets d per dropped msgs idx seq = (if idx \<in> dropped then (out, fin)
        else (put_header seq (of_nat (length (take per msgs))) @ framed (take per bodies) @ out, fin))"
      using False rec bytes by (subst wrap_packets.simps) (simp add: Let_def)
    moreover have "kept_packets per dropped bodies idx seq =
        (let rest = kept_packets per dropped (drop per bodies) (idx + 1) (seq + of_nat (length (take per bodies)))
         in if idx \<in> dropped then rest else (seq, take per bodies) # rest)"
      using False len by (subst kept_packets.simps) (auto simp: Let_def)
    ultimately show ?thesis using out len by (simp add: Let_def mold_pkt_def)
  qed
qed

lemma spaced_mono: "spaced low ps \<Longrightarrow> low' \<le> low \<Longrightarrow> spaced low' ps"
  by (cases ps) auto

lemma kept_packets_ok:
  "list_all frameable bodies \<Longrightarrow> per < 0xFFFF \<Longrightarrow> unat seq + length bodies < 2 ^ 64 \<Longrightarrow>
   list_all packet_ok (kept_packets per dropped bodies idx seq) \<and>
   spaced (unat seq) (kept_packets per dropped bodies idx seq)"
proof (induction per dropped bodies idx seq rule: kept_packets.induct)
  case (1 per dropped bodies idx seq)
  show ?case
  proof (cases "bodies = [] \<or> per = 0")
    case True
    then show ?thesis by (subst kept_packets.simps, subst kept_packets.simps) auto
  next
    case False
    let ?group = "take per bodies" and ?rest = "drop per bodies"
    let ?seq = "seq + of_nat (length ?group) :: u64"
    let ?ps = "kept_packets per dropped ?rest (idx + 1) ?seq"
    have split: "length ?group + length ?rest = length bodies" by simp
    have "length ?group < 2 ^ 64" using 1(4) split by linarith
    then have "unat (of_nat (length ?group) :: u64) = length ?group"
      by (simp add: unsigned_of_nat take_bit_nat_eq_self)
    then have seq: "unat ?seq = unat seq + length ?group"
      using 1(4) by (simp add: unat_plus_no_wrap)
    have all: "list_all frameable ?group" "list_all frameable ?rest"
      using 1(2) by (metis append_take_drop_id list_all_append)+
    have "unat ?seq + length ?rest < 2 ^ 64" using 1(4) split seq by linarith
    then have IH: "list_all packet_ok ?ps" "spaced (unat ?seq) ?ps"
      using 1(1) [OF False refl] all(2) 1(3) by blast+
    have "packet_ok (seq, ?group)" using all(1) 1(3) by (simp add: packet_ok_def)
    moreover have "unat seq + length ?group < 2 ^ 64" using 1(4) split by linarith
    moreover have "spaced (unat seq) ?ps" by (rule spaced_mono [OF IH(2)]) (simp only: seq le_add1)
    ultimately show ?thesis
      using False IH seq by (subst kept_packets.simps, subst kept_packets.simps) (auto simp: Let_def)
  qed
qed

lemma kept_all: "per \<noteq> 0 \<Longrightarrow> concat (map snd (kept_packets per {} bodies idx seq)) = bodies"
proof (induction per "{} :: u64 set" bodies idx seq rule: kept_packets.induct)
  case (1 per bodies idx seq)
  then show ?case by (subst kept_packets.simps) (auto simp: Let_def)
qed

subsection \<open>The counters over a run of packets\<close>

lemma fold_take_frame:
  "ml_stale (fold take_packet ps st) = ml_stale st"
  "ml_end (fold take_packet ps st) = ml_end st"
  "ml_truncated (fold take_packet ps st) = ml_truncated st"
  "ml_messages (fold take_packet ps st) = ml_messages st + of_nat (length (concat (map snd ps)))"
proof (induction ps arbitrary: st)
  case (Cons p ps)
  obtain seq bodies where p: "p = (seq, bodies)" by (cases p)
  {
    case 1
    show ?case using Cons.IH(1) by (simp add: p take_packet_fields)
  next
    case 2
    show ?case using Cons.IH(2) by (simp add: p take_packet_fields)
  next
    case 3
    show ?case using Cons.IH(3) by (simp add: p take_packet_fields)
  next
    case 4
    show ?case using Cons.IH(4) by (simp add: p take_packet_fields add.assoc)
  }
qed simp_all

text \<open>Messages taken and lost since \<open>base\<close>, without wrap-around.\<close>

definition accounted :: "nat \<Rightarrow> mold_stats \<Rightarrow> bool" where
  "accounted base st \<longleftrightarrow> ml_init st \<and>
     unat (ml_gap_msgs st) + unat (ml_messages st) + base = unat (ml_next_seq st)"

lemma take_packet_accounted:
  assumes "packet_ok (seq, bodies)" "accounted base st" "unat (ml_next_seq st) \<le> unat seq"
    "unat seq + length bodies < 2 ^ 64"
  shows "accounted base (take_packet (seq, bodies) st)"
proof -
  let ?st = "take_packet (seq, bodies) st" and ?n = "length bodies"
  have sum: "unat (ml_gap_msgs st) + unat (ml_messages st) + base = unat (ml_next_seq st)"
    using assms(2) by (simp add: accounted_def)
  have "?n < 2 ^ 64" using assms(4) by linarith
  then have n: "unat (of_nat ?n :: u64) = ?n" by (simp add: unsigned_of_nat take_bit_nat_eq_self)
  have le: "ml_next_seq st \<le> seq" using assms(3) by (simp add: word_le_nat_alt)
  have gap: "ml_gap_msgs ?st = ml_gap_msgs st + (seq - ml_next_seq st)"
    using assms(2) le by (auto simp: take_packet_fields accounted_def)
  have diff: "unat (seq - ml_next_seq st) = unat seq - unat (ml_next_seq st)"
    by (rule unat_minus_le [OF le])
  have "unat (ml_gap_msgs st) + unat (seq - ml_next_seq st) < 2 ^ 64"
    using sum diff assms(3,4) by linarith
  then have g: "unat (ml_gap_msgs ?st) = unat (ml_gap_msgs st) + (unat seq - unat (ml_next_seq st))"
    unfolding gap diff [symmetric] by (simp add: unat_plus_no_wrap)
  have "unat (ml_messages st) + unat (of_nat ?n :: u64) < 2 ^ 64"
    using sum assms(3,4) n by linarith
  then have m: "unat (ml_messages ?st) = unat (ml_messages st) + ?n"
    using n unat_plus_no_wrap [of "ml_messages st" "of_nat ?n"] by (simp add: take_packet_fields)
  have nx: "unat (ml_next_seq ?st) = unat seq + ?n"
    unfolding take_packet_fields by (rule unat_after_packet [OF assms(1,4)])
  show ?thesis
    unfolding accounted_def g m nx using sum assms(3) by (simp add: take_packet_fields(2))
qed

lemma fold_take_accounted:
  "list_all packet_ok ps \<Longrightarrow> accounted base st \<Longrightarrow> spaced (unat (ml_next_seq st)) ps \<Longrightarrow>
   accounted base (fold take_packet ps st)"
proof (induction ps arbitrary: st)
  case (Cons p ps)
  obtain seq bodies where p: "p = (seq, bodies)" by (cases p)
  have ok: "packet_ok (seq, bodies)" "unat (ml_next_seq st) \<le> unat seq" "unat seq + length bodies < 2 ^ 64"
    "spaced (unat seq + length bodies) ps" "list_all packet_ok ps"
    using Cons.prems p by auto
  have "spaced (unat (ml_next_seq (take_packet (seq, bodies) st))) ps"
    unfolding take_packet_fields unat_after_packet [OF ok(1,3)] by (rule ok(4))
  from Cons.IH [OF ok(5) take_packet_accounted [OF ok(1) Cons.prems(2) ok(2,3)] this]
  show ?case by (simp add: p)
qed simp

lemma first_packet_accounted:
  assumes "packet_ok (seq, bodies)" "unat seq + length bodies < 2 ^ 64"
  shows "accounted (unat seq) (take_packet (seq, bodies) no_mold_stats)"
proof -
  have "length bodies < 2 ^ 64" using assms(2) by linarith
  then have n: "unat (of_nat (length bodies) :: u64) = length bodies"
    by (simp add: unsigned_of_nat take_bit_nat_eq_self)
  show ?thesis
    unfolding accounted_def take_packet_fields unat_after_packet [OF assms]
    using take_packet_fields(2) [of seq bodies no_mold_stats] by (simp add: no_mold_stats_def n)
qed

subsection \<open>The round trip\<close>

lemma unwrap_wrapped:
  assumes "mold_wrap per seq dropped end_pkt d = Some out" "unat seq + length (frames d) < 2 ^ 64"
    "end_pkt \<or> length rest < MOLD_HDR_BYTES"
  shows "\<exists>st. let ps = kept_packets per dropped (frames d) 0 seq in
    mold_decap (out @ rest) = Some (st, framed (concat (map snd ps))) \<and>
    ml_messages st = of_nat (length (concat (map snd ps))) \<and> ml_stale st = 0 \<and>
    \<not> ml_truncated st \<and> ml_end st = end_pkt \<and>
    (case ps of [] \<Rightarrow> ml_gap_msgs st = 0
     | (first, _) # _ \<Rightarrow>
         unat (ml_gap_msgs st) + unat (ml_messages st) + unat first = unat (ml_next_seq st))"
proof -
  let ?ps = "kept_packets per dropped (frames d) 0 seq" and ?st = "fold take_packet (kept_packets per dropped (frames d) 0 seq) no_mold_stats"
  let ?body = "concat (map mold_pkt ?ps)"
  obtain bytes fin where w: "wrap_packets d per dropped (wrap_split d 0) 0 seq = (bytes, fin)"
    by (metis prod.exhaust)
  have per: "per \<noteq> 0" "per < 0xFFFF" and out: "out = bytes @ (if end_pkt then put_header fin 0xFFFF else [])"
    using assms(1) w by (auto simp: mold_wrap_def split: if_splits)
  have "bytes = ?body"
    using wrap_packets_kept [OF wrap_split_frames [of d 0], of per dropped 0 seq] w by simp
  then have d: "out @ rest = ?body @ (if end_pkt then put_header fin 0xFFFF else []) @ rest" using out by simp
  have ok: "list_all packet_ok ?ps" "spaced (unat seq) ?ps"
    using kept_packets_ok [OF frames_frameable per(2) assms(2)] by blast+
  have sp: "spaced (due no_mold_stats) ?ps"
    by (rule spaced_mono [OF ok(2)]) (simp add: due_def no_mold_stats_def)
  have walk: "mold_walk (out @ rest) 0 (no_mold_stats, []) = mold_walk (out @ rest) (length ?body)
      (?st, map frame (concat (map snd ?ps)))"
    using mold_walk_packets [OF ok(1) sp, of "[]" _ "[]"] unfolding d by simp
  define st where "st = (if end_pkt then ?st\<lparr>ml_packets := ml_packets ?st + 1, ml_end := True\<rparr> else ?st)"
  have fin: "mold_walk (out @ rest) (length ?body) (?st, map frame (concat (map snd ?ps))) =
      Some (st, map frame (concat (map snd ?ps)))"
  proof (cases end_pkt)
    case True
    then show ?thesis unfolding d by (simp add: mold_walk_end st_def)
  next
    case False
    then have "length (out @ rest) < length ?body + MOLD_HDR_BYTES" using assms(3) unfolding d by simp
    then show ?thesis using False by (simp add: mold_walk_short st_def)
  qed
  have decap: "mold_decap (out @ rest) = Some (st, framed (concat (map snd ?ps)))"
    by (simp add: mold_decap_def walk fin framed_def)
  have acc: "case ?ps of [] \<Rightarrow> ml_gap_msgs ?st = 0
     | (first, _) # _ \<Rightarrow> unat (ml_gap_msgs ?st) + unat (ml_messages ?st) + unat first = unat (ml_next_seq ?st)"
  proof (cases ?ps)
    case Nil
    then show ?thesis by (simp add: no_mold_stats_def)
  next
    case (Cons p ps)
    obtain s0 bodies where p: "p = (s0, bodies)" by (cases p)
    have one: "packet_ok (s0, bodies)" "unat s0 + length bodies < 2 ^ 64" "list_all packet_ok ps"
      "spaced (unat s0 + length bodies) ps"
      using ok Cons p by auto
    have "spaced (unat (ml_next_seq (take_packet (s0, bodies) no_mold_stats))) ps"
      unfolding take_packet_fields unat_after_packet [OF one(1,2)] by (rule one(4))
    from fold_take_accounted [OF one(3) first_packet_accounted [OF one(1,2)] this]
    show ?thesis using Cons p by (simp add: accounted_def)
  qed
  have same: "ml_gap_msgs st = ml_gap_msgs ?st" "ml_messages st = ml_messages ?st"
    "ml_next_seq st = ml_next_seq ?st" "ml_stale st = ml_stale ?st" "ml_truncated st = ml_truncated ?st"
    "ml_end st = (end_pkt \<or> ml_end ?st)"
    by (simp_all add: st_def)
  have "ml_stale st = 0" "\<not> ml_truncated st" "ml_end st = end_pkt"
    "ml_messages st = of_nat (length (concat (map snd ?ps)))"
    unfolding same fold_take_frame by (simp_all add: no_mold_stats_def)
  then show ?thesis
    using decap acc [folded same(1-3)] unfolding Let_def by blast
qed



end
