(* ===== verification/SpscQueue.thy ===== *)
theory SpscQueue
  imports Prelude
begin

text \<open>
  The single-producer single-consumer ring of \<open>src/sw/util/spsc_queue.hpp\<close>, step by step: each
  call is split at its accesses to the two atomic indices and to the slots. A load of the other
  thread's index (memory order acquire) may return any value that index has had since this
  thread last looked, which is what the C++ memory model allows; a thread's own index is read
  exactly. The slots are plain memory: that no slot is written while it may be read is proved
  below, so their accesses need no further interleaving.
\<close>

record 'a spsc =
  sq_write :: u64
  sq_read :: u64
  sq_slots :: "'a list"

text \<open>The program counters of the two threads, with their local variables.\<close>

datatype 'a producer = P_idle | P_store u64 'a | P_publish u64 'a
datatype 'a consumer = C_idle | C_load u64 | C_publish u64 'a

definition slot_of :: "nat \<Rightarrow> u64 \<Rightarrow> nat" where
  "slot_of n i = unat (i AND (of_nat n - 1))"

subsection \<open>The steps of the calls\<close>

text \<open>
  \<open>push\<close>: the two loads and the test (\<open>r\<close> is the value loaded from \<open>read_idx_\<close>); the store
  to the slot; the release store of the index. A full queue ends the call with \<open>P_idle\<close>.
\<close>

definition push_begin :: "nat \<Rightarrow> u64 \<Rightarrow> 'a \<Rightarrow> 'a spsc \<Rightarrow> 'a producer" where
  "push_begin n r v q = (let w = sq_write q in if w - r \<ge> of_nat n then P_idle else P_store w v)"

definition push_store :: "nat \<Rightarrow> u64 \<Rightarrow> 'a \<Rightarrow> 'a spsc \<Rightarrow> 'a spsc" where
  "push_store n w v q = q\<lparr>sq_slots := (sq_slots q)[slot_of n w := v]\<rparr>"

definition push_publish :: "u64 \<Rightarrow> 'a spsc \<Rightarrow> 'a spsc" where
  "push_publish w q = q\<lparr>sq_write := w + 1\<rparr>"

definition pop_begin :: "u64 \<Rightarrow> 'a spsc \<Rightarrow> 'a consumer" where
  "pop_begin w q = (let r = sq_read q in if r = w then C_idle else C_load r)"

definition pop_load :: "nat \<Rightarrow> u64 \<Rightarrow> 'a spsc \<Rightarrow> 'a" where
  "pop_load n r q = sq_slots q ! slot_of n r"

definition pop_publish :: "u64 \<Rightarrow> 'a spsc \<Rightarrow> 'a spsc" where
  "pop_publish r q = q\<lparr>sq_read := r + 1\<rparr>"

definition sq_size :: "'a spsc \<Rightarrow> u64" where
  "sq_size q = sq_write q - sq_read q"

subsection \<open>Interleavings\<close>

text \<open>
  A state of the two threads, with the history: the values pushed and popped so far, and how
  many pops the producer and how many pushes the consumer has seen.
\<close>

record 'a spsc_state =
  sp_queue :: "'a spsc"
  sp_prod :: "'a producer"
  sp_cons :: "'a consumer"
  sp_pushed :: "'a list"
  sp_popped :: "'a list"
  sp_pseen :: nat
  sp_cseen :: nat

definition spsc_start :: "'a list \<Rightarrow> 'a spsc_state" where
  "spsc_start slots = \<lparr>sp_queue = \<lparr>sq_write = 0, sq_read = 0, sq_slots = slots\<rparr>, sp_prod = P_idle,
     sp_cons = C_idle, sp_pushed = [], sp_popped = [], sp_pseen = 0, sp_cseen = 0\<rparr>"

inductive spsc_step :: "nat \<Rightarrow> 'a spsc_state \<Rightarrow> 'a spsc_state \<Rightarrow> bool" for n where
  push_begin: "sp_prod s = P_idle \<Longrightarrow> sp_pseen s \<le> k \<Longrightarrow> k \<le> length (sp_popped s) \<Longrightarrow>
    spsc_step n s (s\<lparr>sp_prod := push_begin n (of_nat k) v (sp_queue s), sp_pseen := k\<rparr>)"
| push_store: "sp_prod s = P_store w v \<Longrightarrow>
    spsc_step n s (s\<lparr>sp_queue := push_store n w v (sp_queue s), sp_prod := P_publish w v\<rparr>)"
| push_publish: "sp_prod s = P_publish w v \<Longrightarrow>
    spsc_step n s (s\<lparr>sp_queue := push_publish w (sp_queue s), sp_prod := P_idle,
      sp_pushed := sp_pushed s @ [v]\<rparr>)"
| pop_begin: "sp_cons s = C_idle \<Longrightarrow> sp_cseen s \<le> k \<Longrightarrow> k \<le> length (sp_pushed s) \<Longrightarrow>
    spsc_step n s (s\<lparr>sp_cons := pop_begin (of_nat k) (sp_queue s), sp_cseen := k\<rparr>)"
| pop_load: "sp_cons s = C_load r \<Longrightarrow>
    spsc_step n s (s\<lparr>sp_cons := C_publish r (pop_load n r (sp_queue s))\<rparr>)"
| pop_publish: "sp_cons s = C_publish r x \<Longrightarrow>
    spsc_step n s (s\<lparr>sp_queue := pop_publish r (sp_queue s), sp_cons := C_idle,
      sp_popped := sp_popped s @ [x]\<rparr>)"

inductive spsc_run :: "nat \<Rightarrow> 'a spsc_state \<Rightarrow> bool" for n where
  run_start: "length slots = n \<Longrightarrow> spsc_run n (spsc_start slots)"
| run_step: "spsc_run n s \<Longrightarrow> spsc_step n s s' \<Longrightarrow> spsc_run n s'"

subsection \<open>Indices and slots\<close>

text \<open>The capacity is a power of two that fits an index.\<close>

definition capacity_ok :: "nat \<Rightarrow> bool" where
  "capacity_ok n \<longleftrightarrow> (\<exists>k < 64. n = 2 ^ k)"

lemma slot_of_nat:
  assumes "capacity_ok n"
  shows "slot_of n (of_nat i) = i mod n"
proof -
  obtain k where k: "k < 64" "n = 2 ^ k" using assms by (auto simp: capacity_ok_def)
  have "(of_nat n :: u64) - 1 = mask k" by (simp add: k(2) mask_eq_exp_minus_1)
  then have "slot_of n (of_nat i) = unat (take_bit k (of_nat i :: u64))"
    by (simp add: slot_of_def take_bit_eq_mask)
  also have "\<dots> = take_bit k (take_bit 64 i)" by (simp add: unsigned_take_bit_eq unsigned_of_nat)
  also have "\<dots> = i mod n" using k by (simp add: take_bit_take_bit) (simp add: take_bit_eq_mod)
  finally show ?thesis .
qed

lemma slots_differ:
  assumes "j \<le> i" "i < j + n" "i mod n = j mod n"
  shows "i = (j :: nat)"
proof (rule ccontr)
  assume "i \<noteq> j"
  then have "0 < i - j" "i - j < n" using assms(1,2) by auto
  moreover have "n dvd i - j" using assms(1,3) by (simp add: mod_eq_dvd_iff_nat)
  ultimately show False by (auto dest: dvd_imp_le)
qed

lemma capacity_bounds: "capacity_ok n \<Longrightarrow> 0 < n \<and> n < 2 ^ 64"
proof -
  assume "capacity_ok n"
  then obtain k where "k < 64" "n = 2 ^ k" by (auto simp: capacity_ok_def)
  moreover from this(1) have "(2 :: nat) ^ k < 2 ^ 64" by (rule power_strict_increasing) simp
  ultimately show ?thesis by simp
qed

lemma index_gap:
  assumes "capacity_ok n" "k \<le> w" "w \<le> k + n"
  shows "((of_nat w :: u64) - of_nat k \<ge> of_nat n) = (w = k + n)"
proof -
  note n = capacity_bounds [OF assms(1)]
  have "(of_nat w :: u64) - of_nat k = of_nat (w - k)" using assms(2) by (simp add: of_nat_diff)
  moreover have "w - k < 2 ^ 64" using n assms(3) by linarith
  then have "unat (of_nat (w - k) :: u64) = w - k" by (simp add: unsigned_of_nat take_bit_nat_eq_self)
  moreover have "unat (of_nat n :: u64) = n" using n by (simp add: unsigned_of_nat take_bit_nat_eq_self)
  ultimately show ?thesis using assms(2,3) by (auto simp: word_le_nat_alt)
qed

lemma index_same:
  assumes "capacity_ok n" "r \<le> k" "k \<le> r + n"
  shows "((of_nat r :: u64) = of_nat k) = (k = r)"
proof -
  note n = capacity_bounds [OF assms(1)]
  have "((of_nat r :: u64) = of_nat k) \<longleftrightarrow> r mod 2 ^ 64 = k mod 2 ^ 64"
    by (simp add: word_of_nat_eq_iff take_bit_eq_mod)
  moreover have "k < r + 2 ^ 64" using n assms(3) by linarith
  ultimately show ?thesis using slots_differ [OF assms(2)] by metis
qed

subsection \<open>The invariant\<close>

definition ring_ok :: "nat \<Rightarrow> 'a spsc \<Rightarrow> 'a list \<Rightarrow> 'a list \<Rightarrow> nat \<Rightarrow> nat \<Rightarrow> bool" where
  "ring_ok n q pushed popped ps cs \<longleftrightarrow> length (sq_slots q) = n \<and>
     sq_write q = of_nat (length pushed) \<and> sq_read q = of_nat (length popped) \<and>
     popped = take (length popped) pushed \<and>
     ps \<le> length popped \<and> length pushed \<le> ps + n \<and> length popped \<le> cs \<and> cs \<le> length pushed \<and>
     (\<forall>i. length popped \<le> i \<and> i < length pushed \<longrightarrow> sq_slots q ! (i mod n) = pushed ! i)"

fun prod_ok :: "nat \<Rightarrow> 'a spsc \<Rightarrow> 'a list \<Rightarrow> nat \<Rightarrow> 'a producer \<Rightarrow> bool" where
  "prod_ok n q pushed ps P_idle \<longleftrightarrow> True"
| "prod_ok n q pushed ps (P_store w v) \<longleftrightarrow> w = of_nat (length pushed) \<and> length pushed < ps + n"
| "prod_ok n q pushed ps (P_publish w v) \<longleftrightarrow> w = of_nat (length pushed) \<and> length pushed < ps + n \<and>
     sq_slots q ! (length pushed mod n) = v"

fun cons_ok :: "'a list \<Rightarrow> 'a list \<Rightarrow> nat \<Rightarrow> 'a consumer \<Rightarrow> bool" where
  "cons_ok pushed popped cs C_idle \<longleftrightarrow> True"
| "cons_ok pushed popped cs (C_load r) \<longleftrightarrow> r = of_nat (length popped) \<and> length popped < cs"
| "cons_ok pushed popped cs (C_publish r x) \<longleftrightarrow> r = of_nat (length popped) \<and> length popped < cs \<and>
     x = pushed ! length popped"

definition spsc_inv :: "nat \<Rightarrow> 'a spsc_state \<Rightarrow> bool" where
  "spsc_inv n s \<longleftrightarrow> ring_ok n (sp_queue s) (sp_pushed s) (sp_popped s) (sp_pseen s) (sp_cseen s) \<and>
     prod_ok n (sp_queue s) (sp_pushed s) (sp_pseen s) (sp_prod s) \<and>
     cons_ok (sp_pushed s) (sp_popped s) (sp_cseen s) (sp_cons s)"

lemma cons_ok_push: "cons_ok pushed popped cs c \<Longrightarrow> cs \<le> length pushed \<Longrightarrow> cons_ok (pushed @ [v]) popped cs c"
  by (cases c) (auto simp: nth_append)

lemma prod_ok_seen: "prod_ok n q pushed ps p \<Longrightarrow> ps \<le> k \<Longrightarrow> prod_ok n q pushed k p"
  by (cases p) auto

lemma prod_ok_queue: "sq_slots q = sq_slots q' \<Longrightarrow> prod_ok n q pushed ps p = prod_ok n q' pushed ps p"
  by (cases p) auto

text \<open>
  The queue an observer sees: the pushed values not popped yet.
\<close>

definition sp_items :: "'a spsc_state \<Rightarrow> 'a list" where
  "sp_items s = drop (length (sp_popped s)) (sp_pushed s)"

lemma push_begin_ok:
  assumes "capacity_ok n" "ring_ok n q pushed popped ps cs" "ps \<le> k" "k \<le> length popped"
  shows "ring_ok n q pushed popped k cs \<and> prod_ok n q pushed k (push_begin n (of_nat k) v q)"
proof -
  have k: "k \<le> length pushed" "length pushed \<le> k + n" using assms(2-4) by (auto simp: ring_ok_def)
  then show ?thesis
    using assms index_gap [OF assms(1) k] by (auto simp: push_begin_def ring_ok_def Let_def)
qed

lemma push_store_ok:
  assumes "capacity_ok n" "ring_ok n q pushed popped ps cs" "prod_ok n q pushed ps (P_store w v)"
  shows "ring_ok n (push_store n w v q) pushed popped ps cs \<and>
    prod_ok n (push_store n w v q) pushed ps (P_publish w v)"
proof -
  let ?w = "length pushed"
  note n = capacity_bounds [OF assms(1)]
  have w: "w = of_nat ?w" "?w < ps + n" using assms(3) by simp_all
  have slot: "slot_of n w = ?w mod n" using slot_of_nat [OF assms(1)] w(1) by simp
  have other: "i mod n \<noteq> ?w mod n" if "length popped \<le> i" "i < ?w" for i
  proof
    assume eq: "i mod n = ?w mod n"
    have "?w < i + n" using that(1) w(2) assms(2) by (auto simp: ring_ok_def)
    then have "?w = i" using that(2) by (intro slots_differ [OF _ _ eq [symmetric]]) simp_all
    then show False using that(2) by simp
  qed
  have len: "length (sq_slots q) = n" using assms(2) by (simp add: ring_ok_def)
  have new: "sq_slots (push_store n w v q) = (sq_slots q)[?w mod n := v]"
    by (simp add: push_store_def slot)
  have "sq_slots (push_store n w v q) ! (?w mod n) = v" using n len by (simp add: new)
  moreover have "sq_slots (push_store n w v q) ! (i mod n) = pushed ! i"
    if "length popped \<le> i" "i < ?w" for i
    using other [OF that] that assms(2) by (simp add: new ring_ok_def)
  moreover have "sq_write (push_store n w v q) = sq_write q" "sq_read (push_store n w v q) = sq_read q"
    "length (sq_slots (push_store n w v q)) = n"
    using len by (simp_all add: push_store_def)
  ultimately show ?thesis using assms(2) w len unfolding ring_ok_def by simp
qed

lemma push_publish_ok:
  assumes "ring_ok n q pushed popped ps cs" "prod_ok n q pushed ps (P_publish w v)"
  shows "ring_ok n (push_publish w q) (pushed @ [v]) popped ps cs"
  using assms by (auto simp: ring_ok_def push_publish_def nth_append less_Suc_eq)

lemma pop_begin_ok:
  assumes "capacity_ok n" "ring_ok n q pushed popped ps cs" "cs \<le> k" "k \<le> length pushed"
  shows "ring_ok n q pushed popped ps k \<and> cons_ok pushed popped k (pop_begin (of_nat k) q)"
proof -
  have k: "length popped \<le> k" "k \<le> length popped + n" using assms(2-4) by (auto simp: ring_ok_def)
  then show ?thesis
    using assms index_same [OF assms(1) k] by (auto simp: pop_begin_def ring_ok_def Let_def)
qed

lemma pop_load_ok:
  assumes "capacity_ok n" "ring_ok n q pushed popped ps cs" "cons_ok pushed popped cs (C_load r)"
  shows "pop_load n r q = pushed ! length popped"
  using assms(2,3) slot_of_nat [OF assms(1)] by (simp add: pop_load_def ring_ok_def)

lemma pop_publish_ok:
  assumes "ring_ok n q pushed popped ps cs" "cons_ok pushed popped cs (C_publish r x)"
  shows "ring_ok n (pop_publish r q) pushed (popped @ [x]) ps cs"
proof -
  let ?r = "length popped"
  have r: "r = of_nat ?r" "?r < cs" "x = pushed ! ?r" "?r < length pushed" "popped = take ?r pushed"
    using assms by (auto simp: ring_ok_def)
  then have "popped @ [x] = take (Suc ?r) pushed" by (metis take_Suc_conv_app_nth)
  then show ?thesis using assms(1) r by (simp add: ring_ok_def pop_publish_def add.commute)
qed

lemma spsc_step_inv:
  assumes "capacity_ok n" "spsc_inv n s" "spsc_step n s s'"
  shows "spsc_inv n s'"
proof -
  have ring: "ring_ok n (sp_queue s) (sp_pushed s) (sp_popped s) (sp_pseen s) (sp_cseen s)"
    and prod: "prod_ok n (sp_queue s) (sp_pushed s) (sp_pseen s) (sp_prod s)"
    and cons: "cons_ok (sp_pushed s) (sp_popped s) (sp_cseen s) (sp_cons s)"
    using assms(2) by (simp_all add: spsc_inv_def)
  have seen: "sp_cseen s \<le> length (sp_pushed s)" using ring by (simp add: ring_ok_def)
  from assms(3) show ?thesis
  proof cases
    case (push_begin k v)
    then show ?thesis
      using push_begin_ok [OF assms(1) ring, of k v] cons by (simp add: spsc_inv_def)
  next
    case (push_store w v)
    then show ?thesis
      using push_store_ok [OF assms(1) ring, of w v] prod cons by (simp add: spsc_inv_def)
  next
    case (push_publish w v)
    then show ?thesis
      using push_publish_ok [OF ring, of w v] prod cons_ok_push [OF cons seen]
      by (simp add: spsc_inv_def)
  next
    case (pop_begin k)
    then show ?thesis
      using pop_begin_ok [OF assms(1) ring, of k] prod by (simp add: spsc_inv_def)
  next
    case (pop_load r)
    then show ?thesis
      using pop_load_ok [OF assms(1) ring, of r] ring prod cons by (simp add: spsc_inv_def)
  next
    case (pop_publish r x)
    have "prod_ok n (pop_publish r (sp_queue s)) (sp_pushed s) (sp_pseen s) (sp_prod s)"
      using prod prod_ok_queue [of "pop_publish r (sp_queue s)" "sp_queue s"] by (simp add: pop_publish_def)
    then show ?thesis
      using pop_publish pop_publish_ok [OF ring, of r x] cons by (simp add: spsc_inv_def)
  qed
qed

lemma spsc_run_inv:
  assumes "capacity_ok n" "spsc_run n s"
  shows "spsc_inv n s"
  using assms(2)
proof induction
  case (run_start slots)
  then show ?case by (simp add: spsc_inv_def spsc_start_def ring_ok_def)
next
  case (run_step s s')
  then show ?case using spsc_step_inv [OF assms(1)] by blast
qed

text \<open>
  Property C25. The ring is a bounded queue under every interleaving of one producer and one
  consumer, even with stale views of each other's index and with indices that wrap around: the
  values popped are a prefix of those pushed, in order; at most \<open>n\<close> are in the queue; the value
  a pop is about to return is the oldest one in the queue; and the slot being written is never
  one a pop may still read, so the plain slot accesses do not race.
\<close>

theorem spsc_fifo:
  assumes "capacity_ok n" "spsc_run n s"
  shows "sp_pushed s = sp_popped s @ sp_items s \<and> length (sp_items s) \<le> n \<and>
    sq_size (sp_queue s) = of_nat (length (sp_items s)) \<and>
    (case sp_cons s of C_publish r x \<Rightarrow> sp_items s \<noteq> [] \<and> x = hd (sp_items s)
     | C_load r \<Rightarrow> sp_items s \<noteq> [] \<and> pop_load n r (sp_queue s) = hd (sp_items s) | C_idle \<Rightarrow> True) \<and>
    (case (sp_prod s, sp_cons s) of (P_store w v, C_load r) \<Rightarrow> slot_of n w \<noteq> slot_of n r
     | _ \<Rightarrow> True)"
proof -
  let ?r = "length (sp_popped s)" and ?w = "length (sp_pushed s)"
  have ring: "ring_ok n (sp_queue s) (sp_pushed s) (sp_popped s) (sp_pseen s) (sp_cseen s)"
    and prod: "prod_ok n (sp_queue s) (sp_pushed s) (sp_pseen s) (sp_prod s)"
    and cons: "cons_ok (sp_pushed s) (sp_popped s) (sp_cseen s) (sp_cons s)"
    using spsc_run_inv [OF assms] by (simp_all add: spsc_inv_def)
  have basic: "sp_popped s = take ?r (sp_pushed s)" "?r \<le> ?w" "?w \<le> ?r + n"
    using ring by (auto simp: ring_ok_def)
  have split: "sp_pushed s = sp_popped s @ sp_items s"
    using basic(1) by (metis append_take_drop_id sp_items_def)
  have size: "sq_size (sp_queue s) = of_nat (length (sp_items s))"
    using ring basic(2) by (simp add: ring_ok_def sq_size_def sp_items_def of_nat_diff)
  have head: "sp_items s \<noteq> [] \<and> sp_pushed s ! ?r = hd (sp_items s)" if "?r < sp_cseen s"
  proof -
    have "?r < ?w" using that ring by (auto simp: ring_ok_def)
    then show ?thesis by (simp add: sp_items_def hd_drop_conv_nth)
  qed
  have ends: "case sp_cons s of C_publish r x \<Rightarrow> sp_items s \<noteq> [] \<and> x = hd (sp_items s)
     | C_load r \<Rightarrow> sp_items s \<noteq> [] \<and> pop_load n r (sp_queue s) = hd (sp_items s) | C_idle \<Rightarrow> True"
    using cons head pop_load_ok [OF assms(1) ring] by (cases "sp_cons s") auto
  have race: "case (sp_prod s, sp_cons s) of (P_store w v, C_load r) \<Rightarrow> slot_of n w \<noteq> slot_of n r
     | _ \<Rightarrow> True"
  proof (cases "sp_prod s")
    case (P_store w v)
    show ?thesis
    proof (cases "sp_cons s")
      case (C_load r)
      have w: "w = of_nat ?w" "?w < ?r + n" "r = of_nat ?r" "?r < ?w"
        using ring prod cons P_store C_load by (auto simp: ring_ok_def)
      then have "?w mod n \<noteq> ?r mod n" using slots_differ [of ?r ?w n] by auto
      then show ?thesis using P_store C_load slot_of_nat [OF assms(1)] w(1,3) by simp
    qed (simp_all add: P_store)
  qed simp_all
  show ?thesis using split size ends race basic(2,3) by (simp add: sp_items_def)
qed

text \<open>One value pushed through a ring of two slots and about to be popped.\<close>

theorem spsc_fifo_witness:
  "\<exists>s. spsc_run 2 s \<and> sp_cons s = C_publish 0 (7 :: u32) \<and> sp_items s = [7]"
proof -
  define s0 where "s0 = spsc_start [0, 0 :: u32]"
  define s1 where "s1 = s0\<lparr>sp_prod := P_store 0 7\<rparr>"
  define s2 where "s2 = s1\<lparr>sp_queue := push_store 2 0 7 (sp_queue s1), sp_prod := P_publish 0 7\<rparr>"
  define s3 where "s3 = s2\<lparr>sp_queue := push_publish 0 (sp_queue s2), sp_prod := P_idle,
    sp_pushed := sp_pushed s2 @ [7]\<rparr>"
  define s4 where "s4 = s3\<lparr>sp_cons := C_load 0, sp_cseen := 1\<rparr>"
  define s5 where "s5 = s4\<lparr>sp_cons := C_publish 0 (pop_load 2 0 (sp_queue s4))\<rparr>"
  note defs = s0_def s1_def s2_def s3_def s4_def spsc_start_def
  have "spsc_run 2 s0" unfolding s0_def by (rule run_start) simp
  moreover have "spsc_step 2 s0 s1"
    using spsc_step.push_begin [of s0 0 2 7] by (simp add: defs push_begin_def Let_def)
  ultimately have "spsc_run 2 s1" by (rule run_step)
  moreover have "spsc_step 2 s1 s2" unfolding s2_def by (rule push_store) (simp add: s1_def)
  ultimately have "spsc_run 2 s2" by (rule run_step)
  moreover have "spsc_step 2 s2 s3" unfolding s3_def by (rule push_publish) (simp add: s2_def)
  ultimately have "spsc_run 2 s3" by (rule run_step)
  moreover have "spsc_step 2 s3 s4"
    using spsc_step.pop_begin [of s3 1 2] by (simp add: defs pop_begin_def push_publish_def push_store_def Let_def)
  ultimately have "spsc_run 2 s4" by (rule run_step)
  moreover have "spsc_step 2 s4 s5" unfolding s5_def by (rule pop_load) (simp add: s4_def)
  ultimately have run: "spsc_run 2 s5" by (rule run_step)
  have cap: "capacity_ok 2" by (auto simp: capacity_ok_def intro!: exI [of _ 1])
  have st: "sp_pushed s5 = [7]" "sp_popped s5 = []" by (simp_all add: s5_def defs)
  have "sp_cons s5 = C_publish 0 (pop_load 2 0 (sp_queue s4))" by (simp add: s5_def)
  then show ?thesis
    using spsc_fifo [OF cap run] st run by (intro exI [of _ s5]) (auto simp: sp_items_def)
qed

end
