(* ===== verification/ItchGen.thy ===== *)
theory ItchGen
  imports ItchParser
begin

text \<open>
  The synthetic stream generator of \<open>src/sw/util/itch_gen.hpp\<close>: its configuration, its list of
  live orders, one emitter per message type and the random choice between them. The random
  numbers are those of the standard library's \<open>std::mt19937_64\<close>, written out below. A message
  is built as the code builds it: \<open>begin_msg\<close> extends the output with zero bytes and the fields
  are then stored in place. \<open>None\<close> stands for undefined behaviour: a division by zero, a signed
  overflow, or an access outside an array.
\<close>

subsection \<open>The random number engine\<close>

text \<open>
  \<open>std::mt19937_64\<close> as the C++ standard defines it: the state is the sequence of the last 312
  words, and each call computes the next word of the sequence and tempers it.
\<close>

type_synonym mt19937_64 = "u64 list"

fun mt_fill :: "nat \<Rightarrow> nat \<Rightarrow> u64 \<Rightarrow> mt19937_64" where
  "mt_fill 0 i x = []"
| "mt_fill (Suc n) i x =
     x # mt_fill n (Suc i) (6364136223846793005 * (x XOR drop_bit 62 x) + of_nat (Suc i))"

definition mt_seed :: "u64 \<Rightarrow> mt19937_64" where
  "mt_seed s = mt_fill 312 0 s"

definition mt_temper :: "u64 \<Rightarrow> u64" where
  "mt_temper x =
     (let z1 = x XOR (drop_bit 29 x AND 0x5555555555555555);
          z2 = z1 XOR (push_bit 17 z1 AND 0x71D67FFFEDA60000);
          z3 = z2 XOR (push_bit 37 z2 AND 0xFFF7EEE000000000)
      in z3 XOR drop_bit 43 z3)"

definition mt_next :: "mt19937_64 \<Rightarrow> u64 \<times> mt19937_64" where
  "mt_next xs =
     (let y = (xs ! 0 AND 0xFFFFFFFF80000000) OR (xs ! 1 AND 0x7FFFFFFF);
          x = xs ! 156 XOR drop_bit 1 y XOR (if y AND 1 = 1 then 0xB5026F5AA96619E9 else 0)
      in (mt_temper x, tl xs @ [x]))"

subsection \<open>Configuration and state\<close>

record gen_config =
  gc_seed :: u64
  gc_num_symbols :: u32
  gc_base_price :: u32
  gc_sym_spacing :: u32
  gc_tick :: u32
  gc_band_ticks :: u32
  gc_max_price :: u32
  gc_min_price :: u32
  gc_max_shares :: u32
  gc_aggress_prob :: u32
  gc_ts_scale :: u64

definition default_gen_config :: gen_config where
  "default_gen_config = \<lparr>gc_seed = 0xC0FFEE12345, gc_num_symbols = 4, gc_base_price = 500000,
     gc_sym_spacing = 50000, gc_tick = 100, gc_band_ticks = 100, gc_max_price = 999990,
     gc_min_price = 10000, gc_max_shares = 1000, gc_aggress_prob = 0, gc_ts_scale = 1\<rparr>"

record gen_stats =
  gs_per_type :: "u64 list"
  gs_total :: u64
  gs_live_orders_peak :: u64

definition no_gen_stats :: gen_stats where
  "no_gen_stats = \<lparr>gs_per_type = replicate IDX_COUNT 0, gs_total = 0, gs_live_orders_peak = 0\<rparr>"

record live_order =
  lo_ref :: u64
  lo_locate :: u16
  lo_side :: u8
  lo_price :: u32
  lo_shares :: u32

record itch_generator =
  ig_cfg :: gen_config
  ig_rng :: mt19937_64
  ig_out :: bytes
  ig_live :: "live_order list"
  ig_mids :: "u32 list"
  ig_stats :: gen_stats
  ig_next_ref :: u64
  ig_match :: u64
  ig_ts :: u64
  ig_track :: u16

text \<open>
  The constructor. \<open>num_symbols\<close> is an \<open>int\<close>, kept as its 32 bits: a negative one makes
  \<open>resize\<close> throw, and a zero tick divides by zero.
\<close>

definition mid_price :: "gen_config \<Rightarrow> nat \<Rightarrow> u32 option" where
  "mid_price cfg s =
     (let m = gc_base_price cfg + of_nat s * gc_sym_spacing cfg
      in if gc_tick cfg = 0 then None else Some ((m div gc_tick cfg) * gc_tick cfg))"

definition new_generator :: "gen_config \<Rightarrow> itch_generator option" where
  "new_generator cfg =
     (if sint (gc_num_symbols cfg) < 0 then None
      else do {
        mids \<leftarrow> those (map (mid_price cfg) [0..<unat (gc_num_symbols cfg)]);
        Some \<lparr>ig_cfg = cfg, ig_rng = mt_seed (gc_seed cfg), ig_out = [], ig_live = [], ig_mids = mids,
          ig_stats = no_gen_stats, ig_next_ref = 1, ig_match = 1, ig_ts = 34200 * 1000000000,
          ig_track = 0\<rparr>
      })"

subsection \<open>Random draws\<close>

definition draw :: "itch_generator \<Rightarrow> u64 \<times> itch_generator" where
  "draw g = (case mt_next (ig_rng g) of (x, r) \<Rightarrow> (x, g\<lparr>ig_rng := r\<rparr>))"

text \<open>\<open>rng_() % d\<close>\<close>

definition draw_mod :: "u64 \<Rightarrow> itch_generator \<Rightarrow> (u64 \<times> itch_generator) option" where
  "draw_mod d g = (if d = 0 then None else (case draw g of (x, g') \<Rightarrow> Some (x mod d, g')))"

text \<open>The conversion \<open>int(x)\<close> of a 64-bit value, and \<open>int64_t\<close> arithmetic.\<close>

definition int_of_u64 :: "u64 \<Rightarrow> int" where
  "int_of_u64 x = sint (ucast x :: u32)"

definition int64 :: "int \<Rightarrow> int option" where
  "int64 x = (if - (2 ^ 63) \<le> x \<and> x < 2 ^ 63 then Some x else None)"

definition draw_symbol :: "itch_generator \<Rightarrow> (int \<times> itch_generator) option" where
  "draw_symbol g = do {
     (x, g1) \<leftarrow> draw_mod (scast (gc_num_symbols (ig_cfg g))) g;
     Some (int_of_u64 x, g1)
   }"

definition draw_side :: "itch_generator \<Rightarrow> u8 \<times> itch_generator" where
  "draw_side g = (case draw g of (x, g1) \<Rightarrow> (if x AND 1 \<noteq> 0 then SIDE_BUY else SIDE_SELL, g1))"

definition draw_shares :: "itch_generator \<Rightarrow> (u32 \<times> itch_generator) option" where
  "draw_shares g = do {
     (x, g1) \<leftarrow> draw_mod (ucast (gc_max_shares (ig_cfg g))) g;
     Some (1 + ucast x, g1)
   }"

definition clamp_price :: "gen_config \<Rightarrow> int \<Rightarrow> u32" where
  "clamp_price cfg p =
     (let p1 = (if p < uint (gc_min_price cfg) then uint (gc_min_price cfg) else p);
          p2 = (if p1 > uint (gc_max_price cfg) then uint (gc_max_price cfg) else p1)
      in word_of_int p2)"

definition rand_price :: "int \<Rightarrow> u8 \<Rightarrow> itch_generator \<Rightarrow> (u32 \<times> itch_generator) option" where
  "rand_price sy side g = do {
     (x, g1) \<leftarrow> draw_mod (ucast (gc_band_ticks (ig_cfg g))) g;
     (x2, g2) \<leftarrow> draw_mod (ucast (gc_band_ticks (ig_cfg g1))) g1;
     let k1 = (1 + ucast x :: u32);
     let k2 = (1 + ucast x2 :: u32);
     let k = (if k2 < k1 then k2 else k1);
     if sy < 0 \<or> nat sy \<ge> length (ig_mids g2) then None
     else do {
       let m = uint (ig_mids g2 ! nat sy);
       dist \<leftarrow> int64 (uint k * uint (gc_tick (ig_cfg g2)));
       p \<leftarrow> int64 (if side = SIDE_BUY then m - dist else m + dist);
       Some (clamp_price (ig_cfg g2) p, g2)
     }
   }"

subsection \<open>Writing messages\<close>

text \<open>A store through a pointer into the output.\<close>

definition poke :: "nat \<Rightarrow> bytes \<Rightarrow> itch_generator \<Rightarrow> itch_generator option" where
  "poke k bs g =
     (if k + length bs \<le> length (ig_out g)
      then Some (g\<lparr>ig_out := take k (ig_out g) @ bs @ drop (k + length bs) (ig_out g)\<rparr>)
      else None)"

text \<open>\<open>begin_msg\<close> returns the position of the body it has started.\<close>

definition begin_msg :: "nat \<Rightarrow> u8 \<Rightarrow> u16 \<Rightarrow> itch_generator \<Rightarrow> (nat \<times> itch_generator) option" where
  "begin_msg body_len type locate g = do {
     let start = length (ig_out g);
     let g1 = g\<lparr>ig_out := ig_out g @ replicate (2 + body_len) 0\<rparr>;
     g2 \<leftarrow> poke start (store_be16 (of_nat body_len)) g1;
     let body = start + 2;
     g3 \<leftarrow> poke (body + HDR_TYPE) [type] g2;
     g4 \<leftarrow> poke (body + HDR_STOCK_LOC) (store_be16 locate) g3;
     g5 \<leftarrow> poke (body + HDR_TRACK_NUM) (store_be16 (ig_track g4)) g4;
     g6 \<leftarrow> poke (body + HDR_TIMESTAMP + 2) (store_be48 (ig_ts g5)) (g5\<lparr>ig_track := ig_track g5 + 1\<rparr>);
     Some (body, g6)
   }"

definition count_msg :: "msg_type \<Rightarrow> itch_generator \<Rightarrow> itch_generator" where
  "count_msg t g =
     (let st = ig_stats g; i = msg_type_idx t
      in g\<lparr>ig_stats := st\<lparr>gs_per_type := (gs_per_type st)[i := gs_per_type st ! i + 1],
            gs_total := gs_total st + 1\<rparr>\<rparr>)"

definition write_stock :: "nat \<Rightarrow> int \<Rightarrow> itch_generator \<Rightarrow> itch_generator option" where
  "write_stock p sy = poke p [0x53, 0x59, 0x4D, word_of_int (0x31 + sy), 0x20, 0x20, 0x20, 0x20]"

definition emit_system :: "u8 \<Rightarrow> itch_generator \<Rightarrow> itch_generator option" where
  "emit_system code g = do {
     (b, g1) \<leftarrow> begin_msg LEN_SYSTEM (msg_type_code SystemEvent) 0 g;
     g2 \<leftarrow> poke (b + OFF_SYS_EVENT) [code] g1;
     Some (count_msg SystemEvent g2)
   }"

definition emit_add :: "bool \<Rightarrow> itch_generator \<Rightarrow> itch_generator option" where
  "emit_add mpid g = do {
     (sy, g1) \<leftarrow> draw_symbol g;
     let locate = word_of_int (sy + 1);
     let (side, g2) = draw_side g1;
     (price, g3) \<leftarrow> rand_price sy side g2;
     (shares, g4) \<leftarrow> draw_shares g3;
     let ref = ig_next_ref g4;
     let g5 = g4\<lparr>ig_next_ref := ref + 1\<rparr>;
     let t = (if mpid then AddOrderMPID else AddOrder);
     let bl = (if mpid then LEN_ADD_MPID else LEN_ADD);
     (b, g6) \<leftarrow> begin_msg bl (msg_type_code t) locate g5;
     g7 \<leftarrow> poke (b + OFF_ADD_REF) (store_be64 ref) g6;
     g8 \<leftarrow> poke (b + OFF_ADD_SIDE) [side] g7;
     g9 \<leftarrow> poke (b + OFF_ADD_SHARES) (store_be32 shares) g8;
     g10 \<leftarrow> write_stock (b + OFF_ADD_STOCK) sy g9;
     g11 \<leftarrow> poke (b + OFF_ADD_PRICE) (store_be32 price) g10;
     g12 \<leftarrow> (if mpid then poke (b + OFF_ADD_MPID) [0x4D, 0x4D, 0x30, word_of_int (0x31 + sy)] g11
             else Some g11);
     let order = \<lparr>lo_ref = ref, lo_locate = locate, lo_side = side, lo_price = price, lo_shares = shares\<rparr>;
     Some (count_msg t (g12\<lparr>ig_live := ig_live g12 @ [order]\<rparr>))
   }"

subsection \<open>The live orders\<close>

text \<open>\<open>pick_live\<close> returns -1 when there is none; \<open>remove_live\<close> moves the last one into the hole.\<close>

definition pick_live :: "itch_generator \<Rightarrow> (int \<times> itch_generator) option" where
  "pick_live g =
     (if ig_live g = [] then Some (-1, g)
      else do { (x, g1) \<leftarrow> draw_mod (of_nat (length (ig_live g))) g; Some (int_of_u64 x, g1) })"

definition live_at :: "int \<Rightarrow> itch_generator \<Rightarrow> live_order option" where
  "live_at i g = (if 0 \<le> i \<and> nat i < length (ig_live g) then Some (ig_live g ! nat i) else None)"

definition set_live :: "int \<Rightarrow> live_order \<Rightarrow> itch_generator \<Rightarrow> itch_generator" where
  "set_live i o' g = g\<lparr>ig_live := (ig_live g)[nat i := o']\<rparr>"

definition remove_live :: "int \<Rightarrow> itch_generator \<Rightarrow> itch_generator" where
  "remove_live i g = g\<lparr>ig_live := butlast ((ig_live g)[nat i := List.last (ig_live g)])\<rparr>"

definition exec_at :: "int \<Rightarrow> bool \<Rightarrow> itch_generator \<Rightarrow> itch_generator option" where
  "exec_at i with_price g = do {
     ord \<leftarrow> live_at i g;
     (x, g1) \<leftarrow> draw_mod (ucast (lo_shares ord)) g;
     let ex = 1 + ucast x;
     g2 \<leftarrow> (if with_price then do {
         (b, h1) \<leftarrow> begin_msg LEN_EXEC_PRICE (msg_type_code OrderExecutedPrice) (lo_locate ord) g1;
         h2 \<leftarrow> poke (b + OFF_EXECP_REF) (store_be64 (lo_ref ord)) h1;
         h3 \<leftarrow> poke (b + OFF_EXECP_SHARES) (store_be32 ex) h2;
         h4 \<leftarrow> poke (b + OFF_EXECP_MATCH) (store_be64 (ig_match h3)) h3;
         h5 \<leftarrow> poke (b + OFF_EXECP_PRINTABLE) [0x59] (h4\<lparr>ig_match := ig_match h4 + 1\<rparr>);
         h6 \<leftarrow> poke (b + OFF_EXECP_PRICE) (store_be32 (lo_price ord)) h5;
         Some (count_msg OrderExecutedPrice h6)
       } else do {
         (b, h1) \<leftarrow> begin_msg LEN_EXEC (msg_type_code OrderExecuted) (lo_locate ord) g1;
         h2 \<leftarrow> poke (b + OFF_EXEC_REF) (store_be64 (lo_ref ord)) h1;
         h3 \<leftarrow> poke (b + OFF_EXEC_SHARES) (store_be32 ex) h2;
         h4 \<leftarrow> poke (b + OFF_EXEC_MATCH) (store_be64 (ig_match h3)) h3;
         Some (count_msg OrderExecuted (h4\<lparr>ig_match := ig_match h4 + 1\<rparr>))
       });
     let left = lo_shares ord - ex;
     let g3 = set_live i (ord\<lparr>lo_shares := left\<rparr>) g2;
     Some (if left = 0 then remove_live i g3 else g3)
   }"

definition sweep_better :: "u8 \<Rightarrow> live_order \<Rightarrow> live_order \<Rightarrow> bool" where
  "sweep_better side a b \<longleftrightarrow>
     (if side = SIDE_BUY
      then lo_price a > lo_price b \<or> lo_price a = lo_price b \<and> lo_ref a < lo_ref b
      else lo_price a < lo_price b \<or> lo_price a = lo_price b \<and> lo_ref a < lo_ref b)"

definition sweep_visit :: "live_order list \<Rightarrow> u16 \<Rightarrow> u8 \<Rightarrow> nat \<Rightarrow> int \<Rightarrow> int" where
  "sweep_visit live locate side i best =
     (if lo_locate (live ! i) \<noteq> locate \<or> lo_side (live ! i) \<noteq> side then best
      else if best < 0 then int i
      else if sweep_better side (live ! i) (live ! nat best) then int i
      else best)"

definition sweep_pick :: "live_order list \<Rightarrow> u16 \<Rightarrow> u8 \<Rightarrow> int" where
  "sweep_pick live locate side =
     fold (sweep_visit live locate side) [0..<nat (int_of_u64 (of_nat (length live)))] (-1)"

definition emit_sweep :: "itch_generator \<Rightarrow> itch_generator option" where
  "emit_sweep g = do {
     (sy, g1) \<leftarrow> draw_symbol g;
     let locate = word_of_int (sy + 1);
     let (side, g2) = draw_side g1;
     let best = sweep_pick (ig_live g2) locate side;
     if best < 0 then emit_add False g2 else exec_at best False g2
   }"

definition emit_execute :: "bool \<Rightarrow> itch_generator \<Rightarrow> itch_generator option" where
  "emit_execute with_price g = do {
     (i, g1) \<leftarrow> pick_live g;
     if i < 0 then emit_add False g1 else exec_at i with_price g1
   }"

definition emit_cancel :: "itch_generator \<Rightarrow> itch_generator option" where
  "emit_cancel g = do {
     (i, g1) \<leftarrow> pick_live g;
     if i < 0 then emit_add False g1
     else do {
       ord \<leftarrow> live_at i g1;
       (x, g2) \<leftarrow> draw_mod (ucast (lo_shares ord)) g1;
       let cx = 1 + ucast x;
       (b, g3) \<leftarrow> begin_msg LEN_CANCEL (msg_type_code OrderCancel) (lo_locate ord) g2;
       g4 \<leftarrow> poke (b + OFF_CANCEL_REF) (store_be64 (lo_ref ord)) g3;
       g5 \<leftarrow> poke (b + OFF_CANCEL_SHARES) (store_be32 cx) g4;
       let g6 = count_msg OrderCancel g5;
       let left = lo_shares ord - cx;
       let g7 = set_live i (ord\<lparr>lo_shares := left\<rparr>) g6;
       Some (if left = 0 then remove_live i g7 else g7)
     }
   }"

definition emit_delete :: "itch_generator \<Rightarrow> itch_generator option" where
  "emit_delete g = do {
     (i, g1) \<leftarrow> pick_live g;
     if i < 0 then emit_add False g1
     else do {
       ord \<leftarrow> live_at i g1;
       (b, g2) \<leftarrow> begin_msg LEN_DELETE (msg_type_code OrderDelete) (lo_locate ord) g1;
       g3 \<leftarrow> poke (b + OFF_DELETE_REF) (store_be64 (lo_ref ord)) g2;
       Some (remove_live i (count_msg OrderDelete g3))
     }
   }"

definition emit_replace :: "itch_generator \<Rightarrow> itch_generator option" where
  "emit_replace g = do {
     (i, g1) \<leftarrow> pick_live g;
     if i < 0 then emit_add False g1
     else do {
       ord \<leftarrow> live_at i g1;
       let new_ref = ig_next_ref g1;
       let g2 = g1\<lparr>ig_next_ref := new_ref + 1\<rparr>;
       let sy = uint (lo_locate ord) - 1;
       (new_price, g3) \<leftarrow> rand_price (if sy < 0 then 0 else sy) (lo_side ord) g2;
       (new_shares, g4) \<leftarrow> draw_shares g3;
       (b, g5) \<leftarrow> begin_msg LEN_REPLACE (msg_type_code OrderReplace) (lo_locate ord) g4;
       g6 \<leftarrow> poke (b + OFF_REPL_ORIG_REF) (store_be64 (lo_ref ord)) g5;
       g7 \<leftarrow> poke (b + OFF_REPL_NEW_REF) (store_be64 new_ref) g6;
       g8 \<leftarrow> poke (b + OFF_REPL_SHARES) (store_be32 new_shares) g7;
       g9 \<leftarrow> poke (b + OFF_REPL_PRICE) (store_be32 new_price) g8;
       Some (set_live i (ord\<lparr>lo_ref := new_ref, lo_price := new_price, lo_shares := new_shares\<rparr>)
         (count_msg OrderReplace g9))
     }
   }"

definition emit_trade :: "itch_generator \<Rightarrow> itch_generator option" where
  "emit_trade g = do {
     (sy, g1) \<leftarrow> draw_symbol g;
     let locate = word_of_int (sy + 1);
     let (side, g2) = draw_side g1;
     (price, g3) \<leftarrow> rand_price sy side g2;
     (shares, g4) \<leftarrow> draw_shares g3;
     (b, g5) \<leftarrow> begin_msg LEN_TRADE (msg_type_code Trade) locate g4;
     g6 \<leftarrow> poke (b + OFF_TRADE_REF) (store_be64 0) g5;
     g7 \<leftarrow> poke (b + OFF_TRADE_SIDE) [side] g6;
     g8 \<leftarrow> poke (b + OFF_TRADE_SHARES) (store_be32 shares) g7;
     g9 \<leftarrow> write_stock (b + OFF_TRADE_STOCK) sy g8;
     g10 \<leftarrow> poke (b + OFF_TRADE_PRICE) (store_be32 price) g9;
     g11 \<leftarrow> poke (b + OFF_TRADE_MATCH) (store_be64 (ig_match g10)) g10;
     Some (count_msg Trade (g11\<lparr>ig_match := ig_match g11 + 1\<rparr>))
   }"

subsection \<open>The generator loop\<close>

definition track_peak :: "itch_generator \<Rightarrow> itch_generator" where
  "track_peak g =
     (let st = ig_stats g; n = of_nat (length (ig_live g))
      in if n > gs_live_orders_peak st then g\<lparr>ig_stats := st\<lparr>gs_live_orders_peak := n\<rparr>\<rparr> else g)"

definition emit_choice :: "nat \<Rightarrow> itch_generator \<Rightarrow> itch_generator option" where
  "emit_choice roll g =
     (let need_inventory = length (ig_live g) < 16
      in if need_inventory \<or> roll < 45 then emit_add (roll mod 7 = 0) g
         else if roll < 62 then emit_execute (roll mod 5 = 0) g
         else if roll < 74 then emit_cancel g
         else if roll < 86 then emit_delete g
         else if roll < 96 then emit_replace g
         else emit_trade g)"

definition gen_step :: "itch_generator \<Rightarrow> itch_generator option" where
  "gen_step g = do {
     (x, g1) \<leftarrow> draw_mod 50 g;
     let g2 = g1\<lparr>ig_ts := ig_ts g1 + (1 + x) * gc_ts_scale (ig_cfg g1)\<rparr>;
     (sweep, g3) \<leftarrow>
       (if gc_aggress_prob (ig_cfg g2) > 0
        then do { (y, h) \<leftarrow> draw_mod 100 g2; Some (y < ucast (gc_aggress_prob (ig_cfg h)), h) }
        else Some (False, g2));
     if sweep then do { g4 \<leftarrow> emit_sweep g3; Some (track_peak g4) }
     else do {
       (roll, g4) \<leftarrow> draw_mod 100 g3;
       g5 \<leftarrow> emit_choice (unat roll) g4;
       Some (track_peak g5)
     }
   }"

fun gen_steps :: "nat \<Rightarrow> itch_generator \<Rightarrow> itch_generator option" where
  "gen_steps 0 g = Some g"
| "gen_steps (Suc n) g = do { g1 \<leftarrow> gen_step g; gen_steps n g1 }"

definition generate :: "nat \<Rightarrow> itch_generator \<Rightarrow> (bytes \<times> itch_generator) option" where
  "generate n g = do {
     let g0 = g\<lparr>ig_out := [], ig_stats := no_gen_stats\<rparr>;
     g1 \<leftarrow> emit_system EVT_START_MESSAGES g0;
     g2 \<leftarrow> emit_system EVT_START_HOURS g1;
     g3 \<leftarrow> gen_steps n g2;
     g4 \<leftarrow> emit_system EVT_END_HOURS g3;
     g5 \<leftarrow> emit_system EVT_END_MESSAGES g4;
     Some (ig_out g5, g5)
   }"

end
