(* ===== verification/ItchGenWire.thy ===== *)
theory ItchGenWire
  imports ItchGen
begin

text \<open>
  What the generator writes: each emitter appends exactly one frame to the output, and the
  decoder reads back the fields the emitter stored. The stores into zeroed space are followed
  with a cursor; the lemmas give the frame of each message and its decoded form.
\<close>

subsection \<open>Stores into zeroed space\<close>

definition cursor :: "bytes \<Rightarrow> nat \<Rightarrow> itch_generator \<Rightarrow> itch_generator" where
  "cursor pre n g = g\<lparr>ig_out := pre @ replicate n 0\<rparr>"

lemma poke_gap:
  assumes "j = length pre + k" "k + length bs \<le> n"
  shows "poke j bs (cursor pre n g) = Some (cursor (pre @ replicate k 0 @ bs) (n - k - length bs) g)"
  using assms by (simp add: poke_def cursor_def)

lemma poke_next:
  "j = length pre \<Longrightarrow> length bs \<le> n \<Longrightarrow> poke j bs (cursor pre n g) = Some (cursor (pre @ bs) (n - length bs) g)"
  using poke_gap [of j pre 0 bs n g] by simp

lemma cursor_fields [simp]:
  "ig_cfg (cursor pre n g) = ig_cfg g" "ig_rng (cursor pre n g) = ig_rng g"
  "ig_live (cursor pre n g) = ig_live g" "ig_mids (cursor pre n g) = ig_mids g"
  "ig_stats (cursor pre n g) = ig_stats g" "ig_next_ref (cursor pre n g) = ig_next_ref g"
  "ig_match (cursor pre n g) = ig_match g" "ig_ts (cursor pre n g) = ig_ts g"
  "ig_track (cursor pre n g) = ig_track g"
  "(cursor pre n g)\<lparr>ig_match := x\<rparr> = cursor pre n (g\<lparr>ig_match := x\<rparr>)"
  "(cursor pre n g)\<lparr>ig_track := t\<rparr> = cursor pre n (g\<lparr>ig_track := t\<rparr>)"
  "(cursor pre n g)\<lparr>ig_live := l\<rparr> = cursor pre n (g\<lparr>ig_live := l\<rparr>)"
  by (simp_all add: cursor_def)

text \<open>The header of a body.\<close>

definition msg_head :: "msg_type \<Rightarrow> u16 \<Rightarrow> u16 \<Rightarrow> u64 \<Rightarrow> bytes" where
  "msg_head t locate track ts =
     [msg_type_code t] @ store_be16 locate @ store_be16 track @ [0, 0] @ store_be48 ts"

lemma length_msg_head [simp]: "length (msg_head t locate track ts) = 13"
  by (simp add: msg_head_def)

lemma begin_msg_head:
  assumes "13 \<le> n"
  shows "begin_msg n (msg_type_code t) locate g = Some (length (ig_out g) + 2,
    cursor (ig_out g @ store_be16 (of_nat n) @ msg_head t locate (ig_track g) (ig_ts g)) (n - 13)
      (g\<lparr>ig_track := ig_track g + 1\<rparr>))"
proof -
  have zeros: "g\<lparr>ig_out := ig_out g @ replicate (2 + n) 0\<rparr> = cursor (ig_out g) (2 + n) g"
    by (simp add: cursor_def)
  have two: "replicate 2 (0 :: u8) = [0, 0]" by (simp add: numeral_2_eq_2)
  show ?thesis
    unfolding begin_msg_def Let_def zeros
    using assms by (simp add: poke_next poke_gap [where k = 2] layout msg_head_def two)
qed

text \<open>A body of type \<open>t\<close> whose fields have been stored.\<close>

definition with_frame :: "msg_type \<Rightarrow> u16 \<Rightarrow> bytes \<Rightarrow> itch_generator \<Rightarrow> itch_generator" where
  "with_frame t locate fs g =
     g\<lparr>ig_track := ig_track g + 1,
       ig_out := ig_out g @ frame (msg_head t locate (ig_track g) (ig_ts g) @ fs)\<rparr>"

subsection \<open>The emitters\<close>

definition stock_name :: "int \<Rightarrow> bytes" where
  "stock_name sy = [0x53, 0x59, 0x4D, word_of_int (0x31 + sy), 0x20, 0x20, 0x20, 0x20]"

definition add_fields :: "bool \<Rightarrow> live_order \<Rightarrow> int \<Rightarrow> bytes" where
  "add_fields mpid ord sy = store_be64 (lo_ref ord) @ [lo_side ord] @ store_be32 (lo_shares ord) @
     stock_name sy @ store_be32 (lo_price ord) @ (if mpid then [0x4D, 0x4D, 0x30, word_of_int (0x31 + sy)] else [])"

lemmas emitter_simps = begin_msg_head layout poke_next write_stock_def stock_name_def Let_def

lemmas frame_simps = cursor_def with_frame_def frame_def stock_name_def layout

lemma emit_system_frame:
  "emit_system code g = Some (count_msg SystemEvent (with_frame SystemEvent 0 [code] g))"
  by (simp add: emit_system_def emitter_simps del: msg_type_code.simps)
    (simp add: frame_simps)

lemma emit_add_frame:
  assumes "draw_symbol g = Some (sy, g1)" "draw_side g1 = (side, g2)" "rand_price sy side g2 = Some (price, g3)"
    "draw_shares g3 = Some (shares, g4)"
  shows "emit_add mpid g =
    (let ord = \<lparr>lo_ref = ig_next_ref g4, lo_locate = word_of_int (sy + 1), lo_side = side, lo_price = price,
                lo_shares = shares\<rparr>;
         t = (if mpid then AddOrderMPID else AddOrder)
     in Some (count_msg t (with_frame t (lo_locate ord) (add_fields mpid ord sy)
          (g4\<lparr>ig_next_ref := ig_next_ref g4 + 1, ig_live := ig_live g4 @ [ord]\<rparr>))))"
  by (simp add: emit_add_def assms emitter_simps del: msg_type_code.simps)
    (cases g4; simp add: frame_simps add_fields_def)

text \<open>The frames of the messages about the live order \<open>ord\<close>.\<close>

definition exec_fields :: "bool \<Rightarrow> live_order \<Rightarrow> u32 \<Rightarrow> u64 \<Rightarrow> bytes" where
  "exec_fields with_price ord ex k = store_be64 (lo_ref ord) @ store_be32 ex @ store_be64 k @
     (if with_price then [0x59] @ store_be32 (lo_price ord) else [])"

definition exec_type :: "bool \<Rightarrow> msg_type" where
  "exec_type with_price = (if with_price then OrderExecutedPrice else OrderExecuted)"

definition shrink_live :: "int \<Rightarrow> live_order \<Rightarrow> u32 \<Rightarrow> itch_generator \<Rightarrow> itch_generator" where
  "shrink_live i ord q g =
     (let g1 = set_live i (ord\<lparr>lo_shares := lo_shares ord - q\<rparr>) g
      in if lo_shares ord - q = 0 then remove_live i g1 else g1)"

lemma exec_at_frame:
  assumes "live_at i g = Some ord" "draw_mod (ucast (lo_shares ord)) g = Some (x, g1)"
  shows "exec_at i with_price g = Some (shrink_live i ord (1 + ucast x)
    (count_msg (exec_type with_price)
      (with_frame (exec_type with_price) (lo_locate ord) (exec_fields with_price ord (1 + ucast x) (ig_match g1))
        (g1\<lparr>ig_match := ig_match g1 + 1\<rparr>))))"
  by (simp add: exec_at_def assms emitter_simps shrink_live_def exec_type_def del: msg_type_code.simps)
    (cases g1; simp add: frame_simps exec_fields_def)

lemma emit_cancel_frame:
  assumes "pick_live g = Some (i, g1)" "\<not> i < 0" "live_at i g1 = Some ord"
    "draw_mod (ucast (lo_shares ord)) g1 = Some (x, g2)"
  shows "emit_cancel g = Some (shrink_live i ord (1 + ucast x) (count_msg OrderCancel
    (with_frame OrderCancel (lo_locate ord) (store_be64 (lo_ref ord) @ store_be32 (1 + ucast x)) g2)))"
  by (simp add: emit_cancel_def assms emitter_simps shrink_live_def del: msg_type_code.simps)
    (simp add: frame_simps)

lemma emit_delete_frame:
  assumes "pick_live g = Some (i, g1)" "\<not> i < 0" "live_at i g1 = Some ord"
  shows "emit_delete g = Some (remove_live i (count_msg OrderDelete
    (with_frame OrderDelete (lo_locate ord) (store_be64 (lo_ref ord)) g1)))"
  by (simp add: emit_delete_def assms emitter_simps del: msg_type_code.simps) (simp add: frame_simps)

definition replace_fields :: "live_order \<Rightarrow> live_order \<Rightarrow> bytes" where
  "replace_fields ord new = store_be64 (lo_ref ord) @ store_be64 (lo_ref new) @
     store_be32 (lo_shares new) @ store_be32 (lo_price new)"

lemma emit_replace_frame:
  assumes "pick_live g = Some (i, g1)" "\<not> i < 0" "live_at i g1 = Some ord"
    "rand_price (if uint (lo_locate ord) - 1 < 0 then 0 else uint (lo_locate ord) - 1) (lo_side ord)
       (g1\<lparr>ig_next_ref := ig_next_ref g1 + 1\<rparr>) = Some (price, g3)"
    "draw_shares g3 = Some (shares, g4)"
  shows "emit_replace g =
    (let new = ord\<lparr>lo_ref := ig_next_ref g1, lo_price := price, lo_shares := shares\<rparr>
     in Some (set_live i new (count_msg OrderReplace
          (with_frame OrderReplace (lo_locate ord) (replace_fields ord new) g4))))"
  unfolding emit_replace_def Let_def assms(1) prod.case Option.bind_lunit if_not_P [OF assms(2)] assms(3,4,5)
  by (simp add: emitter_simps del: msg_type_code.simps) (simp add: frame_simps replace_fields_def)

definition trade_fields :: "u8 \<Rightarrow> u32 \<Rightarrow> int \<Rightarrow> u32 \<Rightarrow> u64 \<Rightarrow> bytes" where
  "trade_fields side shares sy price k = store_be64 0 @ [side] @ store_be32 shares @ stock_name sy @
     store_be32 price @ store_be64 k"

lemma emit_trade_frame:
  assumes "draw_symbol g = Some (sy, g1)" "draw_side g1 = (side, g2)" "rand_price sy side g2 = Some (price, g3)"
    "draw_shares g3 = Some (shares, g4)"
  shows "emit_trade g = Some (count_msg Trade
    (with_frame Trade (word_of_int (sy + 1)) (trade_fields side shares sy price (ig_match g4))
      (g4\<lparr>ig_match := ig_match g4 + 1\<rparr>)))"
  by (simp add: emit_trade_def assms emitter_simps del: msg_type_code.simps)
    (cases g4; simp add: frame_simps trade_fields_def)

subsection \<open>Reading the messages back\<close>

text \<open>The decoder's header fields; the timestamp comes back modulo \<open>2^48\<close>.\<close>

definition head_msg :: "msg_type \<Rightarrow> u16 \<Rightarrow> u64 \<Rightarrow> decoded_message" where
  "head_msg t locate ts = empty_message\<lparr>dm_type := t, dm_stock_locate := locate, dm_stock_idx := locate,
     dm_timestamp := take_bit 48 ts\<rparr>"

lemma loads_exact [simp]:
  "be16 (store_be16 a) = a" "be32 (store_be32 b) = b" "be64 (store_be64 c) = c"
  "be64 (0 # 0 # store_be48 d) = take_bit 48 d"
  using be16_store [of a "[]"] be32_store [of b "[]"] be64_store [of c "[]"] be64_padded_be48 [of d "[]"]
  by simp_all

lemma decoded_head:
  assumes "t \<noteq> Unknown" "length fs + 13 = msg_body_len t"
  shows "decoded (msg_head t locate track ts @ fs) =
    the (decode_fields (msg_head t locate track ts @ fs) (head_msg t locate ts))"
proof -
  let ?b = "msg_head t locate track ts @ fs"
  have len: "length ?b = msg_body_len t" "13 \<le> length ?b" using assms(2) by simp_all
  have ne: "?b \<noteq> []" by (simp add: msg_head_def)
  have "byte_at ?b HDR_TYPE = Some (msg_type_code t)"
    by (simp add: byte_at_def layout msg_head_def del: msg_type_code.simps)
  moreover have "be16_at ?b HDR_STOCK_LOC = Some locate"
    using len(2) by (simp add: layout) (simp add: msg_head_def)
  moreover have "be64_at ?b HDR_TIMESTAMP = Some (take_bit 48 ts)"
    using len(2) by (simp add: layout) (simp add: msg_head_def)
  moreover have "msg_body_len t \<noteq> 0" using assms(1) by simp
  ultimately have "decode_body ?b = decode_fields ?b (head_msg t locate ts)"
    unfolding decode_body_def using ne len(1)
    by (simp del: decode_body_Some msg_type_code.simps append_is_Nil_conv add: head_msg_def empty_message_def)
  then show ?thesis by (simp add: decoded_def del: decode_body_Some)
qed

lemmas read_back = decode_fields_def head_msg_def empty_message_def stock_name_def byte_at_def nth_append
  layout exec_type_def

lemma decoded_system:
  "decoded (msg_head SystemEvent locate track ts @ [code]) =
    (head_msg SystemEvent locate ts)\<lparr>dm_event_code := code\<rparr>"
  by (subst decoded_head) (simp_all add: read_back)

lemma decoded_add:
  assumes "t = (if mpid then AddOrderMPID else AddOrder)"
  shows "decoded (msg_head t locate track ts @ add_fields mpid ord sy) =
    (head_msg t locate ts)\<lparr>dm_order_ref := lo_ref ord, dm_side := lo_side ord, dm_shares := lo_shares ord,
       dm_stock := stock_name sy, dm_price := lo_price ord,
       dm_mpid := (if mpid then [0x4D, 0x4D, 0x30, word_of_int (0x31 + sy)] else replicate 4 0)\<rparr>"
  by (subst decoded_head) (cases mpid; simp add: assms read_back add_fields_def)+

lemma decoded_exec:
  "decoded (msg_head (exec_type with_price) locate track ts @ exec_fields with_price ord ex k) =
    (head_msg (exec_type with_price) locate ts)\<lparr>dm_order_ref := lo_ref ord, dm_shares := ex,
       dm_match_number := k, dm_printable := (if with_price then 1 else 0),
       dm_price := (if with_price then lo_price ord else 0)\<rparr>"
  by (subst decoded_head) (cases with_price; simp add: read_back exec_fields_def)+

lemma decoded_cancel:
  "decoded (msg_head OrderCancel locate track ts @ store_be64 r @ store_be32 q) =
    (head_msg OrderCancel locate ts)\<lparr>dm_order_ref := r, dm_shares := q\<rparr>"
  by (subst decoded_head) (simp_all add: read_back)

lemma decoded_delete:
  "decoded (msg_head OrderDelete locate track ts @ store_be64 r) =
    (head_msg OrderDelete locate ts)\<lparr>dm_order_ref := r\<rparr>"
  by (subst decoded_head) (simp_all add: read_back)

lemma decoded_replace:
  "decoded (msg_head OrderReplace locate track ts @ replace_fields ord new) =
    (head_msg OrderReplace locate ts)\<lparr>dm_order_ref := lo_ref ord, dm_new_order_ref := lo_ref new,
       dm_shares := lo_shares new, dm_price := lo_price new\<rparr>"
  by (subst decoded_head) (simp_all add: read_back replace_fields_def)

lemma decoded_trade:
  "decoded (msg_head Trade locate track ts @ trade_fields side shares sy price k) =
    (head_msg Trade locate ts)\<lparr>dm_side := side, dm_shares := shares, dm_stock := stock_name sy,
       dm_price := price, dm_match_number := k\<rparr>"
  by (subst decoded_head) (simp_all add: read_back trade_fields_def)

end
