(* ===== verification/ItchGenLive.thy ===== *)
theory ItchGenLive
  imports ItchGenWire EngineProps "HOL-Library.Multiset"
begin

text \<open>
  The generator's live orders as an abstract book. The list of live orders denotes the order
  map of \<open>BookSpec\<close>; an emitted message and the change of the list that goes with it are a
  message the specification applies and its effect on the map.
\<close>

subsection \<open>The list as a map\<close>

definition lo_value :: "live_order \<Rightarrow> order_value" where
  "lo_value ord = \<lparr>ov_price = lo_price ord, ov_shares = lo_shares ord, ov_locate = lo_locate ord,
     ov_side = lo_side ord, ov_pad = 0\<rparr>"

definition live_map :: "live_order list \<Rightarrow> orders" where
  "live_map xs = map_of (map (\<lambda>ord. (lo_ref ord, lo_value ord)) xs)"

definition refs_distinct :: "live_order list \<Rightarrow> bool" where
  "refs_distinct xs \<longleftrightarrow> distinct (map lo_ref xs)"

lemma live_map_Some_iff:
  assumes "refs_distinct xs"
  shows "live_map xs r = Some v \<longleftrightarrow> (\<exists>ord\<in>set xs. lo_ref ord = r \<and> lo_value ord = v)"
proof -
  have "distinct (map fst (map (\<lambda>ord. (lo_ref ord, lo_value ord)) xs))"
    using assms by (simp add: refs_distinct_def comp_def)
  then show ?thesis unfolding live_map_def by (auto simp: map_of_eq_Some_iff image_iff)
qed

lemma live_map_at:
  "refs_distinct xs \<Longrightarrow> i < length xs \<Longrightarrow> live_map xs (lo_ref (xs ! i)) = Some (lo_value (xs ! i))"
  using live_map_Some_iff nth_mem by blast

lemma dom_live_map: "dom (live_map xs) = lo_ref ` set xs"
  by (simp add: live_map_def dom_map_of_conv_image_fst image_image)

lemma card_live_map: "refs_distinct xs \<Longrightarrow> card (dom (live_map xs)) = length xs"
  unfolding dom_live_map refs_distinct_def using distinct_card by fastforce

lemma live_map_None: "r \<notin> lo_ref ` set xs \<Longrightarrow> live_map xs r = None"
  using dom_live_map by blast

lemma live_map_append:
  assumes "refs_distinct xs" "lo_ref ord \<notin> lo_ref ` set xs"
  shows "refs_distinct (xs @ [ord])" "live_map (xs @ [ord]) = (live_map xs)(lo_ref ord \<mapsto> lo_value ord)"
proof -
  show d: "refs_distinct (xs @ [ord])" using assms by (simp add: refs_distinct_def)
  show "live_map (xs @ [ord]) = (live_map xs)(lo_ref ord \<mapsto> lo_value ord)"
    by (rule map_eqI) (use assms in \<open>auto simp: live_map_Some_iff [OF d] live_map_Some_iff intro: rev_image_eqI\<close>)
qed

lemma refs_distinctD:
  "refs_distinct xs \<Longrightarrow> i < length xs \<Longrightarrow> j < length xs \<Longrightarrow> lo_ref (xs ! i) = lo_ref (xs ! j) \<Longrightarrow> i = j"
  using nth_eq_iff_index_eq [of "map lo_ref xs" i j] by (simp add: refs_distinct_def)

lemma set_update_at:
  assumes "refs_distinct xs" "i < length xs"
  shows "set (xs[i := new]) = insert new (set xs - {xs ! i})"
  using assms by (intro set_update_distinct) (auto simp: refs_distinct_def distinct_map)

lemma other_refs:
  assumes "refs_distinct xs" "i < length xs" "ord \<in> set xs - {xs ! i}"
  shows "lo_ref ord \<noteq> lo_ref (xs ! i)"
  using assms by (auto simp: refs_distinct_def distinct_map inj_on_def)

lemma refs_distinct_update:
  assumes "refs_distinct xs" "i < length xs" "lo_ref new \<notin> lo_ref ` (set xs - {xs ! i})"
  shows "refs_distinct (xs[i := new])"
proof -
  have "set (map lo_ref xs) - {map lo_ref xs ! i} \<subseteq> lo_ref ` (set xs - {xs ! i})"
    using assms(2) by auto
  then have "lo_ref new \<notin> set (map lo_ref xs) - {map lo_ref xs ! i}" using assms(3) by blast
  then show ?thesis
    using assms(1,2) distinct_list_update [of "map lo_ref xs" "lo_ref new" i]
    by (simp add: refs_distinct_def map_update)
qed

text \<open>An update that keeps or changes the reference, and the removal of \<open>remove_live\<close>.\<close>

lemma live_map_update:
  assumes d: "refs_distinct xs" "i < length xs" and new: "lo_ref new \<notin> lo_ref ` (set xs - {xs ! i})"
  shows "live_map (xs[i := new]) = (live_map xs)(lo_ref (xs ! i) := None, lo_ref new \<mapsto> lo_value new)"
proof (rule map_eqI)
  fix r v
  have same: "ord = xs ! i" if "ord \<in> set xs" "lo_ref ord = lo_ref new" for ord
    using new that image_eqI [of "lo_ref new" lo_ref ord] by auto
  show "live_map (xs[i := new]) r = Some v \<longleftrightarrow>
      ((live_map xs)(lo_ref (xs ! i) := None, lo_ref new \<mapsto> lo_value new)) r = Some v"
    unfolding live_map_Some_iff [OF refs_distinct_update [OF assms]] set_update_at [OF d]
    using live_map_Some_iff [OF d(1), of r v] other_refs [OF d] same by auto
qed

lemma swap_remove:
  assumes "i < length xs"
  shows "\<exists>ys zs. xs = ys @ xs ! i # zs \<and> mset (butlast (xs[i := List.last xs])) = mset (ys @ zs)"
proof -
  obtain ys z where xs: "xs = ys @ [z]" using assms by (cases xs rule: rev_cases) auto
  show ?thesis
  proof (cases "i = length ys")
    case True
    then show ?thesis using xs by (intro exI [of _ ys] exI [of _ "[]"]) auto
  next
    case False
    then have i: "i < length ys" using assms xs by simp
    then have "xs = take i ys @ xs ! i # (drop (Suc i) ys @ [z])"
      using xs id_take_nth_drop [OF i] by (simp add: nth_append)
    moreover have "butlast (xs[i := List.last xs]) = take i ys @ z # drop (Suc i) ys"
      using i xs by (simp add: list_update_append butlast_append upd_conv_take_nth_drop)
    ultimately show ?thesis by (intro exI [of _ "take i ys"] exI [of _ "drop (Suc i) ys @ [z]"]) simp
  qed
qed

lemma refs_distinct_mset: "mset xs = mset ys \<Longrightarrow> refs_distinct xs = refs_distinct ys"
  unfolding refs_distinct_def by (metis mset_eq_imp_distinct_iff mset_map)

lemma live_map_remove:
  assumes d: "refs_distinct xs" "i < length xs"
  shows "refs_distinct (butlast (xs[i := List.last xs]))"
    and "set (butlast (xs[i := List.last xs])) = set xs - {xs ! i}"
    and "live_map (butlast (xs[i := List.last xs])) = (live_map xs)(lo_ref (xs ! i) := None)"
proof -
  let ?new = "butlast (xs[i := List.last xs])"
  obtain ys zs where yz: "xs = ys @ xs ! i # zs" "mset ?new = mset (ys @ zs)"
    using swap_remove [OF d(2)] by blast
  have "refs_distinct (ys @ xs ! i # zs)" using d(1) yz(1) by simp
  then have split: "refs_distinct (ys @ zs)" "lo_ref (xs ! i) \<notin> lo_ref ` set (ys @ zs)"
    by (auto simp: refs_distinct_def)
  show dist: "refs_distinct ?new" using split(1) refs_distinct_mset [OF yz(2)] by simp
  have "set ?new = set (ys @ zs)" by (rule mset_eq_setD [OF yz(2)])
  moreover have "set xs = insert (xs ! i) (set (ys @ zs))" by (subst yz(1)) auto
  ultimately show sets: "set ?new = set xs - {xs ! i}" using split(2) by auto
  show "live_map ?new = (live_map xs)(lo_ref (xs ! i) := None)"
  proof (rule map_eqI)
    fix r v
    show "live_map ?new r = Some v \<longleftrightarrow> ((live_map xs)(lo_ref (xs ! i) := None)) r = Some v"
      unfolding live_map_Some_iff [OF dist] sets
      using live_map_Some_iff [OF d(1), of r v] other_refs [OF d] by auto
  qed
qed

subsection \<open>Well-formed live orders\<close>

text \<open>
  An order of the generator rests strictly on its side of its symbol's mid price, within the
  configured prices and sizes.
\<close>

definition right_side :: "u8 \<Rightarrow> u32 \<Rightarrow> u32 \<Rightarrow> bool" where
  "right_side side p mid \<longleftrightarrow> (if side = SIDE_BUY then p < mid else mid < p)"

definition lo_ok :: "gen_config \<Rightarrow> u32 list \<Rightarrow> live_order \<Rightarrow> bool" where
  "lo_ok cfg mids ord \<longleftrightarrow> lo_ref ord \<noteq> 0 \<and> is_side (lo_side ord) \<and>
     lo_locate ord \<noteq> 0 \<and> unat (lo_locate ord) \<le> length mids \<and>
     lo_price ord \<noteq> 0 \<and> lo_price ord \<le> gc_max_price cfg \<and>
     right_side (lo_side ord) (lo_price ord) (mids ! (unat (lo_locate ord) - 1)) \<and>
     lo_shares ord \<noteq> 0 \<and> lo_shares ord \<le> gc_max_shares cfg"

definition live_ok :: "gen_config \<Rightarrow> u32 list \<Rightarrow> u64 \<Rightarrow> live_order list \<Rightarrow> bool" where
  "live_ok cfg mids nxt xs \<longleftrightarrow> refs_distinct xs \<and> (\<forall>ord\<in>set xs. lo_ok cfg mids ord \<and> lo_ref ord < nxt)"

text \<open>The sizes fit the engine: the shares of all orders fit a level and the orders fit the table.\<close>

definition room :: "gen_config \<Rightarrow> nat \<Rightarrow> nat \<Rightarrow> bool" where
  "room cfg cap n \<longleftrightarrow> n \<le> cap \<and> n < 2 ^ 31 \<and> n * unat (gc_max_shares cfg) < 2 ^ 32"

lemma headroom_room:
  assumes "finite (dom m)" "\<And>r v. m r = Some v \<Longrightarrow> ov_shares v \<le> gc_max_shares cfg"
    "room cfg cap (Suc (card (dom m)))" "q \<le> gc_max_shares cfg"
  shows "headroom m loc s p q"
proof -
  have "level_sum qty m loc s p \<le> card (dom m) * unat (gc_max_shares cfg)"
    by (rule level_sum_le [OF assms(1)]) (use assms(2) in \<open>auto simp: qty_def word_le_nat_alt\<close>)
  moreover have "unat q \<le> unat (gc_max_shares cfg)" using assms(4) by (simp add: word_le_nat_alt)
  moreover have "level_sum one m loc s p \<le> card (dom m) * 1"
    by (rule level_sum_le [OF assms(1)]) (simp add: one_def)
  ultimately show ?thesis using assms(3) by (simp add: headroom_def room_def)
qed

lemma live_map_values:
  "live_ok cfg mids nxt xs \<Longrightarrow> live_map xs r = Some v \<Longrightarrow>
     \<exists>ord\<in>set xs. lo_ref ord = r \<and> v = lo_value ord \<and> lo_ok cfg mids ord"
  unfolding live_ok_def using live_map_Some_iff by metis

lemma live_map_finite [simp]: "finite (dom (live_map xs))"
  by (simp add: dom_live_map)

lemma live_map_shares:
  "live_ok cfg mids nxt xs \<Longrightarrow> live_map xs r = Some v \<Longrightarrow> ov_shares v \<le> gc_max_shares cfg"
  by (auto dest!: live_map_values simp: lo_ok_def lo_value_def)

lemma fresh_ref: "live_ok cfg mids nxt xs \<Longrightarrow> nxt \<notin> lo_ref ` set xs"
  by (auto simp: live_ok_def)

subsection \<open>Each message is applied\<close>

definition applies :: "u32 \<Rightarrow> nat \<Rightarrow> orders \<Rightarrow> decoded_message \<Rightarrow> orders \<Rightarrow> bool" where
  "applies lv cap os m os' \<longleftrightarrow> event_status lv cap os m = Applied \<and> event_orders os m = os'"

definition describes :: "decoded_message \<Rightarrow> live_order \<Rightarrow> bool" where
  "describes m ord \<longleftrightarrow> dm_order_ref m = lo_ref ord \<and> dm_stock_locate m = lo_locate ord \<and>
     dm_side m = lo_side ord \<and> dm_price m = lo_price ord \<and> dm_shares m = lo_shares ord"

lemma add_applies:
  assumes ok: "live_ok cfg mids nxt xs" and ord: "lo_ok cfg mids ord" "lo_ref ord = nxt"
    and nxt: "nxt < nxt + 1" and room: "room cfg cap (Suc (length xs))" and lv: "gc_max_price cfg < lv"
    and m: "dm_type m = AddOrder \<or> dm_type m = AddOrderMPID" "describes m ord"
  shows "live_ok cfg mids (nxt + 1) (xs @ [ord])"
    and "applies lv cap (live_map xs) m (live_map (xs @ [ord]))"
proof -
  have d: "refs_distinct xs" using ok by (simp add: live_ok_def)
  have fresh: "lo_ref ord \<notin> lo_ref ` set xs" using fresh_ref [OF ok] ord(2) by simp
  note app = live_map_append [OF d fresh]
  show "live_ok cfg mids (nxt + 1) (xs @ [ord])"
    using ok ord nxt app(1) by (auto simp: live_ok_def)
  have card: "card (dom (live_map xs)) = length xs" by (rule card_live_map [OF d])
  have "headroom (live_map xs) (dm_stock_locate m) (dm_side m) (dm_price m) (dm_shares m)"
    by (rule headroom_room [OF live_map_finite live_map_shares [OF ok], where cap = cap])
      (use room card m(2) ord(1) in \<open>auto simp: describes_def lo_ok_def\<close>)
  moreover have "\<not> bad_order lv m"
    using m(2) ord lv by (auto simp: bad_order_def describes_def lo_ok_def)
  moreover have "live_map xs (dm_order_ref m) = None"
    using fresh m(2) by (simp add: describes_def live_map_None)
  moreover have "card (dom (live_map xs)) \<noteq> cap" using room card by (simp add: room_def)
  ultimately have "add_status lv cap (live_map xs) m = Applied" by (simp add: add_status_def)
  moreover have "order_at m (dm_stock_locate m) (dm_side m) = lo_value ord"
    using m(2) by (simp add: describes_def order_at_def lo_value_def)
  ultimately show "applies lv cap (live_map xs) m (live_map (xs @ [ord]))"
    using m by (auto simp: applies_def event_status_def event_orders_def app(2) describes_def)
qed

lemma live_ok_change:
  assumes "live_ok cfg mids nxt xs" "refs_distinct ys" "set ys \<subseteq> insert new (set xs)"
    "lo_ok cfg mids new" "lo_ref new < nxt'" "nxt \<le> nxt'"
  shows "live_ok cfg mids nxt' ys"
proof -
  have "lo_ok cfg mids ord \<and> lo_ref ord < nxt'" if "ord \<in> set ys" for ord
  proof (cases "ord = new")
    case False
    then have "lo_ok cfg mids ord" "lo_ref ord < nxt" using that assms(1,3) by (auto simp: live_ok_def)
    then show ?thesis using order_less_le_trans [OF _ assms(6)] by blast
  qed (use assms(4,5) in simp)
  then show ?thesis using assms(2) by (simp add: live_ok_def)
qed

lemma live_ok_subset:
  "live_ok cfg mids nxt xs \<Longrightarrow> refs_distinct ys \<Longrightarrow> set ys \<subseteq> set xs \<Longrightarrow> live_ok cfg mids nxt ys"
  by (auto simp: live_ok_def)

text \<open>The list after \<open>q\<close> shares of order \<open>i\<close> are gone.\<close>

definition shrunk :: "nat \<Rightarrow> u32 \<Rightarrow> live_order list \<Rightarrow> live_order list" where
  "shrunk i q xs =
     (let ys = xs[i := (xs ! i)\<lparr>lo_shares := lo_shares (xs ! i) - q\<rparr>]
      in if lo_shares (xs ! i) - q = 0 then butlast (ys[i := List.last ys]) else ys)"

lemma length_shrunk: "length (shrunk i q xs) \<le> length xs"
  by (simp add: shrunk_def Let_def)

lemma shrink_applies:
  assumes ok: "live_ok cfg mids nxt xs" and i: "i < length xs"
    and q: "q \<noteq> 0" "q \<le> lo_shares (xs ! i)"
    and m: "dm_type m \<in> {OrderExecuted, OrderExecutedPrice, OrderCancel}" "dm_order_ref m = lo_ref (xs ! i)"
      "dm_shares m = q"
  shows "live_ok cfg mids nxt (shrunk i q xs)"
    and "applies lv cap (live_map xs) m (live_map (shrunk i q xs))"
proof -
  let ?o = "xs ! i"
  let ?new = "?o\<lparr>lo_shares := lo_shares ?o - q\<rparr>" and ?ys = "xs[i := ?o\<lparr>lo_shares := lo_shares ?o - q\<rparr>]"
  have d: "refs_distinct xs" using ok by (simp add: live_ok_def)
  have o_ok: "lo_ok cfg mids ?o" "lo_ref ?o < nxt" using ok i by (simp_all add: live_ok_def)
  have fresh: "lo_ref ?new \<notin> lo_ref ` (set xs - {?o})" using other_refs [OF d i] by force
  note upd = refs_distinct_update [OF d i fresh] live_map_update [OF d i fresh] set_update_at [OF d i]
  have at: "live_map xs (lo_ref ?o) = Some (lo_value ?o)" by (rule live_map_at [OF d i])
  have left: "lo_shares ?o - q = 0 \<longleftrightarrow> lo_shares ?o = q" by simp
  have "lo_shares ?o - q \<le> lo_shares ?o" using q(2) by (metis word_sub_le)
  then have new_ok: "lo_ok cfg mids ?new" if "lo_shares ?o \<noteq> q"
    using o_ok(1) that by (auto simp: lo_ok_def left intro: order_trans)
  have st: "event_status lv cap (live_map xs) m = Applied"
    using m q at o_ok(1) by (auto simp: event_status_def reduce_status_def lo_value_def lo_ok_def not_less)
  have eff: "event_orders (live_map xs) m = (if lo_shares ?o = q then (live_map xs)(lo_ref ?o := None)
      else (live_map xs)(lo_ref ?o \<mapsto> lo_value ?new))"
    using m at by (auto simp: event_orders_def reduce_orders_def lo_value_def)
  have "live_ok cfg mids nxt (shrunk i q xs) \<and> event_orders (live_map xs) m = live_map (shrunk i q xs)"
  proof (cases "lo_shares ?o = q")
    case True
    have i': "i < length ?ys" using i by simp
    have s: "shrunk i q xs = butlast (?ys[i := List.last ?ys])" using True by (simp add: shrunk_def Let_def)
    note rem = live_map_remove [OF upd(1) i']
    have "set (shrunk i q xs) \<subseteq> set xs" unfolding s rem(2) using upd(3) i by auto
    moreover have "live_map (shrunk i q xs) = (live_map xs)(lo_ref ?o := None)"
      unfolding s rem(3) using upd(2) i by simp
    ultimately show ?thesis using live_ok_subset [OF ok] rem(1) s eff True by simp
  next
    case False
    then have s: "shrunk i q xs = ?ys" by (simp add: shrunk_def Let_def)
    have "live_ok cfg mids nxt ?ys"
      by (rule live_ok_change [OF ok upd(1) _ new_ok [OF False]]) (use upd(3) o_ok(2) in auto)
    moreover have "live_map ?ys = (live_map xs)(lo_ref ?o \<mapsto> lo_value ?new)" unfolding upd(2) by simp
    ultimately show ?thesis using s eff False by simp
  qed
  then show "live_ok cfg mids nxt (shrunk i q xs)" "applies lv cap (live_map xs) m (live_map (shrunk i q xs))"
    using st by (simp_all add: applies_def)
qed

lemma delete_applies:
  assumes ok: "live_ok cfg mids nxt xs" and i: "i < length xs"
    and m: "dm_type m = OrderDelete" "dm_order_ref m = lo_ref (xs ! i)"
  shows "live_ok cfg mids nxt (butlast (xs[i := List.last xs]))"
    and "applies lv cap (live_map xs) m (live_map (butlast (xs[i := List.last xs])))"
proof -
  have d: "refs_distinct xs" using ok by (simp add: live_ok_def)
  note rem = live_map_remove [OF d i]
  show "live_ok cfg mids nxt (butlast (xs[i := List.last xs]))"
    by (rule live_ok_subset [OF ok rem(1)]) (simp add: rem(2))
  show "applies lv cap (live_map xs) m (live_map (butlast (xs[i := List.last xs])))"
    using m live_map_at [OF d i] by (simp add: applies_def event_status_def event_orders_def rem(3))
qed

lemma replace_applies:
  assumes ok: "live_ok cfg mids nxt xs" and i: "i < length xs"
    and new: "lo_ok cfg mids new" "lo_ref new = nxt" "lo_locate new = lo_locate (xs ! i)"
      "lo_side new = lo_side (xs ! i)"
    and nxt: "nxt < nxt + 1" and room: "room cfg cap (Suc (length xs))" and lv: "gc_max_price cfg < lv"
    and m: "dm_type m = OrderReplace" "dm_order_ref m = lo_ref (xs ! i)" "dm_new_order_ref m = nxt"
      "dm_price m = lo_price new" "dm_shares m = lo_shares new"
  shows "live_ok cfg mids (nxt + 1) (xs[i := new])"
    and "applies lv cap (live_map xs) m (live_map (xs[i := new]))"
proof -
  let ?o = "xs ! i"
  have d: "refs_distinct xs" using ok by (simp add: live_ok_def)
  have o_ok: "lo_ok cfg mids ?o" "lo_ref ?o < nxt" using ok i by (simp_all add: live_ok_def)
  have fresh: "lo_ref new \<notin> lo_ref ` (set xs - {?o})" using fresh_ref [OF ok] new(2) by auto
  note upd = refs_distinct_update [OF d i fresh] live_map_update [OF d i fresh] set_update_at [OF d i]
  have at: "live_map xs (lo_ref ?o) = Some (lo_value ?o)" by (rule live_map_at [OF d i])
  have none: "live_map xs nxt = None" using fresh_ref [OF ok] by (simp add: live_map_None)
  show "live_ok cfg mids (nxt + 1) (xs[i := new])"
    by (rule live_ok_change [OF ok upd(1) _ new(1)]) (use upd(3) new(2) nxt in auto)
  let ?os = "(live_map xs)(lo_ref ?o := None)"
  have card: "Suc (card (dom ?os)) \<le> Suc (length xs)"
    using card_live_map [OF d] card_mono [of "dom (live_map xs)" "dom ?os"] by auto
  have "headroom ?os (ov_locate (lo_value ?o)) (ov_side (lo_value ?o)) (dm_price m) (dm_shares m)"
  proof (rule headroom_room [where cap = cap])
    show "room cfg cap (Suc (card (dom ?os)))"
      using room card mult_le_mono1 [OF card, of "unat (gc_max_shares cfg)"] unfolding room_def by linarith
    show "dm_shares m \<le> gc_max_shares cfg" using m(5) new(1) by (simp add: lo_ok_def)
  qed (use live_map_shares [OF ok] in \<open>auto split: if_splits\<close>)
  moreover have "\<not> bad_replacement lv m"
    using m new o_ok lv by (auto simp: bad_replacement_def lo_ok_def)
  ultimately have "event_status lv cap (live_map xs) m = Applied"
    using m at none by (simp add: event_status_def replace_status_def)
  moreover have "event_orders (live_map xs) m = live_map (xs[i := new])"
    using m at new by (simp add: event_orders_def upd(2) order_at_def lo_value_def)
  ultimately show "applies lv cap (live_map xs) m (live_map (xs[i := new]))" by (simp add: applies_def)
qed

lemma other_applies: "dm_type m \<in> {Trade, SystemEvent} \<Longrightarrow> applies lv cap os m os"
  by (auto simp: applies_def event_status_def event_orders_def)

end
