(* ===== verification/ItchGenSteps.thy ===== *)
theory ItchGenSteps
  imports ItchGenLive
begin

text \<open>
  Every step of the generator returns, whatever the random numbers are: the draws are in range,
  no price is clamped, and each emitter appends one frame whose message the specification of
  the book applies to the live orders.
\<close>

subsection \<open>Sane configurations\<close>

definition mid_ok :: "gen_config \<Rightarrow> u32 \<Rightarrow> bool" where
  "mid_ok cfg m \<longleftrightarrow>
     unat (gc_min_price cfg) + unat (gc_band_ticks cfg) * unat (gc_tick cfg) \<le> unat m \<and>
     unat m + unat (gc_band_ticks cfg) * unat (gc_tick cfg) \<le> unat (gc_max_price cfg)"

text \<open>
  Between 1 and 65535 symbols, no zero divisor, and the whole band of every symbol inside the
  configured prices, so that no price is clamped.
\<close>

definition gen_config_ok :: "gen_config \<Rightarrow> bool" where
  "gen_config_ok cfg \<longleftrightarrow>
     gc_num_symbols cfg \<noteq> 0 \<and> gc_num_symbols cfg < 65536 \<and> gc_tick cfg \<noteq> 0 \<and> gc_band_ticks cfg \<noteq> 0 \<and>
     gc_max_shares cfg \<noteq> 0 \<and> gc_min_price cfg \<noteq> 0 \<and>
     list_all (\<lambda>s. case mid_price cfg s of None \<Rightarrow> False | Some m \<Rightarrow> mid_ok cfg m)
       [0..<unat (gc_num_symbols cfg)]"

definition gen_env :: "gen_config \<Rightarrow> u32 list \<Rightarrow> bool" where
  "gen_env cfg mids \<longleftrightarrow> gen_config_ok cfg \<and> length mids = unat (gc_num_symbols cfg) \<and>
     list_all (mid_ok cfg) mids"

lemma uint_less: "unat x < n \<Longrightarrow> uint x < int n"
  by (simp only: uint_nat of_nat_less_iff)

lemma sint_small:
  assumes "unat (x :: u32) < 2 ^ 31"
  shows "sint x = uint x"
proof -
  have "- (2 ^ 31) \<le> uint x" by (rule order_trans [OF _ uint_ge_0]) simp
  then show ?thesis using uint_less [OF assms] by (simp add: sint_uint signed_take_bit_int_eq_self_iff)
qed

lemma num_symbols_sint:
  assumes "gen_config_ok cfg"
  shows "sint (gc_num_symbols cfg) = uint (gc_num_symbols cfg)" "unat (gc_num_symbols cfg) < 65536"
proof -
  show u: "unat (gc_num_symbols cfg) < 65536"
    using assms by (simp add: gen_config_ok_def word_less_nat_alt)
  then show "sint (gc_num_symbols cfg) = uint (gc_num_symbols cfg)" by (intro sint_small) simp
qed

lemma those_map_Some:
  "list_all (\<lambda>x. \<exists>y. f x = Some y \<and> P y) xs \<Longrightarrow> \<exists>ys. those (map f xs) = Some ys \<and> list_all P ys \<and> length ys = length xs"
  by (induction xs) auto

lemma new_generator_ok:
  assumes "gen_config_ok cfg"
  shows "\<exists>g. new_generator cfg = Some g \<and> gen_env cfg (ig_mids g) \<and> ig_cfg g = cfg \<and> ig_live g = [] \<and>
    ig_next_ref g = 1"
proof -
  let ?ss = "[0..<unat (gc_num_symbols cfg)]"
  have "list_all (\<lambda>s. \<exists>m. mid_price cfg s = Some m \<and> mid_ok cfg m) ?ss"
    using assms by (auto simp: gen_config_ok_def list_all_iff split: option.splits)
  then obtain mids where "those (map (mid_price cfg) ?ss) = Some mids" "list_all (mid_ok cfg) mids"
    "length mids = length ?ss"
    using those_map_Some by blast
  then show ?thesis using assms num_symbols_sint [OF assms] by (simp add: new_generator_def gen_env_def)
qed

subsection \<open>The draws\<close>

lemma draw_mod_ok:
  assumes "d \<noteq> 0"
  shows "\<exists>x r. draw_mod d g = Some (x, g\<lparr>ig_rng := r\<rparr>) \<and> x < d"
proof -
  obtain x r where x: "mt_next (ig_rng g) = (x, r)" by (cases "mt_next (ig_rng g)")
  have "unat (x mod d) < unat d" using assms by (simp add: unat_mod unat_gt_0)
  then show ?thesis using assms x by (auto simp: draw_mod_def draw_def word_less_nat_alt)
qed

lemma draw_side_ok: "\<exists>side r. draw_side g = (side, g\<lparr>ig_rng := r\<rparr>) \<and> is_side side"
  by (cases "mt_next (ig_rng g)") (auto simp: draw_side_def draw_def is_side_def)

lemma int_of_small:
  assumes "unat x < 2 ^ 31"
  shows "int_of_u64 x = int (unat x)"
proof -
  have u: "unat (ucast x :: u32) = unat x"
    using assms by (simp add: unsigned_ucast_eq take_bit_nat_eq_self_iff)
  then have "sint (ucast x :: u32) = uint (ucast x :: u32)" using assms by (intro sint_small) simp
  also have "\<dots> = int (unat x)" by (simp only: uint_nat u)
  finally show ?thesis by (simp only: int_of_u64_def)
qed

lemma draw_symbol_ok:
  assumes "gen_env (ig_cfg g) (ig_mids g)"
  shows "\<exists>sy r. draw_symbol g = Some (int sy, g\<lparr>ig_rng := r\<rparr>) \<and> sy < length (ig_mids g)"
proof -
  let ?n = "gc_num_symbols (ig_cfg g)"
  have c: "gen_config_ok (ig_cfg g)" using assms by (simp add: gen_env_def)
  have n: "sint ?n = uint ?n" "unat ?n < 65536" "?n \<noteq> 0"
    using num_symbols_sint [OF c] c by (simp_all add: gen_config_ok_def)
  have "uint (scast ?n :: u64) = take_bit 64 (uint ?n)" by (simp add: scast_eq n(1) unsigned_of_int unsigned_ucast_eq)
  also have "\<dots> = uint ?n" using uint_less [OF n(2)] by (simp add: take_bit_int_eq_self_iff)
  finally have d: "unat (scast ?n :: u64) = unat ?n" by (simp only: unat_eq_nat_uint)
  then have "(scast ?n :: u64) \<noteq> 0" using n(3) by (metis unat_0 unat_eq_0)
  then obtain x r where x: "draw_mod (scast ?n) g = Some (x, g\<lparr>ig_rng := r\<rparr>)" "x < scast ?n"
    using draw_mod_ok by blast
  have "unat x < unat ?n" using x(2) d by (simp add: word_less_nat_alt)
  moreover have "int_of_u64 x = int (unat x)" using \<open>unat x < unat ?n\<close> n(2) by (intro int_of_small) simp
  ultimately have "draw_symbol g = Some (int (unat x), g\<lparr>ig_rng := r\<rparr>)" "unat x < length (ig_mids g)"
    using x(1) assms by (simp_all add: draw_symbol_def gen_env_def)
  then show ?thesis by blast
qed

lemma unat_succ_mod:
  assumes "x < ucast d" "d \<noteq> (0 :: u32)"
  shows "unat (1 + ucast (x :: u64) :: u32) = Suc (unat x)" "unat x < unat d"
proof -
  show lt: "unat x < unat d" using assms(1) by (simp add: word_less_nat_alt unat_ucast_up)
  have "unat d < 4294967296" by simp
  then have "Suc (unat x) < 4294967296" using lt by linarith
  then have "unat (ucast x :: u32) = unat x" "Suc (unat x) < 2 ^ 32"
    by (simp_all add: unsigned_ucast_eq take_bit_nat_eq_self_iff)
  then show "unat (1 + ucast x :: u32) = Suc (unat x)"
    using unat_plus_no_wrap [of "1 :: u32" "ucast x"] by simp
qed

lemma draw_shares_ok:
  assumes "gc_max_shares (ig_cfg g) \<noteq> 0"
  shows "\<exists>q r. draw_shares g = Some (q, g\<lparr>ig_rng := r\<rparr>) \<and> q \<noteq> 0 \<and> q \<le> gc_max_shares (ig_cfg g)"
proof -
  let ?d = "gc_max_shares (ig_cfg g)"
  have "(ucast ?d :: u64) \<noteq> 0" using assms by (simp add: unat_ucast_up word_unat_eq_iff)
  then obtain x r where x: "draw_mod (ucast ?d) g = Some (x, g\<lparr>ig_rng := r\<rparr>)" "x < ucast ?d"
    using draw_mod_ok by blast
  note u = unat_succ_mod [OF x(2) assms]
  have "(1 + ucast x :: u32) \<noteq> 0" "1 + ucast x \<le> ?d"
    using u by (auto simp: word_unat_eq_iff word_le_nat_alt)
  then show ?thesis using x(1) by (auto simp: draw_shares_def)
qed

text \<open>
  No clamping and no overflow: the distance from the mid is between one tick and the band.
\<close>

lemma band_price:
  assumes env: "gen_env cfg mids" "s < length mids" and k: "0 < unat k" "unat k \<le> unat (gc_band_ticks cfg)"
  defines "m \<equiv> uint (mids ! s)" and "d \<equiv> uint k * uint (gc_tick cfg)"
  shows "int64 d = Some d" "0 < d" "uint (gc_min_price cfg) \<le> m - d" "m + d \<le> uint (gc_max_price cfg)"
proof -
  let ?b = "unat (gc_band_ticks cfg) * unat (gc_tick cfg)"
  have mid: "mid_ok cfg (mids ! s)" using env by (simp add: gen_env_def list_all_length)
  have d: "d = int (unat k * unat (gc_tick cfg))" by (simp add: d_def del: of_nat_unat) (simp only: uint_nat)
  have tick: "0 < unat (gc_tick cfg)" using env(1) by (simp add: gen_env_def gen_config_ok_def unat_gt_0)
  have le: "unat k * unat (gc_tick cfg) \<le> ?b" using k(2) by (rule mult_le_mono1)
  have b: "unat (gc_min_price cfg) + ?b \<le> unat (mids ! s)" "unat (mids ! s) + ?b \<le> unat (gc_max_price cfg)"
    using mid by (simp_all add: mid_ok_def)
  show "0 < d" using k(1) tick by (simp add: d del: of_nat_mult)
  have "?b < 4294967296" using b(2) unat_u32_less [of "gc_max_price cfg"] by linarith
  then have "unat k * unat (gc_tick cfg) < 9223372036854775808" using le by linarith
  then show "int64 d = Some d" by (simp add: int64_def d del: of_nat_mult)
  show "uint (gc_min_price cfg) \<le> m - d" "m + d \<le> uint (gc_max_price cfg)"
    unfolding m_def d uint_nat using b le by linarith+
qed

lemma clamp_price_id:
  assumes "uint (gc_min_price cfg) \<le> p" "p \<le> uint (gc_max_price cfg)"
  shows "uint (clamp_price cfg p) = p"
proof -
  have "0 \<le> p" using assms(1) uint_ge_0 [of "gc_min_price cfg"] by linarith
  moreover have "p < 2 ^ 32" using assms(2) uint_lt2p [of "gc_max_price cfg"] by simp
  moreover have "clamp_price cfg p = word_of_int p" using assms by (simp add: clamp_price_def)
  ultimately show ?thesis by (simp add: unsigned_of_int take_bit_int_eq_self_iff)
qed

lemma rand_price_ok:
  assumes env: "gen_env (ig_cfg g) (ig_mids g)" "s < length (ig_mids g)"
  shows "\<exists>p r. rand_price (int s) side g = Some (p, g\<lparr>ig_rng := r\<rparr>) \<and> p \<noteq> 0 \<and>
    p \<le> gc_max_price (ig_cfg g) \<and> right_side side p (ig_mids g ! s)"
proof -
  let ?cfg = "ig_cfg g" and ?band = "gc_band_ticks (ig_cfg g)" and ?m = "uint (ig_mids g ! s)"
  have c: "?band \<noteq> 0" "gc_min_price ?cfg \<noteq> 0" using env by (simp_all add: gen_env_def gen_config_ok_def)
  then have band: "(ucast ?band :: u64) \<noteq> 0" by (simp add: unat_ucast_up word_unat_eq_iff)
  obtain x r1 where x: "draw_mod (ucast ?band) g = Some (x, g\<lparr>ig_rng := r1\<rparr>)" "x < ucast ?band"
    using draw_mod_ok [OF band] by blast
  obtain x2 r2 where x2: "draw_mod (ucast ?band) (g\<lparr>ig_rng := r1\<rparr>) = Some (x2, g\<lparr>ig_rng := r2\<rparr>)"
    "x2 < ucast ?band"
    using draw_mod_ok [OF band, of "g\<lparr>ig_rng := r1\<rparr>"] by auto
  define k where "k = (if (1 + ucast x2 :: u32) < 1 + ucast x then 1 + ucast x2 else 1 + ucast x :: u32)"
  have k: "0 < unat k" "unat k \<le> unat ?band"
    using unat_succ_mod [OF x(2) c(1)] unat_succ_mod [OF x2(2) c(1)] by (auto simp: k_def)
  define d where "d = uint k * uint (gc_tick ?cfg)"
  note bp = band_price [OF env k, folded d_def]
  define p where "p = (if side = SIDE_BUY then ?m - d else ?m + d)"
  have p: "uint (gc_min_price ?cfg) \<le> p" "p \<le> uint (gc_max_price ?cfg)"
    using bp by (auto simp: p_def)
  have "0 \<le> p" by (rule order_trans [OF uint_ge_0 p(1)])
  then have "int64 p = Some p"
    using p(2) uint_lt2p [of "gc_max_price ?cfg"] by (simp add: int64_def)
  then have "rand_price (int s) side g = Some (clamp_price ?cfg p, g\<lparr>ig_rng := r2\<rparr>)"
    using env(2) bp(1) by (simp add: rand_price_def x(1) x2(1) Let_def p_def flip: k_def d_def)
  moreover note u = clamp_price_id [OF p]
  have "clamp_price ?cfg p \<noteq> 0"
    using u p(1) c(2) uint_ge_0 [of "gc_min_price ?cfg"] by (auto simp: word_uint_eq_iff)
  moreover have "clamp_price ?cfg p \<le> gc_max_price ?cfg" using u p(2) by (simp add: word_le_def)
  moreover have "right_side side (clamp_price ?cfg p) (ig_mids g ! s)"
    using u bp(2) by (cases "side = SIDE_BUY") (simp_all add: right_side_def word_less_def p_def)
  ultimately show ?thesis by blast
qed

subsection \<open>One message\<close>

text \<open>A generator that has room for another message, and what emitting one does.\<close>

definition gen_ready :: "u32 \<Rightarrow> nat \<Rightarrow> itch_generator \<Rightarrow> bool" where
  "gen_ready lv cap g \<longleftrightarrow> gen_env (ig_cfg g) (ig_mids g) \<and>
     live_ok (ig_cfg g) (ig_mids g) (ig_next_ref g) (ig_live g) \<and>
     room (ig_cfg g) cap (Suc (length (ig_live g))) \<and> ig_next_ref g \<noteq> 0 \<and>
     ig_next_ref g < ig_next_ref g + 1 \<and> gc_max_price (ig_cfg g) < lv"

definition emits :: "u32 \<Rightarrow> nat \<Rightarrow> itch_generator \<Rightarrow> itch_generator \<Rightarrow> bytes \<Rightarrow> bool" where
  "emits lv cap g g' b \<longleftrightarrow>
     ig_cfg g' = ig_cfg g \<and> ig_mids g' = ig_mids g \<and>
     ig_out g' = ig_out g @ frame b \<and> frameable b \<and> dm_type (decoded b) \<noteq> Unknown \<and>
     live_ok (ig_cfg g) (ig_mids g) (ig_next_ref g') (ig_live g') \<and>
     applies lv cap (live_map (ig_live g)) (decoded b) (live_map (ig_live g')) \<and>
     length (ig_live g') \<le> Suc (length (ig_live g)) \<and>
     (ig_next_ref g' = ig_next_ref g \<or> ig_next_ref g' = ig_next_ref g + 1) \<and>
     gs_total (ig_stats g') = gs_total (ig_stats g) + 1"

lemma count_msg_fields [simp]:
  "ig_cfg (count_msg t g) = ig_cfg g" "ig_mids (count_msg t g) = ig_mids g" "ig_out (count_msg t g) = ig_out g"
  "ig_live (count_msg t g) = ig_live g" "ig_next_ref (count_msg t g) = ig_next_ref g"
  "gs_total (ig_stats (count_msg t g)) = gs_total (ig_stats g) + 1"
  by (simp_all add: count_msg_def Let_def)

lemma with_frame_fields [simp]:
  "ig_cfg (with_frame t l fs g) = ig_cfg g" "ig_mids (with_frame t l fs g) = ig_mids g"
  "ig_out (with_frame t l fs g) = ig_out g @ frame (msg_head t l (ig_track g) (ig_ts g) @ fs)"
  "ig_live (with_frame t l fs g) = ig_live g" "ig_next_ref (with_frame t l fs g) = ig_next_ref g"
  "ig_stats (with_frame t l fs g) = ig_stats g"
  by (simp_all add: with_frame_def)

lemma set_live_fields [simp]:
  "ig_cfg (set_live i ord g) = ig_cfg g" "ig_mids (set_live i ord g) = ig_mids g"
  "ig_out (set_live i ord g) = ig_out g" "ig_next_ref (set_live i ord g) = ig_next_ref g"
  "ig_stats (set_live i ord g) = ig_stats g" "ig_live (set_live i ord g) = (ig_live g)[nat i := ord]"
  by (simp_all add: set_live_def)

lemma remove_live_fields [simp]:
  "ig_cfg (remove_live i g) = ig_cfg g" "ig_mids (remove_live i g) = ig_mids g"
  "ig_out (remove_live i g) = ig_out g" "ig_next_ref (remove_live i g) = ig_next_ref g"
  "ig_stats (remove_live i g) = ig_stats g"
  "ig_live (remove_live i g) = butlast ((ig_live g)[nat i := List.last (ig_live g)])"
  by (simp_all add: remove_live_def)

lemma shrink_live_fields:
  "ig_cfg (shrink_live i ord q g) = ig_cfg g" "ig_mids (shrink_live i ord q g) = ig_mids g"
  "ig_out (shrink_live i ord q g) = ig_out g" "ig_next_ref (shrink_live i ord q g) = ig_next_ref g"
  "ig_stats (shrink_live i ord q g) = ig_stats g"
  "ord = ig_live g ! nat i \<Longrightarrow> ig_live (shrink_live i ord q g) = shrunk (nat i) q (ig_live g)"
  by (simp_all add: shrink_live_def shrunk_def Let_def)

lemma frameable_head: "length fs < 65000 \<Longrightarrow> frameable (msg_head t l track ts @ fs)"
  by (simp add: frameable_def) (simp add: msg_head_def)

lemma emit_system_ok:
  assumes "live_ok (ig_cfg g) (ig_mids g) (ig_next_ref g) (ig_live g)"
  shows "\<exists>g' b. emit_system code g = Some g' \<and> emits lv cap g g' b \<and> dm_type (decoded b) = SystemEvent \<and>
    ig_live g' = ig_live g \<and> ig_next_ref g' = ig_next_ref g"
  by (rule exI [of _ "count_msg SystemEvent (with_frame SystemEvent 0 [code] g)"],
      rule exI [of _ "msg_head SystemEvent 0 (ig_track g) (ig_ts g) @ [code]"])
    (use assms in \<open>simp add: emit_system_frame emits_def frameable_head decoded_system head_msg_def other_applies\<close>)

lemma emit_add_ok:
  assumes "gen_ready lv cap g"
  shows "\<exists>g' b. emit_add mpid g = Some g' \<and> emits lv cap g g' b"
proof -
  have env: "gen_env (ig_cfg g) (ig_mids g)" and max: "gc_max_shares (ig_cfg g) \<noteq> 0"
    using assms by (simp_all add: gen_ready_def gen_env_def gen_config_ok_def)
  obtain s r1 where s: "draw_symbol g = Some (int s, g\<lparr>ig_rng := r1\<rparr>)" "s < length (ig_mids g)"
    using draw_symbol_ok [OF env] by blast
  obtain side r2 where side: "draw_side (g\<lparr>ig_rng := r1\<rparr>) = (side, g\<lparr>ig_rng := r2\<rparr>)" "is_side side"
    using draw_side_ok [of "g\<lparr>ig_rng := r1\<rparr>"] by auto
  obtain p r3 where p: "rand_price (int s) side (g\<lparr>ig_rng := r2\<rparr>) = Some (p, g\<lparr>ig_rng := r3\<rparr>)" "p \<noteq> 0"
    "p \<le> gc_max_price (ig_cfg g)" "right_side side p (ig_mids g ! s)"
    using rand_price_ok [of "g\<lparr>ig_rng := r2\<rparr>" s side] env s(2) by auto
  obtain q r4 where q: "draw_shares (g\<lparr>ig_rng := r3\<rparr>) = Some (q, g\<lparr>ig_rng := r4\<rparr>)" "q \<noteq> 0"
    "q \<le> gc_max_shares (ig_cfg g)"
    using draw_shares_ok [of "g\<lparr>ig_rng := r3\<rparr>"] max by auto
  have "Suc s < 65536" using s(2) env num_symbols_sint(2) [of "ig_cfg g"] by (simp add: gen_env_def)
  then have loc: "unat (word_of_int (int s + 1) :: u16) = Suc s"
    using unat_of_nat_u16 [of "Suc s"] by (simp add: add.commute)
  define ord where "ord = \<lparr>lo_ref = ig_next_ref g, lo_locate = word_of_int (int s + 1), lo_side = side,
    lo_price = p, lo_shares = q\<rparr>"
  define t where "t = (if mpid then AddOrderMPID else AddOrder)"
  define b where "b = msg_head t (lo_locate ord) (ig_track g) (ig_ts g) @ add_fields mpid ord (int s)"
  have live: "live_ok (ig_cfg g) (ig_mids g) (ig_next_ref g) (ig_live g)"
    and room: "room (ig_cfg g) cap (Suc (length (ig_live g)))"
    and nxt: "ig_next_ref g < ig_next_ref g + 1" and lv: "gc_max_price (ig_cfg g) < lv"
    using assms by (simp_all add: gen_ready_def)
  have "ig_next_ref g \<noteq> 0" using assms by (simp add: gen_ready_def)
  then have ok: "lo_ok (ig_cfg g) (ig_mids g) ord"
    using side(2) p(2,3,4) q(2,3) s(2) loc by (auto simp: lo_ok_def ord_def)
  have dec: "dm_type (decoded b) = t \<and> describes (decoded b) ord"
    unfolding b_def decoded_add [OF t_def] by (simp add: head_msg_def describes_def)
  then have m: "dm_type (decoded b) = AddOrder \<or> dm_type (decoded b) = AddOrderMPID" "describes (decoded b) ord"
    by (simp_all add: t_def)
  have fb: "frameable b" unfolding b_def by (rule frameable_head) (simp add: add_fields_def stock_name_def)
  have ref: "lo_ref ord = ig_next_ref g" by (simp add: ord_def)
  note app = add_applies [OF live ok ref nxt room lv m]
  define g' where "g' = count_msg t (with_frame t (lo_locate ord) (add_fields mpid ord (int s))
    (g\<lparr>ig_rng := r4, ig_next_ref := ig_next_ref g + 1, ig_live := ig_live g @ [ord]\<rparr>))"
  have "emit_add mpid g = Some g'"
    using emit_add_frame [OF s(1) side(1) p(1) q(1), of mpid] by (simp add: Let_def g'_def ord_def t_def)
  moreover have "emits lv cap g g' b"
    using app m(1) fb by (auto simp: emits_def g'_def b_def)
  ultimately show ?thesis by blast
qed

text \<open>The messages about a live order: what \<open>pick_live\<close> picks is one.\<close>

lemma gen_ready_rng: "gen_ready lv cap g \<Longrightarrow> gen_ready lv cap (g\<lparr>ig_rng := r\<rparr>)"
  by (simp add: gen_ready_def)

lemma emits_rng: "emits lv cap (g\<lparr>ig_rng := r\<rparr>) g' b = emits lv cap g g' b"
  by (simp add: emits_def)

lemma live_at_nth: "i < length (ig_live g) \<Longrightarrow> live_at (int i) g = Some (ig_live g ! i)"
  by (simp add: live_at_def)

lemma pick_live_ok:
  assumes "gen_ready lv cap g"
  shows "ig_live g = [] \<and> pick_live g = Some (-1, g) \<or>
    (\<exists>i r. pick_live g = Some (int i, g\<lparr>ig_rng := r\<rparr>) \<and> i < length (ig_live g))"
proof (cases "ig_live g = []")
  case False
  let ?n = "length (ig_live g)"
  have n: "?n < 2 ^ 31" using assms by (simp add: gen_ready_def room_def)
  then have u: "unat (of_nat ?n :: u64) = ?n" by (simp add: unsigned_of_nat take_bit_nat_eq_self_iff)
  then have "(of_nat ?n :: u64) \<noteq> 0" using False by (auto simp: word_unat_eq_iff)
  then obtain x r where x: "draw_mod (of_nat ?n) g = Some (x, g\<lparr>ig_rng := r\<rparr>)" "x < of_nat ?n"
    using draw_mod_ok by blast
  have lt: "unat x < ?n" using x(2) u by (simp add: word_less_nat_alt)
  then have "int_of_u64 x = int (unat x)" using n by (intro int_of_small) linarith
  then show ?thesis using False x(1) lt by (auto simp: pick_live_def simp del: of_nat_unat)
qed (simp add: pick_live_def)

lemma live_shares:
  assumes "gen_ready lv cap g" "i < length (ig_live g)"
  shows "lo_ok (ig_cfg g) (ig_mids g) (ig_live g ! i)" "(ucast (lo_shares (ig_live g ! i)) :: u64) \<noteq> 0"
proof -
  show "lo_ok (ig_cfg g) (ig_mids g) (ig_live g ! i)" using assms by (simp add: gen_ready_def live_ok_def)
  then show "(ucast (lo_shares (ig_live g ! i)) :: u64) \<noteq> 0"
    by (simp add: lo_ok_def word_unat_eq_iff unat_ucast_up)
qed

text \<open>A draw of shares of an order: not zero and not more than it has.\<close>

lemma drawn_shares:
  assumes "gen_ready lv cap g" "i < length (ig_live g)"
  obtains x r where "draw_mod (ucast (lo_shares (ig_live g ! i))) g = Some (x, g\<lparr>ig_rng := r\<rparr>)"
    "(1 + ucast x :: u32) \<noteq> 0" "1 + ucast x \<le> lo_shares (ig_live g ! i)"
proof -
  obtain x r where x: "draw_mod (ucast (lo_shares (ig_live g ! i))) g = Some (x, g\<lparr>ig_rng := r\<rparr>)"
    "x < ucast (lo_shares (ig_live g ! i))"
    using draw_mod_ok [OF live_shares(2) [OF assms]] by blast
  have "lo_shares (ig_live g ! i) \<noteq> 0" using live_shares(1) [OF assms] by (simp add: lo_ok_def)
  note u = unat_succ_mod [OF x(2) this]
  show ?thesis by (rule that [OF x(1)]) (use u in \<open>auto simp: word_unat_eq_iff word_le_nat_alt\<close>)
qed

lemma exec_at_ok:
  assumes ready: "gen_ready lv cap g" and i: "i < length (ig_live g)"
  shows "\<exists>g' b. exec_at (int i) with_price g = Some g' \<and> emits lv cap g g' b"
proof -
  let ?o = "ig_live g ! i" and ?t = "exec_type with_price"
  obtain x r where x: "draw_mod (ucast (lo_shares ?o)) g = Some (x, g\<lparr>ig_rng := r\<rparr>)"
    "(1 + ucast x :: u32) \<noteq> 0" "1 + ucast x \<le> lo_shares ?o"
    using drawn_shares [OF ready i] by blast
  define b where "b = msg_head ?t (lo_locate ?o) (ig_track g) (ig_ts g) @
    exec_fields with_price ?o (1 + ucast x) (ig_match g)"
  have live: "live_ok (ig_cfg g) (ig_mids g) (ig_next_ref g) (ig_live g)" using ready by (simp add: gen_ready_def)
  have m: "dm_type (decoded b) = ?t" "dm_order_ref (decoded b) = lo_ref ?o" "dm_shares (decoded b) = 1 + ucast x"
    unfolding b_def decoded_exec by (simp_all add: head_msg_def)
  have t: "?t \<in> {OrderExecuted, OrderExecutedPrice, OrderCancel}" "?t \<noteq> Unknown" by (simp_all add: exec_type_def)
  have fb: "frameable b" unfolding b_def by (rule frameable_head) (simp add: exec_fields_def)
  have t': "dm_type (decoded b) \<in> {OrderExecuted, OrderExecutedPrice, OrderCancel}" using m(1) t(1) by simp
  note app = shrink_applies [OF live i x(2,3) t' m(2,3)]
  define g' where "g' = shrink_live (int i) ?o (1 + ucast x) (count_msg ?t (with_frame ?t (lo_locate ?o)
    (exec_fields with_price ?o (1 + ucast x) (ig_match g)) (g\<lparr>ig_rng := r, ig_match := ig_match g + 1\<rparr>)))"
  have "exec_at (int i) with_price g = Some g'"
    by (simp add: exec_at_frame [OF live_at_nth [OF i] x(1)] g'_def)
  moreover have "emits lv cap g g' b"
    using app m(1) t fb by (auto simp: emits_def g'_def shrink_live_fields length_shrunk le_SucI b_def)
  ultimately show ?thesis by blast
qed

lemma emit_execute_ok:
  assumes "gen_ready lv cap g"
  shows "\<exists>g' b. emit_execute with_price g = Some g' \<and> emits lv cap g g' b"
  using pick_live_ok [OF assms]
proof (elim disjE exE conjE)
  assume "pick_live g = Some (-1, g)"
  then show ?thesis using emit_add_ok [OF assms] by (simp add: emit_execute_def)
next
  fix i r
  assume p: "pick_live g = Some (int i, g\<lparr>ig_rng := r\<rparr>)" "i < length (ig_live g)"
  then show ?thesis
    using exec_at_ok [OF gen_ready_rng [OF assms], of i r with_price] by (simp add: emit_execute_def emits_rng)
qed

lemma emit_cancel_ok:
  assumes "gen_ready lv cap g"
  shows "\<exists>g' b. emit_cancel g = Some g' \<and> emits lv cap g g' b"
  using pick_live_ok [OF assms]
proof (elim disjE exE conjE)
  assume "pick_live g = Some (-1, g)"
  then show ?thesis using emit_add_ok [OF assms] by (simp add: emit_cancel_def)
next
  fix i r
  assume p: "pick_live g = Some (int i, g\<lparr>ig_rng := r\<rparr>)" and i': "i < length (ig_live g)"
  define h where "h = g\<lparr>ig_rng := r\<rparr>"
  have ready: "gen_ready lv cap h" using gen_ready_rng [OF assms] by (simp add: h_def)
  have i: "i < length (ig_live h)" using i' by (simp add: h_def)
  let ?o = "ig_live h ! i"
  obtain x r' where x: "draw_mod (ucast (lo_shares ?o)) h = Some (x, h\<lparr>ig_rng := r'\<rparr>)"
    "(1 + ucast x :: u32) \<noteq> 0" "1 + ucast x \<le> lo_shares ?o"
    using drawn_shares [OF ready i] by blast
  define b where "b = msg_head OrderCancel (lo_locate ?o) (ig_track h) (ig_ts h) @
    store_be64 (lo_ref ?o) @ store_be32 (1 + ucast x)"
  have live: "live_ok (ig_cfg h) (ig_mids h) (ig_next_ref h) (ig_live h)" using ready by (simp add: gen_ready_def)
  have m: "dm_type (decoded b) = OrderCancel" "dm_order_ref (decoded b) = lo_ref ?o"
    "dm_shares (decoded b) = 1 + ucast x"
    unfolding b_def decoded_cancel by (simp_all add: head_msg_def)
  have fb: "frameable b" unfolding b_def by (rule frameable_head) simp
  have t: "dm_type (decoded b) \<in> {OrderExecuted, OrderExecutedPrice, OrderCancel}" using m(1) by simp
  note app = shrink_applies [OF live i x(2,3) t m(2,3)]
  define g' where "g' = shrink_live (int i) ?o (1 + ucast x) (count_msg OrderCancel (with_frame OrderCancel
    (lo_locate ?o) (store_be64 (lo_ref ?o) @ store_be32 (1 + ucast x)) (h\<lparr>ig_rng := r'\<rparr>)))"
  have "emit_cancel g = Some g'"
    using emit_cancel_frame [OF p [folded h_def] _ live_at_nth [OF i] x(1)] by (simp add: g'_def)
  moreover have "emits lv cap h g' b"
    using app m(1) fb by (auto simp: emits_def g'_def shrink_live_fields length_shrunk le_SucI b_def)
  ultimately show ?thesis by (auto simp: h_def emits_rng)
qed

lemma emit_delete_ok:
  assumes "gen_ready lv cap g"
  shows "\<exists>g' b. emit_delete g = Some g' \<and> emits lv cap g g' b"
  using pick_live_ok [OF assms]
proof (elim disjE exE conjE)
  assume "pick_live g = Some (-1, g)"
  then show ?thesis using emit_add_ok [OF assms] by (simp add: emit_delete_def)
next
  fix i r
  assume p: "pick_live g = Some (int i, g\<lparr>ig_rng := r\<rparr>)" and i': "i < length (ig_live g)"
  define h where "h = g\<lparr>ig_rng := r\<rparr>"
  have live: "live_ok (ig_cfg h) (ig_mids h) (ig_next_ref h) (ig_live h)"
    using assms by (simp add: gen_ready_def h_def)
  have i: "i < length (ig_live h)" using i' by (simp add: h_def)
  let ?o = "ig_live h ! i"
  define b where "b = msg_head OrderDelete (lo_locate ?o) (ig_track h) (ig_ts h) @ store_be64 (lo_ref ?o)"
  have m: "dm_type (decoded b) = OrderDelete" "dm_order_ref (decoded b) = lo_ref ?o"
    unfolding b_def decoded_delete by (simp_all add: head_msg_def)
  have fb: "frameable b" unfolding b_def by (rule frameable_head) simp
  note app = delete_applies [OF live i m]
  define g' where "g' = remove_live (int i) (count_msg OrderDelete (with_frame OrderDelete
    (lo_locate ?o) (store_be64 (lo_ref ?o)) h))"
  have "emit_delete g = Some g'"
    using emit_delete_frame [OF p [folded h_def] _ live_at_nth [OF i]] by (simp add: g'_def)
  moreover have "emits lv cap h g' b"
    using app m(1) fb by (auto simp: emits_def g'_def le_SucI b_def)
  ultimately show ?thesis by (auto simp: h_def emits_rng)
qed

lemma emit_replace_ok:
  assumes "gen_ready lv cap g"
  shows "\<exists>g' b. emit_replace g = Some g' \<and> emits lv cap g g' b"
  using pick_live_ok [OF assms]
proof (elim disjE exE conjE)
  assume "pick_live g = Some (-1, g)"
  then show ?thesis using emit_add_ok [OF assms] by (simp add: emit_replace_def)
next
  fix i r
  assume p: "pick_live g = Some (int i, g\<lparr>ig_rng := r\<rparr>)" and i': "i < length (ig_live g)"
  define h where "h = g\<lparr>ig_rng := r\<rparr>"
  have ready: "gen_ready lv cap h" using gen_ready_rng [OF assms] by (simp add: h_def)
  then have env: "gen_env (ig_cfg h) (ig_mids h)" and max: "gc_max_shares (ig_cfg h) \<noteq> 0"
    and live: "live_ok (ig_cfg h) (ig_mids h) (ig_next_ref h) (ig_live h)"
    and room: "room (ig_cfg h) cap (Suc (length (ig_live h)))"
    and nxt: "ig_next_ref h < ig_next_ref h + 1" "ig_next_ref h \<noteq> 0" and lv: "gc_max_price (ig_cfg h) < lv"
    by (simp_all add: gen_ready_def gen_env_def gen_config_ok_def)
  have i: "i < length (ig_live h)" using i' by (simp add: h_def)
  let ?o = "ig_live h ! i" let ?s = "unat (lo_locate (ig_live h ! i)) - 1"
  have o_ok: "lo_ok (ig_cfg h) (ig_mids h) ?o" by (rule live_shares [OF ready i])
  then have "0 < unat (lo_locate ?o)" "unat (lo_locate ?o) \<le> length (ig_mids h)"
    by (simp_all add: lo_ok_def unat_gt_0)
  then have loc: "0 < unat (lo_locate ?o)" "?s < length (ig_mids h)" by linarith+
  have s: "(if uint (lo_locate ?o) - 1 < 0 then 0 else uint (lo_locate ?o) - 1) = int ?s"
    unfolding uint_nat using loc(1) by (simp del: of_nat_unat)
  let ?h1 = "h\<lparr>ig_next_ref := ig_next_ref h + 1\<rparr>"
  obtain price r1 where price: "rand_price (int ?s) (lo_side ?o) ?h1 = Some (price, ?h1\<lparr>ig_rng := r1\<rparr>)"
    "price \<noteq> 0" "price \<le> gc_max_price (ig_cfg h)" "right_side (lo_side ?o) price (ig_mids h ! ?s)"
    using rand_price_ok [of ?h1 ?s "lo_side ?o"] env loc(2) by auto
  obtain q r2 where q: "draw_shares (?h1\<lparr>ig_rng := r1\<rparr>) = Some (q, ?h1\<lparr>ig_rng := r2\<rparr>)" "q \<noteq> 0"
    "q \<le> gc_max_shares (ig_cfg h)"
    using draw_shares_ok [of "?h1\<lparr>ig_rng := r1\<rparr>"] max by auto
  define new where "new = ?o\<lparr>lo_ref := ig_next_ref h, lo_price := price, lo_shares := q\<rparr>"
  have new: "lo_ok (ig_cfg h) (ig_mids h) new" "lo_ref new = ig_next_ref h" "lo_locate new = lo_locate ?o"
    "lo_side new = lo_side ?o"
    using o_ok nxt(2) price(2,3,4) q(2,3) by (simp_all add: lo_ok_def new_def)
  define b where "b = msg_head OrderReplace (lo_locate ?o) (ig_track h) (ig_ts h) @ replace_fields ?o new"
  have m: "dm_type (decoded b) = OrderReplace" "dm_order_ref (decoded b) = lo_ref ?o"
    "dm_new_order_ref (decoded b) = ig_next_ref h" "dm_price (decoded b) = lo_price new"
    "dm_shares (decoded b) = lo_shares new"
    unfolding b_def decoded_replace by (simp_all add: head_msg_def new(2))
  have fb: "frameable b" unfolding b_def by (rule frameable_head) (simp add: replace_fields_def)
  note app = replace_applies [OF live i new nxt(1) room lv m]
  define g' where "g' = set_live (int i) new (count_msg OrderReplace (with_frame OrderReplace (lo_locate ?o)
    (replace_fields ?o new) (?h1\<lparr>ig_rng := r2\<rparr>)))"
  have "emit_replace g = Some g'"
    using emit_replace_frame [OF p [folded h_def] _ live_at_nth [OF i], unfolded s, OF _ price(1) q(1)]
    by (simp add: g'_def new_def Let_def)
  moreover have "emits lv cap h g' b"
    using app m(1) fb by (auto simp: emits_def g'_def b_def)
  ultimately show ?thesis by (auto simp: h_def emits_rng)
qed

lemma emit_trade_ok:
  assumes "gen_ready lv cap g"
  shows "\<exists>g' b. emit_trade g = Some g' \<and> emits lv cap g g' b"
proof -
  have env: "gen_env (ig_cfg g) (ig_mids g)" and max: "gc_max_shares (ig_cfg g) \<noteq> 0"
    and live: "live_ok (ig_cfg g) (ig_mids g) (ig_next_ref g) (ig_live g)"
    using assms by (simp_all add: gen_ready_def gen_env_def gen_config_ok_def)
  obtain s r1 where s: "draw_symbol g = Some (int s, g\<lparr>ig_rng := r1\<rparr>)" "s < length (ig_mids g)"
    using draw_symbol_ok [OF env] by blast
  obtain side r2 where side: "draw_side (g\<lparr>ig_rng := r1\<rparr>) = (side, g\<lparr>ig_rng := r2\<rparr>)"
    using draw_side_ok [of "g\<lparr>ig_rng := r1\<rparr>"] by auto
  obtain p r3 where p: "rand_price (int s) side (g\<lparr>ig_rng := r2\<rparr>) = Some (p, g\<lparr>ig_rng := r3\<rparr>)"
    using rand_price_ok [of "g\<lparr>ig_rng := r2\<rparr>" s side] env s(2) by auto
  obtain q r4 where q: "draw_shares (g\<lparr>ig_rng := r3\<rparr>) = Some (q, g\<lparr>ig_rng := r4\<rparr>)"
    using draw_shares_ok [of "g\<lparr>ig_rng := r3\<rparr>"] max by auto
  define b where "b = msg_head Trade (word_of_int (int s + 1)) (ig_track g) (ig_ts g) @
    trade_fields side q (int s) p (ig_match g)"
  have t: "dm_type (decoded b) = Trade" unfolding b_def decoded_trade by (simp add: head_msg_def)
  have fb: "frameable b" unfolding b_def by (rule frameable_head) (simp add: trade_fields_def stock_name_def)
  define g' where "g' = count_msg Trade (with_frame Trade (word_of_int (int s + 1))
    (trade_fields side q (int s) p (ig_match g)) (g\<lparr>ig_rng := r4, ig_match := ig_match g + 1\<rparr>))"
  have "emit_trade g = Some g'" using emit_trade_frame [OF s(1) side p q] by (simp add: g'_def)
  moreover have "emits lv cap g g' b"
    using t fb live by (auto simp: emits_def g'_def b_def other_applies)
  ultimately show ?thesis by blast
qed

lemma sweep_pick_range:
  assumes "length xs < 2 ^ 31"
  shows "sweep_pick xs l s = -1 \<or> 0 \<le> sweep_pick xs l s \<and> nat (sweep_pick xs l s) < length xs"
proof -
  have "unat (of_nat (length xs) :: u64) = length xs"
    using assms by (simp add: unsigned_of_nat take_bit_nat_eq_self_iff)
  then have n: "nat (int_of_u64 (of_nat (length xs))) = length xs"
    using assms int_of_small [of "of_nat (length xs)"] by simp
  have "fold (sweep_visit xs l s) is best = -1 \<or>
      0 \<le> fold (sweep_visit xs l s) is best \<and> nat (fold (sweep_visit xs l s) is best) < length xs"
    if "\<forall>i\<in>set is. i < length xs" "best = -1 \<or> 0 \<le> best \<and> nat best < length xs" for "is" best
    using that
  proof (induction "is" arbitrary: best)
    case (Cons i "is")
    have "sweep_visit xs l s i best = -1 \<or> 0 \<le> sweep_visit xs l s i best \<and> nat (sweep_visit xs l s i best) < length xs"
      using Cons.prems by (auto simp: sweep_visit_def)
    then show ?case using Cons.IH [of "sweep_visit xs l s i best"] Cons.prems(1) by simp
  qed simp
  then show ?thesis unfolding sweep_pick_def n by simp
qed

lemma emit_sweep_ok:
  assumes "gen_ready lv cap g"
  shows "\<exists>g' b. emit_sweep g = Some g' \<and> emits lv cap g g' b"
proof -
  have env: "gen_env (ig_cfg g) (ig_mids g)" and n: "length (ig_live g) < 2 ^ 31"
    using assms by (simp_all add: gen_ready_def room_def)
  obtain s r1 where s: "draw_symbol g = Some (int s, g\<lparr>ig_rng := r1\<rparr>)"
    using draw_symbol_ok [OF env] by blast
  obtain side r2 where side: "draw_side (g\<lparr>ig_rng := r1\<rparr>) = (side, g\<lparr>ig_rng := r2\<rparr>)"
    using draw_side_ok [of "g\<lparr>ig_rng := r1\<rparr>"] by auto
  define i where "i = sweep_pick (ig_live g) (word_of_int (int s + 1)) side"
  have e: "emit_sweep g = (if i < 0 then emit_add False (g\<lparr>ig_rng := r2\<rparr>) else exec_at i False (g\<lparr>ig_rng := r2\<rparr>))"
    by (simp add: emit_sweep_def s side i_def)
  have ready: "gen_ready lv cap (g\<lparr>ig_rng := r2\<rparr>)" by (rule gen_ready_rng [OF assms])
  show ?thesis
  proof (cases "i < 0")
    case True
    then show ?thesis using e emit_add_ok [OF ready, of False] by (simp add: emits_rng)
  next
    case False
    then have "i = int (nat i)" "nat i < length (ig_live (g\<lparr>ig_rng := r2\<rparr>))"
      using sweep_pick_range [OF n, of "word_of_int (int s + 1)" side] by (auto simp: i_def)
    then show ?thesis using e False exec_at_ok [OF ready, of "nat i" False] by (simp add: emits_rng)
  qed
qed

lemma emit_choice_ok:
  assumes "gen_ready lv cap g"
  shows "\<exists>g' b. emit_choice roll g = Some g' \<and> emits lv cap g g' b"
  using emit_add_ok [OF assms] emit_execute_ok [OF assms] emit_cancel_ok [OF assms] emit_delete_ok [OF assms]
    emit_replace_ok [OF assms] emit_trade_ok [OF assms]
  by (simp add: emit_choice_def Let_def)

lemma track_peak_emits: "emits lv cap g g' b \<Longrightarrow> emits lv cap g (track_peak g') b"
  by (simp add: track_peak_def Let_def emits_def)

lemma gen_step_ok:
  assumes "gen_ready lv cap g"
  shows "\<exists>g' b. gen_step g = Some g' \<and> emits lv cap g g' b"
proof -
  obtain x r where x: "draw_mod 50 g = Some (x, g\<lparr>ig_rng := r\<rparr>)" using draw_mod_ok [of 50 g] by auto
  define g2 where "g2 = g\<lparr>ig_rng := r, ig_ts := ig_ts g + (1 + x) * gc_ts_scale (ig_cfg g)\<rparr>"
  have clock: "g\<lparr>ig_rng := r, ig_ts := ig_ts (g\<lparr>ig_rng := r\<rparr>) +
      (1 + x) * gc_ts_scale (ig_cfg (g\<lparr>ig_rng := r\<rparr>))\<rparr> = g2"
    by (simp add: g2_def)
  have ready2: "gen_ready lv cap g2" using assms by (simp add: gen_ready_def g2_def)
  have back2: "emits lv cap g2 g' b = emits lv cap g g' b" for g' b by (simp add: emits_def g2_def)
  obtain y r1 where y: "draw_mod 100 g2 = Some (y, g2\<lparr>ig_rng := r1\<rparr>)" using draw_mod_ok [of 100 g2] by auto
  have "\<exists>sweep r'. (if gc_aggress_prob (ig_cfg g2) > 0
        then do { (y, h) \<leftarrow> draw_mod 100 g2; Some (y < ucast (gc_aggress_prob (ig_cfg h)), h) }
        else Some (False, g2)) = Some (sweep, g2\<lparr>ig_rng := r'\<rparr>)"
    by (cases "gc_aggress_prob (ig_cfg g2) > 0")
      (auto simp: y intro: exI [of _ False] exI [of _ "ig_rng g2"])
  then obtain sweep r' where sw: "(if gc_aggress_prob (ig_cfg g2) > 0
        then do { (y, h) \<leftarrow> draw_mod 100 g2; Some (y < ucast (gc_aggress_prob (ig_cfg h)), h) }
        else Some (False, g2)) = Some (sweep, g2\<lparr>ig_rng := r'\<rparr>)" by blast
  define g3 where "g3 = g2\<lparr>ig_rng := r'\<rparr>"
  have ready3: "gen_ready lv cap g3" unfolding g3_def by (rule gen_ready_rng [OF ready2])
  obtain roll r3 where roll: "draw_mod 100 g3 = Some (roll, g3\<lparr>ig_rng := r3\<rparr>)" using draw_mod_ok [of 100 g3] by auto
  have step: "gen_step g = (if sweep then do { g4 \<leftarrow> emit_sweep g3; Some (track_peak g4) }
      else do { g5 \<leftarrow> emit_choice (unat roll) (g3\<lparr>ig_rng := r3\<rparr>); Some (track_peak g5) })"
    unfolding gen_step_def x Option.bind_lunit prod.case Let_def clock sw [folded g3_def] roll by (rule refl)
  have "\<exists>g' b. gen_step g = Some g' \<and> emits lv cap g3 g' b"
  proof (cases sweep)
    case True
    then show ?thesis using step emit_sweep_ok [OF ready3] track_peak_emits by fastforce
  next
    case False
    then show ?thesis
      using step emit_choice_ok [OF gen_ready_rng [OF ready3, of r3], of "unat roll"] track_peak_emits
      by (fastforce simp: emits_rng)
  qed
  then show ?thesis by (simp add: g3_def emits_rng back2)
qed

end
