(* ===== verification/ItchGenProps.thy ===== *)
theory ItchGenProps
  imports ItchGenSteps
begin

text \<open>
  The generated stream: for every seed the generator returns, the decoder knows every message
  of its stream, and the engine applies every one and never shows a crossed book.
\<close>

subsection \<open>An engine in step with the generator\<close>

definition uncrossed :: "book_engine \<Rightarrow> bool" where
  "uncrossed e \<longleftrightarrow> (\<forall>loc b. be_books e loc = Some b \<longrightarrow> ob_best_bid b \<noteq> 0 \<longrightarrow> ob_best_ask b \<noteq> 0 \<longrightarrow>
     ob_best_bid b < ob_best_ask b)"

text \<open>A run in which every message is applied and leaves no book crossed.\<close>

fun clean_run :: "decoded_message list \<Rightarrow> book_engine \<Rightarrow> bool" where
  "clean_run [] e \<longleftrightarrow> True"
| "clean_run (m # ms) e \<longleftrightarrow>
     (case apply_msg m e of None \<Rightarrow> False
      | Some (e', _) \<Rightarrow> be_status e' = Applied \<and> uncrossed e' \<and> clean_run ms e')"

definition in_step :: "u32 \<Rightarrow> nat \<Rightarrow> book_engine \<Rightarrow> itch_generator \<Rightarrow> bool" where
  "in_step lv cap e g \<longleftrightarrow> engine_inv e \<and> live e = live_map (ig_live g) \<and> be_price_levels e = lv \<and>
     rt_cap (be_refs e) = cap"

lemma in_step_uncrossed:
  assumes "in_step lv cap e g" "live_ok cfg mids nxt (ig_live g)"
  shows "uncrossed e"
  unfolding uncrossed_def
proof (intro allI impI)
  fix loc b
  assume b: "be_books e loc = Some b" "ob_best_bid b \<noteq> 0" "ob_best_ask b \<noteq> 0"
  have inv: "engine_inv e" and l: "live e = live_map (ig_live g)" using assms(1) by (simp_all add: in_step_def)
  let ?bids = "resting_prices (live e) loc SIDE_BUY" and ?asks = "resting_prices (live e) loc SIDE_SELL"
  have "b = book_of e loc" using b(1) by (simp add: book_of_def)
  then have ne: "?bids \<noteq> {}" "?asks \<noteq> {}" and best: "ob_best_bid b = Max ?bids" "ob_best_ask b = Min ?asks"
    using engine_best_prices [OF inv, of loc] b(2,3) by (auto split: if_splits)
  have side: "right_side s p (mids ! (unat loc - 1))" if "p \<in> resting_prices (live e) loc s" for s p
  proof -
    obtain r v where "live e r = Some v" "ov_locate v = loc" "ov_side v = s" "ov_price v = p"
      using \<open>p \<in> _\<close> by (auto simp: resting_prices_def)
    then show ?thesis using live_map_values [OF assms(2)] l by (fastforce simp: lo_ok_def lo_value_def)
  qed
  have "Max ?bids \<in> ?bids" "Min ?asks \<in> ?asks" by (rule Max_in, simp, fact ne) (rule Min_in, simp, fact ne)
  then have "Max ?bids < mids ! (unat loc - 1)" "mids ! (unat loc - 1) < Min ?asks"
    using side by (fastforce simp: right_side_def layout)+
  then show "ob_best_bid b < ob_best_ask b" using best by simp
qed

text \<open>Emitting a message and applying it keeps the two in step.\<close>

lemma apply_emitted:
  assumes "in_step lv cap e g" "emits lv cap g g' b"
    "length (ig_live g) < cap \<or> dm_type (decoded b) = SystemEvent"
  shows "\<exists>e'. clean_run [decoded b] e \<and> run_engine [decoded b] e = Some e' \<and> in_step lv cap e' g'"
proof -
  have inv: "engine_inv e" and l: "live e = live_map (ig_live g)" and c: "be_price_levels e = lv" "rt_cap (be_refs e) = cap"
    using assms(1) by (simp_all add: in_step_def)
  have app: "event_status lv cap (live e) (decoded b) = Applied"
    "event_orders (live e) (decoded b) = live_map (ig_live g')"
    using assms(2) by (simp_all add: emits_def applies_def l)
  have ok: "live_ok (ig_cfg g) (ig_mids g) (ig_next_ref g') (ig_live g')" using assms(2) by (simp add: emits_def)
  have size: "rt_size (be_refs e) \<noteq> cap \<or> \<not> deletes_entry (live e) (decoded b)"
  proof (cases "dm_type (decoded b) = SystemEvent")
    case True
    then show ?thesis by (simp add: deletes_entry_def)
  next
    case False
    have "card (dom (live e)) \<le> length (ig_live g)"
      unfolding l dom_live_map by (metis card_image_le card_length finite_set le_trans)
    then show ?thesis using False assms(3) engine_invD(6) [OF inv] by simp
  qed
  obtain e' bk er where e': "apply_msg (decoded b) e = Some (e', bk, er)" "steps_to e Applied (live_map (ig_live g')) e'"
    using apply_msg_ok [OF inv, of "decoded b"] app size
    by (auto simp: outcome_ok_def c split: option.splits)
  have step: "in_step lv cap e' g'" using e'(2) c by (simp add: in_step_def steps_to_def)
  moreover have "be_status e' = Applied" using e'(2) by (simp add: steps_to_def)
  ultimately show ?thesis using e'(1) in_step_uncrossed [OF step ok] by auto
qed

subsection \<open>Runs\<close>

definition streams :: "itch_generator \<Rightarrow> book_engine \<Rightarrow> bytes list \<Rightarrow> itch_generator \<Rightarrow> book_engine \<Rightarrow> bool" where
  "streams g e bs g' e' \<longleftrightarrow>
     ig_out g' = ig_out g @ framed bs \<and> list_all frameable bs \<and>
     list_all (\<lambda>b. dm_type (decoded b) \<noteq> Unknown) bs \<and>
     clean_run (map decoded bs) e \<and> run_engine (map decoded bs) e = Some e' \<and>
     gs_total (ig_stats g') = gs_total (ig_stats g) + of_nat (length bs)"

lemma clean_run_append:
  "clean_run (ms @ ms') e \<longleftrightarrow> clean_run ms e \<and> (\<exists>e'. run_engine ms e = Some e' \<and> clean_run ms' e')"
  by (induction ms arbitrary: e) (auto split: option.splits Option.bind_splits)

lemma run_engine_append: "run_engine (ms @ ms') e = Option.bind (run_engine ms e) (run_engine ms')"
  by (induction ms arbitrary: e) (auto split: Option.bind_splits)

lemma streams_refl: "streams g e [] g e"
  by (simp add: streams_def)

lemma streams_trans: "streams g e bs g1 e1 \<Longrightarrow> streams g1 e1 bs' g2 e2 \<Longrightarrow> streams g e (bs @ bs') g2 e2"
  by (simp add: streams_def clean_run_append run_engine_append framed_def add.assoc)

lemma streams_emitted:
  assumes "in_step lv cap e g" "emits lv cap g g' b"
    "length (ig_live g) < cap \<or> dm_type (decoded b) = SystemEvent"
  obtains e' where "streams g e [b] g' e'" "in_step lv cap e' g'"
  using apply_emitted [OF assms] assms(2) that by (auto simp: streams_def emits_def)

text \<open>A generator with a budget of \<open>n\<close> more messages.\<close>

definition budget :: "u32 \<Rightarrow> nat \<Rightarrow> nat \<Rightarrow> itch_generator \<Rightarrow> bool" where
  "budget lv cap n g \<longleftrightarrow> gen_env (ig_cfg g) (ig_mids g) \<and>
     live_ok (ig_cfg g) (ig_mids g) (ig_next_ref g) (ig_live g) \<and>
     room (ig_cfg g) cap (length (ig_live g) + n) \<and> ig_next_ref g \<noteq> 0 \<and>
     unat (ig_next_ref g) + n < 2 ^ 64 \<and> gc_max_price (ig_cfg g) < lv"

lemma room_mono: "room cfg cap n \<Longrightarrow> m \<le> n \<Longrightarrow> room cfg cap m"
  unfolding room_def using mult_le_mono1 [of m n "unat (gc_max_shares cfg)"] by linarith

lemma unat_next: "unat (x :: u64) + Suc n < 2 ^ 64 \<Longrightarrow> unat (x + 1) = Suc (unat x)"
  using unat_plus_no_wrap [of x 1] by simp

lemma budget_ready: "budget lv cap (Suc n) g \<Longrightarrow> gen_ready lv cap g"
  using room_mono [of "ig_cfg g" cap "length (ig_live g) + Suc n" "Suc (length (ig_live g))"]
    unat_next [of "ig_next_ref g" n]
  by (simp add: budget_def gen_ready_def word_less_nat_alt)

lemma budget_emits:
  assumes "budget lv cap (Suc n) g" "emits lv cap g g' b"
  shows "budget lv cap n g'"
proof -
  have u: "unat (ig_next_ref g + 1) = Suc (unat (ig_next_ref g))"
    using assms(1) unat_next [of "ig_next_ref g" n] by (simp add: budget_def)
  then have nz: "ig_next_ref g + 1 \<noteq> 0" by (auto simp: word_unat_eq_iff)
  have "length (ig_live g') + n \<le> length (ig_live g) + Suc n" using assms(2) by (simp add: emits_def)
  then have "room (ig_cfg g) cap (length (ig_live g') + n)"
    using assms(1) room_mono by (auto simp: budget_def)
  moreover have "ig_next_ref g' \<noteq> 0" "unat (ig_next_ref g') + n < 2 ^ 64"
    using assms u nz unfolding emits_def budget_def by auto
  ultimately show ?thesis using assms unfolding emits_def budget_def by auto
qed

lemma gen_steps_ok:
  "budget lv cap n g \<Longrightarrow> in_step lv cap e g \<Longrightarrow>
     \<exists>g' bs e'. gen_steps n g = Some g' \<and> length bs = n \<and> streams g e bs g' e' \<and> in_step lv cap e' g' \<and>
       budget lv cap 0 g'"
proof (induction n arbitrary: g e)
  case 0
  then show ?case using streams_refl by auto
next
  case (Suc n)
  obtain g1 b where g1: "gen_step g = Some g1" "emits lv cap g g1 b"
    using gen_step_ok [OF budget_ready [OF Suc.prems(1)]] by blast
  have "length (ig_live g) < cap" using Suc.prems(1) by (simp add: budget_def room_def)
  then obtain e1 where e1: "streams g e [b] g1 e1" "in_step lv cap e1 g1"
    using streams_emitted [OF Suc.prems(2) g1(2)] by blast
  obtain g' bs e' where "gen_steps n g1 = Some g'" "length bs = n" "streams g1 e1 bs g' e'" "in_step lv cap e' g'"
    "budget lv cap 0 g'"
    using Suc.IH [OF budget_emits [OF Suc.prems(1) g1(2)] e1(2)] by blast
  then show ?case using g1(1) streams_trans [OF e1(1)] by (intro exI [of _ g'] exI [of _ "b # bs"]) auto
qed

lemma emit_system_in_step:
  assumes "in_step lv cap e g" "live_ok (ig_cfg g) (ig_mids g) (ig_next_ref g) (ig_live g)"
  obtains g' b e' where "emit_system code g = Some g'" "streams g e [b] g' e'" "in_step lv cap e' g'"
    "ig_live g' = ig_live g" "ig_next_ref g' = ig_next_ref g" "ig_cfg g' = ig_cfg g" "ig_mids g' = ig_mids g"
proof -
  obtain g' b where g': "emit_system code g = Some g'" "emits lv cap g g' b" "dm_type (decoded b) = SystemEvent"
    "ig_live g' = ig_live g" "ig_next_ref g' = ig_next_ref g"
    using emit_system_ok [OF assms(2)] by blast
  obtain e' where "streams g e [b] g' e'" "in_step lv cap e' g'"
    using streams_emitted [OF assms(1) g'(2)] g'(3) by blast
  then show ?thesis using that [of g' b e'] g' by (simp add: emits_def)
qed

subsection \<open>The generated stream\<close>

lemma generated_stream:
  assumes "gen_config_ok cfg" "n < 2 ^ 31" "n * unat (gc_max_shares cfg) < 2 ^ 32"
    and engine: "engine_init lv cap = Some e0" "gc_max_price cfg < lv" "n \<le> unat cap"
  shows "\<exists>g0 bodies g e.
    new_generator cfg = Some g0 \<and> generate n g0 = Some (framed bodies, g) \<and>
    list_all frameable bodies \<and> list_all (\<lambda>b. dm_type (decoded b) \<noteq> Unknown) bodies \<and>
    length bodies = n + 4 \<and> gs_total (ig_stats g) = of_nat (n + 4) \<and>
    clean_run (map decoded bodies) e0 \<and> run_engine (map decoded bodies) e0 = Some e \<and>
    table_map (be_refs e) = live_map (ig_live g)"
proof -
  obtain g00 where new: "new_generator cfg = Some g00" "gen_env cfg (ig_mids g00)" "ig_cfg g00 = cfg"
    "ig_live g00 = []" "ig_next_ref g00 = 1"
    using new_generator_ok [OF assms(1)] by blast
  define g0 where "g0 = g00\<lparr>ig_out := [], ig_stats := no_gen_stats\<rparr>"
  have g0: "ig_out g0 = []" "gs_total (ig_stats g0) = 0" by (simp_all add: g0_def no_gen_stats_def)
  have empty: "live_ok cfg mids nxt []" for mids nxt by (simp add: live_ok_def refs_distinct_def)
  note init = engine_init_inv [OF engine(1)]
  let ?cap = "rt_cap (be_refs e0)"
  have s0: "in_step lv ?cap e0 g0" using init new(4) by (simp add: in_step_def g0_def live_map_def)
  have ok0: "live_ok (ig_cfg g0) (ig_mids g0) (ig_next_ref g0) (ig_live g0)" by (simp add: g0_def new(3,4) empty)
  obtain g1 b1 e1 where 1: "emit_system EVT_START_MESSAGES g0 = Some g1" "streams g0 e0 [b1] g1 e1"
    "in_step lv ?cap e1 g1" "ig_live g1 = ig_live g0" "ig_next_ref g1 = ig_next_ref g0" "ig_cfg g1 = ig_cfg g0"
    "ig_mids g1 = ig_mids g0"
    using emit_system_in_step [OF s0 ok0] by blast
  have ok1: "live_ok (ig_cfg g1) (ig_mids g1) (ig_next_ref g1) (ig_live g1)" using ok0 1(4-7) by simp
  obtain g2 b2 e2 where 2: "emit_system EVT_START_HOURS g1 = Some g2" "streams g1 e1 [b2] g2 e2"
    "in_step lv ?cap e2 g2" "ig_live g2 = ig_live g1" "ig_next_ref g2 = ig_next_ref g1" "ig_cfg g2 = ig_cfg g1"
    "ig_mids g2 = ig_mids g1"
    using emit_system_in_step [OF 1(3) ok1] by blast
  have "budget lv ?cap n g2"
    using assms(2,3) engine(2,3) init(5) new 1 2 empty by (simp add: budget_def room_def g0_def)
  then obtain g3 bs e3 where 3: "gen_steps n g2 = Some g3" "length bs = n" "streams g2 e2 bs g3 e3"
    "in_step lv ?cap e3 g3" "budget lv ?cap 0 g3"
    using gen_steps_ok 2(3) by blast
  then have ok3: "live_ok (ig_cfg g3) (ig_mids g3) (ig_next_ref g3) (ig_live g3)" by (simp add: budget_def)
  obtain g4 b4 e4 where 4: "emit_system EVT_END_HOURS g3 = Some g4" "streams g3 e3 [b4] g4 e4"
    "in_step lv ?cap e4 g4" "ig_live g4 = ig_live g3" "ig_next_ref g4 = ig_next_ref g3" "ig_cfg g4 = ig_cfg g3"
    "ig_mids g4 = ig_mids g3"
    using emit_system_in_step [OF 3(4) ok3] by blast
  obtain g5 b5 e5 where 5: "emit_system EVT_END_MESSAGES g4 = Some g5" "streams g4 e4 [b5] g5 e5"
    "in_step lv ?cap e5 g5"
    using emit_system_in_step [OF 4(3)] ok3 4(4-7) by (metis (no_types))
  define all where "all = [b1] @ [b2] @ bs @ [b4] @ [b5]"
  have st: "streams g0 e0 all g5 e5"
    unfolding all_def by (intro streams_trans [OF 1(2)] streams_trans [OF 2(2)] streams_trans [OF 3(3)]
      streams_trans [OF 4(2)] 5(2))
  have "generate n g00 = Some (framed all, g5)"
    using 1(1) 2(1) 3(1) 4(1) 5(1) st g0(1) by (simp add: generate_def streams_def flip: g0_def)
  moreover have "length all = n + 4" by (simp add: all_def 3(2))
  moreover have "gs_total (ig_stats g5) = of_nat (length all)" using st g0(2) by (simp add: streams_def)
  moreover have "table_map (be_refs e5) = live_map (ig_live g5)" using 5(3) by (simp add: in_step_def)
  ultimately show ?thesis
    using new(1) st unfolding streams_def
    by (intro exI [of _ g00] exI [of _ all] exI [of _ g5] exI [of _ e5]) simp
qed

text \<open>
  Property C26. What the generator promises. For every seed and every configuration whose price
  bands lie inside the configured prices, a new generator returns (no division by zero, no
  overflow, no access out of bounds, at any draw); its stream parses into exactly \<open>n + 4\<close>
  messages, all of a known type; and a new engine with enough levels and slots applies every
  one of them, shows no crossed book after any of them, and ends with exactly the orders that
  the generator still lists as live.
\<close>

theorem generated_stream_accepted:
  assumes "gen_config_ok cfg" "n < 2 ^ 31" "n * unat (gc_max_shares cfg) < 2 ^ 32"
    and engine: "engine_init lv cap = Some e0" "gc_max_price cfg < lv" "n \<le> unat cap"
  shows "\<exists>g0 stream g st ms e.
    new_generator cfg = Some g0 \<and> generate n g0 = Some (stream, g) \<and>
    parse_stream stream = Some (st, ms) \<and> length ms = n + 4 \<and> ps_unknown st = 0 \<and>
    gs_total (ig_stats g) = of_nat (n + 4) \<and>
    clean_run ms e0 \<and> run_engine ms e0 = Some e \<and> table_map (be_refs e) = live_map (ig_live g)"
proof -
  obtain g0 bodies g e where gen: "new_generator cfg = Some g0" "generate n g0 = Some (framed bodies, g)"
    "list_all frameable bodies" "list_all (\<lambda>b. dm_type (decoded b) \<noteq> Unknown) bodies" "length bodies = n + 4"
    "gs_total (ig_stats g) = of_nat (n + 4)" "clean_run (map decoded bodies) e0"
    "run_engine (map decoded bodies) e0 = Some e" "table_map (be_refs e) = live_map (ig_live g)"
    using generated_stream [OF assms] by blast
  have "frames (framed bodies) = bodies" using frames_framed [OF gen(3), of "[]"] by simp
  moreover have "filter (\<lambda>b. dm_type (decoded b) = Unknown) bodies = []"
    using gen(4) by (simp add: list_all_iff filter_empty_conv)
  ultimately show ?thesis using gen by (simp add: parse_stream_frames)
qed

text \<open>One symbol at mid 5 with a band of one tick, and an engine of ten levels and one slot.\<close>

definition small_gen_config :: gen_config where
  "small_gen_config = \<lparr>gc_seed = 7, gc_num_symbols = 1, gc_base_price = 5, gc_sym_spacing = 0, gc_tick = 1,
     gc_band_ticks = 1, gc_max_price = 9, gc_min_price = 1, gc_max_shares = 100, gc_aggress_prob = 0,
     gc_ts_scale = 1\<rparr>"

theorem generated_stream_accepted_witness:
  "\<exists>g0 stream g ms e. new_generator small_gen_config = Some g0 \<and> generate 1 g0 = Some (stream, g) \<and>
     length ms = 5 \<and> clean_run ms one_slot_engine \<and> run_engine ms one_slot_engine = Some e"
proof -
  have "gen_config_ok small_gen_config"
    by (simp add: gen_config_ok_def small_gen_config_def mid_price_def mid_ok_def Let_def)
  from generated_stream_accepted [OF this, of 1, OF _ _ one_slot_init] show ?thesis
    by (auto simp: small_gen_config_def)
qed

text \<open>
  The band must lie inside the prices: with the default configuration and twelve symbols the
  last symbol's band is wholly above the maximum price, and bids and asks both rest there.
\<close>

lemma wide_config_locks:
  assumes "0 < k" "k \<le> 100" "0 < k'" "k' \<le> 100"
  shows "mid_price default_gen_config 11 = Some 1050000 \<and>
    clamp_price default_gen_config (1050000 - int k * 100) = 999990 \<and>
    clamp_price default_gen_config (1050000 + int k' * 100) = 999990"
proof -
  have "999990 < 1050000 - int k * 100" "999990 < 1050000 + int k' * 100" using assms by linarith+
  then show ?thesis by (simp add: mid_price_def clamp_price_def default_gen_config_def Let_def)
qed

end
