(* ===== verification/GoldenModel.thy ===== *)
theory GoldenModel
  imports "HOL-Library.RBT" ItchParser
begin

text \<open>
  The golden model of the hardware tests, \<open>src/sim/reference_model.hpp\<close> and
  \<open>reference_model.cpp\<close>: a decoder of its own that reads the fields at fixed offsets, and one
  book for all symbols with running totals and trade statistics. A \<open>std::map\<close> is a red-black
  tree, a \<open>std::unordered_map\<close> a map. A read \<open>b[k]\<close> outside the body is undefined behaviour,
  here \<open>None\<close>. Its namespace is \<open>obsim\<close>; names that clash with those of the software book have
  the prefix \<open>golden\<close>.
\<close>

record ref_msg =
  rm_type :: u8
  rm_is_bid :: bool
  rm_printable :: bool
  rm_locate :: u16
  rm_price :: u32
  rm_shares :: u32
  rm_order_ref :: u64
  rm_new_order_ref :: u64

definition no_ref_msg :: ref_msg where
  "no_ref_msg = \<lparr>rm_type = 0, rm_is_bid = False, rm_printable = False, rm_locate = 0, rm_price = 0,
     rm_shares = 0, rm_order_ref = 0, rm_new_order_ref = 0\<rparr>"

subsection \<open>The decoder\<close>

definition golden_be16 :: "bytes \<Rightarrow> nat \<Rightarrow> u16 option" where
  "golden_be16 b k = do {
     b0 \<leftarrow> byte_at b k; b1 \<leftarrow> byte_at b (k + 1);
     Some (push_bit 8 (ucast b0) OR ucast b1)
   }"

definition golden_be32 :: "bytes \<Rightarrow> nat \<Rightarrow> u32 option" where
  "golden_be32 b k = do {
     b0 \<leftarrow> byte_at b k; b1 \<leftarrow> byte_at b (k + 1); b2 \<leftarrow> byte_at b (k + 2); b3 \<leftarrow> byte_at b (k + 3);
     Some (push_bit 24 (ucast b0) OR push_bit 16 (ucast b1) OR push_bit 8 (ucast b2) OR ucast b3)
   }"

fun golden_be64_loop :: "bytes \<Rightarrow> nat \<Rightarrow> nat \<Rightarrow> u64 \<Rightarrow> u64 option" where
  "golden_be64_loop b k 0 v = Some v"
| "golden_be64_loop b k (Suc n) v = do {
     x \<leftarrow> byte_at b k;
     golden_be64_loop b (k + 1) n (push_bit 8 v OR ucast x)
   }"

definition golden_be64 :: "bytes \<Rightarrow> nat \<Rightarrow> u64 option" where
  "golden_be64 b k = golden_be64_loop b k 8 0"

definition golden_decode :: "bytes \<Rightarrow> ref_msg option" where
  "golden_decode b =
     (if b = [] then Some no_ref_msg
      else do {
        t \<leftarrow> byte_at b 0;
        loc \<leftarrow> golden_be16 b 1;
        let m = no_ref_msg\<lparr>rm_type := t, rm_locate := loc\<rparr>;
        if t = 0x41 \<or> t = 0x46 \<or> t = 0x50 then do {
          r \<leftarrow> golden_be64 b 13; s \<leftarrow> byte_at b 21; q \<leftarrow> golden_be32 b 22; p \<leftarrow> golden_be32 b 34;
          Some (m\<lparr>rm_order_ref := r, rm_is_bid := (s = 0x42), rm_shares := q, rm_price := p\<rparr>)
        } else if t = 0x45 \<or> t = 0x58 then do {
          r \<leftarrow> golden_be64 b 13; q \<leftarrow> golden_be32 b 21;
          Some (m\<lparr>rm_order_ref := r, rm_shares := q\<rparr>)
        } else if t = 0x43 then do {
          r \<leftarrow> golden_be64 b 13; q \<leftarrow> golden_be32 b 21; y \<leftarrow> byte_at b 33; p \<leftarrow> golden_be32 b 34;
          Some (m\<lparr>rm_order_ref := r, rm_shares := q, rm_printable := (y = 0x59), rm_price := p\<rparr>)
        } else if t = 0x44 then do {
          r \<leftarrow> golden_be64 b 13;
          Some (m\<lparr>rm_order_ref := r\<rparr>)
        } else if t = 0x55 then do {
          r \<leftarrow> golden_be64 b 13; n \<leftarrow> golden_be64 b 21; q \<leftarrow> golden_be32 b 29; p \<leftarrow> golden_be32 b 33;
          Some (m\<lparr>rm_order_ref := r, rm_new_order_ref := n, rm_shares := q, rm_price := p\<rparr>)
        } else Some m
      })"

subsection \<open>The book\<close>

record golden_level =
  gl_shares :: u64
  gl_count :: u32

type_synonym golden_levels = "(u32, golden_level) rbt"

record golden_order =
  go_is_bid :: bool
  go_locate :: u16
  go_price :: u32
  go_shares :: u64

record golden_book =
  gb_bids :: golden_levels
  gb_asks :: golden_levels
  gb_orders :: "u64 \<rightharpoonup> golden_order"
  gb_tot_bid :: u64
  gb_tot_ask :: u64
  gb_vwap_num :: u64
  gb_vwap_den :: u64
  gb_trade_count :: u64

definition empty_golden :: golden_book where
  "empty_golden = \<lparr>gb_bids = RBT.empty, gb_asks = RBT.empty, gb_orders = Map.empty, gb_tot_bid = 0,
     gb_tot_ask = 0, gb_vwap_num = 0, gb_vwap_den = 0, gb_trade_count = 0\<rparr>"

definition golden_side :: "bool \<Rightarrow> golden_book \<Rightarrow> golden_levels" where
  "golden_side is_bid gb = (if is_bid then gb_bids gb else gb_asks gb)"

definition set_side :: "bool \<Rightarrow> golden_levels \<Rightarrow> golden_book \<Rightarrow> golden_book" where
  "set_side is_bid m gb = (if is_bid then gb\<lparr>gb_bids := m\<rparr> else gb\<lparr>gb_asks := m\<rparr>)"

definition add_total :: "bool \<Rightarrow> u64 \<Rightarrow> golden_book \<Rightarrow> golden_book" where
  "add_total is_bid q gb =
     (if is_bid then gb\<lparr>gb_tot_bid := gb_tot_bid gb + q\<rparr> else gb\<lparr>gb_tot_ask := gb_tot_ask gb + q\<rparr>)"

definition sub_total :: "bool \<Rightarrow> u64 \<Rightarrow> golden_book \<Rightarrow> golden_book" where
  "sub_total is_bid q gb =
     (if is_bid then gb\<lparr>gb_tot_bid := gb_tot_bid gb - q\<rparr> else gb\<lparr>gb_tot_ask := gb_tot_ask gb - q\<rparr>)"

definition golden_add :: "u64 \<Rightarrow> bool \<Rightarrow> u16 \<Rightarrow> u32 \<Rightarrow> u64 \<Rightarrow> golden_book \<Rightarrow> golden_book" where
  "golden_add ref is_bid locate price shares gb =
     (let gb1 = gb\<lparr>gb_orders := (gb_orders gb)(ref \<mapsto>
            \<lparr>go_is_bid = is_bid, go_locate = locate, go_price = price, go_shares = shares\<rparr>)\<rparr>;
          m = golden_side is_bid gb1;
          lv = (case RBT.lookup m price of None \<Rightarrow> \<lparr>gl_shares = 0, gl_count = 0\<rparr> | Some lv \<Rightarrow> lv);
          lv' = \<lparr>gl_shares = gl_shares lv + shares, gl_count = gl_count lv + 1\<rparr>
      in add_total is_bid shares (set_side is_bid (RBT.insert price lv' m) gb1))"

definition golden_reduce :: "u64 \<Rightarrow> u64 \<Rightarrow> golden_book \<Rightarrow> golden_book" where
  "golden_reduce ref amt0 gb =
     (case gb_orders gb ref of
        None \<Rightarrow> gb
      | Some ord \<Rightarrow>
          (let amt = (if amt0 > go_shares ord then go_shares ord else amt0);
               m = golden_side (go_is_bid ord) gb
           in case RBT.lookup m (go_price ord) of
                None \<Rightarrow> gb
              | Some lv \<Rightarrow>
                  (let lv1 = lv\<lparr>gl_shares := gl_shares lv - amt\<rparr>;
                       gb1 = sub_total (go_is_bid ord) amt gb;
                       ord1 = ord\<lparr>go_shares := go_shares ord - amt\<rparr>
                   in if go_shares ord1 = 0
                      then (let lv2 = (if gl_count lv1 > 0 then lv1\<lparr>gl_count := gl_count lv1 - 1\<rparr> else lv1);
                                m2 = (if gl_shares lv2 = 0 then RBT.delete (go_price ord) m
                                      else RBT.insert (go_price ord) lv2 m)
                            in (set_side (go_is_bid ord) m2 gb1)\<lparr>gb_orders := (gb_orders gb)(ref := None)\<rparr>)
                      else (set_side (go_is_bid ord) (RBT.insert (go_price ord) lv1 m) gb1)
                             \<lparr>gb_orders := (gb_orders gb)(ref \<mapsto> ord1)\<rparr>)))"

definition golden_remove :: "u64 \<Rightarrow> golden_book \<Rightarrow> golden_book" where
  "golden_remove ref gb =
     (case gb_orders gb ref of
        None \<Rightarrow> gb
      | Some ord \<Rightarrow>
          (let m = golden_side (go_is_bid ord) gb;
               gb1 = (case RBT.lookup m (go_price ord) of
                  None \<Rightarrow> gb
                | Some lv \<Rightarrow>
                    (let lv1 = lv\<lparr>gl_shares := gl_shares lv - go_shares ord\<rparr>;
                         lv2 = (if gl_count lv1 > 0 then lv1\<lparr>gl_count := gl_count lv1 - 1\<rparr> else lv1);
                         gb2 = sub_total (go_is_bid ord) (go_shares ord) gb
                     in set_side (go_is_bid ord)
                          (if gl_shares lv2 = 0 then RBT.delete (go_price ord) m
                           else RBT.insert (go_price ord) lv2 m) gb2))
           in gb1\<lparr>gb_orders := (gb_orders gb1)(ref := None)\<rparr>))"

definition golden_trade :: "u32 \<Rightarrow> u64 \<Rightarrow> golden_book \<Rightarrow> golden_book" where
  "golden_trade price amt gb = gb\<lparr>gb_vwap_num := gb_vwap_num gb + ucast price * amt,
     gb_vwap_den := gb_vwap_den gb + amt, gb_trade_count := gb_trade_count gb + 1\<rparr>"

text \<open>The amount of an execution or cancellation, limited to what the order has.\<close>

definition golden_amount :: "ref_msg \<Rightarrow> golden_order \<Rightarrow> u64" where
  "golden_amount m ord =
     (if ucast (rm_shares m) > go_shares ord then go_shares ord else ucast (rm_shares m))"

definition golden_apply :: "ref_msg \<Rightarrow> golden_book \<Rightarrow> golden_book" where
  "golden_apply m gb =
     (if rm_type m = 0x41 \<or> rm_type m = 0x46
      then golden_add (rm_order_ref m) (rm_is_bid m) (rm_locate m) (rm_price m) (ucast (rm_shares m)) gb
      else if rm_type m = 0x45
      then (case gb_orders gb (rm_order_ref m) of None \<Rightarrow> gb
            | Some ord \<Rightarrow>
                golden_trade (go_price ord) (golden_amount m ord)
                  (golden_reduce (rm_order_ref m) (golden_amount m ord) gb))
      else if rm_type m = 0x43
      then (case gb_orders gb (rm_order_ref m) of None \<Rightarrow> gb
            | Some ord \<Rightarrow>
                (let gb1 = golden_reduce (rm_order_ref m) (golden_amount m ord) gb
                 in if rm_printable m then golden_trade (rm_price m) (golden_amount m ord) gb1 else gb1))
      else if rm_type m = 0x58
      then (case gb_orders gb (rm_order_ref m) of None \<Rightarrow> gb
            | Some ord \<Rightarrow> golden_reduce (rm_order_ref m) (golden_amount m ord) gb)
      else if rm_type m = 0x44 then golden_remove (rm_order_ref m) gb
      else if rm_type m = 0x55
      then (case gb_orders gb (rm_order_ref m) of None \<Rightarrow> gb
            | Some ord \<Rightarrow>
                golden_add (rm_new_order_ref m) (go_is_bid ord) (go_locate ord) (rm_price m) (ucast (rm_shares m))
                  (golden_remove (rm_order_ref m) gb))
      else if rm_type m = 0x50 then golden_trade (rm_price m) (ucast (rm_shares m)) gb
      else gb)"

subsection \<open>Queries\<close>

definition golden_best_bid_price :: "golden_book \<Rightarrow> u32" where
  "golden_best_bid_price gb = (case RBT.keys (gb_bids gb) of [] \<Rightarrow> 0 | ks \<Rightarrow> List.last ks)"

definition golden_best_ask_price :: "golden_book \<Rightarrow> u32" where
  "golden_best_ask_price gb = (case RBT.keys (gb_asks gb) of [] \<Rightarrow> 0 | k # ks \<Rightarrow> k)"

definition level_shares :: "bool \<Rightarrow> u32 \<Rightarrow> golden_book \<Rightarrow> u64" where
  "level_shares is_bid price gb =
     (case RBT.lookup (golden_side is_bid gb) price of None \<Rightarrow> 0 | Some lv \<Rightarrow> gl_shares lv)"

definition level_count :: "bool \<Rightarrow> u32 \<Rightarrow> golden_book \<Rightarrow> u32" where
  "level_count is_bid price gb =
     (case RBT.lookup (golden_side is_bid gb) price of None \<Rightarrow> 0 | Some lv \<Rightarrow> gl_count lv)"

definition golden_best_bid_shares :: "golden_book \<Rightarrow> u64" where
  "golden_best_bid_shares gb =
     (case RBT.keys (gb_bids gb) of [] \<Rightarrow> 0 | ks \<Rightarrow> gl_shares (the (RBT.lookup (gb_bids gb) (List.last ks))))"

definition golden_best_ask_shares :: "golden_book \<Rightarrow> u64" where
  "golden_best_ask_shares gb =
     (case RBT.keys (gb_asks gb) of [] \<Rightarrow> 0 | k # ks \<Rightarrow> gl_shares (the (RBT.lookup (gb_asks gb) k)))"

definition golden_spread_valid :: "golden_book \<Rightarrow> bool" where
  "golden_spread_valid gb \<longleftrightarrow> \<not> RBT.is_empty (gb_bids gb) \<and> \<not> RBT.is_empty (gb_asks gb)"

definition golden_spread :: "golden_book \<Rightarrow> u32" where
  "golden_spread gb =
     (if golden_spread_valid gb then golden_best_ask_price gb - golden_best_bid_price gb else 0)"

definition bid_prices :: "golden_book \<Rightarrow> u32 list" where
  "bid_prices gb = RBT.keys (gb_bids gb)"

definition ask_prices :: "golden_book \<Rightarrow> u32 list" where
  "ask_prices gb = RBT.keys (gb_asks gb)"

end
