(* ===== verification/StatsEngine.thy ===== *)
theory StatsEngine
  imports BookEngine
begin

text \<open>
  The running statistics of \<open>src/sw/stats/stats_engine.hpp\<close> and \<open>stats_engine.cpp\<close>: the
  volume-weighted average price over the trades the engine resolves, and the rolling window of
  the event times of the last second. The queries in floating point (\<open>avg_msg_rate\<close>,
  \<open>imbalance\<close>, \<open>vwap_dollars\<close>) are not modelled.
\<close>

definition ONE_SEC_NS :: u64 where
  "ONE_SEC_NS = 1000000000"

record stats_engine =
  st_vwap_num :: u64
  st_vwap_den :: u64
  st_trade_count :: u64
  st_total_messages :: u64
  st_first_ts :: u64
  st_last_ts :: u64
  st_window :: "u64 list"

definition no_stats :: stats_engine where
  "no_stats = \<lparr>st_vwap_num = 0, st_vwap_den = 0, st_trade_count = 0, st_total_messages = 0,
     st_first_ts = 0, st_last_ts = 0, st_window = []\<rparr>"

text \<open>The pops from the front of the window.\<close>

fun drop_old :: "u64 \<Rightarrow> u64 list \<Rightarrow> u64 list" where
  "drop_old ts [] = []"
| "drop_old ts (t # w) = (if t + ONE_SEC_NS \<le> ts then drop_old ts w else t # w)"

definition stats_time :: "u64 \<Rightarrow> stats_engine \<Rightarrow> stats_engine" where
  "stats_time ts st =
     (if ts \<noteq> 0
      then (let st1 = (if st_first_ts st = 0 then st\<lparr>st_first_ts := ts\<rparr> else st)
            in st1\<lparr>st_last_ts := ts, st_window := drop_old ts (st_window st1 @ [ts])\<rparr>)
      else st)"

definition stats_trade :: "exec_result \<Rightarrow> stats_engine \<Rightarrow> stats_engine" where
  "stats_trade ex st =
     (if er_contributes ex \<and> er_shares ex > 0
      then st\<lparr>st_vwap_num := st_vwap_num st + ucast (er_price ex) * ucast (er_shares ex),
             st_vwap_den := st_vwap_den st + ucast (er_shares ex),
             st_trade_count := st_trade_count st + 1\<rparr>
      else st)"

definition on_message :: "decoded_message \<Rightarrow> exec_result \<Rightarrow> stats_engine \<Rightarrow> stats_engine" where
  "on_message m ex st =
     stats_trade ex (stats_time (dm_timestamp m) (st\<lparr>st_total_messages := st_total_messages st + 1\<rparr>))"

definition vwap_units :: "stats_engine \<Rightarrow> u32" where
  "vwap_units st = (if st_vwap_den st \<noteq> 0 then ucast (st_vwap_num st div st_vwap_den st) else 0)"

definition rolling_msg_rate :: "stats_engine \<Rightarrow> nat" where
  "rolling_msg_rate st = length (st_window st)"

subsection \<open>The statistics of a run\<close>

text \<open>Feeding a sequence of messages with the trades the engine resolved.\<close>

definition stats_run :: "(decoded_message \<times> exec_result) list \<Rightarrow> stats_engine" where
  "stats_run es = fold (\<lambda>(m, ex). on_message m ex) es no_stats"

definition trades_of :: "(decoded_message \<times> exec_result) list \<Rightarrow> exec_result list" where
  "trades_of es = filter (\<lambda>ex. er_contributes ex \<and> er_shares ex \<noteq> 0) (map snd es)"

definition stamps_of :: "(decoded_message \<times> exec_result) list \<Rightarrow> u64 list" where
  "stamps_of es = filter (\<lambda>t. t \<noteq> 0) (map (dm_timestamp \<circ> fst) es)"

definition turnover :: "exec_result list \<Rightarrow> nat" where
  "turnover ts = sum_list (map (\<lambda>ex. unat (er_price ex) * unat (er_shares ex)) ts)"

definition volume :: "exec_result list \<Rightarrow> nat" where
  "volume ts = sum_list (map (\<lambda>ex. unat (er_shares ex)) ts)"

lemma stats_run_snoc: "stats_run (es @ [(m, ex)]) = on_message m ex (stats_run es)"
  by (simp add: stats_run_def)

lemma of_nat_unat_u32: "(of_nat (unat (x :: u32)) :: u64) = ucast x"
  by (rule word_unat_eq_iff [THEN iffD2]) (simp add: unat_ucast_up unsigned_of_nat take_bit_nat_eq_self_iff
      less_trans [OF unat_u32_less])

lemma stats_run_trades:
  "st_vwap_num (stats_run es) = of_nat (turnover (trades_of es)) \<and>
   st_vwap_den (stats_run es) = of_nat (volume (trades_of es)) \<and>
   st_trade_count (stats_run es) = of_nat (length (trades_of es)) \<and>
   st_total_messages (stats_run es) = of_nat (length es)"
proof (induction es rule: rev_induct)
  case Nil
  show ?case by (simp add: stats_run_def no_stats_def turnover_def volume_def trades_of_def)
next
  case (snoc e es)
  obtain m ex where e: "e = (m, ex)" by (cases e)
  have "stats_time ts st = st\<lparr>st_first_ts := st_first_ts (stats_time ts st),
      st_last_ts := st_last_ts (stats_time ts st), st_window := st_window (stats_time ts st)\<rparr>" for ts st
    by (simp add: stats_time_def Let_def)
  then have time: "st_vwap_num (stats_time ts st) = st_vwap_num st" "st_vwap_den (stats_time ts st) = st_vwap_den st"
    "st_trade_count (stats_time ts st) = st_trade_count st"
    "st_total_messages (stats_time ts st) = st_total_messages st" for ts st
    by (simp_all add: stats_time_def Let_def)
  show ?case
    using snoc.IH by (simp add: e stats_run_snoc on_message_def stats_trade_def time trades_of_def
        turnover_def volume_def word_neq_0_conv of_nat_unat_u32)
qed

text \<open>With event times that do not decrease, the window is the times of the last second.\<close>

definition in_order :: "u64 list \<Rightarrow> bool" where
  "in_order ts \<longleftrightarrow> sorted ts \<and> (\<forall>t\<in>set ts. unat t + unat ONE_SEC_NS < 2 ^ 64)"

lemma drop_old_filter:
  "sorted w \<Longrightarrow> \<forall>t\<in>set w. unat t + unat ONE_SEC_NS < 2 ^ 64 \<Longrightarrow>
     drop_old ts w = filter (\<lambda>t. ts < t + ONE_SEC_NS) w"
proof (induction w)
  case (Cons t w)
  have later: "t + ONE_SEC_NS \<le> t' + ONE_SEC_NS" if "t' \<in> set w" for t'
  proof -
    have "unat t \<le> unat t'" using Cons.prems(1) that by (simp add: word_le_nat_alt)
    then show ?thesis using Cons.prems(2) that by (simp add: word_le_nat_alt unat_plus_no_wrap)
  qed
  show ?case
  proof (cases "t + ONE_SEC_NS \<le> ts")
    case True
    then show ?thesis using Cons by (simp add: not_less)
  next
    case False
    then have "ts < t' + ONE_SEC_NS" if "t' \<in> set w" for t'
      using later [OF that] by (meson le_less_trans not_le order_less_le_trans)
    then have "filter (\<lambda>t. ts < t + ONE_SEC_NS) w = w" by (simp add: filter_id_conv)
    moreover have d: "drop_old ts (t # w) = t # w" by (simp only: drop_old.simps False if_False)
    ultimately show ?thesis unfolding d using False by (simp add: not_le)
  qed
qed simp

lemma stats_run_window:
  "in_order (stamps_of es) \<Longrightarrow>
     st_window (stats_run es) = filter (\<lambda>t. List.last (0 # stamps_of es) < t + ONE_SEC_NS) (stamps_of es)"
proof (induction es rule: rev_induct)
  case Nil
  show ?case by (simp add: stats_run_def no_stats_def stamps_of_def)
next
  case (snoc e es)
  obtain m ex where e: "e = (m, ex)" by (cases e)
  let ?ts = "dm_timestamp m" and ?old = "stamps_of es"
  have order: "in_order ?old" using snoc.prems by (auto simp: in_order_def stamps_of_def sorted_append)
  have win: "st_window (stats_trade ex st) = st_window st" for st by (simp add: stats_trade_def)
  show ?case
  proof (cases "?ts = 0")
    case True
    then show ?thesis using snoc.IH [OF order]
      by (simp add: e stats_run_snoc on_message_def win stats_time_def stamps_of_def)
  next
    case False
    then have st: "stamps_of (es @ [e]) = ?old @ [?ts]" by (simp add: stamps_of_def e)
    let ?w = "filter (\<lambda>t. List.last (0 # ?old) < t + ONE_SEC_NS) ?old"
    have srt: "sorted (?old @ [?ts])" "\<forall>t\<in>set (?old @ [?ts]). unat t + unat ONE_SEC_NS < 2 ^ 64"
      using snoc.prems st by (simp_all add: in_order_def)
    then have "sorted (?w @ [?ts])" by (auto simp: sorted_append sorted_wrt_filter)
    then have "drop_old ?ts (?w @ [?ts]) = filter (\<lambda>t. ?ts < t + ONE_SEC_NS) (?w @ [?ts])"
      using srt(2) by (intro drop_old_filter) auto
    also have "\<dots> = filter (\<lambda>t. ?ts < t + ONE_SEC_NS) (?old @ [?ts])"
    proof -
      have "List.last (0 # ?old) \<le> ?ts" using srt(1) by (auto simp: sorted_append)
      then have "(List.last (0 # ?old) < t + ONE_SEC_NS \<and> ?ts < t + ONE_SEC_NS) = (?ts < t + ONE_SEC_NS)" for t
        using le_less_trans by blast
      then show ?thesis by (simp add: filter_filter)
    qed
    finally show ?thesis
      using snoc.IH [OF order] False st by (simp add: e stats_run_snoc on_message_def win stats_time_def Let_def)
  qed
qed

subsection \<open>The average price\<close>

lemma turnover_bounds:
  "(\<And>ex. ex \<in> set ts \<Longrightarrow> unat (er_price ex) \<le> hi) \<Longrightarrow> turnover ts \<le> hi * volume ts"
  "(\<And>ex. ex \<in> set ts \<Longrightarrow> lo \<le> unat (er_price ex)) \<Longrightarrow> lo * volume ts \<le> turnover ts"
proof (induction ts)
  case (Cons ex ts)
  { case 1
    then have "unat (er_price ex) * unat (er_shares ex) \<le> hi * unat (er_shares ex)"
      by (intro mult_le_mono1) simp
    then show ?case using Cons.IH(1) 1 by (simp add: turnover_def volume_def distrib_left add_mono) }
  { case 2
    then have "lo * unat (er_shares ex) \<le> unat (er_price ex) * unat (er_shares ex)"
      by (intro mult_le_mono1) simp
    then show ?case using Cons.IH(2) 2 by (simp add: turnover_def volume_def distrib_left add_mono) }
qed (simp_all add: turnover_def volume_def)

lemma volume_pos: "ts \<noteq> [] \<Longrightarrow> \<forall>ex\<in>set ts. er_shares ex \<noteq> 0 \<Longrightarrow> 0 < volume ts"
  by (cases ts) (simp_all add: volume_def unat_gt_0)

lemma vwap_between:
  assumes ne: "trades_of es \<noteq> []" and fit: "turnover (trades_of es) < 2 ^ 64" "volume (trades_of es) < 2 ^ 64"
    and range: "\<And>ex. ex \<in> set (trades_of es) \<Longrightarrow> lo \<le> er_price ex \<and> er_price ex \<le> hi"
  shows "lo \<le> vwap_units (stats_run es) \<and> vwap_units (stats_run es) \<le> hi"
proof -
  let ?t = "turnover (trades_of es)" and ?v = "volume (trades_of es)"
  have pos: "0 < ?v" by (rule volume_pos [OF ne]) (simp add: trades_of_def)
  have "unat lo * ?v \<le> ?t" "?t \<le> unat hi * ?v"
    using turnover_bounds(1) [of "trades_of es" "unat hi"] turnover_bounds(2) [of "trades_of es" "unat lo"] range
    by (auto simp: word_le_nat_alt)
  then have q: "unat lo \<le> ?t div ?v" "?t div ?v \<le> unat hi"
    using pos by (simp_all add: less_eq_div_iff_mult_less_eq)
      (metis div_le_mono nonzero_mult_div_cancel_right not_gr_zero)
  have u: "unat (of_nat ?t :: u64) = ?t" "unat (of_nat ?v :: u64) = ?v"
    using fit by (simp_all add: unsigned_of_nat take_bit_nat_eq_self_iff)
  then have den: "(of_nat ?v :: u64) \<noteq> 0" using pos by (auto simp: word_unat_eq_iff)
  have "unat (of_nat ?t div of_nat ?v :: u64) = ?t div ?v" by (simp add: unat_div u)
  moreover have "?t div ?v < 2 ^ 32" using le_less_trans [OF q(2) unat_u32_less] by simp
  ultimately have "unat (vwap_units (stats_run es)) = ?t div ?v"
    using stats_run_trades [of es] den
    by (simp add: vwap_units_def unsigned_ucast_eq take_bit_nat_eq_self_iff)
  then show ?thesis using q by (simp add: word_le_nat_alt)
qed

subsection \<open>What the statistics of a run are\<close>

text \<open>
  Property C28: the statistics are those of the trades. While the totals fit 64 bits, the two
  sums are the exact turnover and volume of the trades that count and every trade with shares is
  counted once; with event times in order the rolling rate is the number of messages of the last
  second; and the average price lies between the lowest and the highest trade price.
\<close>

theorem statistics_of_run:
  assumes "in_order (stamps_of es)"
    and "turnover (trades_of es) < 2 ^ 64" "volume (trades_of es) < 2 ^ 64"
  shows "unat (st_vwap_num (stats_run es)) = turnover (trades_of es) \<and>
    unat (st_vwap_den (stats_run es)) = volume (trades_of es) \<and>
    st_trade_count (stats_run es) = of_nat (length (trades_of es)) \<and>
    st_total_messages (stats_run es) = of_nat (length es) \<and>
    rolling_msg_rate (stats_run es) =
      length (filter (\<lambda>t. List.last (0 # stamps_of es) < t + ONE_SEC_NS) (stamps_of es)) \<and>
    (trades_of es \<noteq> [] \<longrightarrow>
      (\<forall>lo hi. (\<forall>ex\<in>set (trades_of es). lo \<le> er_price ex \<and> er_price ex \<le> hi) \<longrightarrow>
        lo \<le> vwap_units (stats_run es) \<and> vwap_units (stats_run es) \<le> hi))"
proof -
  have "lo \<le> vwap_units (stats_run es) \<and> vwap_units (stats_run es) \<le> hi"
    if "trades_of es \<noteq> []" "\<forall>ex\<in>set (trades_of es). lo \<le> er_price ex \<and> er_price ex \<le> hi" for lo hi
    using that by (intro vwap_between [OF _ assms(2,3)]) auto
  moreover have "unat (st_vwap_num (stats_run es)) = turnover (trades_of es)"
    "unat (st_vwap_den (stats_run es)) = volume (trades_of es)"
    using stats_run_trades [of es] assms(2,3) by (simp_all add: unsigned_of_nat take_bit_nat_eq_self_iff)
  ultimately show ?thesis
    using stats_run_trades [of es] stats_run_window [OF assms(1)] unfolding rolling_msg_rate_def by metis
qed

definition two_trades :: "(decoded_message \<times> exec_result) list" where
  "two_trades = [(empty_message\<lparr>dm_timestamp := 5\<rparr>, no_exec\<lparr>er_contributes := True, er_price := 10, er_shares := 2\<rparr>),
     (empty_message\<lparr>dm_timestamp := 1000000005\<rparr>, no_exec\<lparr>er_contributes := True, er_price := 20, er_shares := 2\<rparr>)]"

theorem statistics_of_run_witness:
  "unat (st_vwap_num (stats_run two_trades)) = 60 \<and> unat (st_vwap_den (stats_run two_trades)) = 4 \<and>
   rolling_msg_rate (stats_run two_trades) = 1"
proof -
  have trades: "map (\<lambda>ex. (er_price ex, er_shares ex)) (trades_of two_trades) = [(10, 2), (20, 2)]"
    "turnover (trades_of two_trades) = 60" "volume (trades_of two_trades) = 4"
    by (simp_all add: trades_of_def two_trades_def turnover_def volume_def no_exec_def)
  have stamps: "stamps_of two_trades = [5, 1000000005]" by (simp add: stamps_of_def two_trades_def empty_message_def)
  then have "in_order (stamps_of two_trades)" by (simp add: in_order_def ONE_SEC_NS_def)
  from statistics_of_run [OF this] show ?thesis by (simp add: trades(2,3) stamps ONE_SEC_NS_def)
qed

end
