(* ===== verification/GoldenSim.thy ===== *)
theory GoldenSim
  imports GoldenModel StatsEngine EngineProps
begin

text \<open>
  The golden model of the hardware step by step: its decoder reads the fields the software
  decoder reads, and on a message the engine accepts its levels and totals stay those of the
  resting orders.
\<close>

subsection \<open>The decoders\<close>

definition golden_msg :: "decoded_message \<Rightarrow> ref_msg" where
  "golden_msg m = \<lparr>rm_type = msg_type_code (dm_type m), rm_is_bid = (dm_side m = SIDE_BUY),
     rm_printable = (dm_printable m \<noteq> 0), rm_locate = dm_stock_locate m, rm_price = dm_price m,
     rm_shares = dm_shares m, rm_order_ref = dm_order_ref m, rm_new_order_ref = dm_new_order_ref m\<rparr>"

lemma golden_msg_fields [simp]:
  "rm_type (golden_msg m) = msg_type_code (dm_type m)" "rm_is_bid (golden_msg m) = (dm_side m = SIDE_BUY)"
  "rm_printable (golden_msg m) = (dm_printable m \<noteq> 0)" "rm_locate (golden_msg m) = dm_stock_locate m"
  "rm_price (golden_msg m) = dm_price m" "rm_shares (golden_msg m) = dm_shares m"
  "rm_order_ref (golden_msg m) = dm_order_ref m" "rm_new_order_ref (golden_msg m) = dm_new_order_ref m"
  by (simp_all add: golden_msg_def)

lemma take_two: "Suc k < length b \<Longrightarrow> take 2 (drop k b) = [b ! k, b ! Suc k]"
  by (simp add: numeral_2_eq_2 take_Suc_conv_app_nth)

lemma take_four:
  "k + 3 < length b \<Longrightarrow> take 4 (drop k b) = [b ! k, b ! (k + 1), b ! (k + 2), b ! (k + 3)]"
  by (simp add: numeral_eq_Suc take_Suc_conv_app_nth)

lemma golden_be16: "k + 2 \<le> length b \<Longrightarrow> golden_be16 b k = Some (be16 (take 2 (drop k b)))"
  by (simp add: golden_be16_def take_two be16_conv or.commute)

lemma golden_be32: "k + 4 \<le> length b \<Longrightarrow> golden_be32 b k = Some (be32 (take 4 (drop k b)))"
  by (simp add: golden_be32_def take_four be32_conv push_bit_or push_bit_push_bit ac_simps)

lemma golden_be64_loop:
  "k + n \<le> length b \<Longrightarrow>
     golden_be64_loop b k n (word_of_le acc) = Some (word_of_le (rev (take n (drop k b)) @ acc))"
proof (induction n arbitrary: k acc)
  case (Suc n)
  have "push_bit 8 (word_of_le acc) OR ucast (b ! k) = (word_of_le (b ! k # acc) :: u64)"
    by (simp add: or.commute)
  moreover have "take (Suc n) (drop k b) = b ! k # take n (drop (Suc k) b)"
    using Suc.prems by (simp add: Cons_nth_drop_Suc [symmetric])
  ultimately show ?case using Suc.IH [of "Suc k" "b ! k # acc"] Suc.prems by simp
qed simp

lemma golden_be64: "k + 8 \<le> length b \<Longrightarrow> golden_be64 b k = Some (be64 (take 8 (drop k b)))"
  using golden_be64_loop [of k 8 b "[]"] by (simp add: golden_be64_def be64_conv)

lemma known_body:
  assumes "dm_type (decoded b) = t" "t \<noteq> Unknown"
  shows "length b = msg_body_len t" "b ! 0 = msg_type_code t" "b \<noteq> []"
  using assms msg_type_code_of_code [of "b ! 0"] by (auto simp: dm_type_decoded split: if_splits)

lemma golden_decode_known:
  assumes "dm_type (decoded b) \<noteq> Unknown"
  shows "golden_decode b = Some (golden_msg (decoded b))"
proof -
  define t where "t = dm_type (decoded b)"
  have t: "t \<noteq> Unknown" and len: "length b = msg_body_len t" and code: "b ! 0 = msg_type_code t" and ne: "b \<noteq> []"
    using known_body [of b t] assms by (simp_all add: t_def)
  have tb: "byte_at b 0 = Some (msg_type_code t)" using ne code by (simp add: byte_at_def)
  have long: "14 \<le> length b" using msg_body_len_bounds [OF t] len by (simp add: layout)
  define h where "h = empty_message\<lparr>dm_type := t, dm_stock_locate := be16 (take 2 (drop 1 b)),
    dm_stock_idx := be16 (take 2 (drop 1 b)), dm_timestamp := be64 (take 8 (drop 5 b))\<rparr>"
  have "decode_body b = decode_fields b h"
    unfolding decode_body_def
    using long t ne len
    by (simp add: layout tb [unfolded layout] h_def del: decode_body_Some)
  then have dec: "decoded b = the (decode_fields b h)" by (simp add: decoded_def del: decode_body_Some)
  note reads = golden_be16 golden_be32 golden_be64 golden_decode_def golden_msg_def decode_fields_def h_def
    empty_message_def no_ref_msg_def layout
  show ?thesis
  proof (cases t)
    case AddOrder
    then show ?thesis using len ne tb by (simp add: dec reads)
  next
    case AddOrderMPID
    then show ?thesis using len ne tb by (simp add: dec reads)
  next
    case OrderExecuted
    then show ?thesis using len ne tb by (simp add: dec reads)
  next
    case OrderExecutedPrice
    then show ?thesis using len ne tb by (simp add: dec reads)
  next
    case OrderCancel
    then show ?thesis using len ne tb by (simp add: dec reads)
  next
    case OrderDelete
    then show ?thesis using len ne tb by (simp add: dec reads)
  next
    case OrderReplace
    then show ?thesis using len ne tb by (simp add: dec reads)
  next
    case Trade
    then show ?thesis using len ne tb by (simp add: dec reads)
  next
    case SystemEvent
    then show ?thesis using len ne tb by (simp add: dec reads)
  qed (use t in simp)
qed

subsection \<open>Levels over all symbols\<close>

text \<open>The model has one book for all symbols: its levels are those of the orders without locates.\<close>

definition flat :: "orders \<Rightarrow> orders" where
  "flat os = (\<lambda>r. map_option (\<lambda>v. v\<lparr>ov_locate := 0\<rparr>) (os r))"

definition flat_view :: "orders \<Rightarrow> u8 \<Rightarrow> u32 \<Rightarrow> nat \<times> nat" where
  "flat_view os s = level_view (flat os) 0 s"

lemma dom_flat [simp]: "dom (flat os) = dom os"
  by (auto simp: flat_def)

definition level_plus :: "u32 \<Rightarrow> nat \<Rightarrow> (u32 \<Rightarrow> nat \<times> nat) \<Rightarrow> u32 \<Rightarrow> nat \<times> nat" where
  "level_plus p q V = V(p := (q + fst (V p), Suc (snd (V p))))"

lemma flat_view_insert:
  assumes "finite (dom os)" "os r = None"
  shows "flat_view (os(r \<mapsto> v)) s =
    (if ov_side v = s then level_plus (ov_price v) (unat (ov_shares v)) (flat_view os s) else flat_view os s)"
proof
  fix p
  have f: "flat (os(r \<mapsto> v)) = (flat os)(r \<mapsto> v\<lparr>ov_locate := 0\<rparr>)" by (auto simp: flat_def)
  have "level_sum w ((flat os)(r \<mapsto> v\<lparr>ov_locate := 0\<rparr>)) 0 s p =
      contrib w (v\<lparr>ov_locate := 0\<rparr>) 0 s p + level_sum w (flat os) 0 s p" for w
    by (rule level_sum_insert) (use assms in \<open>auto simp: flat_def\<close>)
  then show "flat_view (os(r \<mapsto> v)) s p =
    (if ov_side v = s then level_plus (ov_price v) (unat (ov_shares v)) (flat_view os s) else flat_view os s) p"
    by (simp add: flat_view_def level_view_def f contrib_def rests_at_def qty_def one_def level_plus_def)
qed

lemma flat_view_remove:
  assumes "finite (dom os)" "os r = Some v"
  shows "flat_view os s =
    (if ov_side v = s then level_plus (ov_price v) (unat (ov_shares v)) (flat_view (os(r := None)) s)
     else flat_view (os(r := None)) s)"
proof -
  have "(os(r := None))(r \<mapsto> v) = os" using assms(2) by auto
  then show ?thesis using flat_view_insert [of "os(r := None)" r v s] assms(1) by simp
qed

lemma flat_zero_iff:
  assumes "live_orders os"
  shows "fst (flat_view os s p) = 0 \<longleftrightarrow> snd (flat_view os s p) = 0"
proof -
  have "live_orders (flat os)" using assms by (auto simp: live_orders_def flat_def)
  then show ?thesis by (simp add: flat_view_def level_view_def level_zero_iff)
qed

text \<open>The counters of a level, of 64 and 32 bits, do not overflow.\<close>

definition flat_fit :: "orders \<Rightarrow> bool" where
  "flat_fit os \<longleftrightarrow> (\<forall>s p. fst (flat_view os s p) < 2 ^ 64 \<and> snd (flat_view os s p) < 2 ^ 32)"

lemma flat_fit_card:
  assumes "finite (dom os)" "card (dom os) \<le> 2 ^ 31"
  shows "flat_fit os"
  unfolding flat_fit_def
proof (intro allI)
  fix s p
  have max: "unat (x :: u32) \<le> 4294967295" for x using unat_u32_less [of x] by linarith
  have "level_sum qty (flat os) 0 s p \<le> card (dom (flat os)) * 4294967295"
    by (rule level_sum_le) (use assms(1) max in \<open>auto simp: qty_def\<close>)
  moreover have "level_sum one (flat os) 0 s p \<le> card (dom (flat os)) * 1"
    by (rule level_sum_le) (use assms(1) in \<open>auto simp: one_def\<close>)
  ultimately show "fst (flat_view os s p) < 2 ^ 64 \<and> snd (flat_view os s p) < 2 ^ 32"
    using assms(2) by (simp add: flat_view_def level_view_def)
qed

subsection \<open>The levels of the model\<close>

definition levels_agree :: "(u32 \<Rightarrow> nat \<times> nat) \<Rightarrow> golden_levels \<Rightarrow> bool" where
  "levels_agree V m \<longleftrightarrow> (\<forall>p. RBT.lookup m p =
     (if fst (V p) = 0 then None else Some \<lparr>gl_shares = of_nat (fst (V p)), gl_count = of_nat (snd (V p))\<rparr>))"

definition to_golden :: "order_value \<Rightarrow> golden_order" where
  "to_golden v = \<lparr>go_is_bid = (ov_side v = SIDE_BUY), go_locate = ov_locate v, go_price = ov_price v,
     go_shares = ucast (ov_shares v)\<rparr>"

definition side_code :: "bool \<Rightarrow> u8" where
  "side_code is_bid = (if is_bid then SIDE_BUY else SIDE_SELL)"

text \<open>The running total of a side: the shares of all orders on it.\<close>

definition side_qty :: "u8 \<Rightarrow> order_value \<Rightarrow> nat" where
  "side_qty s v = (if ov_side v = s then unat (ov_shares v) else 0)"

definition side_sum :: "orders \<Rightarrow> u8 \<Rightarrow> nat" where
  "side_sum os s = (\<Sum>r\<in>dom os. side_qty s (the (os r)))"

definition golden_total :: "bool \<Rightarrow> golden_book \<Rightarrow> u64" where
  "golden_total is_bid gb = (if is_bid then gb_tot_bid gb else gb_tot_ask gb)"

definition golden_agrees :: "orders \<Rightarrow> golden_book \<Rightarrow> bool" where
  "golden_agrees os gb \<longleftrightarrow>
     gb_orders gb = (\<lambda>r. map_option to_golden (os r)) \<and>
     (\<forall>d. levels_agree (flat_view os (side_code d)) (golden_side d gb) \<and>
          golden_total d gb = of_nat (side_sum os (side_code d)))"

definition level_at :: "u32 \<Rightarrow> golden_levels \<Rightarrow> golden_level" where
  "level_at p m = (case RBT.lookup m p of None \<Rightarrow> \<lparr>gl_shares = 0, gl_count = 0\<rparr> | Some lv \<Rightarrow> lv)"

lemma levels_agree_plus:
  assumes "levels_agree V m" "fst (V p) = 0 \<longleftrightarrow> snd (V p) = 0" "0 < q"
  shows "levels_agree (level_plus p q V) (RBT.insert p
    \<lparr>gl_shares = gl_shares (level_at p m) + of_nat q, gl_count = gl_count (level_at p m) + 1\<rparr> m)"
proof -
  have "level_at p m = \<lparr>gl_shares = of_nat (fst (V p)), gl_count = of_nat (snd (V p))\<rparr>"
    using assms(1,2) by (cases "fst (V p) = 0") (simp_all add: level_at_def levels_agree_def)
  then show ?thesis using assms(1,3) by (simp add: levels_agree_def level_plus_def add.commute)
qed

lemma side_sum_insert:
  assumes "finite (dom os)" "os r = None"
  shows "side_sum (os(r \<mapsto> v)) s = side_qty s v + side_sum os s"
proof -
  have "r \<notin> dom os" using assms(2) by auto
  then have "(\<Sum>q\<in>dom os. side_qty s (the ((os(r \<mapsto> v)) q))) = side_sum os s"
    unfolding side_sum_def by (intro sum.cong) auto
  then show ?thesis using assms \<open>r \<notin> dom os\<close> by (simp add: side_sum_def)
qed

lemma side_sum_remove:
  assumes "finite (dom os)" "os r = Some v"
  shows "side_sum os s = side_qty s v + side_sum (os(r := None)) s"
proof -
  have "(os(r := None))(r \<mapsto> v) = os" using assms(2) by auto
  then show ?thesis using side_sum_insert [of "os(r := None)" r v s] assms(1) by simp
qed

lemma golden_fields [simp]:
  "golden_side d (set_side d' m gb) = (if d = d' then m else golden_side d gb)"
  "golden_side d (add_total d' q gb) = golden_side d gb" "golden_side d (sub_total d' q gb) = golden_side d gb"
  "golden_side d (gb\<lparr>gb_orders := x\<rparr>) = golden_side d gb"
  "golden_total d (set_side d' m gb) = golden_total d gb"
  "golden_total d (add_total d' q gb) = (if d = d' then golden_total d gb + q else golden_total d gb)"
  "golden_total d (sub_total d' q gb) = (if d = d' then golden_total d gb - q else golden_total d gb)"
  "golden_total d (gb\<lparr>gb_orders := x\<rparr>) = golden_total d gb"
  "gb_orders (set_side d m gb) = gb_orders gb" "gb_orders (add_total d q gb) = gb_orders gb"
  "gb_orders (sub_total d q gb) = gb_orders gb"
  by (simp_all add: golden_side_def set_side_def add_total_def sub_total_def golden_total_def)

lemma side_code_eq: "is_side s \<Longrightarrow> s = side_code d \<longleftrightarrow> (s = SIDE_BUY) = d"
  by (auto simp: is_side_def side_code_def layout)

lemma golden_add_agrees:
  assumes agree: "golden_agrees os gb" and os: "finite (dom os)" "os r = None" "live_orders os"
    and v: "is_side (ov_side v)" "ov_shares v \<noteq> 0"
  shows "golden_agrees (os(r \<mapsto> v))
    (golden_add r (ov_side v = SIDE_BUY) (ov_locate v) (ov_price v) (ucast (ov_shares v)) gb)"
    (is "golden_agrees _ ?gb")
  unfolding golden_agrees_def
proof (intro conjI allI)
  let ?d = "ov_side v = SIDE_BUY"
  show "gb_orders ?gb = (\<lambda>q. map_option to_golden ((os(r \<mapsto> v)) q))"
    using agree by (auto simp: golden_add_def Let_def golden_agrees_def to_golden_def fun_eq_iff)
  fix d
  note code = side_code_eq [OF v(1), of d]
  have old: "levels_agree (flat_view os (side_code d)) (golden_side d gb)" for d
    using agree by (simp add: golden_agrees_def)
  have nz: "0 < unat (ov_shares v)" using v(2) by (simp add: unat_gt_0)
  show "golden_total d ?gb = of_nat (side_sum (os(r \<mapsto> v)) (side_code d))"
    using agree code by (auto simp: golden_add_def Let_def golden_agrees_def side_sum_insert [OF os(1,2)]
        side_qty_def add.commute)
  have "golden_side d ?gb = (if d = ?d then RBT.insert (ov_price v)
      \<lparr>gl_shares = gl_shares (level_at (ov_price v) (golden_side d gb)) + of_nat (unat (ov_shares v)),
       gl_count = gl_count (level_at (ov_price v) (golden_side d gb)) + 1\<rparr> (golden_side d gb) else golden_side d gb)"
    by (simp add: golden_add_def Let_def level_at_def)
  then show "levels_agree (flat_view (os(r \<mapsto> v)) (side_code d)) (golden_side d ?gb)"
    using levels_agree_plus [OF old [of d] flat_zero_iff [OF os(3)] nz, of "ov_price v"] old [of d] code
    by (auto simp: flat_view_insert [OF os(1,2)])
qed

lemma of_nat_u64_eq_0: "n < 2 ^ 64 \<Longrightarrow> (of_nat n :: u64) = 0 \<longleftrightarrow> n = 0"
proof -
  assume "n < 2 ^ 64"
  then have "unat (of_nat n :: u64) = n" by (simp add: unsigned_of_nat take_bit_nat_eq_self)
  then show ?thesis using unat_eq_0 [of "of_nat n :: u64"] by simp
qed

lemma levels_agree_minus:
  assumes agree: "levels_agree (level_plus p q V) m" and fit: "q + fst (V p) < 2 ^ 64" "Suc (snd (V p)) < 2 ^ 32"
    and zero: "fst (V p) = 0 \<longleftrightarrow> snd (V p) = 0" and q: "0 < q"
  obtains lv where "RBT.lookup m p = Some lv" "gl_count lv > 0" "gl_count lv - 1 = of_nat (snd (V p))"
    "gl_shares lv - of_nat q = of_nat (fst (V p))" "gl_shares lv - of_nat q = 0 \<longleftrightarrow> fst (V p) = 0"
    "levels_agree V (if fst (V p) = 0 then RBT.delete p m
       else RBT.insert p (lv\<lparr>gl_shares := of_nat (fst (V p)), gl_count := of_nat (snd (V p))\<rparr>) m)"
proof -
  let ?lv = "\<lparr>gl_shares = of_nat (q + fst (V p)), gl_count = of_nat (Suc (snd (V p)))\<rparr>"
  have "RBT.lookup m p = Some ?lv" using agree q by (simp add: levels_agree_def level_plus_def)
  moreover have "unat (gl_count ?lv) = Suc (snd (V p))"
    using fit(2) by (simp only: golden_level.simps unsigned_of_nat) (simp add: take_bit_nat_eq_self_iff)
  then have "gl_count ?lv > 0" by (simp only: unat_gt_0 [symmetric] word_neq_0_conv [symmetric])
  moreover have "gl_count ?lv - 1 = of_nat (snd (V p))" by simp
  moreover have diff: "gl_shares ?lv - of_nat q = of_nat (fst (V p))" by simp
  moreover have "(of_nat (fst (V p)) :: u64) = 0 \<longleftrightarrow> fst (V p) = 0"
    using fit(1) by (intro of_nat_u64_eq_0) linarith
  moreover have "levels_agree V (if fst (V p) = 0 then RBT.delete p m
       else RBT.insert p (?lv\<lparr>gl_shares := of_nat (fst (V p)), gl_count := of_nat (snd (V p))\<rparr>) m)"
    using agree zero by (auto simp: levels_agree_def level_plus_def)
  ultimately show ?thesis using that [of ?lv] by simp
qed

lemma golden_order: "golden_agrees os gb \<Longrightarrow> gb_orders gb r = map_option to_golden (os r)"
  by (simp add: golden_agrees_def)

lemma to_golden_fields [simp]:
  "go_is_bid (to_golden v) = (ov_side v = SIDE_BUY)" "go_locate (to_golden v) = ov_locate v"
  "go_price (to_golden v) = ov_price v" "go_shares (to_golden v) = ucast (ov_shares v)"
  by (simp_all add: to_golden_def)

text \<open>Removing an order: the level it rests at, and the book without it.\<close>

lemma golden_remove_agrees:
  assumes agree: "golden_agrees os gb" and os: "live_orders os" "flat_fit os" "os r = Some v" "is_side (ov_side v)"
  shows "golden_agrees (os(r := None)) (golden_remove r gb)" (is "golden_agrees ?os ?gb")
proof -
  let ?d = "ov_side v = SIDE_BUY" and ?p = "ov_price v" and ?q = "unat (ov_shares v)"
  have fin: "finite (dom os)" and pos: "0 < ?q" using os(1,3) by (auto simp: live_orders_def unat_gt_0)
  have code: "side_code ?d = ov_side v" using os(4) by (auto simp: side_code_def is_side_def)
  have zero: "fst (flat_view ?os s p) = 0 \<longleftrightarrow> snd (flat_view ?os s p) = 0" for s p
    by (rule flat_zero_iff [OF live_orders_remove [OF os(1)]])
  let ?V = "flat_view ?os (ov_side v)"
  note view = flat_view_remove [OF fin os(3)]
  have V: "flat_view os (ov_side v) = level_plus ?p ?q ?V" by (simp add: view)
  have fit: "?q + fst (?V ?p) < 2 ^ 64" "Suc (snd (?V ?p)) < 2 ^ 32"
    using os(2) V by (auto simp: flat_fit_def level_plus_def dest!: spec [of _ "ov_side v"] spec [of _ ?p])
  have L: "levels_agree (level_plus ?p ?q ?V) (golden_side ?d gb)"
    using agree V code by (metis golden_agrees_def)
  obtain lv where lv: "RBT.lookup (golden_side ?d gb) ?p = Some lv" "gl_count lv > 0"
    "gl_count lv - 1 = of_nat (snd (?V ?p))" "gl_shares lv - of_nat ?q = of_nat (fst (?V ?p))"
    "gl_shares lv - of_nat ?q = 0 \<longleftrightarrow> fst (?V ?p) = 0"
    "levels_agree ?V (if fst (?V ?p) = 0 then RBT.delete ?p (golden_side ?d gb)
       else RBT.insert ?p (lv\<lparr>gl_shares := of_nat (fst (?V ?p)), gl_count := of_nat (snd (?V ?p))\<rparr>) (golden_side ?d gb))"
    using levels_agree_minus [OF L fit zero pos] by blast
  have gb: "?gb = (set_side ?d (if fst (?V ?p) = 0 then RBT.delete ?p (golden_side ?d gb)
       else RBT.insert ?p (lv\<lparr>gl_shares := of_nat (fst (?V ?p)), gl_count := of_nat (snd (?V ?p))\<rparr>) (golden_side ?d gb))
      (sub_total ?d (ucast (ov_shares v)) gb))\<lparr>gb_orders := (gb_orders gb)(r := None)\<rparr>"
    using lv(1-5) golden_order [OF agree, of r] os(3) by (simp add: golden_remove_def Let_def)
  show ?thesis
    unfolding golden_agrees_def
  proof (intro conjI allI)
    show "gb_orders ?gb = (\<lambda>q. map_option to_golden (?os q))"
      using agree by (auto simp: gb golden_agrees_def fun_eq_iff)
    fix d
    note code' = side_code_eq [OF os(4), of d]
    show "levels_agree (flat_view ?os (side_code d)) (golden_side d ?gb)"
    proof (cases "d = ?d")
      case True
      then have "flat_view ?os (side_code d) = ?V" using code by simp
      then show ?thesis using lv(6) True by (simp add: gb)
    next
      case False
      then have "flat_view os (side_code d) = flat_view ?os (side_code d)" using code' by (subst view) auto
      moreover have "levels_agree (flat_view os (side_code d)) (golden_side d gb)"
        using agree by (simp add: golden_agrees_def)
      moreover have "golden_side d ?gb = golden_side d gb" using False by (simp add: gb)
      ultimately show ?thesis by simp
    qed
    show "golden_total d ?gb = of_nat (side_sum ?os (side_code d))"
      using agree code' by (auto simp: gb golden_agrees_def side_sum_remove [OF fin os(3)] side_qty_def)
  qed
qed

subsection \<open>What the engine reports\<close>

text \<open>The trade of an applied message, from the resting orders.\<close>

definition exec_of :: "orders \<Rightarrow> decoded_message \<Rightarrow> exec_result" where
  "exec_of os m =
     (case dm_type m of
        OrderExecuted \<Rightarrow> (case os (dm_order_ref m) of None \<Rightarrow> no_exec
          | Some v \<Rightarrow> \<lparr>er_contributes = True, er_price = ov_price v, er_shares = dm_shares m, er_locate = ov_locate v\<rparr>)
      | OrderExecutedPrice \<Rightarrow> (case os (dm_order_ref m) of None \<Rightarrow> no_exec
          | Some v \<Rightarrow> \<lparr>er_contributes = (dm_printable m \<noteq> 0), er_price = dm_price m, er_shares = dm_shares m,
              er_locate = ov_locate v\<rparr>)
      | Trade \<Rightarrow> \<lparr>er_contributes = True, er_price = dm_price m, er_shares = dm_shares m,
          er_locate = dm_stock_locate m\<rparr>
      | _ \<Rightarrow> no_exec)"

definition reports :: "exec_result \<Rightarrow> outcome option \<Rightarrow> bool" where
  "reports ex x \<longleftrightarrow> (\<forall>e bk ex'. x = Some (e, bk, ex') \<longrightarrow> ex' = (if be_status e = Applied then ex else no_exec))"

lemma reports_reject [simp]: "st \<noteq> Applied \<Longrightarrow> reports ex (Some (reject st e))"
  by (cases st) (simp_all add: reports_def reject_def Let_def count_def)

lemma reports_applied [simp]: "reports ex (Some (applied loc ex e))"
  by (simp add: reports_def applied_def)

lemma reports_bind [simp]: "(\<And>x. reports ex (f x)) \<Longrightarrow> reports ex (Option.bind o' f)"
  by (cases o') (simp_all add: reports_def)

lemma reports_add: "reports no_exec (on_add m e)"
  by (simp add: on_add_def Let_def split: prod.splits option.splits)

lemma reports_delete: "reports no_exec (on_delete m e)"
  by (simp add: on_delete_def Let_def split: prod.splits option.splits)

lemma reports_replace: "reports no_exec (on_replace m e)"
  by (simp add: on_replace_def Let_def split: prod.splits option.splits)

lemma find_status [simp]: "be_refs (count f e) = be_refs e" "be_refs (e\<lparr>be_status := st\<rparr>) = be_refs e"
  by (simp_all add: count_def)

lemma reports_reduce:
  assumes "table_find (be_refs e) (dm_order_ref m) = live e (dm_order_ref m)"
    "dm_type m = OrderExecuted \<or> dm_type m = OrderExecutedPrice \<or> dm_type m = OrderCancel"
  shows "reports (exec_of (live e) m) (on_reduce m (dm_type m \<noteq> OrderCancel) e)"
  using assms(2)
  by (elim disjE) (simp_all add: on_reduce_def exec_of_def Let_def assms(1) split: prod.splits option.splits)

lemma apply_exec:
  assumes inv: "engine_inv e"
  shows "reports (exec_of (live e) m) (apply_msg m e)"
proof -
  let ?e = "e\<lparr>be_status := Ignored\<rparr>"
  have "table_find (be_refs ?e) (dm_order_ref m) = live ?e (dm_order_ref m)" using find_live [OF inv] by simp
  note red = reports_reduce [OF this]
  show ?thesis
    unfolding apply_msg_def Let_def
    using red reports_add [of m ?e] reports_delete [of m ?e] reports_replace [of m ?e]
    by (cases "dm_type m") (simp_all add: exec_of_def, simp_all add: reports_def count_def)
qed

subsection \<open>Executions and cancellations\<close>

lemma golden_level_present:
  assumes agree: "golden_agrees os gb" and os: "live_orders os" "os r = Some v" "is_side (ov_side v)"
  shows "RBT.lookup (golden_side (ov_side v = SIDE_BUY) gb) (ov_price v) =
    Some \<lparr>gl_shares = of_nat (unat (ov_shares v) + fst (flat_view (os(r := None)) (ov_side v) (ov_price v))),
          gl_count = of_nat (Suc (snd (flat_view (os(r := None)) (ov_side v) (ov_price v))))\<rparr>"
proof -
  have fin: "finite (dom os)" and pos: "unat (ov_shares v) \<noteq> 0"
    using os(1,2) by (auto simp: live_orders_def unat_eq_0)
  have code: "side_code (ov_side v = SIDE_BUY) = ov_side v" using os(3) by (auto simp: side_code_def is_side_def)
  have "levels_agree (flat_view os (side_code (ov_side v = SIDE_BUY))) (golden_side (ov_side v = SIDE_BUY) gb)"
    using agree by (simp add: golden_agrees_def)
  then have "levels_agree (level_plus (ov_price v) (unat (ov_shares v)) (flat_view (os(r := None)) (ov_side v)))
      (golden_side (ov_side v = SIDE_BUY) gb)"
    unfolding code by (simp add: flat_view_remove [OF fin os(2)])
  then show ?thesis using pos by (simp add: levels_agree_def level_plus_def del: unsigned_eq_0_iff)
qed

lemma reduce_all:
  assumes "gb_orders gb r = Some ord" "RBT.lookup (golden_side (go_is_bid ord) gb) (go_price ord) = Some lv"
  shows "golden_reduce r (go_shares ord) gb = golden_remove r gb"
  by (simp add: golden_reduce_def golden_remove_def assms Let_def)

lemma levels_agree_part:
  assumes "levels_agree (level_plus p q V) m" "x < q"
  shows "levels_agree (level_plus p (q - x) V)
    (RBT.insert p \<lparr>gl_shares = of_nat (q + fst (V p)) - of_nat x, gl_count = of_nat (Suc (snd (V p)))\<rparr> m)"
proof -
  have "of_nat (q + fst (V p)) - of_nat x = (of_nat (q - x + fst (V p)) :: u64)"
    using assms(2) by (simp add: of_nat_diff)
  then show ?thesis using assms by (auto simp: levels_agree_def level_plus_def)
qed

lemma golden_reduce_part:
  assumes agree: "golden_agrees os gb" and os: "live_orders os" "os r = Some v" "is_side (ov_side v)"
    and q: "q < ov_shares v"
  shows "golden_agrees (os(r \<mapsto> v\<lparr>ov_shares := ov_shares v - q\<rparr>)) (golden_reduce r (ucast q) gb)"
    (is "golden_agrees ?os ?gb")
proof -
  let ?d = "ov_side v = SIDE_BUY" and ?p = "ov_price v" and ?s = "ov_side v"
  let ?w = "v\<lparr>ov_shares := ov_shares v - q\<rparr>" and ?V = "flat_view (os(r := None)) (ov_side v)"
  have fin: "finite (dom os)" using os(1) by (simp add: live_orders_def)
  have code: "side_code ?d = ?s" using os(3) by (auto simp: side_code_def is_side_def)
  have lt: "unat q < unat (ov_shares v)" using q by (simp add: word_less_nat_alt)
  then have left: "unat (ov_shares v - q) = unat (ov_shares v) - unat q" by (intro unat_minus_le) (use q in simp)
  have uq: "of_nat (unat q) = (ucast q :: u64)" by (simp add: of_nat_unat_u32)
  have cast: "(ucast (ov_shares v) :: u64) - ucast q = ucast (ov_shares v - q)"
    using left lt by (subst word_unat_eq_iff, subst unat_minus_le) (simp_all add: unat_ucast_up word_le_nat_alt)
  have nz: "(ucast (ov_shares v) :: u64) \<noteq> ucast q" and gt: "\<not> ucast q > (ucast (ov_shares v) :: u64)"
    using lt left by (auto simp: word_unat_eq_iff unat_ucast_up word_less_nat_alt)
  have os': "?os = (os(r := None))(r \<mapsto> ?w)" by simp
  have view': "flat_view ?os s = (if ?s = s then level_plus ?p (unat (ov_shares v) - unat q) ?V
      else flat_view (os(r := None)) s)" for s
    unfolding os' using flat_view_insert [of "os(r := None)" r ?w s] fin left by auto
  note view = flat_view_remove [OF fin os(2)]
  have gb: "?gb = (set_side ?d (RBT.insert ?p
        \<lparr>gl_shares = of_nat (unat (ov_shares v) + fst (?V ?p)) - of_nat (unat q), gl_count = of_nat (Suc (snd (?V ?p)))\<rparr>
        (golden_side ?d gb)) (sub_total ?d (ucast q) gb))\<lparr>gb_orders := (gb_orders gb)(r \<mapsto> to_golden ?w)\<rparr>"
    using golden_order [OF agree, of r] os(2) golden_level_present [OF agree os] gt nz
    by (simp add: golden_reduce_def Let_def cast) (simp add: to_golden_def)
  show ?thesis
    unfolding golden_agrees_def
  proof (intro conjI allI)
    show "gb_orders ?gb = (\<lambda>q. map_option to_golden (?os q))"
      using agree by (auto simp: gb golden_agrees_def fun_eq_iff)
    fix d
    note code' = side_code_eq [OF os(3), of d]
    have old: "levels_agree (flat_view os (side_code d)) (golden_side d gb)"
      "golden_total d gb = of_nat (side_sum os (side_code d))"
      using agree by (simp_all add: golden_agrees_def)
    show "levels_agree (flat_view ?os (side_code d)) (golden_side d ?gb)"
    proof (cases "d = ?d")
      case True
      then have d: "side_code d = ?s" using code by simp
      then have "levels_agree (level_plus ?p (unat (ov_shares v)) ?V) (golden_side d gb)"
        using old(1) by (simp add: view [of ?s])
      then show ?thesis using levels_agree_part [OF _ lt] True d by (simp add: gb view')
    next
      case False
      then have "?s \<noteq> side_code d" using code' by simp
      then have "flat_view ?os (side_code d) = flat_view os (side_code d)"
        unfolding view' view [of "side_code d"] by simp
      then show ?thesis using old(1) False by (simp add: gb)
    qed
    have "side_sum os s = side_qty s v + side_sum (os(r := None)) s" for s by (rule side_sum_remove [OF fin os(2)])
    moreover have "side_sum ?os s = side_qty s ?w + side_sum (os(r := None)) s" for s
      unfolding os' by (rule side_sum_insert) (use fin in auto)
    ultimately show "golden_total d ?gb = of_nat (side_sum ?os (side_code d))"
      using old(2) code' cast by (auto simp: gb side_qty_def)
  qed
qed

lemma golden_reduce_agrees:
  assumes agree: "golden_agrees os gb" and os: "live_orders os" "flat_fit os" "os r = Some v" "is_side (ov_side v)"
    and q: "q \<le> ov_shares v"
  shows "golden_agrees (reduced os r v q) (golden_reduce r (ucast q) gb)"
proof (cases "ov_shares v = q")
  case True
  have "golden_reduce r (go_shares (to_golden v)) gb = golden_remove r gb"
    using golden_order [OF agree, of r] os(3) golden_level_present [OF agree os(1,3,4)] by (intro reduce_all) simp_all
  then show ?thesis using golden_remove_agrees [OF agree os] True by (simp add: reduced_def)
next
  case False
  then show ?thesis using golden_reduce_part [OF agree os(1,3,4)] q by (simp add: reduced_def)
qed

lemma golden_trade_agrees [simp]: "golden_agrees os (golden_trade p q gb) = golden_agrees os gb"
  by (simp add: golden_agrees_def golden_trade_def golden_side_def golden_total_def)

lemma golden_amount_full:
  "dm_shares m \<le> ov_shares v \<Longrightarrow> golden_amount (golden_msg m) (to_golden v) = ucast (dm_shares m)"
  by (simp add: golden_amount_def golden_msg_def word_less_nat_alt word_le_nat_alt unat_ucast_up not_less)

lemma golden_add_ucast: "order_at m loc s = v \<Longrightarrow>
    golden_add r (s = SIDE_BUY) loc (dm_price m) (ucast (dm_shares m)) gb =
    golden_add r (ov_side v = SIDE_BUY) (ov_locate v) (ov_price v) (ucast (ov_shares v)) gb"
  by (auto simp: order_at_def)

subsection \<open>One message\<close>

lemma engine_flat:
  assumes "engine_inv e"
  shows "live_orders (live e)" "flat_fit (live e)"
proof -
  show "live_orders (live e)" by (rule engine_invD [OF assms])
  have inv: "table_inv (be_refs e)" by (rule engine_invD [OF assms])
  then obtain k where k: "k \<le> 31" "rt_cap (be_refs e) = 2 ^ k" by (auto simp: table_inv_def)
  have "rt_size (be_refs e) \<le> rt_cap (be_refs e)"
    using inv by (metis length_filter_le table_inv_def)
  also have "\<dots> \<le> 2 ^ 31" unfolding k(2) by (rule power_increasing [OF k(1)]) simp
  finally show "flat_fit (live e)" using engine_invD(4,6) [OF assms] by (intro flat_fit_card) simp_all
qed

lemma golden_step:
  assumes inv: "engine_inv e" and agree: "golden_agrees (live e) gb"
    and st: "st = event_status (be_price_levels e) cap (live e) m" "accepted st"
  shows "golden_agrees (if st = Applied then event_orders (live e) m else live e) (golden_apply (golden_msg m) gb)"
proof -
  note fit = engine_flat [OF inv]
  have fin: "finite (dom (live e))" by (rule engine_invD [OF inv])
  let ?r = "dm_order_ref m" and ?os = "live e"
  have order: "is_side (ov_side v)" "ov_shares v \<noteq> 0" if "?os r = Some v" for r v
    using order_okD [OF engine_invD(2) [OF inv] that] by (simp_all add: order_ok_def)
  have orders: "gb_orders gb r = map_option to_golden (?os r)" for r by (rule golden_order [OF agree])
  have add: ?thesis if t: "dm_type m = AddOrder \<or> dm_type m = AddOrderMPID"
  proof -
    have a: "add_status (be_price_levels e) cap ?os m = Applied" "st = Applied"
      using t st by (auto simp: event_status_def accepted_def add_status_def split: if_splits)
    then have f: "is_side (dm_side m)" "dm_shares m \<noteq> 0" "?os ?r = None"
      by (auto simp: add_status_def bad_order_def split: if_splits)
    let ?v = "order_at m (dm_stock_locate m) (dm_side m)"
    have "golden_agrees (?os(?r \<mapsto> ?v))
        (golden_add ?r (ov_side ?v = SIDE_BUY) (ov_locate ?v) (ov_price ?v) (ucast (ov_shares ?v)) gb)"
      by (rule golden_add_agrees [OF agree fin f(3) fit(1)]) (use f in simp_all)
    then show ?thesis using t a(2) by (auto simp: event_orders_def golden_apply_def)
  qed
  have reduce: ?thesis if t: "dm_type m \<in> {OrderExecuted, OrderExecutedPrice, OrderCancel}"
  proof -
    have s: "st = reduce_status ?os m" using t st(1) by (auto simp: event_status_def)
    show ?thesis
    proof (cases "?os ?r")
      case None
      then have "st \<noteq> Applied" using s by (simp add: reduce_status_def)
      then show ?thesis using None t agree orders [of ?r] by (auto simp: golden_apply_def)
    next
      case (Some v)
      then have q: "dm_shares m \<le> ov_shares v" "st = Applied"
        using s st(2) by (auto simp: reduce_status_def accepted_def not_less split: if_splits)
      have "golden_agrees (reduced ?os ?r v (dm_shares m)) (golden_reduce ?r (ucast (dm_shares m)) gb)"
        by (rule golden_reduce_agrees [OF agree fit Some order(1) [OF Some] q(1)])
      then have "golden_agrees (event_orders ?os m) (golden_reduce ?r (ucast (dm_shares m)) gb)"
        using t Some by (auto simp: event_orders_def reduce_orders_Some)
      then show ?thesis
        using t q(2) Some orders [of ?r] golden_amount_full [OF q(1)]
        by (auto simp: golden_apply_def Let_def)
    qed
  qed
  have delete: ?thesis if t: "dm_type m = OrderDelete"
  proof (cases "?os ?r")
    case None
    then show ?thesis using t st agree orders [of ?r]
      by (simp add: event_status_def golden_apply_def golden_remove_def)
  next
    case (Some v)
    then show ?thesis using t st golden_remove_agrees [OF agree fit Some order(1) [OF Some]]
      by (simp add: event_status_def event_orders_def golden_apply_def)
  qed
  have replace: ?thesis if t: "dm_type m = OrderReplace"
  proof (cases "?os ?r")
    case None
    then show ?thesis using t st agree orders [of ?r]
      by (simp add: event_status_def replace_status_def golden_apply_def)
  next
    case (Some v)
    have r: "replace_status (be_price_levels e) ?os m = Applied" "st = Applied"
      using t st Some by (auto simp: event_status_def accepted_def replace_status_def split: if_splits)
    let ?os1 = "?os(?r := None)" and ?v = "order_at m (ov_locate v) (ov_side v)"
    have f: "dm_shares m \<noteq> 0" "?os1 (dm_new_order_ref m) = None"
      using r(1) Some by (auto simp: replace_status_def bad_replacement_def split: if_splits)
    have "golden_agrees (?os1(dm_new_order_ref m \<mapsto> ?v))
        (golden_add (dm_new_order_ref m) (ov_side ?v = SIDE_BUY) (ov_locate ?v) (ov_price ?v) (ucast (ov_shares ?v))
          (golden_remove ?r gb))"
      by (rule golden_add_agrees [OF golden_remove_agrees [OF agree fit Some order(1) [OF Some]] _ f(2)
            live_orders_remove [OF fit(1)]]) (use fin f(1) order(1) [OF Some] in simp_all)
    then show ?thesis using t r(2) Some orders [of ?r] by (simp add: event_orders_def golden_apply_def)
  qed
  have other: ?thesis if "dm_type m \<in> {Trade, SystemEvent, Unknown}"
    using that st(1) agree by (auto simp: event_status_def event_orders_def golden_apply_def)
  show ?thesis using add reduce delete replace other by (cases "dm_type m") simp_all
qed

end
