(* ===== verification/ItchBuild.thy ===== *)
theory ItchBuild
  imports ItchGenWire
begin

text \<open>
  The message builders of the hardware tests, \<open>src/sim/itch_build.hpp\<close>: length-prefixed messages
  made by writing fields into zeroed bytes. Every write is at a constant offset inside the
  message it is made into, so the updates never miss. The names have the prefix \<open>build\<close>; the
  lemmas show that the software decoder reads back what was built.
\<close>

definition build_be16 :: "bytes \<Rightarrow> nat \<Rightarrow> u16 \<Rightarrow> bytes" where
  "build_be16 v off x = v[off := ucast (drop_bit 8 x), off + 1 := ucast x]"

definition build_be32 :: "bytes \<Rightarrow> nat \<Rightarrow> u32 \<Rightarrow> bytes" where
  "build_be32 v off x = v[off := ucast (drop_bit 24 x), off + 1 := ucast (drop_bit 16 x),
     off + 2 := ucast (drop_bit 8 x), off + 3 := ucast x]"

definition build_be64 :: "bytes \<Rightarrow> nat \<Rightarrow> u64 \<Rightarrow> bytes" where
  "build_be64 v off x = foldl (\<lambda>v i. v[off + i := ucast (drop_bit (56 - 8 * i) x)]) v [0..<8]"

definition base_msg :: "nat \<Rightarrow> u8 \<Rightarrow> u16 \<Rightarrow> bytes" where
  "base_msg blen type locate =
     (let m1 = build_be16 (replicate (2 + blen) 0) 0 (of_nat blen);
          m2 = m1[2 + 0 := type]
      in build_be16 m2 (2 + 1) locate)"

definition build_add :: "u64 \<Rightarrow> u8 \<Rightarrow> u32 \<Rightarrow> u32 \<Rightarrow> u16 \<Rightarrow> bytes" where
  "build_add ref side shares price locate =
     (let m1 = build_be64 (base_msg 38 0x41 locate) (2 + 13) ref;
          m2 = m1[2 + 21 := side];
          m3 = build_be32 m2 (2 + 22) shares
      in build_be32 m3 (2 + 34) price)"

definition build_exec :: "u64 \<Rightarrow> u32 \<Rightarrow> bytes" where
  "build_exec ref shares =
     build_be64 (build_be32 (build_be64 (base_msg 33 0x45 1) (2 + 13) ref) (2 + 21) shares) (2 + 25) 7"

definition build_exec_price :: "u64 \<Rightarrow> u32 \<Rightarrow> u32 \<Rightarrow> bool \<Rightarrow> bytes" where
  "build_exec_price ref shares price pr =
     (let m1 = build_be32 (build_be64 (base_msg 38 0x43 1) (2 + 13) ref) (2 + 21) shares;
          m2 = build_be64 m1 (2 + 25) 7;
          m3 = m2[2 + 33 := (if pr then 0x59 else 0x4E)]
      in build_be32 m3 (2 + 34) price)"

definition build_cancel :: "u64 \<Rightarrow> u32 \<Rightarrow> bytes" where
  "build_cancel ref shares = build_be32 (build_be64 (base_msg 25 0x58 1) (2 + 13) ref) (2 + 21) shares"

definition build_del :: "u64 \<Rightarrow> bytes" where
  "build_del ref = build_be64 (base_msg 21 0x44 1) (2 + 13) ref"

definition build_replace :: "u64 \<Rightarrow> u64 \<Rightarrow> u32 \<Rightarrow> u32 \<Rightarrow> bytes" where
  "build_replace oref nref shares price =
     (let m1 = build_be64 (build_be64 (base_msg 37 0x55 1) (2 + 13) oref) (2 + 21) nref
      in build_be32 (build_be32 m1 (2 + 29) shares) (2 + 33) price)"

definition build_trade :: "u8 \<Rightarrow> u32 \<Rightarrow> u32 \<Rightarrow> bytes" where
  "build_trade side shares price =
     (let m1 = build_be64 (base_msg 46 0x50 1) (2 + 13) 0;
          m2 = m1[2 + 21 := side]
      in build_be64 (build_be32 (build_be32 m2 (2 + 22) shares) (2 + 34) price) (2 + 38) 9)"

definition build_sysevt :: "u8 \<Rightarrow> bytes" where
  "build_sysevt code = (base_msg 14 0x53 1)[2 + 13 := code]"

subsection \<open>Writes into a message\<close>

text \<open>A write of \<open>bs\<close> over zeros: the message is a list of segments, written left to right.\<close>

definition put_bytes :: "nat \<Rightarrow> bytes \<Rightarrow> bytes \<Rightarrow> bytes" where
  "put_bytes k bs v = take k v @ bs @ drop (k + length bs) v"

lemma put_bytes_gap:
  assumes "j = length pre + k" "k + length bs \<le> n"
  shows "put_bytes j bs (pre @ replicate n 0) = pre @ replicate k 0 @ bs @ replicate (n - k - length bs) 0"
  using assms by (simp add: put_bytes_def)

lemma put_one: "off < length v \<Longrightarrow> v[off := x] = put_bytes off [x] v"
  by (simp add: put_bytes_def upd_conv_take_nth_drop)

lemma put_bytes_put:
  "k + length bs + length cs \<le> length v \<Longrightarrow> put_bytes (k + length bs) cs (put_bytes k bs v) = put_bytes k (bs @ cs) v"
  by (simp add: put_bytes_def ac_simps)

lemma length_put_bytes [simp]: "k + length bs \<le> length v \<Longrightarrow> length (put_bytes k bs v) = length v"
  by (simp add: put_bytes_def)

lemma store_bytes:
  "store_be16 a = [ucast (drop_bit 8 a), ucast a]"
  "store_be32 b = [ucast (drop_bit 24 b), ucast (drop_bit 16 b), ucast (drop_bit 8 b), ucast b]"
  "store_be64 c = map (\<lambda>i. ucast (drop_bit (56 - 8 * i) c)) [0..<8]"
  by (simp_all add: store_be16_conv store_be32_conv store_be64_conv le_of_word_def upt_rec numeral_2_eq_2)

lemma build_be16_put: "off + 2 \<le> length v \<Longrightarrow> build_be16 v off x = put_bytes off (store_be16 x) v"
  using put_bytes_put [of off "[ucast (drop_bit 8 x)]" "[ucast x]" v]
  by (simp add: build_be16_def store_bytes put_one)

lemma build_be32_put: "off + 4 \<le> length v \<Longrightarrow> build_be32 v off x = put_bytes off (store_be32 x) v"
  using put_bytes_put [of off "[ucast (drop_bit 24 x)]" "[ucast (drop_bit 16 x)]" v]
    put_bytes_put [of off "[ucast (drop_bit 24 x), ucast (drop_bit 16 x)]" "[ucast (drop_bit 8 x)]" v]
    put_bytes_put [of off "[ucast (drop_bit 24 x), ucast (drop_bit 16 x), ucast (drop_bit 8 x)]" "[ucast x]" v]
  by (simp add: build_be32_def store_bytes put_one numeral_3_eq_3)

lemma foldl_put:
  "off + n \<le> length v \<Longrightarrow> foldl (\<lambda>v i. v[off + i := f i]) v [0..<n] = put_bytes off (map f [0..<n]) v"
proof (induction n)
  case (Suc n)
  then show ?case using put_bytes_put [of off "map f [0..<n]" "[f n]" v] by (simp add: put_one)
qed (simp add: put_bytes_def)

lemma build_be64_put: "off + 8 \<le> length v \<Longrightarrow> build_be64 v off x = put_bytes off (store_be64 x) v"
  by (simp only: build_be64_def store_bytes foldl_put)

text \<open>The common header of a built message, without timestamp and tracking number.\<close>

definition build_head :: "msg_type \<Rightarrow> u16 \<Rightarrow> bytes" where
  "build_head t locate = msg_head t locate 0 0"

lemma build_head_zeros: "build_head t locate = [msg_type_code t] @ store_be16 locate @ replicate 10 0"
  by (simp add: build_head_def msg_head_def store_be16_conv store_be48_conv le_of_word_def upt_rec numeral_eq_Suc)

text \<open>A message written up to the end of \<open>pre\<close>, with \<open>n\<close> zeros to go.\<close>

definition zpad :: "bytes \<Rightarrow> nat \<Rightarrow> bytes" where
  "zpad pre n = pre @ replicate n 0"

lemma base_msg_head:
  assumes "13 \<le> n"
  shows "base_msg n (msg_type_code t) locate = zpad (store_be16 (of_nat n) @ build_head t locate) (n - 13)"
proof -
  let ?type = "msg_type_code t"
  have m1: "build_be16 (replicate (2 + n) 0) 0 (of_nat n) = store_be16 (of_nat n) @ replicate n 0"
    using put_bytes_gap [of 0 "[]" 0 "store_be16 (of_nat n)" "2 + n"] by (simp add: build_be16_put)
  have m2: "(store_be16 (of_nat n) @ replicate n 0)[2 := ?type] = store_be16 (of_nat n) @ [?type] @ replicate (n - 1) 0"
    using put_bytes_gap [of 2 "store_be16 (of_nat n)" 0 "[?type]" n] assms by (simp add: put_one)
  have m3: "build_be16 (store_be16 (of_nat n) @ [?type] @ replicate (n - 1) 0) 3 locate =
      store_be16 (of_nat n) @ [?type] @ store_be16 locate @ replicate (n - 3) 0"
    using put_bytes_gap [of 3 "store_be16 (of_nat n) @ [?type]" 0 "store_be16 locate" "n - 1"] assms
    by (simp add: build_be16_put numeral_3_eq_3)
  have "replicate (n - 3) (0 :: u8) = replicate 10 0 @ replicate (n - 13) 0"
    using assms by (simp flip: replicate_add)
  then show ?thesis
    using m1 m2 m3 by (simp add: base_msg_def Let_def build_head_zeros zpad_def del: msg_type_code.simps)
qed

lemma length_zpad [simp]: "length (zpad pre n) = length pre + n"
  by (simp add: zpad_def)

lemma put_next: "j = length pre \<Longrightarrow> length bs \<le> n \<Longrightarrow>
    put_bytes j bs (zpad pre n) = zpad (pre @ bs) (n - length bs)"
  using put_bytes_gap [of j pre 0 bs n] by (simp add: zpad_def)

lemma put_skip: "j = length pre + k \<Longrightarrow> k + length bs \<le> n \<Longrightarrow>
    put_bytes j bs (zpad pre n) = zpad (pre @ replicate k 0 @ bs) (n - k - length bs)"
  using put_bytes_gap [of j pre k bs n] by (simp add: zpad_def)

lemma length_build_head [simp]: "length (build_head t locate) = 13"
  by (simp add: build_head_def)

lemma length_base_msg [simp]: "length (base_msg n t l) = 2 + n"
  by (simp add: base_msg_def build_be16_def Let_def)

lemma length_put [simp]:
  "length (build_be32 v k x) = length v" "length (build_be64 v k y) = length v"
proof -
  show "length (build_be32 v k x) = length v" by (simp add: build_be32_def)
  have "length (foldl (\<lambda>v i. v[k + i := f i]) v is) = length v" for f :: "nat \<Rightarrow> u8" and "is"
    by (induction "is" arbitrary: v) simp_all
  then show "length (build_be64 v k y) = length v" by (simp only: build_be64_def)
qed

lemmas builders = build_be16_put build_be32_put build_be64_put put_one

subsection \<open>What is built\<close>

lemma build_add_frame:
  "build_add ref side shares price locate = frame (build_head AddOrder locate @ store_be64 ref @ [side] @
     store_be32 shares @ replicate 8 0 @ store_be32 price)"
  using base_msg_head [of 38 AddOrder locate]
  by (simp add: build_add_def Let_def builders put_next put_skip [where k = 8])
    (simp add: zpad_def frame_def)

lemma build_exec_frame:
  "build_exec ref shares = frame (build_head OrderExecuted 1 @ store_be64 ref @ store_be32 shares @ store_be64 7)"
  using base_msg_head [of 33 OrderExecuted 1]
  by (simp add: build_exec_def Let_def builders put_next)
    (simp add: zpad_def frame_def)

lemma build_exec_price_frame:
  "build_exec_price ref shares price pr = frame (build_head OrderExecutedPrice 1 @ store_be64 ref @
     store_be32 shares @ store_be64 7 @ [if pr then 0x59 else 0x4E] @ store_be32 price)"
  using base_msg_head [of 38 OrderExecutedPrice 1]
  by (simp add: build_exec_price_def Let_def builders put_next)
    (simp add: zpad_def frame_def)

lemma build_cancel_frame:
  "build_cancel ref shares = frame (build_head OrderCancel 1 @ store_be64 ref @ store_be32 shares)"
  using base_msg_head [of 25 OrderCancel 1]
  by (simp add: build_cancel_def Let_def builders put_next)
    (simp add: zpad_def frame_def)

lemma build_del_frame: "build_del ref = frame (build_head OrderDelete 1 @ store_be64 ref)"
  using base_msg_head [of 21 OrderDelete 1]
  by (simp add: build_del_def Let_def builders put_next)
    (simp add: zpad_def frame_def)

lemma build_replace_frame:
  "build_replace oref nref shares price = frame (build_head OrderReplace 1 @ store_be64 oref @ store_be64 nref @
     store_be32 shares @ store_be32 price)"
  using base_msg_head [of 37 OrderReplace 1]
  by (simp add: build_replace_def Let_def builders put_next)
    (simp add: zpad_def frame_def)

lemma build_trade_frame:
  "build_trade side shares price = frame (build_head Trade 1 @ store_be64 0 @ [side] @ store_be32 shares @
     replicate 8 0 @ store_be32 price @ store_be64 9)"
  using base_msg_head [of 46 Trade 1]
  by (simp add: build_trade_def Let_def builders put_next put_skip [where k = 8])
    (simp add: zpad_def frame_def)

lemma build_sysevt_frame: "build_sysevt code = frame (build_head SystemEvent 1 @ [code])"
  using base_msg_head [of 14 SystemEvent 1]
  by (simp add: build_sysevt_def Let_def builders put_next)
    (simp add: zpad_def frame_def)

text \<open>
  Every builder gives one whole frame, and the software decoder reads back its arguments; the
  fields a builder does not set are zero.
\<close>

lemma build_decoded:
  "decoded (drop 2 (build_add ref side shares price locate)) = (head_msg AddOrder locate 0)
     \<lparr>dm_order_ref := ref, dm_side := side, dm_shares := shares, dm_price := price\<rparr>"
  "decoded (drop 2 (build_exec ref shares)) = (head_msg OrderExecuted 1 0)
     \<lparr>dm_order_ref := ref, dm_shares := shares, dm_match_number := 7\<rparr>"
  "decoded (drop 2 (build_exec_price ref shares price pr)) = (head_msg OrderExecutedPrice 1 0)
     \<lparr>dm_order_ref := ref, dm_shares := shares, dm_match_number := 7,
      dm_printable := (if pr then 1 else 0), dm_price := price\<rparr>"
  "decoded (drop 2 (build_cancel ref shares)) = (head_msg OrderCancel 1 0)
     \<lparr>dm_order_ref := ref, dm_shares := shares\<rparr>"
  "decoded (drop 2 (build_del ref)) = (head_msg OrderDelete 1 0)\<lparr>dm_order_ref := ref\<rparr>"
  "decoded (drop 2 (build_replace oref nref shares price)) = (head_msg OrderReplace 1 0)
     \<lparr>dm_order_ref := oref, dm_new_order_ref := nref, dm_shares := shares, dm_price := price\<rparr>"
  "decoded (drop 2 (build_trade side shares price)) = (head_msg Trade 1 0)
     \<lparr>dm_side := side, dm_shares := shares, dm_price := price, dm_match_number := 9\<rparr>"
  "decoded (drop 2 (build_sysevt code)) = (head_msg SystemEvent 1 0)\<lparr>dm_event_code := code\<rparr>"
  unfolding build_add_frame build_exec_frame build_exec_price_frame build_cancel_frame build_del_frame
    build_replace_frame build_trade_frame build_sysevt_frame frame_def build_head_def
  by (simp_all add: decoded_head layout) (simp_all add: read_back)

end
