(* ===== verification/GoldenProps.thy ===== *)
theory GoldenProps
  imports GoldenSim ItchBuild
begin

text \<open>
  The golden model of the hardware agrees with the software on whole streams: the orders, the
  totals, the trade statistics and, for one symbol, the prices and levels.
\<close>

subsection \<open>Trade statistics\<close>

lemma golden_vwap_same [simp]:
  "gb_vwap_num (golden_add r d l p q gb) = gb_vwap_num gb" "gb_vwap_den (golden_add r d l p q gb) = gb_vwap_den gb"
  "gb_trade_count (golden_add r d l p q gb) = gb_trade_count gb"
  "gb_vwap_num (golden_reduce r q gb) = gb_vwap_num gb" "gb_vwap_den (golden_reduce r q gb) = gb_vwap_den gb"
  "gb_trade_count (golden_reduce r q gb) = gb_trade_count gb"
  "gb_vwap_num (golden_remove r gb) = gb_vwap_num gb" "gb_vwap_den (golden_remove r gb) = gb_vwap_den gb"
  "gb_trade_count (golden_remove r gb) = gb_trade_count gb"
  by (simp_all add: golden_add_def golden_reduce_def golden_remove_def Let_def set_side_def add_total_def
      sub_total_def split: option.splits)

text \<open>
  The golden model counts every trade print as a trade, the statistics engine only those with
  shares: \<open>n\<close> is the number of prints without shares so far.
\<close>

definition same_trades :: "nat \<Rightarrow> golden_book \<Rightarrow> stats_engine \<Rightarrow> bool" where
  "same_trades n gb st \<longleftrightarrow> gb_vwap_num gb = st_vwap_num st \<and> gb_vwap_den gb = st_vwap_den st \<and>
     gb_trade_count gb = st_trade_count st + of_nat n"

definition empty_print :: "decoded_message \<Rightarrow> bool" where
  "empty_print m \<longleftrightarrow> dm_type m = Trade \<and> dm_shares m = 0"

definition empty_prints :: "decoded_message list \<Rightarrow> nat" where
  "empty_prints ms = length (filter empty_print ms)"

lemma empty_prints_simps [simp]:
  "empty_prints [] = 0" "empty_prints (m # ms) = (if empty_print m then 1 else 0) + empty_prints ms"
  by (simp_all add: empty_prints_def)

lemma stats_no_trade [simp]: "stats_trade no_exec st = st"
  by (simp add: stats_trade_def no_exec_def)

lemma on_message_trades:
  "same_trades n gb (on_message m ex st) = same_trades n gb (stats_trade ex st)"
  "same_trades n gb (on_message m no_exec st) = same_trades n gb st"
  by (simp_all add: on_message_def same_trades_def stats_trade_def stats_time_def no_exec_def Let_def)

lemma on_message_fields [simp]:
  "st_vwap_num (on_message m ex st) = st_vwap_num (stats_trade ex st)"
  "st_vwap_den (on_message m ex st) = st_vwap_den (stats_trade ex st)"
  "st_trade_count (on_message m ex st) = st_trade_count (stats_trade ex st)"
  using on_message_trades(1) [of 0 "empty_golden\<lparr>gb_vwap_num := st_vwap_num (stats_trade ex st),
      gb_vwap_den := st_vwap_den (stats_trade ex st), gb_trade_count := st_trade_count (stats_trade ex st)\<rparr>" m ex st]
  by (simp_all add: same_trades_def)

lemma golden_step_trades:
  assumes inv: "engine_inv e" and agree: "golden_agrees (live e) gb" and same: "same_trades n gb st"
    and acc: "be_status e' = event_status (be_price_levels e) cap (live e) m" "accepted (be_status e')"
  shows "same_trades ((if empty_print m then 1 else 0) + n) (golden_apply (golden_msg m) gb)
    (on_message m (if be_status e' = Applied then exec_of (live e) m else no_exec) st)"
proof -
  let ?r = "dm_order_ref m"
  have orders: "gb_orders gb ?r = map_option to_golden (live e ?r)" by (rule golden_order [OF agree])
  have exec: ?thesis if t: "dm_type m = OrderExecuted \<or> dm_type m = OrderExecutedPrice"
  proof -
    have s: "be_status e' = reduce_status (live e) m" using t acc(1) by (auto simp: event_status_def)
    show ?thesis
    proof (cases "live e ?r")
      case None
      then have "be_status e' \<noteq> Applied" using s by (simp add: reduce_status_def)
      then show ?thesis using None orders t same by (auto simp: golden_apply_def on_message_trades empty_print_def)
    next
      case (Some v)
      then have q: "dm_shares m \<le> ov_shares v" "dm_shares m \<noteq> 0" "be_status e' = Applied"
        using s acc(2) by (auto simp: reduce_status_def accepted_def not_less split: if_splits)
      then show ?thesis
        using t Some orders golden_amount_full [OF q(1)] same
        by (auto simp: golden_apply_def on_message_trades exec_of_def stats_trade_def same_trades_def
            golden_trade_def word_neq_0_conv empty_print_def Let_def)
    qed
  qed
  have "same_trades n (golden_apply (golden_msg m) gb) (on_message m no_exec st)"
    if "dm_type m \<notin> {OrderExecuted, OrderExecutedPrice, Trade}"
    using that same orders
    by (cases "dm_type m") (auto simp: golden_apply_def on_message_trades same_trades_def split: option.splits)
  moreover have "dm_type m = Trade \<Longrightarrow> be_status e' = Applied" using acc(1) by (simp add: event_status_def)
  ultimately show ?thesis
    using exec same
    by (cases "dm_type m") (auto simp: exec_of_def golden_apply_def on_message_trades stats_trade_def
        same_trades_def golden_trade_def word_neq_0_conv empty_print_def)
qed

subsection \<open>Runs\<close>

text \<open>The engine with its statistics, as the replay program feeds them.\<close>

fun run_stats :: "decoded_message list \<Rightarrow> book_engine \<times> stats_engine \<Rightarrow> (book_engine \<times> stats_engine) option" where
  "run_stats [] es = Some es"
| "run_stats (m # ms) (e, st) = do {
     (e', bk, ex) \<leftarrow> apply_msg m e;
     run_stats ms (e', on_message m ex st)
   }"

lemma golden_run:
  "engine_inv e \<Longrightarrow> golden_agrees (live e) gb \<Longrightarrow> same_trades n gb st \<Longrightarrow> accepted_run ms e \<Longrightarrow>
     \<exists>e' st'. run_stats ms (e, st) = Some (e', st') \<and> run_engine ms e = Some e' \<and> engine_inv e' \<and>
       golden_agrees (live e') (fold golden_apply (map golden_msg ms) gb) \<and>
       same_trades (empty_prints ms + n) (fold golden_apply (map golden_msg ms) gb) st'"
proof (induction ms arbitrary: e gb st n)
  case (Cons m ms)
  obtain e1 bk ex where m: "apply_msg m e = Some (e1, bk, ex)" "accepted (be_status e1)" "accepted_run ms e1"
    using Cons.prems(4) by (auto split: option.splits)
  note step = apply_msg_Some [OF Cons.prems(1) m(1)]
  have st: "be_status e1 = event_status (be_price_levels e) (rt_cap (be_refs e)) (live e) m"
    using step by (simp add: steps_to_def)
  have agree: "golden_agrees (live e1) (golden_apply (golden_msg m) gb)"
    using golden_step [OF Cons.prems(1,2) st m(2)] step st by (simp add: steps_to_def)
  have "ex = (if be_status e1 = Applied then exec_of (live e) m else no_exec)"
    using apply_exec [OF Cons.prems(1), of m] m(1) by (simp add: reports_def)
  then have trades: "same_trades ((if empty_print m then 1 else 0) + n) (golden_apply (golden_msg m) gb) (on_message m ex st)"
    using golden_step_trades [OF Cons.prems(1,2,3) st m(2)] by simp
  obtain e' st' where "run_stats ms (e1, on_message m ex st) = Some (e', st')" "run_engine ms e1 = Some e'"
    "engine_inv e'" "golden_agrees (live e') (fold golden_apply (map golden_msg ms) (golden_apply (golden_msg m) gb))"
    "same_trades (empty_prints ms + ((if empty_print m then 1 else 0) + n))
       (fold golden_apply (map golden_msg ms) (golden_apply (golden_msg m) gb)) st'"
    using Cons.IH [OF apply_msg_inv [OF Cons.prems(1) m(1)] agree trades m(3)] by auto
  then show ?case using m(1) by (auto simp: add_ac)
qed auto

subsection \<open>Prices and levels of one symbol\<close>

definition one_symbol :: "orders \<Rightarrow> u16 \<Rightarrow> bool" where
  "one_symbol os loc \<longleftrightarrow> (\<forall>r v. os r = Some v \<longrightarrow> ov_locate v = loc)"

lemma flat_view_one:
  assumes "one_symbol os loc"
  shows "flat_view os s = level_view os loc s"
proof -
  have "level_sum w (flat os) 0 s p = level_sum w os loc s p" if w: "\<And>v. w (v\<lparr>ov_locate := 0\<rparr>) = w v" for w p
    unfolding level_sum_def
  proof (rule sum.cong)
    fix r assume "r \<in> dom os"
    then obtain v where "os r = Some v" by auto
    then show "contrib w (the (flat os r)) 0 s p = contrib w (the (os r)) loc s p"
      using assms w by (simp add: flat_def one_symbol_def contrib_def rests_at_def)
  qed simp
  then show ?thesis by (simp add: fun_eq_iff flat_view_def level_view_def qty_def one_def)
qed

definition same_book :: "golden_book \<Rightarrow> order_book \<Rightarrow> bool" where
  "same_book gb b \<longleftrightarrow>
     golden_best_bid_price gb = ob_best_bid b \<and> golden_best_ask_price gb = ob_best_ask b \<and>
     (\<forall>p. level_shares True p gb = ucast (bid_shares_at b p) \<and> level_shares False p gb = ucast (ask_shares_at b p))"

lemma level_shares_map:
  "level_shares d p gb = (case map_option gl_shares (RBT.lookup (golden_side d gb) p) of None \<Rightarrow> 0 | Some n \<Rightarrow> n)"
  by (simp add: level_shares_def split: option.splits)

lemma golden_lookup:
  assumes inv: "engine_inv e" and agree: "golden_agrees (live e) gb" and one: "one_symbol (live e) loc"
  shows "book_inv (book_of e loc)"
    and "map_option gl_shares (RBT.lookup (gb_bids gb) p) =
      (if bid_shares_at (book_of e loc) p = 0 then None else Some (ucast (bid_shares_at (book_of e loc) p)))"
    and "map_option gl_shares (RBT.lookup (gb_asks gb) p) =
      (if ask_shares_at (book_of e loc) p = 0 then None else Some (ucast (ask_shares_at (book_of e loc) p)))"
proof -
  let ?b = "book_of e loc"
  have b: "book_agrees (be_price_levels e) (live e) loc ?b" by (rule engine_invD [OF inv])
  then show binv: "book_inv ?b" by (simp add: book_agrees_def)
  have v: "fst (flat_view (live e) SIDE_BUY p) = unat (bid_shares_at ?b p)"
    "fst (flat_view (live e) SIDE_SELL p) = unat (ask_shares_at ?b p)" for p
    using b shares_at_view [OF binv] by (simp_all add: flat_view_one [OF one] book_agrees_def is_side_def)
  have "levels_agree (flat_view (live e) (side_code d)) (golden_side d gb)" for d
    using agree by (simp add: golden_agrees_def)
  from this [of True] this [of False]
  show "map_option gl_shares (RBT.lookup (gb_bids gb) p) =
      (if bid_shares_at ?b p = 0 then None else Some (ucast (bid_shares_at ?b p)))"
    "map_option gl_shares (RBT.lookup (gb_asks gb) p) =
      (if ask_shares_at ?b p = 0 then None else Some (ucast (ask_shares_at ?b p)))"
    by (simp_all add: levels_agree_def side_code_def golden_side_def v unat_eq_0)
qed

lemma golden_answers:
  assumes inv: "engine_inv e" and agree: "golden_agrees (live e) gb" and one: "one_symbol (live e) loc"
  shows "same_book gb (book_of e loc)"
proof -
  let ?b = "book_of e loc"
  note binv = golden_lookup(1) [OF assms] and look = golden_lookup(2,3) [OF assms]
  have keys: "set (RBT.keys (gb_bids gb)) = {p. bid_shares_at ?b p \<noteq> 0}"
    "set (RBT.keys (gb_asks gb)) = {p. ask_shares_at ?b p \<noteq> 0}"
  proof -
    have "p \<in> dom (RBT.lookup (gb_bids gb)) \<longleftrightarrow> bid_shares_at ?b p \<noteq> 0" for p
      using look(1) [of p] by (auto split: if_splits)
    moreover have "p \<in> dom (RBT.lookup (gb_asks gb)) \<longleftrightarrow> ask_shares_at ?b p \<noteq> 0" for p
      using look(2) [of p] by (auto split: if_splits)
    ultimately show "set (RBT.keys (gb_bids gb)) = {p. bid_shares_at ?b p \<noteq> 0}"
      "set (RBT.keys (gb_asks gb)) = {p. ask_shares_at ?b p \<noteq> 0}"
      by (auto simp: RBT.lookup_keys [symmetric])
  qed
  have bid: "golden_best_bid_price gb = ob_best_bid ?b"
  proof (cases "RBT.keys (gb_bids gb)")
    case Nil
    then show ?thesis using keys(1) best_bid_max [OF binv] by (simp add: golden_best_bid_price_def)
  next
    case (Cons k ks)
    then have "\<not> (\<forall>p. bid_shares_at ?b p = 0)" using keys(1) by auto
    then have "ob_best_bid ?b = Max (set (RBT.keys (gb_bids gb)))"
      using best_bid_max [OF binv] by (simp only: keys(1) if_False)
    then show ?thesis
      using sorted_last_Max [OF RBT.sorted_keys, of "gb_bids gb"] Cons by (simp add: golden_best_bid_price_def)
  qed
  have ask: "golden_best_ask_price gb = ob_best_ask ?b"
  proof (cases "RBT.keys (gb_asks gb)")
    case Nil
    then show ?thesis using keys(2) best_ask_min [OF binv] by (simp add: golden_best_ask_price_def)
  next
    case (Cons k ks)
    then have "\<not> (\<forall>p. ask_shares_at ?b p = 0)" using keys(2) by auto
    then have "ob_best_ask ?b = Min (set (RBT.keys (gb_asks gb)))"
      using best_ask_min [OF binv] by (simp only: keys(2) if_False)
    moreover have "sorted (k # ks)" using RBT.sorted_keys [of "gb_asks gb"] Cons by simp
    then have "k = Min (set (RBT.keys (gb_asks gb)))" unfolding Cons by (rule sorted_hd_Min)
    moreover have "golden_best_ask_price gb = k" using Cons by (simp add: golden_best_ask_price_def)
    ultimately show ?thesis by (simp only:)
  qed
  have "level_shares True p gb = ucast (bid_shares_at ?b p) \<and> level_shares False p gb = ucast (ask_shares_at ?b p)" for p
    unfolding level_shares_map golden_side_def if_True if_False look by simp
  then show ?thesis using bid ask by (simp add: same_book_def)
qed

subsection \<open>The two models of the hardware and the software\<close>

lemma empty_golden_agrees: "golden_agrees Map.empty empty_golden"
  by (simp add: golden_agrees_def empty_golden_def fun_eq_iff levels_agree_def golden_side_def golden_total_def
      flat_view_def level_view_def flat_def side_sum_def level_sum_def)

lemma those_map: "list_all (\<lambda>x. f x = Some (g x)) xs \<Longrightarrow> those (map f xs) = Some (map g xs)"
  by (induction xs) auto

lemma built_add: "decoded (drop 2 (build_add 7 SIDE_BUY 100 5 1)) = add_msg 7 SIDE_BUY 5 100"
  unfolding build_decoded by (simp add: head_msg_def add_msg_def empty_message_def)

text \<open>One trade print with shares and one without.\<close>

definition print_pair :: "bytes list" where
  "print_pair = [drop 2 (build_trade SIDE_BUY 100 5), drop 2 (build_trade SIDE_BUY 0 5)]"

lemma print_pair_decoded: "map decoded print_pair =
    [(head_msg Trade 1 0)\<lparr>dm_side := SIDE_BUY, dm_shares := 100, dm_price := 5, dm_match_number := 9\<rparr>,
     (head_msg Trade 1 0)\<lparr>dm_side := SIDE_BUY, dm_shares := 0, dm_price := 5, dm_match_number := 9\<rparr>]"
  unfolding print_pair_def list.map build_decoded ..

lemma print_pair_accepted: "accepted_run (map decoded print_pair) e"
  by (simp add: print_pair_decoded apply_msg_def head_msg_def accepted_def Let_def)

text \<open>
  Property C27. The golden model of the hardware tests agrees with the software. On every
  sequence of bodies that are all known messages and that the new engine accepts: the model's
  own decoder reads every body in bounds; the two hold the same orders; the model's running
  totals are the shares resting on each side; its average price is that of the statistics
  engine, and its trade count that of the statistics engine and the number of trade prints
  without shares, which only the model counts; and when all orders are of one symbol its best
  prices and all its levels are those of that symbol's book.
\<close>

theorem golden_matches_engine:
  assumes "list_all (\<lambda>b. dm_type (decoded b) \<noteq> Unknown) bs"
    and "engine_init lv cap = Some e0" "accepted_run (map decoded bs) e0"
  shows "\<exists>ms e st. those (map golden_decode bs) = Some ms \<and>
    run_stats (map decoded bs) (e0, no_stats) = Some (e, st) \<and>
    (let gb = fold golden_apply ms empty_golden; os = table_map (be_refs e)
     in gb_orders gb = (\<lambda>r. map_option to_golden (os r)) \<and>
        gb_tot_bid gb = of_nat (side_sum os SIDE_BUY) \<and> gb_tot_ask gb = of_nat (side_sum os SIDE_SELL) \<and>
        gb_vwap_num gb = st_vwap_num st \<and> gb_vwap_den gb = st_vwap_den st \<and>
        gb_trade_count gb = st_trade_count st + of_nat (empty_prints (map decoded bs)) \<and>
        (\<forall>loc b. one_symbol os loc \<longrightarrow> be_books e loc = Some b \<longrightarrow> same_book gb b))"
proof -
  note init = engine_init_inv [OF assms(2)]
  let ?gb = "fold golden_apply (map golden_msg (map decoded bs)) empty_golden"
  have "same_trades 0 empty_golden no_stats" by (simp add: same_trades_def empty_golden_def no_stats_def)
  then obtain e st where run: "run_stats (map decoded bs) (e0, no_stats) = Some (e, st)" "engine_inv e"
    "golden_agrees (live e) ?gb" "same_trades (empty_prints (map decoded bs)) ?gb st"
    using golden_run [OF init(1) _ _ assms(3), of empty_golden 0 no_stats] init(2) empty_golden_agrees by auto
  have "those (map golden_decode bs) = Some (map golden_msg (map decoded bs))"
    using those_map [of golden_decode "golden_msg \<circ> decoded" bs] assms(1) golden_decode_known
    by (simp add: list_all_iff)
  moreover have "same_book ?gb b" if "one_symbol (live e) loc" "be_books e loc = Some b" for loc b
    using golden_answers [OF run(2,3) that(1)] that(2) by (simp add: book_of_def)
  moreover have "golden_total d ?gb = of_nat (side_sum (live e) (side_code d))" for d
    using run(3) by (simp add: golden_agrees_def)
  from this [of True] this [of False]
  have "gb_tot_bid ?gb = of_nat (side_sum (live e) SIDE_BUY)" "gb_tot_ask ?gb = of_nat (side_sum (live e) SIDE_SELL)"
    by (simp_all add: golden_total_def side_code_def)
  ultimately show ?thesis
    using run golden_order [OF run(3)] by (auto simp: same_trades_def Let_def fun_eq_iff)
qed

theorem golden_matches_engine_witness:
  "\<exists>e st. run_stats (map decoded print_pair) (one_slot_engine, no_stats) = Some (e, st) \<and>
     (\<exists>ms. those (map golden_decode print_pair) = Some ms \<and>
       gb_vwap_den (fold golden_apply ms empty_golden) = st_vwap_den st \<and>
       gb_trade_count (fold golden_apply ms empty_golden) = st_trade_count st + 1)"
proof -
  have known: "list_all (\<lambda>b. dm_type (decoded b) \<noteq> Unknown) print_pair"
    unfolding list_all_iff using print_pair_decoded
    by (auto simp: print_pair_def build_decoded head_msg_def)
  have "empty_prints (map decoded print_pair) = 1"
    by (simp add: print_pair_decoded empty_print_def head_msg_def)
  then show ?thesis
    using golden_matches_engine [OF known one_slot_init print_pair_accepted] by (auto simp: Let_def)
qed

end
