(* ===== verification/SimStreams.thy ===== *)
theory SimStreams
  imports MoldProps
begin

text \<open>
  The stream helpers of the hardware tests: \<open>split_messages\<close> and \<open>reserialize\<close> of
  \<open>src/sim/itch_file_reader.cpp\<close> and the packet builders of \<open>src/sim/mold_build.hpp\<close>. They are
  written independently of the parsers of \<open>sw/\<close>; the lemmas show that the two sides mean the
  same streams.
\<close>

subsection \<open>Splitting and joining\<close>

text \<open>
  The loop of \<open>split_messages\<close> over what is left of the buffer, with the messages found so far;
  \<open>max_msgs = 0\<close> is no limit.
\<close>

function split_loop :: "bytes \<Rightarrow> nat \<Rightarrow> nat \<Rightarrow> bytes list \<Rightarrow> bytes list" where
  "split_loop s max_msgs i msgs =
     (if i + 2 \<le> length s
      then (let len = push_bit 8 (ucast (s ! i)) OR ucast (s ! (i + 1)) :: u16
            in if len = 0 \<or> i + 2 + unat len > length s then msgs
               else (let msgs' = msgs @ [take (unat len) (drop (i + 2) s)]
                     in if max_msgs \<noteq> 0 \<and> length msgs' \<ge> max_msgs then msgs'
                        else split_loop s max_msgs (i + (2 + unat len)) msgs'))
      else msgs)"
  by pat_completeness auto
termination
  by (relation "measure (\<lambda>(s, m, i, msgs). length s - i)") auto

declare split_loop.simps [simp del]

definition split_messages :: "bytes \<Rightarrow> nat \<Rightarrow> bytes list" where
  "split_messages s max_msgs = split_loop s max_msgs 0 []"

definition reserialize :: "bytes list \<Rightarrow> bytes" where
  "reserialize msgs = concat (map (\<lambda>body.
     let len = of_nat (length body) :: u16 in [ucast (drop_bit 8 len), ucast (len AND 0xFF)] @ body) msgs)"

lemma split_loop_frames:
  "(m = 0 \<or> length msgs < m) \<Longrightarrow>
   split_loop s m i msgs = msgs @ (if m = 0 then frames (drop i s) else take (m - length msgs) (frames (drop i s)))"
proof (induction s m i msgs rule: split_loop.induct)
  case (1 s m i msgs)
  show ?case
  proof (cases "i + 2 \<le> length s")
    case False
    then show ?thesis by (subst split_loop.simps) (simp add: frames_short)
  next
    case True
    define n where "n = unat (be16 (take 2 (drop i s)))"
    have two: "take 2 (drop i s) = [s ! i, s ! (i + 1)]"
      using True by (simp add: numeral_2_eq_2 take_Suc_conv_app_nth)
    have len: "push_bit 8 (ucast (s ! i)) OR ucast (s ! (i + 1)) = be16 (take 2 (drop i s))"
      unfolding two by (rule be16_pair)
    have unfold: "split_loop s m i msgs =
        (if be16 (take 2 (drop i s)) = 0 \<or> i + 2 + n > length s then msgs
         else (let msgs' = msgs @ [take n (drop (i + 2) s)]
               in if m \<noteq> 0 \<and> length msgs' \<ge> m then msgs' else split_loop s m (i + (2 + n)) msgs'))"
      unfolding split_loop.simps [of s m i msgs] if_P [OF True] len Let_def n_def ..
    note fr = frames_drop [OF True n_def]
    show ?thesis
    proof (cases "n = 0 \<or> i + 2 + n > length s")
      case stop: True
      then show ?thesis
        using fr unfolding unfold by (auto simp: n_def unat_eq_0)
    next
      case go: False
      let ?msgs = "msgs @ [take n (drop (i + 2) s)]"
      have ne: "be16 (take 2 (drop i s)) \<noteq> 0" using go by (auto simp: n_def unat_eq_0)
      have fr': "frames (drop i s) = take n (drop (i + 2) s) # frames (drop (i + 2 + n) s)"
        using fr go by simp
      have step: "split_loop s m i msgs =
          (if m \<noteq> 0 \<and> length ?msgs \<ge> m then ?msgs else split_loop s m (i + (2 + n)) ?msgs)"
        using go ne unfolding unfold by (simp add: Let_def)
      show ?thesis
      proof (cases "m \<noteq> 0 \<and> length ?msgs \<ge> m")
        case True
        then have "m - length msgs = Suc 0" using 1(2) by auto
        then show ?thesis using step True fr' by (simp add: if_P)
      next
        case False
        then have "split_loop s m (i + (2 + n)) ?msgs =
            ?msgs @ (if m = 0 then frames (drop (i + (2 + n)) s)
              else take (m - length ?msgs) (frames (drop (i + (2 + n)) s)))"
          using 1(1) [OF True len [symmetric] _ refl] go ne by (auto simp: n_def)
        moreover have "m = 0 \<or> m - length msgs = Suc (m - length ?msgs)" using False by auto
        ultimately show ?thesis using step False fr' by (auto simp: add.assoc)
      qed
    qed
  qed
qed

lemma split_messages_frames:
  "split_messages s m = (if m = 0 then frames s else take m (frames s))"
  by (simp add: split_messages_def split_loop_frames)

lemma reserialize_framed: "reserialize msgs = framed msgs"
  by (simp add: reserialize_def framed_def frame_def Let_def store_be16_conv le_of_word_def ucast_low_byte
      numeral_2_eq_2 cong: map_cong)

subsection \<open>Packets\<close>

definition mold_header :: "u64 \<Rightarrow> u16 \<Rightarrow> bytes" where
  "mold_header seq count =
     (let h = foldl (\<lambda>h i. h[10 + i := ucast (drop_bit (8 * (7 - i)) seq)]) (replicate 20 0x53) [0..<8]
      in h[18 := ucast (drop_bit 8 count), 19 := ucast (count AND 0xFF)])"

definition mold_packet :: "u64 \<Rightarrow> bytes list \<Rightarrow> bytes" where
  "mold_packet seq msgs = mold_header seq (of_nat (length msgs)) @ concat msgs"

definition mold_heartbeat :: "u64 \<Rightarrow> bytes" where
  "mold_heartbeat seq = mold_header seq 0"

definition mold_session_end :: "u64 \<Rightarrow> bytes" where
  "mold_session_end seq = mold_header seq 0xFFFF"

definition udp_wrap :: "bytes \<Rightarrow> bytes" where
  "udp_wrap payload = replicate 42 0xEE @ payload"

lemma strip_udp_wrap: "p \<noteq> [] \<Longrightarrow> strip_udp (udp_wrap p) = Some p"
  by (simp add: strip_udp_def udp_wrap_def layout)

lemma mold_header_bytes: "mold_header seq cnt = replicate 10 0x53 @ store_be64 seq @ store_be16 cnt"
proof -
  have "[0..<8] = [0, 1, 2, 3, 4, 5, 6, 7 :: nat]" by (simp add: upt_rec)
  then show ?thesis
    by (simp add: mold_header_def Let_def store_be64_conv store_be16_conv le_of_word_def ucast_low_byte
        numeral_eq_Suc)
qed

text \<open>
  A packet of the hardware tests is the packet that \<open>mold_wrap\<close> writes for the same messages,
  under another session name, which no reader looks at.
\<close>

lemma mold_packet_session:
  "mold_packet seq (map frame bodies) = replicate 10 0x53 @ drop 10 (mold_pkt (seq, bodies))"
  by (simp add: mold_packet_def mold_header_bytes mold_pkt_def put_header_def put_be64_store put_be16_store
      mold_session_def framed_def)

end
