(* ===== verification/Receiver.thy ===== *)
theory Receiver
  imports ItchParser
begin

text \<open>
  The file receiver of \<open>src/sw/receiver/replay_receiver.hpp\<close>: \<open>deliver_packets\<close> hands out the
  stream in datagrams that end at message boundaries. The callback is the list of the payloads
  it is called with. The lemmas show that the datagrams are groups of whole frames, in order,
  and that nothing is lost.
\<close>

text \<open>The inner loop, from offset \<open>off\<close> with \<open>pkt\<close> bytes gathered: where it stops, and the bytes.\<close>

function gather :: "bytes \<Rightarrow> nat \<Rightarrow> nat \<Rightarrow> nat \<Rightarrow> (nat \<times> nat) option" where
  "gather d max_bytes off pkt =
     (if off + 2 \<le> length d
      then do {
        blen \<leftarrow> be16_at d off;
        let msz = 2 + unat blen;
        (if blen = 0 \<or> off + msz > length d then Some (length d, pkt)
         else if pkt \<noteq> 0 \<and> pkt + msz > max_bytes then Some (off, pkt)
         else gather d max_bytes (off + msz) (pkt + msz))
      }
      else Some (off, pkt))"
  by pat_completeness auto
termination
  by (relation "measure (\<lambda>(d, m, off, pkt). length d - off)") auto

declare gather.simps [simp del]

lemma gather_moves:
  "gather d m off pkt = Some (off', pkt') \<Longrightarrow> off \<le> length d \<Longrightarrow>
   off \<le> off' \<and> off' \<le> length d \<and> pkt \<le> pkt' \<and> off + (pkt' - pkt) \<le> off'"
proof (induction d m off pkt rule: gather.induct)
  case (1 d m off pkt)
  show ?case
  proof (cases "off + 2 \<le> length d")
    case False
    then show ?thesis using 1(2,3) by (subst (asm) gather.simps) auto
  next
    case True
    define blen where "blen = be16 (take 2 (drop off d))"
    have bl: "be16_at d off = Some blen" using True by (simp add: blen_def)
    show ?thesis
    proof (cases "blen = 0 \<or> off + (2 + unat blen) > length d \<or> pkt \<noteq> 0 \<and> pkt + (2 + unat blen) > m")
      case stop: True
      then show ?thesis using 1(2,3) True bl by (subst (asm) gather.simps) (auto simp: Let_def split: if_splits)
    next
      case False
      then have "gather d m (off + (2 + unat blen)) (pkt + (2 + unat blen)) = Some (off', pkt')"
        using 1(2) True bl by (subst (asm) gather.simps) (auto simp: Let_def split: if_splits)
      from 1(1) [OF True bl refl _ _ this] False show ?thesis by auto
    qed
  qed
qed

text \<open>The outer loop; it ends when no frame was gathered.\<close>

function deliver_from :: "bytes \<Rightarrow> nat \<Rightarrow> nat \<Rightarrow> bytes list option" where
  "deliver_from d max_bytes off =
     (if off < length d
      then case gather d max_bytes off 0 of
             None \<Rightarrow> None
           | Some (off', pkt) \<Rightarrow>
               if pkt = 0 then Some []
               else do {
                 payload \<leftarrow> read_at d off pkt;
                 rest \<leftarrow> deliver_from d max_bytes off';
                 Some (payload # rest)
               }
      else Some [])"
  by pat_completeness auto
termination
  by (relation "measure (\<lambda>(d, m, off). length d - off)") (auto dest!: gather_moves)

declare deliver_from.simps [simp del]

definition deliver_packets :: "nat \<Rightarrow> bytes \<Rightarrow> bytes list option" where
  "deliver_packets max_bytes d = deliver_from d max_bytes 0"

subsection \<open>Datagrams are groups of frames\<close>

text \<open>
  The specification: the bodies that go into the first datagram of a list of bodies, when
  \<open>pkt\<close> bytes are already gathered.
\<close>

fun first_group :: "nat \<Rightarrow> nat \<Rightarrow> bytes list \<Rightarrow> bytes list \<times> bytes list" where
  "first_group m pkt [] = ([], [])"
| "first_group m pkt (b # bs) =
     (if pkt \<noteq> 0 \<and> pkt + (2 + length b) > m then ([], b # bs)
      else (case first_group m (pkt + (2 + length b)) bs of (g, rest) \<Rightarrow> (b # g, rest)))"

lemma first_group_split: "first_group m pkt bs = (g, rest) \<Longrightarrow> bs = g @ rest"
  by (induction m pkt bs arbitrary: g rest rule: first_group.induct) (auto split: if_splits prod.splits)

lemma first_group_size:
  "first_group m pkt bs = (g, rest) \<Longrightarrow> pkt \<noteq> 0 \<Longrightarrow> g = [] \<or> pkt + length (framed g) \<le> m"
proof (induction m pkt bs arbitrary: g rest rule: first_group.induct)
  case (2 m pkt b bs)
  then show ?case by (fastforce split: if_splits prod.splits)
qed simp

lemma gather_group:
  "off \<le> length d \<Longrightarrow>
   \<exists>off'. gather d m off pkt =
       Some (off', pkt + length (framed (fst (first_group m pkt (frames (drop off d)))))) \<and>
     off' \<le> length d \<and> frames (drop off' d) = snd (first_group m pkt (frames (drop off d)))"
proof (induction d m off pkt rule: gather.induct)
  case (1 d m off pkt)
  show ?case
  proof (cases "off + 2 \<le> length d")
    case False
    then show ?thesis using 1(2) by (subst gather.simps) (simp add: frames_short)
  next
    case True
    define blen where "blen = be16 (take 2 (drop off d))"
    define n where "n = unat blen"
    have bl: "be16_at d off = Some blen" using True by (simp add: blen_def)
    have zero: "blen = 0 \<longleftrightarrow> n = 0" by (simp add: n_def unat_eq_0)
    have n: "n = unat (be16 (take 2 (drop off d)))" by (simp add: n_def blen_def)
    note fr = frames_drop [OF True n]
    show ?thesis
    proof (cases "n = 0 \<or> off + 2 + n > length d")
      case stop: True
      then have "frames (drop off d) = []" using fr by simp
      then show ?thesis
        using True bl stop zero by (subst gather.simps) (auto simp: Let_def n_def [symmetric])
    next
      case go: False
      define body where "body = take n (drop (off + 2) d)"
      have b: "frames (drop off d) = body # frames (drop (off + (2 + n)) d)" "length body = n"
        using fr go by (auto simp: body_def add.assoc min_absorb2)
      show ?thesis
      proof (cases "pkt \<noteq> 0 \<and> pkt + (2 + n) > m")
        case True
        then show ?thesis
          using \<open>off + 2 \<le> length d\<close> bl go zero 1(2) unfolding b
          by (subst gather.simps) (auto simp: Let_def n_def [symmetric] b)
      next
        case False
        have step: "gather d m off pkt = gather d m (off + (2 + n)) (pkt + (2 + n))"
          using True bl go zero False by (subst gather.simps) (auto simp: Let_def n_def [symmetric])
        obtain g rest where g: "first_group m (pkt + (2 + n)) (frames (drop (off + (2 + n)) d)) = (g, rest)"
          by (metis prod.exhaust)
        have group: "first_group m pkt (frames (drop off d)) = (body # g, rest)"
          unfolding b(1) using False g by (simp add: b(2))
        have "\<exists>off'. gather d m (off + (2 + n)) (pkt + (2 + n)) = Some (off', pkt + (2 + n) + length (framed g)) \<and>
            off' \<le> length d \<and> frames (drop off' d) = rest"
          using 1(1) [OF True bl refl, folded n_def] go zero False g by auto
        then show ?thesis unfolding step group by (auto simp: b(2) add.assoc)
      qed
    qed
  qed
qed

text \<open>The groups of a list of bodies: each as large as fits, and at least one body.\<close>

function groups :: "nat \<Rightarrow> bytes list \<Rightarrow> bytes list list" where
  "groups m bs = (if bs = [] then [] else (case first_group m 0 bs of (g, rest) \<Rightarrow> g # groups m rest))"
  by pat_completeness auto
termination
proof (relation "measure (\<lambda>(m, bs). length bs)", goal_cases)
  case (2 m bs g rest)
  then obtain b bs' where "bs = b # bs'" by (cases bs) auto
  then show ?case using 2 by (auto dest!: first_group_split split: prod.splits)
qed simp

declare groups.simps [simp del]

lemma deliver_from_groups:
  "off \<le> length d \<Longrightarrow> deliver_from d m off = Some (map framed (groups m (frames (drop off d))))"
proof (induction d m off rule: deliver_from.induct)
  case (1 d m off)
  show ?case
  proof (cases "off < length d")
    case False
    then show ?thesis by (subst deliver_from.simps, subst groups.simps) simp
  next
    case True
    obtain g rest where g: "first_group m 0 (frames (drop off d)) = (g, rest)" by (metis prod.exhaust)
    obtain off' where off': "gather d m off 0 = Some (off', length (framed g))" "off' \<le> length d"
      "frames (drop off' d) = rest"
      using gather_group [of off d m 0] True g by auto
    show ?thesis
    proof (cases "frames (drop off d)")
      case Nil
      then show ?thesis
        using True off'(1) g by (subst deliver_from.simps, subst groups.simps) simp
    next
      case (Cons b bs)
      then have ne: "g \<noteq> []" "frames (drop off d) = g @ rest"
        using g first_group_split [OF g] by (auto split: prod.splits)
      then have pos: "length (framed g) \<noteq> 0" by (cases g) auto
      obtain tail where tail: "drop off d = framed (g @ rest) @ tail"
        using framed_frames_prefix [of "drop off d"] ne(2) by auto
      have "length (drop off d) = length (framed g) + length (framed rest) + length tail"
        unfolding tail by (simp add: framed_def)
      then have "off + length (framed g) \<le> length d" using True by simp
      moreover have "take (length (framed g)) (drop off d) = framed g" unfolding tail by (simp add: framed_def)
      ultimately have payload: "read_at d off (length (framed g)) = Some (framed g)" by simp
      have "deliver_from d m off' = Some (map framed (groups m rest))"
        using 1(1) [OF True off'(1) refl pos payload off'(2)] off'(3) by simp
      then show ?thesis
        using True off'(1) pos payload g Cons by (subst deliver_from.simps, subst groups.simps) simp
    qed
  qed
qed

lemma groups_concat: "concat (groups m bs) = bs"
proof (induction m bs rule: groups.induct)
  case (1 m bs)
  show ?case
  proof (cases "bs = []")
    case False
    obtain g rest where g: "first_group m 0 bs = (g, rest)" by (metis prod.exhaust)
    show ?thesis using 1 [OF False g [symmetric]] g False first_group_split [OF g] by (subst groups.simps) simp
  qed (simp add: groups.simps)
qed

lemma groups_sizes: "g \<in> set (groups m bs) \<Longrightarrow> g \<noteq> [] \<and> (length (framed g) \<le> m \<or> length g = 1)"
proof (induction m bs rule: groups.induct)
  case (1 m bs)
  show ?case
  proof (cases bs)
    case Nil
    then show ?thesis using 1(2) by (simp add: groups.simps)
  next
    case (Cons b bs')
    obtain g1 rest where g1: "first_group m (2 + length b) bs' = (g1, rest)" by (metis prod.exhaust)
    then have g: "first_group m 0 bs = (b # g1, rest)" using Cons by simp
    have "length (framed (b # g1)) \<le> m \<or> length (b # g1) = 1"
      using first_group_size [OF g1] by auto
    moreover have "g = b # g1 \<or> g \<in> set (groups m rest)"
      using 1(2) g Cons by (subst (asm) groups.simps) simp
    ultimately show ?thesis using 1(1) [OF _ g [symmetric]] Cons by auto
  qed
qed

text \<open>
  Property C33. Packet delivery loses nothing. For every stream and packet size the receiver
  returns, without a read out of bounds; each payload consists of at least one whole frame and is
  at most the packet size long unless it is a single frame; and the frames of the payloads, each
  parsed on its own, are together exactly the frames of the stream, in order.
\<close>

theorem packets_are_frames:
  "\<exists>payloads. deliver_packets m d = Some payloads \<and>
     concat (map frames payloads) = frames d \<and>
     (\<forall>p\<in>set payloads. frames p \<noteq> [] \<and> framed (frames p) = p \<and> (length p \<le> m \<or> length (frames p) = 1))"
proof -
  let ?gs = "groups m (frames d)"
  have "deliver_packets m d = Some (map framed ?gs)"
    using deliver_from_groups [of 0 d m] by (simp add: deliver_packets_def)
  moreover have refr: "frames (framed g) = g" if "g \<in> set ?gs" for g
  proof -
    have "set g \<subseteq> set (frames d)" using that groups_concat [of m "frames d"] by (metis Union_upper set_concat image_eqI)
    then have "list_all frameable g" using frames_frameable [of d] by (auto simp: list_all_iff)
    then show ?thesis using frames_framed [of g "[]"] by simp
  qed
  moreover have "concat (map frames (map framed ?gs)) = frames d"
    using refr groups_concat [of m "frames d"] by (simp add: comp_def cong: map_cong)
  ultimately show ?thesis using groups_sizes by (intro exI [of _ "map framed ?gs"]) auto
qed

theorem packets_are_frames_witness:
  "\<exists>ps. deliver_packets 4 [0, 1, 65, 0, 1, 66, 9] = Some ps \<and> concat (map frames ps) = [[65], [66]] \<and>
     (\<forall>p\<in>set ps. length p \<le> 4 \<or> length (frames p) = 1)"
proof -
  have "frames [0, 1, 65, 0, 1, 66, 9] = [[65], [66]]" by code_simp
  then show ?thesis using packets_are_frames [of 4 "[0, 1, 65, 0, 1, 66, 9]"] by auto
qed

end
