(* ===== verification/CStrings.thy ===== *)
theory CStrings
  imports Prelude "HOL-Library.Char_ord"
begin

text \<open>
  The number conversions of the C library that the command lines use.
\<close>

text \<open>
  The conversions of the C library: blanks, a sign, the longest run of digits. \<open>strtoull\<close> stops
  at the largest value and negates modulo the width; \<open>atoi\<close> is undefined beyond its type.
\<close>

definition is_blank :: "char \<Rightarrow> bool" where
  "is_blank c \<longleftrightarrow> c = CHR 0x20 \<or> (9 \<le> (of_char c :: nat) \<and> (of_char c :: nat) \<le> 13)"

definition is_digit :: "char \<Rightarrow> bool" where
  "is_digit c \<longleftrightarrow> 48 \<le> (of_char c :: nat) \<and> (of_char c :: nat) \<le> 57"

definition read_decimal :: "string \<Rightarrow> bool \<times> nat" where
  "read_decimal s =
     (let s1 = dropWhile is_blank s;
          signed = (s1 \<noteq> [] \<and> (hd s1 = CHR ''-'' \<or> hd s1 = CHR ''+''));
          digits = takeWhile is_digit (if signed then tl s1 else s1)
      in (signed \<and> hd s1 = CHR ''-'', foldl (\<lambda>v c. 10 * v + (of_char c - 48)) 0 digits))"

definition strtoull :: "string \<Rightarrow> u64" where
  "strtoull s = (case read_decimal s of (neg, v) \<Rightarrow>
     if v \<ge> 2 ^ 64 then -1 else if neg then - of_nat v else of_nat v)"

definition atoi :: "string \<Rightarrow> int option" where
  "atoi s = (case read_decimal s of (neg, v) \<Rightarrow>
     (let i = (if neg then - int v else int v)
      in if - (2 ^ 31) \<le> i \<and> i < 2 ^ 31 then Some i else None))"

lemma atoi_range: "atoi v = Some i \<Longrightarrow> i < 2 ^ 31"
  by (auto simp: atoi_def Let_def split: prod.splits if_splits)

end
