(* ===== verification/Replay.thy ===== *)
theory Replay
  imports StatsEngine ReferenceBook ItchParser Mold ItchGen CStrings
begin

text \<open>
  The replay program of \<open>src/sw/main.cpp\<close>: its options, the choice of its input, the loop that
  decodes and applies one message after the other, the depth and ladder snapshots, the integrity
  check and the final line. Files are a parameter: what a path holds, and whether a path can be
  written. The measurement of latencies and everything that is only printed is left out.
\<close>

subsection \<open>Options\<close>

record replay_options =
  rp_file :: string
  rp_csv_dir :: string
  rp_engine_mode :: string
  rp_ladder_dir :: string
  rp_primary :: u16
  rp_gen_n :: u64
  rp_ladder_depth :: int
  rp_ladder_every :: int
  rp_quiet :: bool
  rp_mold_in :: bool
  rp_final_state :: bool
  rp_pin_core :: int

definition default_options :: replay_options where
  "default_options = \<lparr>rp_file = ''data/sample.itch'', rp_csv_dir = '''', rp_engine_mode = ''simd'',
     rp_ladder_dir = '''', rp_primary = 1, rp_gen_n = 0, rp_ladder_depth = 10, rp_ladder_every = 1000,
     rp_quiet = False, rp_mold_in = False, rp_final_state = False, rp_pin_core = -1\<rparr>"

definition plain_option :: "string \<Rightarrow> replay_options \<Rightarrow> replay_options" where
  "plain_option a o1 =
     (if a = ''--mold'' then o1\<lparr>rp_mold_in := True\<rparr>
      else if a = ''--final-state'' then o1\<lparr>rp_final_state := True\<rparr>
      else if a = ''--quiet'' then o1\<lparr>rp_quiet := True\<rparr>
      else if a = [] \<or> hd a \<noteq> CHR ''-'' then o1\<lparr>rp_file := a\<rparr>
      else o1)"

text \<open>The argument loop; an option that lacks its value is skipped.\<close>

fun parse_options :: "string list \<Rightarrow> replay_options \<Rightarrow> replay_options option" where
  "parse_options [] o1 = Some o1"
| "parse_options (a # args) o1 =
     (case args of
        v # rest \<Rightarrow>
          if a = ''--gen'' then parse_options rest (o1\<lparr>rp_gen_n := strtoull v\<rparr>)
          else if a = ''--symbol'' then do { i \<leftarrow> atoi v; parse_options rest (o1\<lparr>rp_primary := of_int i\<rparr>) }
          else if a = ''--csv'' then parse_options rest (o1\<lparr>rp_csv_dir := v\<rparr>)
          else if a = ''--engine'' then parse_options rest (o1\<lparr>rp_engine_mode := v\<rparr>)
          else if a = ''--ladder'' then parse_options rest (o1\<lparr>rp_ladder_dir := v\<rparr>)
          else if a = ''--ladder-depth'' then do { i \<leftarrow> atoi v; parse_options rest (o1\<lparr>rp_ladder_depth := i\<rparr>) }
          else if a = ''--ladder-every'' then do { i \<leftarrow> atoi v; parse_options rest (o1\<lparr>rp_ladder_every := i\<rparr>) }
          else if a = ''--pin'' then do { i \<leftarrow> atoi v; parse_options rest (o1\<lparr>rp_pin_core := i\<rparr>) }
          else parse_options args (plain_option a o1)
      | [] \<Rightarrow> Some (plain_option a o1))"

text \<open>The checks after the loop; an unknown engine ends the program with status 1.\<close>

definition check_options :: "replay_options \<Rightarrow> replay_options option" where
  "check_options o1 =
     (if rp_engine_mode o1 \<noteq> ''simd'' \<and> rp_engine_mode o1 \<noteq> ''map'' then None
      else Some (o1\<lparr>
        rp_ladder_dir := (if rp_ladder_dir o1 \<noteq> [] \<and> rp_engine_mode o1 \<noteq> ''simd'' then [] else rp_ladder_dir o1),
        rp_ladder_every := (if rp_ladder_every o1 < 1 then 1 else rp_ladder_every o1),
        rp_ladder_depth := (if rp_ladder_depth o1 < 1 then 1 else rp_ladder_depth o1)\<rparr>))"

subsection \<open>The input\<close>

definition synthetic_input :: "nat \<Rightarrow> bytes option" where
  "synthetic_input n = do {
     g \<leftarrow> new_generator (default_gen_config\<lparr>gc_num_symbols := 4\<rparr>);
     (stream, g1) \<leftarrow> generate n g;
     Some stream
   }"

text \<open>A file that cannot be opened is replaced by a synthetic stream.\<close>

definition acquire :: "(string \<Rightarrow> bytes option) \<Rightarrow> replay_options \<Rightarrow> bytes option" where
  "acquire files o1 =
     (if rp_gen_n o1 > 0 then synthetic_input (unat (rp_gen_n o1))
      else case files (rp_file o1) of None \<Rightarrow> synthetic_input 100000 | Some d \<Rightarrow> Some d)"

definition replay_input :: "(string \<Rightarrow> bytes option) \<Rightarrow> replay_options \<Rightarrow> bytes option" where
  "replay_input files o1 = do {
     d \<leftarrow> acquire files o1;
     if rp_mold_in o1 then map_option snd (mold_decap d) else Some d
   }"

subsection \<open>State\<close>

text \<open>Exactly one of the two books exists.\<close>

datatype replay_book = Simd book_engine | Tree reference_book

record depth_row =
  dr_seq :: u64
  dr_locate :: u16
  dr_bid :: u32
  dr_bid_depth :: u32
  dr_ask :: u32
  dr_ask_depth :: u32
  dr_spread :: u32

record ladder_row =
  lr_seq :: u64
  lr_is_bid :: bool
  lr_level :: int
  lr_price :: u32
  lr_shares :: u32

record replay =
  re_book :: replay_book
  re_stats :: stats_engine
  re_seq :: u64
  re_malformed :: u64
  re_depth :: "depth_row list"
  re_ladder :: "ladder_row list"

definition replay_levels :: u32 where "replay_levels = 1000000"
definition replay_capacity :: u32 where "replay_capacity = 2 ^ 21"

definition new_replay :: "replay_options \<Rightarrow> replay option" where
  "new_replay o1 = do {
     b \<leftarrow> (if rp_engine_mode o1 = ''simd'' then map_option Simd (engine_init replay_levels replay_capacity)
          else Some (Tree empty_reference));
     Some \<lparr>re_book = b, re_stats = no_stats, re_seq = 0, re_malformed = 0, re_depth = [], re_ladder = []\<rparr>
   }"

subsection \<open>Snapshots\<close>

text \<open>The tree has no spread of its own: the program computes it.\<close>

definition tree_spread :: "u32 \<Rightarrow> u32 \<Rightarrow> u32" where
  "tree_spread bb ba = (if bb \<noteq> 0 \<and> ba \<noteq> 0 \<and> ba > bb then ba - bb else 0)"

definition depth_rows :: "u16 \<Rightarrow> u64 \<Rightarrow> replay_book \<Rightarrow> depth_row list" where
  "depth_rows primary seq book =
     (case book of
        Simd e \<Rightarrow>
          (case be_books e primary of
             None \<Rightarrow> []
           | Some b \<Rightarrow> [\<lparr>dr_seq = seq, dr_locate = primary, dr_bid = ob_best_bid b,
               dr_bid_depth = best_bid_depth b, dr_ask = ob_best_ask b, dr_ask_depth = best_ask_depth b,
               dr_spread = spread b\<rparr>])
      | Tree rb \<Rightarrow>
          (let bb = ref_best_bid rb primary; ba = ref_best_ask rb primary; sp = tree_spread bb ba
           in [\<lparr>dr_seq = seq, dr_locate = primary, dr_bid = bb, dr_bid_depth = ref_best_bid_depth rb primary,
                dr_ask = ba, dr_ask_depth = ref_best_ask_depth rb primary, dr_spread = sp\<rparr>]))"

text \<open>
  The walk from the best price: \<open>next\<close> is the step of the price, which wraps, \<open>shares\<close> the total
  at a price. It ends at price 0, after \<open>depth\<close> levels or after \<open>max_scan\<close> prices.
\<close>

function ladder_walk ::
  "(u32 \<Rightarrow> u32) \<Rightarrow> (u32 \<Rightarrow> u32) \<Rightarrow> int \<Rightarrow> int \<Rightarrow> u32 \<Rightarrow> int \<Rightarrow> int \<Rightarrow> (int \<times> u32 \<times> u32) list"
where
  "ladder_walk nxt shares depth max_scan p lvl guard =
     (if p > 0 \<and> lvl < depth \<and> guard < max_scan
      then (let sh = shares p
            in if sh > 0
               then (lvl + 1, p, sh) # ladder_walk nxt shares depth max_scan (nxt p) (lvl + 1) (guard + 1)
               else ladder_walk nxt shares depth max_scan (nxt p) lvl (guard + 1))
      else [])"
  by pat_completeness auto
termination
  by (relation "measure (\<lambda>(nxt, shares, depth, max_scan, p, lvl, guard). nat (max_scan - guard))") auto

declare ladder_walk.simps [simp del]

definition ladder_side :: "u64 \<Rightarrow> bool \<Rightarrow> int \<Rightarrow> order_book \<Rightarrow> ladder_row list" where
  "ladder_side seq is_bid depth b =
     map (\<lambda>(lvl, p, sh). \<lparr>lr_seq = seq, lr_is_bid = is_bid, lr_level = lvl, lr_price = p, lr_shares = sh\<rparr>)
       (if is_bid then ladder_walk (\<lambda>p. p - 1) (bid_shares_at b) depth (depth * 200) (ob_best_bid b) 0 0
        else ladder_walk (\<lambda>p. p + 1) (ask_shares_at b) depth (depth * 200) (ob_best_ask b) 0 0)"

text \<open>The bound on the walk is a signed product, undefined above the type.\<close>

definition ladder_rows :: "u16 \<Rightarrow> int \<Rightarrow> u64 \<Rightarrow> replay_book \<Rightarrow> ladder_row list option" where
  "ladder_rows primary depth seq book =
     (case book of
        Tree rb \<Rightarrow> Some []
      | Simd e \<Rightarrow>
          (case be_books e primary of
             None \<Rightarrow> Some []
           | Some b \<Rightarrow>
               if depth * 200 < 2 ^ 31 then Some (ladder_side seq True depth b @ ladder_side seq False depth b)
               else None))"

subsection \<open>The loop\<close>

definition replay_apply :: "decoded_message \<Rightarrow> replay_book \<Rightarrow> (replay_book \<times> exec_result) option" where
  "replay_apply m book =
     (case book of
        Simd e \<Rightarrow> map_option (\<lambda>(e', _, ex). (Simd e', ex)) (apply_msg m e)
      | Tree rb \<Rightarrow> Some (Tree (ref_apply m rb), no_exec))"

text \<open>What the loop reads beside the stream: the options and which of the two files are open.\<close>

record replay_env =
  ren_options :: replay_options
  ren_depth :: bool
  ren_ladder :: bool

text \<open>A ladder is due every so many messages; the remainder by zero is undefined.\<close>

definition ladder_due :: "replay_env \<Rightarrow> u64 \<Rightarrow> replay_book \<Rightarrow> ladder_row list option" where
  "ladder_due env seq book =
     (let o1 = ren_options env; every = of_int (rp_ladder_every o1) :: u64
      in if ren_ladder env \<and> (case book of Simd _ \<Rightarrow> True | Tree _ \<Rightarrow> False)
         then if every = 0 then None
              else if seq mod every = 0 then ladder_rows (rp_primary o1) (rp_ladder_depth o1) seq book
              else Some []
         else Some [])"

definition replay_body :: "replay_env \<Rightarrow> bytes \<Rightarrow> replay \<Rightarrow> replay option" where
  "replay_body env body s = do {
     let o1 = ren_options env;
     m \<leftarrow> decode_body body;
     let bad = (if dm_type m = Unknown then re_malformed s + 1 else re_malformed s);
     (book, ex) \<leftarrow> replay_apply m (re_book s);
     let st = (case book of Simd _ \<Rightarrow> on_message m ex (re_stats s) | Tree _ \<Rightarrow> re_stats s);
     let seq = re_seq s + 1;
     let rows = (if ren_depth env \<and> seq mod 1000 = 0 then depth_rows (rp_primary o1) seq book else []);
     lrows \<leftarrow> ladder_due env seq book;
     Some \<lparr>re_book = book, re_stats = st, re_seq = seq, re_malformed = bad,
           re_depth = re_depth s @ rows, re_ladder = re_ladder s @ lrows\<rparr>
   }"

text \<open>The loop over the frames; it returns the offset where it stops.\<close>

function replay_loop :: "replay_env \<Rightarrow> bytes \<Rightarrow> nat \<Rightarrow> replay \<Rightarrow> (replay \<times> nat) option" where
  "replay_loop env d off s =
     (if off + 2 \<le> length d
      then do {
        bl \<leftarrow> be16_at d off;
        (if unat bl = 0 \<or> off + 2 + unat bl > length d then Some (s, off)
         else do {
           body \<leftarrow> read_at d (off + 2) (unat bl);
           s1 \<leftarrow> replay_body env body s;
           replay_loop env d (off + (2 + unat bl)) s1
         })
      }
      else Some (s, off))"
  by pat_completeness auto
termination
  by (relation "measure (\<lambda>(env, d, off, s). length d - off)") auto

declare replay_loop.simps [simp del]

subsection \<open>The verdict and the final line\<close>

definition counters_clean :: "counters \<Rightarrow> bool" where
  "counters_clean c \<longleftrightarrow> ctr_invalid c = 0 \<and> ctr_duplicate_ref c = 0 \<and> ctr_missing_ref c = 0 \<and>
     ctr_ref_insert_fail c = 0 \<and> ctr_resync_required c = 0"

definition replay_ok :: "bool \<Rightarrow> replay \<Rightarrow> bool" where
  "replay_ok is_cut s \<longleftrightarrow> \<not> re_malformed s \<noteq> 0 \<and> \<not> is_cut \<and>
     (case re_book s of Simd e \<Rightarrow> counters_clean (be_ctr e) | Tree _ \<Rightarrow> True)"

record final_line =
  fl_bid_px :: u32
  fl_bid_sh :: u32
  fl_ask_px :: u32
  fl_ask_sh :: u32
  fl_spread :: u32
  fl_vwap_num :: u64
  fl_vwap_den :: u64
  fl_trades :: u64
  fl_msgs :: u64

definition final_of :: "u16 \<Rightarrow> replay \<Rightarrow> final_line option" where
  "final_of primary s =
     (case re_book s of
        Tree _ \<Rightarrow> None
      | Simd e \<Rightarrow>
          (let b = be_books e primary; q = (\<lambda>f. case b of None \<Rightarrow> 0 | Some b1 \<Rightarrow> f b1)
           in Some \<lparr>fl_bid_px = q ob_best_bid, fl_bid_sh = q best_bid_depth, fl_ask_px = q ob_best_ask,
                fl_ask_sh = q best_ask_depth, fl_spread = q spread, fl_vwap_num = st_vwap_num (re_stats s),
                fl_vwap_den = st_vwap_den (re_stats s), fl_trades = st_trade_count (re_stats s),
                fl_msgs = re_seq s\<rparr>))"

text \<open>
  What a run leaves behind: its exit status, the two snapshot files as far as they were written,
  and the final line when it was asked for.
\<close>

record replay_outcome =
  rx_status :: int
  rx_depth :: "depth_row list"
  rx_ladder :: "ladder_row list"
  rx_final :: "final_line option"
  rx_messages :: u64

definition replay_stream :: "replay_env \<Rightarrow> bytes \<Rightarrow> replay_outcome option" where
  "replay_stream env d = do {
     let o1 = ren_options env;
     s0 \<leftarrow> new_replay o1;
     (s, off) \<leftarrow> replay_loop env d 0 s0;
     let is_ok = replay_ok (off \<noteq> length d) s;
     Some \<lparr>rx_status = (if is_ok then 0 else 3), rx_depth = re_depth s, rx_ladder = re_ladder s,
           rx_final = (if is_ok \<and> rp_final_state o1 then final_of (rp_primary o1) s else None),
           rx_messages = re_seq s\<rparr>
   }"

definition replay_main :: "(string \<Rightarrow> bytes option) \<Rightarrow> (string \<Rightarrow> bool) \<Rightarrow> string list \<Rightarrow> replay_outcome option" where
  "replay_main files writable args = do {
     o0 \<leftarrow> parse_options args default_options;
     (case check_options o0 of
        None \<Rightarrow> Some \<lparr>rx_status = 1, rx_depth = [], rx_ladder = [], rx_final = None, rx_messages = 0\<rparr>
      | Some o1 \<Rightarrow> do {
          d \<leftarrow> replay_input files o1;
          replay_stream \<lparr>ren_options = o1,
            ren_depth = (rp_csv_dir o1 \<noteq> [] \<and> writable (rp_csv_dir o1 @ ''/book_depth.csv'')),
            ren_ladder = (rp_ladder_dir o1 \<noteq> [] \<and> writable (rp_ladder_dir o1 @ ''/ladder.csv''))\<rparr> d
        })
   }"

end
