(* ===== verification/ReplayProps.thy ===== *)
theory ReplayProps
  imports Replay EngineCounters GoldenProps
begin

text \<open>
  What the replay program computes from a stream: the loop as a run over the frames, when it
  returns, what its verdict is worth, and that the two engines it can run give the same
  snapshots.
\<close>

subsection \<open>The loop as a run over the frames\<close>

fun replay_bodies :: "replay_env \<Rightarrow> bytes list \<Rightarrow> replay \<Rightarrow> replay option" where
  "replay_bodies env [] s = Some s"
| "replay_bodies env (b # bs) s = do { s1 \<leftarrow> replay_body env b s; replay_bodies env bs s1 }"

lemma replay_loop_frames:
  "replay_loop env d off s =
     map_option (\<lambda>s'. (s', off + length (framed (frames (drop off d))))) (replay_bodies env (frames (drop off d)) s)"
proof (induction env d off s rule: replay_loop.induct)
  case (1 env d off s)
  show ?case
  proof (cases "off + 2 \<le> length d")
    case False
    then show ?thesis by (subst replay_loop.simps) (simp add: frames_short)
  next
    case True
    define n where "n = unat (be16 (take 2 (drop off d)))"
    have bl: "be16_at d off = Some (be16 (take 2 (drop off d)))" using True by simp
    show ?thesis
    proof (cases "n = 0 \<or> off + 2 + n > length d")
      case stop: True
      then show ?thesis
        using frames_drop [OF True n_def] bl True by (subst replay_loop.simps) (simp add: n_def [symmetric])
    next
      case False
      let ?body = "take n (drop (off + 2) d)"
      have body: "read_at d (off + 2) n = Some ?body" "length ?body = n"
        using False by (auto simp: min_absorb2)
      have step: "replay_loop env d off s =
          Option.bind (replay_body env ?body s) (replay_loop env d (off + (2 + n)))"
        using True False bl body by (subst replay_loop.simps) (simp add: n_def [symmetric])
      have fr: "frames (drop off d) = ?body # frames (drop (off + (2 + n)) d)"
        using frames_drop [OF True n_def] False by (simp add: add.assoc)
      show ?thesis
      proof (cases "replay_body env ?body s")
        case None
        then show ?thesis unfolding step fr by simp
      next
        case (Some s1)
        have "replay_loop env d (off + (2 + n)) s1 =
            map_option (\<lambda>s'. (s', off + (2 + n) + length (framed (frames (drop (off + (2 + n)) d)))))
              (replay_bodies env (frames (drop (off + (2 + n)) d)) s1)"
          using 1 [OF True bl, folded n_def, OF _ body(1) Some] False by blast
        then show ?thesis unfolding step fr using Some body(2) by (simp add: add.assoc)
      qed
    qed
  qed
qed

lemma framed_all: "length (framed (frames d)) = length d \<longleftrightarrow> framed (frames d) = d"
  by (metis append_eq_append_conv append_Nil2 framed_frames_prefix)

lemma replay_stream_bodies:
  "replay_stream env d = do {
     s0 \<leftarrow> new_replay (ren_options env);
     s \<leftarrow> replay_bodies env (frames d) s0;
     let is_ok = replay_ok (framed (frames d) \<noteq> d) s;
     Some \<lparr>rx_status = (if is_ok then 0 else 3), rx_depth = re_depth s, rx_ladder = re_ladder s,
           rx_final = (if is_ok \<and> rp_final_state (ren_options env)
             then final_of (rp_primary (ren_options env)) s else None),
           rx_messages = re_seq s\<rparr>
   }"
  by (simp add: replay_stream_def replay_loop_frames framed_all Let_def split: option.splits Option.bind_splits)

subsection \<open>The engine and the statistics of a replay\<close>

definition snapshot :: "replay_env \<Rightarrow> u64 \<Rightarrow> replay_book \<Rightarrow> depth_row list" where
  "snapshot env seq book =
     (if ren_depth env \<and> seq mod 1000 = 0 then depth_rows (rp_primary (ren_options env)) seq book else [])"

lemma replay_body_Simd:
  assumes "re_book s = Simd e" "replay_body env b s = Some s'"
  shows "\<exists>e' bk ex. apply_msg (decoded b) e = Some (e', bk, ex) \<and> re_book s' = Simd e' \<and>
    re_stats s' = on_message (decoded b) ex (re_stats s) \<and> re_seq s' = re_seq s + 1 \<and>
    re_malformed s' = re_malformed s + (if dm_type (decoded b) = Unknown then 1 else 0) \<and>
    re_depth s' = re_depth s @ snapshot env (re_seq s + 1) (Simd e')"
  using assms by (auto simp: replay_body_def replay_apply_def Let_def snapshot_def split: Option.bind_splits)

lemma replay_bodies_Simd:
  assumes "replay_bodies env bs s = Some s'" "re_book s = Simd e"
    "errors (be_ctr e) + length bs < 2 ^ 64" "unat (re_malformed s) + length bs < 2 ^ 64"
  shows "\<exists>e'. re_book s' = Simd e' \<and> run_stats (map decoded bs) (e, re_stats s) = Some (e', re_stats s') \<and>
    errors (be_ctr e) \<le> errors (be_ctr e') \<and>
    (errors (be_ctr e') = errors (be_ctr e) \<longrightarrow> accepted_run (map decoded bs) e) \<and>
    unat (re_malformed s') = unat (re_malformed s) + length (filter (\<lambda>b. dm_type (decoded b) = Unknown) bs) \<and>
    re_seq s' = re_seq s + of_nat (length bs)"
  using assms
proof (induction bs arbitrary: s e)
  case (Cons b bs)
  obtain s1 where s1: "replay_body env b s = Some s1" "replay_bodies env bs s1 = Some s'"
    using Cons.prems(1) by (auto split: Option.bind_splits)
  obtain e1 bk ex where e1: "apply_msg (decoded b) e = Some (e1, bk, ex)" "re_book s1 = Simd e1"
    "re_stats s1 = on_message (decoded b) ex (re_stats s)" "re_seq s1 = re_seq s + 1"
    "re_malformed s1 = re_malformed s + (if dm_type (decoded b) = Unknown then 1 else 0)"
    using replay_body_Simd [OF Cons.prems(2) s1(1)] by blast
  have "errors (be_ctr e) + 1 < 2 ^ 64" "unat (re_malformed s) + 1 < 2 ^ 64" using Cons.prems(3,4) by simp_all
  then have err: "errors (be_ctr e1) = errors (be_ctr e) + (if clean (be_status e1) then 0 else 1)"
    and mal: "unat (re_malformed s1) = unat (re_malformed s) + (if dm_type (decoded b) = Unknown then 1 else 0)"
    using apply_msg_counted [of e "decoded b"] e1(1,5) incr_fits by (simp_all add: counted_outcome_def)
  then have "errors (be_ctr e1) + length bs < 2 ^ 64" "unat (re_malformed s1) + length bs < 2 ^ 64"
    using Cons.prems(3,4) by (auto split: if_splits)
  from Cons.IH [OF s1(2) e1(2) this] obtain e' where e': "re_book s' = Simd e'"
    "run_stats (map decoded bs) (e1, re_stats s1) = Some (e', re_stats s')"
    "errors (be_ctr e1) \<le> errors (be_ctr e')"
    "errors (be_ctr e') = errors (be_ctr e1) \<longrightarrow> accepted_run (map decoded bs) e1"
    "unat (re_malformed s') = unat (re_malformed s1) + length (filter (\<lambda>b. dm_type (decoded b) = Unknown) bs)"
    "re_seq s' = re_seq s1 + of_nat (length bs)" by blast
  have "accepted_run (map decoded (b # bs)) e" if "errors (be_ctr e') = errors (be_ctr e)"
  proof -
    have "clean (be_status e1)" "errors (be_ctr e') = errors (be_ctr e1)"
      using that e'(3) err by (auto split: if_splits)
    then show ?thesis using e'(4) e1(1) by (auto simp: clean_def accepted_def)
  qed
  then show ?case using e' e1 err mal by (auto split: if_splits)
qed auto

lemma clean_errors: "counters_clean c \<longleftrightarrow> errors c = 0"
  by (auto simp: counters_clean_def errors_def unat_eq_zero)

lemma run_stats_engine: "run_stats ms (e, st) = Some (e', st') \<Longrightarrow> run_engine ms e = Some e'"
  by (induction ms arbitrary: e st) (auto split: Option.bind_splits)

subsection \<open>The verdict\<close>

definition book_line :: "reference_book \<Rightarrow> u16 \<Rightarrow> u32 \<times> u32 \<times> u32 \<times> u32 \<times> u32" where
  "book_line rb loc = (ref_best_bid rb loc, ref_best_bid_depth rb loc, ref_best_ask rb loc,
     ref_best_ask_depth rb loc, tree_spread (ref_best_bid rb loc) (ref_best_ask rb loc))"

lemma engine_line:
  assumes "same_answers rb loc (book_of e loc)"
  shows "(let b = be_books e loc; q = (\<lambda>f. case b of None \<Rightarrow> 0 | Some b1 \<Rightarrow> f b1)
    in (q ob_best_bid, q best_bid_depth, q ob_best_ask, q best_ask_depth, q spread)) = book_line rb loc"
proof -
  have "ob_best_bid (new_book lv) = 0" "ob_best_ask (new_book lv) = 0" for lv by (simp_all add: new_book_def)
  then show ?thesis
    using assms by (simp add: same_answers_def book_line_def tree_spread_def spread_def book_of_def
        best_bid_depth_def best_ask_depth_def split: option.splits)
qed

lemma new_replay_Simd:
  "new_replay o1 = Some s0 \<Longrightarrow> rp_engine_mode o1 = ''simd'' \<Longrightarrow>
   \<exists>e0. engine_init replay_levels replay_capacity = Some e0 \<and> s0 = \<lparr>re_book = Simd e0, re_stats = no_stats,
     re_seq = 0, re_malformed = 0, re_depth = [], re_ladder = []\<rparr>"
  by (auto simp: new_replay_def split: Option.bind_splits)

text \<open>A replay that ends with status 0 took every byte of its stream and rejected nothing.\<close>

lemma replay_clean:
  assumes "replay_stream env d = Some out" "rx_status out = 0" "rp_engine_mode (ren_options env) = ''simd''"
    "length d < 2 ^ 64"
  shows "\<exists>e0 e s. engine_init replay_levels replay_capacity = Some e0 \<and> d = framed (frames d) \<and>
    (\<forall>b\<in>set (frames d). dm_type (decoded b) \<noteq> Unknown) \<and> accepted_run (map decoded (frames d)) e0 \<and>
    run_stats (map decoded (frames d)) (e0, no_stats) = Some (e, re_stats s) \<and>
    replay_bodies env (frames d) \<lparr>re_book = Simd e0, re_stats = no_stats, re_seq = 0, re_malformed = 0,
      re_depth = [], re_ladder = []\<rparr> = Some s \<and> re_book s = Simd e \<and>
    re_seq s = of_nat (length (frames d)) \<and> rx_depth out = re_depth s \<and> rx_messages out = re_seq s \<and>
    re_malformed s = 0 \<and>
    rx_final out = (if rp_final_state (ren_options env) then final_of (rp_primary (ren_options env)) s else None)"
proof -
  let ?bs = "frames d"
  obtain s0 s where s: "new_replay (ren_options env) = Some s0" "replay_bodies env ?bs s0 = Some s"
    and out: "out = \<lparr>rx_status = (if replay_ok (framed ?bs \<noteq> d) s then 0 else 3), rx_depth = re_depth s,
      rx_ladder = re_ladder s, rx_final = (if replay_ok (framed ?bs \<noteq> d) s \<and> rp_final_state (ren_options env)
        then final_of (rp_primary (ren_options env)) s else None), rx_messages = re_seq s\<rparr>"
    using assms(1) by (auto simp: replay_stream_bodies Let_def split: Option.bind_splits)
  obtain e0 where e0: "engine_init replay_levels replay_capacity = Some e0" "s0 = \<lparr>re_book = Simd e0,
      re_stats = no_stats, re_seq = 0, re_malformed = 0, re_depth = [], re_ladder = []\<rparr>"
    using new_replay_Simd [OF s(1) assms(3)] by blast
  have ok: "replay_ok (framed ?bs \<noteq> d) s" using assms(2) out by (auto split: if_splits)
  have "length ?bs \<le> length (framed ?bs)" by (rule framed_length)
  moreover have "framed ?bs = d" using ok by (simp add: replay_ok_def)
  ultimately have few: "length ?bs < 2 ^ 64" using assms(4) by simp
  have ctr0: "errors (be_ctr e0) = 0"
    using engine_init_ctr [OF e0(1)] by (simp add: errors_def no_counters_def)
  obtain e where e: "re_book s = Simd e" "run_stats (map decoded ?bs) (e0, no_stats) = Some (e, re_stats s)"
    "errors (be_ctr e) = errors (be_ctr e0) \<longrightarrow> accepted_run (map decoded ?bs) e0"
    "unat (re_malformed s) = length (filter (\<lambda>b. dm_type (decoded b) = Unknown) ?bs)"
    "re_seq s = of_nat (length ?bs)"
    using replay_bodies_Simd [OF s(2), of e0] few ctr0 e0(2) by auto
  then have "accepted_run (map decoded ?bs) e0" "\<forall>b\<in>set ?bs. dm_type (decoded b) \<noteq> Unknown"
    using ok ctr0 by (auto simp: replay_ok_def clean_errors filter_empty_conv)
  then show ?thesis
    using e0 e s(2) ok \<open>framed ?bs = d\<close> unfolding out
    by - (rule exI [of _ e0], rule exI [of _ e], rule exI [of _ s], simp add: replay_ok_def)
qed


end
