(* ===== verification/ReplayLadder.thy ===== *)
theory ReplayLadder
  imports Replay BookProps
begin

text \<open>
  The ladder snapshots of the replay program: the walk from the best price as a filter over the
  prices it visits, and what a ladder of a consistent book shows.
\<close>

subsection \<open>The prices of a walk\<close>

fun walk_prices :: "(u32 \<Rightarrow> u32) \<Rightarrow> nat \<Rightarrow> u32 \<Rightarrow> u32 list" where
  "walk_prices nxt 0 p = []"
| "walk_prices nxt (Suc n) p = (if p = 0 then [] else p # walk_prices nxt n (nxt p))"

lemma ladder_walk_prices:
  "ladder_walk nxt sh depth max_scan p lvl guard =
     zip [lvl + 1..depth] (map (\<lambda>q. (q, sh q)) (filter (\<lambda>q. sh q \<noteq> 0) (walk_prices nxt (nat (max_scan - guard)) p)))"
proof (induction nxt sh depth max_scan p lvl guard rule: ladder_walk.induct)
  case (1 nxt sh depth max_scan p lvl guard)
  show ?case
  proof (cases "p > 0 \<and> lvl < depth \<and> guard < max_scan")
    case False
    then consider "p = 0" | "\<not> lvl < depth" | "\<not> guard < max_scan" using word_neq_0_conv by blast
    then show ?thesis
    proof cases
      case 1
      then show ?thesis using False by (subst ladder_walk.simps) (cases "nat (max_scan - guard)", simp_all)
    qed (use False in \<open>(subst ladder_walk.simps, simp)+\<close>)
  next
    case True
    then have n: "nat (max_scan - guard) = Suc (nat (max_scan - (guard + 1)))" by arith
    have up: "[lvl + 1..depth] = (lvl + 1) # [lvl + 1 + 1..depth]" using True by (simp add: upto_rec1)
    show ?thesis
      using True 1 by (subst ladder_walk.simps) (auto simp: Let_def n up word_neq_0_conv)
  qed
qed

lemma window_step:
  "x = Suc a \<Longrightarrow> 0 < y \<and> y \<le> x \<and> x < y + Suc n \<longleftrightarrow> y = x \<or> 0 < y \<and> y \<le> a \<and> a < y + n" for a x y n :: nat
  by arith

lemma walk_down:
  "sorted_wrt (>) (walk_prices (\<lambda>p. p - 1) n p) \<and>
   set (walk_prices (\<lambda>p. p - 1) n p) = {q. 0 < unat q \<and> unat q \<le> unat p \<and> unat p < unat q + n}"
proof (induction n arbitrary: p)
  case (Suc n)
  show ?case
  proof (cases "p = 0")
    case False
    then have u: "unat p = Suc (unat (p - 1))" by (simp add: unat_minus_one word_neq_0_conv unat_gt_0)
    have "q < p" if "unat q \<le> unat (p - 1)" for q using that u by (simp add: word_less_nat_alt)
    moreover have "{q. 0 < unat q \<and> unat q \<le> unat p \<and> unat p < unat q + Suc n} =
        insert p {q. 0 < unat q \<and> unat q \<le> unat (p - 1) \<and> unat (p - 1) < unat q + n}"
      unfolding window_step [OF u] word_unat_eq_iff [symmetric] by blast
    ultimately show ?thesis using Suc.IH [of "p - 1"] False by auto
  qed auto
qed auto

lemma walk_up:
  "sorted_wrt (<) (walk_prices (\<lambda>p. p + 1) n p) \<and>
   set (walk_prices (\<lambda>p. p + 1) n p) = (if p = 0 then {} else {q. unat p \<le> unat q \<and> unat q < unat p + n})"
proof (induction n arbitrary: p)
  case (Suc n)
  show ?case
  proof (cases "p = 0")
    case False
    have split: "unat p \<le> unat q \<and> unat q < unat p + Suc n \<longleftrightarrow>
        q = p \<or> Suc (unat p) \<le> unat q \<and> unat q < Suc (unat p) + n" for q
      unfolding word_unat_eq_iff by arith
    show ?thesis
    proof (cases "p + 1 = 0")
      case True
      then have "p = -1" by (simp add: eq_neg_iff_add_eq_0)
      then have "q \<le> p" for q by simp
      then have "unat q \<le> unat p" for q :: u32 by (simp only: word_le_nat_alt)
      then have "{q. unat p \<le> unat q \<and> unat q < unat p + Suc n} = {p}"
        unfolding split by (auto simp: Suc_le_eq) (meson not_le)
      then show ?thesis using Suc.IH [of "p + 1"] False True by simp
    next
      case up: False
      then have u: "unat (p + 1) = Suc (unat p)" using unatSuc [of p] by (simp add: add.commute)
      have "p < q" if "unat (p + 1) \<le> unat q" for q using that u by (simp add: word_less_nat_alt)
      moreover have "{q. unat p \<le> unat q \<and> unat q < unat p + Suc n} =
          insert p {q. unat (p + 1) \<le> unat q \<and> unat q < unat (p + 1) + n}"
        unfolding split u by blast
      ultimately show ?thesis using Suc.IH [of "p + 1"] False up by auto
    qed
  qed simp
qed auto

subsection \<open>Ladders of a consistent book\<close>

lemma take_best:
  assumes "sorted_wrt R xs" "x \<in> set xs" "x \<notin> set (take k xs)"
  shows "length (take k xs) = k \<and> (\<forall>y\<in>set (take k xs). R y x)"
proof -
  have x: "x \<in> set (drop k xs)" using assms(2,3) by (metis Un_iff append_take_drop_id set_append)
  have "sorted_wrt R (take k xs @ drop k xs)" using assms(1) by simp
  then have "\<forall>y\<in>set (take k xs). R y x" using x unfolding sorted_wrt_append by blast
  moreover have "k \<le> length xs" using x by (cases "k \<le> length xs") simp_all
  ultimately show ?thesis by simp
qed

definition better :: "bool \<Rightarrow> u32 \<Rightarrow> u32 \<Rightarrow> bool" where
  "better is_bid p q \<longleftrightarrow> (if is_bid then q < p else p < q)"

definition side_shares :: "bool \<Rightarrow> order_book \<Rightarrow> u32 \<Rightarrow> u32" where
  "side_shares is_bid b = (if is_bid then bid_shares_at b else ask_shares_at b)"

definition side_best :: "bool \<Rightarrow> order_book \<Rightarrow> u32" where
  "side_best is_bid b = (if is_bid then ob_best_bid b else ob_best_ask b)"

definition ladder_prices :: "bool \<Rightarrow> int \<Rightarrow> order_book \<Rightarrow> u32 list" where
  "ladder_prices is_bid depth b = take (nat depth) (filter (\<lambda>q. side_shares is_bid b q \<noteq> 0)
     (walk_prices (if is_bid then (\<lambda>p. p - 1) else (\<lambda>p. p + 1)) (nat (depth * 200)) (side_best is_bid b)))"

lemma zip_upto: "zip [1..int n] xs = zip [1..int (length (take n xs))] (take n xs)"
  by (rule nth_equalityI) (auto simp: nth_upto)

lemma ladder_side_rows:
  assumes "0 \<le> depth"
  shows "map lr_price (ladder_side seq is_bid depth b) = ladder_prices is_bid depth b"
    "map lr_level (ladder_side seq is_bid depth b) = [1..int (length (ladder_prices is_bid depth b))]"
    "\<forall>r\<in>set (ladder_side seq is_bid depth b). lr_shares r = side_shares is_bid b (lr_price r) \<and>
       lr_is_bid r = is_bid \<and> lr_seq r = seq"
proof -
  let ?P = "ladder_prices is_bid depth b"
  let ?f = "\<lambda>(lvl, p). \<lparr>lr_seq = seq, lr_is_bid = is_bid, lr_level = lvl, lr_price = p,
    lr_shares = side_shares is_bid b p\<rparr>"
  obtain n where n: "depth = int n" using assms by (metis nonneg_int_cases)
  have rows: "ladder_side seq is_bid depth b = map ?f (zip [1..int (length ?P)] ?P)"
    unfolding ladder_prices_def n nat_int zip_upto [symmetric]
    by (simp add: ladder_side_def ladder_walk_prices side_shares_def side_best_def zip_map2 split_beta comp_def)
  have len: "length [1..int (length ?P)] = length ?P" by simp
  show "map lr_price (ladder_side seq is_bid depth b) = ?P"
    "map lr_level (ladder_side seq is_bid depth b) = [1..int (length ?P)]"
    using map_snd_zip [OF len] map_fst_zip [OF len] by (simp_all add: rows split_beta comp_def)
  show "\<forall>r\<in>set (ladder_side seq is_bid depth b). lr_shares r = side_shares is_bid b (lr_price r) \<and>
       lr_is_bid r = is_bid \<and> lr_seq r = seq"
    by (auto simp: rows)
qed

lemma walk_sorted: "sorted_wrt (better is_bid) (walk_prices (if is_bid then (\<lambda>p. p - 1) else (\<lambda>p. p + 1)) n p)"
proof -
  have "better True = (>)" "better False = (<)" by (auto simp: better_def fun_eq_iff)
  then show ?thesis using walk_down [of n p] walk_up [of n p] by (cases is_bid) simp_all
qed

lemma ladder_prices_order: "sorted_wrt (better is_bid) (ladder_prices is_bid depth b)"
  unfolding ladder_prices_def by (intro sorted_wrt_take sorted_wrt_filter walk_sorted)

definition in_scan :: "bool \<Rightarrow> int \<Rightarrow> u32 \<Rightarrow> u32 \<Rightarrow> bool" where
  "in_scan is_bid n best p \<longleftrightarrow>
     (if is_bid then int (unat best) < int (unat p) + n else int (unat p) < int (unat best) + n)"

lemma scan_window: "int a < int c + n \<Longrightarrow> a < c + nat n" for a c :: nat
  by arith

lemma visited_live:
  assumes "book_inv b" "side_shares is_bid b p \<noteq> 0" "in_scan is_bid (depth * 200) (side_best is_bid b) p"
  shows "p \<in> set (filter (\<lambda>q. side_shares is_bid b q \<noteq> 0)
    (walk_prices (if is_bid then (\<lambda>p. p - 1) else (\<lambda>p. p + 1)) (nat (depth * 200)) (side_best is_bid b)))"
proof (cases is_bid)
  case True
  then have live: "bid_shares_at b p \<noteq> 0" using assms(2) by (simp add: side_shares_def)
  then have "\<not> (\<forall>p. bid_shares_at b p = 0)" by blast
  then have "ob_best_bid b = Max {p. bid_shares_at b p \<noteq> 0}" by (simp only: best_bid_max [OF assms(1)] if_False)
  then have "p \<le> ob_best_bid b" using live by simp
  moreover have "p \<noteq> 0"
    using live book_invD(5) [OF assms(1)] by (auto simp: bid_live_iff [OF assms(1)] levels_ok_def)
  moreover have "unat (ob_best_bid b) < unat p + nat (depth * 200)"
    using assms(3) True by (intro scan_window) (simp only: in_scan_def side_best_def if_True)
  ultimately have "p \<in> set (walk_prices (\<lambda>p. p - 1) (nat (depth * 200)) (ob_best_bid b))"
    unfolding conjunct2 [OF walk_down] mem_Collect_eq word_le_nat_alt unat_gt_0 by blast
  then show ?thesis using assms(2) True unfolding side_best_def by simp
next
  case False
  then have live: "ask_shares_at b p \<noteq> 0" using assms(2) by (simp add: side_shares_def)
  then have "\<not> (\<forall>p. ask_shares_at b p = 0)" by blast
  then have best: "ob_best_ask b = Min {p. ask_shares_at b p \<noteq> 0}" by (simp only: best_ask_min [OF assms(1)] if_False)
  have ne: "q \<noteq> 0" if "ask_shares_at b q \<noteq> 0" for q
    using that book_invD(6) [OF assms(1)] by (auto simp: ask_live_iff [OF assms(1)] levels_ok_def)
  have "Min {p. ask_shares_at b p \<noteq> 0} \<in> {p. ask_shares_at b p \<noteq> 0}"
    using live by (intro Min_in finite) blast
  then have "ask_shares_at b (ob_best_ask b) \<noteq> 0" unfolding best [symmetric] by (rule CollectD)
  then have "ob_best_ask b \<noteq> 0" by (rule ne)
  moreover have "ob_best_ask b \<le> p" unfolding best by (intro Min_le finite CollectI live)
  moreover have "unat p < unat (ob_best_ask b) + nat (depth * 200)"
    using assms(3) False by (intro scan_window) (simp only: in_scan_def side_best_def if_False)
  ultimately have "p \<in> set (walk_prices (\<lambda>p. p + 1) (nat (depth * 200)) (ob_best_ask b))"
    by (simp only: conjunct2 [OF walk_up] if_False mem_Collect_eq word_le_nat_alt)
  then show ?thesis using assms(2) False unfolding side_best_def by simp
qed

text \<open>
  A ladder shows the best levels. In a consistent book the rows of a side are
  numbered from 1, at most the asked number, in strictly worsening price order, each with the
  side's total at its price, which is not zero; and a level within the scanned range of
  200 prices per row that is missing is worse than all rows of a full ladder.
\<close>

theorem ladder_shows_best_levels:
  assumes "book_inv b" "0 \<le> depth"
  shows "let rows = ladder_side seq is_bid depth b; prices = map lr_price rows in
    map lr_level rows = [1..int (length rows)] \<and> int (length rows) \<le> depth \<and>
    sorted_wrt (better is_bid) prices \<and>
    (\<forall>r\<in>set rows. lr_shares r = side_shares is_bid b (lr_price r) \<and> lr_shares r \<noteq> 0 \<and>
       lr_is_bid r = is_bid \<and> lr_seq r = seq) \<and>
    (\<forall>p. side_shares is_bid b p \<noteq> 0 \<longrightarrow> in_scan is_bid (depth * 200) (side_best is_bid b) p \<longrightarrow>
       p \<in> set prices \<or> int (length rows) = depth \<and> (\<forall>q\<in>set prices. better is_bid q p))"
proof -
  let ?rows = "ladder_side seq is_bid depth b" and ?P = "ladder_prices is_bid depth b"
  note rows = ladder_side_rows [OF assms(2), of seq is_bid b]
  have len: "length ?rows = length ?P" using arg_cong [OF rows(1), of length] by simp
  have shares: "side_shares is_bid b p \<noteq> 0" if "p \<in> set ?P" for p
    using in_set_takeD [OF that [unfolded ladder_prices_def]] by simp
  have "lr_shares r \<noteq> 0" if "r \<in> set ?rows" for r
    using rows(1,3) that shares [of "lr_price r"] by (metis image_eqI list.set_map)
  moreover have "p \<in> set ?P \<or> int (length ?P) = depth \<and> (\<forall>q\<in>set ?P. better is_bid q p)"
    if "side_shares is_bid b p \<noteq> 0" "in_scan is_bid (depth * 200) (side_best is_bid b) p" for p
  proof -
    have "p \<notin> set ?P \<Longrightarrow> length ?P = nat depth \<and> (\<forall>q\<in>set ?P. better is_bid q p)"
      unfolding ladder_prices_def
      by (rule take_best [OF _ visited_live [OF assms(1) that]]) (intro sorted_wrt_filter walk_sorted)
    then show ?thesis using assms(2) by auto
  qed
  moreover have "int (length ?P) \<le> depth" using assms(2) by (simp add: ladder_prices_def)
  ultimately show ?thesis
    using rows(3) ladder_prices_order [of is_bid depth b] unfolding Let_def rows(1,2) len by blast
qed

theorem ladder_shows_best_levels_witness:
  "map (\<lambda>r. (lr_level r, lr_price r, lr_shares r)) (ladder_side 7 True 3 sample_book) = [(1, 2, 5)] \<and>
   2 \<in> set (map lr_price (ladder_side 7 True 3 sample_book))"
proof -
  have rows: "map (\<lambda>r. (lr_level r, lr_price r, lr_shares r)) (ladder_side 7 True 3 sample_book) = [(1, 2, 5)]"
    by code_simp
  have "side_shares True sample_book 2 \<noteq> 0" "in_scan True (3 * 200) (side_best True sample_book) 2"
    by code_simp+
  then have "2 \<in> set (map lr_price (ladder_side 7 True 3 sample_book)) \<or>
      int (length (ladder_side 7 True 3 sample_book)) = 3"
    using ladder_shows_best_levels [OF sample_book_ok(1), of 3 7 True] by (auto simp: Let_def)
  moreover have "length (ladder_side 7 True 3 sample_book) = 1" using arg_cong [OF rows, of length] by simp
  ultimately show ?thesis using rows by simp
qed

end
