(* ===== verification/ReplayModes.thy ===== *)
theory ReplayModes
  imports ReplayProps ReplayLadder MoldProps "HOL-Library.Sublist"
begin

text \<open>
  The two engines of the replay program on the same stream, the ladder snapshots, and when a
  replay returns; with the samples for the properties of the replay.
\<close>

subsection \<open>The tree engine\<close>

definition with_tree :: "replay_env \<Rightarrow> replay_env" where
  "with_tree env = env\<lparr>ren_options := (ren_options env)\<lparr>rp_engine_mode := ''map''\<rparr>\<rparr>"

lemma with_tree_simps [simp]:
  "ren_depth (with_tree env) = ren_depth env" "ren_ladder (with_tree env) = ren_ladder env"
  "rp_primary (ren_options (with_tree env)) = rp_primary (ren_options env)"
  "rp_ladder_every (ren_options (with_tree env)) = rp_ladder_every (ren_options env)"
  "rp_engine_mode (ren_options (with_tree env)) = ''map''"
  by (simp_all add: with_tree_def)

lemma replay_body_Tree:
  assumes "re_book t = Tree rb"
  shows "\<exists>t'. replay_body env b t = Some t' \<and> re_book t' = Tree (ref_apply (decoded b) rb) \<and>
    re_seq t' = re_seq t + 1 \<and>
    re_malformed t' = re_malformed t + (if dm_type (decoded b) = Unknown then 1 else 0) \<and>
    re_depth t' = re_depth t @ snapshot env (re_seq t + 1) (Tree (ref_apply (decoded b) rb))"
  using assms
  by (simp add: replay_body_def replay_apply_def Let_def snapshot_def ladder_due_def split: Option.bind_splits)

text \<open>The rows that show a price; the tree also writes rows for a symbol that has no book.\<close>

definition shows_price :: "depth_row \<Rightarrow> bool" where
  "shows_price r \<longleftrightarrow> dr_bid r \<noteq> 0 \<or> dr_ask r \<noteq> 0"

definition extends_rows :: "depth_row list \<Rightarrow> depth_row list \<Rightarrow> bool" where
  "extends_rows tree fast \<longleftrightarrow> subseq fast tree \<and> filter shows_price tree = filter shows_price fast"

lemma extends_rows_append: "extends_rows xs xs' \<Longrightarrow> extends_rows ys ys' \<Longrightarrow> extends_rows (xs @ ys) (xs' @ ys')"
  by (simp add: extends_rows_def list_emb_append_mono)

lemma same_rows:
  assumes "same_answers rb loc (book_of e loc)"
  shows "extends_rows (depth_rows loc seq (Tree rb)) (depth_rows loc seq (Simd e))"
proof (cases "be_books e loc")
  case None
  then have "ref_best_bid rb loc = 0" "ref_best_ask rb loc = 0"
    using assms by (simp_all add: same_answers_def book_of_def new_book_def)
  then show ?thesis using None by (simp add: depth_rows_def extends_rows_def shows_price_def Let_def)
next
  case (Some b)
  then show ?thesis
    using assms by (simp add: depth_rows_def extends_rows_def Let_def same_answers_def book_of_def tree_spread_def spread_def)
qed

lemma same_snapshot:
  assumes "same_answers rb (rp_primary (ren_options env)) (book_of e (rp_primary (ren_options env)))"
  shows "extends_rows (snapshot (with_tree env) seq (Tree rb)) (snapshot env seq (Simd e))"
  using same_rows [OF assms] by (simp add: snapshot_def extends_rows_def)

lemma engines_run:
  "engine_inv e \<Longrightarrow> oracle_agrees (live e) rb \<Longrightarrow> accepted_run (map decoded bs) e \<Longrightarrow>
   re_book s = Simd e \<Longrightarrow> replay_bodies env bs s = Some s' \<Longrightarrow>
   re_book t = Tree rb \<Longrightarrow> re_seq t = re_seq s \<Longrightarrow> re_malformed t = re_malformed s \<Longrightarrow>
   extends_rows (re_depth t) (re_depth s) \<Longrightarrow>
   \<exists>t' rb'. replay_bodies (with_tree env) bs t = Some t' \<and> re_book t' = Tree rb' \<and> re_seq t' = re_seq s' \<and>
     re_malformed t' = re_malformed s' \<and> extends_rows (re_depth t') (re_depth s')"
proof (induction bs arbitrary: e rb s t)
  case (Cons b bs)
  obtain s1 where s1: "replay_body env b s = Some s1" "replay_bodies env bs s1 = Some s'"
    using Cons.prems(5) by (auto split: Option.bind_splits)
  obtain e1 bk ex where e1: "apply_msg (decoded b) e = Some (e1, bk, ex)" "re_book s1 = Simd e1"
    "re_seq s1 = re_seq s + 1"
    "re_malformed s1 = re_malformed s + (if dm_type (decoded b) = Unknown then 1 else 0)"
    "re_depth s1 = re_depth s @ snapshot env (re_seq s + 1) (Simd e1)"
    using replay_body_Simd [OF Cons.prems(4) s1(1)] by blast
  obtain t1 where t1: "replay_body (with_tree env) b t = Some t1" "re_book t1 = Tree (ref_apply (decoded b) rb)"
    "re_seq t1 = re_seq t + 1"
    "re_malformed t1 = re_malformed t + (if dm_type (decoded b) = Unknown then 1 else 0)"
    "re_depth t1 = re_depth t @ snapshot (with_tree env) (re_seq t + 1) (Tree (ref_apply (decoded b) rb))"
    using replay_body_Tree [OF Cons.prems(6)] by blast
  have acc: "accepted_run [decoded b] e" "accepted_run (map decoded bs) e1"
    using Cons.prems(3) e1(1) by simp_all
  then have next1: "engine_inv e1" "oracle_agrees (live e1) (ref_apply (decoded b) rb)"
    using oracle_run [OF Cons.prems(1,2) acc(1)] e1(1) by auto
  have "extends_rows (re_depth t1) (re_depth s1)"
    using extends_rows_append [OF Cons.prems(9) same_snapshot [OF oracle_answers [OF next1]]] Cons.prems(7)
    by (simp add: t1(5) e1(5))
  from Cons.IH [OF next1 acc(2) e1(2) s1(2) t1(2) _ _ this] show ?case
    using t1(1,3,4) e1(3,4) Cons.prems(7,8) by simp
qed auto

text \<open>
  Property C30. The two engines of the replay agree. If a replay with the fast engine (mode
  \<open>simd\<close>) of fewer than \<open>2 ^ 64\<close> bytes ends with status 0, the replay of the same stream with the
  tree engine (mode \<open>map\<close>) also ends with status 0 after the same number of messages. Every depth
  snapshot of the fast engine is also one of the tree engine, with the same prices, depths and
  spread and in the same order; the rows that only the tree engine writes show no price on either
  side (it also writes a row when the symbol has no book yet).
\<close>

theorem replay_engines_agree:
  assumes "replay_stream env d = Some out" "rx_status out = 0" "rp_engine_mode (ren_options env) = ''simd''"
    "length d < 2 ^ 64"
  shows "\<exists>out'. replay_stream (with_tree env) d = Some out' \<and> rx_status out' = 0 \<and>
    rx_messages out' = rx_messages out \<and> rx_final out' = None \<and>
    subseq (rx_depth out) (rx_depth out') \<and>
    filter shows_price (rx_depth out') = filter shows_price (rx_depth out)"
proof -
  let ?bs = "frames d"
  obtain e0 e s where r: "engine_init replay_levels replay_capacity = Some e0" "d = framed ?bs"
    "\<forall>b\<in>set ?bs. dm_type (decoded b) \<noteq> Unknown" "accepted_run (map decoded ?bs) e0"
    "replay_bodies env ?bs \<lparr>re_book = Simd e0, re_stats = no_stats, re_seq = 0, re_malformed = 0,
      re_depth = [], re_ladder = []\<rparr> = Some s" "rx_depth out = re_depth s" "rx_messages out = re_seq s"
    "re_malformed s = 0"
    using replay_clean [OF assms] by blast
  let ?t0 = "\<lparr>re_book = Tree empty_reference, re_stats = no_stats, re_seq = 0, re_malformed = 0,
    re_depth = [], re_ladder = []\<rparr>"
  note init = engine_init_inv [OF r(1)]
  have "oracle_agrees (live e0) empty_reference" using empty_oracle init(2) by simp
  from engines_run [OF init(1) this r(4) _ r(5), of ?t0] obtain t' rb' where
    t': "replay_bodies (with_tree env) ?bs ?t0 = Some t'" "re_book t' = Tree rb'" "re_seq t' = re_seq s"
      "re_malformed t' = 0" "extends_rows (re_depth t') (re_depth s)"
    using r(8) by (auto simp: extends_rows_def)
  have "new_replay (ren_options (with_tree env)) = Some ?t0" by (simp add: new_replay_def)
  moreover have "replay_ok False t'" using t'(2,4) by (simp add: replay_ok_def)
  ultimately show ?thesis
    using t' r(2,6,7) by (simp add: replay_stream_bodies Let_def final_of_def extends_rows_def)
qed

subsection \<open>When a replay returns\<close>

definition options_ok :: "replay_options \<Rightarrow> bool" where
  "options_ok o1 \<longleftrightarrow> 1 \<le> rp_ladder_every o1 \<and> rp_ladder_every o1 < 2 ^ 31 \<and> rp_ladder_depth o1 * 200 < 2 ^ 31"

lemma parse_options_range:
  "parse_options args o0 = Some o1 \<Longrightarrow> rp_ladder_every o0 < 2 ^ 31 \<Longrightarrow> rp_ladder_every o1 < 2 ^ 31"
proof (induction args o0 rule: parse_options.induct)
  case (2 a args o0)
  have plain: "rp_ladder_every (plain_option a o0) = rp_ladder_every o0" by (simp add: plain_option_def)
  show ?case
  proof (cases args)
    case (Cons v rest)
    then show ?thesis
      using 2 plain atoi_range by (auto split: if_splits Option.bind_splits)
  qed (use 2 plain in simp)
qed simp

lemma ladder_due_Some: "options_ok (ren_options env) \<Longrightarrow> ladder_due env seq book \<noteq> None"
proof -
  assume ok: "options_ok (ren_options env)"
  then have "(of_int (rp_ladder_every (ren_options env)) :: u64) \<noteq> 0"
    by (auto simp: options_ok_def word_of_int_eq_0_iff zdvd_not_zless)
  then show ?thesis
    using ok by (auto simp: ladder_due_def Let_def ladder_rows_def options_ok_def split: replay_book.split option.split)
qed

lemma replay_bodies_answers:
  "options_ok (ren_options env) \<Longrightarrow>
   (\<And>e. re_book s = Simd e \<Longrightarrow> engine_inv e \<and> rt_size (be_refs e) + length bs \<le> rt_cap (be_refs e)) \<Longrightarrow>
   \<exists>s'. replay_bodies env bs s = Some s' \<and> re_seq s' = re_seq s + of_nat (length bs)"
proof (induction bs arbitrary: s)
  case (Cons b bs)
  have app: "\<exists>book ex. replay_apply (decoded b) (re_book s) = Some (book, ex) \<and>
      (\<forall>e1. book = Simd e1 \<longrightarrow> engine_inv e1 \<and> rt_size (be_refs e1) + length bs \<le> rt_cap (be_refs e1))"
  proof (cases "re_book s")
    case (Simd e)
    then have e: "engine_inv e" "rt_size (be_refs e) + length (b # bs) \<le> rt_cap (be_refs e)"
      using Cons.prems(2) by auto
    then have "apply_msg (decoded b) e \<noteq> None"
      using run_engine_answers [OF e(1), of "[decoded b]"] e(2) by (cases "apply_msg (decoded b) e") simp_all
    then obtain e1 bk ex where e1: "apply_msg (decoded b) e = Some (e1, bk, ex)" by auto
    then show ?thesis
      using apply_msg_inv [OF e(1) e1] apply_grows [OF e(1) e1] e(2) Simd by (simp add: replay_apply_def)
  qed (simp add: replay_apply_def)
  then obtain book ex where book: "replay_apply (decoded b) (re_book s) = Some (book, ex)"
    "\<And>e1. book = Simd e1 \<Longrightarrow> engine_inv e1 \<and> rt_size (be_refs e1) + length bs \<le> rt_cap (be_refs e1)" by blast
  obtain lrows where "ladder_due env (re_seq s + 1) book = Some lrows"
    using ladder_due_Some [OF Cons.prems(1)] by auto
  then obtain s1 where s1: "replay_body env b s = Some s1" "re_book s1 = book" "re_seq s1 = re_seq s + 1"
    using book(1) by (auto simp: replay_body_def Let_def)
  from Cons.IH [OF Cons.prems(1), of s1] book(2) s1 show ?case by auto
qed simp

lemma replay_main_stream:
  assumes "parse_options args default_options = Some o0" "check_options o0 = Some o1" "replay_input files o1 = Some d"
  shows "\<exists>env. ren_options env = o1 \<and> replay_main files writable args = replay_stream env d"
  using assms
  by (intro exI [of _ "\<lparr>ren_options = o1,
      ren_depth = (rp_csv_dir o1 \<noteq> [] \<and> writable (rp_csv_dir o1 @ ''/book_depth.csv'')),
      ren_ladder = (rp_ladder_dir o1 \<noteq> [] \<and> writable (rp_ladder_dir o1 @ ''/ladder.csv''))\<rparr>"])
    (simp add: replay_main_def)

lemma replay_bodies_Tree:
  "re_book t = Tree rb \<Longrightarrow>
   \<exists>t' rb'. replay_bodies env bs t = Some t' \<and> re_book t' = Tree rb' \<and> re_seq t' = re_seq t + of_nat (length bs) \<and>
     (list_all (\<lambda>b. dm_type (decoded b) \<noteq> Unknown) bs \<longrightarrow> re_malformed t' = re_malformed t)"
proof (induction bs arbitrary: t rb)
  case (Cons b bs)
  obtain t1 where t1: "replay_body env b t = Some t1" "re_book t1 = Tree (ref_apply (decoded b) rb)"
    "re_seq t1 = re_seq t + 1"
    "re_malformed t1 = re_malformed t + (if dm_type (decoded b) = Unknown then 1 else 0)"
    using replay_body_Tree [OF Cons.prems] by blast
  from Cons.IH [OF t1(2)] show ?case using t1(1,3,4) by (auto simp: add.assoc)
qed simp

lemma replay_bodies_runs:
  "options_ok (ren_options env) \<Longrightarrow> re_book s = Simd e \<Longrightarrow> run_engine (map decoded bs) e = Some e' \<Longrightarrow>
   \<exists>s'. replay_bodies env bs s = Some s'"
proof (induction bs arbitrary: s e)
  case (Cons b bs)
  obtain e1 bk ex where e1: "apply_msg (decoded b) e = Some (e1, bk, ex)" "run_engine (map decoded bs) e1 = Some e'"
    using Cons.prems(3) by (auto split: Option.bind_splits)
  obtain lrows where "ladder_due env (re_seq s + 1) (Simd e1) = Some lrows"
    using ladder_due_Some [OF Cons.prems(1)] by auto
  then obtain s1 where "replay_body env b s = Some s1" "re_book s1 = Simd e1"
    using e1(1) Cons.prems(2) by (auto simp: replay_body_def replay_apply_def Let_def)
  then show ?case using Cons.IH [OF Cons.prems(1) _ e1(2), of s1] by auto
qed simp

text \<open>A stream of known messages that the engine takes without an error is replayed with status 0.\<close>

lemma clean_verdict:
  assumes "options_ok (ren_options env)" "engine_init replay_levels replay_capacity = Some e0"
    "frames (framed bodies) = bodies" "list_all (\<lambda>b. dm_type (decoded b) \<noteq> Unknown) bodies"
    "length bodies < 2 ^ 64" "run_engine (map decoded bodies) e0 = Some e" "errors (be_ctr e) = 0"
  shows "\<exists>out. replay_stream env (framed bodies) = Some out \<and> rx_status out = 0 \<and>
    rx_messages out = of_nat (length bodies)"
proof -
  obtain s0 where s0: "new_replay (ren_options env) = Some s0" "re_seq s0 = 0" "re_malformed s0 = 0"
    "re_book s0 = Simd e0 \<or> (\<exists>rb. re_book s0 = Tree rb)"
    using assms(2) by (cases "rp_engine_mode (ren_options env) = ''simd''") (auto simp: new_replay_def)
  have "\<exists>s. replay_bodies env bodies s0 = Some s \<and> re_seq s = of_nat (length bodies) \<and> replay_ok False s"
    using s0(4)
  proof
    assume simd: "re_book s0 = Simd e0"
    obtain s where s: "replay_bodies env bodies s0 = Some s"
      using replay_bodies_runs [OF assms(1) simd assms(6)] by blast
    have "errors (be_ctr e0) = 0" using engine_init_ctr [OF assms(2)] by (simp add: errors_def no_counters_def)
    then obtain e1 where e1: "re_book s = Simd e1"
      "run_stats (map decoded bodies) (e0, re_stats s0) = Some (e1, re_stats s)"
      "unat (re_malformed s) = length (filter (\<lambda>b. dm_type (decoded b) = Unknown) bodies)"
      "re_seq s = of_nat (length bodies)"
      using replay_bodies_Simd [OF s simd] s0(2,3) assms(5) by auto
    then have "e1 = e" using run_stats_engine assms(6) by fastforce
    moreover have "filter (\<lambda>b. dm_type (decoded b) = Unknown) bodies = []"
      using assms(4) by (simp add: list_all_iff filter_empty_conv)
    ultimately have "replay_ok False s" using e1(1,3) assms(7) by (simp add: replay_ok_def clean_errors unat_eq_0)
    then show ?thesis using s e1(4) by simp
  next
    assume "\<exists>rb. re_book s0 = Tree rb"
    then obtain rb where "re_book s0 = Tree rb" by blast
    from replay_bodies_Tree [OF this, of env bodies] show ?thesis
      using assms(4) s0(2,3) by (auto simp: replay_ok_def)
  qed
  then obtain s where "replay_bodies env bodies s0 = Some s" "re_seq s = of_nat (length bodies)" "replay_ok False s"
    by blast
  then show ?thesis using s0(1) assms(3) by (simp add: replay_stream_bodies Let_def)
qed

text \<open>
  Property C31. A replay returns. When the argument loop and the checks leave options whose
  ladder bound fits an int and the input has at most as many frames as the reference table has
  slots, the program ends, after exactly the frames of its input, with status 0 or 3, and with 0
  only when the frames are the whole input: no deletion loop of the table runs forever, nothing
  is read outside the input, and no remainder by zero or signed overflow occurs.
\<close>

theorem replay_returns:
  assumes "parse_options args default_options = Some o0" "check_options o0 = Some o1"
    "rp_ladder_depth o1 \<le> 10737418" "replay_input files o1 = Some d" "length (frames d) \<le> 2 ^ 21"
  shows "\<exists>out. replay_main files writable args = Some out \<and> rx_status out \<in> {0, 3} \<and>
    rx_messages out = of_nat (length (frames d)) \<and> (rx_status out = 0 \<longrightarrow> framed (frames d) = d)"
proof -
  have "rp_ladder_every o0 < 2 ^ 31"
    by (rule parse_options_range [OF assms(1)]) (simp add: default_options_def)
  then have ok: "options_ok o1"
    using assms(2,3) by (auto simp: check_options_def options_ok_def split: if_splits)
  obtain e0 where e0: "engine_init replay_levels replay_capacity = Some e0"
    using engine_init_exists [of replay_capacity] by (auto simp: replay_capacity_def)
  have init: "engine_inv e0" "rt_size (be_refs e0) = 0" "2 ^ 21 \<le> rt_cap (be_refs e0)"
    using engine_init_inv(1,5,6) [OF e0] by (simp_all add: replay_capacity_def)
  obtain s0 where s0: "new_replay o1 = Some s0" "re_seq s0 = 0" "\<And>e. re_book s0 = Simd e \<Longrightarrow> e = e0"
    using e0 by (cases "rp_engine_mode o1 = ''simd''") (auto simp: new_replay_def)
  obtain env where env: "ren_options env = o1" "replay_main files writable args = replay_stream env d"
    using replay_main_stream [OF assms(1,2,4)] by blast
  have "\<exists>s. replay_bodies env (frames d) s0 = Some s \<and> re_seq s = re_seq s0 + of_nat (length (frames d))"
    using ok s0(3) init assms(5) env(1) by (intro replay_bodies_answers) auto
  then obtain s where s: "replay_bodies env (frames d) s0 = Some s" "re_seq s = of_nat (length (frames d))"
    using s0(2) by auto
  then show ?thesis
    using env s0(1) by (simp add: replay_stream_bodies Let_def replay_ok_def)
qed

subsection \<open>A sample replay\<close>

text \<open>A file of one trade print of 100 shares at 5, replayed with the final line asked for.\<close>

definition trade_file :: bytes where
  "trade_file = build_trade SIDE_BUY 100 5"

definition sample_files :: "string \<Rightarrow> bytes option" where
  "sample_files path = (if path = ''trade.itch'' then Some trade_file else None)"

definition sample_options :: replay_options where
  "sample_options = default_options\<lparr>rp_file := ''trade.itch'', rp_final_state := True\<rparr>"

definition sample_env :: replay_env where
  "sample_env = \<lparr>ren_options = sample_options, ren_depth = False, ren_ladder = False\<rparr>"

lemma sample_parses:
  "parse_options [''trade.itch'', ''--final-state''] default_options = Some sample_options"
  "check_options sample_options = Some sample_options"
  "replay_input sample_files sample_options = Some trade_file"
  by (simp_all add: sample_options_def default_options_def plain_option_def check_options_def replay_input_def
      acquire_def sample_files_def)

lemma trade_frames:
  "frames trade_file = [drop 2 trade_file]" "framed (frames trade_file) = trade_file"
proof -
  obtain body where body: "trade_file = frame body" "frameable body"
    unfolding trade_file_def build_trade_frame by (auto simp: frameable_def build_head_def)
  then show "frames trade_file = [drop 2 trade_file]" "framed (frames trade_file) = trade_file"
    using frames_frame [OF body(2), of "[]"] unfolding body(1) by (simp_all add: frame_def)
qed

lemma trade_decoded: "decoded (drop 2 trade_file) = (head_msg Trade 1 0)
    \<lparr>dm_side := SIDE_BUY, dm_shares := 100, dm_price := 5, dm_match_number := 9\<rparr>"
  unfolding trade_file_def by (rule build_decoded)

lemma trade_replay:
  "\<exists>out. replay_stream sample_env trade_file = Some out \<and> rx_status out = 0"
proof -
  obtain e0 where e0: "engine_init replay_levels replay_capacity = Some e0"
    using engine_init_exists [of replay_capacity] by (auto simp: replay_capacity_def)
  have "errors (be_ctr e0) = 0" using engine_init_ctr [OF e0] by (simp add: errors_def no_counters_def)
  then show ?thesis
    using e0 trade_frames
    by (simp add: replay_stream_bodies sample_env_def sample_options_def default_options_def new_replay_def
        replay_body_def decode_body_Some trade_decoded head_msg_def replay_apply_def apply_msg_def ladder_due_def
        replay_ok_def clean_errors count_def errors_def Let_def)
qed


text \<open>
  A stream of one order and 999 trade prints: with depth snapshots switched on, the one at the
  thousandth message shows the order.
\<close>

definition depth_bodies :: "bytes list" where
  "depth_bodies = drop 2 (build_add 7 SIDE_BUY 100 5 1) # replicate 999 (drop 2 trade_file)"

definition depth_env :: replay_env where
  "depth_env = \<lparr>ren_options = default_options, ren_depth = True, ren_ladder = False\<rparr>"

lemma depth_frames: "frames (framed depth_bodies) = depth_bodies"
  "list_all (\<lambda>b. dm_type (decoded b) \<noteq> Unknown) depth_bodies" "length depth_bodies = 1000"
proof -
  have "frameable (drop 2 trade_file)" using frames_frameable [of trade_file] by (simp add: trade_frames(1))
  moreover have "frameable (drop 2 (build_add 7 SIDE_BUY 100 5 1))"
    by (simp add: build_add_frame frame_def frameable_def build_head_def)
  ultimately have "list_all frameable depth_bodies" by (simp add: depth_bodies_def list_all_iff)
  from frames_framed [OF this, of "[]"] show "frames (framed depth_bodies) = depth_bodies" by simp
  show "list_all (\<lambda>b. dm_type (decoded b) \<noteq> Unknown) depth_bodies" "length depth_bodies = 1000"
    by (simp_all add: depth_bodies_def list_all_iff trade_decoded build_decoded head_msg_def)
qed

lemma run_prints: "\<exists>e'. run_engine (replicate n (decoded (drop 2 trade_file))) e = Some e' \<and>
    errors (be_ctr e') = errors (be_ctr e)"
proof (induction n arbitrary: e)
  case (Suc n)
  have "\<exists>e1 bk ex. apply_msg (decoded (drop 2 trade_file)) e = Some (e1, bk, ex) \<and>
      errors (be_ctr e1) = errors (be_ctr e)"
    by (simp add: apply_msg_def trade_decoded head_msg_def count_def errors_def Let_def)
  then obtain e1 bk ex where e1: "apply_msg (decoded (drop 2 trade_file)) e = Some (e1, bk, ex)"
    "errors (be_ctr e1) = errors (be_ctr e)" by blast
  show ?case using Suc.IH [of e1] e1 by simp
qed simp

lemma depth_run:
  assumes "engine_init replay_levels replay_capacity = Some e0"
  shows "\<exists>e. run_engine (map decoded depth_bodies) e0 = Some e \<and> errors (be_ctr e) = 0"
proof -
  let ?m = "decoded (drop 2 (build_add 7 SIDE_BUY 100 5 1))"
  note init = engine_init_inv [OF assms]
  have "apply_msg ?m e0 \<noteq> None"
    using run_engine_answers [OF init(1), of "[?m]"] init(5,6)
    by (cases "apply_msg ?m e0") (simp_all add: replay_capacity_def)
  then obtain e1 bk ex where e1: "apply_msg ?m e0 = Some (e1, bk, ex)" by auto
  have "be_status e1 = event_status (be_price_levels e0) (rt_cap (be_refs e0)) (live e0) ?m"
    using apply_msg_Some [OF init(1) e1] by (simp add: steps_to_def)
  also have "\<dots> = Applied"
    using init(2,3,5) by (simp add: build_decoded head_msg_def event_status_def add_status_def headroom_def bad_order_def is_side_def
        qty_def level_sum_def one_def empty_message_def replay_levels_def replay_capacity_def)
  finally have "errors (be_ctr e1) = 0"
    using apply_msg_counted [of e0 ?m] e1 engine_init_ctr [OF assms]
    by (simp add: counted_outcome_def clean_def errors_def no_counters_def)
  then show ?thesis using e1 run_prints [of 999 e1] by (auto simp: depth_bodies_def)
qed

lemma tree_prints:
  "re_book t = Tree rb \<Longrightarrow> unat (re_seq t) + n < 1000 \<Longrightarrow>
   \<exists>t'. replay_bodies env (replicate n (drop 2 trade_file)) t = Some t' \<and> re_book t' = Tree rb \<and>
     unat (re_seq t') = unat (re_seq t) + n \<and> re_depth t' = re_depth t"
proof (induction n arbitrary: t)
  case (Suc n)
  have seq: "unat (re_seq t + 1) = unat (re_seq t) + 1" using Suc.prems(2) by (simp add: unat_plus_no_wrap)
  have "unat ((re_seq t + 1) mod 1000) \<noteq> 0" using Suc.prems(2) unfolding unat_mod seq by simp
  then have no: "(re_seq t + 1) mod 1000 \<noteq> 0" by (metis unsigned_0)
  have same: "ref_apply (decoded (drop 2 trade_file)) rb = rb" by (simp add: trade_decoded head_msg_def ref_apply_def)
  obtain t1 where t1: "replay_body env (drop 2 trade_file) t = Some t1" "re_book t1 = Tree rb"
    "re_seq t1 = re_seq t + 1" "re_depth t1 = re_depth t"
    using replay_body_Tree [OF Suc.prems(1), of env "drop 2 trade_file"] no by (auto simp: same snapshot_def)
  then show ?case using Suc.IH [OF t1(2)] Suc.prems(2) seq by auto
qed simp

lemma replay_bodies_append:
  "replay_bodies env (xs @ ys) s = Option.bind (replay_bodies env xs s) (replay_bodies env ys)"
  by (induction xs arbitrary: s) (auto split: Option.bind_splits)

definition depth_row_1000 :: depth_row where
  "depth_row_1000 = \<lparr>dr_seq = 1000, dr_locate = 1, dr_bid = 5, dr_bid_depth = 100, dr_ask = 0, dr_ask_depth = 0,
     dr_spread = 0\<rparr>"

lemma order_rows: "depth_rows 1 1000 (Tree (ref_apply ((head_msg AddOrder 1 0)
     \<lparr>dm_order_ref := 7, dm_side := SIDE_BUY, dm_shares := 100, dm_price := 5\<rparr>) empty_reference)) = [depth_row_1000]"
  by code_simp

lemma tree_depth:
  assumes "replay_stream (with_tree depth_env) (framed depth_bodies) = Some out"
  shows "rx_depth out = [depth_row_1000]"
proof -
  let ?env = "with_tree depth_env" and ?p = "drop 2 trade_file" and ?a = "drop 2 (build_add 7 SIDE_BUY 100 5 1)"
  let ?t0 = "\<lparr>re_book = Tree empty_reference, re_stats = no_stats, re_seq = 0, re_malformed = 0,
    re_depth = [], re_ladder = []\<rparr>"
  let ?rb = "ref_apply (decoded ?a) empty_reference"
  have env: "ren_depth ?env" "rp_primary (ren_options ?env) = 1"
    by (simp_all add: depth_env_def default_options_def)
  obtain t1 where t1: "replay_body ?env ?a ?t0 = Some t1" "re_book t1 = Tree ?rb" "re_seq t1 = 1" "re_depth t1 = []"
    using replay_body_Tree [of ?t0 empty_reference ?env ?a] by (auto simp: snapshot_def)
  obtain t2 where t2: "replay_bodies ?env (replicate 998 ?p) t1 = Some t2" "re_book t2 = Tree ?rb"
    "unat (re_seq t2) = 999" "re_depth t2 = []"
    using tree_prints [OF t1(2), of 998 ?env] t1(3,4) by auto
  have "re_seq t2 = of_nat (unat (re_seq t2))" by simp
  then have seq: "re_seq t2 = 999" unfolding t2(3) by simp
  have same: "ref_apply (decoded ?p) ?rb = ?rb" by (simp add: trade_decoded head_msg_def ref_apply_def)
  obtain t3 where t3: "replay_body ?env ?p t2 = Some t3"
    "re_depth t3 = snapshot ?env 1000 (Tree ?rb)"
    using replay_body_Tree [OF t2(2), of ?env ?p] by (auto simp: same t2(4) seq)
  have "replicate 999 ?p = replicate 998 ?p @ [?p]" using replicate_append_same [of 998 ?p] by (simp flip: replicate_Suc)
  then have "replay_bodies ?env depth_bodies ?t0 = Some t3"
    by (simp add: depth_bodies_def t1(1) replay_bodies_append t2(1) t3(1))
  then have "rx_depth out = snapshot ?env 1000 (Tree ?rb)"
    using assms t3(2) by (auto simp: replay_stream_bodies depth_frames(1) new_replay_def Let_def)
  also have "\<dots> = [depth_row_1000]"
    using env order_rows unfolding build_decoded snapshot_def by simp
  finally show ?thesis .
qed

theorem replay_engines_agree_witness:
  "\<exists>out out'. replay_stream depth_env (framed depth_bodies) = Some out \<and>
     replay_stream (with_tree depth_env) (framed depth_bodies) = Some out' \<and>
     rx_depth out' = [depth_row_1000] \<and> filter shows_price (rx_depth out) = [depth_row_1000]"
proof -
  obtain e0 where e0: "engine_init replay_levels replay_capacity = Some e0"
    using engine_init_exists [of replay_capacity] by (auto simp: replay_capacity_def)
  obtain e where e: "run_engine (map decoded depth_bodies) e0 = Some e" "errors (be_ctr e) = 0"
    using depth_run [OF e0] by blast
  have env: "options_ok (ren_options depth_env)" "rp_engine_mode (ren_options depth_env) = ''simd''"
    by (simp_all add: depth_env_def default_options_def options_ok_def)
  obtain out where out: "replay_stream depth_env (framed depth_bodies) = Some out" "rx_status out = 0"
    using clean_verdict [OF env(1) e0 depth_frames(1,2) _ e] depth_frames(3) by auto
  have "length (framed depth_bodies) < 2 ^ 64"
    by (simp add: depth_bodies_def framed_def length_concat sum_list_replicate frame_def build_add_frame
        trade_file_def build_trade_frame build_head_def)
  from replay_engines_agree [OF out env(2) this] obtain out' where
    "replay_stream (with_tree depth_env) (framed depth_bodies) = Some out'"
    "filter shows_price (rx_depth out') = filter shows_price (rx_depth out)" by blast
  moreover from this(1) have "rx_depth out' = [depth_row_1000]" by (rule tree_depth)
  ultimately show ?thesis using out(1) by (auto simp: shows_price_def depth_row_1000_def)
qed

theorem replay_returns_witness:
  "\<exists>out. replay_main sample_files (\<lambda>_. False) [''trade.itch'', ''--final-state''] = Some out \<and> rx_messages out = 1"
proof -
  have "rp_ladder_depth sample_options \<le> 10737418" by (simp add: sample_options_def default_options_def)
  from replay_returns [OF sample_parses(1,2) this sample_parses(3), of "\<lambda>_. False"] show ?thesis
    by (auto simp: trade_frames(1))
qed

subsection \<open>Lost packets\<close>

text \<open>
  The verdict covers the decapsulated stream only: a capture from which the eight messages
  before the trade print are missing is counted as a gap, and its replay still ends with
  status 0.
\<close>

definition lossy_capture :: bytes where
  "lossy_capture = mold_pkt (1, []) @ mold_pkt (9, [drop 2 trade_file])"

lemma lost_packets_pass:
  "\<exists>st out. mold_decap lossy_capture = Some (st, trade_file) \<and> ml_gap_msgs st = 8 \<and>
     replay_stream sample_env trade_file = Some out \<and> rx_status out = 0"
proof -
  let ?ps = "[(1, []), (9, [drop 2 trade_file])]"
  have frame: "frame (drop 2 trade_file) = trade_file" using trade_frames by simp
  have "frameable (drop 2 trade_file)" using frames_frameable [of trade_file] by (simp add: trade_frames(1))
  then have ok: "list_all packet_ok ?ps" "spaced (due no_mold_stats) ?ps"
    by (simp_all add: packet_ok_def due_def no_mold_stats_def)
  have "mold_walk lossy_capture 0 (no_mold_stats, []) =
      Some (fold take_packet ?ps no_mold_stats, map frame (concat (map snd ?ps)))"
    using mold_walk_packets [OF ok, of "[]" "[]" "[]"]
    by (simp add: lossy_capture_def mold_walk_short MOLD_HDR_BYTES_def)
  then have "mold_decap lossy_capture = Some (fold take_packet ?ps no_mold_stats, trade_file)"
    by (simp add: mold_decap_def frame)
  moreover have "ml_gap_msgs (fold take_packet ?ps no_mold_stats) = 8"
    by (simp add: take_packet_fields no_mold_stats_def)
  ultimately show ?thesis using trade_replay by blast
qed

end
