(* ===== verification/ReplaySynthetic.thy ===== *)
theory ReplaySynthetic
  imports ReplayModes ItchGenProps
begin

text \<open>
  The replay of the program's own synthetic stream, end to end: argument loop, generator, either
  book, verdict.
\<close>

lemma clean_run_errors:
  "clean_run ms e \<Longrightarrow> run_engine ms e = Some e' \<Longrightarrow> errors (be_ctr e) + 1 < 2 ^ 64 \<Longrightarrow>
   errors (be_ctr e') = errors (be_ctr e)"
proof (induction ms arbitrary: e)
  case (Cons m ms)
  obtain e1 bk ex where e1: "apply_msg m e = Some (e1, bk, ex)" "be_status e1 = Applied" "clean_run ms e1"
    "run_engine ms e1 = Some e'"
    using Cons.prems(1,2) by (auto split: option.splits Option.bind_splits)
  have "errors (be_ctr e1) = errors (be_ctr e)"
    using apply_msg_counted [of e m] e1(1,2) Cons.prems(3) by (simp add: counted_outcome_def clean_def)
  then show ?case using Cons.IH [OF e1(3,4)] Cons.prems(3) by simp
qed simp

text \<open>Four symbols and any seed.\<close>

definition seeded_config :: "u64 \<Rightarrow> gen_config" where
  "seeded_config seed = default_gen_config\<lparr>gc_num_symbols := 4, gc_seed := seed\<rparr>"

definition seeded_stream :: "u64 \<Rightarrow> nat \<Rightarrow> bytes option" where
  "seeded_stream seed n = do {
     g \<leftarrow> new_generator (seeded_config seed);
     (stream, g1) \<leftarrow> generate n g;
     Some stream
   }"

lemma synthetic_seeded: "synthetic_input n = seeded_stream 0xC0FFEE12345 n"
  by (simp add: synthetic_input_def seeded_stream_def seeded_config_def default_gen_config_def)

lemma seeded_config_ok: "gen_config_ok (seeded_config seed)"
  by (simp add: gen_config_ok_def seeded_config_def default_gen_config_def mid_price_def mid_ok_def Let_def upt_rec)

lemma seeded_bodies:
  assumes "engine_init replay_levels replay_capacity = Some e0" "n \<le> 2 ^ 21"
  shows "\<exists>bodies e. seeded_stream seed n = Some (framed bodies) \<and> frames (framed bodies) = bodies \<and>
    list_all (\<lambda>b. dm_type (decoded b) \<noteq> Unknown) bodies \<and> length bodies = n + 4 \<and>
    run_engine (map decoded bodies) e0 = Some e \<and> errors (be_ctr e) = 0"
proof -
  have "n * unat (gc_max_shares (seeded_config seed)) < 2 ^ 32" "gc_max_price (seeded_config seed) < replay_levels"
    "n \<le> unat replay_capacity" "n < 2 ^ 31"
    using assms(2) by (simp_all add: seeded_config_def default_gen_config_def replay_levels_def replay_capacity_def)
  then obtain g0 bodies g e where gen: "new_generator (seeded_config seed) = Some g0"
    "generate n g0 = Some (framed bodies, g)" "list_all frameable bodies"
    "list_all (\<lambda>b. dm_type (decoded b) \<noteq> Unknown) bodies" "length bodies = n + 4"
    "clean_run (map decoded bodies) e0" "run_engine (map decoded bodies) e0 = Some e"
    using generated_stream [OF seeded_config_ok _ _ assms(1)] by blast
  have "errors (be_ctr e0) = 0" using engine_init_ctr [OF assms(1)] by (simp add: errors_def no_counters_def)
  then have "errors (be_ctr e) = 0" using clean_run_errors [OF gen(6,7)] by simp
  moreover have "frames (framed bodies) = bodies" using frames_framed [OF gen(3), of "[]"] by simp
  ultimately show ?thesis using gen by (auto simp: seeded_stream_def)
qed

lemma seeded_verdict:
  assumes "options_ok (ren_options env)" "n \<le> 2 ^ 21" "seeded_stream seed n = Some d"
  shows "\<exists>out. replay_stream env d = Some out \<and> rx_status out = 0 \<and> rx_messages out = of_nat (n + 4)"
proof -
  obtain e0 where e0: "engine_init replay_levels replay_capacity = Some e0"
    using engine_init_exists [of replay_capacity] by (auto simp: replay_capacity_def)
  obtain bodies e where b: "d = framed bodies" "frames (framed bodies) = bodies"
    "list_all (\<lambda>b. dm_type (decoded b) \<noteq> Unknown) bodies" "length bodies = n + 4"
    "run_engine (map decoded bodies) e0 = Some e" "errors (be_ctr e) = 0"
    using seeded_bodies [OF e0 assms(2), of seed] assms(3) by auto
  moreover have "length bodies < 2 ^ 64" using b(4) assms(2) by simp
  ultimately show ?thesis using clean_verdict [OF assms(1) e0 b(2,3) _ b(5,6)] by simp
qed

text \<open>
  A synthetic replay succeeds: whenever the options ask for up to \<open>2 ^ 21\<close> generated
  messages, or name a file that cannot be opened, the program ends with status 0 after all
  generated messages and the four session events, with either book and whatever snapshots are
  written.
\<close>

theorem synthetic_replay_succeeds:
  assumes "parse_options args default_options = Some o0" "check_options o0 = Some o1"
    "rp_ladder_depth o1 \<le> 10737418" "\<not> rp_mold_in o1"
    and n: "n = (if rp_gen_n o1 > 0 then unat (rp_gen_n o1) else 100000)" "n \<le> 2 ^ 21"
      "rp_gen_n o1 = 0 \<Longrightarrow> files (rp_file o1) = None"
  shows "\<exists>out. replay_main files writable args = Some out \<and> rx_status out = 0 \<and> rx_messages out = of_nat (n + 4)"
proof -
  have "rp_ladder_every o0 < 2 ^ 31"
    by (rule parse_options_range [OF assms(1)]) (simp add: default_options_def)
  then have ok: "options_ok o1"
    using assms(2,3) by (auto simp: check_options_def options_ok_def split: if_splits)
  obtain e0 where "engine_init replay_levels replay_capacity = Some e0"
    using engine_init_exists [of replay_capacity] by (auto simp: replay_capacity_def)
  then obtain d where "seeded_stream 0xC0FFEE12345 n = Some d" using seeded_bodies n(2) by blast
  then have d: "synthetic_input n = Some d" by (simp only: synthetic_seeded)
  then have "replay_input files o1 = Some d"
    using assms(4) n(1,3) by (cases "rp_gen_n o1 = 0") (auto simp: replay_input_def acquire_def word_neq_0_conv)
  from replay_main_stream [OF assms(1,2) this] obtain env where
    "ren_options env = o1" "replay_main files writable args = replay_stream env d" by blast
  then show ?thesis using seeded_verdict [OF _ n(2) d [unfolded synthetic_seeded], of env] ok by simp
qed

theorem synthetic_replay_succeeds_witness:
  "\<exists>out. replay_main (\<lambda>_. None) (\<lambda>_. True) [''--gen'', ''12'', ''--engine'', ''map''] = Some out \<and>
     rx_status out = 0 \<and> rx_messages out = 16"
proof -
  let ?o = "default_options\<lparr>rp_gen_n := 12, rp_engine_mode := ''map''\<rparr>"
  have "strtoull ''12'' = 12" by (simp add: strtoull_def read_decimal_def is_blank_def is_digit_def)
  then have parsed: "parse_options [''--gen'', ''12'', ''--engine'', ''map''] default_options = Some ?o" by simp
  have checked: "check_options ?o = Some ?o" by (simp add: check_options_def default_options_def)
  show ?thesis
    using synthetic_replay_succeeds [OF parsed checked, of 12] by (simp add: default_options_def)
qed

end
