(* ===== verification/Tools.thy ===== *)
theory Tools
  imports ReplaySynthetic
begin

text \<open>
  The two command-line tools that make input files, \<open>src/tools/gen_itch.cpp\<close> and the command line
  of \<open>src/tools/mold_wrap.cpp\<close>, and the whole chain: generate, wrap into packets, replay the
  packets. A run of a tool is its exit status and the file it wrote, if any; paths can be
  writable or not.
\<close>

record tool_run =
  tl_status :: int
  tl_written :: "(string \<times> bytes) option"

definition tool_fails :: "int \<Rightarrow> tool_run" where
  "tool_fails st = \<lparr>tl_status = st, tl_written = None\<rparr>"

subsection \<open>gen\_itch\<close>

text \<open>The arguments behind the program name: output, number of messages, symbols, seed.\<close>

definition gen_itch_main :: "(string \<Rightarrow> bool) \<Rightarrow> string list \<Rightarrow> tool_run option" where
  "gen_itch_main writable args =
     (if length args < 1 then Some (tool_fails 2)
      else do {
        let n = (if length args > 1 then strtoull (args ! 1) else 200000);
        symbols \<leftarrow> (if length args > 2 then atoi (args ! 2) else Some 4);
        let seed = (if length args > 3 then strtoull (args ! 3) else 0xC0FFEE12345);
        g \<leftarrow> new_generator (default_gen_config\<lparr>gc_num_symbols := of_int symbols, gc_seed := seed\<rparr>);
        (stream, g1) \<leftarrow> generate (unat n) g;
        Some (if writable (args ! 0) then \<lparr>tl_status = 0, tl_written = Some (args ! 0, stream)\<rparr> else tool_fails 1)
      })"

subsection \<open>mold\_wrap\<close>

record wrap_args =
  wa_per_pkt :: u64
  wa_seq :: u64
  wa_end_pkt :: bool
  wa_drop :: "u64 set"

definition default_wrap :: wrap_args where
  "default_wrap = \<lparr>wa_per_pkt = 4, wa_seq = 1, wa_end_pkt = True, wa_drop = {}\<rparr>"

text \<open>\<open>None\<close> is an unknown argument, or an option that lacks its value.\<close>

fun wrap_options :: "string list \<Rightarrow> wrap_args \<Rightarrow> wrap_args option" where
  "wrap_options [] w = Some w"
| "wrap_options (a # args) w =
     (case args of
        v # rest \<Rightarrow>
          if a = ''--msgs-per-packet'' then wrap_options rest (w\<lparr>wa_per_pkt := strtoull v\<rparr>)
          else if a = ''--start-seq'' then wrap_options rest (w\<lparr>wa_seq := strtoull v\<rparr>)
          else if a = ''--drop-packet'' then wrap_options rest (w\<lparr>wa_drop := insert (strtoull v) (wa_drop w)\<rparr>)
          else if a = ''--no-end'' then wrap_options args (w\<lparr>wa_end_pkt := False\<rparr>)
          else None
      | [] \<Rightarrow> if a = ''--no-end'' then Some (w\<lparr>wa_end_pkt := False\<rparr>) else None)"

definition mold_wrap_main ::
  "(string \<Rightarrow> bytes option) \<Rightarrow> (string \<Rightarrow> bool) \<Rightarrow> string list \<Rightarrow> tool_run"
where
  "mold_wrap_main files writable args =
     (case args of
        in_path # out_path # opts \<Rightarrow>
          (case wrap_options opts default_wrap of
             None \<Rightarrow> tool_fails 2
           | Some w \<Rightarrow>
               if wa_per_pkt w = 0 \<or> wa_per_pkt w \<ge> 0xFFFF then tool_fails 2
               else (case files in_path of
                   None \<Rightarrow> tool_fails 1
                 | Some d \<Rightarrow>
                     (case mold_wrap (unat (wa_per_pkt w)) (wa_seq w) (wa_drop w) (wa_end_pkt w) d of
                        None \<Rightarrow> tool_fails 2
                      | Some out \<Rightarrow>
                          if writable out_path then \<lparr>tl_status = 0, tl_written = Some (out_path, out)\<rparr>
                          else tool_fails 1)))
      | _ \<Rightarrow> tool_fails 2)"

lemma mold_wrap_size: "per < 0xFFFF \<Longrightarrow> per \<noteq> 0 \<Longrightarrow> mold_wrap per seq dropped end_pkt d \<noteq> None"
  by (simp add: mold_wrap_def split: prod.split)

subsection \<open>The chain\<close>

lemma gen_itch_writes:
  assumes "writable out" "seeded_stream (strtoull seed) (unat (strtoull n)) = Some stream"
  shows "gen_itch_main writable [out, n, ''4'', seed] = Some \<lparr>tl_status = 0, tl_written = Some (out, stream)\<rparr>"
proof -
  have "atoi ''4'' = Some 4" by (simp add: atoi_def read_decimal_def is_blank_def is_digit_def)
  then show ?thesis
    using assms by (auto simp: gen_itch_main_def seeded_stream_def seeded_config_def Let_def split: Option.bind_splits)
qed

lemma wrap_whole:
  assumes "framed (frames d) = d" "length (frames d) < 2 ^ 63"
  shows "\<exists>packets st. mold_wrap 4 1 {} True d = Some packets \<and> mold_decap packets = Some (st, d)"
proof -
  obtain packets where packets: "mold_wrap 4 1 {} True d = Some packets" using mold_wrap_size [of 4] by fastforce
  let ?ps = "kept_packets 4 {} (frames d) 0 1"
  have whole: "concat (map snd ?ps) = frames d" by (rule kept_all) simp
  have "unat (1 :: u64) + length (frames d) < 2 ^ 64" using assms(2) by simp
  from unwrap_wrapped [OF packets this, of "[]"] show ?thesis
    using packets whole assms(1) by (auto simp: Let_def)
qed

text \<open>
  Property C32. The chain of tools works end to end. For every seed and up to \<open>2 ^ 21\<close> messages:
  \<open>gen_itch\<close> writes a stream, \<open>mold_wrap\<close> turns that file into packets, and the replay of the
  packet file ends with status 0 after the generated messages and the four session events.
\<close>

theorem tool_chain_succeeds:
  assumes "unat (strtoull n) \<le> 2 ^ 21" "writable a" "writable (c # cs)" "c \<noteq> CHR ''-''"
  shows "\<exists>stream packets out.
    gen_itch_main writable [a, n, ''4'', seed] = Some \<lparr>tl_status = 0, tl_written = Some (a, stream)\<rparr> \<and>
    mold_wrap_main [a \<mapsto> stream] writable [a, c # cs] = \<lparr>tl_status = 0, tl_written = Some (c # cs, packets)\<rparr> \<and>
    replay_main [c # cs \<mapsto> packets] writable [c # cs, ''--mold''] = Some out \<and>
    rx_status out = 0 \<and> rx_messages out = of_nat (unat (strtoull n) + 4)"
proof -
  let ?n = "unat (strtoull n)" and ?s = "strtoull seed"
  let ?o = "default_options\<lparr>rp_file := c # cs, rp_mold_in := True\<rparr>"
  obtain e0 where e0: "engine_init replay_levels replay_capacity = Some e0"
    using engine_init_exists [of replay_capacity] by (auto simp: replay_capacity_def)
  obtain stream bodies where st: "seeded_stream ?s ?n = Some stream" "stream = framed bodies" "frames stream = bodies"
    "length bodies = ?n + 4"
    using seeded_bodies [OF e0 assms(1), of ?s] by auto
  have "framed (frames stream) = stream" "length (frames stream) < 2 ^ 63" using st assms(1) by simp_all
  then obtain packets mst where packets: "mold_wrap 4 1 {} True stream = Some packets"
    "mold_decap packets = Some (mst, stream)"
    using wrap_whole by blast
  have parsed: "parse_options [c # cs, ''--mold''] default_options = Some ?o" "check_options ?o = Some ?o"
    using assms(4) by (simp_all add: plain_option_def check_options_def default_options_def)
  have input: "replay_input [c # cs \<mapsto> packets] ?o = Some stream"
    using packets(2) by (simp add: replay_input_def acquire_def default_options_def)
  have "options_ok ?o" by (simp add: options_ok_def default_options_def)
  moreover obtain env where "ren_options env = ?o"
    "replay_main [c # cs \<mapsto> packets] writable [c # cs, ''--mold''] = replay_stream env stream"
    using replay_main_stream [OF parsed input] by blast
  ultimately obtain out where "replay_main [c # cs \<mapsto> packets] writable [c # cs, ''--mold''] = Some out"
    "rx_status out = 0" "rx_messages out = of_nat (?n + 4)"
    using seeded_verdict [OF _ assms(1) st(1), of env] by auto
  moreover have "mold_wrap_main [a \<mapsto> stream] writable [a, c # cs] =
      \<lparr>tl_status = 0, tl_written = Some (c # cs, packets)\<rparr>"
    using packets(1) assms(3) by (simp add: mold_wrap_main_def default_wrap_def)
  ultimately show ?thesis using gen_itch_writes [of writable, OF assms(2) st(1)] by blast
qed

theorem tool_chain_succeeds_witness:
  "\<exists>stream packets out.
    gen_itch_main (\<lambda>_. True) [''a'', ''5'', ''4'', ''7''] = Some \<lparr>tl_status = 0, tl_written = Some (''a'', stream)\<rparr> \<and>
    mold_wrap_main [''a'' \<mapsto> stream] (\<lambda>_. True) [''a'', ''b''] = \<lparr>tl_status = 0, tl_written = Some (''b'', packets)\<rparr> \<and>
    replay_main [''b'' \<mapsto> packets] (\<lambda>_. True) [''b'', ''--mold''] = Some out \<and> rx_status out = 0 \<and> rx_messages out = 9"
proof -
  have n: "strtoull ''5'' = 5" by (simp add: strtoull_def read_decimal_def is_blank_def is_digit_def)
  show ?thesis using tool_chain_succeeds [of "''5''" "\<lambda>_. True" "''a''" "CHR ''b''" "[]" "''7''"] by (simp add: n)
qed

end
