(* ===== verification/RtlDriver.thy ===== *)
theory RtlDriver
  imports SimStreams
begin

text \<open>
  The driver of the Verilated circuit, \<open>src/sim/rtl_driver.hpp\<close>. The build generates the class
  \<open>Vorderbook_top\<close> from the circuit: here it is a parameter, a state with an evaluation and with
  output ports that are a function of the state. The input ports are plain variables of the model,
  which the driver sets. Callbacks get the ports and the model, and a state of their own.
\<close>

subsection \<open>The Verilated model\<close>

record pins =
  pn_clk :: bool
  pn_rst :: bool
  pn_raw_mode :: bool
  pn_mold_mode :: bool
  pn_in_data :: "u32 list"
  pn_in_nbytes :: u8
  pn_in_valid :: bool
  pn_in_sop :: bool
  pn_band_cfg_valid :: bool
  pn_band_cfg_base :: u32
  pn_dbg_is_bid :: bool
  pn_dbg_price :: u32

record ports =
  po_in_ready :: bool
  po_best_bid_valid :: bool
  po_best_bid_price :: u32
  po_best_bid_shares :: u32
  po_best_ask_valid :: bool
  po_best_ask_price :: u32
  po_best_ask_shares :: u32
  po_tot_bid_vol :: u64
  po_tot_ask_vol :: u64
  po_band_base :: u32
  po_band_drops :: u32
  po_dbg_shares :: u32
  po_dbg_count :: u32
  po_vwap_num :: u64
  po_vwap_den :: u64
  po_spread_valid :: bool
  po_spread :: u32
  po_trade_count :: u64
  po_add_cycles :: u64
  po_delete_cycles :: u64
  po_replace_cycles :: u64
  po_scan_count :: u64
  po_scan_cycles_total :: u64
  po_hash_probe_1 :: u64
  po_hash_probe_2 :: u64
  po_hash_probe_gt2 :: u64
  po_tbl_ins_fails :: u32
  po_ingest_stall_cycles :: u64
  po_msg_total :: u64

record 'm top =
  tp_pins :: pins
  tp_model :: 'm

record 'm verilated =
  vm_new :: "'m top"
  vm_eval :: "pins \<Rightarrow> 'm \<Rightarrow> 'm"
  vm_ports :: "'m \<Rightarrow> ports"

definition eval_top :: "'m verilated \<Rightarrow> 'm top \<Rightarrow> 'm top" where
  "eval_top V t = t\<lparr>tp_model := vm_eval V (tp_pins t) (tp_model t)\<rparr>"

definition ports_of :: "'m verilated \<Rightarrow> 'm top \<Rightarrow> ports" where
  "ports_of V t = vm_ports V (tp_model t)"

definition set_pins :: "(pins \<Rightarrow> pins) \<Rightarrow> 'm top \<Rightarrow> 'm top" where
  "set_pins f t = t\<lparr>tp_pins := f (tp_pins t)\<rparr>"

subsection \<open>The input beat\<close>

definition WORD_BYTES :: nat where "WORD_BYTES = 16"

definition pack_lanes :: "bytes \<Rightarrow> nat \<Rightarrow> u32 list" where
  "pack_lanes p n = foldl (\<lambda>d i. d[i div 4 := d ! (i div 4) OR push_bit (8 * (i mod 4)) (ucast (p ! i))])
     (replicate 4 0) [0..<n]"

definition set_in_word :: "bytes \<Rightarrow> nat \<Rightarrow> 'm top \<Rightarrow> 'm top" where
  "set_in_word p n = set_pins (\<lambda>q. q\<lparr>pn_in_data := pack_lanes p n, pn_in_nbytes := of_nat n\<rparr>)"

subsection \<open>Clock, reset and configuration\<close>

record 'm driver =
  dr_top :: "'m top"
  dr_cyc :: u64

definition new_driver :: "'m verilated \<Rightarrow> 'm driver" where
  "new_driver V = \<lparr>dr_top = vm_new V, dr_cyc = 0\<rparr>"

definition drive_pins :: "(pins \<Rightarrow> pins) \<Rightarrow> 'm driver \<Rightarrow> 'm driver" where
  "drive_pins f d = d\<lparr>dr_top := set_pins f (dr_top d)\<rparr>"

definition tick :: "'m verilated \<Rightarrow> 'm driver \<Rightarrow> 'm driver" where
  "tick V d =
     (let t0 = eval_top V (set_pins (\<lambda>q. q\<lparr>pn_clk := False\<rparr>) (dr_top d));
          t1 = eval_top V (set_pins (\<lambda>q. q\<lparr>pn_clk := True\<rparr>) t0)
      in d\<lparr>dr_top := t1, dr_cyc := dr_cyc d + 1\<rparr>)"

definition drv_reset :: "'m verilated \<Rightarrow> bool \<Rightarrow> 'm driver \<Rightarrow> 'm driver" where
  "drv_reset V raw_mode d =
     (let d1 = drive_pins (\<lambda>q. q\<lparr>pn_rst := True, pn_in_valid := False, pn_in_sop := False,
            pn_in_data := replicate 4 0, pn_in_nbytes := 0, pn_raw_mode := raw_mode, pn_mold_mode := False,
            pn_band_cfg_valid := False, pn_band_cfg_base := 0, pn_dbg_is_bid := False, pn_dbg_price := 0\<rparr>) d
      in drive_pins (\<lambda>q. q\<lparr>pn_rst := False\<rparr>) ((tick V ^^ 6) d1))"

definition set_band :: "'m verilated \<Rightarrow> u32 \<Rightarrow> 'm driver \<Rightarrow> 'm driver" where
  "set_band V base d =
     (let d1 = tick V (drive_pins (\<lambda>q. q\<lparr>pn_band_cfg_base := base, pn_band_cfg_valid := True\<rparr>) d)
      in tick V (drive_pins (\<lambda>q. q\<lparr>pn_band_cfg_valid := False, pn_band_cfg_base := 0\<rparr>) d1))"

text \<open>A query of one price level through the debug port.\<close>

definition query_level :: "'m verilated \<Rightarrow> bool \<Rightarrow> u32 \<Rightarrow> 'm top \<Rightarrow> 'm top" where
  "query_level V is_bid price t =
     eval_top V (set_pins (\<lambda>q. q\<lparr>pn_dbg_is_bid := is_bid, pn_dbg_price := price\<rparr>) t)"

definition rtl_level_shares :: "'m verilated \<Rightarrow> bool \<Rightarrow> u32 \<Rightarrow> 'm top \<Rightarrow> u32 \<times> 'm top" where
  "rtl_level_shares V is_bid price t =
     (let t1 = query_level V is_bid price t in (po_dbg_shares (ports_of V t1), t1))"

definition rtl_level_count :: "'m verilated \<Rightarrow> bool \<Rightarrow> u32 \<Rightarrow> 'm top \<Rightarrow> u32 \<times> 'm top" where
  "rtl_level_count V is_bid price t =
     (let t1 = query_level V is_bid price t in (po_dbg_count (ports_of V t1), t1))"

subsection \<open>Driving a stream\<close>

text \<open>
  One beat: the next word of the stream when the circuit is ready and bytes are left. The second
  component is the number of bytes presented, if any.
\<close>

definition present :: "'m verilated \<Rightarrow> bytes \<Rightarrow> nat \<Rightarrow> 'm top \<Rightarrow> 'm top \<times> nat option" where
  "present V s i t =
     (if po_in_ready (ports_of V t) \<and> i < length s
      then (let n = min WORD_BYTES (length s - i)
            in (set_pins (\<lambda>q. q\<lparr>pn_in_valid := True\<rparr>) (set_in_word (drop i s) n t), Some n))
      else (set_pins (\<lambda>q. q\<lparr>pn_in_valid := False\<rparr>) t, None))"

text \<open>The local variables of \<open>drive\<close>, with the driver and the state of the callback.\<close>

record ('m, 's) drive_run =
  rn_i :: nat
  rn_committed :: u64
  rn_last :: u64
  rn_driver :: "'m driver"
  rn_state :: 's

type_synonym ('m, 's) on_commit = "u64 \<Rightarrow> 'm top \<times> 's \<Rightarrow> 'm top \<times> 's"

definition drive_step :: "'m verilated \<Rightarrow> ('m, 's) on_commit \<Rightarrow> bytes \<Rightarrow> ('m, 's) drive_run \<Rightarrow> ('m, 's) drive_run" where
  "drive_step V cb s r =
     (case present V s (rn_i r) (dr_top (rn_driver r)) of (t, w) \<Rightarrow>
        (let d = tick V ((rn_driver r)\<lparr>dr_top := t\<rparr>);
             r1 = r\<lparr>rn_i := rn_i r + (case w of None \<Rightarrow> 0 | Some n \<Rightarrow> n), rn_driver := d\<rparr>;
             total = po_msg_total (ports_of V (dr_top d))
         in if total \<noteq> rn_last r
            then (case cb (rn_committed r) (dr_top d, rn_state r) of (t', st) \<Rightarrow>
              r1\<lparr>rn_last := total, rn_driver := d\<lparr>dr_top := t'\<rparr>, rn_state := st,
                 rn_committed := rn_committed r + 1\<rparr>)
            else r1))"

definition driving :: "u64 \<Rightarrow> u64 \<Rightarrow> ('m, 's) drive_run \<Rightarrow> bool" where
  "driving expected cycle_cap r \<longleftrightarrow> rn_committed r < expected \<and> dr_cyc (rn_driver r) < cycle_cap"

lemma next_cycle: "(c :: u64) < cap \<Longrightarrow> unat (c + 1) = Suc (unat c)"
proof -
  assume c: "c < cap"
  have "unat cap < 2 ^ 64" using unsigned_less [of cap] by simp
  then show ?thesis using c by (simp add: word_less_nat_alt unat_word_ariths)
qed

lemma cycle_left: "(c :: u64) < cap \<Longrightarrow> unat cap - unat (c + 1) < unat cap - unat c"
  by (simp add: next_cycle word_less_nat_alt diff_less_mono2)

lemma tick_cyc [simp]: "dr_cyc (tick V d) = dr_cyc d + 1"
  by (simp add: tick_def Let_def)

lemma drive_step_cyc [simp]: "dr_cyc (rn_driver (drive_step V cb s r)) = dr_cyc (rn_driver r) + 1"
  by (simp add: drive_step_def Let_def split: prod.splits)

function drive_loop ::
  "'m verilated \<Rightarrow> ('m, 's) on_commit \<Rightarrow> bytes \<Rightarrow> u64 \<Rightarrow> u64 \<Rightarrow> ('m, 's) drive_run \<Rightarrow> ('m, 's) drive_run"
where
  "drive_loop V cb s expected cycle_cap r =
     (if driving expected cycle_cap r then drive_loop V cb s expected cycle_cap (drive_step V cb s r) else r)"
  by pat_completeness auto
termination
  by (relation "measure (\<lambda>(V, cb, s, n, cap, r). unat cap - unat (dr_cyc (rn_driver r)))")
    (simp_all add: driving_def cycle_left)

declare drive_loop.simps [simp del]

definition start_run :: "'m verilated \<Rightarrow> 'm driver \<Rightarrow> 's \<Rightarrow> ('m, 's) drive_run" where
  "start_run V d st = \<lparr>rn_i = 0, rn_committed = 0, rn_last = po_msg_total (ports_of V (dr_top d)), rn_driver = d,
     rn_state = st\<rparr>"

definition drive ::
  "'m verilated \<Rightarrow> ('m, 's) on_commit \<Rightarrow> bytes \<Rightarrow> u64 \<Rightarrow> u64 \<Rightarrow> 'm driver \<Rightarrow> 's \<Rightarrow> u64 \<times> 'm driver \<times> 's"
where
  "drive V cb s expected cycle_cap d st =
     (let r = drive_loop V cb s expected cycle_cap (start_run V d st)
      in (rn_committed r, rn_driver r, rn_state r))"

definition default_cap :: u64 where "default_cap = 200000000"

subsection \<open>Driving with the cycle of every word\<close>

text \<open>The loops that move a pointer over the messages and stamp the cycle into an array.\<close>

function stamp_while :: "(nat \<Rightarrow> bool) \<Rightarrow> nat \<Rightarrow> u64 \<Rightarrow> nat \<Rightarrow> u64 list \<Rightarrow> nat \<times> u64 list" where
  "stamp_while P nmsgs cyc ptr stamps =
     (if ptr < nmsgs \<and> P ptr then stamp_while P nmsgs cyc (Suc ptr) (stamps[ptr := cyc]) else (ptr, stamps))"
  by pat_completeness auto
termination
  by (relation "measure (\<lambda>(P, n, cyc, ptr, stamps). n - ptr)") auto

declare stamp_while.simps [simp del]

record ('m, 's) latency_run = "('m, 's) drive_run" +
  ln_first_ptr :: nat
  ln_done_ptr :: nat
  ln_first :: "u64 list"
  ln_done :: "u64 list"

fun msg_bounds :: "nat \<Rightarrow> nat list \<Rightarrow> (nat \<times> nat) list" where
  "msg_bounds pos [] = []"
| "msg_bounds pos (n # ns) = (pos, pos + n) # msg_bounds (pos + n) ns"

definition stamp_word ::
  "(nat \<times> nat) list \<Rightarrow> nat \<Rightarrow> ('m, 's, 'z) latency_run_scheme \<Rightarrow> ('m, 's, 'z) latency_run_scheme"
where
  "stamp_word bounds n r =
     (let cyc = dr_cyc (rn_driver r); lim = rn_i r + n in
      case stamp_while (\<lambda>k. fst (bounds ! k) < lim) (length bounds) cyc (ln_first_ptr r) (ln_first r) of (fp, fs) \<Rightarrow>
      case stamp_while (\<lambda>k. snd (bounds ! k) \<le> lim) (length bounds) cyc (ln_done_ptr r) (ln_done r) of (dp, ds) \<Rightarrow>
        r\<lparr>ln_first_ptr := fp, ln_first := fs, ln_done_ptr := dp, ln_done := ds, rn_i := lim\<rparr>)"

type_synonym 's on_msg = "u64 \<Rightarrow> u64 \<Rightarrow> u64 \<Rightarrow> u64 \<Rightarrow> 's \<Rightarrow> 's"

definition latency_step ::
  "'m verilated \<Rightarrow> 's on_msg \<Rightarrow> bytes \<Rightarrow> (nat \<times> nat) list \<Rightarrow> ('m, 's) latency_run \<Rightarrow> ('m, 's) latency_run"
where
  "latency_step V on_msg s bounds r =
     (case present V s (rn_i r) (dr_top (rn_driver r)) of (t, w) \<Rightarrow>
        (let d = tick V ((rn_driver r)\<lparr>dr_top := t\<rparr>);
             r1 = r\<lparr>rn_driver := d\<rparr>;
             r2 = (case w of None \<Rightarrow> r1 | Some n \<Rightarrow> stamp_word bounds n r1);
             total = po_msg_total (ports_of V (dr_top d));
             k = rn_committed r
         in if total \<noteq> rn_last r
            then r2\<lparr>rn_last := total, rn_committed := k + 1,
                rn_state := on_msg k (ln_first r2 ! unat k) (ln_done r2 ! unat k) (dr_cyc d) (rn_state r)\<rparr>
            else r2))"

lemma stamp_word_driver [simp]:
  "rn_driver (stamp_word bounds n r) = rn_driver r" "rn_committed (stamp_word bounds n r) = rn_committed r"
  by (simp_all add: stamp_word_def Let_def split: prod.splits)

lemma latency_step_cyc [simp]: "dr_cyc (rn_driver (latency_step V f s bounds r)) = dr_cyc (rn_driver r) + 1"
  by (simp add: latency_step_def Let_def split: prod.splits option.splits)

definition measuring :: "nat \<Rightarrow> u64 \<Rightarrow> ('m, 's) latency_run \<Rightarrow> bool" where
  "measuring nmsgs cycle_cap r \<longleftrightarrow> unat (rn_committed r) < nmsgs \<and> dr_cyc (rn_driver r) < cycle_cap"

function latency_loop ::
  "'m verilated \<Rightarrow> 's on_msg \<Rightarrow> bytes \<Rightarrow> (nat \<times> nat) list \<Rightarrow> u64 \<Rightarrow> ('m, 's) latency_run \<Rightarrow> ('m, 's) latency_run"
where
  "latency_loop V on_msg s bounds cycle_cap r =
     (if measuring (length bounds) cycle_cap r
      then latency_loop V on_msg s bounds cycle_cap (latency_step V on_msg s bounds r) else r)"
  by pat_completeness auto
termination
  by (relation "measure (\<lambda>(V, f, s, b, cap, r). unat cap - unat (dr_cyc (rn_driver r)))")
    (simp_all add: measuring_def cycle_left)

declare latency_loop.simps [simp del]

definition drive_latency ::
  "'m verilated \<Rightarrow> 's on_msg \<Rightarrow> bytes \<Rightarrow> nat list \<Rightarrow> u64 \<Rightarrow> 'm driver \<Rightarrow> 's \<Rightarrow> u64 \<times> 'm driver \<times> 's"
where
  "drive_latency V on_msg s frame_len cycle_cap d st =
     (let nmsgs = length frame_len;
          r = latency_loop V on_msg s (msg_bounds 0 frame_len) cycle_cap
            \<lparr>rn_i = 0, rn_committed = 0, rn_last = po_msg_total (ports_of V (dr_top d)), rn_driver = d, rn_state = st,
             ln_first_ptr = 0, ln_done_ptr = 0, ln_first = replicate nmsgs 0, ln_done = replicate nmsgs 0\<rparr>
      in (rn_committed r, rn_driver r, rn_state r))"

end
