(* ===== verification/RtlDriverProps.thy ===== *)
theory RtlDriverProps
  imports RtlDriver
begin

text \<open>
  What the driver does to the circuit, whatever the circuit is: the lanes carry the bytes of the
  stream, every byte is clocked in once and in order, the callback runs once per commit in order,
  and the cycles that \<open>drive_latency\<close> reports are those in which the words of a message were
  clocked in. A probe around the model keeps the history of the input port.
\<close>

subsection \<open>Lanes\<close>

definition word_bytes :: "u32 list \<Rightarrow> nat \<Rightarrow> bytes" where
  "word_bytes d n = map (\<lambda>i. ucast (drop_bit (8 * (i mod 4)) (d ! (i div 4)))) [0..<n]"

lemma pack_lanes_Suc:
  "pack_lanes p (Suc n) = (pack_lanes p n)[n div 4 := pack_lanes p n ! (n div 4) OR push_bit (8 * (n mod 4)) (ucast (p ! n))]"
  by (simp add: pack_lanes_def)

lemma pack_lanes_length [simp]: "length (pack_lanes p n) = 4"
  by (induction n) (simp_all add: pack_lanes_Suc, simp add: pack_lanes_def)

lemma pack_lanes_bit:
  assumes "n \<le> 16" "w < 4" "b < 32"
  shows "bit (pack_lanes p n ! w) b \<longleftrightarrow> 4 * w + b div 8 < n \<and> bit (p ! (4 * w + b div 8)) (b mod 8)"
  using assms
proof (induction n)
  case 0
  then show ?case by (simp add: pack_lanes_def)
next
  case (Suc n)
  have lane: "b div 8 = n mod 4 \<longleftrightarrow> 8 * (n mod 4) \<le> b \<and> b - 8 * (n mod 4) < 8" by linarith
  have high: "bit (x :: u8) k \<Longrightarrow> k < 8" for x k using bit_imp_le_length [of x k] by simp
  show ?case
  proof (cases "w = n div 4")
    case True
    then have pos: "4 * w + b div 8 = n \<longleftrightarrow> b div 8 = n mod 4" by presburger
    have "bit (push_bit (8 * (n mod 4)) (ucast (p ! n) :: u32)) b \<longleftrightarrow> b div 8 = n mod 4 \<and> bit (p ! n) (b mod 8)"
    proof (cases "b div 8 = n mod 4")
      case here: True
      then have "b - 8 * (n mod 4) = b mod 8" using minus_mult_div_eq_mod [of b 8] by simp
      moreover have "b mod 8 < 32" by (rule less_trans [OF mod_less_divisor]) simp_all
      ultimately show ?thesis using here lane Suc.prems(3) by (simp add: bit_push_bit_iff bit_ucast_iff)
    next
      case False
      then have "8 * (n mod 4) \<le> b \<Longrightarrow> \<not> bit (p ! n) (b - 8 * (n mod 4))" using lane high by blast
      then show ?thesis using False by (auto simp: bit_push_bit_iff bit_ucast_iff)
    qed
    moreover have "4 * w + b div 8 < Suc n \<longleftrightarrow> 4 * w + b div 8 < n \<or> b div 8 = n mod 4" using pos by auto
    ultimately show ?thesis
      using Suc.IH Suc.prems True pos by (auto simp: pack_lanes_Suc bit_or_iff)
  next
    case False
    then have "4 * w + b div 8 \<noteq> n" using Suc.prems(3) by auto
    then have "4 * w + b div 8 < Suc n \<longleftrightarrow> 4 * w + b div 8 < n" by auto
    then show ?thesis using Suc.IH Suc.prems False by (simp add: pack_lanes_Suc)
  qed
qed

lemma pack_lanes_bytes:
  assumes "n \<le> 16" "n \<le> length p"
  shows "word_bytes (pack_lanes p n) n = take n p"
proof (rule nth_equalityI)
  fix i assume "i < length (word_bytes (pack_lanes p n) n)"
  then have i: "i < n" "i < 16" using assms(1) by (simp_all add: word_bytes_def)
  have "ucast (drop_bit (8 * (i mod 4)) (pack_lanes p n ! (i div 4))) = p ! i"
  proof (rule bit_word_eqI)
    fix j :: nat assume j: "j < LENGTH(8)"
    let ?b = "8 * (i mod 4) + j"
    have "i mod 4 < 4" by simp
    then have b: "?b < 32" "?b div 8 = i mod 4" "?b mod 8 = j" using j by auto
    have "bit (pack_lanes p n ! (i div 4)) ?b \<longleftrightarrow> bit (p ! i) j"
      using pack_lanes_bit [OF assms(1) _ b(1), of "i div 4" p] i b(2,3) by (simp add: less_mult_imp_div_less)
    then show "bit (ucast (drop_bit (8 * (i mod 4)) (pack_lanes p n ! (i div 4))) :: u8) j = bit (p ! i) j"
      using j by (simp add: bit_ucast_iff bit_drop_bit_eq)
  qed
  then show "word_bytes (pack_lanes p n) n ! i = take n p ! i" using i by (simp add: word_bytes_def)
qed (use assms in \<open>simp add: word_bytes_def\<close>)

subsection \<open>The loops\<close>

lemma drive_loop_rule:
  assumes "P r" "\<And>r. P r \<Longrightarrow> driving e cap r \<Longrightarrow> P (drive_step V cb s r)"
  shows "P (drive_loop V cb s e cap r)" "\<not> driving e cap (drive_loop V cb s e cap r)"
proof -
  have "P (drive_loop V cb s e cap r) \<and> \<not> driving e cap (drive_loop V cb s e cap r)"
    using assms
  proof (induction V cb s e cap r rule: drive_loop.induct)
    case (1 V cb s e cap r)
    then show ?case by (subst (1 2) drive_loop.simps) auto
  qed
  then show "P (drive_loop V cb s e cap r)" "\<not> driving e cap (drive_loop V cb s e cap r)" by auto
qed

lemma latency_loop_rule:
  assumes "P r" "\<And>r. P r \<Longrightarrow> measuring (length bounds) cap r \<Longrightarrow> P (latency_step V f s bounds r)"
  shows "P (latency_loop V f s bounds cap r)" "\<not> measuring (length bounds) cap (latency_loop V f s bounds cap r)"
proof -
  have "P (latency_loop V f s bounds cap r) \<and> \<not> measuring (length bounds) cap (latency_loop V f s bounds cap r)"
    using assms
  proof (induction V f s bounds cap r rule: latency_loop.induct)
    case (1 V f s bounds cap r)
    then show ?case by (subst (1 2) latency_loop.simps) auto
  qed
  then show "P (latency_loop V f s bounds cap r)"
    "\<not> measuring (length bounds) cap (latency_loop V f s bounds cap r)" by auto
qed

text \<open>The callback with a record of the indices it was called with.\<close>

definition logged :: "('m, 's) on_commit \<Rightarrow> ('m, 's \<times> u64 list) on_commit" where
  "logged cb k ts = (case ts of (t, st, log) \<Rightarrow> (case cb k (t, st) of (t', st') \<Rightarrow> (t', st', log @ [k])))"

lemma drive_indices:
  assumes "drive V (logged cb) s expected cap d (st, []) = (c, d', st', log)"
  shows "log = map of_nat [0..<unat c]" "c \<le> expected" "c < expected \<Longrightarrow> cap \<le> dr_cyc d'"
    "unat (dr_cyc d) \<le> unat (dr_cyc d')" "unat (dr_cyc d') \<le> max (unat cap) (unat (dr_cyc d))"
proof -
  define P where "P r \<longleftrightarrow> snd (rn_state r) = map of_nat [0..<unat (rn_committed r)] \<and> rn_committed r \<le> expected \<and>
      unat (dr_cyc d) \<le> unat (dr_cyc (rn_driver r)) \<and> unat (dr_cyc (rn_driver r)) \<le> max (unat cap) (unat (dr_cyc d))"
    for r :: "('a, 'b \<times> u64 list) drive_run"
  let ?r = "drive_loop V (logged cb) s expected cap (start_run V d (st, []))"
  have "P (start_run V d (st, []))" by (simp add: P_def start_run_def)
  moreover have "P (drive_step V (logged cb) s r)" if "P r" "driving expected cap r" for r
  proof -
    have c: "unat (rn_committed r + 1) = Suc (unat (rn_committed r))" "rn_committed r + 1 \<le> expected"
      "unat (dr_cyc (rn_driver r) + 1) = Suc (unat (dr_cyc (rn_driver r)))" "unat (dr_cyc (rn_driver r)) < unat cap"
      using that(2) next_cycle [of _ expected] next_cycle [of _ cap]
      by (auto simp: driving_def word_le_nat_alt word_less_nat_alt)
    have "map of_nat [0..<unat (rn_committed r + 1)] = map of_nat [0..<unat (rn_committed r)] @ [rn_committed r]"
      by (simp add: c(1))
    then show ?thesis
      using that(1) c unfolding P_def drive_step_cyc
      by (auto simp: drive_step_def logged_def Let_def split: prod.splits)
  qed
  ultimately have "P ?r" "\<not> driving expected cap ?r"
    using drive_loop_rule [of P _ expected cap V "logged cb" s] by blast+
  moreover have "c = rn_committed ?r" "d' = rn_driver ?r" "log = snd (rn_state ?r)"
    using assms by (auto simp: drive_def Let_def)
  ultimately show "log = map of_nat [0..<unat c]" "c \<le> expected" "c < expected \<Longrightarrow> cap \<le> dr_cyc d'"
    "unat (dr_cyc d) \<le> unat (dr_cyc d')" "unat (dr_cyc d') \<le> max (unat cap) (unat (dr_cyc d))"
    by (auto simp: P_def driving_def)
qed

subsection \<open>A probe on the input port\<close>

text \<open>
  The model together with the history of its input port: the number of rising clock edges, and
  the word taken at each rising edge at which \<open>in_valid\<close> is set outside reset, with the number of
  that edge.
\<close>

record 'm probe =
  pb_model :: 'm
  pb_clk :: bool
  pb_edges :: u64
  pb_words :: "(u64 \<times> bytes) list"

definition probe_eval :: "'m verilated \<Rightarrow> pins \<Rightarrow> 'm probe \<Rightarrow> 'm probe" where
  "probe_eval V p pr =
     (let rise = (pn_clk p \<and> \<not> pb_clk pr);
          edges = (if rise then pb_edges pr + 1 else pb_edges pr)
      in \<lparr>pb_model = vm_eval V p (pb_model pr), pb_clk = pn_clk p, pb_edges = edges,
          pb_words = pb_words pr @ (if rise \<and> pn_in_valid p \<and> \<not> pn_rst p
            then [(edges, word_bytes (pn_in_data p) (unat (pn_in_nbytes p)))] else [])\<rparr>)"

definition probed :: "'m verilated \<Rightarrow> 'm probe verilated" where
  "probed V = \<lparr>vm_new = \<lparr>tp_pins = tp_pins (vm_new V),
       tp_model = \<lparr>pb_model = tp_model (vm_new V), pb_clk = False, pb_edges = 0, pb_words = []\<rparr>\<rparr>,
     vm_eval = probe_eval V, vm_ports = (\<lambda>pr. vm_ports V (pb_model pr))\<rparr>"

text \<open>What the probe of a driver has seen, and whether the circuit is in reset.\<close>

definition seen :: "'m probe top \<Rightarrow> bool \<times> u64 \<times> (u64 \<times> bytes) list" where
  "seen t = (pn_rst (tp_pins t), pb_edges (tp_model t), pb_words (tp_model t))"

text \<open>
  Callbacks that leave the input port alone: they may evaluate the model and set other pins, but
  they do not move the clock.
\<close>

definition settled :: "'m probe top \<Rightarrow> bool" where
  "settled t \<longleftrightarrow> pb_clk (tp_model t) = pn_clk (tp_pins t)"

definition keeps_input :: "('m probe, 's) on_commit \<Rightarrow> bool" where
  "keeps_input cb \<longleftrightarrow> (\<forall>k t st. settled t \<longrightarrow> seen (fst (cb k (t, st))) = seen t)"

lemma tick_settled: "settled (dr_top (tick (probed V) d))"
  by (simp add: tick_def settled_def eval_top_def set_pins_def probed_def probe_eval_def Let_def)

lemma tick_seen:
  "seen t = (rst, c, W) \<Longrightarrow> seen (dr_top (tick (probed V) (d\<lparr>dr_top := t\<rparr>))) =
     (rst, c + 1, W @ (if pn_in_valid (tp_pins t) \<and> \<not> rst
        then [(c + 1, word_bytes (pn_in_data (tp_pins t)) (unat (pn_in_nbytes (tp_pins t))))] else []))"
  by (auto simp: tick_def seen_def eval_top_def set_pins_def probed_def probe_eval_def Let_def)

lemma present_seen:
  assumes "present (probed V) s i t = (t', w)" "seen t = (False, c, W)"
  shows "seen (dr_top (tick (probed V) (d\<lparr>dr_top := t'\<rparr>))) =
      (False, c + 1, W @ (case w of None \<Rightarrow> [] | Some n \<Rightarrow> [(c + 1, take n (drop i s))]))"
    and "w = Some n \<Longrightarrow> i < length s \<and> n = min 16 (length s - i)"
proof -
  show "w = Some n \<Longrightarrow> i < length s \<and> n = min 16 (length s - i)"
    using assms(1) by (auto simp: present_def Let_def WORD_BYTES_def split: if_splits)
  have t': "seen t' = (False, c, W)"
    using assms by (auto simp: present_def Let_def seen_def set_pins_def set_in_word_def split: if_splits)
  have "\<not> pn_in_valid (tp_pins t')" if "w = None"
    using assms(1) that by (auto simp: present_def Let_def set_pins_def split: if_splits)
  moreover have "pn_in_valid (tp_pins t') \<and> word_bytes (pn_in_data (tp_pins t')) (unat (pn_in_nbytes (tp_pins t'))) =
      take n (drop i s)" if "w = Some n" for n
  proof -
    have n: "n \<le> 16" "n \<le> length (drop i s)" "unat (of_nat n :: u8) = n"
      using assms(1) that by (auto simp: present_def Let_def WORD_BYTES_def unat_of_nat split: if_splits)
    have "tp_pins t' = (tp_pins t)\<lparr>pn_in_data := pack_lanes (drop i s) n, pn_in_nbytes := of_nat n, pn_in_valid := True\<rparr>"
      using assms(1) that by (auto simp: present_def Let_def set_pins_def set_in_word_def split: if_splits)
    then show ?thesis using n(3) pack_lanes_bytes [OF n(1,2)] by simp
  qed
  ultimately show "seen (dr_top (tick (probed V) (d\<lparr>dr_top := t'\<rparr>))) =
      (False, c + 1, W @ (case w of None \<Rightarrow> [] | Some n \<Rightarrow> [(c + 1, take n (drop i s))]))"
    using tick_seen [OF t'] by (cases w) auto
qed

text \<open>
  The words so far are the stream cut every 16 bytes, up to the read position, stamped with
  ascending cycles behind \<open>c0\<close> and up to now.
\<close>

definition fed :: "bytes \<Rightarrow> u64 \<Rightarrow> nat \<Rightarrow> u64 \<Rightarrow> (u64 \<times> bytes) list \<Rightarrow> bool" where
  "fed s c0 i c W \<longleftrightarrow> i = min (16 * length W) (length s) \<and>
     map snd W = map (\<lambda>j. take 16 (drop (16 * j) s)) [0..<length W] \<and> (\<forall>j<length W. 16 * j < length s) \<and>
     sorted_wrt (<) (map fst W) \<and> (\<forall>w\<in>set W. c0 < fst w \<and> fst w \<le> c) \<and> c0 \<le> c"

lemma fed_start: "fed s c 0 c []"
  by (simp add: fed_def)

lemma fed_step:
  assumes "fed s c0 i c W" "c < cap" "\<And>n. w = Some n \<Longrightarrow> i < length s \<and> n = min 16 (length s - i)"
  shows "fed s c0 (i + (case w of None \<Rightarrow> 0 | Some n \<Rightarrow> n)) (c + 1)
    (W @ (case w of None \<Rightarrow> [] | Some n \<Rightarrow> [(c + 1, take n (drop i s))]))"
proof -
  have c: "c < c + 1" using next_cycle [OF assms(2)] by (simp add: word_less_nat_alt)
  then have le: "x \<le> c \<Longrightarrow> x \<le> c + 1" "x \<le> c \<Longrightarrow> x < c + 1" for x by auto
  show ?thesis
  proof (cases w)
    case None
    then show ?thesis using assms(1) le by (auto simp: fed_def)
  next
    case (Some n)
    then have n: "i < length s" "n = min 16 (length s - i)" using assms(3) [OF Some] by simp_all
    then have i: "i = 16 * length W" using assms(1) by (auto simp: fed_def)
    have "take n (drop i s) = take 16 (drop i s)" using n(2) by (simp add: min_def)
    then show ?thesis
      using assms(1) n i le c Some by (auto simp: fed_def sorted_wrt_append less_Suc_eq)
  qed
qed

lemma concat_words: "concat (map (\<lambda>j. take 16 (drop (16 * j) s)) [0..<n]) = take (16 * n) s"
  by (induction n) (simp_all add: take_add [symmetric] mult.commute add.commute)

lemma fed_bytes: "fed s c0 i c W \<Longrightarrow> concat (map snd W) = take i s"
  by (cases "16 * length W \<le> length s") (auto simp: fed_def concat_words)

lemma drive_fed:
  assumes cb: "keeps_input cb" and d: "seen (dr_top d) = (False, dr_cyc d, [])"
    and run: "drive (probed V) cb s expected cap d st = (c, d', st')"
  shows "\<exists>i W. seen (dr_top d') = (False, dr_cyc d', W) \<and> fed s (dr_cyc d) i (dr_cyc d') W"
proof -
  define P where "P r \<longleftrightarrow> (\<exists>W. seen (dr_top (rn_driver r)) = (False, dr_cyc (rn_driver r), W) \<and>
      fed s (dr_cyc d) (rn_i r) (dr_cyc (rn_driver r)) W)" for r :: "('a probe, 'b) drive_run"
  let ?r = "drive_loop (probed V) cb s expected cap (start_run (probed V) d st)"
  have "P (start_run (probed V) d st)" by (simp add: P_def start_run_def d fed_start)
  moreover have "P (drive_step (probed V) cb s r)" if r: "P r" "driving expected cap r" for r
  proof -
    obtain W where W: "seen (dr_top (rn_driver r)) = (False, dr_cyc (rn_driver r), W)"
      "fed s (dr_cyc d) (rn_i r) (dr_cyc (rn_driver r)) W" using r(1) by (auto simp: P_def)
    obtain t w where p: "present (probed V) s (rn_i r) (dr_top (rn_driver r)) = (t, w)" by force
    note seen = present_seen [OF p W(1)]
    have "dr_cyc (rn_driver r) < cap" using r(2) by (simp add: driving_def)
    note fed = fed_step [OF W(2) this, of w, OF seen(2)]
    let ?d = "tick (probed V) ((rn_driver r)\<lparr>dr_top := t\<rparr>)"
    have "seen (fst (cb (rn_committed r) (dr_top ?d, rn_state r))) = seen (dr_top ?d)"
      using cb tick_settled [of V] by (simp add: keeps_input_def)
    then have "seen (dr_top (rn_driver (drive_step (probed V) cb s r))) = seen (dr_top ?d)"
      by (auto simp: drive_step_def p Let_def split: prod.splits)
    moreover have "rn_i (drive_step (probed V) cb s r) = rn_i r + (case w of None \<Rightarrow> 0 | Some n \<Rightarrow> n)"
      by (simp add: drive_step_def p Let_def split: prod.splits)
    ultimately show ?thesis using seen(1) [of "rn_driver r"] fed unfolding P_def by auto
  qed
  ultimately have "P ?r" using drive_loop_rule [of P _ expected cap "probed V" cb s] by blast
  moreover have "d' = rn_driver ?r" using run by (auto simp: drive_def Let_def)
  ultimately show ?thesis by (auto simp: P_def)
qed

text \<open>After a reset the probe has seen the six cycles and no word.\<close>

lemma idle_tick:
  "seen (dr_top d) = (rst, c, W) \<Longrightarrow> \<not> pn_in_valid (tp_pins (dr_top d)) \<Longrightarrow>
   seen (dr_top (tick (probed V) d)) = (rst, c + 1, W) \<and> \<not> pn_in_valid (tp_pins (dr_top (tick (probed V) d)))"
  using tick_seen [of "dr_top d" rst c W V d]
  by (simp add: tick_def Let_def eval_top_def set_pins_def)

lemma reset_seen:
  "seen (dr_top (drv_reset (probed V) raw (new_driver (probed V)))) = (False, 6, [])"
  "dr_cyc (drv_reset (probed V) raw (new_driver (probed V))) = 6"
proof -
  define d where "d = drive_pins (\<lambda>q. q\<lparr>pn_rst := True, pn_in_valid := False, pn_in_sop := False,
      pn_in_data := replicate 4 0, pn_in_nbytes := 0, pn_raw_mode := raw, pn_mold_mode := False,
      pn_band_cfg_valid := False, pn_band_cfg_base := 0, pn_dbg_is_bid := False, pn_dbg_price := 0\<rparr>) (new_driver (probed V))"
  have d: "seen (dr_top d) = (True, 0, [])" "\<not> pn_in_valid (tp_pins (dr_top d))" "dr_cyc d = 0"
    by (simp_all add: d_def drive_pins_def new_driver_def probed_def seen_def set_pins_def)
  have "seen (dr_top ((tick (probed V) ^^ n) d)) = (True, of_nat n, []) \<and>
      \<not> pn_in_valid (tp_pins (dr_top ((tick (probed V) ^^ n) d))) \<and> dr_cyc ((tick (probed V) ^^ n) d) = of_nat n" for n
    by (induction n) (simp_all add: d idle_tick)
  from this [of 6] show "seen (dr_top (drv_reset (probed V) raw (new_driver (probed V)))) = (False, 6, [])"
    "dr_cyc (drv_reset (probed V) raw (new_driver (probed V))) = 6"
    unfolding drv_reset_def d_def [symmetric] Let_def by (simp_all add: drive_pins_def seen_def set_pins_def)
qed

subsection \<open>The probe does not change a run\<close>

definition unprobe :: "'m probe top \<Rightarrow> 'm top" where
  "unprobe t = \<lparr>tp_pins = tp_pins t, tp_model = pb_model (tp_model t)\<rparr>"

definition unprobe_driver :: "'m probe driver \<Rightarrow> 'm driver" where
  "unprobe_driver d = \<lparr>dr_top = unprobe (dr_top d), dr_cyc = dr_cyc d\<rparr>"

lemma unprobe_simps [simp]:
  "unprobe (set_pins f t) = set_pins f (unprobe t)" "unprobe (eval_top (probed V) t) = eval_top V (unprobe t)"
  "ports_of (probed V) t = ports_of V (unprobe t)" "unprobe (vm_new (probed V)) = vm_new V"
  by (simp_all add: unprobe_def set_pins_def eval_top_def ports_of_def probed_def probe_eval_def Let_def)

lemma unprobe_driver_simps [simp]:
  "unprobe_driver (tick (probed V) d) = tick V (unprobe_driver d)"
  "unprobe_driver (drive_pins f d) = drive_pins f (unprobe_driver d)"
  "unprobe_driver (new_driver (probed V)) = new_driver V" "dr_cyc (unprobe_driver d) = dr_cyc d"
  "dr_top (unprobe_driver d) = unprobe (dr_top d)"
  by (simp_all add: unprobe_driver_def tick_def drive_pins_def new_driver_def Let_def)

lemma unprobe_reset [simp]: "unprobe_driver (drv_reset (probed V) raw d) = drv_reset V raw (unprobe_driver d)"
proof -
  have "unprobe_driver ((tick (probed V) ^^ n) e) = (tick V ^^ n) (unprobe_driver e)" for n e
    by (induction n) simp_all
  then show ?thesis by (simp add: drv_reset_def Let_def)
qed

lemma present_unprobe: "present V s i (unprobe t) = map_prod unprobe id (present (probed V) s i t)"
  by (simp add: present_def set_in_word_def Let_def)

subsection \<open>What the circuit is given\<close>

lemma driver_feeds:
  assumes "keeps_input cb"
    and "drive (probed V) cb s e cap (drv_reset (probed V) raw (new_driver (probed V))) st = (c, d', st')"
  shows "\<exists>W. seen (dr_top d') = (False, dr_cyc d', W) \<and> concat (map snd W) = take (16 * length W) s \<and>
    (\<forall>w\<in>set W. snd w \<noteq> [] \<and> length (snd w) \<le> 16 \<and> 6 < fst w \<and> fst w \<le> dr_cyc d') \<and>
    sorted_wrt (<) (map fst W)"
proof -
  let ?d = "drv_reset (probed V) raw (new_driver (probed V))"
  have "seen (dr_top ?d) = (False, dr_cyc ?d, [])" by (simp add: reset_seen)
  from drive_fed [OF assms(1) this assms(2)] obtain i W where
    W: "seen (dr_top d') = (False, dr_cyc d', W)" "fed s 6 i (dr_cyc d') W" by (auto simp: reset_seen)
  have "concat (map snd W) = take (16 * length W) s" using W(2) by (simp add: fed_def concat_words)
  moreover have "snd w \<noteq> [] \<and> length (snd w) \<le> 16" if w: "w \<in> set W" for w
  proof -
    obtain j where j: "j < length W" "W ! j = w" using w in_set_conv_nth [of w W] by blast
    have "snd w = map snd W ! j" using j by simp
    also have "\<dots> = take 16 (drop (16 * j) s)" using W(2) j(1) by (simp add: fed_def)
    finally show ?thesis using W(2) j(1) by (auto simp: fed_def)
  qed
  ultimately show ?thesis using W by (auto simp: fed_def)
qed

end
