(* ===== verification/Binary64.thy ===== *)
theory Binary64
  imports Binary32
begin

text \<open>
  The C++ type \<open>double\<close> (IEEE 754 binary64, round to nearest, ties to even), as far as the
  measuring code and the command lines use it. The representation is that of \<open>Binary32\<close>: a
  finite value is its sign, significand and exponent, so that the comparisons and the truncation
  are those of \<open>Binary32\<close> and a \<open>float\<close> becomes a \<open>double\<close> unchanged. A decimal literal is the
  rounding of its rational value.
\<close>

type_synonym f64 = f32

definition round_f64 :: "bool \<Rightarrow> int \<Rightarrow> int \<Rightarrow> int \<Rightarrow> f64" where
  "round_f64 s n d e =
     (if n = 0 then Fin s 0 (-1074)
      else let q = max (-1074) (e + log2_quot n d - 52);
               t = scaled n d e q;
               (t', q') = (if t = 2 ^ 53 then (2 ^ 52, q + 1) else (t, q))
           in if 971 < q' then Inf s else Fin s t' q')"

abbreviation d_zero :: f64 where "d_zero \<equiv> Fin False 0 (-1074)"

text \<open>The literal \<open>n / d\<close>, for instance \<open>0.95\<close> as \<open>95 / 100\<close>.\<close>

definition f64_lit :: "int \<Rightarrow> int \<Rightarrow> f64" where
  "f64_lit n d = round_f64 (n < 0) \<bar>n\<bar> d 0"

definition f64_of_int :: "int \<Rightarrow> f64" where
  "f64_of_int i = round_f64 (i < 0) \<bar>i\<bar> 1 0"

definition f64_of_u64 :: "u64 \<Rightarrow> f64" where
  "f64_of_u64 w = f64_of_int (uint w)"

text \<open>The conversion of a \<open>double\<close> to an integer type that cannot represent it is undefined.\<close>

definition u64_of_f64 :: "f64 \<Rightarrow> u64 option" where
  "u64_of_f64 x = (case f32_trunc x of
     Some i \<Rightarrow> if 0 \<le> i \<and> i < 2 ^ 64 then Some (word_of_int i) else None
   | None \<Rightarrow> None)"

text \<open>\<open>std::ceil\<close>: the smallest integer value not below the argument.\<close>

fun f64_ceil :: "f64 \<Rightarrow> f64" where
  "f64_ceil (Fin s m e) =
     (if 0 \<le> e then Fin s m e
      else let q = m div 2 ^ nat (- e); r = m mod 2 ^ nat (- e) in
           if s then round_f64 True q 1 0
           else if r = 0 then round_f64 False q 1 0 else round_f64 False (q + 1) 1 0)"
| "f64_ceil x = x"

fun f64_add :: "f64 \<Rightarrow> f64 \<Rightarrow> f64" where
  "f64_add (Fin s m e) (Fin t n f) =
     (let k = min e f; v = fix_val s m e k + fix_val t n f k in
      if v = 0 then Fin (s \<and> t \<and> m = 0 \<and> n = 0) 0 (-1074)
      else round_f64 (v < 0) \<bar>v\<bar> 1 k)"
| "f64_add (Inf s) (Inf t) = (if s = t then Inf s else NaN)"
| "f64_add (Inf s) (Fin _ _ _) = Inf s"
| "f64_add (Fin _ _ _) (Inf s) = Inf s"
| "f64_add NaN _ = NaN"
| "f64_add _ NaN = NaN"

definition f64_sub :: "f64 \<Rightarrow> f64 \<Rightarrow> f64" where
  "f64_sub x y = f64_add x (f32_neg y)"

fun f64_mul :: "f64 \<Rightarrow> f64 \<Rightarrow> f64" where
  "f64_mul (Fin s m e) (Fin t n f) = round_f64 (s \<noteq> t) (m * n) 1 (e + f)"
| "f64_mul (Inf s) (Inf t) = Inf (s \<noteq> t)"
| "f64_mul (Inf s) (Fin t n _) = (if n = 0 then NaN else Inf (s \<noteq> t))"
| "f64_mul (Fin s m _) (Inf t) = (if m = 0 then NaN else Inf (s \<noteq> t))"
| "f64_mul NaN _ = NaN"
| "f64_mul _ NaN = NaN"

fun f64_div :: "f64 \<Rightarrow> f64 \<Rightarrow> f64" where
  "f64_div (Fin s m e) (Fin t n f) =
     (if n = 0 then (if m = 0 then NaN else Inf (s \<noteq> t))
      else round_f64 (s \<noteq> t) m n (e - f))"
| "f64_div (Inf s) (Inf t) = NaN"
| "f64_div (Inf s) (Fin t n _) = Inf (s \<noteq> t)"
| "f64_div (Fin s m _) (Inf t) = Fin (s \<noteq> t) 0 (-1074)"
| "f64_div NaN _ = NaN"
| "f64_div _ NaN = NaN"

subsection \<open>Integers below \<open>2 ^ 53\<close> are exact\<close>

lemma nbits_double: "0 < n \<Longrightarrow> nbits (2 * n) = nbits n + 1"
  by (simp add: nbits.simps [of "2 * n"])

lemma nbits_shift: "0 < n \<Longrightarrow> nbits (n * 2 ^ j) = nbits n + int j"
proof (induction j)
  case (Suc j)
  have "nbits (2 * (n * 2 ^ j)) = nbits (n * 2 ^ j) + 1" using Suc.prems by (intro nbits_double) simp
  then show ?case using Suc by (simp add: mult.left_commute)
qed simp

lemma log2_quot_shift:
  assumes "0 < c"
  shows "log2_quot (c * 2 ^ j) 1 = nbits c - 1 + int j"
proof -
  have one: "nbits 1 = 1" by (simp add: nbits.simps [of 1] nbits.simps [of 0])
  have b: "1 \<le> nbits c" "2 ^ nat (nbits c - 1) \<le> c" using nbits_bounds [OF assms] by auto
  have "(2 :: int) ^ nat (nbits c + int j - 1) = 2 ^ nat (nbits c - 1) * 2 ^ j"
    using b(1) by (simp add: nat_add_distrib diff_add_eq [symmetric] flip: power_add)
  also have "\<dots> \<le> c * 2 ^ j" using b(2) by simp
  finally show ?thesis
    using b(1) by (simp add: log2_quot_def one pow_le_def nbits_shift [OF assms] Let_def)
qed

text \<open>
  A positive number \<open>c * 2 ^ i\<close> whose significand has at most 53 bits is rounded to itself,
  whatever power of two its numerator carries.
\<close>

lemma round_f64_exact:
  assumes c: "0 < c" "c < 2 ^ 53" and e: "-1022 \<le> e + int j" "e + int j \<le> 900"
  shows "\<exists>k\<le>52. round_f64 s (c * 2 ^ j) 1 e = Fin s (c * 2 ^ k) (e + int j - int k)"
proof -
  define l where "l = nbits c - 1"
  have l: "0 \<le> l" "2 ^ nat l \<le> c" "c < 2 ^ Suc (nat l)"
  proof -
    have "nat (nbits c) = Suc (nat l)" using nbits_bounds [OF c(1)] unfolding l_def by linarith
    then show "0 \<le> l" "2 ^ nat l \<le> c" "c < 2 ^ Suc (nat l)"
      using nbits_bounds [OF c(1)] by (simp_all add: l_def)
  qed
  have "nat l < 53"
  proof (rule ccontr)
    assume "\<not> nat l < 53"
    then have "(2 :: int) ^ 53 \<le> 2 ^ nat l" by (intro power_increasing) auto
    then show False using l c by linarith
  qed
  then have l52: "l \<le> 52" using l(1) by linarith
  define k where "k = nat (52 - l)"
  have k: "int k = 52 - l" using l52 by (simp add: k_def)
  have log: "log2_quot (c * 2 ^ j) 1 = l + int j" using log2_quot_shift [OF c(1), of j] by (simp add: l_def)
  define q where "q = e + int j - int k"
  have q: "max (-1074) (e + log2_quot (c * 2 ^ j) 1 - 52) = q" using e k l(1) by (simp add: log q_def)
  have "scaled (c * 2 ^ j) 1 e q = c * 2 ^ k"
  proof (cases "q \<le> e")
    case True
    then have "nat (e - q) + j = k" by (simp add: q_def)
    then show ?thesis using True by (simp add: scaled_def mult.assoc add.commute flip: power_add)
  next
    case False
    then have "j = k + nat (q - e)" by (simp add: q_def)
    then have "c * 2 ^ j = c * 2 ^ k * 2 ^ nat (q - e)" by (simp add: power_add)
    moreover have "round_div (c * 2 ^ k * 2 ^ nat (q - e)) (2 ^ nat (q - e)) = c * 2 ^ k"
      by (simp add: round_div_def Let_def)
    ultimately show ?thesis using False by (simp only: scaled_def if_False mult_1)
  qed
  moreover have "c * 2 ^ k < 2 ^ 53"
  proof -
    have "c * 2 ^ k < 2 ^ Suc (nat l) * 2 ^ k" using l(3) by (intro mult_strict_right_mono) auto
    also have "\<dots> = (2 :: int) ^ (Suc (nat l) + k)" by (simp flip: power_add)
    also have "Suc (nat l) + k = 53" using l(1) l52 by (simp add: k_def)
    finally show ?thesis .
  qed
  ultimately have "round_f64 s (c * 2 ^ j) 1 e = Fin s (c * 2 ^ k) q"
    using c(1) e q k l(1) by (simp add: round_f64_def Let_def q_def)
  moreover have "k \<le> 52" using l(1) by (simp add: k_def)
  ultimately show ?thesis unfolding q_def by blast
qed

lemma round_f64_int:
  "0 < c \<Longrightarrow> c < 2 ^ 53 \<Longrightarrow> \<exists>k\<le>52. round_f64 s c 1 0 = Fin s (c * 2 ^ k) (- int k)"
  using round_f64_exact [of c 0 0 s] by (simp only: power_0 mult_1_right of_nat_0 add_0_right add_0 diff_0) simp

lemma small_count:
  assumes "0 < unat w" "unat w < 2 ^ 53"
  shows "0 < uint (w :: u64)" "uint w < 2 ^ 53"
proof -
  have "int 0 < int (unat w)" "int (unat w) < int (2 ^ 53)" using assms by (simp_all only: of_nat_less_iff)
  then show "0 < uint w" "uint w < 2 ^ 53" by simp_all
qed

lemma f64_of_u64_exact:
  assumes "0 < unat w" "unat w < 2 ^ 53"
  obtains k where "k \<le> 52" "f64_of_u64 w = Fin False (uint w * 2 ^ k) (- int k)"
proof -
  note w = small_count [OF assms]
  obtain k where "k \<le> 52" "round_f64 False (uint w) 1 0 = Fin False (uint w * 2 ^ k) (- int k)"
    using round_f64_int [OF w, of False] by blast
  then show ?thesis using w(1) that [of k] by (simp add: f64_of_u64_def f64_of_int_def)
qed

text \<open>A value that is not above an integer is truncated to one that is not above it.\<close>

lemma f64_of_int_nonneg:
  assumes "0 \<le> c" "c < 2 ^ 53"
  shows "\<exists>k. f64_of_int c = Fin False (c * 2 ^ k) (- int k)"
proof (cases "c = 0")
  case True
  then show ?thesis by (auto simp: f64_of_int_def round_f64_def intro: exI [of _ 1074])
next
  case False
  then show ?thesis using round_f64_int [of c False] assms by (auto simp: f64_of_int_def)
qed

lemma trunc_below:
  assumes c: "0 \<le> c" "c < 2 ^ 53" and above: "\<not> f32_le (f64_of_int c) x" and i: "f32_trunc x = Some i"
  shows "i \<le> c"
proof -
  obtain k where k: "f64_of_int c = Fin False (c * 2 ^ k) (- int k)" using f64_of_int_nonneg [OF c] by blast
  obtain s m e where x: "x = Fin s m e" using i by (cases x) auto
  define v where "v = (if s then - m else m)"
  define l where "l = min (- int k) e"
  have "fix_val s m e l < fix_val False (c * 2 ^ k) (- int k) l"
    using above by (auto simp: k x f32_le_def Let_def l_def)
  moreover have "2 ^ k * 2 ^ nat (- int k - l) = (2 :: int) ^ nat (- l)"
  proof -
    have "k + nat (- int k - l) = nat (- l)" unfolding l_def by linarith
    then show ?thesis by (simp flip: power_add)
  qed
  ultimately have lt: "v * 2 ^ nat (e - l) < c * 2 ^ nat (- l)"
    by (simp add: fix_val_def Let_def v_def mult.assoc split: if_splits)
  show ?thesis
  proof (cases "0 \<le> e")
    case True
    then have "nat (e - l) = nat e + nat (- l)" by (simp add: l_def min_def nat_add_distrib [symmetric])
    then have "v * 2 ^ nat e < c" using lt by (simp add: power_add flip: mult.assoc)
    then show ?thesis using i True by (simp add: x trunc_mag_def v_def split: if_splits)
  next
    case False
    then have "nat (- l) = nat (- e) + nat (e - l)" by (simp add: l_def nat_add_distrib [symmetric])
    then have "v < c * 2 ^ nat (- e)" using lt by (simp add: power_add flip: mult.assoc)
    moreover define d where "d = (2 :: int) ^ nat (- e)"
    ultimately have "0 < d" "v \<le> c * d" "(- c) * d \<le> - v" by simp_all
    then have "v div d \<le> c * d div d" "(- c) * d div d \<le> (- v) div d" by (blast intro: zdiv_mono1)+
    then have "v div d \<le> c" "- c \<le> (- v) div d" using \<open>0 < d\<close> by (metis nonzero_mult_div_cancel_right less_irrefl)+
    then have "v div 2 ^ nat (- e) \<le> c" "- c \<le> (- v) div 2 ^ nat (- e)" by (simp_all only: d_def)
    then show ?thesis using i False by (auto simp: x trunc_mag_def v_def split: if_splits)
  qed
qed

lemma trunc_mag_scaled [simp]: "trunc_mag (h * 2 ^ j) (- int j) = h"
  by (cases "j = 0") (simp_all add: trunc_mag_def)

text \<open>Half of a count, rounded up, is exact.\<close>

definition d_half :: f64 where "d_half = f64_lit 1 2"

lemma d_half_val: "d_half = Fin False (2 ^ 52) (-53)"
  unfolding d_half_def by code_simp

lemma ceil_half:
  assumes "0 < unat n" "unat n < 2 ^ 53"
  shows "u64_of_f64 (f64_ceil (f64_mul d_half (f64_of_u64 n))) = Some (of_nat ((unat n + 1) div 2))"
proof -
  note n = small_count [OF assms]
  obtain k where k: "k \<le> 52" "f64_of_u64 n = Fin False (uint n * 2 ^ k) (- int k)"
    by (rule f64_of_u64_exact [OF assms])
  have mul: "f64_mul d_half (f64_of_u64 n) = round_f64 False (uint n * 2 ^ (52 + k)) 1 (- 53 - int k)"
    by (simp add: k d_half_val power_add mult_ac)
  have e: "- 1022 \<le> - 53 - int k + int (52 + k)" "- 53 - int k + int (52 + k) \<le> 900" using k(1) by simp_all
  obtain m where m: "m \<le> 52" "round_f64 False (uint n * 2 ^ (52 + k)) 1 (- 53 - int k) =
      Fin False (uint n * 2 ^ m) (- 53 - int k + int (52 + k) - int m)"
    using round_f64_exact [OF n e(1) e(2), of False] by blast
  have val: "f64_mul d_half (f64_of_u64 n) = Fin False (uint n * 2 ^ m) (- 1 - int m)"
    unfolding mul m(2) by simp
  have half: "uint n * 2 ^ m div 2 ^ Suc m = uint n div 2" "uint n * 2 ^ m mod 2 ^ Suc m = 2 ^ m * (uint n mod 2)"
    by (simp_all add: mult.commute [of _ "2 ^ m"] flip: mult_mod_right)
  define h where "h = (uint n + 1) div 2"
  have ceil: "f64_ceil (Fin False (uint n * 2 ^ m) (- 1 - int m)) = round_f64 False h 1 0"
  proof -
    have s: "nat (- (- 1 - int m)) = Suc m" by (simp flip: of_nat_Suc)
    have "uint n mod 2 = 0 \<Longrightarrow> h = uint n div 2" "uint n mod 2 \<noteq> 0 \<Longrightarrow> h = uint n div 2 + 1"
      unfolding h_def by presburger+
    then show ?thesis
      unfolding f64_ceil.simps(1) s half Let_def by auto
  qed
  have h: "0 < h" "h < 2 ^ 53" using n unfolding h_def by linarith+
  obtain j where j: "j \<le> 52" "round_f64 False h 1 0 = Fin False (h * 2 ^ j) (- int j)"
    using round_f64_int [OF h, of False] by blast
  have "u64_of_f64 (round_f64 False h 1 0) = Some (word_of_int h)"
    using j h by (simp add: u64_of_f64_def trunc_mag_scaled)
  moreover have "h = int ((unat n + 1) div 2)"
    unfolding h_def by (simp add: zdiv_int)
  ultimately show ?thesis unfolding val ceil by simp
qed

end
