(* ===== verification/CFloats.thy ===== *)
theory CFloats
  imports CStrings Binary64
begin

text \<open>
  The conversions of the C library from text to floating point, \<open>strtod\<close>, \<open>strtof\<close> and \<open>atof\<close>: blanks,
  a sign, then an infinity, a not-a-number, a hexadecimal or a decimal number. The exact value of
  the digits is rounded once. Text without a number gives 0, and what follows the number is ignored.
\<close>

definition lower :: "char \<Rightarrow> char" where
  "lower c = (let n = of_char c :: nat in if 65 \<le> n \<and> n \<le> 90 then char_of (n + 32) else c)"

definition starts_with :: "string \<Rightarrow> string \<Rightarrow> bool" where
  "starts_with pre s \<longleftrightarrow> take (length pre) (map lower s) = pre"

definition hex_digit :: "char \<Rightarrow> bool" where
  "hex_digit c \<longleftrightarrow> is_digit c \<or> (97 \<le> (of_char (lower c) :: nat) \<and> (of_char (lower c) :: nat) \<le> 102)"

definition digit_value :: "char \<Rightarrow> int" where
  "digit_value c = (if is_digit c then int (of_char c) - 48 else int (of_char (lower c)) - 87)"

definition digits_value :: "int \<Rightarrow> string \<Rightarrow> int" where
  "digits_value base ds = foldl (\<lambda>v c. base * v + digit_value c) 0 ds"

text \<open>The digits before and behind a point, and what follows; \<open>None\<close> if there is no digit.\<close>

definition read_mantissa :: "(char \<Rightarrow> bool) \<Rightarrow> string \<Rightarrow> (string \<times> string \<times> string) option" where
  "read_mantissa digit s =
     (let whole = takeWhile digit s; rest = dropWhile digit s;
          point = (rest \<noteq> [] \<and> hd rest = CHR ''.'');
          frac = (if point then takeWhile digit (tl rest) else []);
          rest' = (if point then dropWhile digit (tl rest) else rest)
      in if whole = [] \<and> frac = [] then None else Some (whole, frac, rest'))"

text \<open>An exponent, if the text is one: the letter, a sign, at least one digit.\<close>

definition read_exponent :: "char \<Rightarrow> string \<Rightarrow> int" where
  "read_exponent letter s =
     (if s \<noteq> [] \<and> lower (hd s) = letter
      then (let s1 = tl s; signed = (s1 \<noteq> [] \<and> (hd s1 = CHR ''-'' \<or> hd s1 = CHR ''+''));
                ds = takeWhile is_digit (if signed then tl s1 else s1);
                v = digits_value 10 ds
            in if signed \<and> hd s1 = CHR ''-'' then - v else v)
      else 0)"

text \<open>
  \<open>rnd s n d e\<close> rounds \<open>(-1)^s * n / d * 2^e\<close>. A hexadecimal prefix without a digit behind it is
  the number 0.
\<close>

definition read_float :: "(bool \<Rightarrow> int \<Rightarrow> int \<Rightarrow> int \<Rightarrow> f32) \<Rightarrow> string \<Rightarrow> f32" where
  "read_float rnd s =
     (let s1 = dropWhile is_blank s;
          signed = (s1 \<noteq> [] \<and> (hd s1 = CHR ''-'' \<or> hd s1 = CHR ''+''));
          neg = (signed \<and> hd s1 = CHR ''-'');
          t = (if signed then tl s1 else s1)
      in if starts_with ''inf'' t then Inf neg
         else if starts_with ''nan'' t then NaN
         else (case (if starts_with ''0x'' t then read_mantissa hex_digit (drop 2 t) else None) of
             Some (whole, frac, rest) \<Rightarrow>
               rnd neg (digits_value 16 (whole @ frac)) 1 (read_exponent CHR ''p'' rest - 4 * int (length frac))
           | None \<Rightarrow>
               (case read_mantissa is_digit t of
                  None \<Rightarrow> rnd False 0 1 0
                | Some (whole, frac, rest) \<Rightarrow>
                    (let n = digits_value 10 (whole @ frac);
                         x = read_exponent CHR ''e'' rest - int (length frac)
                     in if 0 \<le> x then rnd neg (n * 10 ^ nat x) 1 0 else rnd neg n (10 ^ nat (- x)) 0))))"

definition strtod :: "string \<Rightarrow> f64" where
  "strtod s = read_float round_f64 s"

definition strtof :: "string \<Rightarrow> f32" where
  "strtof s = read_float round_f32 s"

definition atof :: "string \<Rightarrow> f64" where
  "atof s = strtod s"

text \<open>The integer conversions of the command lines beside \<open>strtoull\<close>: signed, 32 bits wide, any base.\<close>

definition strtoll :: "string \<Rightarrow> int" where
  "strtoll s = (case read_decimal s of (neg, v) \<Rightarrow>
     if neg then max (- (2 ^ 63)) (- int v) else min (2 ^ 63 - 1) (int v))"

text \<open>\<open>unsigned long\<close> has 64 bits on the supported 64-bit systems with that model.\<close>

definition strtoul :: "string \<Rightarrow> u64" where
  "strtoul s = strtoull s"

definition octal_digit :: "char \<Rightarrow> bool" where
  "octal_digit c \<longleftrightarrow> is_digit c \<and> digit_value c < 8"

definition strtoull_any :: "string \<Rightarrow> u64" where
  "strtoull_any s =
     (let s1 = dropWhile is_blank s;
          signed = (s1 \<noteq> [] \<and> (hd s1 = CHR ''-'' \<or> hd s1 = CHR ''+''));
          neg = (signed \<and> hd s1 = CHR ''-'');
          t = (if signed then tl s1 else s1);
          v = (if starts_with ''0x'' t \<and> takeWhile hex_digit (drop 2 t) \<noteq> []
               then digits_value 16 (takeWhile hex_digit (drop 2 t))
               else if starts_with ''0'' t then digits_value 8 (takeWhile octal_digit t)
               else digits_value 10 (takeWhile is_digit t))
      in if v \<ge> 2 ^ 64 then -1 else if neg then - word_of_int v else word_of_int v)"

end
