(* ===== verification/TbTop.thy ===== *)
theory TbTop
  imports RtlDriverProps ReplayProps CFloats
begin

text \<open>
  The end-to-end test bench \<open>src/sim/tb_top.cpp\<close>, which compares the circuit with the golden model
  after every commit, and \<open>src/sim/tb_replay.cpp\<close>, which prints the circuit's final state. The files
  are a map from paths to contents; the arguments are those behind the program name.
\<close>

subsection \<open>The comparison\<close>

definition golden_best_bid_valid :: "golden_book \<Rightarrow> bool" where
  "golden_best_bid_valid gb \<longleftrightarrow> \<not> RBT.is_empty (gb_bids gb)"

definition golden_best_ask_valid :: "golden_book \<Rightarrow> bool" where
  "golden_best_ask_valid gb \<longleftrightarrow> \<not> RBT.is_empty (gb_asks gb)"

text \<open>
  \<open>g_fail\<close>, an \<open>int\<close>, counts the mismatches; \<open>None\<close> is the overflow of its increment, after which the
  run has no defined result. Two histories are kept beside it, which the program does not
  have: the ports at every commit, and the levels that were queried with the answers.
\<close>

record tb_state =
  tb_ref :: golden_book
  tb_fail :: "nat option"
  tb_commits :: "ports list"
  tb_swept :: "(u64 \<times> bool \<times> u32 \<times> u64) list"

definition MAX_REPORT :: nat where "MAX_REPORT = 20"

definition one_more :: "nat option \<Rightarrow> nat option" where
  "one_more fails = (case fails of None \<Rightarrow> None | Some n \<Rightarrow> if n + 1 < 2 ^ 31 then Some (n + 1) else None)"

definition check_that :: "bool \<Rightarrow> tb_state \<Rightarrow> tb_state" where
  "check_that cond st = (if cond then st else st\<lparr>tb_fail := one_more (tb_fail st)\<rparr>)"

text \<open>The checks of \<open>on_commit\<close> on the ports, in order.\<close>

definition port_checks :: "ports \<Rightarrow> golden_book \<Rightarrow> bool list" where
  "port_checks p gb =
     [po_best_bid_valid p = golden_best_bid_valid gb] @
     (if golden_best_bid_valid gb
      then [po_best_bid_price p = golden_best_bid_price gb, ucast (po_best_bid_shares p) = golden_best_bid_shares gb]
      else []) @
     [po_best_ask_valid p = golden_best_ask_valid gb] @
     (if golden_best_ask_valid gb
      then [po_best_ask_price p = golden_best_ask_price gb, ucast (po_best_ask_shares p) = golden_best_ask_shares gb]
      else []) @
     [po_tot_bid_vol p = gb_tot_bid gb, po_tot_ask_vol p = gb_tot_ask gb, po_vwap_num p = gb_vwap_num gb,
      po_vwap_den p = gb_vwap_den gb, po_trade_count p = gb_trade_count gb,
      po_spread_valid p = golden_spread_valid gb] @
     (if golden_spread_valid gb then [po_spread p = golden_spread gb] else [])"

text \<open>
  One level of the sweep. The message of a mismatch queries the level once more.
\<close>

definition check_level ::
  "'m verilated \<Rightarrow> u64 \<Rightarrow> bool \<Rightarrow> u32 \<Rightarrow> 'm top \<times> tb_state \<Rightarrow> 'm top \<times> tb_state"
where
  "check_level V idx is_bid p ts =
     (case ts of (t, st) \<Rightarrow>
      case rtl_level_shares V is_bid p t of (v, t1) \<Rightarrow>
        (let st1 = st\<lparr>tb_swept := tb_swept st @ [(idx, is_bid, p, ucast v)]\<rparr>
         in if ucast v = level_shares is_bid p (tb_ref st) then (t1, st1)
            else (if (case tb_fail st of None \<Rightarrow> False | Some n \<Rightarrow> n < MAX_REPORT) then snd (rtl_level_shares V is_bid p t1) else t1,
                  check_that False st1)))"

definition on_commit :: "'m verilated \<Rightarrow> ref_msg list \<Rightarrow> ('m, tb_state) on_commit" where
  "on_commit V refmsgs idx ts =
     (case ts of (t, st) \<Rightarrow>
        (let gb = golden_apply (refmsgs ! unat idx) (tb_ref st);
             st1 = st\<lparr>tb_ref := gb, tb_commits := tb_commits st @ [ports_of V t]\<rparr>;
             st2 = fold check_that (port_checks (ports_of V t) gb) st1
         in if (idx + 1) mod 1000 = 0
            then fold (check_level V idx False) (ask_prices gb) (fold (check_level V idx True) (bid_prices gb) (t, st2))
            else (t, st2)))"

definition new_tb_state :: tb_state where
  "new_tb_state = \<lparr>tb_ref = empty_golden, tb_fail = Some 0, tb_commits = [], tb_swept = []\<rparr>"

record tb_run =
  tr_committed :: u64
  tr_cycles :: u64
  tr_state :: tb_state

text \<open>A file that cannot be opened is read as an empty one.\<close>

definition read_itch_file :: "(string \<Rightarrow> bytes option) \<Rightarrow> string \<Rightarrow> bytes" where
  "read_itch_file files path = (case files path of None \<Rightarrow> [] | Some d \<Rightarrow> d)"

definition tb_top_main ::
  "'m verilated \<Rightarrow> (string \<Rightarrow> bytes option) \<Rightarrow> string list \<Rightarrow> (int \<times> tb_run option) option"
where
  "tb_top_main V files args =
     (let path = (if length args > 0 then args ! 0 else ''rtl_sim.itch'');
          max_msgs = (if length args > 1 then strtoull (args ! 1) else 0);
          raw = read_itch_file files path
      in if raw = [] then Some (2, None)
         else (let msgs = split_messages raw (unat max_msgs); stream = reserialize msgs in do {
           refmsgs \<leftarrow> those (map golden_decode msgs);
           (case drive V (on_commit V refmsgs) stream (of_nat (length msgs)) default_cap
                (drv_reset V True (new_driver V)) new_tb_state of
              (committed, d, st) \<Rightarrow> do {
                fails \<leftarrow> tb_fail st;
                Some (if committed \<noteq> of_nat (length msgs) then 1 else if fails \<noteq> 0 then 1 else 0,
                  Some \<lparr>tr_committed = committed, tr_cycles = dr_cyc d, tr_state = st\<rparr>)
              })
         }))"

subsection \<open>tb\_replay\<close>

record rtl_final =
  rf_bid_px :: u32
  rf_bid_sh :: u32
  rf_ask_px :: u32
  rf_ask_sh :: u32
  rf_spread :: u32
  rf_vwap_num :: u64
  rf_vwap_den :: u64
  rf_trades :: u64
  rf_msgs :: u64
  rf_band_base :: u32
  rf_band_drops :: u32
  rf_ins_fails :: u32

definition rtl_final_of :: "ports \<Rightarrow> rtl_final" where
  "rtl_final_of p = \<lparr>rf_bid_px = (if po_best_bid_valid p then po_best_bid_price p else 0),
     rf_bid_sh = po_best_bid_shares p,
     rf_ask_px = (if po_best_ask_valid p then po_best_ask_price p else 0), rf_ask_sh = po_best_ask_shares p,
     rf_spread = (if po_spread_valid p then po_spread p else 0), rf_vwap_num = po_vwap_num p,
     rf_vwap_den = po_vwap_den p, rf_trades = po_trade_count p, rf_msgs = po_msg_total p,
     rf_band_base = po_band_base p, rf_band_drops = po_band_drops p, rf_ins_fails = po_tbl_ins_fails p\<rparr>"

definition tb_replay_main ::
  "'m verilated \<Rightarrow> (string \<Rightarrow> bytes option) \<Rightarrow> string list \<Rightarrow> int \<times> rtl_final option"
where
  "tb_replay_main V files args =
     (if length args < 1 then (2, None)
      else (let cap = (if length args > 1 then strtoull (args ! 1) else 0);
                band = (if length args > 2 then strtoll (args ! 2) else -1);
                raw = read_itch_file files (args ! 0)
            in if raw = [] then (2, None)
               else (let msgs = split_messages raw (unat cap);
                         d0 = drv_reset V True (new_driver V);
                         d1 = (if band \<ge> 0 then set_band V (word_of_int band) d0 else d0)
                     in case drive V (\<lambda>_ ts. ts) (reserialize msgs) (of_nat (length msgs)) default_cap d1 () of
                       (committed, d, _) \<Rightarrow>
                         if committed \<noteq> of_nat (length msgs) then (1, None)
                         else (0, Some (rtl_final_of (ports_of V (dr_top d)))))))"

subsection \<open>What a passing run has compared\<close>

definition ports_match :: "ports \<Rightarrow> golden_book \<Rightarrow> bool" where
  "ports_match p gb \<longleftrightarrow>
     po_best_bid_valid p = golden_best_bid_valid gb \<and>
     (golden_best_bid_valid gb \<longrightarrow> po_best_bid_price p = golden_best_bid_price gb \<and>
        ucast (po_best_bid_shares p) = golden_best_bid_shares gb) \<and>
     po_best_ask_valid p = golden_best_ask_valid gb \<and>
     (golden_best_ask_valid gb \<longrightarrow> po_best_ask_price p = golden_best_ask_price gb \<and>
        ucast (po_best_ask_shares p) = golden_best_ask_shares gb) \<and>
     po_tot_bid_vol p = gb_tot_bid gb \<and> po_tot_ask_vol p = gb_tot_ask gb \<and> po_vwap_num p = gb_vwap_num gb \<and>
     po_vwap_den p = gb_vwap_den gb \<and> po_trade_count p = gb_trade_count gb \<and>
     po_spread_valid p = golden_spread_valid gb \<and> (golden_spread_valid gb \<longrightarrow> po_spread p = golden_spread gb)"

lemma port_checks_all: "(\<forall>c\<in>set (port_checks p gb). c) \<longleftrightarrow> ports_match p gb"
  by (auto simp: port_checks_def ports_match_def)

lemma one_more_not_0: "one_more fails \<noteq> Some 0"
  by (simp add: one_more_def split: option.split)

lemma check_that_simps [simp]:
  "tb_ref (check_that c st) = tb_ref st" "tb_commits (check_that c st) = tb_commits st"
  "tb_swept (check_that c st) = tb_swept st" "check_that True st = st"
  "tb_fail (check_that c st) = Some 0 \<longleftrightarrow> c \<and> tb_fail st = Some 0"
  using one_more_not_0 by (simp_all add: check_that_def)

lemma check_that_fold:
  "tb_ref (fold check_that cs st) = tb_ref st" "tb_commits (fold check_that cs st) = tb_commits st"
  "tb_swept (fold check_that cs st) = tb_swept st"
  "tb_fail (fold check_that cs st) = Some 0 \<longleftrightarrow> tb_fail st = Some 0 \<and> (\<forall>c\<in>set cs. c)"
  by (induction cs arbitrary: st) auto

definition book_after :: "ref_msg list \<Rightarrow> nat \<Rightarrow> golden_book" where
  "book_after ms n = fold golden_apply (take n ms) empty_golden"

lemma book_after_Suc: "n < length ms \<Longrightarrow> book_after ms (Suc n) = golden_apply (ms ! n) (book_after ms n)"
  by (simp add: book_after_def take_Suc_conv_app_nth)

definition sweep_log :: "u64 \<Rightarrow> golden_book \<Rightarrow> (u64 \<times> bool \<times> u32 \<times> u64) list" where
  "sweep_log idx gb = map (\<lambda>p. (idx, True, p, level_shares True p gb)) (bid_prices gb) @
     map (\<lambda>p. (idx, False, p, level_shares False p gb)) (ask_prices gb)"

definition sweeps :: "ref_msg list \<Rightarrow> nat \<Rightarrow> (u64 \<times> bool \<times> u32 \<times> u64) list" where
  "sweeps ms n = concat (map (\<lambda>k. if (of_nat k + 1 :: u64) mod 1000 = 0 then sweep_log (of_nat k) (book_after ms (Suc k)) else [])
     [0..<n])"

text \<open>A count that is still zero at the end was zero all the time.\<close>

lemma check_level_sweep:
  assumes "fold (check_level V idx d) ps (t, st) = (t', st')"
  shows "tb_ref st' = tb_ref st \<and> tb_commits st' = tb_commits st \<and>
    (tb_fail st' = Some 0 \<longrightarrow> tb_fail st = Some 0 \<and>
      tb_swept st' = tb_swept st @ map (\<lambda>p. (idx, d, p, level_shares d p (tb_ref st))) ps)"
  using assms
proof (induction ps arbitrary: t st)
  case (Cons p ps)
  obtain t1 st1 where one: "check_level V idx d p (t, st) = (t1, st1)" by force
  then have st1: "tb_ref st1 = tb_ref st" "tb_commits st1 = tb_commits st"
    "tb_fail st1 = Some 0 \<Longrightarrow> tb_fail st = Some 0 \<and>
       tb_swept st1 = tb_swept st @ [(idx, d, p, level_shares d p (tb_ref st))]"
    by (auto simp: check_level_def Let_def split: prod.splits if_splits)
  have "fold (check_level V idx d) ps (t1, st1) = (t', st')" using Cons.prems one by simp
  from Cons.IH [OF this] st1 show ?case by auto
qed auto

definition agreeing :: "ref_msg list \<Rightarrow> u64 \<Rightarrow> tb_state \<Rightarrow> bool" where
  "agreeing ms n st \<longleftrightarrow> tb_ref st = book_after ms (unat n) \<and> length (tb_commits st) = unat n \<and>
     (tb_fail st = Some 0 \<longrightarrow> (\<forall>k<unat n. ports_match (tb_commits st ! k) (book_after ms (Suc k))) \<and>
        tb_swept st = sweeps ms (unat n))"

lemma agreeing_step:
  assumes "agreeing ms n st" "unat n < length ms" "length ms < 2 ^ 64" "on_commit V ms n (t, st) = (t', st')"
  shows "agreeing ms (n + 1) st'"
proof -
  let ?gb = "golden_apply (ms ! unat n) (tb_ref st)" and ?p = "ports_of V t"
  have n: "unat (n + 1) = Suc (unat n)" using assms(2,3) by (simp add: unat_word_ariths)
  have gb: "?gb = book_after ms (Suc (unat n))"
    using assms(1,2) by (simp add: agreeing_def book_after_Suc)
  define st2 where "st2 = fold check_that (port_checks ?p ?gb) (st\<lparr>tb_ref := ?gb, tb_commits := tb_commits st @ [?p]\<rparr>)"
  have st2: "tb_ref st2 = ?gb" "tb_commits st2 = tb_commits st @ [?p]" "tb_swept st2 = tb_swept st"
    "tb_fail st2 = Some 0 \<longleftrightarrow> tb_fail st = Some 0 \<and> ports_match ?p ?gb"
    by (auto simp: st2_def check_that_fold port_checks_all [symmetric])
  have st': "tb_ref st' = ?gb \<and> tb_commits st' = tb_commits st2 \<and>
    (tb_fail st' = Some 0 \<longrightarrow> tb_fail st2 = Some 0 \<and> tb_swept st' = tb_swept st @ (if (n + 1) mod 1000 = 0 then sweep_log n ?gb else []))"
  proof (cases "(n + 1) mod 1000 = 0")
    case True
    obtain t3 st3 where bids: "fold (check_level V n True) (bid_prices ?gb) (t, st2) = (t3, st3)" by force
    then have "fold (check_level V n False) (ask_prices ?gb) (t3, st3) = (t', st')"
      using assms(4) True by (simp add: on_commit_def st2_def Let_def)
    from check_level_sweep [OF bids] check_level_sweep [OF this] True st2 show ?thesis
      by (auto simp: sweep_log_def)
  next
    case False
    then have "st' = st2" using assms(4) unfolding on_commit_def prod.case Let_def st2_def by auto
    then show ?thesis using st2 False by simp
  qed
  have "sweeps ms (Suc (unat n)) = sweeps ms (unat n) @ (if (n + 1) mod 1000 = 0 then sweep_log n (book_after ms (Suc (unat n))) else [])"
    by (simp add: sweeps_def)
  then show ?thesis
    using assms(1) st2 st' unfolding agreeing_def n gb
    by (auto simp: nth_append less_Suc_eq)
qed

text \<open>An invariant of the callback holds of what \<open>drive\<close> returns.\<close>

lemma drive_callback:
  assumes run: "drive V cb s e cap d st = (c, d', st')" and start: "I 0 st"
    and step: "\<And>k t u t' u'. k < e \<Longrightarrow> I k u \<Longrightarrow> cb k (t, u) = (t', u') \<Longrightarrow> I (k + 1) u'"
  shows "I c st'" "c \<le> e"
proof -
  define P where "P r \<longleftrightarrow> I (rn_committed r) (rn_state r) \<and> rn_committed r \<le> e" for r :: "('a, 'b) drive_run"
  have "P (start_run V d st)" by (simp add: P_def start_run_def start)
  moreover have "P (drive_step V cb s r)" if "P r" "driving e cap r" for r
  proof -
    have "rn_committed r < e" using that(2) by (simp add: driving_def)
    then have "rn_committed r + 1 \<le> e" using next_cycle by (simp add: word_le_nat_alt word_less_nat_alt)
    then show ?thesis
      using that(1) \<open>rn_committed r < e\<close> step by (auto simp: P_def drive_step_def Let_def split: prod.splits)
  qed
  ultimately have "P (drive_loop V cb s e cap (start_run V d st))"
    using drive_loop_rule [of P _ e cap V cb s] by blast
  then show "I c st'" "c \<le> e" using run by (auto simp: P_def drive_def Let_def)
qed

lemma split_messages_length: "length (split_messages d n) \<le> length d"
proof -
  have "length (split_messages d n) \<le> length (frames d)" by (simp add: split_messages_frames)
  also have "\<dots> \<le> length (framed (frames d))" by (rule framed_length)
  also have "\<dots> \<le> length d" by (metis framed_frames_prefix le_add1 length_append)
  finally show ?thesis .
qed

lemma those_length: "those xs = Some ys \<Longrightarrow> length ys = length xs"
  by (induction xs arbitrary: ys) (auto split: option.splits)

lemma tb_top_passes:
  assumes "tb_top_main V files args = Some (0, run)"
    and "\<And>d. files (if length args > 0 then args ! 0 else ''rtl_sim.itch'') = Some d \<Longrightarrow> length d < 2 ^ 64"
  shows "\<exists>raw msgs refmsgs r. files (if length args > 0 then args ! 0 else ''rtl_sim.itch'') = Some raw \<and> raw \<noteq> [] \<and>
    msgs = split_messages raw (unat (if length args > 1 then strtoull (args ! 1) else 0)) \<and>
    those (map golden_decode msgs) = Some refmsgs \<and> run = Some r \<and>
    length (tb_commits (tr_state r)) = length msgs \<and>
    (\<forall>k<length msgs. ports_match (tb_commits (tr_state r) ! k) (book_after refmsgs (Suc k))) \<and>
    tb_swept (tr_state r) = sweeps refmsgs (length msgs)"
proof -
  let ?path = "if length args > 0 then args ! 0 else ''rtl_sim.itch''"
  let ?max = "unat (if length args > 1 then strtoull (args ! 1) else 0)"
  obtain raw where raw: "files ?path = Some raw" "raw \<noteq> []"
    using assms(1) by (auto simp: tb_top_main_def read_itch_file_def Let_def split: option.splits if_splits)
  let ?msgs = "split_messages raw ?max"
  obtain ms c d st where ms: "those (map golden_decode ?msgs) = Some ms"
    and drv: "drive V (on_commit V ms) (reserialize ?msgs) (of_nat (length ?msgs)) default_cap
      (drv_reset V True (new_driver V)) new_tb_state = (c, d, st)"
    and ok: "c = of_nat (length ?msgs)" "tb_fail st = Some 0"
    and run: "run = Some \<lparr>tr_committed = c, tr_cycles = dr_cyc d, tr_state = st\<rparr>"
    using assms(1) raw by (auto simp: tb_top_main_def read_itch_file_def Let_def split: Option.bind_splits if_splits prod.splits)
  have few: "length ?msgs < 2 ^ 64" using split_messages_length [of raw ?max] assms(2) raw(1) by (blast intro: le_less_trans)
  have len: "length ms = length ?msgs" using ms by (auto simp: those_length)
  have n: "unat (of_nat (length ?msgs) :: u64) = length ?msgs" using few by (simp add: unat_of_nat)
  have "agreeing ms 0 new_tb_state" by (simp add: agreeing_def new_tb_state_def book_after_def sweeps_def)
  moreover have "agreeing ms (k + 1) u'"
    if "k < of_nat (length ?msgs)" "agreeing ms k u" "on_commit V ms k (t, u) = (t', u')" for k t u t' u'
    using agreeing_step [OF that(2) _ _ that(3)] that(1) few len n by (simp add: word_less_nat_alt)
  ultimately have "agreeing ms c st" using drive_callback [OF drv, of "agreeing ms"] by blast
  then show ?thesis
    using raw ms run ok n by (intro exI [of _ raw] exI [of _ ?msgs] exI [of _ ms]) (simp add: agreeing_def)
qed

end
