(* ===== verification/TbProps.thy ===== *)
theory TbProps
  imports TbTop ReplayModes
begin

text \<open>
  The test bench against the software: a passing run of \<open>tb_top\<close> and a replay with a good verdict
  have the same final state.
\<close>

subsection \<open>One symbol\<close>

definition golden_locates :: "u16 \<Rightarrow> golden_book \<Rightarrow> bool" where
  "golden_locates loc gb \<longleftrightarrow> (\<forall>r ord. gb_orders gb r = Some ord \<longrightarrow> go_locate ord = loc)"

lemma golden_locates_steps:
  assumes "golden_locates loc gb"
  shows "golden_locates loc (golden_add r d loc p q gb)" "golden_locates loc (golden_remove r gb)"
    "golden_locates loc (golden_reduce r q gb)" "golden_locates loc (golden_trade p q gb)"
  using assms
  by (auto simp: golden_locates_def golden_add_def golden_remove_def golden_reduce_def golden_trade_def Let_def
      set_side_def add_total_def sub_total_def split: option.splits if_splits)

lemma golden_locates_apply:
  assumes "golden_locates loc gb" "rm_locate m = loc"
  shows "golden_locates loc (golden_apply m gb)"
proof -
  have "go_locate ord = loc" if "gb_orders gb r = Some ord" for r ord
    using assms(1) that by (simp add: golden_locates_def)
  then show ?thesis
    using golden_locates_steps [OF assms(1)] golden_locates_steps [OF golden_locates_steps(2) [OF assms(1)]]
      golden_locates_steps [OF golden_locates_steps(3) [OF assms(1)]] assms
    by (auto simp: golden_apply_def Let_def split: option.splits)
qed

lemma golden_locates_run:
  "\<forall>m\<in>set ms. rm_locate m = loc \<Longrightarrow> golden_locates loc gb \<Longrightarrow> golden_locates loc (fold golden_apply ms gb)"
  by (induction ms arbitrary: gb) (auto simp: golden_locates_apply)

lemma golden_one_symbol:
  assumes "golden_agrees os gb" "golden_locates loc gb"
  shows "one_symbol os loc"
proof -
  have "ov_locate v = loc" if "os r = Some v" for r v
  proof -
    have "gb_orders gb r = Some (to_golden v)" using golden_order [OF assms(1)] that by simp
    then have "go_locate (to_golden v) = loc" using assms(2) unfolding golden_locates_def by blast
    then show ?thesis by (simp add: to_golden_def)
  qed
  then show ?thesis by (simp add: one_symbol_def)
qed

subsection \<open>The top of the book\<close>

lemma golden_top:
  assumes inv: "engine_inv e" and agree: "golden_agrees (live e) gb" and one: "one_symbol (live e) loc"
  shows "golden_best_bid_valid gb \<longleftrightarrow> ob_best_bid (book_of e loc) \<noteq> 0"
    and "golden_best_ask_valid gb \<longleftrightarrow> ob_best_ask (book_of e loc) \<noteq> 0"
    and "golden_best_bid_valid gb \<Longrightarrow> golden_best_bid_shares gb = ucast (best_bid_depth (book_of e loc))"
    and "golden_best_ask_valid gb \<Longrightarrow> golden_best_ask_shares gb = ucast (best_ask_depth (book_of e loc))"
proof -
  let ?b = "book_of e loc"
  note binv = golden_lookup(1) [OF assms] and look = golden_lookup(2,3) [OF assms]
  have same: "golden_best_bid_price gb = ob_best_bid ?b" "golden_best_ask_price gb = ob_best_ask ?b"
    "level_shares True p gb = ucast (bid_shares_at ?b p)" "level_shares False p gb = ucast (ask_shares_at ?b p)" for p
    using golden_answers [OF assms] by (simp_all add: same_book_def)
  have zero: "bid_shares_at ?b 0 = 0" "ask_shares_at ?b 0 = 0"
    using book_invD(5,6) [OF binv] by (simp_all add: bid_shares_at_def ask_shares_at_def levels_ok_def)
  have bid_keys: "p \<in> set (RBT.keys (gb_bids gb)) \<longleftrightarrow> bid_shares_at ?b p \<noteq> 0" for p
    using look(1) [of p] by (auto simp: RBT.lookup_keys [symmetric] split: if_splits)
  have ask_keys: "p \<in> set (RBT.keys (gb_asks gb)) \<longleftrightarrow> ask_shares_at ?b p \<noteq> 0" for p
    using look(2) [of p] by (auto simp: RBT.lookup_keys [symmetric] split: if_splits)
  have bids: "golden_best_bid_valid gb \<longleftrightarrow> RBT.keys (gb_bids gb) \<noteq> []"
    and asks: "golden_best_ask_valid gb \<longleftrightarrow> RBT.keys (gb_asks gb) \<noteq> []"
    using RBT.non_empty_keys by (auto simp: golden_best_bid_valid_def golden_best_ask_valid_def)
  show bid: "golden_best_bid_valid gb \<longleftrightarrow> ob_best_bid ?b \<noteq> 0"
  proof
    assume "golden_best_bid_valid gb"
    then have "golden_best_bid_price gb \<in> set (RBT.keys (gb_bids gb))"
      using bids by (cases "RBT.keys (gb_bids gb)") (simp_all add: golden_best_bid_price_def)
    then have "bid_shares_at ?b (ob_best_bid ?b) \<noteq> 0" unfolding bid_keys same(1) .
    then show "ob_best_bid ?b \<noteq> 0" using zero(1) by metis
  next
    assume "ob_best_bid ?b \<noteq> 0"
    then show "golden_best_bid_valid gb" unfolding bids same(1) [symmetric] by (auto simp: golden_best_bid_price_def)
  qed
  show ask: "golden_best_ask_valid gb \<longleftrightarrow> ob_best_ask ?b \<noteq> 0"
  proof
    assume "golden_best_ask_valid gb"
    then have "golden_best_ask_price gb \<in> set (RBT.keys (gb_asks gb))"
      using asks by (cases "RBT.keys (gb_asks gb)") (simp_all add: golden_best_ask_price_def)
    then have "ask_shares_at ?b (ob_best_ask ?b) \<noteq> 0" unfolding ask_keys same(2) .
    then show "ob_best_ask ?b \<noteq> 0" using zero(2) by metis
  next
    assume "ob_best_ask ?b \<noteq> 0"
    then show "golden_best_ask_valid gb" unfolding asks same(2) [symmetric] by (auto simp: golden_best_ask_price_def)
  qed
  show "golden_best_bid_shares gb = ucast (best_bid_depth ?b)" if v: "golden_best_bid_valid gb"
  proof -
    obtain k ks where ks: "RBT.keys (gb_bids gb) = k # ks" using v bids by (cases "RBT.keys (gb_bids gb)") auto
    then have "golden_best_bid_price gb \<in> set (RBT.keys (gb_bids gb))" by (simp add: golden_best_bid_price_def)
    then obtain lv where "RBT.lookup (gb_bids gb) (golden_best_bid_price gb) = Some lv"
      unfolding RBT.lookup_keys [symmetric] by auto
    then have "golden_best_bid_shares gb = level_shares True (golden_best_bid_price gb) gb"
      using ks by (simp add: golden_best_bid_shares_def golden_best_bid_price_def level_shares_def golden_side_def)
    then show ?thesis using depth_at_best(1) [OF binv] v by (simp add: same bid)
  qed
  show "golden_best_ask_shares gb = ucast (best_ask_depth ?b)" if v: "golden_best_ask_valid gb"
  proof -
    obtain k ks where ks: "RBT.keys (gb_asks gb) = k # ks" using v asks by (cases "RBT.keys (gb_asks gb)") auto
    then have "golden_best_ask_price gb \<in> set (RBT.keys (gb_asks gb))" by (simp add: golden_best_ask_price_def)
    then obtain lv where "RBT.lookup (gb_asks gb) (golden_best_ask_price gb) = Some lv"
      unfolding RBT.lookup_keys [symmetric] by auto
    then have "golden_best_ask_shares gb = level_shares False (golden_best_ask_price gb) gb"
      using ks by (simp add: golden_best_ask_shares_def golden_best_ask_price_def level_shares_def golden_side_def)
    then show ?thesis using depth_at_best(2) [OF binv] v by (simp add: same ask)
  qed
qed

subsection \<open>The test bench and the replay\<close>

text \<open>What the final line says of the golden model's book after the same messages.\<close>

lemma final_golden:
  assumes "replay_stream env d = Some out" "rx_status out = 0" "rp_engine_mode (ren_options env) = ''simd''"
    "rp_final_state (ren_options env)" "length d < 2 ^ 64"
    and one: "\<forall>b\<in>set (frames d). dm_stock_locate (decoded b) = rp_primary (ren_options env)"
  shows "\<exists>ms fl. those (map golden_decode (frames d)) = Some ms \<and> rx_final out = Some fl \<and>
    (let gb = fold golden_apply ms empty_golden in
     fl_vwap_num fl = gb_vwap_num gb \<and> fl_vwap_den fl = gb_vwap_den gb \<and>
     gb_trade_count gb = fl_trades fl + of_nat (empty_prints (map decoded (frames d))) \<and>
     fl_msgs fl = of_nat (length (frames d)) \<and>
     (golden_best_bid_valid gb \<longleftrightarrow> fl_bid_px fl \<noteq> 0) \<and> (golden_best_ask_valid gb \<longleftrightarrow> fl_ask_px fl \<noteq> 0) \<and>
     golden_best_bid_price gb = fl_bid_px fl \<and> golden_best_ask_price gb = fl_ask_px fl \<and>
     (golden_best_bid_valid gb \<longrightarrow> golden_best_bid_shares gb = ucast (fl_bid_sh fl)) \<and>
     (golden_best_ask_valid gb \<longrightarrow> golden_best_ask_shares gb = ucast (fl_ask_sh fl)) \<and>
     fl_spread fl = tree_spread (fl_bid_px fl) (fl_ask_px fl))"
proof -
  let ?bs = "frames d" and ?loc = "rp_primary (ren_options env)"
  obtain e0 e s where r: "engine_init replay_levels replay_capacity = Some e0"
    "\<forall>b\<in>set ?bs. dm_type (decoded b) \<noteq> Unknown" "accepted_run (map decoded ?bs) e0"
    "run_stats (map decoded ?bs) (e0, no_stats) = Some (e, re_stats s)" "re_book s = Simd e"
    "re_seq s = of_nat (length ?bs)" "rx_final out = final_of ?loc s"
    using replay_clean [OF assms(1,2,3,5)] assms(4) by auto
  note init = engine_init_inv [OF r(1)]
  let ?gb = "fold golden_apply (map golden_msg (map decoded ?bs)) empty_golden"
  have "same_trades 0 empty_golden no_stats" by (simp add: same_trades_def empty_golden_def no_stats_def)
  then have e: "engine_inv e" "golden_agrees (live e) ?gb"
    "same_trades (empty_prints (map decoded ?bs)) ?gb (re_stats s)"
    using golden_run [OF init(1) _ _ r(3), of empty_golden 0 no_stats] init(2) empty_golden_agrees r(4) by auto
  have "golden_locates ?loc empty_golden" by (simp add: golden_locates_def empty_golden_def)
  then have "golden_locates ?loc ?gb" using one by (intro golden_locates_run) auto
  then have sym: "one_symbol (live e) ?loc" by (rule golden_one_symbol [OF e(2)])
  have ms: "those (map golden_decode ?bs) = Some (map golden_msg (map decoded ?bs))"
    using those_map [of golden_decode "golden_msg \<circ> decoded" ?bs] r(2) golden_decode_known by (simp add: list_all_iff)
  obtain fl where fl: "final_of ?loc s = Some fl" using r(5) by (simp add: final_of_def Let_def)
  have new: "ob_best_bid (new_book lv) = 0" "ob_best_ask (new_book lv) = 0" for lv by (simp_all add: new_book_def)
  let ?b = "book_of e ?loc"
  have line: "fl_bid_px fl = ob_best_bid ?b" "fl_bid_sh fl = best_bid_depth ?b" "fl_ask_px fl = ob_best_ask ?b"
    "fl_ask_sh fl = best_ask_depth ?b" "fl_spread fl = spread ?b" "fl_vwap_num fl = st_vwap_num (re_stats s)"
    "fl_vwap_den fl = st_vwap_den (re_stats s)" "fl_trades fl = st_trade_count (re_stats s)" "fl_msgs fl = re_seq s"
    using fl r(5) new by (auto simp: final_of_def Let_def book_of_def best_bid_depth_def best_ask_depth_def spread_def
        split: option.splits)
  have "golden_best_bid_price ?gb = ob_best_bid ?b" "golden_best_ask_price ?gb = ob_best_ask ?b"
    using golden_answers [OF e(1,2) sym] by (simp_all add: same_book_def)
  then show ?thesis
    using ms r(6,7) fl e(3) golden_top [OF e(1,2) sym]
    by (intro exI [of _ "map golden_msg (map decoded ?bs)"] exI [of _ fl])
      (simp add: line same_trades_def Let_def tree_spread_def spread_def)
qed

text \<open>The last ports of a passing run over the whole file.\<close>

lemma tb_top_last:
  assumes "tb_top_main V files [path] = Some (0, Some r)" "files path = Some d" "length d < 2 ^ 64" "frames d \<noteq> []"
  shows "\<exists>ms. those (map golden_decode (frames d)) = Some ms \<and>
    ports_match (List.last (tb_commits (tr_state r))) (fold golden_apply ms empty_golden)"
proof -
  obtain ms where ms: "those (map golden_decode (split_messages d 0)) = Some ms"
    "length (tb_commits (tr_state r)) = length (split_messages d 0)"
    "\<forall>k<length (split_messages d 0). ports_match (tb_commits (tr_state r) ! k) (book_after ms (Suc k))"
    using tb_top_passes [OF assms(1)] assms(2,3) by auto
  have n: "split_messages d 0 = frames d" by (simp add: split_messages_frames)
  have len: "length ms = length (frames d)" using ms(1) unfolding n by (auto dest: those_length)
  obtain k where k: "length (frames d) = Suc k" using assms(4) by (cases "frames d") auto
  then have "tb_commits (tr_state r) \<noteq> []" "length (tb_commits (tr_state r)) = Suc k" using ms(2) unfolding n by auto
  then have "List.last (tb_commits (tr_state r)) = tb_commits (tr_state r) ! k" by (simp add: last_conv_nth)
  then have "ports_match (List.last (tb_commits (tr_state r))) (book_after ms (length (frames d)))"
    using ms(3) k unfolding n by simp
  then show ?thesis using ms(1) len unfolding n by (simp add: book_after_def)
qed

lemma ucast_wide: "(ucast (x :: u32) :: u64) = ucast y \<Longrightarrow> x = y"
  by transfer (simp add: take_bit_eq_mod)

lemma rtl_software:
  assumes pass: "tb_top_main V files [path] = Some (0, Some r)" "files path = Some d" "length d < 2 ^ 64" "frames d \<noteq> []"
    and replay: "replay_stream env d = Some out" "rx_status out = 0" "rp_engine_mode (ren_options env) = ''simd''"
    "rp_final_state (ren_options env)"
    and one: "\<forall>b\<in>set (frames d). dm_stock_locate (decoded b) = rp_primary (ren_options env)"
  shows "\<exists>fl. rx_final out = Some fl \<and>
    (let p = List.last (tb_commits (tr_state r)) in
     po_vwap_num p = fl_vwap_num fl \<and> po_vwap_den p = fl_vwap_den fl \<and>
     po_trade_count p = fl_trades fl + of_nat (empty_prints (map decoded (frames d))) \<and>
     (if po_best_bid_valid p then po_best_bid_price p = fl_bid_px fl \<and> po_best_bid_shares p = fl_bid_sh fl
      else fl_bid_px fl = 0) \<and>
     (if po_best_ask_valid p then po_best_ask_price p = fl_ask_px fl \<and> po_best_ask_shares p = fl_ask_sh fl
      else fl_ask_px fl = 0) \<and>
     (po_spread_valid p \<longrightarrow> po_spread p = fl_ask_px fl - fl_bid_px fl \<and>
        fl_spread fl = (if fl_bid_px fl < fl_ask_px fl then po_spread p else 0)))"
proof -
  obtain ms where ms: "those (map golden_decode (frames d)) = Some ms"
    "ports_match (List.last (tb_commits (tr_state r))) (fold golden_apply ms empty_golden)"
    using tb_top_last [OF pass] by blast
  define gb where "gb = fold golden_apply ms empty_golden"
  obtain fl where fl: "rx_final out = Some fl" "fl_vwap_num fl = gb_vwap_num gb" "fl_vwap_den fl = gb_vwap_den gb"
    "gb_trade_count gb = fl_trades fl + of_nat (empty_prints (map decoded (frames d)))"
    "golden_best_bid_valid gb \<longleftrightarrow> fl_bid_px fl \<noteq> 0" "golden_best_ask_valid gb \<longleftrightarrow> fl_ask_px fl \<noteq> 0"
    "golden_best_bid_price gb = fl_bid_px fl" "golden_best_ask_price gb = fl_ask_px fl"
    "golden_best_bid_valid gb \<longrightarrow> golden_best_bid_shares gb = ucast (fl_bid_sh fl)"
    "golden_best_ask_valid gb \<longrightarrow> golden_best_ask_shares gb = ucast (fl_ask_sh fl)"
    "fl_spread fl = tree_spread (fl_bid_px fl) (fl_ask_px fl)"
    using final_golden [OF replay pass(3) one] ms(1) by (auto simp: gb_def Let_def)
  have spread: "golden_spread_valid gb \<longleftrightarrow> golden_best_bid_valid gb \<and> golden_best_ask_valid gb"
    by (simp add: golden_spread_valid_def golden_best_bid_valid_def golden_best_ask_valid_def)
  show ?thesis
    using ms(2) fl spread ucast_wide unfolding gb_def [symmetric] ports_match_def
    by (intro exI [of _ fl]) (auto simp: Let_def golden_spread_def tree_spread_def)
qed

subsection \<open>The sweep leaves the input port alone\<close>

lemma query_seen: "settled t \<Longrightarrow> seen (query_level (probed V) d p t) = seen t \<and> settled (query_level (probed V) d p t)"
  by (simp add: query_level_def seen_def settled_def eval_top_def set_pins_def probed_def probe_eval_def Let_def)

lemma check_levels_seen:
  "settled t \<Longrightarrow> seen (fst (fold (check_level (probed V) idx d) ps (t, st))) = seen t \<and>
     settled (fst (fold (check_level (probed V) idx d) ps (t, st)))"
proof (induction ps arbitrary: t st)
  case (Cons p ps)
  obtain t1 st1 where one: "check_level (probed V) idx d p (t, st) = (t1, st1)" by force
  have "t1 = query_level (probed V) d p t \<or> t1 = query_level (probed V) d p (query_level (probed V) d p t)"
    using one by (auto simp: check_level_def rtl_level_shares_def Let_def split: if_splits)
  then have "seen t1 = seen t" "settled t1" using query_seen Cons.prems by metis+
  then show ?case using Cons.IH [of t1 st1] one by simp
qed simp

lemma on_commit_keeps: "keeps_input (on_commit (probed V) ms)"
proof -
  have "seen (fst (on_commit (probed V) ms k (t, st))) = seen t" if "settled t" for k t st
  proof (cases "(k + 1) mod 1000 = 0")
    case True
    let ?gb = "golden_apply (ms ! unat k) (tb_ref st)"
    define st2 where "st2 = fold check_that (port_checks (ports_of (probed V) t) ?gb)
      (st\<lparr>tb_ref := ?gb, tb_commits := tb_commits st @ [ports_of (probed V) t]\<rparr>)"
    obtain t3 st3 where bids: "fold (check_level (probed V) k True) (bid_prices ?gb) (t, st2) = (t3, st3)" by force
    then have "seen t3 = seen t" "settled t3" using check_levels_seen [OF that, of V k True "bid_prices ?gb" st2] by simp_all
    moreover have "fst (on_commit (probed V) ms k (t, st)) =
        fst (fold (check_level (probed V) k False) (ask_prices ?gb) (t3, st3))"
      using True bids by (simp add: on_commit_def st2_def Let_def)
    ultimately show ?thesis using check_levels_seen [of t3 V k False "ask_prices ?gb" st3] by simp
  next
    case False
    then show ?thesis by (simp add: on_commit_def Let_def)
  qed
  then show ?thesis by (simp add: keeps_input_def)
qed

subsection \<open>A circuit for the examples\<close>

text \<open>
  A circuit that is always ready, counts one message for every word and shows fixed values on its
  other ports.
\<close>

definition idle_pins :: pins where
  "idle_pins = \<lparr>pn_clk = False, pn_rst = False, pn_raw_mode = False, pn_mold_mode = False,
     pn_in_data = replicate 4 0, pn_in_nbytes = 0, pn_in_valid = False, pn_in_sop = False,
     pn_band_cfg_valid = False, pn_band_cfg_base = 0, pn_dbg_is_bid = False, pn_dbg_price = 0\<rparr>"

definition quiet_ports :: ports where
  "quiet_ports = \<lparr>po_in_ready = True, po_best_bid_valid = False, po_best_bid_price = 0, po_best_bid_shares = 0,
     po_best_ask_valid = False, po_best_ask_price = 0, po_best_ask_shares = 0, po_tot_bid_vol = 0,
     po_tot_ask_vol = 0, po_band_base = 0, po_band_drops = 0, po_dbg_shares = 0, po_dbg_count = 0,
     po_vwap_num = 0, po_vwap_den = 0, po_spread_valid = False, po_spread = 0, po_trade_count = 0,
     po_add_cycles = 0, po_delete_cycles = 0, po_replace_cycles = 0, po_scan_count = 0,
     po_scan_cycles_total = 0, po_hash_probe_1 = 0, po_hash_probe_2 = 0, po_hash_probe_gt2 = 0,
     po_tbl_ins_fails = 0, po_ingest_stall_cycles = 0, po_msg_total = 0\<rparr>"

definition word_counter :: "ports \<Rightarrow> (bool \<times> u64) verilated" where
  "word_counter p = \<lparr>vm_new = \<lparr>tp_pins = idle_pins, tp_model = (False, 0)\<rparr>,
     vm_eval = (\<lambda>q (clk, n). (pn_clk q, if pn_clk q \<and> \<not> clk \<and> pn_in_valid q \<and> \<not> pn_rst q then n + 1 else n)),
     vm_ports = (\<lambda>(clk, n). p\<lparr>po_in_ready := True, po_msg_total := n\<rparr>)\<rparr>"

definition counter_start :: "ports \<Rightarrow> (bool \<times> u64) driver" where
  "counter_start p = drv_reset (word_counter p) True (new_driver (word_counter p))"

lemma counter_reset: "counter_start p = \<lparr>dr_top = \<lparr>tp_pins = idle_pins\<lparr>pn_clk := True, pn_raw_mode := True\<rparr>,
    tp_model = (True, 0)\<rparr>, dr_cyc = 6\<rparr>"
  by (simp add: counter_start_def drv_reset_def Let_def numeral_eq_Suc drive_pins_def new_driver_def word_counter_def
      set_pins_def tick_def eval_top_def idle_pins_def)

text \<open>With one message to wait for, the first word ends the run.\<close>

lemma counter_once:
  assumes "s \<noteq> []"
  shows "\<exists>t d. ports_of (word_counter p) t = p\<lparr>po_in_ready := True, po_msg_total := 1\<rparr> \<and> dr_cyc d = 7 \<and>
    drive (word_counter p) cb s 1 default_cap (counter_start p) st =
      (case cb 0 (t, st) of (t', st') \<Rightarrow> (1, d\<lparr>dr_top := t'\<rparr>, st'))"
proof -
  let ?V = "word_counter p" and ?r = "start_run (word_counter p) (counter_start p) st"
  obtain t n where p: "present ?V s 0 (dr_top (counter_start p)) = (t, Some n)" "pn_in_valid (tp_pins t)"
    "\<not> pn_rst (tp_pins t)" "tp_model t = (True, 0)"
    using assms by (simp add: present_def counter_reset word_counter_def ports_of_def Let_def set_pins_def
        set_in_word_def idle_pins_def)
  define d where "d = tick ?V ((counter_start p)\<lparr>dr_top := t\<rparr>)"
  have model: "tp_model (dr_top d) = (True, 1)" "dr_cyc d = 7"
    using p by (simp_all add: d_def tick_def Let_def eval_top_def set_pins_def word_counter_def counter_reset)
  then have ports: "ports_of ?V (dr_top d) = p\<lparr>po_in_ready := True, po_msg_total := 1\<rparr>"
    by (simp add: ports_of_def word_counter_def)
  have start: "rn_i ?r = 0" "rn_committed ?r = 0" "rn_last ?r = 0" "rn_driver ?r = counter_start p" "rn_state ?r = st"
    by (simp_all add: start_run_def ports_of_def word_counter_def counter_reset)
  have go: "driving 1 default_cap ?r" unfolding driving_def start by (simp add: counter_reset default_cap_def)
  obtain t' st' where cb: "cb 0 (dr_top d, st) = (t', st')" by force
  have step: "drive_step ?V cb s ?r = \<lparr>rn_i = n, rn_committed = 1, rn_last = 1, rn_driver = d\<lparr>dr_top := t'\<rparr>, rn_state = st'\<rparr>"
    using cb ports start by (simp add: drive_step_def p(1) d_def [symmetric] Let_def)
  have "drive_loop ?V cb s 1 default_cap ?r = drive_step ?V cb s ?r"
    unfolding drive_loop.simps [of ?V cb s 1 default_cap ?r] if_P [OF go]
    by (subst drive_loop.simps) (simp add: step driving_def)
  then have "drive ?V cb s 1 default_cap (counter_start p) st = (1, d\<lparr>dr_top := t'\<rparr>, st')"
    by (simp add: drive_def step Let_def)
  then show ?thesis using cb ports model(2) by (intro exI [of _ "dr_top d"] exI [of _ d]) simp
qed

definition trade_ports :: ports where
  "trade_ports = quiet_ports\<lparr>po_vwap_num := 500, po_vwap_den := 100, po_trade_count := 1\<rparr>"

lemma trade_golden: "golden_decode (drop 2 trade_file) = Some (golden_msg (decoded (drop 2 trade_file)))"
  by (rule golden_decode_known) (simp add: trade_decoded head_msg_def)

lemma trade_length: "length trade_file < 2 ^ 64"
  by (simp add: trade_file_def build_trade_frame build_head_def frame_def)

lemma trade_passes:
  "\<exists>r. tb_top_main (word_counter trade_ports) sample_files [''trade.itch''] = Some (0, Some r)"
proof -
  let ?m = "golden_msg (decoded (drop 2 trade_file))"
  have raw: "read_itch_file sample_files ''trade.itch'' = trade_file" "trade_file \<noteq> []"
    by (simp_all add: read_itch_file_def sample_files_def trade_file_def build_trade_frame build_head_def frame_def)
  have msgs: "split_messages trade_file 0 = [drop 2 trade_file]" "reserialize [drop 2 trade_file] = trade_file"
    using trade_frames by (simp_all add: split_messages_frames reserialize_framed)
  obtain t d where run: "ports_of (word_counter trade_ports) t = trade_ports\<lparr>po_in_ready := True, po_msg_total := 1\<rparr>"
    "drive (word_counter trade_ports) (on_commit (word_counter trade_ports) [?m]) trade_file 1 default_cap
      (counter_start trade_ports) new_tb_state =
      (case on_commit (word_counter trade_ports) [?m] 0 (t, new_tb_state) of (t', st') \<Rightarrow> (1, d\<lparr>dr_top := t'\<rparr>, st'))"
    using counter_once [OF raw(2), of trade_ports "on_commit (word_counter trade_ports) [?m]" new_tb_state] by blast
  have gb: "golden_apply ?m empty_golden = empty_golden\<lparr>gb_vwap_num := 500, gb_vwap_den := 100, gb_trade_count := 1\<rparr>"
    by (simp add: trade_decoded head_msg_def empty_golden_def golden_apply_def golden_trade_def)
  have "ports_match (trade_ports\<lparr>po_in_ready := True, po_msg_total := 1\<rparr>) (golden_apply ?m empty_golden)"
    unfolding gb by (simp add: ports_match_def trade_ports_def quiet_ports_def empty_golden_def golden_best_bid_valid_def
        golden_best_ask_valid_def golden_spread_valid_def)
  then have "\<forall>c\<in>set (port_checks (trade_ports\<lparr>po_in_ready := True, po_msg_total := 1\<rparr>) (golden_apply ?m empty_golden)). c"
    by (simp only: port_checks_all)
  then have ok: "tb_fail (snd (on_commit (word_counter trade_ports) [?m] 0 (t, new_tb_state))) = Some 0"
    by (simp add: on_commit_def new_tb_state_def run(1) check_that_fold Let_def)
  obtain t' st' where "on_commit (word_counter trade_ports) [?m] 0 (t, new_tb_state) = (t', st')" by force
  then show ?thesis
    using run(2) ok by (simp add: tb_top_main_def raw msgs trade_golden counter_start_def [symmetric] Let_def)
qed

subsection \<open>Properties\<close>

text \<open>
  Property C34. The driver feeds the stream to the circuit, whatever the circuit is. After a reset
  and with any callback that leaves the input port alone, the words taken at the clock edges of a
  run, put together, are the beginning of the stream: no byte is lost, repeated or reordered.
  Every word has 1 to 16 bytes, at most one is taken per cycle, and the cycle counter of the
  driver is the number of clock edges of the circuit.
\<close>

theorem driver_feeds_stream:
  assumes "keeps_input cb"
    and "drive (probed V) cb s e cap (drv_reset (probed V) raw (new_driver (probed V))) st = (c, d', st')"
  shows "\<exists>W. seen (dr_top d') = (False, dr_cyc d', W) \<and> concat (map snd W) = take (16 * length W) s \<and>
    (\<forall>w\<in>set W. snd w \<noteq> [] \<and> length (snd w) \<le> 16 \<and> 6 < fst w \<and> fst w \<le> dr_cyc d') \<and>
    sorted_wrt (<) (map fst W)"
  by (rule driver_feeds [OF assms])

theorem driver_feeds_stream_witness:
  "\<exists>c d' st'. drive (probed (word_counter quiet_ports)) (on_commit (probed (word_counter quiet_ports)) []) trade_file 1
     default_cap (drv_reset (probed (word_counter quiet_ports)) True (new_driver (probed (word_counter quiet_ports))))
     new_tb_state = (c, d', st') \<and>
   (\<exists>W. seen (dr_top d') = (False, dr_cyc d', W) \<and> concat (map snd W) = take (16 * length W) trade_file)"
proof -
  let ?V = "probed (word_counter quiet_ports)"
  obtain c d' st' where run: "drive ?V (on_commit ?V []) trade_file 1 default_cap
      (drv_reset ?V True (new_driver ?V)) new_tb_state = (c, d', st')" by (metis prod_cases3)
  from driver_feeds_stream [OF on_commit_keeps run] run show ?thesis by blast
qed

text \<open>
  Property C35. A passing run of \<open>tb_top\<close> means what it says. When the test bench ends with status 0
  (a run whose \<open>int\<close> count of mismatches overflows has no status), all messages of its file, up to the limit of the command line, were committed; the golden
  model could decode them all; after every single one of them the ports of the circuit agreed
  with the golden model after exactly the messages up to that one; and after every thousandth
  message every price level of both sides was queried and had the golden model's shares.
\<close>

theorem tb_top_sound:
  assumes "tb_top_main V files args = Some (0, run)"
    and "\<And>d. files (if length args > 0 then args ! 0 else ''rtl_sim.itch'') = Some d \<Longrightarrow> length d < 2 ^ 64"
  shows "\<exists>raw msgs refmsgs r. files (if length args > 0 then args ! 0 else ''rtl_sim.itch'') = Some raw \<and> raw \<noteq> [] \<and>
    msgs = split_messages raw (unat (if length args > 1 then strtoull (args ! 1) else 0)) \<and>
    those (map golden_decode msgs) = Some refmsgs \<and> run = Some r \<and>
    length (tb_commits (tr_state r)) = length msgs \<and>
    (\<forall>k<length msgs. ports_match (tb_commits (tr_state r) ! k) (book_after refmsgs (Suc k))) \<and>
    tb_swept (tr_state r) = sweeps refmsgs (length msgs)"
  by (rule tb_top_passes [OF assms])

theorem tb_top_sound_witness:
  "\<exists>r refmsgs. tb_top_main (word_counter trade_ports) sample_files [''trade.itch''] = Some (0, Some r) \<and>
     those (map golden_decode (split_messages trade_file 0)) = Some refmsgs \<and>
     length (tb_commits (tr_state r)) = length (split_messages trade_file 0)"
proof -
  obtain r where r: "tb_top_main (word_counter trade_ports) sample_files [''trade.itch''] = Some (0, Some r)"
    using trade_passes by blast
  have "length d < 2 ^ 64" if "sample_files ''trade.itch'' = Some d" for d
    using that trade_length by (simp add: sample_files_def)
  then show ?thesis using tb_top_sound [OF r] r by (auto simp: sample_files_def)
qed



end
