(* ===== verification/RtlLatency.thy ===== *)
theory RtlLatency
  imports RtlDriverProps
begin

text \<open>
  What \<open>drive_latency\<close> reports: for every commit, the cycles in which the words that carry the first
  and the last byte of the message were clocked in.
\<close>

subsection \<open>Message bounds and stamps\<close>

lemma msg_bounds_length [simp]: "length (msg_bounds pos fl) = length fl"
  by (induction pos fl rule: msg_bounds.induct) simp_all

lemma msg_bounds_nth:
  "k < length fl \<Longrightarrow> msg_bounds pos fl ! k = (pos + sum_list (take k fl), pos + sum_list (take (Suc k) fl))"
proof (induction pos fl arbitrary: k rule: msg_bounds.induct)
  case (2 pos n ns)
  then show ?case by (cases k) (simp_all add: add.assoc)
qed simp

definition first_byte :: "nat list \<Rightarrow> nat \<Rightarrow> nat" where
  "first_byte fl k = sum_list (take k fl)"

definition last_byte :: "nat list \<Rightarrow> nat \<Rightarrow> nat" where
  "last_byte fl k = sum_list (take (Suc k) fl) - 1"

lemma stamp_while_spec:
  assumes "stamp_while P n cyc ptr st = (ptr', st')" "\<And>j k. P k \<Longrightarrow> j \<le> k \<Longrightarrow> k < n \<Longrightarrow> P j"
    "ptr \<le> n" "\<And>k. k < ptr \<Longrightarrow> P k" "length st = n"
  shows "ptr \<le> ptr' \<and> ptr' \<le> n \<and> length st' = n \<and> (\<forall>k<n. k < ptr' \<longleftrightarrow> P k) \<and>
    (\<forall>k<n. st' ! k = (if ptr \<le> k \<and> k < ptr' then cyc else st ! k))"
  using assms
proof (induction P n cyc ptr st rule: stamp_while.induct)
  case (1 P n cyc ptr st)
  show ?case
  proof (cases "ptr < n \<and> P ptr")
    case True
    then have next_eq: "stamp_while P n cyc (Suc ptr) (st[ptr := cyc]) = (ptr', st')"
      using 1(2) by (simp add: stamp_while.simps [of P n cyc ptr st])
    have "Suc ptr \<le> ptr' \<and> ptr' \<le> n \<and> length st' = n \<and> (\<forall>k<n. k < ptr' \<longleftrightarrow> P k) \<and>
        (\<forall>k<n. st' ! k = (if Suc ptr \<le> k \<and> k < ptr' then cyc else st[ptr := cyc] ! k))"
    proof (rule 1(1) [OF True next_eq])
      show "P j" if "P k" "j \<le> k" "k < n" for j k using 1(3) that by blast
      show "P k" if "k < Suc ptr" for k using 1(5) [of k] True that by (cases "k = ptr") auto
    qed (use True 1(6) in auto)
    then show ?thesis using 1(6) True by (auto simp: nth_list_update)
  next
    case False
    then have eq: "ptr' = ptr" "st' = st" using 1(2) by (simp_all add: stamp_while.simps [of P n cyc ptr st] split: if_splits)
    have "\<not> P k" if "k < n" "\<not> k < ptr" for k using 1(3) [of k ptr] False that by auto
    then show ?thesis using 1(4-6) by (auto simp: eq)
  qed
qed

text \<open>
  The stamp of word \<open>j\<close> as it is known at cycle \<open>c\<close>: 0 before the word has been clocked in.
\<close>

definition stamp_at :: "(u64 \<times> bytes) list \<Rightarrow> u64 \<Rightarrow> nat \<Rightarrow> u64" where
  "stamp_at W c j = (if j < length W \<and> fst (W ! j) \<le> c then fst (W ! j) else 0)"

lemma stamp_at_later: "c \<le> c1 \<Longrightarrow> \<forall>w\<in>set X. c1 < fst w \<Longrightarrow> stamp_at (W @ X) c j = stamp_at W c j"
proof (cases "j < length W")
  case False
  assume "c \<le> c1" "\<forall>w\<in>set X. c1 < fst w"
  then have "\<not> fst (X ! k) \<le> c" if "k < length X" for k using nth_mem [OF that] by (meson leD order.trans)
  then show ?thesis using False by (auto simp: stamp_at_def nth_append)
qed (simp add: stamp_at_def nth_append)

lemma word_index:
  assumes "fed s c0 i c W" "b < length s"
  shows "b < i \<longleftrightarrow> b div 16 < length W"
  using assms by (auto simp: fed_def div_less_iff_less_mult mult.commute)

lemma stamp_now:
  assumes "fed s c0 i c W" "b < length s"
  shows "stamp_at W c (b div 16) = (if b < i then fst (W ! (b div 16)) else 0)"
  using assms word_index [OF assms] by (auto simp: stamp_at_def fed_def)

text \<open>
  Stamping one more word. The bytes \<open>pos k\<close> of the messages ascend; the pointer stands behind
  those that were clocked in before.
\<close>

definition stamped :: "(nat \<Rightarrow> nat) \<Rightarrow> nat \<Rightarrow> nat \<Rightarrow> (u64 \<times> bytes) list \<Rightarrow> nat \<Rightarrow> u64 list \<Rightarrow> bool" where
  "stamped pos n i W ptr st \<longleftrightarrow> ptr \<le> n \<and> length st = n \<and> (\<forall>k<n. k < ptr \<longleftrightarrow> pos k < i) \<and>
     (\<forall>k<n. st ! k = (if pos k < i then fst (W ! (pos k div 16)) else 0))"

lemma stamped_start: "stamped pos n 0 [] 0 (replicate n 0)"
  by (simp add: stamped_def)

lemma stamped_word:
  assumes old: "stamped pos n i W ptr st" and mono: "\<And>j k. j \<le> k \<Longrightarrow> k < n \<Longrightarrow> pos j \<le> pos k"
    and fed: "fed s c0 i c W" and new: "fed s c0 (i + m) c' (W @ [(c', x)])" and i: "i < length s"
    and run: "stamp_while (\<lambda>k. pos k < i + m) n c' ptr st = (ptr', st')"
  shows "stamped pos n (i + m) (W @ [(c', x)]) ptr' st'"
proof -
  have "ptr \<le> ptr' \<and> ptr' \<le> n \<and> length st' = n \<and> (\<forall>k<n. k < ptr' \<longleftrightarrow> pos k < i + m) \<and>
      (\<forall>k<n. st' ! k = (if ptr \<le> k \<and> k < ptr' then c' else st ! k))"
  proof (rule stamp_while_spec [OF run])
    show "pos j < i + m" if "pos k < i + m" "j \<le> k" "k < n" for j k using mono [OF that(2,3)] that(1) by simp
    show "pos k < i + m" if "k < ptr" for k
      using old that unfolding stamped_def by (metis less_le_trans trans_less_add1)
  qed (use old in \<open>auto simp: stamped_def\<close>)
  note after = this
  have w: "i = 16 * length W" "i + m \<le> 16 * length W + 16" using fed new i by (auto simp: fed_def)
  have "st' ! k = (if pos k < i + m then fst ((W @ [(c', x)]) ! (pos k div 16)) else 0)" if k: "k < n" for k
  proof -
    consider "pos k < i" | "i \<le> pos k" "pos k < i + m" | "i + m \<le> pos k" by linarith
    then show ?thesis
    proof cases
      case 1
      then have "k < ptr" "st ! k = fst (W ! (pos k div 16))" using old k by (simp_all add: stamped_def)
      moreover have "pos k div 16 < length W" using 1 w(1) by linarith
      ultimately show ?thesis using after k 1 by (simp add: nth_append)
    next
      case 2
      then have "\<not> k < ptr" "k < ptr'" using old after k by (auto simp: stamped_def)
      moreover have "pos k div 16 = length W" using 2 w by linarith
      ultimately show ?thesis using after k 2 by simp
    next
      case 3
      then have "\<not> k < ptr'" "st ! k = 0" using old after k by (auto simp: stamped_def)
      then show ?thesis using after k 3 by simp
    qed
  qed
  then show ?thesis using after by (simp add: stamped_def)
qed

lemma stamp_while_cong:
  "(\<And>k. k < n \<Longrightarrow> P k = Q k) \<Longrightarrow> stamp_while P n cyc ptr st = stamp_while Q n cyc ptr st"
proof (induction Q n cyc ptr st rule: stamp_while.induct)
  case (1 Q n cyc ptr st)
  then show ?case
    by (simp add: stamp_while.simps [of P n cyc ptr st] stamp_while.simps [of Q n cyc ptr st] cong: conj_cong)
qed

subsection \<open>The reports\<close>

lemma first_byte_mono: "j \<le> k \<Longrightarrow> first_byte fl j \<le> first_byte fl k"
proof -
  assume "j \<le> k"
  then have "take k fl = take j fl @ take (k - j) (drop j fl)" using take_add [of j "k - j" fl] by simp
  then show ?thesis by (simp add: first_byte_def)
qed

lemma last_byte_mono: "j \<le> k \<Longrightarrow> last_byte fl j \<le> last_byte fl k"
  using first_byte_mono [of "Suc j" "Suc k" fl] by (simp add: first_byte_def last_byte_def)

lemma message_bytes:
  assumes "k < length fl" "0 \<notin> set fl"
  shows "first_byte fl k \<le> last_byte fl k" "last_byte fl k < sum_list fl"
    "sum_list (take (Suc k) fl) = Suc (last_byte fl k)"
proof -
  have "fl ! k \<noteq> 0" using assms(2) nth_mem [OF assms(1)] by metis
  then have "0 < fl ! k" by simp
  then have k: "sum_list (take (Suc k) fl) = sum_list (take k fl) + fl ! k" "0 < fl ! k"
    using assms(1) by (simp_all add: take_Suc_conv_app_nth)
  have "sum_list (take (Suc k) fl) \<le> sum_list fl"
    by (metis append_take_drop_id le_add1 sum_list_append)
  then show "first_byte fl k \<le> last_byte fl k" "last_byte fl k < sum_list fl"
    "sum_list (take (Suc k) fl) = Suc (last_byte fl k)"
    using k by (simp_all add: first_byte_def last_byte_def)
qed

type_synonym report = "u64 \<times> u64 \<times> u64 \<times> u64"

definition append_report :: "report list on_msg" where
  "append_report k f dn c log = log @ [(k, f, dn, c)]"

definition report_list :: "nat list \<Rightarrow> (u64 \<times> bytes) list \<Rightarrow> u64 list \<Rightarrow> report list" where
  "report_list fl W cs = map (\<lambda>k. (of_nat k, stamp_at W (cs ! k) (first_byte fl k div 16),
     stamp_at W (cs ! k) (last_byte fl k div 16), cs ! k)) [0..<length cs]"

lemma report_list_snoc:
  "report_list fl W (cs @ [c]) = report_list fl W cs @ [(of_nat (length cs), stamp_at W c (first_byte fl (length cs) div 16),
     stamp_at W c (last_byte fl (length cs) div 16), c)]"
  by (simp add: report_list_def nth_append)

lemma report_list_later:
  "\<forall>c\<in>set cs. c \<le> c1 \<Longrightarrow> \<forall>w\<in>set X. c1 < fst w \<Longrightarrow> report_list fl (W @ X) cs = report_list fl W cs"
proof -
  assume cs: "\<forall>c\<in>set cs. c \<le> c1" and X: "\<forall>w\<in>set X. c1 < fst w"
  have "stamp_at (W @ X) (cs ! k) j = stamp_at W (cs ! k) j" if "k < length cs" for k j
    using stamp_at_later [of "cs ! k" c1 X W j] that cs X by simp
  then show ?thesis by (simp add: report_list_def)
qed

definition measured :: "nat list \<Rightarrow> bytes \<Rightarrow> u64 \<Rightarrow> ('m probe, report list) latency_run \<Rightarrow> bool" where
  "measured fl s c0 r \<longleftrightarrow> (\<exists>W cs. seen (dr_top (rn_driver r)) = (False, dr_cyc (rn_driver r), W) \<and>
     fed s c0 (rn_i r) (dr_cyc (rn_driver r)) W \<and>
     stamped (first_byte fl) (length fl) (rn_i r) W (ln_first_ptr r) (ln_first r) \<and>
     stamped (last_byte fl) (length fl) (rn_i r) W (ln_done_ptr r) (ln_done r) \<and>
     length cs = unat (rn_committed r) \<and> length cs \<le> length fl \<and> sorted_wrt (<) cs \<and>
     (\<forall>c\<in>set cs. c0 < c \<and> c \<le> dr_cyc (rn_driver r)) \<and> rn_state r = report_list fl W cs)"

lemma measured_step:
  fixes r :: "('m probe, report list) latency_run"
  assumes fl: "sum_list fl = length s" "0 \<notin> set fl" "length fl < 2 ^ 64"
    and inv: "measured fl s c0 r" and go: "measuring (length fl) cap r"
  shows "measured fl s c0 (latency_step (probed V) append_report s (msg_bounds 0 fl) r)"
proof -
  let ?n = "length fl" and ?c = "dr_cyc (rn_driver r)"
  obtain W cs where W: "seen (dr_top (rn_driver r)) = (False, ?c, W)" "fed s c0 (rn_i r) ?c W"
    "stamped (first_byte fl) ?n (rn_i r) W (ln_first_ptr r) (ln_first r)"
    "stamped (last_byte fl) ?n (rn_i r) W (ln_done_ptr r) (ln_done r)"
    and cs: "length cs = unat (rn_committed r)" "sorted_wrt (<) cs" "\<forall>c\<in>set cs. c0 < c \<and> c \<le> ?c"
    "rn_state r = report_list fl W cs"
    using inv by (auto simp: measured_def)
  obtain t w where p: "present (probed V) s (rn_i r) (dr_top (rn_driver r)) = (t, w)" by force
  define d where "d = tick (probed V) ((rn_driver r)\<lparr>dr_top := t\<rparr>)"
  define X where "X = (case w of None \<Rightarrow> [] | Some n \<Rightarrow> [(?c + 1, take n (drop (rn_i r) s))])"
  define r2 where "r2 = (case w of None \<Rightarrow> r\<lparr>rn_driver := d\<rparr> | Some n \<Rightarrow> stamp_word (msg_bounds 0 fl) n (r\<lparr>rn_driver := d\<rparr>))"
  have cap: "?c < cap" "unat (rn_committed r) < ?n" using go by (simp_all add: measuring_def)
  have cyc: "dr_cyc d = ?c + 1" "?c < ?c + 1" "?c \<le> ?c + 1"
    using next_cycle [OF cap(1)] by (simp_all add: d_def word_less_nat_alt word_le_nat_alt)
  have seen: "seen (dr_top d) = (False, dr_cyc d, W @ X)" "w = Some n \<Longrightarrow> rn_i r < length s \<and> n = min 16 (length s - rn_i r)" for n
    using present_seen [OF p W(1)] by (auto simp: d_def X_def)
  have fed: "fed s c0 (rn_i r2) (dr_cyc d) (W @ X)"
    using fed_step [OF W(2) cap(1), of w, OF seen(2)]
    by (cases w) (auto simp: r2_def X_def cyc(1) stamp_word_def Let_def split: prod.splits)
  have X: "\<forall>x\<in>set X. ?c < fst x" using cyc(2) by (auto simp: X_def split: option.splits)
  have stamped: "stamped (first_byte fl) ?n (rn_i r2) (W @ X) (ln_first_ptr r2) (ln_first r2)"
    "stamped (last_byte fl) ?n (rn_i r2) (W @ X) (ln_done_ptr r2) (ln_done r2)"
  proof -
    have "stamped (first_byte fl) ?n (rn_i r2) (W @ X) (ln_first_ptr r2) (ln_first r2) \<and>
      stamped (last_byte fl) ?n (rn_i r2) (W @ X) (ln_done_ptr r2) (ln_done r2)"
    proof (cases w)
      case None
      then show ?thesis using W(3,4) by (simp add: r2_def X_def)
    next
      case (Some m)
      let ?lim = "rn_i r + m" and ?x = "take m (drop (rn_i r) s)"
      have X1: "W @ X = W @ [(?c + 1, ?x)]" and lim: "rn_i r2 = ?lim"
        using Some by (auto simp: X_def r2_def stamp_word_def Let_def split: prod.splits)
      have bounds: "fst (msg_bounds 0 fl ! k) < ?lim \<longleftrightarrow> first_byte fl k < ?lim"
        "snd (msg_bounds 0 fl ! k) \<le> ?lim \<longleftrightarrow> last_byte fl k < ?lim" if "k < ?n" for k
        using that message_bytes(3) [OF that fl(2)] by (auto simp: msg_bounds_nth first_byte_def)
      have "stamp_while (\<lambda>k. fst (msg_bounds 0 fl ! k) < ?lim) ?n (?c + 1) (ln_first_ptr r) (ln_first r) =
          (ln_first_ptr r2, ln_first r2)"
        "stamp_while (\<lambda>k. snd (msg_bounds 0 fl ! k) \<le> ?lim) ?n (?c + 1) (ln_done_ptr r) (ln_done r) =
          (ln_done_ptr r2, ln_done r2)"
        using Some by (simp_all add: r2_def stamp_word_def Let_def cyc(1) split: prod.splits)
      then have "stamp_while (\<lambda>k. first_byte fl k < ?lim) ?n (?c + 1) (ln_first_ptr r) (ln_first r) =
          (ln_first_ptr r2, ln_first r2)"
        "stamp_while (\<lambda>k. last_byte fl k < ?lim) ?n (?c + 1) (ln_done_ptr r) (ln_done r) =
          (ln_done_ptr r2, ln_done r2)"
        using stamp_while_cong [of ?n _ "\<lambda>k. first_byte fl k < ?lim"] stamp_while_cong [of ?n _ "\<lambda>k. last_byte fl k < ?lim"] bounds
        by metis+
      then show ?thesis
        using stamped_word [OF W(3) first_byte_mono W(2), of m "?c + 1" ?x] stamped_word [OF W(4) last_byte_mono W(2), of m "?c + 1" ?x]
          fed seen(2) [OF Some] unfolding X1 lim cyc(1) by blast
    qed
    then show "stamped (first_byte fl) ?n (rn_i r2) (W @ X) (ln_first_ptr r2) (ln_first r2)"
      "stamped (last_byte fl) ?n (rn_i r2) (W @ X) (ln_done_ptr r2) (ln_done r2)" by auto
  qed
  have old: "rn_driver r2 = d" "rn_committed r2 = rn_committed r" "rn_state r2 = report_list fl (W @ X) cs"
    "\<forall>c\<in>set cs. c0 < c \<and> c \<le> dr_cyc d" "\<forall>c\<in>set cs. c < dr_cyc d"
    using cs(3,4) X report_list_later [of cs ?c X fl W] cyc
    by (auto simp: r2_def stamp_word_def Let_def split: option.splits prod.splits)
  have step: "latency_step (probed V) append_report s (msg_bounds 0 fl) r =
      (if po_msg_total (ports_of (probed V) (dr_top d)) \<noteq> rn_last r
       then r2\<lparr>rn_last := po_msg_total (ports_of (probed V) (dr_top d)), rn_committed := rn_committed r + 1,
         rn_state := append_report (rn_committed r) (ln_first r2 ! unat (rn_committed r))
           (ln_done r2 ! unat (rn_committed r)) (dr_cyc d) (rn_state r)\<rparr>
       else r2)"
    unfolding latency_step_def p d_def r2_def by (cases w) (simp_all add: Let_def)
  show ?thesis
  proof (cases "po_msg_total (ports_of (probed V) (dr_top d)) = rn_last r")
    case True
    show ?thesis
      unfolding step measured_def if_not_P [OF not_not [THEN iffD2, OF True]]
      using seen(1) fed stamped old cs cap(2) by (intro exI [of _ "W @ X"] exI [of _ cs]) simp
  next
    case False
    let ?k = "unat (rn_committed r)"
    have k: "?k < ?n" "length cs = ?k" "of_nat ?k = rn_committed r" "unat (rn_committed r + 1) = Suc ?k"
      using cap(2) cs(1) fl(3) by (simp_all add: unat_word_ariths)
    have "first_byte fl ?k < length s" "last_byte fl ?k < length s"
      using message_bytes [OF k(1) fl(2)] fl(1) by simp_all
    then have "ln_first r2 ! ?k = stamp_at (W @ X) (dr_cyc d) (first_byte fl ?k div 16)"
      "ln_done r2 ! ?k = stamp_at (W @ X) (dr_cyc d) (last_byte fl ?k div 16)"
      using stamped k(1) stamp_now [OF fed] by (simp_all add: stamped_def)
    then have rep: "append_report (rn_committed r) (ln_first r2 ! ?k) (ln_done r2 ! ?k) (dr_cyc d) (rn_state r) =
        report_list fl (W @ X) (cs @ [dr_cyc d])"
      using cs(4) k X cs(3) report_list_later [of cs ?c X fl W] by (simp add: append_report_def report_list_snoc)
    have "c0 < dr_cyc d" using fed cyc W(2) by (auto simp: fed_def)
    then show ?thesis
      unfolding step measured_def if_P [OF False] rep
      using seen(1) fed stamped old cs(1,2) k
      by (intro exI [of _ "W @ X"] exI [of _ "cs @ [dr_cyc d]"]) (auto simp: sorted_wrt_append)
  qed
qed

lemma drive_latency_reports:
  assumes fl: "sum_list fl = length s" "0 \<notin> set fl" "length fl < 2 ^ 64"
    and d: "seen (dr_top d) = (False, dr_cyc d, [])"
    and run: "drive_latency (probed V) append_report s fl cap d [] = (c, d', log)"
  shows "\<exists>i W cs. seen (dr_top d') = (False, dr_cyc d', W) \<and> fed s (dr_cyc d) i (dr_cyc d') W \<and>
    length cs = unat c \<and> length cs \<le> length fl \<and> sorted_wrt (<) cs \<and>
    (\<forall>x\<in>set cs. dr_cyc d < x \<and> x \<le> dr_cyc d') \<and> log = report_list fl W cs \<and>
    (unat c < length fl \<longrightarrow> cap \<le> dr_cyc d')"
proof -
  let ?r0 = "\<lparr>rn_i = 0, rn_committed = 0, rn_last = po_msg_total (ports_of (probed V) (dr_top d)), rn_driver = d,
    rn_state = [], ln_first_ptr = 0, ln_done_ptr = 0, ln_first = replicate (length fl) 0,
    ln_done = replicate (length fl) 0\<rparr> :: ('a probe, report list) latency_run"
  define r where "r = latency_loop (probed V) append_report s (msg_bounds 0 fl) cap ?r0"
  have "measured fl s (dr_cyc d) ?r0"
    by (auto simp: measured_def d fed_start stamped_start report_list_def intro!: exI [of _ "[]"])
  then have inv: "measured fl s (dr_cyc d) r" "\<not> measuring (length fl) cap r"
    using latency_loop_rule [of "measured fl s (dr_cyc d)" ?r0 "msg_bounds 0 fl" cap "probed V" append_report s]
      measured_step [OF fl] by (auto simp: r_def)
  have "c = rn_committed r" "d' = rn_driver r" "log = rn_state r"
    using run by (auto simp: drive_latency_def Let_def r_def)
  moreover obtain W cs where "seen (dr_top (rn_driver r)) = (False, dr_cyc (rn_driver r), W)"
    "fed s (dr_cyc d) (rn_i r) (dr_cyc (rn_driver r)) W" "length cs = unat (rn_committed r)" "length cs \<le> length fl"
    "sorted_wrt (<) cs" "\<forall>x\<in>set cs. dr_cyc d < x \<and> x \<le> dr_cyc (rn_driver r)" "rn_state r = report_list fl W cs"
    using inv(1) unfolding measured_def by blast
  ultimately show ?thesis
    using inv(2) by (intro exI [of _ "rn_i r"] exI [of _ W] exI [of _ cs]) (auto simp: measuring_def not_less)
qed

end
