(* ===== verification/SparseHist.thy ===== *)
theory SparseHist
  imports "HOL-Library.RBT" Binary64
begin

text \<open>
  The cycle histogram of \<open>src/sim/tb_latency.cpp\<close> (\<open>Hist\<close>), an ordered map from cycle counts to
  numbers of samples, and what a percentile is, for this histogram and for the one of
  \<open>src/sw/util/latency_hist.hpp\<close>: both walk over their bins in ascending order until the samples
  seen reach a target.
\<close>

subsection \<open>The walk over the bins\<close>

fun scan_bins :: "('a \<times> u64) list \<Rightarrow> u64 \<Rightarrow> u64 \<Rightarrow> 'a option" where
  "scan_bins [] seen target = None"
| "scan_bins ((v, n) # bins) seen target =
     (if seen + n \<ge> target then Some v else scan_bins bins (seen + n) target)"

lemma scan_bins_map:
  "scan_bins bins seen t = Some v \<Longrightarrow> scan_bins (map (\<lambda>(v, n). (f v, n)) bins) seen t = Some (f v)"
  by (induction bins seen t rule: scan_bins.induct) (auto split: if_splits)

definition percentile_target :: "f64 \<Rightarrow> u64 \<Rightarrow> u64 option" where
  "percentile_target p n = u64_of_f64 (f64_ceil (f64_mul p (f64_of_u64 n)))"

text \<open>The reference: the smallest of the samples that at least \<open>t\<close> of them do not exceed.\<close>

definition count_le :: "'a :: linorder list \<Rightarrow> 'a \<Rightarrow> nat" where
  "count_le xs v = length (filter (\<lambda>x. x \<le> v) xs)"

definition is_quantile :: "'a :: linorder list \<Rightarrow> nat \<Rightarrow> 'a \<Rightarrow> bool" where
  "is_quantile xs t v \<longleftrightarrow> v \<in> set xs \<and> t \<le> count_le xs v \<and> (\<forall>w\<in>set xs. w < v \<longrightarrow> count_le xs w < t)"

lemma count_le_sum:
  assumes "distinct ks" "set xs \<subseteq> set ks"
  shows "count_le xs v = sum_list (map (count_list xs) (filter (\<lambda>k. k \<le> v) ks))"
proof -
  have "count_list xs k = count_list (filter (\<lambda>x. x \<le> v) xs) k" if "k \<le> v" for k
    using that by (induction xs) auto
  then have "map (count_list xs) (filter (\<lambda>k. k \<le> v) ks) =
      map (count_list (filter (\<lambda>x. x \<le> v) xs)) (filter (\<lambda>k. k \<le> v) ks)"
    by (intro map_cong) auto
  also have "sum_list \<dots> = sum (count_list (filter (\<lambda>x. x \<le> v) xs)) (set (filter (\<lambda>k. k \<le> v) ks))"
    using assms(1) by (intro sum_list_distinct_conv_sum_set) simp
  also have "\<dots> = length (filter (\<lambda>x. x \<le> v) xs)"
    using assms(2) by (intro sum_count_set) auto
  finally show ?thesis by (simp add: count_le_def)
qed

lemma unat_of_nat_u64: "n < 2 ^ 64 \<Longrightarrow> unat (of_nat n :: u64) = n"
  by (simp add: unat_of_nat)

lemma of_nat_le_iff_unat: "c < 2 ^ 64 \<Longrightarrow> (t :: u64) \<le> of_nat c \<longleftrightarrow> unat t \<le> c"
  by (simp add: word_le_nat_alt unat_of_nat_u64)

lemma scan_bins_first:
  fixes ks :: "'a :: linorder list"
  assumes "sorted ks" "distinct ks" "c + sum_list (map f ks) < 2 ^ 64" "c < unat t" "unat t \<le> c + sum_list (map f ks)"
  shows "\<exists>v\<in>set ks. scan_bins (map (\<lambda>k. (k, of_nat (f k))) ks) (of_nat c) t = Some v \<and> f v \<noteq> 0 \<and>
     unat t \<le> c + sum_list (map f (filter (\<lambda>k. k \<le> v) ks)) \<and>
     (\<forall>w\<in>set ks. w < v \<longrightarrow> c + sum_list (map f (filter (\<lambda>k. k \<le> w) ks)) < unat t)"
  using assms
proof (induction ks arbitrary: c)
  case (Cons k ks)
  have le: "(t :: u64) \<le> of_nat (c + f k) \<longleftrightarrow> unat t \<le> c + f k"
    using Cons.prems by (intro of_nat_le_iff_unat) simp
  have only: "filter (\<lambda>j. j \<le> k) ks = []" using Cons.prems(1,2) by (auto simp: filter_empty_conv)
  show ?case
  proof (cases "unat t \<le> c + f k")
    case True
    then show ?thesis using le only Cons.prems by (auto intro!: bexI [of _ k] simp: not_less)
  next
    case False
    then obtain v where v: "v \<in> set ks"
      "scan_bins (map (\<lambda>k. (k, of_nat (f k))) ks) (of_nat (c + f k)) t = Some v" "f v \<noteq> 0"
      "unat t \<le> c + f k + sum_list (map f (filter (\<lambda>k. k \<le> v) ks))"
      "\<forall>w\<in>set ks. w < v \<longrightarrow> c + f k + sum_list (map f (filter (\<lambda>k. k \<le> w) ks)) < unat t"
      using Cons.IH [of "c + f k"] Cons.prems by (auto simp: add.assoc)
    moreover have "k \<le> w" if "w \<in> set ks" for w using Cons.prems(1) that by auto
    ultimately show ?thesis
      using le False only by (auto intro!: bexI [of _ v] simp: add.assoc)
  qed
qed simp

lemma scan_bins_quantile:
  fixes ks xs :: "'a :: linorder list"
  assumes ks: "sorted ks" "distinct ks" "set xs \<subseteq> set ks"
    and t: "length xs < 2 ^ 64" "0 < unat t" "unat t \<le> length xs"
  shows "\<exists>v. scan_bins (map (\<lambda>k. (k, of_nat (count_list xs k))) ks) 0 t = Some v \<and> is_quantile xs (unat t) v"
proof -
  have "sum_list (map (count_list xs) ks) = length xs"
    using ks sum_count_set [of xs "set ks"] by (simp add: sum_list_distinct_conv_sum_set)
  then obtain v where v: "scan_bins (map (\<lambda>k. (k, of_nat (count_list xs k))) ks) 0 t = Some v"
    "count_list xs v \<noteq> 0" "unat t \<le> count_le xs v" "\<forall>w\<in>set ks. w < v \<longrightarrow> count_le xs w < unat t"
    using scan_bins_first [OF ks(1,2), of 0 "count_list xs" t] t by (auto simp: count_le_sum [OF ks(2,3)])
  then show ?thesis using ks(3) by (auto simp: is_quantile_def count_list_0_iff)
qed

text \<open>The target of the median is half of the samples, rounded up.\<close>

lemma median_target:
  "0 < n \<Longrightarrow> n < 2 ^ 53 \<Longrightarrow> percentile_target d_half (of_nat n) = Some (of_nat ((n + 1) div 2))"
  using ceil_half [of "of_nat n"] by (simp add: percentile_target_def unat_of_nat_u64)

lemma median_target_bounds:
  fixes n :: nat
  assumes "0 < n" "n < 2 ^ 53"
  shows "unat (of_nat ((n + 1) div 2) :: u64) = (n + 1) div 2" "0 < (n + 1) div 2" "(n + 1) div 2 \<le> n"
  using assms by (simp_all add: unat_of_nat_u64)

subsection \<open>The cycle histogram\<close>

record cycle_hist =
  ch_bins :: "(u64, u64) rbt"
  ch_count :: u64
  ch_sum :: u64
  ch_max :: u64

definition empty_hist :: cycle_hist where
  "empty_hist = \<lparr>ch_bins = RBT.empty, ch_count = 0, ch_sum = 0, ch_max = 0\<rparr>"

definition hist_record :: "u64 \<Rightarrow> cycle_hist \<Rightarrow> cycle_hist" where
  "hist_record cycles h =
     (let n = (case RBT.lookup (ch_bins h) cycles of None \<Rightarrow> 0 | Some n \<Rightarrow> n);
          h1 = h\<lparr>ch_bins := RBT.insert cycles (n + 1) (ch_bins h), ch_count := ch_count h + 1,
                 ch_sum := ch_sum h + cycles\<rparr>
      in if cycles > ch_max h then h1\<lparr>ch_max := cycles\<rparr> else h1)"

definition hist_percentile :: "f64 \<Rightarrow> cycle_hist \<Rightarrow> u64 option" where
  "hist_percentile p h =
     (if ch_count h = 0 then Some 0
      else do {
        target \<leftarrow> percentile_target p (ch_count h);
        Some (case scan_bins (RBT.entries (ch_bins h)) 0 target of
                Some cycles \<Rightarrow> cycles
              | None \<Rightarrow> (case RBT.entries (ch_bins h) of [] \<Rightarrow> 0 | es \<Rightarrow> fst (List.last es)))
      })"

text \<open>The rows of a CSV file: label, cycles, number of samples.\<close>

definition hist_csv :: "string \<Rightarrow> cycle_hist \<Rightarrow> (string \<times> u64 \<times> u64) list" where
  "hist_csv label h = map (\<lambda>(cycles, n). (label, cycles, n)) (RBT.entries (ch_bins h))"

definition recorded :: "u64 list \<Rightarrow> cycle_hist" where
  "recorded xs = foldl (\<lambda>h x. hist_record x h) empty_hist xs"

lemma recorded_snoc: "recorded (xs @ [x]) = hist_record x (recorded xs)"
  by (simp add: recorded_def)

lemma recorded_counts: "ch_count (recorded xs) = of_nat (length xs)" "ch_sum (recorded xs) = sum_list xs"
  by (induction xs rule: rev_induct) (simp_all add: recorded_snoc hist_record_def Let_def, simp_all add: recorded_def empty_hist_def)

lemma recorded_max: "ch_max (recorded xs) = foldl max 0 xs"
  by (induction xs rule: rev_induct)
    (auto simp: recorded_snoc hist_record_def Let_def max_def, simp_all add: recorded_def empty_hist_def)

lemma recorded_bins:
  "RBT.lookup (ch_bins (recorded xs)) v = (if v \<in> set xs then Some (of_nat (count_list xs v)) else None)"
proof (induction xs rule: rev_induct)
  case (snoc x xs)
  then show ?case by (auto simp: recorded_snoc hist_record_def Let_def count_list_0_iff)
qed (simp add: recorded_def empty_hist_def)

lemma recorded_entries:
  "RBT.entries (ch_bins (recorded xs)) = map (\<lambda>v. (v, of_nat (count_list xs v))) (sorted_list_of_set (set xs))"
proof -
  let ?es = "RBT.entries (ch_bins (recorded xs))" and ?b = "ch_bins (recorded xs)"
  have "RBT.keys ?b = sorted_list_of_set (set (RBT.keys ?b))"
    by (simp add: sorted_list_of_set.idem_if_sorted_distinct RBT.sorted_keys RBT.distinct_keys)
  also have "set (RBT.keys ?b) = set xs"
    by (auto simp: RBT.lookup_keys [symmetric] recorded_bins split: if_splits)
  finally have keys: "map fst ?es = sorted_list_of_set (set xs)" by (simp add: RBT.keys_entries [symmetric] RBT.keys_def_alt)
  have "snd e = of_nat (count_list xs (fst e))" if "e \<in> set ?es" for e
    using that RBT.lookup_in_tree [of ?b "fst e" "snd e"] by (simp add: recorded_bins split: if_splits)
  then have "?es = map (\<lambda>v. (v, of_nat (count_list xs v))) (map fst ?es)"
    by (auto intro!: map_idI [symmetric] prod_eqI)
  then show ?thesis unfolding keys .
qed

lemma recorded_quantile:
  assumes "length xs < 2 ^ 64" "percentile_target p (of_nat (length xs)) = Some t" "0 < unat t" "unat t \<le> length xs"
  shows "\<exists>v. hist_percentile p (recorded xs) = Some v \<and> is_quantile xs (unat t) v"
proof -
  have "ch_count (recorded xs) \<noteq> 0"
    using assms by (auto simp: recorded_counts unat_of_nat_u64 dest: arg_cong [of _ _ unat])
  moreover obtain v where "scan_bins (RBT.entries (ch_bins (recorded xs))) 0 t = Some v" "is_quantile xs (unat t) v"
    using scan_bins_quantile [of "sorted_list_of_set (set xs)" xs t] assms by (auto simp: recorded_entries)
  ultimately show ?thesis using assms(2) by (simp add: hist_percentile_def recorded_counts)
qed

text \<open>The median of the samples, which the throughput figure of the test bench is computed from.\<close>

lemma recorded_median:
  assumes "xs \<noteq> []" "length xs < 2 ^ 53"
  shows "\<exists>v. hist_percentile d_half (recorded xs) = Some v \<and> is_quantile xs ((length xs + 1) div 2) v"
proof -
  have n: "0 < length xs" using assms(1) by simp
  show ?thesis
    using recorded_quantile [OF _ median_target [OF n assms(2)]] median_target_bounds [OF n assms(2)] assms(2)
    by simp
qed

end
