(* ===== verification/TbLatency.thy ===== *)
theory TbLatency
  imports RtlLatency SparseHist CFloats TbTop
begin

text \<open>
  The latency test bench \<open>src/sim/tb_latency.cpp\<close>: its command line, the histograms it fills from
  the reports of \<open>drive_latency\<close> and the files it writes. The histogram itself is in \<open>SparseHist\<close>.
  A file that cannot be opened for writing is skipped, as the program does.
\<close>

subsection \<open>Message types\<close>

definition TYPE_NAMES :: "string list" where
  "TYPE_NAMES = [''Add'', ''AddMPID'', ''Execute'', ''ExecPrice'', ''Cancel'', ''Delete'', ''Replace'', ''Trade'', ''System'']"

definition type_byte_to_idx :: "u8 \<Rightarrow> nat option" where
  "type_byte_to_idx c =
     (if c = 0x41 then Some 0 else if c = 0x46 then Some 1 else if c = 0x45 then Some 2
      else if c = 0x43 then Some 3 else if c = 0x58 then Some 4 else if c = 0x44 then Some 5
      else if c = 0x55 then Some 6 else if c = 0x50 then Some 7 else if c = 0x53 then Some 8 else None)"

subsection \<open>The histograms\<close>

record lat_state =
  la_type :: "cycle_hist list"
  la_all :: cycle_hist
  la_service :: cycle_hist
  la_e2e_type :: "cycle_hist list"
  la_e2e_all :: cycle_hist
  la_prev :: u64

definition new_lat_state :: "u64 \<Rightarrow> lat_state" where
  "new_lat_state cycles = \<lparr>la_type = replicate 9 empty_hist, la_all = empty_hist, la_service = empty_hist,
     la_e2e_type = replicate 9 empty_hist, la_e2e_all = empty_hist, la_prev = cycles\<rparr>"

definition bench_on_msg :: "bytes list \<Rightarrow> lat_state on_msg" where
  "bench_on_msg msgs idx first_cyc ingest_cyc commit_cyc st =
     (let lat_cycles = (if ingest_cyc \<noteq> 0 then commit_cyc - ingest_cyc else 0);
          e2e_cycles = (if first_cyc \<noteq> 0 then commit_cyc - first_cyc else 0);
          svc_cycles = commit_cyc - la_prev st;
          body = msgs ! unat idx;
          tbyte = (if body = [] then 0 else body ! 0);
          st1 = (case type_byte_to_idx tbyte of
                   Some i \<Rightarrow> st\<lparr>la_type := (la_type st)[i := hist_record lat_cycles (la_type st ! i)],
                       la_e2e_type := (la_e2e_type st)[i := hist_record e2e_cycles (la_e2e_type st ! i)]\<rparr>
                 | None \<Rightarrow> st)
      in st1\<lparr>la_prev := commit_cyc, la_all := hist_record lat_cycles (la_all st),
             la_e2e_all := hist_record e2e_cycles (la_e2e_all st),
             la_service := hist_record svc_cycles (la_service st)\<rparr>)"

subsection \<open>The command line\<close>

record lat_args =
  lg_file :: string
  lg_csv_dir :: string
  lg_mhz :: f64
  lg_max :: u64
  lg_quiet :: bool

definition default_lat_args :: lat_args where
  "default_lat_args = \<lparr>lg_file = [], lg_csv_dir = [], lg_mhz = f64_lit 100 1, lg_max = 0, lg_quiet = False\<rparr>"

text \<open>An unknown option, or one without its value at the end of the line, is skipped.\<close>

fun lat_options :: "string list \<Rightarrow> lat_args \<Rightarrow> lat_args" where
  "lat_options [] g = g"
| "lat_options (a # rest) g =
     (if a = ''--csv'' \<and> rest \<noteq> [] then lat_options (tl rest) (g\<lparr>lg_csv_dir := hd rest\<rparr>)
      else if a = ''--mhz'' \<and> rest \<noteq> [] then lat_options (tl rest) (g\<lparr>lg_mhz := atof (hd rest)\<rparr>)
      else if a = ''--max'' \<and> rest \<noteq> [] then lat_options (tl rest) (g\<lparr>lg_max := strtoull (hd rest)\<rparr>)
      else if a = ''--quiet'' then lat_options rest (g\<lparr>lg_quiet := True\<rparr>)
      else if a = [] \<or> hd a \<noteq> CHR ''-'' then lat_options rest (g\<lparr>lg_file := a\<rparr>)
      else lat_options rest g)"

subsection \<open>The files\<close>

datatype counter_value = Cycles u64 | Real f64

datatype lat_file = HistFile "(string \<times> u64 \<times> u64) list" | CounterFile "(string \<times> counter_value) list"

definition type_files :: "string \<Rightarrow> cycle_hist list \<Rightarrow> (string \<times> lat_file) list" where
  "type_files prefix hs =
     [(prefix @ TYPE_NAMES ! i @ ''.csv'', HistFile (hist_csv (TYPE_NAMES ! i) (hs ! i))).
       i \<leftarrow> [0..<9], ch_count (hs ! i) \<noteq> 0]"

text \<open>\<open>mhz * 1e6 / double(svc_p50)\<close>, or 0.\<close>

definition throughput :: "f64 \<Rightarrow> u64 \<Rightarrow> f64" where
  "throughput mhz svc_p50 =
     (if svc_p50 \<noteq> 0 then f64_div (f64_mul mhz (f64_lit (10 ^ 6) 1)) (f64_of_u64 svc_p50) else d_zero)"

definition counter_rows :: "f64 \<Rightarrow> u64 \<Rightarrow> u64 \<Rightarrow> lat_state \<Rightarrow> ports \<Rightarrow> (string \<times> counter_value) list option" where
  "counter_rows mhz committed cycles st p = do {
     let q = (\<lambda>h n. hist_percentile (f64_lit n 1000) h);
     p50 \<leftarrow> q (la_all st) 500; p99 \<leftarrow> q (la_all st) 990; p999 \<leftarrow> q (la_all st) 999;
     e50 \<leftarrow> q (la_e2e_all st) 500; e99 \<leftarrow> q (la_e2e_all st) 990; e999 \<leftarrow> q (la_e2e_all st) 999;
     s50 \<leftarrow> q (la_service st) 500; s99 \<leftarrow> q (la_service st) 990; s999 \<leftarrow> q (la_service st) 999;
     Some [(''messages'', Cycles committed), (''total_cycles'', Cycles cycles), (''clock_mhz'', Real mhz),
       (''pipeline_p50_cycles'', Cycles p50), (''pipeline_p99_cycles'', Cycles p99), (''pipeline_p999_cycles'', Cycles p999),
       (''e2e_p50_cycles'', Cycles e50), (''e2e_p99_cycles'', Cycles e99), (''e2e_p999_cycles'', Cycles e999),
       (''service_p50_cycles'', Cycles s50), (''service_p99_cycles'', Cycles s99), (''service_p999_cycles'', Cycles s999),
       (''throughput_msg_s'', Real (throughput mhz s50)),
       (''add_cycles'', Cycles (po_add_cycles p)), (''delete_cycles'', Cycles (po_delete_cycles p)),
       (''replace_cycles'', Cycles (po_replace_cycles p)), (''scan_count'', Cycles (po_scan_count p)),
       (''scan_cycles_total'', Cycles (po_scan_cycles_total p)), (''hash_probe_1'', Cycles (po_hash_probe_1 p)),
       (''hash_probe_2'', Cycles (po_hash_probe_2 p)), (''hash_probe_gt2'', Cycles (po_hash_probe_gt2 p)),
       (''ingest_stall_cycles'', Cycles (po_ingest_stall_cycles p)), (''msg_total'', Cycles (po_msg_total p)),
       (''trade_count'', Cycles (po_trade_count p))]
   }"

definition lat_files :: "string \<Rightarrow> lat_state \<Rightarrow> (string \<times> counter_value) list \<Rightarrow> (string \<times> lat_file) list" where
  "lat_files dir st counters =
     type_files (dir @ ''/latency_hw_'') (la_type st) @
     [(dir @ ''/latency_hw_all.csv'', HistFile (hist_csv ''ALL'' (la_all st)))] @
     type_files (dir @ ''/latency_hw_e2e_'') (la_e2e_type st) @
     [(dir @ ''/latency_hw_e2e_all.csv'', HistFile (hist_csv ''ALL'' (la_e2e_all st))),
      (dir @ ''/latency_hw_service.csv'', HistFile (hist_csv ''SERVICE'' (la_service st))),
      (dir @ ''/perf_counters_hw.csv'', CounterFile counters)]"

subsection \<open>The program\<close>

record lat_run =
  lt_status :: int
  lt_committed :: u64
  lt_cycles :: u64
  lt_state :: lat_state
  lt_files :: "(string \<times> lat_file) list"

definition lat_fails :: "int \<Rightarrow> lat_run" where
  "lat_fails status = \<lparr>lt_status = status, lt_committed = 0, lt_cycles = 0, lt_state = new_lat_state 0, lt_files = []\<rparr>"

definition tb_latency_main ::
  "'m verilated \<Rightarrow> (string \<Rightarrow> bytes option) \<Rightarrow> (string \<Rightarrow> bool) \<Rightarrow> string list \<Rightarrow> lat_run option"
where
  "tb_latency_main V files writable args =
     (let g = lat_options args default_lat_args in
      if lg_file g = [] then Some (lat_fails 2)
      else if f32_le (lg_mhz g) d_zero then Some (lat_fails 2)
      else (let raw = read_itch_file files (lg_file g) in
        if raw = [] then Some (lat_fails 2)
        else (let msgs = split_messages raw (unat (lg_max g));
                  frame_len = map (\<lambda>m. 2 + length m) msgs;
                  d0 = drv_reset V True (new_driver V)
              in case drive_latency V (bench_on_msg msgs) (reserialize msgs) frame_len default_cap d0
                   (new_lat_state (dr_cyc d0)) of
                (committed, d, st) \<Rightarrow>
                  if committed \<noteq> of_nat (length msgs)
                  then Some ((lat_fails 1)\<lparr>lt_committed := committed, lt_cycles := dr_cyc d, lt_state := st\<rparr>)
                  else if lg_csv_dir g = []
                  then Some \<lparr>lt_status = 0, lt_committed = committed, lt_cycles = dr_cyc d, lt_state = st, lt_files = []\<rparr>
                  else do {
                    counters \<leftarrow> counter_rows (lg_mhz g) committed (dr_cyc d) st (ports_of V (dr_top d));
                    Some \<lparr>lt_status = 0, lt_committed = committed, lt_cycles = dr_cyc d, lt_state = st,
                      lt_files = filter (\<lambda>(path, _). writable path) (lat_files (lg_csv_dir g) st counters)\<rparr>
                  })))"

subsection \<open>The reports behind the histograms\<close>

text \<open>
  Any callback sees what the reporting callback collects: its state is the fold over the reports.
\<close>

definition feed_reports :: "'s on_msg \<Rightarrow> report list \<Rightarrow> 's \<Rightarrow> 's" where
  "feed_reports f reps st = foldl (\<lambda>st (k, a, b, c). f k a b c st) st reps"

definition with_reports :: "('m, report list) latency_run \<Rightarrow> 's on_msg \<Rightarrow> 's \<Rightarrow> ('m, 's) latency_run" where
  "with_reports r f st = \<lparr>rn_i = rn_i r, rn_committed = rn_committed r, rn_last = rn_last r, rn_driver = rn_driver r,
     rn_state = feed_reports f (rn_state r) st, ln_first_ptr = ln_first_ptr r, ln_done_ptr = ln_done_ptr r,
     ln_first = ln_first r, ln_done = ln_done r\<rparr>"

definition plain_run :: "('m probe, 's) latency_run \<Rightarrow> ('m, 's) latency_run" where
  "plain_run r = \<lparr>rn_i = rn_i r, rn_committed = rn_committed r, rn_last = rn_last r,
     rn_driver = unprobe_driver (rn_driver r), rn_state = rn_state r, ln_first_ptr = ln_first_ptr r,
     ln_done_ptr = ln_done_ptr r, ln_first = ln_first r, ln_done = ln_done r\<rparr>"

lemma stamp_word_with:
  "stamp_word b n (with_reports r f st) = with_reports (stamp_word b n r) f st"
  "stamp_word b n (plain_run q) = plain_run (stamp_word b n q)"
  by (simp_all add: stamp_word_def with_reports_def plain_run_def Let_def split: prod.splits)

lemma latency_step_with:
  "latency_step V f s b (with_reports r f st) = with_reports (latency_step V append_report s b r) f st"
proof -
  obtain t w where p: "present V s (rn_i r) (dr_top (rn_driver r)) = (t, w)" by force
  have upd: "(with_reports r f st)\<lparr>rn_driver := d\<rparr> = with_reports (r\<lparr>rn_driver := d\<rparr>) f st" for d
    by (simp add: with_reports_def)
  have same: "rn_i (with_reports r f st) = rn_i r" "rn_driver (with_reports r f st) = rn_driver r"
    "rn_last (with_reports r f st) = rn_last r" "rn_committed (with_reports r f st) = rn_committed r"
    "rn_state (with_reports r f st) = feed_reports f (rn_state r) st"
    "ln_first (with_reports q f st) = ln_first q" "ln_done (with_reports q f st) = ln_done q" for q
    by (simp_all add: with_reports_def)
  have commit: "(with_reports q f st)\<lparr>rn_last := l, rn_committed := c, rn_state := feed_reports f (append_report k x y z rs) st\<rparr> =
      with_reports (q\<lparr>rn_last := l, rn_committed := c, rn_state := append_report k x y z rs\<rparr>) f st" for q l c k x y z rs
    by (simp add: with_reports_def)
  have snoc: "f k x y z (feed_reports f rs st) = feed_reports f (append_report k x y z rs) st" for k x y z rs
    by (simp add: feed_reports_def append_report_def)
  show ?thesis
    unfolding latency_step_def same p prod.case Let_def upd
    by (cases w) (simp_all add: same stamp_word_with snoc commit)
qed

lemma latency_step_plain:
  "latency_step V f s b (plain_run q) = plain_run (latency_step (probed V) f s b q)"
proof -
  obtain t w where p: "present (probed V) s (rn_i q) (dr_top (rn_driver q)) = (t, w)" by force
  have upd: "(plain_run q)\<lparr>rn_driver := unprobe_driver d\<rparr> = plain_run (q\<lparr>rn_driver := d\<rparr>)" for d
    by (simp add: plain_run_def)
  have same: "rn_i (plain_run q) = rn_i q" "rn_driver (plain_run q) = unprobe_driver (rn_driver q)"
    "rn_last (plain_run q) = rn_last q" "rn_committed (plain_run q) = rn_committed q"
    "rn_state (plain_run q) = rn_state q"
    "ln_first (plain_run r) = ln_first r" "ln_done (plain_run r) = ln_done r" for r
    by (simp_all add: plain_run_def)
  have d: "tick V ((unprobe_driver (rn_driver q))\<lparr>dr_top := unprobe t\<rparr>) =
      unprobe_driver (tick (probed V) ((rn_driver q)\<lparr>dr_top := t\<rparr>))"
  proof -
    have "(unprobe_driver (rn_driver q))\<lparr>dr_top := unprobe t\<rparr> = unprobe_driver ((rn_driver q)\<lparr>dr_top := t\<rparr>)"
      by (simp add: unprobe_driver_def)
    then show ?thesis by (simp only: unprobe_driver_simps(1))
  qed
  have p': "present V s (rn_i q) (unprobe (dr_top (rn_driver q))) = (unprobe t, w)"
    using present_unprobe [of V s "rn_i q" "dr_top (rn_driver q)"] p by simp
  have commit: "(plain_run r)\<lparr>rn_last := l, rn_committed := c, rn_state := u\<rparr> =
      plain_run (r\<lparr>rn_last := l, rn_committed := c, rn_state := u\<rparr>)" for r l c u
    by (simp add: plain_run_def)
  show ?thesis
    unfolding latency_step_def same unprobe_driver_simps(5) p p' prod.case d Let_def upd
    by (cases w) (simp_all add: same stamp_word_with commit)
qed

lemma latency_loop_sim:
  assumes step: "\<And>r. latency_step V1 f1 s b (h r) = h (latency_step V2 f2 s b r)"
    and go: "\<And>r. measuring (length b) cap (h r) = measuring (length b) cap r"
  shows "latency_loop V1 f1 s b cap (h r) = h (latency_loop V2 f2 s b cap r)"
proof (induction "unat cap - unat (dr_cyc (rn_driver r))" arbitrary: r rule: less_induct)
  case less
  show ?case
  proof (cases "measuring (length b) cap r")
    case True
    then have "latency_loop V1 f1 s b cap (h (latency_step V2 f2 s b r)) = h (latency_loop V2 f2 s b cap (latency_step V2 f2 s b r))"
      by (intro less) (simp add: measuring_def cycle_left)
    then show ?thesis using True go by (subst (1 2) latency_loop.simps) (simp add: step)
  next
    case False
    then show ?thesis using go by (subst (1 2) latency_loop.simps) simp
  qed
qed

lemma drive_latency_folds:
  assumes "drive_latency (probed V) append_report s fl cap d [] = (c, d', reps)"
  shows "drive_latency V f s fl cap (unprobe_driver d) st = (c, unprobe_driver d', feed_reports f reps st)"
proof -
  let ?start = "\<lambda>V d st. \<lparr>rn_i = 0, rn_committed = 0, rn_last = po_msg_total (ports_of V (dr_top d)), rn_driver = d,
    rn_state = st, ln_first_ptr = 0, ln_done_ptr = 0, ln_first = replicate (length fl) 0, ln_done = replicate (length fl) 0\<rparr>"
  let ?r = "latency_loop (probed V) append_report s (msg_bounds 0 fl) cap (?start (probed V) d [])"
  have "?start V (unprobe_driver d) st = plain_run (with_reports (?start (probed V) d []) f st)"
    by (simp add: plain_run_def with_reports_def feed_reports_def)
  moreover have "latency_loop V f s (msg_bounds 0 fl) cap (plain_run q) = plain_run (latency_loop (probed V) f s (msg_bounds 0 fl) cap q)" for q
    by (rule latency_loop_sim) (rule latency_step_plain, simp add: measuring_def plain_run_def)
  moreover have "latency_loop (probed V) f s (msg_bounds 0 fl) cap (with_reports q f st) =
      with_reports (latency_loop (probed V) append_report s (msg_bounds 0 fl) cap q) f st" for q
    by (rule latency_loop_sim) (rule latency_step_with, simp add: measuring_def with_reports_def)
  ultimately have "latency_loop V f s (msg_bounds 0 fl) cap (?start V (unprobe_driver d) st) = plain_run (with_reports ?r f st)"
    by simp
  then show ?thesis
    using assms by (auto simp: drive_latency_def Let_def plain_run_def with_reports_def)
qed

subsection \<open>What the histograms hold\<close>

text \<open>
  The latencies of a run that clocked in the words \<open>W\<close> and committed in the cycles \<open>cs\<close>. A stamp of
  0 stands for a word that was not clocked in when the message committed.
\<close>

definition since :: "u64 \<Rightarrow> u64 \<Rightarrow> u64" where
  "since stamp c = (if stamp \<noteq> 0 then c - stamp else 0)"

definition pipeline_latency :: "nat list \<Rightarrow> (u64 \<times> bytes) list \<Rightarrow> u64 list \<Rightarrow> nat \<Rightarrow> u64" where
  "pipeline_latency fl W cs k = since (stamp_at W (cs ! k) (last_byte fl k div 16)) (cs ! k)"

definition e2e_latency :: "nat list \<Rightarrow> (u64 \<times> bytes) list \<Rightarrow> u64 list \<Rightarrow> nat \<Rightarrow> u64" where
  "e2e_latency fl W cs k = since (stamp_at W (cs ! k) (first_byte fl k div 16)) (cs ! k)"

definition service_time :: "u64 \<Rightarrow> u64 list \<Rightarrow> nat \<Rightarrow> u64" where
  "service_time c0 cs k = cs ! k - (c0 # cs) ! k"

lemma feed_snoc:
  "feed_reports f (reps @ [(k, a, b, c)]) st = f k a b c (feed_reports f reps st)"
  by (simp add: feed_reports_def)

lemma bench_feeds:
  fixes fl W cs
  assumes "st = feed_reports (bench_on_msg msgs) (report_list fl W cs) (new_lat_state c0)"
  shows "la_prev st = List.last (c0 # cs)" "la_all st = recorded (map (pipeline_latency fl W cs) [0..<length cs])"
    "la_e2e_all st = recorded (map (e2e_latency fl W cs) [0..<length cs])"
    "la_service st = recorded (map (service_time c0 cs) [0..<length cs])"
proof -
  have "la_prev st = List.last (c0 # cs) \<and> la_all st = recorded (map (pipeline_latency fl W cs) [0..<length cs]) \<and>
    la_e2e_all st = recorded (map (e2e_latency fl W cs) [0..<length cs]) \<and>
    la_service st = recorded (map (service_time c0 cs) [0..<length cs])"
    using assms
  proof (induction cs arbitrary: st rule: rev_induct)
    case Nil
    then show ?case by (simp add: report_list_def feed_reports_def new_lat_state_def recorded_def)
  next
    case (snoc c cs)
    define u where "u = feed_reports (bench_on_msg msgs) (report_list fl W cs) (new_lat_state c0)"
    note IH = snoc.IH [OF u_def]
    have st: "st = bench_on_msg msgs (of_nat (length cs)) (stamp_at W c (first_byte fl (length cs) div 16))
        (stamp_at W c (last_byte fl (length cs) div 16)) c u"
      unfolding snoc.prems report_list_snoc feed_snoc u_def ..
    have old: "map (pipeline_latency fl W (cs @ [c])) [0..<length cs] = map (pipeline_latency fl W cs) [0..<length cs]"
      "map (e2e_latency fl W (cs @ [c])) [0..<length cs] = map (e2e_latency fl W cs) [0..<length cs]"
      "map (service_time c0 (cs @ [c])) [0..<length cs] = map (service_time c0 cs) [0..<length cs]"
      by (simp_all add: pipeline_latency_def e2e_latency_def service_time_def nth_append nth_Cons') auto
    have new: "pipeline_latency fl W (cs @ [c]) (length cs) = since (stamp_at W c (last_byte fl (length cs) div 16)) c"
      "e2e_latency fl W (cs @ [c]) (length cs) = since (stamp_at W c (first_byte fl (length cs) div 16)) c"
      "service_time c0 (cs @ [c]) (length cs) = c - List.last (c0 # cs)"
      by (simp_all add: pipeline_latency_def e2e_latency_def service_time_def nth_append last_conv_nth nth_Cons')
    have fields: "la_prev (bench_on_msg msgs k a b x v) = x"
      "la_all (bench_on_msg msgs k a b x v) = hist_record (since b x) (la_all v)"
      "la_e2e_all (bench_on_msg msgs k a b x v) = hist_record (since a x) (la_e2e_all v)"
      "la_service (bench_on_msg msgs k a b x v) = hist_record (x - la_prev v) (la_service v)" for k a b x v
      by (simp_all add: bench_on_msg_def Let_def since_def split: option.splits)
    show ?case
      unfolding st fields using IH by (simp add: old new recorded_snoc)
  qed
  then show "la_prev st = List.last (c0 # cs)" "la_all st = recorded (map (pipeline_latency fl W cs) [0..<length cs])"
    "la_e2e_all st = recorded (map (e2e_latency fl W cs) [0..<length cs])"
    "la_service st = recorded (map (service_time c0 cs) [0..<length cs])" by auto
qed

lemma framed_total: "sum_list (map (\<lambda>m. 2 + length m) msgs) = length (reserialize msgs)"
  by (induction msgs) (simp_all add: reserialize_def Let_def)

lemma service_sum: "sum_list (map (service_time c0 cs) [0..<length cs]) = List.last (c0 # cs) - c0"
proof (induction cs rule: rev_induct)
  case (snoc c cs)
  have old: "map (service_time c0 (cs @ [c])) [0..<length cs] = map (service_time c0 cs) [0..<length cs]"
    by (simp add: service_time_def nth_append nth_Cons') auto
  have new: "service_time c0 (cs @ [c]) (length cs) = c - List.last (c0 # cs)"
    by (simp add: service_time_def nth_append last_conv_nth nth_Cons')
  show ?case using snoc by (simp add: old new)
qed simp

lemma tb_latency_run:
  assumes run: "tb_latency_main V files writable args = Some run" "lt_status run = 0"
    and small: "\<And>d. files (lg_file (lat_options args default_lat_args)) = Some d \<Longrightarrow> length d < 2 ^ 64"
  shows "\<exists>raw msgs fl d' W cs. files (lg_file (lat_options args default_lat_args)) = Some raw \<and>
    msgs = split_messages raw (unat (lg_max (lat_options args default_lat_args))) \<and>
    fl = map (\<lambda>m. 2 + length m) msgs \<and>
    drive_latency (probed V) append_report (reserialize msgs) fl default_cap
      (drv_reset (probed V) True (new_driver (probed V))) [] = (of_nat (length msgs), d', report_list fl W cs) \<and>
    seen (dr_top d') = (False, dr_cyc d', W) \<and> concat (map snd W) = take (16 * length W) (reserialize msgs) \<and>
    length cs = length msgs \<and> sorted_wrt (<) cs \<and> lt_committed run = of_nat (length msgs) \<and> lt_cycles run = dr_cyc d' \<and>
    la_all (lt_state run) = recorded (map (pipeline_latency fl W cs) [0..<length msgs]) \<and>
    la_e2e_all (lt_state run) = recorded (map (e2e_latency fl W cs) [0..<length msgs]) \<and>
    la_service (lt_state run) = recorded (map (service_time 6 cs) [0..<length msgs]) \<and>
    ch_sum (la_service (lt_state run)) = List.last (6 # cs) - 6"
proof -
  let ?g = "lat_options args default_lat_args" and ?d0 = "drv_reset (probed V) True (new_driver (probed V))"
  obtain raw where raw: "files (lg_file ?g) = Some raw" "raw \<noteq> []"
    using run by (auto simp: tb_latency_main_def read_itch_file_def lat_fails_def Let_def split: option.splits if_splits)
  let ?msgs = "split_messages raw (unat (lg_max ?g))"
  define fl where "fl = map (\<lambda>m. 2 + length m) ?msgs"
  have few: "length ?msgs < 2 ^ 64"
    using split_messages_length [of raw "unat (lg_max ?g)"] small [OF raw(1)] by (rule le_less_trans)
  have fl: "sum_list fl = length (reserialize ?msgs)" "0 \<notin> set fl" "length fl < 2 ^ 64" "length fl = length ?msgs"
    using few framed_total [of ?msgs] by (simp_all add: fl_def) auto
  obtain c d' reps where probe: "drive_latency (probed V) append_report (reserialize ?msgs) fl default_cap ?d0 [] = (c, d', reps)"
    by (metis prod_cases3)
  have "seen (dr_top ?d0) = (False, dr_cyc ?d0, [])" by (simp add: reset_seen)
  from drive_latency_reports [OF fl(1-3) this probe] obtain i W cs where
    W: "seen (dr_top d') = (False, dr_cyc d', W)" "fed (reserialize ?msgs) 6 i (dr_cyc d') W"
    "length cs = unat c" "sorted_wrt (<) cs" "\<forall>x\<in>set cs. 6 < x \<and> x \<le> dr_cyc d'" "reps = report_list fl W cs"
    by (auto simp: reset_seen)
  have d0: "unprobe_driver ?d0 = drv_reset V True (new_driver V)" "dr_cyc (drv_reset V True (new_driver V)) = 6"
    using reset_seen(2) [of V True] unprobe_driver_simps(4) [of ?d0] by simp_all
  define st where "st = feed_reports (bench_on_msg ?msgs) reps (new_lat_state 6)"
  have main: "drive_latency V (bench_on_msg ?msgs) (reserialize ?msgs) fl default_cap (drv_reset V True (new_driver V))
      (new_lat_state (dr_cyc (drv_reset V True (new_driver V)))) = (c, unprobe_driver d', st)"
    using drive_latency_folds [OF probe] by (simp add: d0 st_def)
  have out: "c = of_nat (length ?msgs)" "lt_committed run = c" "lt_cycles run = dr_cyc d'" "lt_state run = st"
    using run raw by (auto simp: tb_latency_main_def read_itch_file_def lat_fails_def Let_def main fl_def [symmetric]
        simp del: add_2_eq_Suc add_2_eq_Suc' split: if_splits Option.bind_splits)
  have n: "length cs = length ?msgs" using W(3) out(1) few by (simp add: unat_of_nat)
  note feeds = bench_feeds [OF st_def [unfolded W(6)], unfolded n]
  have given: "concat (map snd W) = take (16 * length W) (reserialize ?msgs)"
    using W(2) by (simp add: fed_def concat_words)
  have total: "ch_sum (la_service st) = List.last (6 # cs) - 6"
    unfolding feeds(4) recorded_counts n [symmetric] by (rule service_sum)
  show ?thesis
    using raw(1) probe W(1,4,6) n feeds(2-4) out given total
    by - (rule exI [of _ raw], rule exI [of _ ?msgs], rule exI [of _ fl], rule exI [of _ d'],
        rule exI [of _ W], rule exI [of _ cs], simp add: fl_def)
qed

end
