(* ===== verification/LatencyHist.thy ===== *)
theory LatencyHist
  imports SparseHist
begin

text \<open>
  The latency histogram of the replay program, \<open>src/sw/util/latency_hist.hpp\<close>: bins one nanosecond
  wide, an overflow bin at the end, and sums of \<open>double\<close> values beside them. An access outside the
  bins or a conversion of a value that its type cannot hold is undefined, here \<open>None\<close>.
\<close>

record latency_hist =
  lh_range :: u32
  lh_bins :: "u64 list"
  lh_count :: u64
  lh_sum :: f64
  lh_max :: f64
  lh_min :: f64

definition new_hist :: "u32 \<Rightarrow> latency_hist" where
  "new_hist range_ns = \<lparr>lh_range = range_ns, lh_bins = replicate (unat (range_ns + 1)) 0, lh_count = 0,
     lh_sum = d_zero, lh_max = d_zero, lh_min = f64_lit (10 ^ 18) 1\<rparr>"

definition f64_of_u32 :: "u32 \<Rightarrow> f64" where
  "f64_of_u32 w = f64_of_int (uint w)"

definition hist_bin :: "u32 \<Rightarrow> f64 \<Rightarrow> u32 option" where
  "hist_bin range_ns ns = (if f32_le (f64_of_u32 range_ns) ns then Some range_ns else u32_of_f32 ns)"

definition clamp_ns :: "f64 \<Rightarrow> f64" where
  "clamp_ns ns = (if f32_lt ns d_zero then d_zero else ns)"

definition lat_record :: "f64 \<Rightarrow> latency_hist \<Rightarrow> latency_hist option" where
  "lat_record ns0 h =
     (let ns = clamp_ns ns0 in do {
        idx \<leftarrow> hist_bin (lh_range h) ns;
        if unat idx < length (lh_bins h)
        then Some (h\<lparr>lh_bins := (lh_bins h)[unat idx := lh_bins h ! unat idx + 1], lh_count := lh_count h + 1,
               lh_sum := f64_add (lh_sum h) ns,
               lh_max := (if f32_lt (lh_max h) ns then ns else lh_max h),
               lh_min := (if f32_lt ns (lh_min h) then ns else lh_min h)\<rparr>)
        else None
      })"

definition lat_mean :: "latency_hist \<Rightarrow> f64" where
  "lat_mean h = (if lh_count h \<noteq> 0 then f64_div (lh_sum h) (f64_of_u64 (lh_count h)) else d_zero)"

definition lat_max :: "latency_hist \<Rightarrow> f64" where
  "lat_max h = (if lh_count h \<noteq> 0 then lh_max h else d_zero)"

definition lat_min :: "latency_hist \<Rightarrow> f64" where
  "lat_min h = (if lh_count h \<noteq> 0 then lh_min h else d_zero)"

definition lat_percentile :: "f64 \<Rightarrow> latency_hist \<Rightarrow> f64 option" where
  "lat_percentile p h =
     (if lh_count h = 0 then Some d_zero
      else do {
        target \<leftarrow> percentile_target p (lh_count h);
        if unat (lh_range h) < length (lh_bins h)
        then (case scan_bins (zip (map of_nat [0..<Suc (unat (lh_range h))]) (lh_bins h)) 0 target of
                Some i \<Rightarrow> Some (f64_of_u32 i)
              | None \<Rightarrow> Some (f64_of_u32 (lh_range h)))
        else None
      })"

definition lat_merge :: "latency_hist \<Rightarrow> latency_hist \<Rightarrow> latency_hist option" where
  "lat_merge h other =
     (let n = Suc (min (unat (lh_range h)) (unat (lh_range other)))
      in if n \<le> length (lh_bins h) \<and> n \<le> length (lh_bins other)
         then Some (h\<lparr>lh_bins := map2 (+) (take n (lh_bins h)) (take n (lh_bins other)) @ drop n (lh_bins h),
                lh_count := lh_count h + lh_count other,
                lh_sum := f64_add (lh_sum h) (lh_sum other),
                lh_max := (if f32_lt (lh_max h) (lh_max other) then lh_max other else lh_max h),
                lh_min := (if lh_count other \<noteq> 0 \<and> f32_lt (lh_min other) (lh_min h) then lh_min other
                           else lh_min h)\<rparr>)
         else None)"

text \<open>The rows of a CSV file: label, nanoseconds, number of samples, for the bins in use.\<close>

definition lat_csv :: "string \<Rightarrow> latency_hist \<Rightarrow> (string \<times> nat \<times> u64) list" where
  "lat_csv label h = [(label, i, lh_bins h ! i). i \<leftarrow> [0..<Suc (unat (lh_range h))], lh_bins h ! i \<noteq> 0]"

subsection \<open>What the bins hold\<close>

text \<open>
  The samples of a run fell into the bins \<open>bs\<close>: the histogram has their numbers. (The range is below
  the largest 32-bit value, where the number of bins would wrap around.)
\<close>

definition holds_bins :: "nat list \<Rightarrow> latency_hist \<Rightarrow> bool" where
  "holds_bins bs h \<longleftrightarrow> unat (lh_range h) < 2 ^ 32 - 1 \<and> set bs \<subseteq> {..unat (lh_range h)} \<and>
     lh_bins h = map (\<lambda>i. of_nat (count_list bs i)) [0..<Suc (unat (lh_range h))] \<and> lh_count h = of_nat (length bs)"

lemma holds_new: "unat r < 2 ^ 32 - 1 \<Longrightarrow> holds_bins [] (new_hist r)"
  by (simp add: holds_bins_def new_hist_def unat_word_ariths map_replicate_const del: upt_Suc)

lemma hist_bin_range:
  assumes "hist_bin r ns = Some b"
  shows "b \<le> r"
proof (cases "f32_le (f64_of_u32 r) ns")
  case False
  then obtain i where i: "f32_trunc ns = Some i" "0 \<le> i" "i < 2 ^ 32" "b = word_of_int i"
    using assms by (auto simp: hist_bin_def u32_of_f32_def split: option.splits if_splits)
  have "uint r < 2 ^ 53" using uint_bounded [of r] by simp
  then have "i \<le> uint r" using trunc_below [of "uint r" ns i] False i(1) by (simp add: f64_of_u32_def)
  moreover have "uint (word_of_int i :: u32) = i" using i by (simp add: uint_word_of_int_eq take_bit_int_eq_self)
  ultimately show ?thesis using i(4) by (simp add: word_le_def)
qed (use assms in \<open>simp add: hist_bin_def\<close>)

lemma lat_record_holds:
  assumes "holds_bins bs h" "hist_bin (lh_range h) (clamp_ns ns) = Some b"
  shows "\<exists>h'. lat_record ns h = Some h' \<and> holds_bins (bs @ [unat b]) h' \<and> lh_range h' = lh_range h"
proof -
  let ?n = "Suc (unat (lh_range h))"
  have b: "unat b < ?n" using hist_bin_range [OF assms(2)] by (simp add: word_le_nat_alt)
  have bins: "lh_bins h = map (\<lambda>i. of_nat (count_list bs i)) [0..<?n]" using assms(1) by (simp add: holds_bins_def)
  have "(lh_bins h)[unat b := lh_bins h ! unat b + 1] = map (\<lambda>i. of_nat (count_list (bs @ [unat b]) i)) [0..<?n]"
    using b unfolding bins by (intro nth_equalityI) (auto simp: nth_list_update simp del: upt_Suc)
  then show ?thesis
    using assms b by (simp add: lat_record_def holds_bins_def Let_def del: upt_Suc)
qed

lemma lat_merge_holds:
  assumes "holds_bins bs h" "holds_bins cs k" "lh_range k = lh_range h"
  shows "\<exists>h'. lat_merge h k = Some h' \<and> holds_bins (bs @ cs) h' \<and> lh_range h' = lh_range h"
proof -
  have "map2 (+) (lh_bins h) (lh_bins k) = map (\<lambda>i. of_nat (count_list (bs @ cs) i)) [0..<Suc (unat (lh_range h))]"
    using assms by (intro nth_equalityI) (auto simp: holds_bins_def simp del: upt_Suc)
  then show ?thesis
    using assms by (simp add: lat_merge_def holds_bins_def Let_def del: upt_Suc)
qed

lemma lat_percentile_holds:
  assumes "holds_bins bs h" "length bs < 2 ^ 64" "percentile_target p (of_nat (length bs)) = Some t"
    "0 < unat t" "unat t \<le> length bs"
  shows "\<exists>v. lat_percentile p h = Some (f64_of_u32 (of_nat v)) \<and> is_quantile bs (unat t) v"
proof -
  let ?r = "unat (lh_range h)" and ?is = "[0..<Suc (unat (lh_range h))]"
  have bins: "lh_bins h = map (\<lambda>i. of_nat (count_list bs i)) ?is" and bs: "set bs \<subseteq> set ?is"
    and n: "lh_count h = of_nat (length bs)"
    using assms(1) by (auto simp: holds_bins_def)
  obtain v where v: "scan_bins (map (\<lambda>i. (i, of_nat (count_list bs i))) ?is) 0 t = Some v" "is_quantile bs (unat t) v"
    using scan_bins_quantile [of ?is bs t] bs assms by (auto simp del: upt_Suc)
  have "zip (map (of_nat :: nat \<Rightarrow> u32) ?is) (lh_bins h) = map (\<lambda>(i, n). (of_nat i, n)) (map (\<lambda>i. (i, of_nat (count_list bs i))) ?is)"
    unfolding bins by (simp add: zip_map_map zip_same_conv_map del: upt_Suc)
  then have "scan_bins (zip (map (of_nat :: nat \<Rightarrow> u32) ?is) (lh_bins h)) 0 t = Some (of_nat v :: u32)"
    by (simp only: scan_bins_map [OF v(1)])
  moreover have "lh_count h \<noteq> 0"
    unfolding n using assms(2,4,5) unat_of_nat_u64 [of "length bs"] by auto
  ultimately show ?thesis
    using v(2) assms(3) by (intro exI [of _ v]) (simp add: lat_percentile_def n bins del: upt_Suc)
qed

subsection \<open>Runs\<close>

fun lat_records :: "f64 list \<Rightarrow> latency_hist \<Rightarrow> latency_hist option" where
  "lat_records [] h = Some h"
| "lat_records (ns # xs) h = do {
     h' \<leftarrow> lat_record ns h;
     lat_records xs h'
   }"

lemma trunc_nonneg: "\<not> f32_lt (Fin s m e) d_zero \<Longrightarrow> f32_trunc (Fin s m e) = Some i \<Longrightarrow> 0 \<le> i"
proof -
  assume "\<not> f32_lt (Fin s m e) d_zero" and i: "f32_trunc (Fin s m e) = Some i"
  then have "0 \<le> fix_val s m e (min e (-1074))" by (simp add: Let_def fix_val_def [of False 0])
  then have m: "if s then m \<le> 0 else 0 \<le> m"
    by (auto simp: fix_val_def Let_def zero_le_mult_iff mult_le_0_iff split: if_splits)
  moreover have "m \<le> 0 \<Longrightarrow> m div 2 ^ nat (- e) \<le> 0" by (rule div_nonpos_pos_le0) simp_all
  ultimately show "0 \<le> i"
    using i by (auto simp: trunc_mag_def pos_imp_zdiv_nonneg_iff mult_le_0_iff split: if_splits)
qed

lemma hist_bin_total:
  assumes "ns \<noteq> NaN"
  shows "\<exists>b. hist_bin r (clamp_ns ns) = Some b"
proof (cases "f32_le (f64_of_u32 r) (clamp_ns ns)")
  case False
  have r: "uint r < 2 ^ 32" "uint r < 2 ^ 53" using uint_bounded [of r] by simp_all
  obtain k where k: "f64_of_u32 r = Fin False (uint r * 2 ^ k) (- int k)"
    using f64_of_int_nonneg [OF uint_ge_0 r(2)] by (auto simp: f64_of_u32_def)
  obtain s m e where x: "clamp_ns ns = Fin s m e"
    using assms False by (cases ns) (auto simp: clamp_ns_def f32_le_def k split: if_splits)
  moreover have "\<not> f32_lt (clamp_ns ns) d_zero" by (auto simp: clamp_ns_def)
  ultimately obtain i where i: "f32_trunc (clamp_ns ns) = Some i" "0 \<le> i" using trunc_nonneg [of s m e] by auto
  have "i \<le> uint r"
    using trunc_below [OF uint_ge_0 r(2) _ i(1)] False by (simp add: f64_of_u32_def)
  then show ?thesis using False i r(1) by (simp add: hist_bin_def u32_of_f32_def)
qed (simp add: hist_bin_def)

lemma lat_records_holds:
  assumes "holds_bins cs h" "\<forall>x\<in>set xs. x \<noteq> NaN"
  shows "\<exists>h' bs. lat_records xs h = Some h' \<and> list_all2 (\<lambda>x b. hist_bin (lh_range h) (clamp_ns x) = Some b) xs bs \<and>
    holds_bins (cs @ map unat bs) h' \<and> lh_range h' = lh_range h"
  using assms
proof (induction xs arbitrary: cs h)
  case (Cons x xs)
  obtain b where b: "hist_bin (lh_range h) (clamp_ns x) = Some b" using hist_bin_total [of x] Cons.prems(2) by auto
  obtain h1 where h1: "lat_record x h = Some h1" "holds_bins (cs @ [unat b]) h1" "lh_range h1 = lh_range h"
    using lat_record_holds [OF Cons.prems(1) b] by blast
  obtain h' bs where "lat_records xs h1 = Some h'" "list_all2 (\<lambda>x b. hist_bin (lh_range h) (clamp_ns x) = Some b) xs bs"
    "holds_bins (cs @ [unat b] @ map unat bs) h'" "lh_range h' = lh_range h"
    using Cons.IH [OF h1(2)] Cons.prems(2) h1(3) by auto
  then show ?case using b h1(1) by (intro exI [of _ h'] exI [of _ "b # bs"]) simp
qed auto

lemma is_quantile_unat:
  assumes "is_quantile (map unat bs) t n"
  shows "is_quantile bs t (of_nat n :: u32)"
proof -
  have count: "count_le (map unat bs) (unat w) = count_le bs w" for w :: u32
    by (simp add: count_le_def filter_map word_le_nat_alt comp_def)
  obtain v where v: "v \<in> set bs" "n = unat v" using assms by (auto simp: is_quantile_def)
  then show ?thesis
    using assms by (auto simp: is_quantile_def count word_less_nat_alt)
qed

lemma lat_median:
  assumes "unat r < 2 ^ 32 - 1" "xs \<noteq> []" "length xs < 2 ^ 53" "\<forall>x\<in>set xs. x \<noteq> NaN"
  shows "\<exists>h bs v. lat_records xs (new_hist r) = Some h \<and>
    list_all2 (\<lambda>x b. hist_bin r (clamp_ns x) = Some b) xs bs \<and>
    lat_percentile d_half h = Some (f64_of_u32 v) \<and> is_quantile bs ((length xs + 1) div 2) v"
proof -
  obtain h bs where h: "lat_records xs (new_hist r) = Some h"
    "list_all2 (\<lambda>x b. hist_bin r (clamp_ns x) = Some b) xs bs" "holds_bins (map unat bs) h"
    using lat_records_holds [OF holds_new [OF assms(1)] assms(4)] by (auto simp: new_hist_def)
  have n: "length bs = length xs" using list_all2_lengthD [OF h(2)] by simp
  then have pos: "0 < length bs" "length bs < 2 ^ 53" using assms(2,3) by auto
  note half = median_target_bounds [OF pos]
  obtain v where "lat_percentile d_half h = Some (f64_of_u32 (of_nat v))" "is_quantile (map unat bs) ((length bs + 1) div 2) v"
    using lat_percentile_holds [OF h(3), of d_half "of_nat ((length bs + 1) div 2)"] median_target [OF pos] half pos(2)
    by auto
  then show ?thesis using h(1,2) is_quantile_unat unfolding n by blast
qed

end
