(* ===== verification/TbLatencyProps.thy ===== *)
theory TbLatencyProps
  imports TbLatency TbProps LatencyHist
begin

text \<open>
  The figures of the latency measurements: what the histograms of \<open>tb_latency\<close> hold after a run,
  and what the percentiles of both histograms mean.
\<close>

subsection \<open>A run\<close>

lemma counter_latency:
  assumes "s \<noteq> []"
  shows "\<exists>d st'. drive_latency (word_counter p) f s [n] default_cap (counter_start p) st = (1, d, st')"
proof -
  let ?V = "word_counter p"
  define r where "r = \<lparr>rn_i = 0, rn_committed = 0, rn_last = po_msg_total (ports_of ?V (dr_top (counter_start p))),
    rn_driver = counter_start p, rn_state = st, ln_first_ptr = 0, ln_done_ptr = 0, ln_first = replicate (length [n]) 0,
    ln_done = replicate (length [n]) 0\<rparr>"
  obtain t k where p: "present ?V s 0 (dr_top (counter_start p)) = (t, Some k)" "pn_in_valid (tp_pins t)"
    "\<not> pn_rst (tp_pins t)" "tp_model t = (True, 0)"
    using assms by (simp add: present_def counter_reset word_counter_def ports_of_def Let_def set_pins_def
        set_in_word_def idle_pins_def)
  define d where "d = tick ?V ((counter_start p)\<lparr>dr_top := t\<rparr>)"
  have model: "tp_model (dr_top d) = (True, 1)"
    using p by (simp add: d_def tick_def Let_def eval_top_def set_pins_def word_counter_def)
  have total: "po_msg_total (ports_of ?V (dr_top d)) = 1" "rn_last r = 0"
    using model by (simp_all add: ports_of_def word_counter_def r_def counter_reset)
  have start: "rn_i r = 0" "rn_driver r = counter_start p" "rn_committed r = 0" by (simp_all add: r_def)
  have step: "rn_committed (latency_step ?V f s (msg_bounds 0 [n]) r) = 1"
    unfolding latency_step_def start p(1) prod.case Let_def d_def [symmetric]
    using total by simp
  have cyc: "dr_cyc (rn_driver r) = 6" by (simp add: start counter_reset)
  have go: "measuring (length (msg_bounds 0 [n])) default_cap r"
    using cyc start by (simp add: measuring_def default_cap_def)
  have loop: "latency_loop ?V f s (msg_bounds 0 [n]) default_cap r = latency_step ?V f s (msg_bounds 0 [n]) r"
    unfolding latency_loop.simps [of ?V f s _ _ r] if_P [OF go]
    by (subst latency_loop.simps) (simp add: measuring_def step del: msg_bounds.simps)
  show ?thesis
    unfolding drive_latency_def Let_def r_def [symmetric] loop step by blast
qed

lemma trade_latency:
  "\<exists>run. tb_latency_main (word_counter quiet_ports) sample_files (\<lambda>_. True) [''trade.itch''] = Some run \<and> lt_status run = 0"
proof -
  have mhz: "\<not> f32_le (f64_lit 100 1) d_zero" by code_simp
  have raw: "read_itch_file sample_files ''trade.itch'' = trade_file" "trade_file \<noteq> []"
    by (simp_all add: read_itch_file_def sample_files_def trade_file_def build_trade_frame build_head_def frame_def)
  have msgs: "split_messages trade_file 0 = [drop 2 trade_file]" "reserialize [drop 2 trade_file] = trade_file"
    using trade_frames by (simp_all add: split_messages_frames reserialize_framed)
  have d0: "drv_reset (word_counter quiet_ports) True (new_driver (word_counter quiet_ports)) = counter_start quiet_ports"
    by (simp add: counter_start_def)
  obtain d st where "drive_latency (word_counter quiet_ports) (bench_on_msg [drop 2 trade_file]) trade_file
      [2 + length (drop 2 trade_file)] default_cap (counter_start quiet_ports)
      (new_lat_state (dr_cyc (counter_start quiet_ports))) = (1, d, st)"
    using counter_latency [OF raw(2), of quiet_ports "bench_on_msg [drop 2 trade_file]" "2 + length (drop 2 trade_file)"
        "new_lat_state (dr_cyc (counter_start quiet_ports))"] by blast
  then show ?thesis
    using mhz raw by (simp add: tb_latency_main_def default_lat_args_def msgs d0 Let_def)
qed

text \<open>
  Property C37. The latencies that \<open>tb_latency\<close> measures are what they are called. For a run that
  ends with status 0 take the words \<open>W\<close> that the circuit was given, with the clock edge of each, and
  the edges \<open>cs\<close> at which the messages were committed, ascending. The pipeline histogram holds for
  every message the cycles from the word with its last byte to its commit, the end-to-end
  histogram those from the word with its first byte, in both 0 when that word had not been given
  yet; the service histogram holds the cycles between commits, which add up to those from the end
  of the reset to the last commit. The probe that records the words does not change the run.
\<close>

theorem tb_latency_sound:
  assumes "tb_latency_main V files writable args = Some run" "lt_status run = 0"
    and "\<And>d. files (lg_file (lat_options args default_lat_args)) = Some d \<Longrightarrow> length d < 2 ^ 64"
  shows "\<exists>raw msgs fl d' W cs. files (lg_file (lat_options args default_lat_args)) = Some raw \<and>
    msgs = split_messages raw (unat (lg_max (lat_options args default_lat_args))) \<and>
    fl = map (\<lambda>m. 2 + length m) msgs \<and>
    drive_latency (probed V) append_report (reserialize msgs) fl default_cap
      (drv_reset (probed V) True (new_driver (probed V))) [] = (of_nat (length msgs), d', report_list fl W cs) \<and>
    seen (dr_top d') = (False, dr_cyc d', W) \<and> concat (map snd W) = take (16 * length W) (reserialize msgs) \<and>
    length cs = length msgs \<and> sorted_wrt (<) cs \<and> lt_committed run = of_nat (length msgs) \<and> lt_cycles run = dr_cyc d' \<and>
    la_all (lt_state run) = recorded (map (pipeline_latency fl W cs) [0..<length msgs]) \<and>
    la_e2e_all (lt_state run) = recorded (map (e2e_latency fl W cs) [0..<length msgs]) \<and>
    la_service (lt_state run) = recorded (map (service_time 6 cs) [0..<length msgs]) \<and>
    ch_sum (la_service (lt_state run)) = List.last (6 # cs) - 6"
  by (rule tb_latency_run [OF assms])

theorem tb_latency_sound_witness:
  "\<exists>run cs. tb_latency_main (word_counter quiet_ports) sample_files (\<lambda>_. True) [''trade.itch''] = Some run \<and>
     length cs = length (split_messages trade_file 0) \<and> ch_sum (la_service (lt_state run)) = List.last (6 # cs) - 6"
proof -
  obtain run where run: "tb_latency_main (word_counter quiet_ports) sample_files (\<lambda>_. True) [''trade.itch''] = Some run"
    "lt_status run = 0" using trade_latency by blast
  have args: "lg_file (lat_options [''trade.itch''] default_lat_args) = ''trade.itch''"
    "lg_max (lat_options [''trade.itch''] default_lat_args) = 0" by (simp_all add: default_lat_args_def)
  have "length d < 2 ^ 64" if "sample_files (lg_file (lat_options [''trade.itch''] default_lat_args)) = Some d" for d
    using that trade_length by (simp add: args sample_files_def)
  from tb_latency_sound [OF run this] obtain raw cs where r:
    "sample_files (lg_file (lat_options [''trade.itch''] default_lat_args)) = Some raw"
    "length cs = length (split_messages raw (unat (lg_max (lat_options [''trade.itch''] default_lat_args))))"
    "ch_sum (la_service (lt_state run)) = List.last (6 # cs) - 6"
    by metis
  have "raw = trade_file" using r(1) by (simp add: args sample_files_def)
  moreover have "unat (0 :: u64) = 0" by simp
  ultimately have "length cs = length (split_messages trade_file 0)" using r(2) unfolding args by (simp only:)
  then show ?thesis using run(1) r(3) by (intro exI [of _ run] exI [of _ cs] conjI)
qed

subsection \<open>Percentiles\<close>

text \<open>
  Property C38. The median of a latency histogram is a median. After fewer than \<open>2 ^ 53\<close> samples
  (at least one, none of them not-a-number) nothing in the replay program's histogram is
  undefined, every sample has fallen into a bin of the range, and \<open>percentile(0.50)\<close> is the
  smallest bin in use that at least half of the samples do not exceed: the binary rounding of
  \<open>ceil(p * count)\<close> costs nothing.
\<close>

theorem latency_median:
  assumes "unat r < 2 ^ 32 - 1" "xs \<noteq> []" "length xs < 2 ^ 53" "\<forall>x\<in>set xs. x \<noteq> NaN"
  shows "\<exists>h bs v. lat_records xs (new_hist r) = Some h \<and>
    list_all2 (\<lambda>x b. hist_bin r (clamp_ns x) = Some b \<and> b \<le> r) xs bs \<and>
    lat_percentile d_half h = Some (f64_of_u32 v) \<and> is_quantile bs ((length xs + 1) div 2) v"
proof -
  obtain h bs v where h: "lat_records xs (new_hist r) = Some h" "list_all2 (\<lambda>x b. hist_bin r (clamp_ns x) = Some b) xs bs"
    "lat_percentile d_half h = Some (f64_of_u32 v)" "is_quantile bs ((length xs + 1) div 2) v"
    using lat_median [OF assms] by blast
  have "list_all2 (\<lambda>x b. hist_bin r (clamp_ns x) = Some b \<and> b \<le> r) xs bs"
    using h(2) by (rule list_all2_mono) (auto dest: hist_bin_range)
  then show ?thesis using h by blast
qed

theorem latency_median_witness:
  "\<exists>h bs v. lat_records [f64_lit 5 1, f64_lit 7 2, f64_lit 9 1] (new_hist 20000) = Some h \<and>
     lat_percentile d_half h = Some (f64_of_u32 v) \<and> is_quantile (bs :: u32 list) 2 v"
proof -
  define xs where "xs = [f64_lit 5 1, f64_lit 7 2, f64_lit 9 1]"
  have "\<forall>x\<in>set xs. x \<noteq> NaN" by (simp add: xs_def f64_lit_def round_f64_def Let_def split: prod.splits)
  then obtain h bs v where "lat_records xs (new_hist 20000) = Some h" "lat_percentile d_half h = Some (f64_of_u32 v)"
    "is_quantile (bs :: u32 list) ((length xs + 1) div 2) v"
    using latency_median [of 20000 xs] by (auto simp: xs_def simp del: lat_records.simps)
  moreover have "(length xs + 1) div 2 = 2" by (simp add: xs_def)
  ultimately show ?thesis unfolding xs_def by metis
qed

end
