(* ===== verification/TradeMain.thy ===== *)
theory TradeMain
  imports SessionProps CFloats ItchGen
begin

text \<open>
  The program \<open>orderbook_trade\<close>, \<open>src/sw/trade/trade_main.cpp\<close>: its command line and the checks on
  it, the input, the session, the verdict, and the four CSV files as lists of rows. Files are a
  map from paths to contents; directories can be created and files written or not. An exception
  that nobody catches and a conversion without a defined result end the program abnormally.
\<close>

subsection \<open>The command line\<close>

record trade_args =
  ta_strategy :: string
  ta_file :: string
  ta_gen :: u64
  ta_seed :: u64
  ta_aggress :: u32
  ta_ts_scale :: u64
  ta_symbol :: u16
  ta_bar_secs :: f64
  ta_entry :: string
  ta_fee :: f32
  ta_equity0 :: f32
  ta_csv_dir :: string
  ta_params :: "(string \<times> f32) list"

definition f32_lit :: "int \<Rightarrow> int \<Rightarrow> f32" where
  "f32_lit n d = round_f32 (n < 0) \<bar>n\<bar> d 0"

definition default_trade_args :: trade_args where
  "default_trade_args = \<lparr>ta_strategy = [], ta_file = [], ta_gen = 0, ta_seed = 0xC0FFEE12345, ta_aggress = 20,
     ta_ts_scale = 100000, ta_symbol = 1, ta_bar_secs = f64_lit 5 1, ta_entry = ''join'', ta_fee = f32_lit 1 1000,
     ta_equity0 = f32_lit (10 ^ 9) 1, ta_csv_dir = [], ta_params = []\<rparr>"

text \<open>The parts of \<open>name=value\<close>; \<open>None\<close> without an equals sign.\<close>

definition split_param :: "string \<Rightarrow> (string \<times> string) option" where
  "split_param kv =
     (if CHR ''='' \<in> set kv
      then Some (takeWhile (\<lambda>c. c \<noteq> CHR ''='') kv, tl (dropWhile (\<lambda>c. c \<noteq> CHR ''='') kv)) else None)"

text \<open>
  One option with its value; \<open>None\<close> is the usage message and exit 2. Integers are read in
  \<open>unsigned long\<close> and then cut to their width.
\<close>

definition trade_option :: "string \<Rightarrow> string \<Rightarrow> trade_args \<Rightarrow> trade_args option" where
  "trade_option k v a =
     (if k = ''--strategy'' then Some (a\<lparr>ta_strategy := v\<rparr>)
      else if k = ''--file'' then Some (a\<lparr>ta_file := v\<rparr>)
      else if k = ''--gen'' then Some (a\<lparr>ta_gen := strtoull v\<rparr>)
      else if k = ''--seed'' then Some (a\<lparr>ta_seed := strtoull_any v\<rparr>)
      else if k = ''--aggress'' then Some (a\<lparr>ta_aggress := ucast (strtoul v)\<rparr>)
      else if k = ''--ts-scale'' then Some (a\<lparr>ta_ts_scale := strtoull v\<rparr>)
      else if k = ''--symbol'' then Some (a\<lparr>ta_symbol := ucast (strtoul v)\<rparr>)
      else if k = ''--bar-secs'' then Some (a\<lparr>ta_bar_secs := strtod v\<rparr>)
      else if k = ''--entry'' then Some (a\<lparr>ta_entry := v\<rparr>)
      else if k = ''--fee'' then Some (a\<lparr>ta_fee := strtof v\<rparr>)
      else if k = ''--equity0'' then Some (a\<lparr>ta_equity0 := strtof v\<rparr>)
      else if k = ''--csv'' then Some (a\<lparr>ta_csv_dir := v\<rparr>)
      else if k = ''--param'' then
        (case split_param v of None \<Rightarrow> None | Some (name, x) \<Rightarrow> Some (a\<lparr>ta_params := ta_params a @ [(name, strtof x)]\<rparr>))
      else None)"

fun trade_options :: "string list \<Rightarrow> trade_args \<Rightarrow> trade_args option" where
  "trade_options [] a = Some a"
| "trade_options [k] a = None"
| "trade_options (k # v # rest) a = (case trade_option k v a of None \<Rightarrow> None | Some a1 \<Rightarrow> trade_options rest a1)"

text \<open>\<open>double(UINT64_MAX) / 1e9\<close>, where the conversion rounds up to \<open>2^64\<close>.\<close>

definition max_bar_secs :: f64 where
  "max_bar_secs = f64_div (f64_of_u64 (-1)) (f64_lit (10 ^ 9) 1)"

definition args_ok :: "trade_args \<Rightarrow> bool" where
  "args_ok a \<longleftrightarrow>
     \<not> (ta_strategy a = [] \<or> (ta_gen a = 0 \<and> ta_file a = [])) \<and>
     \<not> (ta_entry a \<noteq> ''join'' \<and> ta_entry a \<noteq> ''cross'') \<and>
     \<not> (ta_file a \<noteq> [] \<and> ta_gen a \<noteq> 0) \<and>
     \<not> (\<not> f32_finite (ta_bar_secs a) \<or> f32_lt (ta_bar_secs a) (f64_lit 1 (10 ^ 9)) \<or>
        f32_lt max_bar_secs (ta_bar_secs a) \<or>
        \<not> f32_finite (ta_fee a) \<or> f32_lt (ta_fee a) f_zero \<or>
        \<not> f32_finite (ta_equity0 a) \<or> f32_le (ta_equity0 a) f_zero \<or>
        ta_symbol a = 0 \<or> ta_aggress a > 100 \<or> ta_ts_scale a = 0) \<and>
     list_all (\<lambda>(name, x). f32_finite x) (ta_params a)"

definition parse_args :: "string list \<Rightarrow> trade_args option" where
  "parse_args args = (case trade_options args default_trade_args of
     None \<Rightarrow> None
   | Some a \<Rightarrow> if args_ok a then Some a else None)"

subsection \<open>Input\<close>

text \<open>How the program can end without an exit status of its own.\<close>

datatype trade_fault = No_program | Bad_program load_error | Bad_generator | Bad_bar_secs | Bad_session session_fault |
  No_directory

definition trade_gen_config :: "trade_args \<Rightarrow> gen_config" where
  "trade_gen_config a = default_gen_config\<lparr>gc_seed := ta_seed a, gc_aggress_prob := ta_aggress a,
     gc_ts_scale := ta_ts_scale a\<rparr>"

text \<open>The stream, or \<open>None\<close> when the file cannot be read, which is exit 1.\<close>

definition trade_input :: "(string \<Rightarrow> bytes option) \<Rightarrow> trade_args \<Rightarrow> trade_fault + bytes option" where
  "trade_input files a =
     (if ta_gen a > 0
      then (case new_generator (trade_gen_config a) of
              None \<Rightarrow> Inl Bad_generator
            | Some g \<Rightarrow> (case generate (unat (ta_gen a)) g of
                None \<Rightarrow> Inl Bad_generator
              | Some (stream, g1) \<Rightarrow> Inr (Some stream)))
      else Inr (files (ta_file a)))"

definition bytes_of_string :: "string \<Rightarrow> bytes" where
  "bytes_of_string s = map of_char s"

definition load_program :: "(string \<Rightarrow> bytes option) \<Rightarrow> string \<Rightarrow> trade_fault + strat_program" where
  "load_program files path =
     (case files path of
        None \<Rightarrow> Inl No_program
      | Some buf \<Rightarrow> (case parse buf of Inl e \<Rightarrow> Inl (Bad_program e) | Inr p \<Rightarrow> Inr p))"

definition trade_params :: "trade_args \<Rightarrow> strat_program \<Rightarrow> f32 list option" where
  "trade_params a prog = override_params (pg_names prog) (map (\<lambda>(name, x). (bytes_of_string name, x)) (ta_params a))
     (map f32_of_bits (pg_defaults prog))"

text \<open>\<open>(uint64_t)(a.bar_secs * 1e9)\<close>\<close>

definition bar_interval :: "f64 \<Rightarrow> u64 option" where
  "bar_interval secs = u64_of_f64 (f64_mul secs (f64_lit (10 ^ 9) 1))"

definition trade_config :: "trade_args \<Rightarrow> f32 list \<Rightarrow> u64 \<Rightarrow> session_config" where
  "trade_config a params bar_ns = \<lparr>sc_locate = ta_symbol a, sc_bar_ns = bar_ns,
     sc_om = \<lparr>oc_fee = ta_fee a, oc_equity0 = ta_equity0 a, oc_entry_cross = (ta_entry a = ''cross''),
              oc_cross_ticks = 2\<rparr>,
     sc_params = params\<rparr>"

subsection \<open>The CSV files\<close>

datatype trade_csv =
    Bar_rows "(nat \<times> f32 \<times> f32 \<times> f32 \<times> f32 \<times> f32) list"
  | Fill_rows "(u64 \<times> u64 \<times> u8 \<times> u32 \<times> u32 \<times> bool) list"
  | Trade_rows "(int \<times> int \<times> int \<times> f32 \<times> f32 \<times> f32 \<times> f32 \<times> string) list"
  | Equity_rows "(nat \<times> f32) list"

definition bar_rows :: "bar_series \<Rightarrow> (nat \<times> f32 \<times> f32 \<times> f32 \<times> f32 \<times> f32) list" where
  "bar_rows bs = map (\<lambda>t. (t, bs_o bs ! t, bs_h bs ! t, bs_l bs ! t, bs_c bs ! t, bs_v bs ! t)) [0..<nat (series_size bs)]"

definition csv_files :: "string \<Rightarrow> session_result \<Rightarrow> (string \<times> trade_csv) list" where
  "csv_files dir r =
     [(dir @ ''/bars.csv'', Bar_rows (bar_rows (sr_bars r))),
      (dir @ ''/fills.csv'', Fill_rows (map (\<lambda>x. (fr_ts x, fr_ref x, fr_side x, fr_price x, fr_shares x, fr_maker x))
         (sr_fills r))),
      (dir @ ''/trades.csv'', Trade_rows (map (\<lambda>x. (tr_side x, tr_entry_t x, tr_exit_t x, tr_entry_px x, tr_exit_px x,
         tr_qty x, tr_pnl x, reason_name (tr_reason x))) (sr_trades r))),
      (dir @ ''/equity.csv'', Equity_rows (zip [0..<length (sr_equity r)] (sr_equity r)))]"

text \<open>The files are written in order; the first one that cannot be opened ends the program.\<close>

definition write_csvs :: "(string \<Rightarrow> bool) \<Rightarrow> string \<Rightarrow> session_result \<Rightarrow> int \<times> (string \<times> trade_csv) list" where
  "write_csvs writable dir r =
     (let fs = takeWhile (\<lambda>(path, _). writable path) (csv_files dir r)
      in (if length fs < length (csv_files dir r) then 1 else 0, fs))"

subsection \<open>The program\<close>

record trade_run =
  td_status :: int
  td_result :: "session_result option"
  td_files :: "(string \<times> trade_csv) list"

definition trade_fails :: "int \<Rightarrow> trade_fault + trade_run" where
  "trade_fails status = Inr \<lparr>td_status = status, td_result = None, td_files = []\<rparr>"

text \<open>What follows the session: the verdict, then the files.\<close>

definition trade_finish ::
  "(string \<Rightarrow> bool) \<Rightarrow> (string \<Rightarrow> bool) \<Rightarrow> string \<Rightarrow> session_result \<Rightarrow> trade_fault + trade_run"
where
  "trade_finish mkdir writable dir r =
     (if \<not> session_intact r then Inr \<lparr>td_status = 3, td_result = Some r, td_files = []\<rparr>
      else if dir = [] then Inr \<lparr>td_status = 0, td_result = Some r, td_files = []\<rparr>
      else if \<not> mkdir dir then Inl No_directory
      else (case write_csvs writable dir r of
              (status, fs) \<Rightarrow> Inr \<lparr>td_status = status, td_result = Some r, td_files = fs\<rparr>))"

definition trade_session ::
  "(f32 \<Rightarrow> f32) \<Rightarrow> trade_args \<Rightarrow> strat_program \<Rightarrow> f32 list \<Rightarrow> bytes \<Rightarrow> trade_fault + session_result"
where
  "trade_session lg a prog params stream =
     (case bar_interval (ta_bar_secs a) of
        None \<Rightarrow> Inl Bad_bar_secs
      | Some bar_ns \<Rightarrow>
          (case run_session lg stream prog (trade_config a params bar_ns) of
             Inl e \<Rightarrow> Inl (Bad_session e)
           | Inr r \<Rightarrow> Inr r))"

definition trade_main ::
  "(f32 \<Rightarrow> f32) \<Rightarrow> (string \<Rightarrow> bytes option) \<Rightarrow> (string \<Rightarrow> bool) \<Rightarrow> (string \<Rightarrow> bool) \<Rightarrow> string list \<Rightarrow>
   trade_fault + trade_run"
where
  "trade_main lg files mkdir writable args =
     (case parse_args args of
        None \<Rightarrow> trade_fails 2
      | Some a \<Rightarrow>
          (case load_program files (ta_strategy a) of
             Inl e \<Rightarrow> Inl e
           | Inr prog \<Rightarrow>
               (case trade_params a prog of
                  None \<Rightarrow> trade_fails 1
                | Some params \<Rightarrow>
                    (case trade_input files a of
                       Inl e \<Rightarrow> Inl e
                     | Inr None \<Rightarrow> trade_fails 1
                     | Inr (Some stream) \<Rightarrow>
                         (case trade_session lg a prog params stream of
                            Inl e \<Rightarrow> Inl e
                          | Inr r \<Rightarrow> trade_finish mkdir writable (ta_csv_dir a) r)))))"

end
