(* ===== verification/TradeProps.thy ===== *)
theory TradeProps
  imports TradeMain ReplaySynthetic
begin

text \<open>
  What a run of \<open>orderbook_trade\<close> promises: its exit status is worth something, the files it writes
  are those of a session that may be trusted, and a session over a generated stream is never
  rejected.
\<close>

subsection \<open>The bar interval\<close>

text \<open>A value that came from text is a magnitude with a sign.\<close>

definition signed_float :: "f64 \<Rightarrow> bool" where
  "signed_float x = (case x of Fin s m e \<Rightarrow> 0 \<le> m | _ \<Rightarrow> True)"

lemma round_div_nonneg: "0 \<le> n \<Longrightarrow> 0 < d \<Longrightarrow> 0 \<le> round_div n d"
  by (simp add: round_div_def Let_def pos_imp_zdiv_nonneg_iff)

lemma round_f64_signed: "0 \<le> n \<Longrightarrow> 0 < d \<Longrightarrow> signed_float (round_f64 s n d e)"
proof -
  assume "0 \<le> n" "0 < d"
  then have "0 \<le> scaled n d e q" for q by (simp add: scaled_def round_div_nonneg)
  then show ?thesis by (simp add: round_f64_def signed_float_def Let_def)
qed

lemma digits_value_nonneg: "\<forall>c\<in>set ds. 0 \<le> digit_value c \<Longrightarrow> 0 \<le> base \<Longrightarrow> 0 \<le> digits_value base ds"
  unfolding digits_value_def by (induction ds rule: rev_induct) auto

lemma mantissa_digits:
  assumes "read_mantissa digit t = Some (whole, frac, rest)" "c \<in> set (whole @ frac)"
  shows "digit c"
  using assms by (auto simp: read_mantissa_def Let_def dest!: set_takeWhileD split: if_splits)

lemma digit_nonneg: "is_digit c \<Longrightarrow> 0 \<le> digit_value c" "hex_digit c \<Longrightarrow> 0 \<le> digit_value c"
  by (auto simp: digit_value_def is_digit_def hex_digit_def)

lemma mantissa_nonneg:
  "read_mantissa is_digit t = Some (whole, frac, rest) \<Longrightarrow> 0 \<le> digits_value 10 (whole @ frac)"
  "read_mantissa hex_digit t = Some (whole, frac, rest) \<Longrightarrow> 0 \<le> digits_value 16 (whole @ frac)"
  by (intro digits_value_nonneg ballI digit_nonneg; auto dest: mantissa_digits)+

lemma strtod_signed: "signed_float (strtod s)"
proof -
  have other: "signed_float (Inf x)" "signed_float NaN" for x by (simp_all add: signed_float_def)
  have dec: "signed_float (case read_mantissa is_digit t of None \<Rightarrow> round_f64 False 0 1 0
      | Some (whole, frac, rest) \<Rightarrow>
          if 0 \<le> read_exponent CHR ''e'' rest - int (length frac)
          then round_f64 neg (digits_value 10 (whole @ frac) * 10 ^ nat (read_exponent CHR ''e'' rest - int (length frac))) 1 0
          else round_f64 neg (digits_value 10 (whole @ frac)) (10 ^ nat (- (read_exponent CHR ''e'' rest - int (length frac)))) 0)"
    for t neg
    by (cases "read_mantissa is_digit t") (auto intro!: round_f64_signed mult_nonneg_nonneg mantissa_nonneg(1))
  have hex: "signed_float (case mo of None \<Rightarrow> y | Some (whole, frac, rest) \<Rightarrow>
      round_f64 neg (digits_value 16 (whole @ frac)) 1 (read_exponent CHR ''p'' rest - 4 * int (length frac)))"
    if mo: "mo = None \<or> (\<exists>t. mo = read_mantissa hex_digit t)" and y: "signed_float y" for mo y neg
  proof (cases mo)
    case None
    then show ?thesis using y by simp
  next
    case (Some p)
    obtain whole frac rest where p: "p = (whole, frac, rest)" by (cases p)
    obtain t where "read_mantissa hex_digit t = Some (whole, frac, rest)" using mo Some p by auto
    then show ?thesis using Some p mantissa_nonneg(2) by (simp add: round_f64_signed)
  qed
  show ?thesis
    unfolding strtod_def read_float_def Let_def if_split [of signed_float]
    by (intro conjI impI other hex dec) auto
qed

lemma lit_signed: "0 \<le> n \<Longrightarrow> 0 < d \<Longrightarrow> signed_float (f64_lit n d)"
  by (simp add: f64_lit_def round_f64_signed)

lemma trade_option_bar_secs:
  "trade_option k v a = Some a1 \<Longrightarrow> signed_float (ta_bar_secs a) \<Longrightarrow> signed_float (ta_bar_secs a1)"
  by (auto simp: trade_option_def strtod_signed split: if_splits option.splits)

lemma trade_options_bar_secs:
  "trade_options args a = Some a1 \<Longrightarrow> signed_float (ta_bar_secs a) \<Longrightarrow> signed_float (ta_bar_secs a1)"
  by (induction args a rule: trade_options.induct) (auto dest: trade_option_bar_secs split: option.splits)

lemma parse_args_ok:
  assumes "parse_args args = Some a"
  shows "args_ok a" "signed_float (ta_bar_secs a)"
proof -
  have "signed_float (ta_bar_secs default_trade_args)" by (simp add: default_trade_args_def lit_signed)
  then show "args_ok a" "signed_float (ta_bar_secs a)"
    using assms trade_options_bar_secs by (auto simp: parse_args_def split: option.splits if_splits)
qed

text \<open>Rounding a value of at least 1 gives a value of at least 1.\<close>

lemma round_div_ge: "0 < d \<Longrightarrow> a * d \<le> n \<Longrightarrow> a \<le> round_div n d"
proof -
  assume "0 < d" "a * d \<le> n"
  then have "a \<le> n div d" by (metis nonzero_mult_div_cancel_right less_irrefl zdiv_mono1)
  then show ?thesis by (simp add: round_div_def Let_def)
qed

lemma round_ge_one:
  assumes "0 < n" "e < 0 \<Longrightarrow> 2 ^ nat (- e) \<le> n"
  shows "case round_f64 False n 1 e of Fin s t q \<Rightarrow> \<not> s \<and> 1 \<le> trunc_mag t q | _ \<Rightarrow> True"
proof -
  define l where "l = nbits n - 1"
  have l: "0 \<le> l" "2 ^ nat l \<le> n" "n < 2 ^ Suc (nat l)"
  proof -
    have "nat (nbits n) = Suc (nat l)" using nbits_bounds [OF assms(1)] unfolding l_def by linarith
    then show "0 \<le> l" "2 ^ nat l \<le> n" "n < 2 ^ Suc (nat l)"
      using nbits_bounds [OF assms(1)] by (simp_all add: l_def)
  qed
  have log: "log2_quot n 1 = l" using log2_quot_shift [OF assms(1), of 0] by (simp add: l_def)
  have el: "0 \<le> e + l"
  proof (cases "e < 0")
    case True
    then have "(2 :: int) ^ nat (- e) < 2 ^ Suc (nat l)" using assms(2) l(3) by linarith
    then have "nat (- e) < Suc (nat l)" by (simp only: power_strict_increasing_iff one_less_numeral_iff semiring_norm)
    then show ?thesis using l(1) by linarith
  qed (use l(1) in simp)
  define q where "q = e + l - 52"
  have q: "max (-1074) (e + log2_quot n 1 - 52) = q" "-52 \<le> q" using el by (simp_all add: log q_def)
  have t: "2 ^ 52 \<le> scaled n 1 e q"
  proof (cases "q \<le> e")
    case True
    then have "nat l + nat (e - q) = 52" using l(1) by (simp add: q_def)
    then have "(2 :: int) ^ 52 = 2 ^ nat l * 2 ^ nat (e - q)" by (metis power_add)
    also have "\<dots> \<le> n * 2 ^ nat (e - q)" using l(2) by simp
    finally show ?thesis using True by (simp add: scaled_def)
  next
    case False
    then have "52 + nat (q - e) = nat l" by (simp add: q_def)
    then have "(2 :: int) ^ 52 * 2 ^ nat (q - e) \<le> n" using l(2) by (metis power_add)
    then have "2 ^ 52 \<le> round_div n (2 ^ nat (q - e))" by (intro round_div_ge) simp_all
    then show ?thesis using False by (simp add: scaled_def)
  qed
  have one: "1 \<le> trunc_mag u v" if "2 ^ 52 \<le> u" "-52 \<le> v" for u v :: int
  proof (cases "0 \<le> v")
    case True
    have "1 * 1 \<le> u * 2 ^ nat v" using that(1) by (intro mult_mono) auto
    then show ?thesis using True by (simp add: trunc_mag_def)
  next
    case False
    then have "(2 :: int) ^ nat (- v) \<le> 2 ^ 52" using that(2) by (intro power_increasing) auto
    then have "2 ^ nat (- v) \<le> u" using that(1) by linarith
    then have "0 < u div 2 ^ nat (- v)" by (simp add: pos_imp_zdiv_pos_iff)
    then show ?thesis using False by (simp add: trunc_mag_def)
  qed
  show ?thesis
    using assms(1) t q one [of "scaled n 1 e q" q] one [of "2 ^ 52" "q + 1"]
    by (simp add: round_f64_def Let_def)
qed

definition giga :: f64 where "giga = f64_lit (10 ^ 9) 1"
definition nano :: f64 where "nano = f64_lit 1 (10 ^ 9)"

lemma giga_nano: "giga = Fin False 8388608000000000 (-23)" "nano = Fin False 4835703278458517 (-82)"
  unfolding giga_def nano_def by code_simp+

lemma max_bar_secs_edge: "bar_interval max_bar_secs = None"
  by code_simp

lemma bar_interval_pos:
  assumes "f32_finite x" "signed_float x" "\<not> f32_lt x nano" "bar_interval x = Some n"
  shows "n \<noteq> 0"
proof -
  obtain s m e where x: "x = Fin s m e" "0 \<le> m"
    using assms(1,2) by (cases x) (auto simp: signed_float_def)
  define k where "k = min e (-82)"
  have ge: "4835703278458517 * 2 ^ nat (- 82 - k) \<le> (if s then - (m * 2 ^ nat (e - k)) else m * 2 ^ nat (e - k))"
    using assms(3) by (simp add: x(1) giga_nano fix_val_def Let_def k_def [symmetric] not_less)
  define c where "c = 4835703278458517 * (2 :: int) ^ nat (- 82 - k)"
  define d where "d = m * 2 ^ nat (e - k)"
  have pos: "0 < c" "0 \<le> d" "c \<le> (if s then - d else d)"
    using x(2) ge [folded c_def d_def] by (simp_all add: c_def d_def)
  then have s: "\<not> s" by (cases s) simp_all
  then have ge: "4835703278458517 * 2 ^ nat (- 82 - k) \<le> m * 2 ^ nat (e - k)" using pos by (simp add: c_def d_def)
  have "m \<noteq> 0" using pos s by (auto simp: d_def)
  then have m: "0 < m" using x(2) by simp
  have "bar_interval x = u64_of_f64 (round_f64 False (m * 8388608000000000) 1 (e - 23))"
    using s unfolding bar_interval_def giga_def [symmetric] giga_nano x(1) by simp
  moreover have "2 ^ nat (- (e - 23)) \<le> m * 8388608000000000" if "e - 23 < 0"
  proof (cases "e \<le> -82")
    case True
    then have k: "k = e" by (simp add: k_def)
    have "nat (- (e - 23)) = 105 + nat (- 82 - e)" using True by linarith
    then have "(2 :: int) ^ nat (- (e - 23)) = 2 ^ 105 * 2 ^ nat (- 82 - e)" by (metis power_add)
    also have "\<dots> \<le> 4835703278458517 * 8388608000000000 * 2 ^ nat (- 82 - e)" by (intro mult_right_mono) simp_all
    also have "\<dots> \<le> m * 8388608000000000" using ge by (simp add: k)
    finally show ?thesis .
  next
    case False
    then have k: "k = -82" by (simp add: k_def)
    have "(2 :: int) ^ nat (- (e - 23)) * 2 ^ nat (e + 82) = 2 ^ 105"
      using False that by (simp flip: power_add nat_add_distrib)
    also have "\<dots> \<le> 4835703278458517 * 8388608000000000" by simp
    also have "\<dots> \<le> m * 2 ^ nat (e + 82) * 8388608000000000" using ge by (simp add: k)
    finally have "2 ^ nat (- (e - 23)) * 2 ^ nat (e + 82) \<le> (m * 8388608000000000) * (2 :: int) ^ nat (e + 82)"
      by (simp add: mult_ac)
    then show ?thesis by (rule mult_right_le_imp_le) simp
  qed
  ultimately show ?thesis
    using round_ge_one [of "m * 8388608000000000" "e - 23"] m assms(4)
    by (auto simp: u64_of_f64_def word_of_int_eq_0_iff take_bit_int_eq_self split: f32.splits option.splits if_splits)
qed

subsection \<open>A run that may be trusted\<close>

lemma trade_session_inr:
  assumes "trade_session lg a prog params stream = Inr r"
  shows "\<exists>n. bar_interval (ta_bar_secs a) = Some n \<and> run_session lg stream prog (trade_config a params n) = Inr r"
  using assms by (auto simp: trade_session_def split: option.splits sum.splits)

lemma write_csvs_all:
  assumes "write_csvs writable dir r = (status, fs)"
  shows "status = 0 \<and> fs = csv_files dir r \<or> status = 1 \<and> (\<exists>rest. rest \<noteq> [] \<and> csv_files dir r = fs @ rest)"
proof -
  let ?P = "\<lambda>(path, _). writable path" and ?xs = "csv_files dir r"
  have res: "status = (if length fs < length ?xs then 1 else 0)" and fs: "fs = takeWhile ?P ?xs"
    using assms by (auto simp: write_csvs_def Let_def)
  have split: "?xs = fs @ dropWhile ?P ?xs" unfolding fs by (rule takeWhile_dropWhile_id [symmetric])
  show ?thesis
  proof (cases "dropWhile ?P ?xs = []")
    case True
    then have "?xs = fs" using split by (simp only: append_Nil2)
    then show ?thesis using res by simp
  next
    case False
    have "length ?xs = length fs + length (dropWhile ?P ?xs)" by (subst split) (simp only: length_append)
    then have "length fs < length ?xs" using False by simp
    then have "status = 1" using res by simp
    then show ?thesis using split False by metis
  qed
qed

text \<open>What the end of the program gives for a session's result.\<close>

definition run_trusted :: "string \<Rightarrow> session_result \<Rightarrow> trade_run \<Rightarrow> bool" where
  "run_trusted dir r run \<longleftrightarrow> td_result run = Some r \<and>
     (if \<not> session_intact r then td_status run = 3 \<and> td_files run = []
      else if dir = [] then td_status run = 0 \<and> td_files run = []
      else td_status run = 0 \<and> td_files run = csv_files dir r \<or>
        td_status run = 1 \<and> (\<exists>rest. rest \<noteq> [] \<and> csv_files dir r = td_files run @ rest))"

lemma trade_finish_inr:
  assumes "trade_finish mkdir writable dir r = Inr run"
  shows "run_trusted dir r run"
  using assms write_csvs_all [of writable dir r]
  by (force simp: trade_finish_def run_trusted_def split: if_splits prod.splits)

lemma trade_main_inr:
  assumes "trade_main lg files mkdir writable args = Inr run"
  shows "(td_result run = None \<and> td_files run = [] \<and> td_status run = (if parse_args args = None then 2 else 1)) \<or>
    (\<exists>a prog params stream n r. parse_args args = Some a \<and> load_program files (ta_strategy a) = Inr prog \<and>
       trade_params a prog = Some params \<and> trade_input files a = Inr (Some stream) \<and>
       bar_interval (ta_bar_secs a) = Some n \<and> run_session lg stream prog (trade_config a params n) = Inr r \<and>
       run_trusted (ta_csv_dir a) r run)"
proof (cases "parse_args args")
  case (Some a)
  show ?thesis
  proof (cases "load_program files (ta_strategy a)")
    case prog: (Inr prog)
    show ?thesis
    proof (cases "trade_params a prog")
      case params: (Some params)
      from assms consider "trade_input files a = Inr None" "run = \<lparr>td_status = 1, td_result = None, td_files = []\<rparr>"
        | stream r where "trade_input files a = Inr (Some stream)" "trade_session lg a prog params stream = Inr r"
          "trade_finish mkdir writable (ta_csv_dir a) r = Inr run"
        by (auto simp: trade_main_def Some prog params trade_fails_def split: sum.splits option.splits)
      then show ?thesis
      proof cases
        case 2
        then show ?thesis
          using trade_session_inr [OF 2(2)] trade_finish_inr [OF 2(3)] Some prog params by blast
      qed (simp add: Some)
    qed (use assms in \<open>auto simp: trade_main_def Some prog trade_fails_def\<close>)
  qed (use assms in \<open>simp add: trade_main_def Some\<close>)
qed (use assms in \<open>auto simp: trade_main_def trade_fails_def\<close>)

lemma bar_interval_ok:
  assumes "parse_args args = Some a" "bar_interval (ta_bar_secs a) = Some n"
  shows "n \<noteq> 0"
  using parse_args_ok [OF assms(1)] assms(2)
  by (intro bar_interval_pos) (auto simp: args_ok_def nano_def)

subsection \<open>The empty file\<close>

definition desk_files :: "string \<Rightarrow> bytes option" where
  "desk_files = [''s'' \<mapsto> obp1_image sample_program, ''f'' \<mapsto> []]"

abbreviation desk_args :: "string list" where
  "desk_args \<equiv> [''--strategy'', ''s'', ''--file'', ''f'', ''--csv'', ''d'']"

definition desk_trade_args :: trade_args where
  "desk_trade_args = default_trade_args\<lparr>ta_strategy := ''s'', ta_file := ''f'', ta_csv_dir := ''d''\<rparr>"

lemma default_floats_ok:
  "f32_finite (f64_lit 5 1)" "\<not> f32_lt (f64_lit 5 1) (f64_lit 1 (10 ^ 9))" "\<not> f32_lt max_bar_secs (f64_lit 5 1)"
  "f32_finite (f32_lit 1 1000)" "\<not> f32_lt (f32_lit 1 1000) f_zero" "f32_finite (f32_lit (10 ^ 9) 1)"
  "\<not> f32_le (f32_lit (10 ^ 9) 1) f_zero" "bar_interval (f64_lit 5 1) = Some 5000000000"
  by code_simp+

lemma desk_args_ok: "parse_args desk_args = Some desk_trade_args"
proof -
  have "trade_options desk_args default_trade_args = Some desk_trade_args"
    by (simp add: trade_option_def desk_trade_args_def)
  moreover have "args_ok desk_trade_args"
    using default_floats_ok by (simp add: args_ok_def desk_trade_args_def default_trade_args_def)
  ultimately show ?thesis by (simp add: parse_args_def)
qed

lemma empty_session:
  assumes "new_session prog sc = Inr s0"
  shows "\<exists>r. run_session lg [] prog sc = Inr r \<and> session_intact r \<and> sr_fills r = []"
proof -
  note init = new_session_Inr [OF assms]
  let ?om = "new_order_manager (sc_locate sc) (sc_om sc)"
  have "flush (ss_builder s0) = (ss_builder s0, 0)" using init by (simp add: flush_def new_builder_def)
  moreover have "om_finish (ss_last_ts s0) (ss_desk s0) = Some (?om, new_fill_engine (sc_locate sc))"
    using init by (simp add: om_finish_def cancel_working_entry_def new_order_manager_def)
  moreover have "errors (be_ctr (ss_eng s0)) = 0"
    using init engine_init_ctr [of _ _ "ss_eng s0"] by (auto simp: errors_def no_counters_def)
  ultimately show ?thesis
    using init by (simp add: run_session_bodies assms close_session_def intact_errors summary_def new_order_manager_def
      counts_fit_def)
qed

lemma desk_session:
  "\<exists>run r. trade_main id desk_files (\<lambda>_. True) (\<lambda>_. True) desk_args = Inr run \<and> td_status run = 0 \<and>
     td_result run = Some r"
proof -
  let ?sc = "trade_config desk_trade_args [] 5000000000"
  have fields: "ta_strategy desk_trade_args = ''s''" "ta_file desk_trade_args = ''f''" "ta_gen desk_trade_args = 0"
    "ta_csv_dir desk_trade_args = ''d''" "ta_params desk_trade_args = []" "ta_bar_secs desk_trade_args = f64_lit 5 1"
    by (simp_all add: desk_trade_args_def default_trade_args_def)
  have "load_program desk_files ''s'' = Inr sample_program" by (simp add: load_program_def desk_files_def sample_accepted)
  moreover have "trade_params desk_trade_args sample_program = Some []"
    by (simp add: trade_params_def fields sample_program_def)
  moreover have "trade_input desk_files desk_trade_args = Inr (Some [])"
    by (simp add: trade_input_def fields desk_files_def)
  moreover obtain s0 where "new_session sample_program ?sc = Inr s0"
    using session_engine_exists sample_new_vm by (auto simp: new_session_def trade_config_def)
  then obtain r where "run_session id [] sample_program ?sc = Inr r" "session_intact r"
    using empty_session [of sample_program ?sc s0 id] by blast
  moreover have "takeWhile (\<lambda>(path, _). True) fs = fs" for fs :: "(string \<times> trade_csv) list"
    by (simp add: takeWhile_eq_all_conv split_def)
  ultimately show ?thesis
    using desk_args_ok default_floats_ok(8)
    by (simp add: trade_main_def trade_session_def trade_finish_def fields write_csvs_def Let_def
      del: takeWhile_eq_all_conv)
qed

text \<open>
  Property C39. The exit status of \<open>orderbook_trade\<close> can be relied on. Without a session it is 2
  for a command line that is not accepted and 1 for an unknown parameter or an unreadable input,
  and nothing is written. With one, the program, the parameters and the input were all acceptable
  and the bar interval is positive, and what follows depends on the integrity check alone: a
  session that failed it ends with status 3 and no file, whatever the directory; one that passed
  it traded, if its input has fewer than \<open>2 ^ 64\<close> bytes, against books that answer like the
  oracle, and ends with status 0 and exactly the four files of that session (none without a
  directory), or with status 1 and a proper initial part of the four.
\<close>

theorem trade_main_sound:
  assumes "trade_main lg files mkdir writable args = Inr run"
  shows "(td_result run = None \<and> td_files run = [] \<and> td_status run = (if parse_args args = None then 2 else 1)) \<or>
    (\<exists>a prog params stream n r.
       parse_args args = Some a \<and> load_program files (ta_strategy a) = Inr prog \<and>
       trade_params a prog = Some params \<and> trade_input files a = Inr (Some stream) \<and>
       bar_interval (ta_bar_secs a) = Some n \<and> n \<noteq> 0 \<and>
       run_session lg stream prog (trade_config a params n) = Inr r \<and> td_result run = Some r \<and>
       (if \<not> session_intact r then td_status run = 3 \<and> td_files run = []
        else (length stream < 2 ^ 64 \<longrightarrow> oracle_session stream r) \<and>
          (if ta_csv_dir a = [] then td_status run = 0 \<and> td_files run = []
           else td_status run = 0 \<and> td_files run = csv_files (ta_csv_dir a) r \<or>
             td_status run = 1 \<and> (\<exists>rest. rest \<noteq> [] \<and> csv_files (ta_csv_dir a) r = td_files run @ rest))))"
  using trade_main_inr [OF assms]
proof
  assume "\<exists>a prog params stream n r. parse_args args = Some a \<and> load_program files (ta_strategy a) = Inr prog \<and>
       trade_params a prog = Some params \<and> trade_input files a = Inr (Some stream) \<and>
       bar_interval (ta_bar_secs a) = Some n \<and> run_session lg stream prog (trade_config a params n) = Inr r \<and>
       run_trusted (ta_csv_dir a) r run"
  then obtain a prog params stream n r where s: "parse_args args = Some a"
    "load_program files (ta_strategy a) = Inr prog" "trade_params a prog = Some params"
    "trade_input files a = Inr (Some stream)" "bar_interval (ta_bar_secs a) = Some n"
    "run_session lg stream prog (trade_config a params n) = Inr r" and t: "run_trusted (ta_csv_dir a) r run"
    by blast
  have "n \<noteq> 0" using bar_interval_ok [OF s(1,5)] .
  moreover have "session_intact r \<Longrightarrow> length stream < 2 ^ 64 \<longrightarrow> oracle_session stream r"
    using intact_session [OF s(6)] by blast
  ultimately show ?thesis
    using s t unfolding run_trusted_def
    by (intro disjI2 exI [of _ a] exI [of _ prog] exI [of _ params] exI [of _ stream] exI [of _ n] exI [of _ r])
      (simp split: if_splits)
qed simp

theorem trade_main_sound_witness:
  "\<exists>run r n. trade_main id desk_files (\<lambda>_. True) (\<lambda>_. True) desk_args = Inr run \<and> td_status run = 0 \<and>
     run_session id [] sample_program (trade_config desk_trade_args [] n) = Inr r \<and> n \<noteq> 0 \<and>
     oracle_session [] r \<and> td_files run = csv_files ''d'' r"
proof -
  obtain run where run: "trade_main id desk_files (\<lambda>_. True) (\<lambda>_. True) desk_args = Inr run" "td_status run = 0"
    using desk_session by blast
  from trade_main_sound [OF run(1)] run(2) desk_args_ok obtain a prog params stream n r where r:
    "a = desk_trade_args" "load_program desk_files (ta_strategy a) = Inr prog"
    "trade_params a prog = Some params" "trade_input desk_files a = Inr (Some stream)" "n \<noteq> 0"
    "run_session id stream prog (trade_config a params n) = Inr r" "session_intact r"
    "length stream < 2 ^ 64 \<longrightarrow> oracle_session stream r"
    "ta_csv_dir a \<noteq> [] \<longrightarrow> td_files run = csv_files (ta_csv_dir a) r" by (auto split: if_splits)
  have "ta_strategy a = ''s''" "ta_csv_dir a = ''d''" "ta_gen a = 0" "ta_file a = ''f''" "ta_params a = []"
    by (simp_all add: r(1) desk_trade_args_def default_trade_args_def)
  moreover from this r(2,3,4) have "prog = sample_program" "stream = []"
    by (simp_all add: load_program_def desk_files_def sample_accepted trade_input_def)
  moreover from calculation r(3) have "params = []" by (simp add: trade_params_def sample_program_def)
  ultimately show ?thesis using run r(5-9) r(1) by auto
qed

subsection \<open>A session over a generated stream\<close>

lemma session_frames_framed:
  "list_all (\<lambda>b. length b < 65536) bs \<Longrightarrow> session_frames (framed bs) = (bs, [])"
proof (induction bs)
  case (Cons b bs)
  obtain x y where xy: "store_be16 (of_nat (length b)) = [x, y]" by (rule length2E [OF length_store(1)])
  have "be16 [x, y] = of_nat (length b)" using be16_store [of "of_nat (length b)" "[]"] xy by simp
  then have "unat (be16 [x, y]) = length b" using Cons.prems by (simp add: unat_of_nat take_bit_nat_eq_self)
  then show ?case using Cons xy by (simp add: frame_def framed_def Let_def)
qed (simp add: framed_def)

lemma trade_gen_config_ok: "gen_config_ok (trade_gen_config a)"
  by (simp add: gen_config_ok_def trade_gen_config_def default_gen_config_def mid_price_def mid_ok_def Let_def upt_rec)

lemma generated_input:
  assumes "0 < unat (ta_gen a)" "unat (ta_gen a) \<le> 2 ^ 20" "engine_init book_price_levels book_ref_capacity = Some e0"
  shows "\<exists>bodies e. trade_input files a = Inr (Some (framed bodies)) \<and> session_frames (framed bodies) = (bodies, []) \<and>
    list_all (\<lambda>b. dm_type (decoded b) \<noteq> Unknown) bodies \<and> length bodies = unat (ta_gen a) + 4 \<and>
    run_engine (map decoded bodies) e0 = Some e \<and> errors (be_ctr e) = 0"
proof -
  let ?n = "unat (ta_gen a)"
  have "?n * unat (gc_max_shares (trade_gen_config a)) < 2 ^ 32" "gc_max_price (trade_gen_config a) < book_price_levels"
    "?n \<le> unat book_ref_capacity" "?n < 2 ^ 31"
    using assms(2) by (simp_all add: trade_gen_config_def default_gen_config_def book_price_levels_def book_ref_capacity_def)
  then obtain g0 bodies g e where gen: "new_generator (trade_gen_config a) = Some g0"
    "generate ?n g0 = Some (framed bodies, g)" "list_all frameable bodies"
    "list_all (\<lambda>b. dm_type (decoded b) \<noteq> Unknown) bodies" "length bodies = ?n + 4"
    "clean_run (map decoded bodies) e0" "run_engine (map decoded bodies) e0 = Some e"
    using generated_stream [OF trade_gen_config_ok _ _ assms(3)] by blast
  have "errors (be_ctr e0) = 0" using engine_init_ctr [OF assms(3)] by (simp add: errors_def no_counters_def)
  then have "errors (be_ctr e) = 0" using clean_run_errors [OF gen(6,7)] by simp
  moreover have "session_frames (framed bodies) = (bodies, [])"
    using gen(3) by (intro session_frames_framed) (auto simp: list_all_iff frameable_def)
  moreover have "ta_gen a > 0" using assms(1) by (simp add: word_less_nat_alt)
  ultimately show ?thesis using gen by (auto simp: trade_input_def)
qed

lemma session_accepts:
  assumes "run_session lg (framed bodies) prog sc = Inr r" "session_frames (framed bodies) = (bodies, [])"
    "list_all (\<lambda>b. dm_type (decoded b) \<noteq> Unknown) bodies" "length bodies < 2 ^ 64"
    "engine_init book_price_levels book_ref_capacity = Some e0"
    "run_engine (map decoded bodies) e0 = Some e" "errors (be_ctr e) = 0"
  shows "session_intact r"
proof -
  obtain s0 s where s0: "new_session prog sc = Inr s0" "session_bodies lg (sc_locate sc) bodies s0 = Inr s"
    "close_session lg sc False s = Inr r"
    using assms(1) by (auto simp: run_session_bodies session_inversion assms(2))
  note init = new_session_Inr [OF s0(1)]
  have eng: "ss_eng s0 = e0" using init assms(5) by simp
  have "errors (be_ctr e0) = 0" using engine_init_ctr [OF assms(5)] by (simp add: errors_def no_counters_def)
  then have run: "run_engine (session_messages bodies) e0 = Some (ss_eng s)"
    "unat (ss_malformed s) = length (filter (\<lambda>b. dm_type (decoded b) = Unknown) bodies)"
    using session_bodies_engine [OF s0(2)] init assms(4) by (simp_all add: eng)
  have "session_messages bodies = map decoded bodies" "filter (\<lambda>b. dm_type (decoded b) = Unknown) bodies = []"
    using assms(3) by (auto simp: session_messages_def filter_id_conv filter_empty_conv list_all_iff)
  then have "ss_eng s = e" "ss_malformed s = 0" using run assms(6) by (simp_all add: unat_eq_0)
  moreover obtain s2 om where "r = summary sc False s2 om" "ss_eng s2 = ss_eng s" "ss_malformed s2 = ss_malformed s"
    using close_session_Inr [OF s0(3)] by blast
  ultimately show ?thesis using assms(7) by (simp add: intact_errors summary_def)
qed

lemma foldl_update_length: "length (foldl (\<lambda>ps i. if P i then ps[i := v] else ps) ps is) = length ps"
  by (induction "is" arbitrary: ps) simp_all

lemma override_params_length:
  "override_params names kvs ps = Some qs \<Longrightarrow> length qs = length ps"
proof (induction kvs arbitrary: ps)
  case (Cons kv kvs)
  then obtain ps1 where "override_param names kv ps = Some ps1" "length qs = length ps1"
    by (auto split: Option.bind_splits)
  then show ?case by (auto simp: override_param_def foldl_update_length split: if_splits prod.splits)
qed simp

lemma trade_finish_status:
  assumes "session_intact r"
  shows "case trade_finish mkdir writable dir r of
    Inl e \<Rightarrow> e \<in> {Bad_bar_secs, Bad_session (Vm_fault Cast_fault), Bad_session Bad_cast, Bad_session Int_overflow, No_directory}
  | Inr run \<Rightarrow> td_status run = 0 \<or> td_status run = 1"
  using assms write_csvs_all [of writable dir r] by (auto simp: trade_finish_def split: prod.splits)

lemma load_program_accepted: "load_program files path = Inr prog \<Longrightarrow> \<exists>img. parse img = Inr prog"
  by (auto simp: load_program_def split: option.splits sum.splits)

lemma trade_params_length: "trade_params a prog = Some params \<Longrightarrow> length params = length (pg_defaults prog)"
  by (simp add: trade_params_def override_params_length)

text \<open>
  Property C40. A session over a generated stream is never rejected: with acceptable arguments, a
  strategy that raises each signal at most once and at most \<open>2 ^ 20 - 4\<close> generated messages the
  program ends with status 0, or 1 for an unknown parameter or a file that cannot be written; the
  only other ends are a directory that cannot be made, a float that an integer cannot represent,
  and an \<open>int\<close> counter that overflows (very short bars over long gaps in time). It never ends with
  status 3.
\<close>

theorem trade_generated_accepted:
  assumes "parse_args args = Some a" "load_program files (ta_strategy a) = Inr prog" "signals_once prog"
    "0 < unat (ta_gen a)" "unat (ta_gen a) \<le> 2 ^ 20 - 4"
  shows "case trade_main lg files mkdir writable args of
    Inl e \<Rightarrow> e \<in> {Bad_bar_secs, Bad_session (Vm_fault Cast_fault), Bad_session Bad_cast, Bad_session Int_overflow, No_directory}
  | Inr run \<Rightarrow> td_status run = 0 \<or> td_status run = 1"
proof (cases "trade_params a prog")
  case params: (Some params)
  obtain e0 where e0: "engine_init book_price_levels book_ref_capacity = Some e0" using session_engine_exists by blast
  have few: "unat (ta_gen a) \<le> 2 ^ 20" using assms(5) by simp
  obtain bodies e where b: "trade_input files a = Inr (Some (framed bodies))"
    "session_frames (framed bodies) = (bodies, [])" "list_all (\<lambda>b. dm_type (decoded b) \<noteq> Unknown) bodies"
    "length bodies = unat (ta_gen a) + 4" "run_engine (map decoded bodies) e0 = Some e" "errors (be_ctr e) = 0"
    using generated_input [OF assms(4) few e0] by blast
  note main = trade_main_def assms(1,2) params b(1) trade_session_def
  show ?thesis
  proof (cases "bar_interval (ta_bar_secs a)")
    case (Some n)
    let ?sc = "trade_config a params n"
    have n: "sc_bar_ns ?sc \<noteq> 0" using bar_interval_ok [OF assms(1) Some] by (simp add: trade_config_def)
    obtain img where img: "parse img = Inr prog" using load_program_accepted [OF assms(2)] by blast
    have "case run_session lg (framed bodies) prog ?sc of
        Inl e \<Rightarrow> e = Vm_fault Cast_fault \<or> e = Bad_cast \<or> e = Int_overflow | Inr res \<Rightarrow> True"
      using assms(5) by (intro session_outcome [OF img assms(3) n])
        (simp_all add: b(2,4) trade_params_length [OF params] trade_config_def)
    then show ?thesis
      using trade_finish_status [of _ mkdir writable "ta_csv_dir a"]
        session_accepts [OF _ b(2,3) _ e0 b(5,6), of lg prog ?sc] b(4) assms(5)
      by (cases "run_session lg (framed bodies) prog ?sc") (auto simp: main Some)
  qed (simp add: main)
qed (simp add: trade_main_def assms(1,2) trade_fails_def)

text \<open>One generated message.\<close>

definition generated_args :: trade_args where
  "generated_args = default_trade_args\<lparr>ta_strategy := ''s'', ta_gen := 1\<rparr>"

lemma generated_args_ok: "parse_args [''--strategy'', ''s'', ''--gen'', ''1''] = Some generated_args"
proof -
  have "strtoull ''1'' = 1" by (simp add: strtoull_def read_decimal_def is_blank_def is_digit_def)
  then have "trade_options [''--strategy'', ''s'', ''--gen'', ''1''] default_trade_args = Some generated_args"
    by (simp add: trade_option_def generated_args_def)
  moreover have "args_ok generated_args"
    using default_floats_ok by (simp add: args_ok_def generated_args_def default_trade_args_def)
  ultimately show ?thesis by (simp add: parse_args_def)
qed

theorem trade_generated_accepted_witness:
  "case trade_main id desk_files (\<lambda>_. True) (\<lambda>_. True) [''--strategy'', ''s'', ''--gen'', ''1''] of
     Inl e \<Rightarrow> e \<in> {Bad_bar_secs, Bad_session (Vm_fault Cast_fault), Bad_session Bad_cast, Bad_session Int_overflow, No_directory}
   | Inr run \<Rightarrow> td_status run = 0 \<or> td_status run = 1"
  by (rule trade_generated_accepted [OF generated_args_ok _ signals_once_sample])
    (simp_all add: generated_args_def default_trade_args_def load_program_def desk_files_def sample_accepted)

end
